(* ===== verification/Prelude.thy ===== *)
theory Prelude
  imports Main "HOL-Library.Word" "HOL-Library.List_Lexorder" "HOL-Library.Char_ord"
    "HOL-Library.Product_Lexorder" "HOL-Library.Sublist"
begin

text \<open>
  Shared vocabulary of the development: bytes and byte strings, Rust strings by their UTF-8
  bytes, the error type and the three outcomes of a call (value, error, panic), key bounds,
  big-endian integers and the byte-string successor that turns a prefix into a scan bound.
  Rust compares byte slices lexicographically, which is the order of
  \<^theory_text>\<open>HOL-Library.List_Lexorder\<close> on lists of \<open>8 word\<close>.
  Error messages keep their fixed text; the values a message interpolates are left out.
\<close>

named_theorems bytes_simps \<open>lengths and round trips of the byte codecs\<close>
named_theorems res_simps \<open>the outcome monad\<close>

section \<open>Errors and outcomes\<close>

datatype bkn_error =
    Backend string
  | TableNotFound string
  | NotFound
  | Encoding string
  | ReservedTableName string
  | DatabaseLocked string
  | DuplicateKey string string
  | SchemaMismatch string string
  | ConstraintViolation string string
  | Corruption string
  | InvalidQuery string

text \<open>\<open>Ok\<close> and \<open>Err\<close> are the two constructors of \<open>Result\<close>; \<open>Panic\<close> is a call that panics.\<close>

datatype 'a res = Ok 'a | Err bkn_error | Panic

definition bind_res :: "'a res \<Rightarrow> ('a \<Rightarrow> 'b res) \<Rightarrow> 'b res" where
  "bind_res r f = (case r of Ok x \<Rightarrow> f x | Err e \<Rightarrow> Err e | Panic \<Rightarrow> Panic)"

lemma bind_res_simps [simp, res_simps]:
  "bind_res (Ok x) f = f x" "bind_res (Err e) f = Err e" "bind_res Panic f = Panic"
  by (simp_all add: bind_res_def)

lemma bind_res_Ok_iff [res_simps]: "bind_res r f = Ok y \<longleftrightarrow> (\<exists>x. r = Ok x \<and> f x = Ok y)"
  by (cases r) auto

lemma bind_res_assoc [res_simps]: "bind_res (bind_res r f) g = bind_res r (\<lambda>x. bind_res (f x) g)"
  by (cases r) auto

lemma bind_res_cong [fundef_cong]:
  "r = r' \<Longrightarrow> (\<And>x. r' = Ok x \<Longrightarrow> f x = f' x) \<Longrightarrow> bind_res r f = bind_res r' f'"
  by (cases r') auto

definition ok_or :: "'a option \<Rightarrow> bkn_error \<Rightarrow> 'a res" where
  "ok_or x e = (case x of Some y \<Rightarrow> Ok y | None \<Rightarrow> Err e)"

lemma ok_or_simps [simp]: "ok_or (Some y) e = Ok y" "ok_or None e = Err e"
  by (simp_all add: ok_or_def)

definition expect :: "'a option \<Rightarrow> 'a res" where
  "expect x = (case x of Some y \<Rightarrow> Ok y | None \<Rightarrow> Panic)"

lemma expect_simps [simp]: "expect (Some y) = Ok y" "expect None = Panic"
  by (simp_all add: expect_def)

text \<open>A call that returns a value satisfying \<open>Q\<close>: total correctness, composed along \<open>bind_res\<close>.\<close>

definition ok_with :: "'a res \<Rightarrow> ('a \<Rightarrow> bool) \<Rightarrow> bool" where
  "ok_with r Q = (case r of Ok x \<Rightarrow> Q x | _ \<Rightarrow> False)"

lemma ok_with_simps [simp]:
  "ok_with (Ok x) Q = Q x" "ok_with (Err e) Q = False" "ok_with Panic Q = False"
  "ok_with (bind_res r f) Q = ok_with r (\<lambda>x. ok_with (f x) Q)"
  by (simp_all add: ok_with_def bind_res_def split: res.split)

lemma ok_with_iff: "ok_with r Q \<longleftrightarrow> (\<exists>x. r = Ok x \<and> Q x)"
  by (cases r) simp_all

lemma ok_with_mono: "ok_with r P \<Longrightarrow> (\<And>x. P x \<Longrightarrow> Q x) \<Longrightarrow> ok_with r Q"
  by (cases r) simp_all

text \<open>\<open>iter.map(f).collect::<Result<Vec<_>, _>>()\<close>: stop at the first failing element.\<close>

fun traverse :: "('a \<Rightarrow> 'b res) \<Rightarrow> 'a list \<Rightarrow> 'b list res" where
  "traverse f [] = Ok []"
| "traverse f (x # xs) = bind_res (f x) (\<lambda>y. bind_res (traverse f xs) (\<lambda>ys. Ok (y # ys)))"

lemma traverse_cong [fundef_cong]:
  "xs = ys \<Longrightarrow> (\<And>x. x \<in> set ys \<Longrightarrow> f x = g x) \<Longrightarrow> traverse f xs = traverse g ys"
  by (induction ys arbitrary: xs) auto

lemma traverse_Ok: "(\<And>x. x \<in> set xs \<Longrightarrow> f x = Ok (g x)) \<Longrightarrow> traverse f xs = Ok (map g xs)"
  by (induction xs) auto

lemma traverse_map: "traverse f (map g xs) = traverse (\<lambda>x. f (g x)) xs"
  by (induction xs) auto

lemma traverse_map_Ok [simp]: "traverse (\<lambda>x. x) (map Ok xs) = Ok xs"
  by (induction xs) auto

text \<open>A \<open>for\<close> loop whose body threads a state and may leave with \<open>?\<close>.\<close>

fun for_res :: "('a \<Rightarrow> 's \<Rightarrow> 's res) \<Rightarrow> 'a list \<Rightarrow> 's \<Rightarrow> 's res" where
  "for_res f [] s = Ok s"
| "for_res f (x # xs) s = bind_res (f x s) (for_res f xs)"

lemma for_res_append: "for_res f (xs @ ys) s = bind_res (for_res f xs s) (for_res f ys)"
  by (induction xs arbitrary: s) (auto simp: bind_res_def split: res.splits)

lemma for_res_map: "for_res f (map g xs) s = for_res (\<lambda>x. f (g x)) xs s"
  by (induction xs arbitrary: s) (auto simp: bind_res_def split: res.splits)

text \<open>A loop keeps whatever its body keeps, when every body run returns.\<close>

lemma for_res_invariant:
  assumes "I s" and "\<And>x s. x \<in> set xs \<Longrightarrow> I s \<Longrightarrow> \<exists>s'. f x s = Ok s' \<and> I s'"
  shows "\<exists>s'. for_res f xs s = Ok s' \<and> I s'"
  using assms
proof (induction xs arbitrary: s)
  case Nil
  then show ?case by simp
next
  case (Cons x xs)
  then obtain s1 where "f x s = Ok s1" "I s1" by (meson list.set_intros(1))
  moreover have "\<exists>s'. for_res f xs s1 = Ok s' \<and> I s'"
    using Cons.IH [OF \<open>I s1\<close>] Cons.prems(2) by (meson list.set_intros(2))
  ultimately show ?case by simp
qed

lemma for_res_cong:
  assumes "xs = ys" "\<And>x s. x \<in> set ys \<Longrightarrow> f x s = g x s"
  shows "for_res f xs s = for_res g ys s"
proof -
  have "for_res f ys s = for_res g ys s" using assms(2)
  proof (induction ys arbitrary: s)
    case (Cons y ys)
    then have "for_res f ys = for_res g ys" by (intro ext) simp
    then show ?case using Cons.prems by simp
  qed simp
  then show ?thesis using assms(1) by simp
qed

text \<open>The loop rule: \<open>I\<close> relates the elements already processed to the state.\<close>

lemma for_res_rule:
  assumes "I [] s" and "\<And>ys x zs s. xs = ys @ x # zs \<Longrightarrow> I ys s \<Longrightarrow> ok_with (f x s) (I (ys @ [x]))"
  shows "ok_with (for_res f xs s) (I xs)"
proof -
  have "ok_with (for_res f zs s) (I xs)" if "xs = ys @ zs" "I ys s" for ys zs s
    using that
  proof (induction zs arbitrary: ys s)
    case (Cons x zs)
    have "ok_with (f x s) (I (ys @ [x]))" using assms(2) Cons.prems by simp
    then show ?case using Cons.IH [of "ys @ [x]"] Cons.prems(1) by (auto intro: ok_with_mono)
  qed simp
  from this [of "[]" xs s] assms(1) show ?thesis by simp
qed

text \<open>
  Refinement of outcomes: the concrete call fails exactly when the specification does, with the same error, and
  otherwise returns a value related to the specified one. It composes along \<open>bind_res\<close> and loops.
\<close>

definition refines :: "'a res \<Rightarrow> 'c res \<Rightarrow> ('a \<Rightarrow> 'c \<Rightarrow> bool) \<Rightarrow> bool" where
  "refines spec impl R = (case spec of Ok a \<Rightarrow> ok_with impl (R a) | Err e \<Rightarrow> impl = Err e | Panic \<Rightarrow> False)"

lemma refines_simps [simp]: "refines (Ok a) impl R = ok_with impl (R a)" "refines (Err e) impl R = (impl = Err e)" "refines Panic impl R = False"
  by (simp_all add: refines_def)

lemma refines_mono: "refines spec impl R \<Longrightarrow> (\<And>a c. R a c \<Longrightarrow> Q a c) \<Longrightarrow> refines spec impl Q"
  by (cases spec) (auto intro: ok_with_mono)

lemma refines_bind:
  "refines spec impl R \<Longrightarrow> (\<And>a c. spec = Ok a \<Longrightarrow> impl = Ok c \<Longrightarrow> R a c \<Longrightarrow> refines (f a) (g c) Q) \<Longrightarrow> refines (bind_res spec f) (bind_res impl g) Q"
  by (cases spec; cases impl) auto

lemma refines_for_res:
  assumes "R a c" and "\<And>x a c. x \<in> set xs \<Longrightarrow> R a c \<Longrightarrow> refines (f x a) (g x c) R"
  shows "refines (for_res f xs a) (for_res g xs c) R"
  using assms
proof (induction xs arbitrary: a c)
  case (Cons x xs)
  have "refines (f x a) (g x c) R" using Cons.prems by simp
  then show ?case unfolding for_res.simps using Cons.IH Cons.prems(2) by (intro refines_bind) auto
qed simp

section \<open>Bytes, strings and bounds\<close>

type_synonym byte = "8 word"
type_synonym bytes = "8 word list"
type_synonym u16 = "16 word"
type_synonym u32 = "32 word"
type_synonym u64 = "64 word"

lemma unat_byte_less: "unat (b :: byte) < 256"
proof -
  have "unat b < 2 ^ LENGTH(8)" by (rule unsigned_less)
  then show ?thesis by simp
qed

text \<open>
  A Rust string is the list of its UTF-8 bytes, one \<open>char\<close> per byte; \<open>as_bytes\<close> is
  \<open>str::as_bytes\<close> and \<open>string_of\<close> its inverse.
\<close>

definition as_bytes :: "string \<Rightarrow> bytes" where
  "as_bytes s = map (\<lambda>c. word_of_nat (of_char c)) s"

definition string_of :: "bytes \<Rightarrow> string" where
  "string_of bs = map (\<lambda>b. char_of (unat b)) bs"

lemma length_as_bytes [simp, bytes_simps]: "length (as_bytes s) = length s"
  by (simp add: as_bytes_def)

lemma as_bytes_append [simp]: "as_bytes (s @ t) = as_bytes s @ as_bytes t"
  by (simp add: as_bytes_def)

lemma as_bytes_simps [simp]: "as_bytes [] = []" "as_bytes (c # s) = word_of_nat (of_char c) # as_bytes s"
  by (simp_all add: as_bytes_def)

lemma string_of_as_bytes [simp, bytes_simps]: "string_of (as_bytes s) = s"
proof -
  have "unat (word_of_nat (of_char c) :: byte) = of_char c" for c
    by (simp add: unsigned_of_nat take_bit_nat_eq_self)
  then show ?thesis
    by (simp add: string_of_def as_bytes_def o_def)
qed

lemma as_bytes_inject [simp]: "as_bytes s = as_bytes t \<longleftrightarrow> s = t"
  by (metis string_of_as_bytes)

lemma as_bytes_string_of [simp]: "as_bytes (string_of bs) = bs"
proof -
  have "(of_char (char_of (unat b) :: char) :: nat) = unat b" for b :: byte
    using unat_byte_less [of b] by simp
  then show ?thesis
    by (simp add: string_of_def as_bytes_def o_def)
qed

text \<open>
  UTF-8 well-formedness as \<open>String::from_utf8\<close> checks it (Unicode table 3-7): every string value
  of the program satisfies it, and a byte string that does not is rejected.
\<close>

fun utf8_valid :: "bytes \<Rightarrow> bool" where
  "utf8_valid [] = True"
| "utf8_valid (a # r) =
    (if a \<le> 0x7F then utf8_valid r
     else (case r of [] \<Rightarrow> False | b # r1 \<Rightarrow>
       if 0xC2 \<le> a \<and> a \<le> 0xDF then 0x80 \<le> b \<and> b \<le> 0xBF \<and> utf8_valid r1
       else (case r1 of [] \<Rightarrow> False | c # r2 \<Rightarrow>
         if 0xE0 \<le> a \<and> a \<le> 0xEF then
           (if a = 0xE0 then 0xA0 else 0x80) \<le> b \<and> b \<le> (if a = 0xED then 0x9F else 0xBF)
           \<and> 0x80 \<le> c \<and> c \<le> 0xBF \<and> utf8_valid r2
         else (case r2 of [] \<Rightarrow> False | d # r3 \<Rightarrow>
           0xF0 \<le> a \<and> a \<le> 0xF4
           \<and> (if a = 0xF0 then 0x90 else 0x80) \<le> b \<and> b \<le> (if a = 0xF4 then 0x8F else 0xBF)
           \<and> 0x80 \<le> c \<and> c \<le> 0xBF \<and> 0x80 \<le> d \<and> d \<le> 0xBF \<and> utf8_valid r3))))"

definition from_utf8 :: "bytes \<Rightarrow> string option" where
  "from_utf8 bs = (if utf8_valid bs then Some (string_of bs) else None)"

abbreviation str_ok :: "string \<Rightarrow> bool" where
  "str_ok s \<equiv> utf8_valid (as_bytes s)"

lemma from_utf8_as_bytes [simp]: "str_ok s \<Longrightarrow> from_utf8 (as_bytes s) = Some s"
  by (simp add: from_utf8_def)

text \<open>\<open>std::ops::Bound\<close> and membership in a range of keys.\<close>

datatype 'a bound = Included 'a | Excluded 'a | Unbounded

definition lo_ok :: "'a::linorder bound \<Rightarrow> 'a \<Rightarrow> bool" where
  "lo_ok lo k = (case lo of Unbounded \<Rightarrow> True | Included b \<Rightarrow> b \<le> k | Excluded b \<Rightarrow> b < k)"

definition hi_ok :: "'a::linorder bound \<Rightarrow> 'a \<Rightarrow> bool" where
  "hi_ok hi k = (case hi of Unbounded \<Rightarrow> True | Included b \<Rightarrow> k \<le> b | Excluded b \<Rightarrow> k < b)"

definition in_range :: "'a::linorder bound \<Rightarrow> 'a bound \<Rightarrow> 'a \<Rightarrow> bool" where
  "in_range lo hi k \<longleftrightarrow> lo_ok lo k \<and> hi_ok hi k"

lemma in_range_simps [simp]:
  "lo_ok Unbounded k" "lo_ok (Included a) k \<longleftrightarrow> a \<le> k" "lo_ok (Excluded a) k \<longleftrightarrow> a < k"
  "hi_ok Unbounded k" "hi_ok (Included a) k \<longleftrightarrow> k \<le> a" "hi_ok (Excluded a) k \<longleftrightarrow> k < a"
  by (simp_all add: lo_ok_def hi_ok_def)

section \<open>Lexicographic order and prefixes\<close>

lemma append_less_iff [simp]: "(xs @ ys :: 'a::linorder list) < xs @ zs \<longleftrightarrow> ys < zs"
  by (induction xs) auto

lemma append_le_iff [simp]: "(xs @ ys :: 'a::linorder list) \<le> xs @ zs \<longleftrightarrow> ys \<le> zs"
  by (induction xs) auto

lemma le_append [simp]: "(xs :: 'a::linorder list) \<le> xs @ ys"
  by (induction xs) auto

lemma prefix_imp_le: "prefix xs ys \<Longrightarrow> (xs :: 'a::linorder list) \<le> ys"
  by (auto simp: prefix_def)

lemma less_append_iff_same_length:
  assumes "length xs = length ys"
  shows "(xs @ us :: 'a::linorder list) < ys @ vs \<longleftrightarrow> xs < ys \<or> xs = ys \<and> us < vs"
  using assms by (induction xs ys rule: list_induct2) auto

lemma byte_le_max: "(b :: byte) \<le> 0xFF"
  using unat_byte_less [of b] by (simp add: word_le_nat_alt)

text \<open>
  The byte-string successor: drop trailing \<open>0xFF\<close> bytes, increment the byte before them. The
  sources write it as a loop popping from the end (\<open>succ_rev\<close> works on the reversed string).
\<close>

fun succ_rev :: "bytes \<Rightarrow> bytes option" where
  "succ_rev [] = None"
| "succ_rev (b # bs) = (if b \<noteq> 0xFF then Some (rev ((b + 1) # bs)) else succ_rev bs)"

definition byte_successor :: "bytes \<Rightarrow> bytes option" where
  "byte_successor p = succ_rev (rev p)"

lemma succ_rev_append:
  "succ_rev (bs @ [a]) =
    (case succ_rev bs of Some u \<Rightarrow> Some (a # u) | None \<Rightarrow> if a \<noteq> 0xFF then Some [a + 1] else None)"
  by (induction bs) auto

lemma byte_successor_simps:
  "byte_successor [] = None"
  "byte_successor (a # p) =
    (case byte_successor p of Some u \<Rightarrow> Some (a # u) | None \<Rightarrow> if a \<noteq> 0xFF then Some [a + 1] else None)"
  by (simp_all add: byte_successor_def succ_rev_append)

lemma unat_byte_Suc: "(a :: byte) \<noteq> 0xFF \<Longrightarrow> unat (a + 1) = Suc (unat a)"
  using unat_byte_less [of a] by (simp add: unat_word_ariths word_unat_eq_iff)

lemma less_byte_Suc_iff: "(a :: byte) \<noteq> 0xFF \<Longrightarrow> x < a + 1 \<longleftrightarrow> x \<le> a"
  by (simp add: word_less_nat_alt word_le_nat_alt unat_byte_Suc less_Suc_eq_le)

text \<open>
  The two facts every prefix scan rests on: the keys between a prefix (inclusive) and its
  successor (exclusive) are exactly the keys with that prefix, and a prefix without a successor
  consists of \<open>0xFF\<close> bytes only, so every key at or after it has it as a prefix.
\<close>

theorem byte_successor_None:
  "byte_successor p = None \<Longrightarrow> p \<le> k \<longleftrightarrow> prefix p k"
proof (induction p arbitrary: k)
  case (Cons b p)
  have "\<not> (0xFF :: byte) < c" for c
    by (simp add: not_less byte_le_max)
  moreover have "b = 0xFF" "byte_successor p = None"
    using Cons.prems by (auto simp: byte_successor_simps split: option.splits if_splits)
  ultimately show ?case
    using Cons.IH by (cases k) auto
qed simp

theorem byte_successor_range:
  "byte_successor p = Some u \<Longrightarrow> p \<le> k \<and> k < u \<longleftrightarrow> prefix p k"
proof (induction p arbitrary: u k)
  case Nil
  then show ?case by (simp add: byte_successor_simps)
next
  case (Cons a p)
  show ?case
  proof (cases "byte_successor p")
    case None
    with Cons.prems have "u = [a + 1]" "a \<noteq> 0xFF"
      by (auto simp: byte_successor_simps split: if_splits)
    then have "a # p \<le> c # k' \<and> c # k' < u \<longleftrightarrow> a = c \<and> p \<le> k'" for c k'
      by (simp add: less_byte_Suc_iff) (metis leD order_refl)
    with byte_successor_None [OF None] show ?thesis
      by (cases k) simp_all
  next
    case (Some v)
    with Cons.prems have "u = a # v"
      by (auto simp: byte_successor_simps)
    then have "a # p \<le> c # k' \<and> c # k' < u \<longleftrightarrow> a = c \<and> p \<le> k' \<and> k' < v" for c k'
      by simp (metis less_asym)
    with Cons.IH [OF Some] show ?thesis
      by (cases k) simp_all
  qed
qed

lemma byte_successor_eq_None_iff: "byte_successor p = None \<longleftrightarrow> set p \<subseteq> {0xFF}"
proof (induction p)
  case (Cons a p)
  then show ?case by (cases "byte_successor p") (simp_all add: byte_successor_simps)
qed (simp add: byte_successor_simps)

text \<open>The upper bound of a prefix scan: the successor, or none for an all-\<open>0xFF\<close> prefix.\<close>

definition prefix_hi :: "bytes option \<Rightarrow> bytes bound" where
  "prefix_hi u = (case u of Some e \<Rightarrow> Excluded e | None \<Rightarrow> Unbounded)"

lemma prefix_hi_simps [simp]: "prefix_hi None = Unbounded" "prefix_hi (Some u) = Excluded u"
  by (simp_all add: prefix_hi_def)

lemma in_range_prefix: "in_range (Included p) (prefix_hi (byte_successor p)) k \<longleftrightarrow> prefix p k"
  using byte_successor_range [of p _ k] byte_successor_None [of p k]
  by (cases "byte_successor p") (auto simp: in_range_def)

section \<open>Big-endian integers\<close>

text \<open>\<open>be n x\<close> is the \<open>n\<close>-byte big-endian form of \<open>x\<close>; \<open>of_be\<close> reads one back.\<close>

fun be :: "nat \<Rightarrow> nat \<Rightarrow> bytes" where
  "be 0 x = []"
| "be (Suc n) x = word_of_nat (x div 256 ^ n) # be n (x mod 256 ^ n)"

definition of_be :: "bytes \<Rightarrow> nat" where
  "of_be bs = foldl (\<lambda>acc b. acc * 256 + unat b) 0 bs"

lemma length_be [simp, bytes_simps]: "length (be n x) = n"
  by (induction n arbitrary: x) auto

lemma foldl_be: "foldl (\<lambda>acc b. acc * 256 + unat (b :: byte)) a bs
    = a * 256 ^ length bs + foldl (\<lambda>acc b. acc * 256 + unat b) 0 bs"
proof (induction bs arbitrary: a)
  case (Cons b bs)
  show ?case
    by (simp add: Cons [of "a * 256 + unat b"] Cons [of "unat b"] distrib_right)
qed simp

lemma of_be_simps: "of_be [] = 0" "of_be (b # bs) = unat b * 256 ^ length bs + of_be bs"
  by (simp_all add: of_be_def foldl_be [of "unat b"])

lemma of_be_less: "of_be bs < 256 ^ length bs"
proof (induction bs)
  case (Cons b bs)
  have "unat b * 256 ^ length bs + of_be bs < (unat b + 1) * 256 ^ length bs"
    using Cons by (simp add: algebra_simps)
  also have "\<dots> \<le> 256 * 256 ^ length bs"
    by (intro mult_right_mono) (use unat_byte_less [of b] in auto)
  finally show ?case by (simp add: of_be_simps)
qed (simp add: of_be_simps)

lemma of_be_be [simp, bytes_simps]: "x < 256 ^ n \<Longrightarrow> of_be (be n x) = x"
proof (induction n arbitrary: x)
  case (Suc n)
  have "x div 256 ^ n < 256"
    using Suc.prems by (simp add: less_mult_imp_div_less mult.commute)
  then have "unat (word_of_nat (x div 256 ^ n) :: byte) = x div 256 ^ n"
    by (simp add: unat_of_nat)
  then show ?case
    using Suc.IH [of "x mod 256 ^ n"] by (simp add: of_be_simps div_mult_mod_eq)
qed (simp add: of_be_simps)

lemma be_of_be [simp]: "be (length bs) (of_be bs) = bs"
proof (induction bs)
  case (Cons b bs)
  have "of_be (b # bs) div 256 ^ length bs = unat b" "of_be (b # bs) mod 256 ^ length bs = of_be bs"
    using of_be_less [of bs] by (simp_all add: of_be_simps)
  with Cons show ?case by simp
qed (simp add: of_be_simps)

lemma less_div_mod_iff:
  "0 < m \<Longrightarrow> (x :: nat) < y \<longleftrightarrow> x div m < y div m \<or> x div m = y div m \<and> x mod m < y mod m"
proof (cases "x div m = y div m")
  case True
  then show ?thesis
    using div_mult_mod_eq [of x m] div_mult_mod_eq [of y m] by (metis nat_add_left_cancel_less less_irrefl)
next
  case False
  then show ?thesis
    by (metis div_le_mono leD leI nat_less_le)
qed

text \<open>Fixed-width big-endian forms compare as the numbers do.\<close>

lemma be_less_iff: "x < 256 ^ n \<Longrightarrow> y < 256 ^ n \<Longrightarrow> be n x < be n y \<longleftrightarrow> x < y"
proof (induction n arbitrary: x y)
  case (Suc n)
  let ?d = "\<lambda>z. z div 256 ^ n"
  have small: "?d x < 256" "?d y < 256"
    using Suc.prems by (simp_all add: less_mult_imp_div_less mult.commute)
  have w: "(word_of_nat (?d x) :: byte) < word_of_nat (?d y) \<longleftrightarrow> ?d x < ?d y"
    "(word_of_nat (?d x) :: byte) = word_of_nat (?d y) \<longleftrightarrow> ?d x = ?d y"
    using small by (simp_all add: word_less_nat_alt word_unat_eq_iff unat_of_nat)
  show ?case
    using Suc.IH [of "x mod 256 ^ n" "y mod 256 ^ n"] w less_div_mod_iff [of "256 ^ n" x y] by simp
qed simp

lemma be_eq_iff: "x < 256 ^ n \<Longrightarrow> y < 256 ^ n \<Longrightarrow> be n x = be n y \<longleftrightarrow> x = y"
  by (metis of_be_be)

text \<open>The widths the formats use.\<close>

definition be16 :: "u16 \<Rightarrow> bytes" where "be16 w = be 2 (unat w)"
definition be32 :: "u32 \<Rightarrow> bytes" where "be32 w = be 4 (unat w)"
definition be64 :: "u64 \<Rightarrow> bytes" where "be64 w = be 8 (unat w)"

definition of_be16 :: "bytes \<Rightarrow> u16" where "of_be16 bs = word_of_nat (of_be bs)"
definition of_be32 :: "bytes \<Rightarrow> u32" where "of_be32 bs = word_of_nat (of_be bs)"
definition of_be64 :: "bytes \<Rightarrow> u64" where "of_be64 bs = word_of_nat (of_be bs)"

lemma length_be_widths [simp, bytes_simps]:
  "length (be16 w) = 2" "length (be32 x) = 4" "length (be64 y) = 8"
  by (simp_all add: be16_def be32_def be64_def)

lemma unat_widths_less: "unat (w :: u16) < 256 ^ 2" "unat (x :: u32) < 256 ^ 4" "unat (y :: u64) < 256 ^ 8"
proof -
  have "unat w < 2 ^ LENGTH(16)" "unat x < 2 ^ LENGTH(32)" "unat y < 2 ^ LENGTH(64)"
    by (rule unsigned_less)+
  then show "unat w < 256 ^ 2" "unat x < 256 ^ 4" "unat y < 256 ^ 8"
    by simp_all
qed

lemma of_be_widths [simp, bytes_simps]:
  "of_be16 (be16 w) = w" "of_be32 (be32 x) = x" "of_be64 (be64 y) = y"
  by (simp_all add: be16_def be32_def be64_def of_be16_def of_be32_def of_be64_def
      of_be_be [OF unat_widths_less(1)] of_be_be [OF unat_widths_less(2)] of_be_be [OF unat_widths_less(3)])

lemma be64_less_iff [simp]: "be64 x < be64 y \<longleftrightarrow> x < y"
  using unat_widths_less(3) [of x] unat_widths_less(3) [of y]
  by (simp add: be64_def be_less_iff word_less_nat_alt)

lemma be64_eq_iff [simp]: "be64 x = be64 y \<longleftrightarrow> x = y"
  by (metis of_be_widths(3))

lemma be64_le_iff [simp]: "be64 x \<le> be64 y \<longleftrightarrow> x \<le> y"
  by (simp add: order_le_less)

lemma be64_of_be64 [simp]: "length bs = 8 \<Longrightarrow> be64 (of_be64 bs) = bs"
  using of_be_less [of bs] be_of_be [of bs]
  by (simp add: be64_def of_be64_def unat_of_nat)

section \<open>Slices\<close>

text \<open>\<open>slice.get(a..b)\<close>: \<open>None\<close> outside the slice (or when the range is reversed).\<close>

definition slice_get :: "nat \<Rightarrow> nat \<Rightarrow> 'a list \<Rightarrow> 'a list option" where
  "slice_get a b xs = (if a \<le> b \<and> b \<le> length xs then Some (take (b - a) (drop a xs)) else None)"

lemma slice_get_append:
  "length xs = a \<Longrightarrow> b = a + length ys \<Longrightarrow> slice_get a b (xs @ ys @ zs) = Some ys"
  by (simp add: slice_get_def)

lemma slice_get_mid [simp]: "slice_get (length xs) (length xs + length ys) (xs @ ys @ zs) = Some ys"
  by (rule slice_get_append) simp_all

lemma slice_get_length: "slice_get a b xs = Some ys \<Longrightarrow> length ys = b - a"
  by (auto simp: slice_get_def split: if_splits)

end
