(* ===== verification/BTree.thy ===== *)
theory BTree
  imports Prelude
begin

text \<open>
  \<open>std::collections::BTreeMap\<close> as the strictly ascending list of its entries, which is what
  iterating over one yields. \<open>map_of\<close> is its abstraction; \<open>sorted_keys\<close> its invariant.
  \<open>bt_range\<close> panics on a reversed range, as \<open>BTreeMap::range\<close> does.
\<close>

type_synonym ('k, 'v) btree = "('k \<times> 'v) list"

abbreviation sorted_keys :: "('k::linorder \<times> 'v) list \<Rightarrow> bool" where
  "sorted_keys m \<equiv> sorted_wrt (<) (map fst m)"

fun bt_insert :: "'k::linorder \<Rightarrow> 'v \<Rightarrow> ('k, 'v) btree \<Rightarrow> ('k, 'v) btree" where
  "bt_insert k v [] = [(k, v)]"
| "bt_insert k v ((a, b) # m) =
    (if k < a then (k, v) # (a, b) # m else if k = a then (k, v) # m else (a, b) # bt_insert k v m)"

fun bt_remove :: "'k::linorder \<Rightarrow> ('k, 'v) btree \<Rightarrow> ('k, 'v) btree" where
  "bt_remove k [] = []"
| "bt_remove k ((a, b) # m) = (if k = a then m else (a, b) # bt_remove k m)"

definition range_panics :: "'k::linorder bound \<Rightarrow> 'k bound \<Rightarrow> bool" where
  "range_panics lo hi = (case (lo, hi) of
      (Excluded a, Excluded b) \<Rightarrow> b \<le> a
    | (Included a, Included b) \<Rightarrow> b < a
    | (Included a, Excluded b) \<Rightarrow> b < a
    | (Excluded a, Included b) \<Rightarrow> b < a
    | _ \<Rightarrow> False)"

definition restrict :: "'k::linorder bound \<Rightarrow> 'k bound \<Rightarrow> ('k, 'v) btree \<Rightarrow> ('k, 'v) btree" where
  "restrict lo hi m = filter (\<lambda>(k, v). in_range lo hi k) m"

definition bt_range :: "'k::linorder bound \<Rightarrow> 'k bound \<Rightarrow> ('k, 'v) btree \<Rightarrow> ('k, 'v) btree res" where
  "bt_range lo hi m = (if range_panics lo hi then Panic else Ok (restrict lo hi m))"

section \<open>Lemmas on ordered association lists\<close>

lemma sorted_keys_Cons [simp]:
  "sorted_keys ((k, v) # m) \<longleftrightarrow> (\<forall>k'\<in>fst ` set m. k < k') \<and> sorted_keys m"
  by auto

lemma sorted_keys_distinct: "sorted_keys m \<Longrightarrow> distinct (map fst m)"
  by (induction m) auto

lemma map_of_below: "sorted_keys ((k, v) # m) \<Longrightarrow> x \<le> k \<Longrightarrow> map_of m x = None"
  by (auto simp: map_of_eq_None_iff dest: bspec)

lemma map_of_iff_mem: "sorted_keys m \<Longrightarrow> map_of m k = Some v \<longleftrightarrow> (k, v) \<in> set m"
  by (simp add: sorted_keys_distinct)

lemma map_of_bt_insert [simp]: "map_of (bt_insert k v m) = (map_of m)(k \<mapsto> v)"
  by (induction k v m rule: bt_insert.induct) auto

lemma keys_bt_insert [simp]: "fst ` set (bt_insert k v m) = insert k (fst ` set m)"
  by (induction k v m rule: bt_insert.induct) auto

lemma sorted_bt_insert [simp]: "sorted_keys m \<Longrightarrow> sorted_keys (bt_insert k v m)"
  by (induction k v m rule: bt_insert.induct) (auto dest: less_trans)

lemma bt_insert_not_Nil [simp]: "bt_insert k v m \<noteq> []"
  by (cases "(k, v, m)" rule: bt_insert.cases) auto

lemma keys_bt_remove: "fst ` set (bt_remove k m) \<subseteq> fst ` set m"
  by (induction k m rule: bt_remove.induct) auto

lemma sorted_bt_remove [simp]: "sorted_keys m \<Longrightarrow> sorted_keys (bt_remove k m)"
  by (induction k m rule: bt_remove.induct) (use keys_bt_remove in \<open>fastforce+\<close>)

lemma map_of_bt_remove [simp]: "sorted_keys m \<Longrightarrow> map_of (bt_remove k m) = (map_of m)(k := None)"
proof (induction k m rule: bt_remove.induct)
  case (2 k a b m)
  then show ?case
    by (auto simp: fun_eq_iff map_of_eq_None_iff)
qed auto

text \<open>Two ascending lists with the same contents are equal, so a specification by \<open>map_of\<close> and
  order determines the list.\<close>

lemma sorted_keys_unique:
  assumes "sorted_keys m" "sorted_keys n" "map_of m = map_of n"
  shows "m = n"
proof -
  have "set m = set n"
    using assms by (metis map_of_iff_mem surj_pair subrelI subset_antisym)
  then have "map fst m = map fst n"
    using assms(1,2) by (intro strict_sorted_equal) auto
  moreover have "map (\<lambda>k. (k, the (map_of m k))) (map fst m) = m" if "sorted_keys m" for m :: "('a \<times> 'b) list"
  proof -
    have "map (\<lambda>p. (fst p, the (map_of m (fst p)))) m = m"
      by (rule map_idI) (metis map_of_iff_mem [OF that] option.sel prod.collapse)
    then show ?thesis by (simp add: o_def)
  qed
  ultimately show ?thesis
    using assms by metis
qed

lemma map_of_filter_key: "map_of (filter (\<lambda>(k, v). P k) m) x = (if P x then map_of m x else None)"
  by (induction m) auto

lemma map_of_restrict [simp]: "map_of (restrict lo hi m) k = (if in_range lo hi k then map_of m k else None)"
  by (simp add: restrict_def map_of_filter_key)

lemma sorted_filter_keys: "sorted_keys m \<Longrightarrow> sorted_keys (filter P m)"
  by (induction m) auto

lemma sorted_restrict [simp]: "sorted_keys m \<Longrightarrow> sorted_keys (restrict lo hi m)"
  by (simp add: restrict_def sorted_filter_keys)

lemma sorted_map_values [simp]: "sorted_keys (map (\<lambda>(k, v). (k, f v)) m) \<longleftrightarrow> sorted_keys m"
  by (simp add: o_def case_prod_beta')

lemma map_of_map_values [simp]: "map_of (map (\<lambda>(k, v). (k, f v)) m) k = map_option f (map_of m k)"
  by (induction m) auto

text \<open>\<open>range_panics\<close> only rejects ranges no key can be in.\<close>

lemma range_panics_empty: "range_panics lo hi \<Longrightarrow> \<not> in_range lo hi k"
  by (cases lo; cases hi) (auto simp: range_panics_def in_range_def)

lemma restrict_empty: "(\<And>k. \<not> in_range lo hi k) \<Longrightarrow> restrict lo hi m = []"
  by (auto simp: restrict_def)

text \<open>Applying a list of insertions and removals in order.\<close>

definition bt_apply :: "'k::linorder \<Rightarrow> 'v option \<Rightarrow> ('k, 'v) btree \<Rightarrow> ('k, 'v) btree" where
  "bt_apply k v m = (case v of Some x \<Rightarrow> bt_insert k x m | None \<Rightarrow> bt_remove k m)"

lemma sorted_bt_apply [simp]: "sorted_keys m \<Longrightarrow> sorted_keys (bt_apply k v m)"
  by (simp add: bt_apply_def split: option.splits)

lemma map_of_bt_apply [simp]: "sorted_keys m \<Longrightarrow> map_of (bt_apply k v m) = (map_of m)(k := v)"
  by (auto simp: bt_apply_def split: option.splits)

end
