(* ===== verification/Storage.thy ===== *)
theory Storage
  imports BTree
begin

text \<open>
  The storage interface (\<open>bkndb-core/src/storage.rs\<close>), the reserved table names
  (\<open>reserved.rs\<close>) and the raw key/value facade (\<open>kv/mod.rs\<close>, \<open>kv/txn.rs\<close>).
  The Rust traits become records of operations, one per implementation; the code that is generic
  in a trait takes such a record as its first argument. What the traits promise is stated by the
  locales \<open>storage_read\<close>, \<open>storage_write\<close> and \<open>storage_backend\<close>, whose parameters
  \<open>inv\<close> and \<open>view\<close> are a backend's representation invariant and the map from table and key
  to value it stands for.
\<close>

section \<open>The traits\<close>

type_synonym table = string
type_synonym kv_pairs = "(bytes \<times> bytes) list"
type_synonym store = "table \<Rightarrow> bytes \<rightharpoonup> bytes"

text \<open>An iterator of results (\<open>KvIter\<close>) is the list of the items it yields.\<close>

type_synonym kv_iter = "(bytes \<times> bytes) res list"

record 'r read_ops =
  s_get :: "'r \<Rightarrow> table \<Rightarrow> bytes \<Rightarrow> bytes option res"
  s_range :: "'r \<Rightarrow> table \<Rightarrow> bytes bound \<Rightarrow> bytes bound \<Rightarrow> kv_pairs res"
  s_scan :: "'r \<Rightarrow> table \<Rightarrow> bytes bound \<Rightarrow> bytes bound \<Rightarrow> kv_iter res"

record 'w write_ops = "'w read_ops" +
  s_put :: "'w \<Rightarrow> table \<Rightarrow> bytes \<Rightarrow> bytes \<Rightarrow> 'w res"
  s_delete :: "'w \<Rightarrow> table \<Rightarrow> bytes \<Rightarrow> 'w res"

text \<open>\<open>commit\<close> consumes the transaction; the model also passes the backend it writes to and
  returns it updated.\<close>

record ('b, 'r, 'w) backend_ops =
  read_tx :: "'r read_ops"
  write_tx :: "'w write_ops"
  begin_read :: "'b \<Rightarrow> 'r res"
  begin_write :: "'b \<Rightarrow> 'w res"
  commit :: "'b \<Rightarrow> 'w \<Rightarrow> 'b res"

text \<open>The trait's default \<open>scan\<close>: materialise the range, then yield it.\<close>

definition scan_default :: "('r \<Rightarrow> table \<Rightarrow> bytes bound \<Rightarrow> bytes bound \<Rightarrow> kv_pairs res)
    \<Rightarrow> 'r \<Rightarrow> table \<Rightarrow> bytes bound \<Rightarrow> bytes bound \<Rightarrow> kv_iter res" where
  "scan_default rg r t lo hi = bind_res (rg r t lo hi) (\<lambda>xs. Ok (map Ok xs))"

section \<open>The contract of a transaction\<close>

text \<open>\<open>range_of m lo hi xs\<close>: \<open>xs\<close> lists, in ascending key order, the entries of \<open>m\<close> within the bounds.\<close>

definition range_of :: "(bytes \<rightharpoonup> bytes) \<Rightarrow> bytes bound \<Rightarrow> bytes bound \<Rightarrow> kv_pairs \<Rightarrow> bool" where
  "range_of m lo hi xs \<longleftrightarrow>
    sorted_keys xs \<and> map_of xs = (\<lambda>k. if in_range lo hi k then m k else None)"

lemma range_of_mem: "range_of m lo hi xs \<Longrightarrow> (k, v) \<in> set xs \<longleftrightarrow> in_range lo hi k \<and> m k = Some v"
  by (auto simp: range_of_def map_of_iff_mem [symmetric] simp del: map_of_eq_Some_iff split: if_splits)

lemma range_of_unique: "range_of m lo hi xs \<Longrightarrow> range_of m lo hi ys \<Longrightarrow> xs = ys"
  by (auto simp: range_of_def intro: sorted_keys_unique)

lemma range_of_distinct: "range_of m lo hi xs \<Longrightarrow> distinct (map fst xs)"
  by (simp add: range_of_def sorted_keys_distinct)

text \<open>An index table: its keys are the entries, its values are empty.\<close>

definition flags :: "bytes set \<Rightarrow> bytes \<rightharpoonup> bytes" where
  "flags S k = (if k \<in> S then Some [] else None)"

lemma flags_upd [simp]: "(flags S)(k \<mapsto> []) = flags (insert k S)" "(flags S)(k := None) = flags (S - {k})"
  by (auto simp: flags_def fun_eq_iff)

lemma flags_eq [simp]: "flags S k = Some v \<longleftrightarrow> k \<in> S \<and> v = []" "flags S k = None \<longleftrightarrow> k \<notin> S"
  by (auto simp: flags_def)

lemma flags_inject [simp]: "flags S = flags T \<longleftrightarrow> S = T"
  by (auto simp: flags_def fun_eq_iff set_eq_iff split: if_splits)

locale storage_read =
  fixes ops :: "('r, 'z) read_ops_scheme"
    and inv :: "'r \<Rightarrow> bool"
    and tbl_ok :: "table \<Rightarrow> bool"
    and view :: "'r \<Rightarrow> store"
  assumes get_view: "inv r \<Longrightarrow> tbl_ok t \<Longrightarrow> s_get ops r t k = Ok (view r t k)"
    and range_view: "inv r \<Longrightarrow> tbl_ok t \<Longrightarrow> \<exists>xs. s_range ops r t lo hi = Ok xs \<and> range_of (view r t) lo hi xs"
    and scan_range: "inv r \<Longrightarrow> tbl_ok t \<Longrightarrow> s_range ops r t lo hi = Ok xs \<Longrightarrow> s_scan ops r t lo hi = Ok (map Ok xs)"
begin

lemma rangeE:
  assumes "inv r" "tbl_ok t"
  obtains xs where "s_range ops r t lo hi = Ok xs" "range_of (view r t) lo hi xs"
  using range_view [OF assms] by blast

lemma range_Ok_iff:
  assumes "inv r" "tbl_ok t"
  shows "s_range ops r t lo hi = Ok xs \<longleftrightarrow> range_of (view r t) lo hi xs"
  using range_view [OF assms, of lo hi] range_of_unique by fastforce

text \<open>Every table view is finite: it is listed by an unbounded scan.\<close>

lemma finite_view: "inv r \<Longrightarrow> tbl_ok t \<Longrightarrow> finite (dom (view r t))"
proof -
  assume "inv r" "tbl_ok t"
  then obtain xs where "range_of (view r t) Unbounded Unbounded xs" by (rule rangeE)
  then have "view r t = map_of xs"
    by (simp add: range_of_def in_range_def fun_eq_iff)
  then show ?thesis by (simp add: finite_dom_map_of)
qed

text \<open>A prefix scan, from a prefix up to its successor, finds exactly the keys with that prefix.\<close>

lemma prefix_scan:
  assumes "inv r" "tbl_ok t"
  obtains xs where "s_range ops r t (Included p) (prefix_hi (byte_successor p)) = Ok xs" "sorted_keys xs"
    "\<And>k v. (k, v) \<in> set xs \<longleftrightarrow> prefix p k \<and> view r t k = Some v"
proof -
  obtain xs where xs: "s_range ops r t (Included p) (prefix_hi (byte_successor p)) = Ok xs"
      "range_of (view r t) (Included p) (prefix_hi (byte_successor p)) xs"
    using assms by (rule rangeE)
  with range_of_mem [OF xs(2)] show ?thesis
    by (intro that [OF xs(1)]) (auto simp: range_of_def in_range_prefix)
qed

end

locale storage_write = storage_read ops inv tbl_ok view
  for ops :: "('w, 'z) write_ops_scheme" and inv tbl_ok view +
  assumes put_view: "inv w \<Longrightarrow> tbl_ok t \<Longrightarrow>
      \<exists>w'. s_put ops w t k v = Ok w' \<and> inv w' \<and> view w' = (view w)(t := (view w t)(k \<mapsto> v))"
    and delete_view: "inv w \<Longrightarrow> tbl_ok t \<Longrightarrow>
      \<exists>w'. s_delete ops w t k = Ok w' \<and> inv w' \<and> view w' = (view w)(t := (view w t)(k := None))"
begin

lemma put_get:
  "inv w \<Longrightarrow> tbl_ok t \<Longrightarrow> tbl_ok t' \<Longrightarrow> s_put ops w t k v = Ok w' \<Longrightarrow>
    s_get ops w' t' k' = (if t' = t \<and> k' = k then Ok (Some v) else s_get ops w t' k')"
  using put_view [of w t k v] by (auto simp: get_view)

lemma delete_get:
  "inv w \<Longrightarrow> tbl_ok t \<Longrightarrow> tbl_ok t' \<Longrightarrow> s_delete ops w t k = Ok w' \<Longrightarrow>
    s_get ops w' t' k' = (if t' = t \<and> k' = k then Ok None else s_get ops w t' k')"
  using delete_view [of w t k] by (auto simp: get_view)

end

section \<open>Reserved table names\<close>

definition RESERVED_TABLE_NAMES :: "string list" where
  "RESERVED_TABLE_NAMES =
    [''nodes'', ''edges'', ''adj_out'', ''adj_in'', ''meta'', ''node_labels'', ''node_props'']"

definition is_reserved :: "string \<Rightarrow> bool" where
  "is_reserved name = (name \<in> set RESERVED_TABLE_NAMES)"

definition check_table_name :: "string \<Rightarrow> unit res" where
  "check_table_name name = (if is_reserved name then Err (ReservedTableName name) else Ok ())"

section \<open>The contract of a backend and the key/value facade\<close>

text \<open>
  \<open>owns b w\<close> says that the open write transaction \<open>w\<close> was started from the current state
  of \<open>b\<close> (a backend has one writer at a time); \<open>fits b w\<close> is what a backend needs for a
  commit to succeed.
\<close>

locale storage_backend =
  rd: storage_read "read_tx B" rinv tbl_ok rview + wr: storage_write "write_tx B" winv tbl_ok wview
  for B :: "('b, 'r, 'w) backend_ops" and rinv tbl_ok rview winv wview +
  fixes binv :: "'b \<Rightarrow> bool" and bview :: "'b \<Rightarrow> store"
    and owns :: "'b \<Rightarrow> 'w \<Rightarrow> bool" and fits :: "'b \<Rightarrow> 'w \<Rightarrow> bool"
  assumes begin_read_view: "binv b \<Longrightarrow> \<exists>r. begin_read B b = Ok r \<and> rinv r \<and> rview r = bview b"
    and begin_write_view: "binv b \<Longrightarrow> \<exists>w. begin_write B b = Ok w \<and> winv w \<and> wview w = bview b \<and> owns b w"
    and put_owns: "winv w \<Longrightarrow> owns b w \<Longrightarrow> s_put (write_tx B) w t k v = Ok w' \<Longrightarrow> owns b w'"
    and delete_owns: "winv w \<Longrightarrow> owns b w \<Longrightarrow> s_delete (write_tx B) w t k = Ok w' \<Longrightarrow> owns b w'"
    and commit_view: "binv b \<Longrightarrow> winv w \<Longrightarrow> owns b w \<Longrightarrow> fits b w \<Longrightarrow>
      \<exists>b'. commit B b w = Ok b' \<and> binv b' \<and> bview b' = wview w"

text \<open>\<open>Kv\<close>: each call checks the table name and runs in a transaction of its own.\<close>

definition kv_get :: "('b, 'r, 'w) backend_ops \<Rightarrow> 'b \<Rightarrow> table \<Rightarrow> bytes \<Rightarrow> bytes option res" where
  "kv_get B b t k = bind_res (check_table_name t) (\<lambda>_.
     bind_res (begin_read B b) (\<lambda>r. s_get (read_tx B) r t k))"

definition kv_range :: "('b, 'r, 'w) backend_ops \<Rightarrow> 'b \<Rightarrow> table \<Rightarrow> bytes bound \<Rightarrow> bytes bound \<Rightarrow> kv_pairs res" where
  "kv_range B b t lo hi = bind_res (check_table_name t) (\<lambda>_.
     bind_res (begin_read B b) (\<lambda>r. s_range (read_tx B) r t lo hi))"

definition kv_put :: "('b, 'r, 'w) backend_ops \<Rightarrow> 'b \<Rightarrow> table \<Rightarrow> bytes \<Rightarrow> bytes \<Rightarrow> 'b res" where
  "kv_put B b t k v = bind_res (check_table_name t) (\<lambda>_.
     bind_res (begin_write B b) (\<lambda>w.
     bind_res (s_put (write_tx B) w t k v) (\<lambda>w'. commit B b w')))"

definition kv_delete :: "('b, 'r, 'w) backend_ops \<Rightarrow> 'b \<Rightarrow> table \<Rightarrow> bytes \<Rightarrow> 'b res" where
  "kv_delete B b t k = bind_res (check_table_name t) (\<lambda>_.
     bind_res (begin_write B b) (\<lambda>w.
     bind_res (s_delete (write_tx B) w t k) (\<lambda>w'. commit B b w')))"

text \<open>\<open>ReadKv\<close> and \<open>BatchKv\<close>: the same calls on an open transaction.\<close>

definition read_kv_get :: "('r, 'z) read_ops_scheme \<Rightarrow> 'r \<Rightarrow> table \<Rightarrow> bytes \<Rightarrow> bytes option res" where
  "read_kv_get ops r t k = bind_res (check_table_name t) (\<lambda>_. s_get ops r t k)"

definition read_kv_range :: "('r, 'z) read_ops_scheme \<Rightarrow> 'r \<Rightarrow> table \<Rightarrow> bytes bound \<Rightarrow> bytes bound \<Rightarrow> kv_pairs res" where
  "read_kv_range ops r t lo hi = bind_res (check_table_name t) (\<lambda>_. s_range ops r t lo hi)"

definition batch_kv_put :: "('w, 'z) write_ops_scheme \<Rightarrow> 'w \<Rightarrow> table \<Rightarrow> bytes \<Rightarrow> bytes \<Rightarrow> 'w res" where
  "batch_kv_put ops w t k v = bind_res (check_table_name t) (\<lambda>_. s_put ops w t k v)"

definition batch_kv_delete :: "('w, 'z) write_ops_scheme \<Rightarrow> 'w \<Rightarrow> table \<Rightarrow> bytes \<Rightarrow> 'w res" where
  "batch_kv_delete ops w t k = bind_res (check_table_name t) (\<lambda>_. s_delete ops w t k)"

lemma kv_reserved:
  assumes "is_reserved t"
  shows "kv_get B b t k = Err (ReservedTableName t)" "kv_range B b t lo hi = Err (ReservedTableName t)"
    "kv_put B b t k v = Err (ReservedTableName t)" "kv_delete B b t k = Err (ReservedTableName t)"
  using assms by (simp_all add: kv_get_def kv_range_def kv_put_def kv_delete_def check_table_name_def)

context storage_backend
begin

lemma kv_get_view: "binv b \<Longrightarrow> tbl_ok t \<Longrightarrow> \<not> is_reserved t \<Longrightarrow> kv_get B b t k = Ok (bview b t k)"
  using begin_read_view [of b] by (auto simp: kv_get_def check_table_name_def rd.get_view)

lemma kv_range_view:
  assumes "binv b" "tbl_ok t" "\<not> is_reserved t"
  shows "\<exists>xs. kv_range B b t lo hi = Ok xs \<and> range_of (bview b t) lo hi xs"
proof -
  obtain r where "begin_read B b = Ok r" "rinv r" "rview r = bview b"
    using begin_read_view [OF assms(1)] by blast
  then show ?thesis
    using rd.range_view [of r t lo hi] assms by (simp add: kv_range_def check_table_name_def)
qed

lemma kv_put_view:
  assumes "binv b" "tbl_ok t" "\<not> is_reserved t"
    and fits: "\<And>w w'. begin_write B b = Ok w \<Longrightarrow> s_put (write_tx B) w t k v = Ok w' \<Longrightarrow> fits b w'"
  shows "\<exists>b'. kv_put B b t k v = Ok b' \<and> binv b' \<and> bview b' = (bview b)(t := (bview b t)(k \<mapsto> v))"
proof -
  obtain w where w: "begin_write B b = Ok w" "winv w" "wview w = bview b" "owns b w"
    using begin_write_view [OF assms(1)] by blast
  obtain w' where w': "s_put (write_tx B) w t k v = Ok w'" "winv w'" "wview w' = (bview b)(t := (bview b t)(k \<mapsto> v))"
    using wr.put_view [OF w(2) assms(2)] w(3) by metis
  have "owns b w'"
    using put_owns w w'(1) by blast
  then show ?thesis
    using commit_view [OF assms(1) w'(2)] fits w w' assms(3)
    by (auto simp: kv_put_def check_table_name_def)
qed

lemma kv_delete_view:
  assumes "binv b" "tbl_ok t" "\<not> is_reserved t"
    and fits: "\<And>w w'. begin_write B b = Ok w \<Longrightarrow> s_delete (write_tx B) w t k = Ok w' \<Longrightarrow> fits b w'"
  shows "\<exists>b'. kv_delete B b t k = Ok b' \<and> binv b' \<and> bview b' = (bview b)(t := (bview b t)(k := None))"
proof -
  obtain w where w: "begin_write B b = Ok w" "winv w" "wview w = bview b" "owns b w"
    using begin_write_view [OF assms(1)] by blast
  obtain w' where w': "s_delete (write_tx B) w t k = Ok w'" "winv w'" "wview w' = (bview b)(t := (bview b t)(k := None))"
    using wr.delete_view [OF w(2) assms(2)] w(3) by metis
  have "owns b w'"
    using delete_owns w w'(1) by blast
  then show ?thesis
    using commit_view [OF assms(1) w'(2)] fits w w' assms(3)
    by (auto simp: kv_delete_def check_table_name_def)
qed

end

end
