(* ===== verification/Mem_Backend.thy ===== *)
theory Mem_Backend
  imports Storage
begin

text \<open>
  The in-memory backend (\<open>bkndb-storage-mem/src/lib.rs\<close>): a map of tables, read transactions
  over a fixed snapshot, one write transaction at a time buffering its writes in an overlay that
  \<open>commit\<close> applies. The file ends with the backend as a concurrent system (any number of
  readers, a writer holding the writer mutex) as a step relation.
  The reference counts and the copy-on-write of \<open>Arc\<close> have no observable effect: a snapshot
  is the value of the table map when it was taken.
\<close>

section \<open>Data and operations\<close>

type_synonym mem_table = "(bytes, bytes) btree"
type_synonym mem_tables = "(string, mem_table) btree"

record mem_backend =
  mb_tables :: mem_tables

record mem_read_tx =
  mr_snapshot :: mem_tables

record mem_write_tx =
  mw_snapshot :: mem_tables
  mw_pending :: "(string \<times> bytes, bytes option) btree"

definition mem_new :: mem_backend where
  "mem_new = \<lparr>mb_tables = []\<rparr>"

definition mem_snapshot :: "mem_backend \<Rightarrow> mem_tables" where
  "mem_snapshot b = mb_tables b"

definition mem_begin_read :: "mem_backend \<Rightarrow> mem_read_tx res" where
  "mem_begin_read b = Ok \<lparr>mr_snapshot = mem_snapshot b\<rparr>"

definition mem_begin_write :: "mem_backend \<Rightarrow> mem_write_tx res" where
  "mem_begin_write b = Ok \<lparr>mw_snapshot = mem_snapshot b, mw_pending = []\<rparr>"

definition mem_snapshot_get :: "mem_tables \<Rightarrow> table \<Rightarrow> bytes \<Rightarrow> bytes option" where
  "mem_snapshot_get s t k = Option.bind (map_of s t) (\<lambda>tb. map_of tb k)"

definition mem_bounds_empty :: "bytes bound \<Rightarrow> bytes bound \<Rightarrow> bool" where
  "mem_bounds_empty lo hi = (case (lo, hi) of
      (Included a, Included b) \<Rightarrow> a > b
    | (Included a, Excluded b) \<Rightarrow> a \<ge> b
    | (Excluded a, Included b) \<Rightarrow> a \<ge> b
    | (Excluded a, Excluded b) \<Rightarrow> a \<ge> b
    | _ \<Rightarrow> False)"

definition mem_snapshot_scan :: "mem_tables \<Rightarrow> table \<Rightarrow> bytes bound \<Rightarrow> bytes bound \<Rightarrow> kv_iter res" where
  "mem_snapshot_scan s t lo hi =
    (if mem_bounds_empty lo hi then Ok []
     else case map_of s t of
         Some tb \<Rightarrow> bind_res (bt_range lo hi tb) (\<lambda>xs. Ok (map Ok xs))
       | None \<Rightarrow> Ok [])"

definition mem_read_get :: "mem_read_tx \<Rightarrow> table \<Rightarrow> bytes \<Rightarrow> bytes option res" where
  "mem_read_get r t k = Ok (mem_snapshot_get (mr_snapshot r) t k)"

definition mem_read_range :: "mem_read_tx \<Rightarrow> table \<Rightarrow> bytes bound \<Rightarrow> bytes bound \<Rightarrow> kv_pairs res" where
  "mem_read_range r t lo hi = bind_res (mem_snapshot_scan (mr_snapshot r) t lo hi) (traverse (\<lambda>x. x))"

definition mem_read_scan :: "mem_read_tx \<Rightarrow> table \<Rightarrow> bytes bound \<Rightarrow> bytes bound \<Rightarrow> kv_iter res" where
  "mem_read_scan r t lo hi = mem_snapshot_scan (mr_snapshot r) t lo hi"

definition mem_write_get :: "mem_write_tx \<Rightarrow> table \<Rightarrow> bytes \<Rightarrow> bytes option res" where
  "mem_write_get w t k = (case map_of (mw_pending w) (t, k) of
      Some overlay \<Rightarrow> Ok overlay
    | None \<Rightarrow> Ok (mem_snapshot_get (mw_snapshot w) t k))"

text \<open>The loop of \<open>range\<close> over the overlay: skip other tables and keys out of range.\<close>

fun mem_merge_pending :: "table \<Rightarrow> bytes bound \<Rightarrow> bytes bound \<Rightarrow> (string \<times> bytes, bytes option) btree
    \<Rightarrow> (bytes, bytes) btree \<Rightarrow> (bytes, bytes) btree" where
  "mem_merge_pending t lo hi [] merged = merged"
| "mem_merge_pending t lo hi (((t', k), v) # p) merged =
    (if t' \<noteq> t \<or> \<not> in_range lo hi k then mem_merge_pending t lo hi p merged
     else mem_merge_pending t lo hi p (case v of Some x \<Rightarrow> bt_insert k x merged | None \<Rightarrow> bt_remove k merged))"

definition mem_write_range :: "mem_write_tx \<Rightarrow> table \<Rightarrow> bytes bound \<Rightarrow> bytes bound \<Rightarrow> kv_pairs res" where
  "mem_write_range w t lo hi =
    bind_res (bind_res (mem_snapshot_scan (mw_snapshot w) t lo hi) (traverse (\<lambda>x. x))) (\<lambda>rows.
      let merged = fold (\<lambda>(k, v). bt_insert k v) rows []
      in Ok (mem_merge_pending t lo hi (mw_pending w) merged))"

definition mem_put :: "mem_write_tx \<Rightarrow> table \<Rightarrow> bytes \<Rightarrow> bytes \<Rightarrow> mem_write_tx res" where
  "mem_put w t k v = Ok (w\<lparr>mw_pending := bt_insert (t, k) (Some v) (mw_pending w)\<rparr>)"

definition mem_delete :: "mem_write_tx \<Rightarrow> table \<Rightarrow> bytes \<Rightarrow> mem_write_tx res" where
  "mem_delete w t k = Ok (w\<lparr>mw_pending := bt_insert (t, k) None (mw_pending w)\<rparr>)"

definition mem_apply_one :: "(string \<times> bytes) \<times> bytes option \<Rightarrow> mem_tables \<Rightarrow> mem_tables" where
  "mem_apply_one e tabs = (case e of ((t, k), v) \<Rightarrow>
     let tb = (case map_of tabs t of Some x \<Rightarrow> x | None \<Rightarrow> [])
     in bt_insert t (case v of Some x \<Rightarrow> bt_insert k x tb | None \<Rightarrow> bt_remove k tb) tabs)"

definition mem_commit :: "mem_backend \<Rightarrow> mem_write_tx \<Rightarrow> mem_backend res" where
  "mem_commit b w =
    (if mw_pending w = [] then Ok b
     else Ok (b\<lparr>mb_tables := fold mem_apply_one (mw_pending w) (mb_tables b)\<rparr>))"

definition mem_read_ops :: "mem_read_tx read_ops" where
  "mem_read_ops = \<lparr>s_get = mem_read_get, s_range = mem_read_range, s_scan = mem_read_scan\<rparr>"

definition mem_write_ops :: "mem_write_tx write_ops" where
  "mem_write_ops = \<lparr>s_get = mem_write_get, s_range = mem_write_range, s_scan = scan_default mem_write_range,
     s_put = mem_put, s_delete = mem_delete\<rparr>"

definition mem_ops :: "(mem_backend, mem_read_tx, mem_write_tx) backend_ops" where
  "mem_ops = \<lparr>read_tx = mem_read_ops, write_tx = mem_write_ops, begin_read = mem_begin_read,
     begin_write = mem_begin_write, commit = mem_commit\<rparr>"

section \<open>Invariant and abstraction\<close>

definition mem_tables_ok :: "mem_tables \<Rightarrow> bool" where
  "mem_tables_ok s \<longleftrightarrow> sorted_keys s \<and> (\<forall>(t, tb) \<in> set s. sorted_keys tb)"

definition mem_tx_ok :: "mem_write_tx \<Rightarrow> bool" where
  "mem_tx_ok w \<longleftrightarrow> mem_tables_ok (mw_snapshot w) \<and> sorted_keys (mw_pending w)"

definition mem_view :: "mem_write_tx \<Rightarrow> store" where
  "mem_view w t k = (case map_of (mw_pending w) (t, k) of
     Some overlay \<Rightarrow> overlay | None \<Rightarrow> mem_snapshot_get (mw_snapshot w) t k)"

lemma mem_table_sorted: "mem_tables_ok s \<Longrightarrow> map_of s t = Some tb \<Longrightarrow> sorted_keys tb"
  by (auto simp: mem_tables_ok_def dest!: map_of_SomeD)

lemma mem_bounds_empty_in_range: "mem_bounds_empty lo hi \<Longrightarrow> \<not> in_range lo hi k"
  by (cases lo; cases hi) (auto simp: mem_bounds_empty_def in_range_def)

lemma mem_bounds_empty_range_panics: "range_panics lo hi \<Longrightarrow> mem_bounds_empty lo hi"
  by (cases lo; cases hi) (auto simp: mem_bounds_empty_def range_panics_def)

lemma mem_snapshot_scan_ok:
  assumes "mem_tables_ok s"
  shows "\<exists>xs. mem_snapshot_scan s t lo hi = Ok (map Ok xs) \<and> range_of (mem_snapshot_get s t) lo hi xs"
proof (cases "mem_bounds_empty lo hi")
  case True
  then show ?thesis
    using mem_bounds_empty_in_range by (auto simp: mem_snapshot_scan_def range_of_def fun_eq_iff)
next
  case False
  then have "\<not> range_panics lo hi"
    using mem_bounds_empty_range_panics by blast
  with False show ?thesis
    using mem_table_sorted [OF assms]
    by (cases "map_of s t")
      (auto simp: mem_snapshot_scan_def bt_range_def range_of_def mem_snapshot_get_def fun_eq_iff
        intro: exI [of _ "restrict lo hi _"] sorted_restrict)
qed

lemma fold_bt_insert_rows:
  "map_of (fold (\<lambda>(k, v). bt_insert k v) rows m) = map_of m ++ map_of (rev rows)"
  "sorted_keys m \<Longrightarrow> sorted_keys (fold (\<lambda>(k, v). bt_insert k v) rows m)"
  by (induction rows arbitrary: m) (auto simp: map_add_def fun_eq_iff split: option.splits)

lemma fold_bt_insert_sorted:
  assumes "sorted_keys rows"
  shows "fold (\<lambda>(k, v). bt_insert k v) rows [] = rows"
proof (rule sorted_keys_unique)
  have "distinct (map fst rows)"
    using assms by (rule sorted_keys_distinct)
  then have "map_of (rev rows) = map_of rows"
    by (simp add: map_of_inject_set rev_map [symmetric])
  then show "map_of (fold (\<lambda>(k, v). bt_insert k v) rows []) = map_of rows"
    by (simp add: fold_bt_insert_rows)
qed (simp_all add: assms fold_bt_insert_rows(2))

lemma mem_merge_pending_ok:
  assumes "sorted_keys m" "sorted_keys p"
  shows "sorted_keys (mem_merge_pending t lo hi p m) \<and>
    map_of (mem_merge_pending t lo hi p m) k =
      (if in_range lo hi k then (case map_of p (t, k) of Some v \<Rightarrow> v | None \<Rightarrow> map_of m k) else map_of m k)"
  using assms
proof (induction t lo hi p m rule: mem_merge_pending.induct)
  case (2 t lo hi t' k' v p m)
  have none: "map_of p (t', k') = None"
    using "2.prems"(2) by (rule map_of_below) simp
  show ?case
    using 2 none by (auto split: option.splits)
qed simp

section \<open>The backend meets the storage contract\<close>

interpretation mem_r: storage_read mem_read_ops "\<lambda>r. mem_tables_ok (mr_snapshot r)" "\<lambda>_. True"
    "\<lambda>r. mem_snapshot_get (mr_snapshot r)"
proof
  fix r :: mem_read_tx and t lo hi xs
  assume ok: "mem_tables_ok (mr_snapshot r)"
  show "\<exists>xs. s_range mem_read_ops r t lo hi = Ok xs \<and> range_of (mem_snapshot_get (mr_snapshot r) t) lo hi xs"
    using mem_snapshot_scan_ok [OF ok, of t lo hi] by (auto simp: mem_read_ops_def mem_read_range_def)
  show "s_scan mem_read_ops r t lo hi = Ok (map Ok xs)" if "s_range mem_read_ops r t lo hi = Ok xs"
    using mem_snapshot_scan_ok [OF ok, of t lo hi] that
    by (auto simp: mem_read_ops_def mem_read_range_def mem_read_scan_def)
qed (simp add: mem_read_ops_def mem_read_get_def)

lemma mem_write_range_ok:
  assumes "mem_tx_ok w"
  shows "\<exists>xs. mem_write_range w t lo hi = Ok xs \<and> range_of (mem_view w t) lo hi xs"
proof -
  obtain rows where rows: "mem_snapshot_scan (mw_snapshot w) t lo hi = Ok (map Ok rows)"
      "range_of (mem_snapshot_get (mw_snapshot w) t) lo hi rows"
    using assms mem_snapshot_scan_ok [of "mw_snapshot w" t lo hi] by (auto simp: mem_tx_ok_def)
  let ?xs = "mem_merge_pending t lo hi (mw_pending w) rows"
  have "sorted_keys rows" "sorted_keys (mw_pending w)"
    using rows(2) assms by (auto simp: range_of_def mem_tx_ok_def)
  then have "range_of (mem_view w t) lo hi ?xs"
    using mem_merge_pending_ok [of rows "mw_pending w" t lo hi] rows(2)
    by (auto simp: range_of_def mem_view_def fun_eq_iff split: option.splits)
  then show ?thesis
    using rows(1) \<open>sorted_keys rows\<close> by (simp add: mem_write_range_def fold_bt_insert_sorted)
qed

lemma mem_view_put:
  "mem_view (w\<lparr>mw_pending := bt_insert (t, k) v (mw_pending w)\<rparr>) = (mem_view w)(t := (mem_view w t)(k := v))"
proof (intro ext)
  fix t' k'
  show "mem_view (w\<lparr>mw_pending := bt_insert (t, k) v (mw_pending w)\<rparr>) t' k' = ((mem_view w)(t := (mem_view w t)(k := v))) t' k'"
    by (cases "t' = t"; cases "k' = k") (simp_all add: mem_view_def split: option.split)
qed

interpretation mem_w: storage_write mem_write_ops mem_tx_ok "\<lambda>_. True" mem_view
proof
  fix w :: mem_write_tx and t k v lo hi xs
  assume ok: "mem_tx_ok w"
  show "s_get mem_write_ops w t k = Ok (mem_view w t k)"
    by (simp add: mem_write_ops_def mem_write_get_def mem_view_def split: option.splits)
  show "\<exists>xs. s_range mem_write_ops w t lo hi = Ok xs \<and> range_of (mem_view w t) lo hi xs"
    using mem_write_range_ok [OF ok] by (simp add: mem_write_ops_def)
  show "s_scan mem_write_ops w t lo hi = Ok (map Ok xs)" if "s_range mem_write_ops w t lo hi = Ok xs"
    using that by (simp add: mem_write_ops_def scan_default_def)
  show "\<exists>w'. s_put mem_write_ops w t k v = Ok w' \<and> mem_tx_ok w' \<and>
      mem_view w' = (mem_view w)(t := (mem_view w t)(k \<mapsto> v))"
    using ok by (simp add: mem_write_ops_def mem_put_def mem_tx_ok_def mem_view_put)
  show "\<exists>w'. s_delete mem_write_ops w t k = Ok w' \<and> mem_tx_ok w' \<and>
      mem_view w' = (mem_view w)(t := (mem_view w t)(k := None))"
    using ok by (simp add: mem_write_ops_def mem_delete_def mem_tx_ok_def mem_view_put)
qed

text \<open>Applying the overlay: one entry writes one key of one table.\<close>

lemma mem_apply_one_ok:
  assumes "mem_tables_ok s"
  shows "mem_tables_ok (mem_apply_one ((t, k), v) s)"
    and "mem_snapshot_get (mem_apply_one ((t, k), v) s) = (mem_snapshot_get s)(t := (mem_snapshot_get s t)(k := v))"
proof -
  let ?tb = "case map_of s t of Some x \<Rightarrow> x | None \<Rightarrow> []"
  have tb: "sorted_keys ?tb"
    using mem_table_sorted [OF assms] by (auto split: option.splits)
  have eq: "mem_apply_one ((t, k), v) s = bt_insert t (bt_apply k v ?tb) s"
    by (simp add: mem_apply_one_def bt_apply_def Let_def)
  have "set (bt_insert t x s) \<subseteq> insert (t, x) (set s)" for x
    by (induction t x s rule: bt_insert.induct) auto
  then show "mem_tables_ok (mem_apply_one ((t, k), v) s)"
    using assms tb unfolding eq mem_tables_ok_def by fastforce
  show "mem_snapshot_get (mem_apply_one ((t, k), v) s) = (mem_snapshot_get s)(t := (mem_snapshot_get s t)(k := v))"
    unfolding eq using tb by (auto simp: mem_snapshot_get_def fun_eq_iff split: option.splits)
qed

lemma mem_fold_apply_ok:
  assumes "mem_tables_ok s" "sorted_keys p"
  shows "mem_tables_ok (fold mem_apply_one p s) \<and> mem_snapshot_get (fold mem_apply_one p s) t k =
    (case map_of p (t, k) of Some v \<Rightarrow> v | None \<Rightarrow> mem_snapshot_get s t k)"
  using assms
proof (induction p arbitrary: s)
  case (Cons e p)
  obtain t' k' v where e: "e = ((t', k'), v)" by (metis surj_pair)
  have "map_of p (t', k') = None"
    using Cons.prems(2) e by (intro map_of_below) auto
  then show ?case
    using Cons.IH [OF mem_apply_one_ok(1) [OF Cons.prems(1), of t' k' v]] Cons.prems e
    by (auto simp: mem_apply_one_ok(2) [OF Cons.prems(1)] split: option.splits)
qed simp

lemma mem_commit_ok:
  assumes "mem_tables_ok (mb_tables b)" "mem_tx_ok w" "mw_snapshot w = mb_tables b"
  shows "\<exists>b'. mem_commit b w = Ok b' \<and> mem_tables_ok (mb_tables b') \<and> mem_snapshot_get (mb_tables b') = mem_view w"
  using mem_fold_apply_ok [OF assms(1), of "mw_pending w"] assms
  by (auto simp: mem_commit_def mem_tx_ok_def mem_view_def fun_eq_iff split: option.splits)

interpretation mem: storage_backend mem_ops "\<lambda>r. mem_tables_ok (mr_snapshot r)" "\<lambda>_. True"
    "\<lambda>r. mem_snapshot_get (mr_snapshot r)" mem_tx_ok mem_view
    "\<lambda>b. mem_tables_ok (mb_tables b)" "\<lambda>b. mem_snapshot_get (mb_tables b)"
    "\<lambda>b w. mw_snapshot w = mb_tables b" "\<lambda>_ _. True"
proof (unfold storage_backend_def storage_backend_axioms_def, intro conjI allI impI)
  show "storage_read (read_tx mem_ops) (\<lambda>r. mem_tables_ok (mr_snapshot r)) (\<lambda>_. True) (\<lambda>r. mem_snapshot_get (mr_snapshot r))"
    by (simp add: mem_ops_def mem_r.storage_read_axioms)
  show "storage_write (write_tx mem_ops) mem_tx_ok (\<lambda>_. True) mem_view"
    by (simp add: mem_ops_def mem_w.storage_write_axioms)
next
  fix b :: mem_backend and w :: mem_write_tx
  assume "mem_tables_ok (mb_tables b)" "mem_tx_ok w" "mw_snapshot w = mb_tables b"
  then show "\<exists>b'. commit mem_ops b w = Ok b' \<and> mem_tables_ok (mb_tables b') \<and> mem_snapshot_get (mb_tables b') = mem_view w"
    by (simp add: mem_ops_def mem_commit_ok)
qed (auto simp: mem_ops_def mem_begin_read_def mem_begin_write_def mem_snapshot_def mem_tx_ok_def mem_view_def
    mem_write_ops_def mem_put_def mem_delete_def fun_eq_iff)

section \<open>Concurrent readers and one writer\<close>

text \<open>
  Threads interleave at the granularity of the backend's calls, each of which takes a lock for its
  whole effect: \<open>begin_read\<close> copies the table map under the read lock, \<open>commit\<close> replaces
  it under the write lock, and \<open>begin_write\<close> waits for the writer mutex, which the transaction
  holds until it is committed or dropped. \<open>ms_writer\<close> is the transaction holding the mutex.
\<close>

record mem_sys =
  ms_db :: mem_backend
  ms_readers :: "nat \<rightharpoonup> mem_read_tx"
  ms_writer :: "mem_write_tx option"

datatype mem_event =
    BeginRead nat
  | EndRead nat
  | BeginWrite
  | Put table bytes bytes
  | Delete table bytes
  | Commit
  | Rollback

inductive mem_step :: "mem_sys \<Rightarrow> mem_event \<Rightarrow> mem_sys \<Rightarrow> bool" where
  begin_read: "ms_readers s i = None \<Longrightarrow> mem_begin_read (ms_db s) = Ok r \<Longrightarrow>
     mem_step s (BeginRead i) (s\<lparr>ms_readers := (ms_readers s)(i \<mapsto> r)\<rparr>)"
| end_read: "mem_step s (EndRead i) (s\<lparr>ms_readers := (ms_readers s)(i := None)\<rparr>)"
| begin_write: "ms_writer s = None \<Longrightarrow> mem_begin_write (ms_db s) = Ok w \<Longrightarrow>
     mem_step s BeginWrite (s\<lparr>ms_writer := Some w\<rparr>)"
| put: "ms_writer s = Some w \<Longrightarrow> mem_put w t k v = Ok w' \<Longrightarrow>
     mem_step s (Put t k v) (s\<lparr>ms_writer := Some w'\<rparr>)"
| delete: "ms_writer s = Some w \<Longrightarrow> mem_delete w t k = Ok w' \<Longrightarrow>
     mem_step s (Delete t k) (s\<lparr>ms_writer := Some w'\<rparr>)"
| commit: "ms_writer s = Some w \<Longrightarrow> mem_commit (ms_db s) w = Ok b \<Longrightarrow>
     mem_step s Commit (s\<lparr>ms_db := b, ms_writer := None\<rparr>)"
| rollback: "ms_writer s = Some w \<Longrightarrow> mem_step s Rollback (s\<lparr>ms_writer := None\<rparr>)"

inductive mem_run :: "mem_sys \<Rightarrow> mem_event list \<Rightarrow> mem_sys \<Rightarrow> bool" where
  stop: "mem_run s [] s"
| step: "mem_step s e s' \<Longrightarrow> mem_run s' es s'' \<Longrightarrow> mem_run s (e # es) s''"

inductive_cases mem_step_cases:
  "mem_step s (BeginRead i) s'" "mem_step s (EndRead i) s'" "mem_step s BeginWrite s'"
  "mem_step s (Put t k v) s'" "mem_step s (Delete t k) s'" "mem_step s Commit s'" "mem_step s Rollback s'"

inductive_cases mem_run_cases: "mem_run s [] s'" "mem_run s (e # es) s'"

inductive_simps mem_step_simps:
  "mem_step s (BeginRead i) s'" "mem_step s (EndRead i) s'" "mem_step s BeginWrite s'"
  "mem_step s (Put t k v) s'" "mem_step s (Delete t k) s'" "mem_step s Commit s'" "mem_step s Rollback s'"

inductive_simps mem_run_simps: "mem_run s [] s'" "mem_run s (e # es) s'"

lemmas mem_exec_simps = mem_step_simps mem_run_simps mem_begin_read_def mem_begin_write_def mem_put_def
  mem_delete_def mem_commit_def

definition mem_sys_init :: mem_sys where
  "mem_sys_init = \<lparr>ms_db = mem_new, ms_readers = Map.empty, ms_writer = None\<rparr>"

text \<open>
  The serial specification: committed transactions one after another, each a list of writes
  applied at its commit; \<open>buf\<close> is the open transaction's writes.
\<close>

definition write_key :: "table \<times> bytes \<times> bytes option \<Rightarrow> store \<Rightarrow> store" where
  "write_key e \<sigma> = (case e of (t, k, v) \<Rightarrow> \<sigma>(t := (\<sigma> t)(k := v)))"

fun serial :: "mem_event list \<Rightarrow> (table \<times> bytes \<times> bytes option) list \<Rightarrow> store \<Rightarrow> store" where
  "serial [] buf \<sigma> = \<sigma>"
| "serial (BeginWrite # es) buf \<sigma> = serial es [] \<sigma>"
| "serial (Put t k v # es) buf \<sigma> = serial es (buf @ [(t, k, Some v)]) \<sigma>"
| "serial (Delete t k # es) buf \<sigma> = serial es (buf @ [(t, k, None)]) \<sigma>"
| "serial (Commit # es) buf \<sigma> = serial es [] (fold write_key buf \<sigma>)"
| "serial (Rollback # es) buf \<sigma> = serial es [] \<sigma>"
| "serial (_ # es) buf \<sigma> = serial es buf \<sigma>"

definition mem_sys_ok :: "mem_sys \<Rightarrow> (table \<times> bytes \<times> bytes option) list \<Rightarrow> bool" where
  "mem_sys_ok s buf \<longleftrightarrow> mem_tables_ok (mb_tables (ms_db s)) \<and>
    (\<forall>w. ms_writer s = Some w \<longrightarrow> mem_tx_ok w \<and> mw_snapshot w = mb_tables (ms_db s) \<and>
      mem_view w = fold write_key buf (mem_snapshot_get (mb_tables (ms_db s))))"

lemma mem_view_begin: "mem_view \<lparr>mw_snapshot = s, mw_pending = []\<rparr> = mem_snapshot_get s"
  by (simp add: mem_view_def fun_eq_iff)

lemma mem_run_serial_from:
  "mem_run s es s' \<Longrightarrow> mem_sys_ok s buf \<Longrightarrow>
    mem_snapshot_get (mb_tables (ms_db s')) = serial es buf (mem_snapshot_get (mb_tables (ms_db s)))
    \<and> mem_tables_ok (mb_tables (ms_db s'))"
proof (induction s es s' arbitrary: buf rule: mem_run.induct)
  case (stop s)
  then show ?case by (simp add: mem_sys_ok_def)
next
  case (step s e s' es s'')
  note ok = step.prems [unfolded mem_sys_ok_def]
  from step.hyps(1) show ?case
  proof (cases rule: mem_step.cases)
    case (begin_read i r)
    then show ?thesis using step.IH [of buf] ok by (simp add: mem_sys_ok_def)
  next
    case (end_read i)
    then show ?thesis using step.IH [of buf] ok by (simp add: mem_sys_ok_def)
  next
    case (begin_write w)
    then show ?thesis
      using step.IH [of "[]"] ok
      by (auto simp: mem_sys_ok_def mem_begin_write_def mem_snapshot_def mem_tx_ok_def mem_view_begin)
  next
    case (put w t k v w')
    then show ?thesis
      using step.IH [of "buf @ [(t, k, Some v)]"] ok
      by (auto simp: mem_sys_ok_def mem_put_def mem_tx_ok_def mem_view_put write_key_def)
  next
    case (delete w t k w')
    then show ?thesis
      using step.IH [of "buf @ [(t, k, None)]"] ok
      by (auto simp: mem_sys_ok_def mem_delete_def mem_tx_ok_def mem_view_put write_key_def)
  next
    case (commit w b)
    then have "mem_tables_ok (mb_tables b) \<and> mem_snapshot_get (mb_tables b) = mem_view w"
      using mem_commit_ok [of "ms_db s" w] ok by auto
    then show ?thesis using step.IH [of "[]"] ok commit by (simp add: mem_sys_ok_def)
  next
    case (rollback w)
    then show ?thesis using step.IH [of "[]"] ok by (simp add: mem_sys_ok_def)
  qed
qed

lemma mem_sys_init_ok: "mem_sys_ok mem_sys_init []"
  by (simp add: mem_sys_ok_def mem_sys_init_def mem_new_def mem_tables_ok_def)

lemma mem_step_reader:
  "mem_step s e s' \<Longrightarrow> ms_readers s i = Some r \<Longrightarrow> e \<noteq> EndRead i \<Longrightarrow> ms_readers s' i = Some r"
  by (cases rule: mem_step.cases) (auto split: if_splits)

lemma mem_run_reader:
  "mem_run s es s' \<Longrightarrow> ms_readers s i = Some r \<Longrightarrow> EndRead i \<notin> set es \<Longrightarrow> ms_readers s' i = Some r"
  by (induction rule: mem_run.induct) (auto dest: mem_step_reader)

section \<open>Properties\<close>

text \<open>C3: Serializability. Whatever threads do with the backend, its committed contents are those of
  the serial specification: the write transactions that commit take effect one after another in
  commit order, each all at once, and a rolled-back transaction leaves no trace.\<close>

theorem mem_run_serializable:
  assumes "mem_run mem_sys_init es s"
  shows "mem_snapshot_get (mb_tables (ms_db s)) = serial es [] (\<lambda>_. Map.empty)"
proof -
  have "mem_snapshot_get (mb_tables (ms_db mem_sys_init)) = (\<lambda>_. Map.empty)"
    by (simp add: mem_sys_init_def mem_new_def mem_snapshot_get_def fun_eq_iff)
  then show ?thesis
    using mem_run_serial_from [OF assms mem_sys_init_ok] by simp
qed

theorem mem_run_serializable_witness:
  "\<exists>s. mem_run mem_sys_init [BeginWrite, Put ''t'' [1] [2], Commit, BeginWrite, Delete ''t'' [1], Rollback] s
     \<and> mem_snapshot_get (mb_tables (ms_db s)) ''t'' [1] = Some [2]"
proof -
  have "\<exists>s. mem_run mem_sys_init [BeginWrite, Put ''t'' [1] [2], Commit, BeginWrite, Delete ''t'' [1], Rollback] s"
    by (simp add: mem_exec_simps mem_sys_init_def)
  then show ?thesis
    using mem_run_serializable by (fastforce simp: write_key_def)
qed

text \<open>C5: Snapshot isolation. From the moment a reader begins until it ends, whatever other threads
  begin, write, commit or roll back, every \<open>get\<close> and every \<open>range\<close> of that reader returns
  what the committed state held when it began.\<close>

theorem mem_reader_sees_fixed_snapshot:
  assumes start: "mem_run mem_sys_init es s" "ms_readers s i = None"
    and run: "mem_run s (BeginRead i # es') s'" "EndRead i \<notin> set es'"
  shows "\<exists>r. ms_readers s' i = Some r
    \<and> (\<forall>t k. mem_read_get r t k = Ok (serial es [] (\<lambda>_. Map.empty) t k))
    \<and> (\<forall>t lo hi. \<exists>xs. mem_read_range r t lo hi = Ok xs \<and> range_of (serial es [] (\<lambda>_. Map.empty) t) lo hi xs)"
proof -
  let ?r = "\<lparr>mr_snapshot = mb_tables (ms_db s)\<rparr>"
  have state: "mem_snapshot_get (mb_tables (ms_db s)) = serial es [] (\<lambda>_. Map.empty)"
    "mem_tables_ok (mb_tables (ms_db s))"
    using mem_run_serial_from [OF start(1) mem_sys_init_ok]
    by (simp_all add: mem_sys_init_def mem_new_def mem_snapshot_get_def [abs_def])
  have "ms_readers s' i = Some ?r"
  proof -
    obtain s1 where s1: "mem_step s (BeginRead i) s1" "mem_run s1 es' s'"
      using run(1) by (auto elim: mem_run_cases)
    then have "ms_readers s1 i = Some ?r"
      by (auto simp: mem_step_simps mem_begin_read_def mem_snapshot_def)
    then show ?thesis using mem_run_reader [OF s1(2)] run(2) by blast
  qed
  moreover have "mem_read_get ?r t k = Ok (serial es [] (\<lambda>_. Map.empty) t k)" for t k
    using mem_r.get_view [of ?r t k] state by (simp add: mem_read_ops_def)
  moreover have "\<exists>xs. mem_read_range ?r t lo hi = Ok xs \<and> range_of (serial es [] (\<lambda>_. Map.empty) t) lo hi xs" for t lo hi
    using mem_r.range_view [of ?r t lo hi] state by (simp add: mem_read_ops_def)
  ultimately show ?thesis by blast
qed

theorem mem_reader_sees_fixed_snapshot_witness:
  "\<exists>s' r. mem_run mem_sys_init [BeginRead 0, BeginWrite, Put ''t'' [1] [2], Commit] s'
     \<and> ms_readers s' 0 = Some r \<and> mem_read_get r ''t'' [1] = Ok None"
proof -
  let ?es = "[BeginWrite, Put ''t'' [1] [2], Commit]"
  have "\<exists>s'. mem_run mem_sys_init (BeginRead 0 # ?es) s'"
    by (simp add: mem_exec_simps mem_sys_init_def)
  then obtain s' where s': "mem_run mem_sys_init (BeginRead 0 # ?es) s'" by blast
  have "ms_readers mem_sys_init 0 = None" by (simp add: mem_sys_init_def)
  from mem_reader_sees_fixed_snapshot [OF mem_run.stop this s'] s' show ?thesis by auto
qed

text \<open>Read your own writes, then commit. In an open write transaction, \<open>put\<close> and \<open>delete\<close>
  change exactly the addressed key of the addressed table for later reads (point and range) of the
  transaction, leave the backend alone, and \<open>commit\<close> makes the backend's contents those the
  transaction saw.\<close>

theorem mem_write_tx_reads_and_commits:
  assumes "mem_tables_ok (mb_tables b)" "mem_begin_write b = Ok w0"
    and "for_res (\<lambda>(t, k, v) w. case v of Some x \<Rightarrow> mem_put w t k x | None \<Rightarrow> mem_delete w t k) ws w0 = Ok w"
  shows "mem_write_get w t k = Ok (fold write_key ws (mem_snapshot_get (mb_tables b)) t k)
    \<and> (\<exists>xs. mem_write_range w t lo hi = Ok xs \<and> range_of (fold write_key ws (mem_snapshot_get (mb_tables b)) t) lo hi xs)
    \<and> (\<exists>b'. mem_commit b w = Ok b' \<and> mem_tables_ok (mb_tables b')
      \<and> mem_snapshot_get (mb_tables b') = fold write_key ws (mem_snapshot_get (mb_tables b)))"
proof (intro conjI)
  let ?step = "\<lambda>(t, k, v) w. case v of Some x \<Rightarrow> mem_put w t k x | None \<Rightarrow> mem_delete w t k"
  have steps: "mem_tx_ok w' \<and> mw_snapshot w' = mw_snapshot w1 \<and> mem_view w' = fold write_key ws (mem_view w1)"
    if "mem_tx_ok w1" "for_res ?step ws w1 = Ok w'" for w1 w' ws
    using that
  proof (induction ws arbitrary: w1)
    case (Cons e ws)
    obtain t k v where e: "e = (t, k, v)" by (metis surj_pair)
    let ?w = "w1\<lparr>mw_pending := bt_insert (t, k) v (mw_pending w1)\<rparr>"
    have view: "mem_view ?w = write_key e (mem_view w1)"
      unfolding mem_view_put by (simp add: e write_key_def)
    have "?step e w1 = Ok ?w"
      using e by (cases v) (simp_all add: mem_put_def mem_delete_def)
    moreover have "mem_tx_ok ?w" using Cons.prems(1) by (simp add: mem_tx_ok_def)
    ultimately show ?case
      using Cons.IH [of ?w] Cons.prems(2) view by simp
  qed simp
  have w0: "mem_tx_ok w0" "mw_snapshot w0 = mb_tables b" "mem_view w0 = mem_snapshot_get (mb_tables b)"
    using assms(1,2) by (auto simp: mem_begin_write_def mem_snapshot_def mem_tx_ok_def mem_view_begin)
  note w = steps [OF w0(1) assms(3), unfolded w0(2,3)]
  show "mem_write_get w t k = Ok (fold write_key ws (mem_snapshot_get (mb_tables b)) t k)"
    using mem_w.get_view [of w t k] w by (simp add: mem_write_ops_def)
  show "\<exists>xs. mem_write_range w t lo hi = Ok xs \<and> range_of (fold write_key ws (mem_snapshot_get (mb_tables b)) t) lo hi xs"
    using mem_write_range_ok [of w t lo hi] w by simp
  show "\<exists>b'. mem_commit b w = Ok b' \<and> mem_tables_ok (mb_tables b')
      \<and> mem_snapshot_get (mb_tables b') = fold write_key ws (mem_snapshot_get (mb_tables b))"
    using mem_commit_ok [OF assms(1), of w] w by simp
qed

theorem mem_write_tx_reads_and_commits_witness:
  "mem_write_get \<lparr>mw_snapshot = [], mw_pending = [((''t'', [1]), Some [7])]\<rparr> ''t'' [1] = Ok (Some [7])"
proof -
  let ?w = "\<lparr>mw_snapshot = [], mw_pending = [((''t'', [1]), Some [7])]\<rparr>"
  have "mem_tables_ok (mb_tables mem_new)" "mem_begin_write mem_new = Ok \<lparr>mw_snapshot = [], mw_pending = []\<rparr>"
    by (simp_all add: mem_new_def mem_tables_ok_def mem_begin_write_def mem_snapshot_def)
  moreover have "for_res (\<lambda>(t, k, v) w. case v of Some x \<Rightarrow> mem_put w t k x | None \<Rightarrow> mem_delete w t k)
      [(''t'', [1], Some [7])] \<lparr>mw_snapshot = [], mw_pending = []\<rparr> = Ok ?w"
    by (simp add: mem_put_def)
  ultimately show ?thesis
    using mem_write_tx_reads_and_commits [of mem_new _ "[(''t'', [1], Some [7])]" ?w "''t''" "[1]"]
    by (simp add: write_key_def)
qed

end
