(* ===== verification/Float64.thy ===== *)
theory Float64
  imports Prelude
begin

text \<open>
  \<open>f64\<close> as the program uses it. A float is its IEEE 754 bit pattern. Every finite double is an
  integer multiple of \<open>2\<^sup>-\<^sup>1\<^sup>0\<^sup>7\<^sup>4\<close>, so \<open>f64_val\<close> reads it as that integer and
  \<open>f64_round\<close> rounds an exact integer result to nearest, ties to even, saturating at infinity;
  \<open>f64_add\<close> and the cast \<open>as f64\<close> are the exact operation followed by that rounding. The lemmas
  show that rounding is exact on representable values and monotone, which is what a shortest-path
  search over non-negative weights relies on.
\<close>

unbundle bit_operations_syntax

section \<open>Orderings\<close>

datatype ordering = Less | Equal | Greater

definition cmp :: "'a::linorder \<Rightarrow> 'a \<Rightarrow> ordering" where
  "cmp x y = (if x < y then Less else if x = y then Equal else Greater)"

definition then_cmp :: "ordering \<Rightarrow> ordering \<Rightarrow> ordering" where
  "then_cmp a b = (case a of Equal \<Rightarrow> b | _ \<Rightarrow> a)"

definition reverse_ordering :: "ordering \<Rightarrow> ordering" where
  "reverse_ordering a = (case a of Less \<Rightarrow> Greater | Equal \<Rightarrow> Equal | Greater \<Rightarrow> Less)"

lemma cmp_iff [simp]: "cmp x y = Less \<longleftrightarrow> x < y" "cmp x y = Equal \<longleftrightarrow> x = y" "cmp x y = Greater \<longleftrightarrow> y < x"
  by (auto simp: cmp_def)

lemma cmp_self [simp]: "cmp x x = Equal"
  by (simp add: cmp_def)

lemma reverse_cmp: "reverse_ordering (cmp x y) = cmp y x"
  by (auto simp: reverse_ordering_def cmp_def)

lemma then_cmp_iff [simp]:
  "then_cmp a b = Equal \<longleftrightarrow> a = Equal \<and> b = Equal"
  "then_cmp a b = Less \<longleftrightarrow> a = Less \<or> a = Equal \<and> b = Less"
  "then_cmp a b = Greater \<longleftrightarrow> a = Greater \<or> a = Equal \<and> b = Greater"
  by (auto simp: then_cmp_def split: ordering.splits)

lemma then_cmp_Equal [simp]: "then_cmp Equal b = b"
  by (simp add: then_cmp_def)

section \<open>Bit patterns\<close>

type_synonym f64 = "64 word"
type_synonym i64 = "64 word"

definition f64_sign :: "f64 \<Rightarrow> bool" where "f64_sign w = (2 ^ 63 \<le> unat w)"
definition f64_bits :: "f64 \<Rightarrow> nat" where "f64_bits w = unat w mod 2 ^ 63"
definition f64_inf :: nat where "f64_inf = 2047 * 2 ^ 52"

definition is_nan :: "f64 \<Rightarrow> bool" where "is_nan w = (f64_inf < f64_bits w)"
definition is_finite :: "f64 \<Rightarrow> bool" where "is_finite w = (f64_bits w < f64_inf)"

text \<open>The magnitude in units of \<open>2\<^sup>-\<^sup>1\<^sup>0\<^sup>7\<^sup>4\<close>; an infinity is read as the next power of two.\<close>

definition f64_mag_of :: "nat \<Rightarrow> nat" where
  "f64_mag_of b = (let e = b div 2 ^ 52; f = b mod 2 ^ 52 in if e = 0 then f else (2 ^ 52 + f) * 2 ^ (e - 1))"

definition f64_val :: "f64 \<Rightarrow> int" where
  "f64_val w = (if f64_sign w then - int (f64_mag_of (f64_bits w)) else int (f64_mag_of (f64_bits w)))"

section \<open>Rounding\<close>

fun bit_len :: "nat \<Rightarrow> nat" where
  "bit_len n = (if n = 0 then 0 else Suc (bit_len (n div 2)))"

declare bit_len.simps [simp del]

text \<open>Division rounded to nearest, ties to even.\<close>

definition round_div :: "nat \<Rightarrow> nat \<Rightarrow> nat" where
  "round_div n d = (let q = n div d; r = n mod d in if d < 2 * r \<or> (2 * r = d \<and> odd q) then Suc q else q)"

definition f64_mant :: "nat \<Rightarrow> nat" where
  "f64_mant n = (if n < 2 ^ 53 then n else let k = bit_len n - 53 in k * 2 ^ 52 + round_div n (2 ^ k))"

definition f64_round :: "bool \<Rightarrow> nat \<Rightarrow> f64" where
  "f64_round neg n = word_of_nat (min f64_inf (f64_mant n) + (if neg then 2 ^ 63 else 0))"

definition f64_add :: "f64 \<Rightarrow> f64 \<Rightarrow> f64" where
  "f64_add x y =
    (if is_nan x then x else if is_nan y then y
     else if \<not> is_finite x then (if \<not> is_finite y \<and> f64_sign x \<noteq> f64_sign y then word_of_nat (f64_inf + 2 ^ 51) else x)
     else if \<not> is_finite y then y
     else
       let s = f64_val x + f64_val y
       in f64_round (if s = 0 then f64_sign x \<and> f64_sign y else s < 0) (nat \<bar>s\<bar>))"

text \<open>The cast \<open>i as f64\<close> of a signed integer.\<close>

definition f64_of_i64 :: "i64 \<Rightarrow> f64" where
  "f64_of_i64 i = f64_round (sint i < 0) (nat \<bar>sint i\<bar> * 2 ^ 1074)"

text \<open>The casts of a 128-bit and of an unsigned integer, and division: the quotient \<open>n / d\<close> in units of
  \<open>2\<^sup>-\<^sup>1\<^sup>0\<^sup>7\<^sup>4\<close> is rounded to 53 significant bits.\<close>

definition f64_of_int :: "int \<Rightarrow> f64" where
  "f64_of_int i = f64_round (i < 0) (nat \<bar>i\<bar> * 2 ^ 1074)"

definition f64_of_u64 :: "u64 \<Rightarrow> f64" where
  "f64_of_u64 n = f64_round False (unat n * 2 ^ 1074)"

definition f64_quot_mant :: "nat \<Rightarrow> nat \<Rightarrow> nat" where
  "f64_quot_mant n d = (let k = bit_len (n div d) - 53 in k * 2 ^ 52 + round_div n (d * 2 ^ k))"

definition f64_div :: "f64 \<Rightarrow> f64 \<Rightarrow> f64" where
  "f64_div x y =
    (let neg = (if f64_sign x = f64_sign y then 0 else 2 ^ 63); mx = f64_mag_of (f64_bits x); my = f64_mag_of (f64_bits y) in
     if is_nan x then x else if is_nan y then y
     else if \<not> is_finite x then (if \<not> is_finite y then word_of_nat (f64_inf + 2 ^ 51) else word_of_nat (f64_inf + neg))
     else if \<not> is_finite y then word_of_nat neg
     else if my = 0 then (if mx = 0 then word_of_nat (f64_inf + 2 ^ 51) else word_of_nat (f64_inf + neg))
     else word_of_nat (min f64_inf (f64_quot_mant (mx * 2 ^ 1074) my) + neg))"

section \<open>Comparisons\<close>

text \<open>\<open>PartialOrd\<close>, \<open>PartialEq\<close> and \<open>total_cmp\<close> of \<open>f64\<close>.\<close>

definition f64_partial_cmp :: "f64 \<Rightarrow> f64 \<Rightarrow> ordering option" where
  "f64_partial_cmp x y = (if is_nan x \<or> is_nan y then None else Some (cmp (f64_val x) (f64_val y)))"

definition f64_lt :: "f64 \<Rightarrow> f64 \<Rightarrow> bool" where
  "f64_lt x y = (f64_partial_cmp x y = Some Less)"

definition f64_eq :: "f64 \<Rightarrow> f64 \<Rightarrow> bool" where
  "f64_eq x y = (f64_partial_cmp x y = Some Equal)"

definition f64_total_key :: "f64 \<Rightarrow> int" where
  "f64_total_key w = (if f64_sign w then - 1 - int (f64_bits w) else int (f64_bits w))"

definition f64_total_cmp :: "f64 \<Rightarrow> f64 \<Rightarrow> ordering" where
  "f64_total_cmp x y = cmp (f64_total_key x) (f64_total_key y)"

section \<open>Rounding is exact and monotone\<close>

lemma bit_len_bounds: "0 < n \<Longrightarrow> 2 ^ (bit_len n - 1) \<le> n \<and> n < 2 ^ bit_len n \<and> 0 < bit_len n"
proof (induction n rule: bit_len.induct)
  case (1 n)
  show ?case
  proof (cases "n div 2 = 0")
    case True
    then have "n = 1" using 1 by linarith
    then show ?thesis by (simp add: bit_len.simps)
  next
    case False
    then have IH: "2 ^ (bit_len (n div 2) - 1) \<le> n div 2" "n div 2 < 2 ^ bit_len (n div 2)" "0 < bit_len (n div 2)"
      using 1 by simp_all
    have eq: "bit_len n = Suc (bit_len (n div 2))" using 1 by (subst bit_len.simps) simp
    have "(2 :: nat) ^ bit_len (n div 2) = 2 * 2 ^ (bit_len (n div 2) - 1)"
      using IH(3) by (metis Suc_pred' power_Suc)
    then have "2 * 2 ^ (bit_len (n div 2) - 1) \<le> n \<and> n < 2 * 2 ^ bit_len (n div 2)" using IH(1,2) by linarith
    then show ?thesis using eq \<open>2 ^ bit_len (n div 2) = 2 * 2 ^ (bit_len (n div 2) - 1)\<close> by simp
  qed
qed

lemma bit_len_eqI: "2 ^ k \<le> n \<Longrightarrow> n < 2 ^ Suc k \<Longrightarrow> bit_len n = Suc k"
proof -
  assume a: "(2 :: nat) ^ k \<le> n" "n < 2 ^ Suc k"
  then have "0 < n" by (metis gr0I not_less zero_less_power zero_less_numeral)
  note b = bit_len_bounds [OF this]
  have "(2 :: nat) ^ (bit_len n - 1) < 2 ^ Suc k" "(2 :: nat) ^ k < 2 ^ bit_len n"
    using a b by linarith+
  then have "bit_len n - 1 < Suc k" "k < bit_len n"
    using power_less_imp_less_exp [of 2] by (metis one_less_numeral_iff semiring_norm(76))+
  then show ?thesis using b by linarith
qed

lemma bit_len_mono: "m \<le> n \<Longrightarrow> bit_len m \<le> bit_len n"
proof (cases "m = 0")
  case False
  assume "m \<le> n"
  note m = bit_len_bounds [of m] and n = bit_len_bounds [of n]
  have "(2 :: nat) ^ (bit_len m - 1) < 2 ^ bit_len n" using m n \<open>m \<le> n\<close> False by linarith
  then have "bit_len m - 1 < bit_len n" by simp
  then show ?thesis by linarith
qed (simp add: bit_len.simps)

lemma round_div_exact [simp]: "0 < d \<Longrightarrow> round_div (d * q) d = q"
  by (simp add: round_div_def)

lemma round_div_cases: "n div d \<le> round_div n d \<and> round_div n d \<le> Suc (n div d)"
  by (simp add: round_div_def Let_def)

lemma round_div_mono: "m \<le> n \<Longrightarrow> 0 < d \<Longrightarrow> round_div m d \<le> round_div n d"
proof (cases "m div d = n div d")
  case True
  assume "m \<le> n" "0 < d"
  then have "m mod d \<le> n mod d"
    using True by (metis add_le_cancel_left div_mult_mod_eq)
  then show ?thesis using True by (auto simp: round_div_def Let_def)
next
  case False
  assume "m \<le> n" "0 < d"
  then have "m div d < n div d" using False div_le_mono le_neq_implies_less by blast
  then show ?thesis using round_div_cases [of m d] round_div_cases [of n d] by linarith
qed

text \<open>Each power of two opens a binade; within one, the mantissa is a rounded division.\<close>

lemma f64_mant_binade:
  assumes "2 ^ (52 + k) \<le> n" "n < 2 ^ (53 + k)"
  shows "f64_mant n = k * 2 ^ 52 + round_div n (2 ^ k)" "2 ^ 52 \<le> round_div n (2 ^ k)" "round_div n (2 ^ k) \<le> 2 ^ 53"
proof -
  have len: "bit_len n = 53 + k" using bit_len_eqI [of "52 + k" n] assms by simp
  show "f64_mant n = k * 2 ^ 52 + round_div n (2 ^ k)"
  proof (cases "n < 2 ^ 53")
    case True
    have "k = 0"
    proof (rule ccontr)
      assume "k \<noteq> 0"
      then have "(2 :: nat) ^ 53 \<le> 2 ^ (52 + k)" by (intro power_increasing) auto
      then show False using True assms by linarith
    qed
    then show ?thesis using True by (simp add: f64_mant_def round_div_def)
  qed (simp add: f64_mant_def len)
  have "2 ^ 52 * 2 ^ k \<le> n" "n < 2 ^ 53 * 2 ^ k" using assms by (simp_all add: power_add)
  then have "2 ^ 52 \<le> n div 2 ^ k" "n div 2 ^ k < 2 ^ 53"
    by (simp_all add: less_eq_div_iff_mult_less_eq less_mult_imp_div_less)
  then show "2 ^ 52 \<le> round_div n (2 ^ k)" "round_div n (2 ^ k) \<le> 2 ^ 53"
    using round_div_cases [of n "2 ^ k"] by linarith+
qed

lemma binade_exists:
  assumes "2 ^ 52 \<le> n"
  obtains k where "(2 :: nat) ^ (52 + k) \<le> n" "n < 2 ^ (53 + k)"
proof -
  have pos: "0 < n" using assms by (metis gr0I not_less zero_less_power zero_less_numeral)
  have "bit_len (2 ^ 52) \<le> bit_len n" using assms by (rule bit_len_mono)
  moreover have "bit_len (2 ^ 52) = 53" using bit_len_eqI [of 52 "2 ^ 52"] by simp
  ultimately show ?thesis
    using that [of "bit_len n - 53"] bit_len_bounds [OF pos] by simp
qed

lemma f64_mant_mono: "m \<le> n \<Longrightarrow> f64_mant m \<le> f64_mant n"
proof (cases "m < 2 ^ 52")
  case True
  assume "m \<le> n"
  show ?thesis
  proof (cases "n < 2 ^ 52")
    case True
    then show ?thesis using \<open>m < 2 ^ 52\<close> \<open>m \<le> n\<close> by (simp add: f64_mant_def)
  next
    case False
    then have "2 ^ 52 \<le> n" by simp
    then obtain k where "2 ^ (52 + k) \<le> n" "n < 2 ^ (53 + k)" by (rule binade_exists)
    note f64_mant_binade [OF this]
    moreover have "f64_mant m = m" using True by (simp add: f64_mant_def)
    ultimately show ?thesis using True by linarith
  qed
next
  case False
  assume le: "m \<le> n"
  have "2 ^ 52 \<le> m" using False by simp
  then obtain j where j: "2 ^ (52 + j) \<le> m" "m < 2 ^ (53 + j)" by (rule binade_exists)
  have "2 ^ 52 \<le> n" using False le by linarith
  then obtain k where k: "2 ^ (52 + k) \<le> n" "n < 2 ^ (53 + k)" by (rule binade_exists)
  have "(2 :: nat) ^ (52 + j) < 2 ^ (53 + k)" using j k le by linarith
  then have "52 + j < 53 + k" by (rule power_less_imp_less_exp [rotated]) simp
  then consider "j = k" | "Suc j \<le> k" by linarith
  then show ?thesis
  proof cases
    case 1
    then show ?thesis using f64_mant_binade(1) [OF j] f64_mant_binade(1) [OF k] round_div_mono [OF le, of "2 ^ k"] by simp
  next
    case 2
    have "j * 2 ^ 52 + 2 ^ 53 \<le> k * 2 ^ 52 + (2 :: nat) ^ 52" using mult_le_mono1 [OF 2, of "2 ^ 52"] by simp
    then show ?thesis using f64_mant_binade [OF j] f64_mant_binade [OF k] by linarith
  qed
qed

lemma f64_mant_mag: "f64_mant (f64_mag_of b) = b"
proof (cases "b < 2 ^ 52")
  case True
  then show ?thesis by (simp add: f64_mag_of_def f64_mant_def)
next
  case False
  define e f where "e = b div 2 ^ 52" and "f = b mod 2 ^ 52"
  have b: "b = e * 2 ^ 52 + f" "f < 2 ^ 52" by (simp_all add: e_def f_def)
  have e: "0 < e" using False b by (metis add_0 gr0I mult_zero_left)
  have mag: "f64_mag_of b = 2 ^ (e - 1) * (2 ^ 52 + f)" using e by (simp add: f64_mag_of_def e_def f_def Let_def)
  have "2 ^ (52 + (e - 1)) \<le> f64_mag_of b" "f64_mag_of b < 2 ^ (53 + (e - 1))"
    using b(2) by (simp_all add: mag power_add)
  from f64_mant_binade(1) [OF this] have "f64_mant (f64_mag_of b) = (e - 1) * 2 ^ 52 + (2 ^ 52 + f)"
    unfolding mag by simp
  also have "\<dots> = b" using e b(1) by (cases e) simp_all
  finally show ?thesis .
qed

lemma f64_mag_mono_iff: "f64_mag_of a \<le> f64_mag_of b \<longleftrightarrow> a \<le> b"
  by (metis f64_mant_mag f64_mant_mono le_cases order_antisym)

end
