(* ===== verification/Value.thy ===== *)
theory Value
  imports Float64
begin

text \<open>
  The value type shared by graph properties and relational columns (\<open>bkndb-core/src/value.rs\<close>):
  equality, comparison, the order-preserving key encoding and \<open>LIKE\<close> matching. A map value is its
  entries in ascending key order, a UUID its sixteen bytes.
\<close>

section \<open>Values\<close>

datatype prop_value =
    Null
  | Bool bool
  | IntV i64
  | Float f64
  | Str string
  | Bytes bytes
  | Timestamp i64
  | Uuid bytes
  | List "prop_value list"
  | Map "(string \<times> prop_value) list"

type_synonym properties = "(string \<times> prop_value) list"

text \<open>The values a Rust \<open>PropValue\<close> can hold: strings are UTF-8, maps are ordered, UUIDs have 16 bytes.\<close>

fun value_ok :: "prop_value \<Rightarrow> bool" where
  "value_ok (Str s) = str_ok s"
| "value_ok (Uuid u) = (length u = 16)"
| "value_ok (List xs) = (\<forall>x\<in>set xs. value_ok x)"
| "value_ok (Map m) = (sorted_wrt (<) (map fst m) \<and> (\<forall>(k, v)\<in>set m. str_ok k \<and> value_ok v))"
| "value_ok _ = True"

definition properties_ok :: "properties \<Rightarrow> bool" where
  "properties_ok m \<longleftrightarrow> sorted_wrt (<) (map fst m) \<and> (\<forall>(k, v)\<in>set m. str_ok k \<and> value_ok v)"

definition kind_name :: "prop_value \<Rightarrow> string" where
  "kind_name v = (case v of
      Null \<Rightarrow> ''null'' | Bool _ \<Rightarrow> ''bool'' | IntV _ \<Rightarrow> ''int'' | Float _ \<Rightarrow> ''float'' | Str _ \<Rightarrow> ''str''
    | Bytes _ \<Rightarrow> ''bytes'' | Timestamp _ \<Rightarrow> ''timestamp'' | Uuid _ \<Rightarrow> ''uuid'' | List _ \<Rightarrow> ''list'' | Map _ \<Rightarrow> ''map'')"

text \<open>\<open>str::parse::<usize>\<close>: an optional plus sign and at least one decimal digit, within 64 bits.\<close>

definition is_digit :: "char \<Rightarrow> bool" where
  "is_digit c = (CHR ''0'' \<le> c \<and> c \<le> CHR ''9'')"

definition digits_val :: "string \<Rightarrow> nat" where
  "digits_val s = foldl (\<lambda>n c. n * 10 + (of_char c - 48)) 0 s"

definition parse_usize :: "string \<Rightarrow> nat option" where
  "parse_usize s =
    (let d = (case s of c # r \<Rightarrow> if c = CHR ''+'' then r else s | [] \<Rightarrow> [])
     in if d \<noteq> [] \<and> list_all is_digit d \<and> digits_val d < 2 ^ 64 then Some (digits_val d) else None)"

fun get_path :: "prop_value \<Rightarrow> string list \<Rightarrow> prop_value option" where
  "get_path cur [] = Some cur"
| "get_path cur (seg # path) = (case cur of
      Map m \<Rightarrow> (case map_of m seg of Some v \<Rightarrow> get_path v path | None \<Rightarrow> None)
    | List l \<Rightarrow> (case parse_usize seg of
        Some i \<Rightarrow> if i < length l then get_path (l ! i) path else None
      | None \<Rightarrow> None)
    | _ \<Rightarrow> None)"

section \<open>Equality and order\<close>

text \<open>The derived \<open>PartialEq\<close>: structural, with IEEE equality on floats.\<close>

fun prop_eq :: "prop_value \<Rightarrow> prop_value \<Rightarrow> bool"
  and props_eq :: "prop_value list \<Rightarrow> prop_value list \<Rightarrow> bool"
  and entries_eq :: "(string \<times> prop_value) list \<Rightarrow> (string \<times> prop_value) list \<Rightarrow> bool" where
  "prop_eq Null b = (b = Null)"
| "prop_eq (Bool x) b = (b = Bool x)"
| "prop_eq (IntV x) b = (b = IntV x)"
| "prop_eq (Float x) b = (case b of Float y \<Rightarrow> f64_eq x y | _ \<Rightarrow> False)"
| "prop_eq (Str x) b = (b = Str x)"
| "prop_eq (Bytes x) b = (b = Bytes x)"
| "prop_eq (Timestamp x) b = (b = Timestamp x)"
| "prop_eq (Uuid x) b = (b = Uuid x)"
| "prop_eq (List xs) b = (case b of List ys \<Rightarrow> props_eq xs ys | _ \<Rightarrow> False)"
| "prop_eq (Map m) b = (case b of Map n \<Rightarrow> entries_eq m n | _ \<Rightarrow> False)"
| "props_eq [] ys = (ys = [])"
| "props_eq (x # xs) ys = (case ys of [] \<Rightarrow> False | y # ys \<Rightarrow> prop_eq x y \<and> props_eq xs ys)"
| "entries_eq [] n = (n = [])"
| "entries_eq ((k, x) # m) n = (case n of [] \<Rightarrow> False | (l, y) # n \<Rightarrow> k = l \<and> prop_eq x y \<and> entries_eq m n)"

text \<open>The same on \<open>Option<&PropValue>\<close>.\<close>

definition opt_prop_eq :: "prop_value option \<Rightarrow> prop_value option \<Rightarrow> bool" where
  "opt_prop_eq a b = (case (a, b) of (None, None) \<Rightarrow> True | (Some x, Some y) \<Rightarrow> prop_eq x y | _ \<Rightarrow> False)"

text \<open>\<open>compare_values\<close>; its loop over two lists ends in the comparison of their lengths.\<close>

fun compare_values :: "prop_value \<Rightarrow> prop_value \<Rightarrow> ordering option"
  and compare_lists :: "prop_value list \<Rightarrow> prop_value list \<Rightarrow> ordering option \<Rightarrow> ordering option" where
  "compare_values Null b = None"
| "compare_values (IntV x) b = (case b of
      IntV y \<Rightarrow> Some (cmp (sint x) (sint y))
    | Float y \<Rightarrow> f64_partial_cmp (f64_of_i64 x) y
    | _ \<Rightarrow> None)"
| "compare_values (Float x) b = (case b of
      Float y \<Rightarrow> f64_partial_cmp x y
    | IntV y \<Rightarrow> f64_partial_cmp x (f64_of_i64 y)
    | _ \<Rightarrow> None)"
| "compare_values (Str x) b = (case b of Str y \<Rightarrow> Some (cmp x y) | _ \<Rightarrow> None)"
| "compare_values (Bool x) b = (case b of Bool y \<Rightarrow> Some (cmp x y) | _ \<Rightarrow> None)"
| "compare_values (Bytes x) b = (case b of Bytes y \<Rightarrow> Some (cmp x y) | _ \<Rightarrow> None)"
| "compare_values (Timestamp x) b = (case b of Timestamp y \<Rightarrow> Some (cmp (sint x) (sint y)) | _ \<Rightarrow> None)"
| "compare_values (Uuid x) b = (case b of Uuid y \<Rightarrow> Some (cmp x y) | _ \<Rightarrow> None)"
| "compare_values (List x) b = (case b of
      List y \<Rightarrow> compare_lists x y (Some (cmp (length x) (length y)))
    | _ \<Rightarrow> None)"
| "compare_values (Map x) b = (case b of Map y \<Rightarrow> if entries_eq x y then Some Equal else None | _ \<Rightarrow> None)"
| "compare_lists [] ys r = r"
| "compare_lists (a # xs) ys r = (case ys of
      [] \<Rightarrow> r
    | b # ys \<Rightarrow>
        if a = Null \<and> b = Null then compare_lists xs ys r
        else (case compare_values a b of
            None \<Rightarrow> None
          | Some Equal \<Rightarrow> compare_lists xs ys r
          | Some ord \<Rightarrow> Some ord))"

definition rank :: "prop_value option \<Rightarrow> nat" where
  "rank v = (case v of
      None \<Rightarrow> 0
    | Some x \<Rightarrow> (case x of
        Null \<Rightarrow> 0 | Bool _ \<Rightarrow> 1 | IntV _ \<Rightarrow> 2 | Float _ \<Rightarrow> 2 | Str _ \<Rightarrow> 3 | Bytes _ \<Rightarrow> 4 | Timestamp _ \<Rightarrow> 5
      | Uuid _ \<Rightarrow> 6 | List _ \<Rightarrow> 7 | Map _ \<Rightarrow> 8))"

definition total_cmp :: "prop_value option \<Rightarrow> prop_value option \<Rightarrow> ordering" where
  "total_cmp a b = then_cmp (cmp (rank a) (rank b)) (case (a, b) of
      (Some (Float x), Some (Float y)) \<Rightarrow> f64_total_cmp x y
    | (Some (IntV x), Some (Float y)) \<Rightarrow> f64_total_cmp (f64_of_i64 x) y
    | (Some (Float x), Some (IntV y)) \<Rightarrow> f64_total_cmp x (f64_of_i64 y)
    | (Some x, Some y) \<Rightarrow> (case compare_values x y of Some ord \<Rightarrow> ord | None \<Rightarrow> Equal)
    | _ \<Rightarrow> Equal)"

section \<open>Keys\<close>

definition sortable_key :: "prop_value \<Rightarrow> bytes option" where
  "sortable_key v = (case v of
      IntV i \<Rightarrow> Some (be64 (i XOR 0x8000000000000000))
    | Timestamp i \<Rightarrow> Some (be64 (i XOR 0x8000000000000000))
    | Str s \<Rightarrow> if 0 \<in> set (as_bytes s) then None else Some (as_bytes s @ [0])
    | Uuid u \<Rightarrow> Some u
    | _ \<Rightarrow> None)"

section \<open>LIKE\<close>

text \<open>\<open>str::chars\<close>: the code points of a UTF-8 string.\<close>

definition cont_byte :: "bytes \<Rightarrow> nat \<Rightarrow> nat" where
  "cont_byte r i = (if i < length r then unat (r ! i) mod 0x40 else 0)"

fun utf8_chars :: "bytes \<Rightarrow> nat list" where
  "utf8_chars [] = []"
| "utf8_chars (a # r) =
    (if unat a < 0x80 then unat a # utf8_chars r
     else if unat a < 0xE0 then ((unat a mod 0x20) * 0x40 + cont_byte r 0) # utf8_chars (drop 1 r)
     else if unat a < 0xF0 then
       ((unat a mod 0x10) * 0x1000 + cont_byte r 0 * 0x40 + cont_byte r 1) # utf8_chars (drop 2 r)
     else
       ((unat a mod 8) * 0x40000 + cont_byte r 0 * 0x1000 + cont_byte r 1 * 0x40 + cont_byte r 2) # utf8_chars (drop 3 r))"

definition chars :: "string \<Rightarrow> nat list" where
  "chars s = utf8_chars (as_bytes s)"

abbreviation PERCENT :: nat where "PERCENT \<equiv> 37"
abbreviation UNDERSCORE :: nat where "UNDERSCORE \<equiv> 95"

definition star_ok :: "(nat \<times> nat) option \<Rightarrow> nat \<Rightarrow> bool" where
  "star_ok star pi = (case star of None \<Rightarrow> True | Some (sp, st) \<Rightarrow> sp < pi)"

text \<open>The matching loop over the indices \<open>ti\<close> and \<open>pi\<close>, with the last \<open>%\<close> to return to.\<close>

function like_loop :: "nat list \<Rightarrow> nat list \<Rightarrow> nat \<Rightarrow> nat \<Rightarrow> (nat \<times> nat) option \<Rightarrow> bool" where
  "like_loop t p ti pi star =
    (if ti < length t then
       if pi < length p \<and> (p ! pi = UNDERSCORE \<or> (p ! pi \<noteq> PERCENT \<and> p ! pi = t ! ti)) then like_loop t p (ti + 1) (pi + 1) star
       else if pi < length p \<and> p ! pi = PERCENT then like_loop t p ti (pi + 1) (Some (pi, ti))
       else (case star of
           Some (sp, st) \<Rightarrow> like_loop t p (st + 1) (sp + 1) (Some (sp, st + 1))
         | None \<Rightarrow> False)
     else list_all (\<lambda>c. c = PERCENT) (drop pi p))"
  by pat_completeness auto
termination
  by (relation "measures
      [\<lambda>(t, p, ti, pi, star). if star_ok star pi then 0 else 1,
       \<lambda>(t, p, ti, pi, star). case star of None \<Rightarrow> Suc (length p) | Some (sp, st) \<Rightarrow> length p - sp,
       \<lambda>(t, p, ti, pi, star). case star of None \<Rightarrow> 0 | Some (sp, st) \<Rightarrow> if ti < length t then Suc (length t - st) else 0,
       \<lambda>(t, p, ti, pi, star). length p - pi]")
    (auto simp: star_ok_def split: option.splits)

declare like_loop.simps [simp del]

text \<open>\<open>char::to_lowercase\<close> is Unicode data: the argument \<open>lower\<close>.\<close>

definition like_matches :: "(nat \<Rightarrow> nat list) \<Rightarrow> string \<Rightarrow> string \<Rightarrow> bool \<Rightarrow> bool" where
  "like_matches lower text pattern case_insensitive =
    (let fold = (\<lambda>s. if case_insensitive then concat (map lower (chars s)) else chars s)
     in like_loop (fold text) (fold pattern) 0 0 None)"

section \<open>LIKE matching decides the pattern language\<close>

text \<open>The reference definition: a percent sign stands for any run, an underscore for one character.\<close>

fun like :: "nat list \<Rightarrow> nat list \<Rightarrow> bool" where
  "like t [] = (t = [])"
| "like t (c # p) =
    (if c = PERCENT then \<exists>i\<in>{..length t}. like (drop i t) p
     else (case t of [] \<Rightarrow> False | x # t \<Rightarrow> (c = UNDERSCORE \<or> c = x) \<and> like t p))"

declare like.simps(2) [simp del]

lemma like_percent: "like t (PERCENT # p) \<longleftrightarrow> (\<exists>i\<le>length t. like (drop i t) p)"
  by (auto simp: like.simps)

lemma like_percent_step: "like (drop i t) (PERCENT # p) \<longleftrightarrow> like (drop i t) p \<or> like (drop (Suc i) t) (PERCENT # p)"
proof (cases "i < length t")
  case True
  have "(\<exists>j\<le>length (drop i t). like (drop (j + i) t) p) \<longleftrightarrow>
      like (drop i t) p \<or> (\<exists>j\<le>length (drop (Suc i) t). like (drop (j + Suc i) t) p)"
  proof (intro iffI; elim disjE exE conjE)
    fix j assume "j \<le> length (drop i t)" "like (drop (j + i) t) p"
    then show "like (drop i t) p \<or> (\<exists>j\<le>length (drop (Suc i) t). like (drop (j + Suc i) t) p)"
      by (cases j) auto
  next
    fix j assume "j \<le> length (drop (Suc i) t)" "like (drop (j + Suc i) t) p"
    then show "\<exists>j\<le>length (drop i t). like (drop (j + i) t) p" using True by (intro exI [of _ "Suc j"]) auto
  qed (intro exI [of _ 0], simp)
  then show ?thesis by (simp add: like_percent)
qed (simp add: like_percent)

lemma like_percent_back: "like (drop j t) (PERCENT # p) \<Longrightarrow> i \<le> j \<Longrightarrow> like (drop i t) (PERCENT # p)"
proof (induction "j - i" arbitrary: i)
  case (Suc n)
  then have "like (drop (Suc i) t) (PERCENT # p)" by simp
  then show ?case by (simp add: like_percent_step [of i])
qed simp

lemma like_char:
  assumes "p ! pi \<noteq> PERCENT" "pi < length p" "ti < length t"
  shows "like (drop ti t) (drop pi p) \<longleftrightarrow> (p ! pi = UNDERSCORE \<or> p ! pi = t ! ti) \<and> like (drop (ti + 1) t) (drop (pi + 1) p)"
  using assms by (simp add: Cons_nth_drop_Suc [symmetric] like.simps(2))

lemma like_segment: "\<forall>c\<in>set m. c \<noteq> PERCENT \<Longrightarrow> like t (m @ q) \<Longrightarrow> length m \<le> length t \<and> like (drop (length m) t) q"
  by (induction m arbitrary: t) (auto simp: like.simps(2) split: list.splits)

lemma like_Nil: "like [] p \<longleftrightarrow> list_all (\<lambda>c. c = PERCENT) p"
  by (induction p) (auto simp: like.simps(2))

text \<open>The loop invariant: the text matched since the last percent sign is a segment without one.\<close>

definition like_inv :: "nat list \<Rightarrow> nat list \<Rightarrow> nat \<Rightarrow> nat \<Rightarrow> (nat \<times> nat) option \<Rightarrow> bool" where
  "like_inv t p ti pi star \<longleftrightarrow> ti \<le> length t \<and> pi \<le> length p \<and>
    (\<forall>sp st. star = Some (sp, st) \<longrightarrow> sp < pi \<and> p ! sp = PERCENT \<and> (\<forall>i. sp < i \<and> i < pi \<longrightarrow> p ! i \<noteq> PERCENT) \<and>
      ti + Suc sp = st + pi)"

definition like_alt :: "nat list \<Rightarrow> nat list \<Rightarrow> (nat \<times> nat) option \<Rightarrow> bool" where
  "like_alt t p star = (case star of None \<Rightarrow> False | Some (sp, st) \<Rightarrow> like (drop (st + 1) t) (drop sp p))"

lemma like_alt_later:
  assumes "like_inv t p ti pi star" "like_alt t p star"
  shows "(\<exists>j>ti. j \<le> length t \<and> like (drop j t) (drop pi p)) \<or> (ti = length t \<and> like [] (drop pi p))"
proof -
  obtain sp st where s: "star = Some (sp, st)" "like (drop (st + 1) t) (drop sp p)"
    using assms(2) by (auto simp: like_alt_def split: option.splits)
  have inv: "sp < pi" "p ! sp = PERCENT" "\<And>i. sp < i \<Longrightarrow> i < pi \<Longrightarrow> p ! i \<noteq> PERCENT" "ti + Suc sp = st + pi"
      "ti \<le> length t" "pi \<le> length p"
    using assms(1) s(1) by (auto simp: like_inv_def)
  define m where "m = take (pi - Suc sp) (drop (Suc sp) p)"
  have m: "drop (Suc sp) p = m @ drop pi p" "length m = pi - Suc sp"
    using inv(1,6) append_take_drop_id [of "pi - Suc sp" "drop (Suc sp) p"] by (simp_all add: m_def)
  have seg: "\<forall>c\<in>set m. c \<noteq> PERCENT"
    using inv(3) by (auto simp: m_def in_set_conv_nth)
  have "drop sp p = PERCENT # m @ drop pi p"
    using inv(1,2,6) m(1) by (simp add: Cons_nth_drop_Suc [symmetric])
  then obtain i where i: "i \<le> length (drop (st + 1) t)" "like (drop i (drop (st + 1) t)) (m @ drop pi p)"
    using s(2) by (auto simp: like_percent)
  from like_segment [OF seg i(2)]
  have l: "length m \<le> length t - (st + 1 + i)" "like (drop (length m + (i + (st + 1))) t) (drop pi p)"
    by (simp_all add: add.commute add.left_commute)
  show ?thesis
  proof (cases "st < length t")
    case True
    then have "length m + (i + (st + 1)) = ti + 1 + i" "ti + 1 + i \<le> length t"
      using inv(1,4) l(1) m(2) i(1) by simp_all
    then show ?thesis using l(2) by (metis le_add1 less_eq_Suc_le Suc_eq_plus1)
  next
    case False
    then have "ti = length t" using inv(1,4,5) by linarith
    then show ?thesis using l(2) False by simp
  qed
qed

lemma like_loop_correct:
  "like_inv t p ti pi star \<Longrightarrow> like_loop t p ti pi star \<longleftrightarrow> like (drop ti t) (drop pi p) \<or> like_alt t p star"
proof (induction t p ti pi star rule: like_loop.induct)
  case (1 t p ti pi star)
  note later = like_alt_later [OF "1.prems"]
  show ?case
  proof (cases "ti < length t")
    case False
    then have "drop ti t = []" "ti = length t" using "1.prems" by (auto simp: like_inv_def)
    then have "like_loop t p ti pi star = list_all (\<lambda>c. c = PERCENT) (drop pi p)"
      by (subst like_loop.simps) simp
    then show ?thesis using later \<open>drop ti t = []\<close> \<open>ti = length t\<close> by (auto simp: like_Nil)
  next
    case ti: True
    consider (match) "pi < length p" "p ! pi \<noteq> PERCENT" "p ! pi = UNDERSCORE \<or> p ! pi = t ! ti"
      | (star) "pi < length p" "p ! pi = PERCENT"
      | (mismatch) "pi = length p \<or> pi < length p \<and> p ! pi \<noteq> PERCENT \<and> p ! pi \<noteq> UNDERSCORE \<and> p ! pi \<noteq> t ! ti"
    proof -
      have "pi \<le> length p" using "1.prems" by (simp add: like_inv_def)
      then show thesis using match star mismatch by (metis le_neq_implies_less)
    qed
    then show ?thesis
    proof cases
      case match
      have "like_inv t p (ti + 1) (pi + 1) star"
        using "1.prems" ti match by (auto simp: like_inv_def less_Suc_eq)
      with "1.IH"(1) ti match have "like_loop t p (ti + 1) (pi + 1) star
          \<longleftrightarrow> like (drop (ti + 1) t) (drop (pi + 1) p) \<or> like_alt t p star" by blast
      then show ?thesis using ti match like_char [OF match(2,1) ti] by (auto simp: like_loop.simps [of t p ti pi star])
    next
      case star
      have "like_inv t p ti (pi + 1) (Some (pi, ti))"
        using "1.prems" star by (auto simp: like_inv_def)
      with "1.IH"(2) ti star have IH: "like_loop t p ti (pi + 1) (Some (pi, ti))
          \<longleftrightarrow> like (drop ti t) (drop (pi + 1) p) \<or> like (drop (ti + 1) t) (drop pi p)" by (auto simp: like_alt_def)
      have p: "drop pi p = PERCENT # drop (pi + 1) p" using star by (simp add: Cons_nth_drop_Suc [symmetric])
      have "like_alt t p star \<Longrightarrow> like (drop ti t) (drop pi p)"
        using later like_percent_back unfolding p by (metis less_imp_le drop_all order_refl)
      then show ?thesis
        using ti star IH like_percent_step [of ti t "drop (pi + 1) p"] p
        by (auto simp: like_loop.simps [of t p ti pi star])
    next
      case mismatch
      have no: "\<not> like (drop ti t) (drop pi p)"
        using mismatch ti like_char [of p pi ti t] by auto
      show ?thesis
      proof (cases star)
        case None
        then have "\<not> like_loop t p ti pi star" using ti mismatch by (subst like_loop.simps) auto
        then show ?thesis using None no by (simp add: like_alt_def)
      next
        case (Some s)
        obtain sp st where s: "star = Some (sp, st)" using Some by (metis surj_pair)
        have inv: "sp < pi" "p ! sp = PERCENT" "ti + Suc sp = st + pi" "pi \<le> length p"
          using "1.prems" s by (auto simp: like_inv_def)
        have "like_inv t p (st + 1) (sp + 1) (Some (sp, st + 1))"
          using inv ti by (auto simp: like_inv_def)
        with "1.IH"(3) ti mismatch s have IH: "like_loop t p (st + 1) (sp + 1) (Some (sp, st + 1))
            \<longleftrightarrow> like (drop (st + 1) t) (drop (sp + 1) p) \<or> like (drop (st + 1 + 1) t) (drop sp p)"
          by (auto simp: like_alt_def)
        have p: "drop sp p = PERCENT # drop (sp + 1) p" using inv by (simp add: Cons_nth_drop_Suc [symmetric])
        have "like_loop t p ti pi star = like_loop t p (st + 1) (sp + 1) (Some (sp, st + 1))"
          using ti mismatch s by (subst like_loop.simps) auto
        then show ?thesis
          using IH no s like_percent_step [of "st + 1" t "drop (sp + 1) p"] p by (simp add: like_alt_def)
      qed
    qed
  qed
qed

text \<open>C39: \<open>LIKE\<close> matching is correct. The greedy loop with its single backtracking point accepts exactly
  the texts that the pattern describes, where a percent sign stands for any run of characters, an
  underscore for one character and any other character for itself, after both sides were folded to
  lower case when the match ignores case.\<close>

theorem like_matches_decides:
  "like_matches lower text pattern ci \<longleftrightarrow>
    like (if ci then concat (map lower (chars text)) else chars text)
      (if ci then concat (map lower (chars pattern)) else chars pattern)"
proof -
  have "like_inv t p 0 0 None" for t p by (simp add: like_inv_def)
  then show ?thesis by (simp add: like_matches_def Let_def like_loop_correct like_alt_def)
qed

section \<open>Key order\<close>

lemma int_xor_top: "0 \<le> v \<Longrightarrow> v < 2 ^ 63 \<Longrightarrow> (v :: int) XOR 2 ^ 63 = v + 2 ^ 63" "0 \<le> v \<Longrightarrow> v < 2 ^ 63 \<Longrightarrow> (v + 2 ^ 63) XOR 2 ^ 63 = v"
proof -
  assume "0 \<le> v" "v < 2 ^ 63"
  then have "\<not> bit v 63" by (simp add: bit_iff_odd)
  then have "v AND 2 ^ 63 = 0" by (subst and_exp_eq_0_iff_not_bit)
  then have eq: "v + 2 ^ 63 = v XOR 2 ^ 63" by (rule disjunctive_add_eq_xor)
  then show "v XOR 2 ^ 63 = v + 2 ^ 63" by (rule sym)
  show "(v + 2 ^ 63) XOR 2 ^ 63 = v" unfolding eq by (simp only: xor.assoc xor_self_eq xor.right_neutral)
qed

lemma sint_flip: fixes w :: "64 word"
  shows "int (unat (w XOR 0x8000000000000000)) = sint w + 2 ^ 63"
proof -
  have u: "0 \<le> uint w" "uint w < 2 ^ 64" using uint_lt2p [of w] by simp_all
  have "uint (w XOR 0x8000000000000000) = uint w XOR 2 ^ 63" by (simp add: uint_xor)
  moreover have "sint w = uint w - 2 ^ 64 * of_bool (bit (uint w) 63)"
    using u by (simp add: sint_uint signed_take_bit_eq_take_bit_minus take_bit_int_eq_self)
  moreover have "bit (uint w) 63 \<longleftrightarrow> 2 ^ 63 \<le> uint w"
  proof (cases "uint w < 2 ^ 63")
    case False
    then have "uint w div 2 ^ 63 = 1" using u by (intro int_div_pos_eq [where r = "uint w - 2 ^ 63"]) simp_all
    then show ?thesis using False by (simp add: bit_iff_odd)
  qed (use u in \<open>simp add: bit_iff_odd\<close>)
  ultimately show ?thesis
    using int_xor_top(1) [of "uint w"] int_xor_top(2) [of "uint w - 2 ^ 63"] u
    by (cases "2 ^ 63 \<le> uint w") (simp_all add: uint_nat [symmetric])
qed

lemma byte_of_char_less: "(word_of_nat (of_char c) :: byte) < word_of_nat (of_char d) \<longleftrightarrow> c < d"
proof -
  have "unat (word_of_nat (of_char c) :: byte) = of_char c" for c
    by (simp add: unsigned_of_nat take_bit_nat_eq_self)
  then show ?thesis by (simp add: word_less_nat_alt less_char_def)
qed

lemma as_bytes_less_iff: "as_bytes s < as_bytes t \<longleftrightarrow> s < t"
proof (induction s arbitrary: t)
  case Nil
  then show ?case by (cases t) simp_all
next
  case (Cons c s)
  show ?case
  proof (cases t)
    case (Cons d t')
    have "as_bytes [c] = as_bytes [d] \<longleftrightarrow> c = d" by (simp only: as_bytes_inject) simp
    then show ?thesis using Cons.IH [of t'] Cons by (simp add: byte_of_char_less)
  qed simp
qed

lemma terminated_less_iff:
  "0 \<notin> set xs \<Longrightarrow> 0 \<notin> set ys \<Longrightarrow> xs @ [0] < ys @ [0 :: byte] \<longleftrightarrow> xs < ys"
proof (induction xs arbitrary: ys)
  case Nil
  then show ?case by (cases ys) (auto simp: word_greater_zero_iff)
next
  case (Cons x xs)
  then show ?case by (cases ys) (auto simp: word_greater_zero_iff)
qed

lemma cmp_eqI: "(x < y \<longleftrightarrow> u < v) \<Longrightarrow> (x = y \<longleftrightarrow> u = v) \<Longrightarrow> cmp x y = cmp u v"
  by (simp add: cmp_def)

lemma cmp_flipped: "cmp (sint i) (sint j) = cmp (be64 (i XOR 0x8000000000000000)) (be64 (j XOR 0x8000000000000000))"
  using sint_flip [of i] sint_flip [of j]
  by (intro cmp_eqI) (simp_all add: word_less_nat_alt word_unat_eq_iff flip: of_nat_less_iff [where 'a = int] of_nat_eq_iff [where 'a = int])

lemma sortable_key_cmp:
  assumes "sortable_key a = Some ka" "sortable_key b = Some kb" "kind_name a = kind_name b"
  shows "compare_values a b = Some (cmp ka kb)"
proof -
  have str: "cmp s t = cmp (as_bytes s @ [0]) (as_bytes t @ [0])" if "0 \<notin> set (as_bytes s)" "0 \<notin> set (as_bytes t)" for s t
    using that by (intro cmp_eqI) (simp_all add: terminated_less_iff as_bytes_less_iff)
  show ?thesis
    using assms by (cases a; cases b) (auto simp: sortable_key_def kind_name_def cmp_flipped str split: if_splits)
qed

text \<open>C40: Key encodings preserve order. Whenever two values of the same kind have key encodings, comparing
  the encodings bytewise gives the same result as comparing the values, negative numbers and strings
  that are prefixes of each other included; in particular the encoding is injective on a kind.\<close>

theorem sortable_key_orders:
  assumes "sortable_key a = Some ka" "sortable_key b = Some kb" "kind_name a = kind_name b"
  shows "compare_values a b = Some (cmp ka kb)"
  using assms by (rule sortable_key_cmp)

theorem sortable_key_orders_witness:
  "compare_values (Str ''ab'') (Str ''abc'') = Some (cmp (as_bytes ''ab'' @ [0]) (as_bytes ''abc'' @ [0]))"
  using sortable_key_orders [of "Str ''ab''" _ "Str ''abc''"] by (simp add: sortable_key_def kind_name_def)

section \<open>The sorting order\<close>

lemma f64_total_cmp_reverse: "reverse_ordering (f64_total_cmp x y) = f64_total_cmp y x"
  by (simp add: f64_total_cmp_def reverse_cmp)

lemma f64_partial_cmp_reverse: "map_option reverse_ordering (f64_partial_cmp x y) = f64_partial_cmp y x"
  by (auto simp: f64_partial_cmp_def reverse_cmp)

lemma f64_eq_sym: "f64_eq x y = f64_eq y x"
  by (auto simp: f64_eq_def f64_partial_cmp_def)

lemma prop_eq_atoms [simp]:
  "prop_eq b Null = (b = Null)" "prop_eq b (Bool x) = (b = Bool x)" "prop_eq b (IntV i) = (b = IntV i)"
  "prop_eq b (Str s) = (b = Str s)" "prop_eq b (Bytes y) = (b = Bytes y)" "prop_eq b (Timestamp i) = (b = Timestamp i)"
  "prop_eq b (Uuid y) = (b = Uuid y)"
  by (cases b; auto)+

lemma eqs_Nil [simp]: "props_eq ys [] = (ys = [])" "entries_eq n [] = (n = [])"
  by (cases ys; simp) (cases n; auto)

lemma compare_Null [simp]: "compare_values b Null = None"
  by (cases b) simp_all

lemma eq_sym_all: "prop_eq a b = prop_eq b a" "props_eq xs ys = props_eq ys xs" "entries_eq m n = entries_eq n m"
proof (induction a b and xs ys and m n rule: prop_eq_props_eq_entries_eq.induct)
  case (12 x xs ys) then show ?case by (cases ys) auto
next
  case (14 k x m n) then show ?case by (cases n) auto
qed (auto simp: f64_eq_sym split: prop_value.splits)

lemma compare_reverse:
  "map_option reverse_ordering (compare_values a b) = compare_values b a"
  "map_option reverse_ordering (compare_lists xs ys r) = compare_lists ys xs (map_option reverse_ordering r)"
proof (induction a b and xs ys r rule: compare_values_compare_lists.induct)
  case (11 ys r) then show ?case by (cases ys) auto
next
  case (12 a xs ys r)
  show ?case
  proof (cases ys)
    case (Cons b ys')
    show ?thesis
    proof (cases "a = Null \<and> b = Null")
      case False
      have "map_option reverse_ordering (compare_values a b) = compare_values b a" using 12(2) Cons False by simp
      then show ?thesis using 12(3) Cons False
        by (cases "compare_values a b"; cases "compare_values b a") (auto simp: reverse_ordering_def split: ordering.splits)
    qed (use 12(1) Cons in simp)
  qed simp
qed (auto simp: reverse_cmp f64_partial_cmp_reverse eq_sym_all reverse_ordering_def [of Equal] split: prop_value.splits)

lemma total_cmp_reverse: "total_cmp b a = reverse_ordering (total_cmp a b)"
proof -
  have then_rev: "reverse_ordering (then_cmp p q) = then_cmp (reverse_ordering p) (reverse_ordering q)" for p q
    by (cases p) (simp_all add: then_cmp_def reverse_ordering_def)
  have eq: "reverse_ordering Equal = Equal" by (simp add: reverse_ordering_def)
  have opt: "reverse_ordering (case compare_values x y of Some ord \<Rightarrow> ord | None \<Rightarrow> Equal) = (case compare_values y x of Some ord \<Rightarrow> ord | None \<Rightarrow> Equal)" for x y
    using compare_reverse(1) [of x y] eq by (cases "compare_values x y"; cases "compare_values y x") auto
  show ?thesis
    unfolding total_cmp_def then_rev reverse_cmp
    by (rule arg_cong [where f = "then_cmp _"]) (auto simp: f64_total_cmp_reverse opt eq simp del: compare_values.simps(2-) split: option.split prop_value.split)
qed

text \<open>The sorting order is not transitive. Lists whose elements are of different kinds compare as equal,
  so a list can be equal to two lists of which one precedes the other: \<open>total_cmp\<close> is not the total
  order that sorting requires.\<close>

theorem total_cmp_not_transitive:
  "total_cmp (Some (List [IntV 1])) (Some (List [Str ''a''])) = Equal \<and>
   total_cmp (Some (List [Str ''a''])) (Some (List [IntV 2])) = Equal \<and>
   total_cmp (Some (List [IntV 1])) (Some (List [IntV 2])) = Less"
  by (simp add: total_cmp_def rank_def cmp_def)

end
