(* ===== verification/Codec.thy ===== *)
theory Codec
  imports Prelude
begin

text \<open>
  Serialisation (\<open>bincode\<close>) as a parameter: a \<open>codec\<close> is a partial encoder and a partial
  decoder of one type, and \<open>codec_on P\<close> states its documented round trip on the values that satisfy
  \<open>P\<close>. The second section builds concrete codecs field by field, for the witnesses.
\<close>

section \<open>Codecs\<close>

record 'a codec =
  serialize :: "'a \<Rightarrow> bytes option"
  deserialize :: "bytes \<Rightarrow> 'a option"

definition codec_ok :: "'a codec \<Rightarrow> bool" where
  "codec_ok c \<longleftrightarrow> (\<forall>x. \<exists>bs. serialize c x = Some bs \<and> deserialize c bs = Some x)"

text \<open>Types whose values carry strings or ordered maps round-trip on their well-formed values.\<close>

definition codec_on :: "('a \<Rightarrow> bool) \<Rightarrow> 'a codec \<Rightarrow> bool" where
  "codec_on P c \<longleftrightarrow> (\<forall>x. P x \<longrightarrow> (\<exists>bs. serialize c x = Some bs \<and> deserialize c bs = Some x))"

lemma codec_okE:
  assumes "codec_ok c"
  obtains bs where "serialize c x = Some bs" "deserialize c bs = Some x"
  using assms unfolding codec_ok_def by blast

lemma codec_onE:
  assumes "codec_on P c" "P x"
  obtains bs where "serialize c x = Some bs" "deserialize c bs = Some x"
  using assms unfolding codec_on_def by blast

lemma codec_ok_on: "codec_ok c \<Longrightarrow> codec_on P c"
  by (auto simp: codec_ok_def codec_on_def)

text \<open>\<open>encode\<close> and \<open>decode\<close> of the data models: serialisation with the error mapped.\<close>

definition encode :: "'a codec \<Rightarrow> 'a \<Rightarrow> bytes res" where
  "encode c x = ok_or (serialize c x) (Encoding ''bincode'')"

definition decode :: "'a codec \<Rightarrow> bytes \<Rightarrow> 'a res" where
  "decode c bs = ok_or (deserialize c bs) (Encoding ''bincode'')"

section \<open>Concrete codecs\<close>

text \<open>Records are written field by field, integers big-endian at their width, lists with a unary length.\<close>

type_synonym 'a scodec = "('a \<Rightarrow> bytes) \<times> (bytes \<Rightarrow> ('a \<times> bytes) option)"

definition sc_ok :: "'a scodec \<Rightarrow> bool" where
  "sc_ok c \<longleftrightarrow> (\<forall>x r. snd c (fst c x @ r) = Some (x, r))"

definition sc_byte :: "byte scodec" where
  "sc_byte = (\<lambda>b. [b], \<lambda>bs. case bs of [] \<Rightarrow> None | b # r \<Rightarrow> Some (b, r))"

definition sc_u32 :: "u32 scodec" where
  "sc_u32 = (be32, \<lambda>bs. Some (of_be32 (take 4 bs), drop 4 bs))"

definition sc_u64 :: "u64 scodec" where
  "sc_u64 = (be64, \<lambda>bs. Some (of_be64 (take 8 bs), drop 8 bs))"

definition sc_map :: "('a \<Rightarrow> 'b) \<Rightarrow> ('b \<Rightarrow> 'a) \<Rightarrow> 'a scodec \<Rightarrow> 'b scodec" where
  "sc_map to from c = (\<lambda>y. fst c (from y), \<lambda>bs. map_option (\<lambda>(x, r). (to x, r)) (snd c bs))"

definition sc_pair :: "'a scodec \<Rightarrow> 'b scodec \<Rightarrow> ('a \<times> 'b) scodec" where
  "sc_pair c d = (\<lambda>(x, y). fst c x @ fst d y,
     \<lambda>bs. Option.bind (snd c bs) (\<lambda>(x, r). map_option (\<lambda>(y, r). ((x, y), r)) (snd d r)))"

definition sc_opt :: "'a scodec \<Rightarrow> 'a option scodec" where
  "sc_opt c = (\<lambda>x. case x of None \<Rightarrow> [0] | Some y \<Rightarrow> 1 # fst c y,
     \<lambda>bs. case bs of [] \<Rightarrow> None | t # r \<Rightarrow> if t = 0 then Some (None, r) else map_option (\<lambda>(y, r). (Some y, r)) (snd c r))"

fun sc_many :: "(bytes \<Rightarrow> ('a \<times> bytes) option) \<Rightarrow> nat \<Rightarrow> bytes \<Rightarrow> ('a list \<times> bytes) option" where
  "sc_many d 0 bs = Some ([], bs)"
| "sc_many d (Suc n) bs = Option.bind (d bs) (\<lambda>(x, r). map_option (\<lambda>(xs, r). (x # xs, r)) (sc_many d n r))"

definition sc_list :: "'a scodec \<Rightarrow> 'a list scodec" where
  "sc_list c = (\<lambda>xs. replicate (length xs) 1 @ 0 # concat (map (fst c) xs),
     \<lambda>bs. let n = length (takeWhile (\<lambda>b. b = 1) bs) in sc_many (snd c) n (drop (Suc n) bs))"

lemma sc_basic_ok: "sc_ok sc_byte" "sc_ok sc_u32" "sc_ok sc_u64"
  by (simp_all add: sc_ok_def sc_byte_def sc_u32_def sc_u64_def)

lemma sc_map_ok: "sc_ok c \<Longrightarrow> (\<And>y. to (from y) = y) \<Longrightarrow> sc_ok (sc_map to from c)"
  by (simp add: sc_ok_def sc_map_def)

lemma sc_pair_ok: "sc_ok c \<Longrightarrow> sc_ok d \<Longrightarrow> sc_ok (sc_pair c d)"
  by (auto simp: sc_ok_def sc_pair_def)

lemma sc_opt_ok: "sc_ok c \<Longrightarrow> sc_ok (sc_opt c)"
  by (auto simp: sc_ok_def sc_opt_def split: option.split)

lemma sc_many_ok: "sc_ok c \<Longrightarrow> sc_many (snd c) (length xs) (concat (map (fst c) xs) @ r) = Some (xs, r)"
  by (induction xs) (auto simp: sc_ok_def)

lemma takeWhile_unary: "takeWhile (\<lambda>b. b = 1) (replicate n 1 @ (0 :: byte) # r) = replicate n 1"
  by (induction n) simp_all

lemma sc_list_ok: "sc_ok c \<Longrightarrow> sc_ok (sc_list c)"
  unfolding sc_ok_def [of "sc_list c"]
  by (auto simp: sc_list_def takeWhile_unary sc_many_ok Let_def)

lemmas sc_oks = sc_basic_ok sc_map_ok sc_pair_ok sc_opt_ok sc_list_ok

definition sc_bool :: "bool scodec" where
  "sc_bool = sc_map (\<lambda>b. b = 1) (\<lambda>x. if x then 1 else 0) sc_byte"

lemma sc_bool_ok: "sc_ok sc_bool"
  by (auto simp: sc_bool_def intro!: sc_oks split: if_splits)

definition codec_of :: "'a scodec \<Rightarrow> 'a codec" where
  "codec_of c = \<lparr>serialize = (\<lambda>x. Some (fst c x)),
     deserialize = (\<lambda>bs. case snd c bs of Some (x, []) \<Rightarrow> Some x | _ \<Rightarrow> None)\<rparr>"

lemma codec_of_ok: "sc_ok c \<Longrightarrow> codec_ok (codec_of c)"
proof -
  assume c: "sc_ok c"
  have "snd c (fst c x) = Some (x, [])" for x
    using c [unfolded sc_ok_def, rule_format, of x "[]"] by simp
  then show ?thesis by (simp add: codec_ok_def codec_of_def)
qed

end
