(* ===== verification/Graph_Codec.thy ===== *)
theory Graph_Codec
  imports Value Storage Codec
begin

text \<open>
  The graph layer's records (\<open>graph/model.rs\<close>) and its table names and binary key layout
  (\<open>graph/codec.rs\<close>). The lemmas show that an adjacency key decodes to its fields and that the
  two kinds of scan bounds, by node and by node and edge type, select exactly the keys of that node
  or type.
\<close>

section \<open>Records\<close>

type_synonym node_id = u64
type_synonym edge_id = u64

record node_record =
  nr_label :: string
  nr_properties :: properties

record edge_record =
  er_from :: node_id
  er_to :: node_id
  er_edge_type :: string
  er_properties :: properties

text \<open>\<open>bincode\<close> for the two record types.\<close>

record graph_codecs =
  node_codec :: "node_record codec"
  edge_codec :: "edge_record codec"

definition node_ok :: "node_record \<Rightarrow> bool" where
  "node_ok r \<longleftrightarrow> str_ok (nr_label r) \<and> properties_ok (nr_properties r)"

definition edge_ok :: "edge_record \<Rightarrow> bool" where
  "edge_ok r \<longleftrightarrow> str_ok (er_edge_type r) \<and> properties_ok (er_properties r)"

definition graph_codecs_ok :: "graph_codecs \<Rightarrow> bool" where
  "graph_codecs_ok G \<longleftrightarrow> codec_on node_ok (node_codec G) \<and> codec_on edge_ok (edge_codec G)"

section \<open>Tables and keys\<close>

definition NODES :: table where "NODES = ''nodes''"
definition EDGES :: table where "EDGES = ''edges''"
definition ADJ_OUT :: table where "ADJ_OUT = ''adj_out''"
definition ADJ_IN :: table where "ADJ_IN = ''adj_in''"
definition META :: table where "META = ''meta''"

definition NEXT_NODE_ID_KEY :: bytes where "NEXT_NODE_ID_KEY = as_bytes ''next_node_id''"
definition NEXT_EDGE_ID_KEY :: bytes where "NEXT_EDGE_ID_KEY = as_bytes ''next_edge_id''"

definition node_key :: "node_id \<Rightarrow> bytes" where
  "node_key i = be64 i"

definition decode_node_id :: "bytes \<Rightarrow> node_id res" where
  "decode_node_id bs = (if length bs = 8 then Ok (of_be64 bs) else Err (Encoding ''invalid node key length''))"

definition edge_key :: "edge_id \<Rightarrow> bytes" where
  "edge_key i = be64 i"

definition next_node_prefix :: "node_id \<Rightarrow> bytes option" where
  "next_node_prefix i = (if i = - 1 then None else Some (be64 (i + 1)))"

text \<open>\<open>len as u16\<close> truncates; the \<open>debug_assert\<close> is absent from a release build.\<close>

definition encode_edge_type :: "string \<Rightarrow> bytes" where
  "encode_edge_type t = be16 (word_of_nat (length (as_bytes t))) @ as_bytes t"

definition encode_adj_key :: "node_id \<Rightarrow> string \<Rightarrow> node_id \<Rightarrow> edge_id \<Rightarrow> bytes" where
  "encode_adj_key first edge_type second edge = be64 first @ encode_edge_type edge_type @ be64 second @ be64 edge"

definition adj_out_key :: "node_id \<Rightarrow> string \<Rightarrow> node_id \<Rightarrow> edge_id \<Rightarrow> bytes" where
  "adj_out_key from edge_type to edge = encode_adj_key from edge_type to edge"

definition adj_in_key :: "node_id \<Rightarrow> string \<Rightarrow> node_id \<Rightarrow> edge_id \<Rightarrow> bytes" where
  "adj_in_key to edge_type from edge = encode_adj_key to edge_type from edge"

definition adj_type_prefix :: "node_id \<Rightarrow> string \<Rightarrow> bytes" where
  "adj_type_prefix first edge_type = be64 first @ encode_edge_type edge_type"

definition adj_type_upper_bound :: "node_id \<Rightarrow> string \<Rightarrow> bytes" where
  "adj_type_upper_bound first edge_type = adj_type_prefix first edge_type @ replicate 16 0xFF"

text \<open>\<open>key[a..b]\<close> panics when it reaches past the end.\<close>

definition decode_adj_key :: "bytes \<Rightarrow> (u64 \<times> string \<times> u64 \<times> edge_id) res" where
  "decode_adj_key key =
    bind_res (expect (slice_get 0 8 key)) (\<lambda>f.
    bind_res (expect (slice_get 8 10 key)) (\<lambda>l.
    let len = unat (of_be16 l) in
    bind_res (expect (slice_get 10 (10 + len) key)) (\<lambda>t.
    bind_res (expect (from_utf8 t)) (\<lambda>edge_type.
    let off = 10 + len in
    bind_res (expect (slice_get off (off + 8) key)) (\<lambda>s.
    bind_res (expect (slice_get (off + 8) (off + 16) key)) (\<lambda>e.
    Ok (of_be64 f, edge_type, of_be64 s, of_be64 e)))))))"

section \<open>Round trip and scan bounds\<close>

abbreviation short :: "string \<Rightarrow> bool" where
  "short s \<equiv> length s < 2 ^ 16"

lemma unat_len16: "short t \<Longrightarrow> unat (word_of_nat (length t) :: u16) = length t"
  by (simp add: unsigned_of_nat take_bit_nat_eq_self)

lemma decode_encode_adj_key [simp]:
  assumes "short t" "str_ok t"
  shows "decode_adj_key (encode_adj_key f t s e) = Ok (f, t, s, e)"
  using assms unfolding decode_adj_key_def encode_adj_key_def encode_edge_type_def
  by (simp add: slice_get_def unat_len16 drop_Cons')

lemma encode_edge_type_inject:
  assumes "short t" "short t'"
  shows "encode_edge_type t @ x = encode_edge_type t' @ y \<longleftrightarrow> t = t' \<and> x = y"
proof
  assume eq: "encode_edge_type t @ x = encode_edge_type t' @ y"
  then have "take 2 (encode_edge_type t @ x) = take 2 (encode_edge_type t' @ y)" by (rule arg_cong)
  then have "be16 (word_of_nat (length t)) = be16 (word_of_nat (length t'))"
    by (simp add: encode_edge_type_def)
  then have "(word_of_nat (length t) :: u16) = word_of_nat (length t')"
    by (metis of_be_widths(1))
  then have "length t = length t'" using assms by (metis unat_len16)
  then show "t = t' \<and> x = y" using eq by (simp add: encode_edge_type_def append_eq_append_conv)
qed simp

lemma encode_adj_key_inject:
  assumes "short t" "short t'"
  shows "encode_adj_key f t s e = encode_adj_key f' t' s' e' \<longleftrightarrow> f = f' \<and> t = t' \<and> s = s' \<and> e = e'"
proof -
  have "encode_adj_key f t s e = encode_adj_key f' t' s' e' \<longleftrightarrow>
      f = f' \<and> encode_edge_type t @ be64 s @ be64 e = encode_edge_type t' @ be64 s' @ be64 e'"
    unfolding encode_adj_key_def by (subst append_eq_append_conv) simp_all
  then show ?thesis
    unfolding encode_edge_type_inject [OF assms] by (auto simp: append_eq_append_conv)
qed

text \<open>Between a prefix and that prefix followed by anything lie only its extensions.\<close>

lemma between_prefix: "p \<le> k \<Longrightarrow> k \<le> p @ x \<Longrightarrow> prefix p (k :: 'a::linorder list)"
proof (induction p arbitrary: k)
  case (Cons a p)
  then show ?case by (cases k) auto
qed simp

lemma le_all_ones: "length r = n \<Longrightarrow> (r :: bytes) \<le> replicate n 0xFF"
proof (induction n arbitrary: r)
  case (Suc n)
  then obtain b r' where "r = b # r'" "length r' = n" by (cases r) auto
  then show ?case using Suc.IH [of r'] byte_le_max [of b] by (auto simp: order_less_le)
qed simp

lemma in_range_adj_type:
  assumes "short t" "short t'"
  shows "in_range (Included (adj_type_prefix f t)) (Included (adj_type_upper_bound f t)) (encode_adj_key f' t' s e)
    \<longleftrightarrow> f' = f \<and> t' = t"
proof
  assume "in_range (Included (adj_type_prefix f t)) (Included (adj_type_upper_bound f t)) (encode_adj_key f' t' s e)"
  then have "prefix (adj_type_prefix f t) (encode_adj_key f' t' s e)"
    by (intro between_prefix [where x = "replicate 16 0xFF"]) (simp_all add: adj_type_upper_bound_def in_range_def lo_ok_def hi_ok_def)
  then obtain r where "be64 f' @ encode_edge_type t' @ be64 s @ be64 e = be64 f @ encode_edge_type t @ r"
    by (auto simp: prefix_def encode_adj_key_def adj_type_prefix_def)
  then have "f' = f \<and> encode_edge_type t' @ be64 s @ be64 e = encode_edge_type t @ r"
    by (subst (asm) append_eq_append_conv) simp_all
  then show "f' = f \<and> t' = t" using encode_edge_type_inject [OF assms(2,1)] by blast
next
  assume "f' = f \<and> t' = t"
  then have "encode_adj_key f' t' s e = adj_type_prefix f t @ be64 s @ be64 e"
    by (simp add: encode_adj_key_def adj_type_prefix_def)
  moreover have "be64 s @ be64 e \<le> replicate 16 0xFF" by (rule le_all_ones) simp
  ultimately show "in_range (Included (adj_type_prefix f t)) (Included (adj_type_upper_bound f t)) (encode_adj_key f' t' s e)"
    by (simp add: adj_type_upper_bound_def in_range_def lo_ok_def hi_ok_def)
qed

definition node_hi :: "node_id \<Rightarrow> bytes bound" where
  "node_hi i = (case next_node_prefix i of Some e \<Rightarrow> Excluded e | None \<Rightarrow> Unbounded)"

lemma in_range_node_prefix: "in_range (Included (node_key f)) (node_hi f) (be64 f' @ r) \<longleftrightarrow> f' = f"
proof -
  have lo: "be64 f \<le> be64 f' @ r \<longleftrightarrow> f \<le> f'"
  proof -
    have "be64 f' @ r < be64 f @ [] \<longleftrightarrow> be64 f' < be64 f"
      by (subst less_append_iff_same_length) simp_all
    then show ?thesis by (simp add: not_less [symmetric])
  qed
  have hi: "be64 f' @ r < be64 g \<longleftrightarrow> f' < g" for g
    using less_append_iff_same_length [of "be64 f'" "be64 g" r "[]"] by simp
  show ?thesis
  proof (cases "f = - 1")
    case True
    then have "f \<le> f' \<longleftrightarrow> f' = f" by (metis order_refl word_order.extremum_unique)
    then show ?thesis using True lo by (simp add: node_key_def node_hi_def next_node_prefix_def in_range_def lo_ok_def hi_ok_def)
  next
    case False
    then have "unat (f + 1) = Suc (unat f)" by (metis add.commute unatSuc add.inverse_inverse minus_equation_iff add_eq_0_iff)
    then have "f' < f + 1 \<longleftrightarrow> f' \<le> f" by (simp add: word_less_nat_alt word_le_nat_alt less_Suc_eq_le)
    then show ?thesis using False by (auto simp: node_key_def node_hi_def next_node_prefix_def in_range_def lo_ok_def hi_ok_def lo hi)
  qed
qed

end
