(* ===== verification/Graph_Index.thy ===== *)
theory Graph_Index
  imports Graph_Codec
begin

text \<open>
  Secondary indexes over graph nodes (\<open>graph/index.rs\<close>): by label, and by label and property
  value. Every function takes the operations of the transaction it runs on; a function that writes
  returns the transaction after its writes.
\<close>

section \<open>Keys\<close>

definition index_value_key :: "prop_value \<Rightarrow> bytes option" where
  "index_value_key v = (case v of IntV _ \<Rightarrow> sortable_key v | Str _ \<Rightarrow> sortable_key v | _ \<Rightarrow> None)"

definition NODE_LABELS :: table where "NODE_LABELS = ''node_labels''"
definition NODE_PROPS :: table where "NODE_PROPS = ''node_props''"

definition LABEL_INDEX_MARKER :: bytes where "LABEL_INDEX_MARKER = as_bytes ''graph:label_index''"
definition PROP_INDEX_PREFIX :: bytes where "PROP_INDEX_PREFIX = as_bytes ''graph:prop_index:''"

definition push_len_prefixed :: "bytes \<Rightarrow> string \<Rightarrow> bytes res" where
  "push_len_prefixed out s =
    (if length (as_bytes s) < 2 ^ 16 then Ok (out @ be16 (word_of_nat (length (as_bytes s))) @ as_bytes s)
     else Err (Encoding ''name too long for an index key''))"

definition label_prefix :: "string \<Rightarrow> bytes res" where
  "label_prefix label = push_len_prefixed [] label"

definition label_key :: "string \<Rightarrow> node_id \<Rightarrow> bytes res" where
  "label_key label i = bind_res (label_prefix label) (\<lambda>k. Ok (k @ node_key i))"

definition prop_prefix :: "string \<Rightarrow> string \<Rightarrow> bytes res" where
  "prop_prefix label property = bind_res (label_prefix label) (\<lambda>k. push_len_prefixed k property)"

definition registry_key :: "string \<Rightarrow> string \<Rightarrow> bytes res" where
  "registry_key label property = bind_res (prop_prefix label property) (\<lambda>k. Ok (PROP_INDEX_PREFIX @ k))"

definition prefix_end :: "bytes \<Rightarrow> bytes option" where
  "prefix_end p = byte_successor p"

definition scan_prefix :: "('r, 'z) read_ops_scheme \<Rightarrow> 'r \<Rightarrow> table \<Rightarrow> bytes \<Rightarrow> bytes list res" where
  "scan_prefix ops r t p =
    bind_res (s_range ops r t (Included p) (case prefix_end p of Some e \<Rightarrow> Excluded e | None \<Rightarrow> Unbounded)) (\<lambda>rows.
    Ok (map fst rows))"

definition trailing_node_id :: "bytes \<Rightarrow> node_id res" where
  "trailing_node_id key =
    (if length key < 8 then Err (Encoding ''corrupt graph index key'') else decode_node_id (drop (length key - 8) key))"

text \<open>One length-prefixed name at the front of a registry key, and what follows it.\<close>

definition read_name :: "bytes \<Rightarrow> (string \<times> bytes) res" where
  "read_name rest =
    bind_res (ok_or (slice_get 0 2 rest) (Encoding ''corrupt property index registry key'')) (\<lambda>b.
    let len = unat (of_be16 b) in
    bind_res (ok_or (slice_get 2 (2 + len) rest) (Encoding ''corrupt property index registry key'')) (\<lambda>name.
    bind_res (ok_or (from_utf8 name) (Encoding ''invalid utf-8'')) (\<lambda>s. Ok (s, drop (2 + len) rest))))"

definition indexed_properties :: "('r, 'z) read_ops_scheme \<Rightarrow> 'r \<Rightarrow> string \<Rightarrow> string list res" where
  "indexed_properties ops r label =
    bind_res (label_prefix label) (\<lambda>l.
    let prefix = PROP_INDEX_PREFIX @ l in
    bind_res (scan_prefix ops r META prefix) (\<lambda>keys.
    traverse (\<lambda>k.
      if length k < length prefix then Panic
      else bind_res (read_name (drop (length prefix) k)) (\<lambda>(s, _). Ok s)) keys))"

definition prop_entry :: "string \<Rightarrow> string \<Rightarrow> prop_value option \<Rightarrow> node_id \<Rightarrow> bytes option res" where
  "prop_entry label property v i = (case Option.bind v index_value_key of
      None \<Rightarrow> Ok None
    | Some encoded \<Rightarrow> bind_res (prop_prefix label property) (\<lambda>k. Ok (Some (k @ encoded @ node_key i))))"

section \<open>Maintenance\<close>

definition before_first_nodes :: "('w, 'z) write_ops_scheme \<Rightarrow> 'w \<Rightarrow> 'w res" where
  "before_first_nodes ops w =
    bind_res (s_get ops w META NEXT_NODE_ID_KEY) (\<lambda>a.
    if a \<noteq> None then Ok w
    else bind_res (s_get ops w META LABEL_INDEX_MARKER) (\<lambda>m.
      if m = None then s_put ops w META LABEL_INDEX_MARKER [1] else Ok w))"

definition on_insert :: "('w, 'z) write_ops_scheme \<Rightarrow> 'w \<Rightarrow> node_id \<Rightarrow> node_record \<Rightarrow> 'w res" where
  "on_insert ops w i record =
    bind_res (label_key (nr_label record) i) (\<lambda>lk.
    bind_res (s_put ops w NODE_LABELS lk []) (\<lambda>w.
    bind_res (indexed_properties ops w (nr_label record)) (\<lambda>props.
    for_res (\<lambda>prop w.
      bind_res (prop_entry (nr_label record) prop (map_of (nr_properties record) prop) i) (\<lambda>e.
      case e of Some k \<Rightarrow> s_put ops w NODE_PROPS k [] | None \<Rightarrow> Ok w)) props w)))"

definition on_delete :: "('w, 'z) write_ops_scheme \<Rightarrow> 'w \<Rightarrow> node_id \<Rightarrow> node_record \<Rightarrow> 'w res" where
  "on_delete ops w i record =
    bind_res (label_key (nr_label record) i) (\<lambda>lk.
    bind_res (s_delete ops w NODE_LABELS lk) (\<lambda>w.
    bind_res (indexed_properties ops w (nr_label record)) (\<lambda>props.
    for_res (\<lambda>prop w.
      bind_res (prop_entry (nr_label record) prop (map_of (nr_properties record) prop) i) (\<lambda>e.
      case e of Some k \<Rightarrow> s_delete ops w NODE_PROPS k | None \<Rightarrow> Ok w)) props w)))"

definition on_update :: "('w, 'z) write_ops_scheme \<Rightarrow> 'w \<Rightarrow> node_id \<Rightarrow> node_record \<Rightarrow> node_record \<Rightarrow> 'w res" where
  "on_update ops w i old new =
    bind_res (indexed_properties ops w (nr_label new)) (\<lambda>props.
    for_res (\<lambda>prop w.
      let before = map_of (nr_properties old) prop; after = map_of (nr_properties new) prop in
      if opt_prop_eq before after then Ok w
      else
        bind_res (prop_entry (nr_label old) prop before i) (\<lambda>e.
        bind_res (case e of Some k \<Rightarrow> s_delete ops w NODE_PROPS k | None \<Rightarrow> Ok w) (\<lambda>w.
        bind_res (prop_entry (nr_label new) prop after i) (\<lambda>e.
        case e of Some k \<Rightarrow> s_put ops w NODE_PROPS k [] | None \<Rightarrow> Ok w)))) props w)"

section \<open>Queries\<close>

definition label_index_ready :: "('r, 'z) read_ops_scheme \<Rightarrow> 'r \<Rightarrow> bool res" where
  "label_index_ready ops r = bind_res (s_get ops r META LABEL_INDEX_MARKER) (\<lambda>m. Ok (m \<noteq> None))"

definition scan_all_nodes :: "graph_codecs \<Rightarrow> ('r, 'z) read_ops_scheme \<Rightarrow> 'r \<Rightarrow> (node_id \<times> node_record) list res" where
  "scan_all_nodes G ops r =
    bind_res (s_range ops r NODES Unbounded Unbounded) (\<lambda>rows.
    traverse (\<lambda>(k, v). bind_res (decode_node_id k) (\<lambda>i. bind_res (decode (node_codec G) v) (\<lambda>x. Ok (i, x)))) rows)"

definition nodes_by_label_in :: "graph_codecs \<Rightarrow> ('r, 'z) read_ops_scheme \<Rightarrow> 'r \<Rightarrow> string \<Rightarrow> node_id list res" where
  "nodes_by_label_in G ops r label =
    bind_res (label_index_ready ops r) (\<lambda>ready.
    if ready then
      bind_res (label_prefix label) (\<lambda>p.
      bind_res (scan_prefix ops r NODE_LABELS p) (\<lambda>keys. traverse trailing_node_id keys))
    else
      bind_res (scan_all_nodes G ops r) (\<lambda>nodes.
      Ok (map fst (filter (\<lambda>(_, x). nr_label x = label) nodes))))"

definition find_nodes_in :: "graph_codecs \<Rightarrow> ('r, 'z) read_ops_scheme \<Rightarrow> 'r \<Rightarrow> string \<Rightarrow> string \<Rightarrow> prop_value \<Rightarrow> node_id list res" where
  "find_nodes_in G ops r label property v =
    bind_res (case index_value_key v of
        None \<Rightarrow> Ok None
      | Some encoded \<Rightarrow>
          bind_res (registry_key label property) (\<lambda>reg.
          bind_res (s_get ops r META reg) (\<lambda>x. Ok (if x \<noteq> None then Some encoded else None)))) (\<lambda>use_index.
    case use_index of
      Some encoded \<Rightarrow>
        bind_res (prop_prefix label property) (\<lambda>p.
        bind_res (scan_prefix ops r NODE_PROPS (p @ encoded)) (\<lambda>keys. traverse trailing_node_id keys))
    | None \<Rightarrow>
        bind_res (nodes_by_label_in G ops r label) (\<lambda>ids.
        for_res (\<lambda>i out.
          bind_res (s_get ops r NODES (node_key i)) (\<lambda>x.
          case x of
            None \<Rightarrow> Ok out
          | Some bytes \<Rightarrow>
              bind_res (decode (node_codec G) bytes) (\<lambda>record.
              Ok (if opt_prop_eq (map_of (nr_properties record) property) (Some v) then out @ [i] else out)))) ids []))"

definition property_indexes_in :: "('r, 'z) read_ops_scheme \<Rightarrow> 'r \<Rightarrow> (string \<times> string) list res" where
  "property_indexes_in ops r =
    bind_res (scan_prefix ops r META PROP_INDEX_PREFIX) (\<lambda>keys.
    traverse (\<lambda>k.
      if length k < length PROP_INDEX_PREFIX then Panic
      else
        bind_res (read_name (drop (length PROP_INDEX_PREFIX) k)) (\<lambda>(label, rest).
        bind_res (read_name rest) (\<lambda>(property, _). Ok (label, property)))) keys)"

section \<open>Management\<close>

definition clear_prefix :: "('w, 'z) write_ops_scheme \<Rightarrow> 'w \<Rightarrow> table \<Rightarrow> bytes \<Rightarrow> 'w res" where
  "clear_prefix ops w t p = bind_res (scan_prefix ops w t p) (\<lambda>keys. for_res (\<lambda>k w. s_delete ops w t k) keys w)"

definition backfill_property :: "graph_codecs \<Rightarrow> ('w, 'z) write_ops_scheme \<Rightarrow> 'w \<Rightarrow> string \<Rightarrow> string \<Rightarrow> 'w res" where
  "backfill_property G ops w label property =
    bind_res (prop_prefix label property) (\<lambda>p.
    bind_res (clear_prefix ops w NODE_PROPS p) (\<lambda>w.
    bind_res (nodes_by_label_in G ops w label) (\<lambda>ids.
    for_res (\<lambda>i w.
      bind_res (s_get ops w NODES (node_key i)) (\<lambda>x.
      case x of
        None \<Rightarrow> Ok w
      | Some bytes \<Rightarrow>
          bind_res (decode (node_codec G) bytes) (\<lambda>record.
          bind_res (prop_entry label property (map_of (nr_properties record) property) i) (\<lambda>e.
          case e of Some k \<Rightarrow> s_put ops w NODE_PROPS k [] | None \<Rightarrow> Ok w)))) ids w)))"

definition create_property_index_in :: "graph_codecs \<Rightarrow> ('w, 'z) write_ops_scheme \<Rightarrow> 'w \<Rightarrow> string \<Rightarrow> string \<Rightarrow> (bool \<times> 'w) res" where
  "create_property_index_in G ops w label property =
    bind_res (registry_key label property) (\<lambda>reg.
    bind_res (s_get ops w META reg) (\<lambda>x.
    if x \<noteq> None then Ok (False, w)
    else
      bind_res (s_put ops w META reg []) (\<lambda>w.
      bind_res (backfill_property G ops w label property) (\<lambda>w. Ok (True, w)))))"

definition drop_property_index_in :: "('w, 'z) write_ops_scheme \<Rightarrow> 'w \<Rightarrow> string \<Rightarrow> string \<Rightarrow> (bool \<times> 'w) res" where
  "drop_property_index_in ops w label property =
    bind_res (registry_key label property) (\<lambda>reg.
    bind_res (s_get ops w META reg) (\<lambda>x.
    if x = None then Ok (False, w)
    else
      bind_res (s_delete ops w META reg) (\<lambda>w.
      bind_res (prop_prefix label property) (\<lambda>p.
      bind_res (clear_prefix ops w NODE_PROPS p) (\<lambda>w. Ok (True, w))))))"

definition rebuild_indexes_in :: "graph_codecs \<Rightarrow> ('w, 'z) write_ops_scheme \<Rightarrow> 'w \<Rightarrow> 'w res" where
  "rebuild_indexes_in G ops w =
    bind_res (scan_all_nodes G ops w) (\<lambda>nodes.
    bind_res (clear_prefix ops w NODE_LABELS []) (\<lambda>w.
    bind_res (for_res (\<lambda>(i, record) w.
      bind_res (label_key (nr_label record) i) (\<lambda>lk. s_put ops w NODE_LABELS lk [])) nodes w) (\<lambda>w.
    bind_res (s_put ops w META LABEL_INDEX_MARKER [1]) (\<lambda>w.
    bind_res (property_indexes_in ops w) (\<lambda>idx.
    for_res (\<lambda>(label, property) w. backfill_property G ops w label property) idx w)))))"

end
