(* ===== verification/Graph_Ops.thy ===== *)
theory Graph_Ops
  imports Graph_Index
begin

text \<open>
  Graph operations over an open transaction (\<open>graph/db/ops.rs\<close> and the id counters of
  \<open>graph/db/mod.rs\<close>). A function that writes returns its result together with the transaction
  after its writes.
\<close>

section \<open>Id counters\<close>

text \<open>\<open>current + count\<close> wraps, as in a release build.\<close>

definition reserve_ids :: "('w, 'z) write_ops_scheme \<Rightarrow> 'w \<Rightarrow> bytes \<Rightarrow> u64 \<Rightarrow> (u64 \<times> 'w) res" where
  "reserve_ids ops w counter_key count =
    (if count = 0 then Ok (1, w)
     else
       bind_res (s_get ops w META counter_key) (\<lambda>x.
       bind_res (case x of
           Some bytes \<Rightarrow> if length bytes = 8 then Ok (of_be64 bytes) else Err (Encoding ''corrupt id counter'')
         | None \<Rightarrow> Ok 1) (\<lambda>current.
       bind_res (s_put ops w META counter_key (be64 (current + count))) (\<lambda>w. Ok (current, w)))))"

definition next_id :: "('w, 'z) write_ops_scheme \<Rightarrow> 'w \<Rightarrow> bytes \<Rightarrow> (u64 \<times> 'w) res" where
  "next_id ops w counter_key = reserve_ids ops w counter_key 1"

section \<open>Nodes\<close>

definition put_node :: "graph_codecs \<Rightarrow> ('w, 'z) write_ops_scheme \<Rightarrow> 'w \<Rightarrow> node_id \<Rightarrow> node_record \<Rightarrow> 'w res" where
  "put_node G ops w i record =
    bind_res (encode (node_codec G) record) (\<lambda>bytes.
    bind_res (s_put ops w NODES (node_key i) bytes) (\<lambda>w. on_insert ops w i record))"

definition create_node_in :: "graph_codecs \<Rightarrow> ('w, 'z) write_ops_scheme \<Rightarrow> 'w \<Rightarrow> string \<Rightarrow> properties \<Rightarrow> (node_id \<times> 'w) res" where
  "create_node_in G ops w label properties =
    bind_res (before_first_nodes ops w) (\<lambda>w.
    bind_res (next_id ops w NEXT_NODE_ID_KEY) (\<lambda>(i, w).
    bind_res (put_node G ops w i \<lparr>nr_label = label, nr_properties = properties\<rparr>) (\<lambda>w. Ok (i, w))))"

definition get_node_in :: "graph_codecs \<Rightarrow> ('r, 'z) read_ops_scheme \<Rightarrow> 'r \<Rightarrow> node_id \<Rightarrow> node_record option res" where
  "get_node_in G ops r i =
    bind_res (s_get ops r NODES (node_key i)) (\<lambda>x.
    case x of
      Some bytes \<Rightarrow> bind_res (decode (node_codec G) bytes) (\<lambda>record. Ok (Some record))
    | None \<Rightarrow> Ok None)"

fun put_nodes :: "graph_codecs \<Rightarrow> ('w, 'z) write_ops_scheme \<Rightarrow> u64 \<Rightarrow> (string \<times> properties) list \<Rightarrow> 'w \<Rightarrow> 'w res" where
  "put_nodes G ops i [] w = Ok w"
| "put_nodes G ops i ((label, properties) # items) w =
    bind_res (put_node G ops w i \<lparr>nr_label = label, nr_properties = properties\<rparr>) (\<lambda>w. put_nodes G ops (i + 1) items w)"

definition create_nodes_bulk_in :: "graph_codecs \<Rightarrow> ('w, 'z) write_ops_scheme \<Rightarrow> 'w \<Rightarrow> (string \<times> properties) list
    \<Rightarrow> (node_id list \<times> 'w) res" where
  "create_nodes_bulk_in G ops w items =
    (if items = [] then Ok ([], w)
     else
       bind_res (before_first_nodes ops w) (\<lambda>w.
       bind_res (reserve_ids ops w NEXT_NODE_ID_KEY (word_of_nat (length items))) (\<lambda>(start_id, w).
       bind_res (put_nodes G ops start_id items w) (\<lambda>w.
       Ok (map (\<lambda>i. start_id + word_of_nat i) [0..<length items], w)))))"

definition update_node_properties_in :: "graph_codecs \<Rightarrow> ('w, 'z) write_ops_scheme \<Rightarrow> 'w \<Rightarrow> node_id
    \<Rightarrow> (properties \<Rightarrow> properties) \<Rightarrow> 'w res" where
  "update_node_properties_in G ops w i mutate =
    bind_res (s_get ops w NODES (node_key i)) (\<lambda>x.
    bind_res (ok_or x NotFound) (\<lambda>bytes.
    bind_res (decode (node_codec G) bytes) (\<lambda>old.
    let record = old\<lparr>nr_properties := mutate (nr_properties old)\<rparr> in
    bind_res (on_update ops w i old record) (\<lambda>w.
    bind_res (encode (node_codec G) record) (\<lambda>bytes.
    s_put ops w NODES (node_key i) bytes)))))"

section \<open>Edges\<close>

definition put_edge :: "graph_codecs \<Rightarrow> ('w, 'z) write_ops_scheme \<Rightarrow> 'w \<Rightarrow> edge_id \<Rightarrow> edge_record \<Rightarrow> 'w res" where
  "put_edge G ops w e record =
    bind_res (encode (edge_codec G) record) (\<lambda>bytes.
    bind_res (s_put ops w EDGES (edge_key e) bytes) (\<lambda>w.
    bind_res (s_put ops w ADJ_OUT (adj_out_key (er_from record) (er_edge_type record) (er_to record) e) []) (\<lambda>w.
    s_put ops w ADJ_IN (adj_in_key (er_to record) (er_edge_type record) (er_from record) e) [])))"

definition create_edge_in :: "graph_codecs \<Rightarrow> ('w, 'z) write_ops_scheme \<Rightarrow> 'w \<Rightarrow> node_id \<Rightarrow> string \<Rightarrow> node_id
    \<Rightarrow> properties \<Rightarrow> (edge_id \<times> 'w) res" where
  "create_edge_in G ops w from edge_type to properties =
    bind_res (s_get ops w NODES (node_key from)) (\<lambda>x.
    if x = None then Err NotFound
    else bind_res (s_get ops w NODES (node_key to)) (\<lambda>x.
    if x = None then Err NotFound
    else bind_res (next_id ops w NEXT_EDGE_ID_KEY) (\<lambda>(e, w).
    bind_res (put_edge G ops w e
      \<lparr>er_from = from, er_to = to, er_edge_type = edge_type, er_properties = properties\<rparr>) (\<lambda>w. Ok (e, w)))))"

text \<open>\<open>verified\<close> caches the endpoints already found in the node table.\<close>

definition verify_node :: "('w, 'z) write_ops_scheme \<Rightarrow> 'w \<Rightarrow> node_id list \<Rightarrow> node_id \<Rightarrow> node_id list res" where
  "verify_node ops w verified i =
    (if i \<in> set verified then Ok verified
     else bind_res (s_get ops w NODES (node_key i)) (\<lambda>x. if x = None then Err NotFound else Ok (i # verified)))"

fun put_edges :: "graph_codecs \<Rightarrow> ('w, 'z) write_ops_scheme \<Rightarrow> u64 \<Rightarrow> node_id list
    \<Rightarrow> (node_id \<times> string \<times> node_id \<times> properties) list \<Rightarrow> 'w \<Rightarrow> 'w res" where
  "put_edges G ops e verified [] w = Ok w"
| "put_edges G ops e verified ((from, edge_type, to, properties) # items) w =
    bind_res (verify_node ops w verified from) (\<lambda>verified.
    bind_res (verify_node ops w verified to) (\<lambda>verified.
    bind_res (put_edge G ops w e
      \<lparr>er_from = from, er_to = to, er_edge_type = edge_type, er_properties = properties\<rparr>) (\<lambda>w.
    put_edges G ops (e + 1) verified items w)))"

definition create_edges_bulk_in :: "graph_codecs \<Rightarrow> ('w, 'z) write_ops_scheme \<Rightarrow> 'w
    \<Rightarrow> (node_id \<times> string \<times> node_id \<times> properties) list \<Rightarrow> (edge_id list \<times> 'w) res" where
  "create_edges_bulk_in G ops w items =
    (if items = [] then Ok ([], w)
     else
       bind_res (reserve_ids ops w NEXT_EDGE_ID_KEY (word_of_nat (length items))) (\<lambda>(start_id, w).
       bind_res (put_edges G ops start_id [] items w) (\<lambda>w.
       Ok (map (\<lambda>i. start_id + word_of_nat i) [0..<length items], w))))"

definition get_edge_in :: "graph_codecs \<Rightarrow> ('r, 'z) read_ops_scheme \<Rightarrow> 'r \<Rightarrow> edge_id \<Rightarrow> edge_record option res" where
  "get_edge_in G ops r e =
    bind_res (s_get ops r EDGES (edge_key e)) (\<lambda>x.
    case x of
      Some bytes \<Rightarrow> bind_res (decode (edge_codec G) bytes) (\<lambda>record. Ok (Some record))
    | None \<Rightarrow> Ok None)"

definition delete_edge_in :: "graph_codecs \<Rightarrow> ('w, 'z) write_ops_scheme \<Rightarrow> 'w \<Rightarrow> edge_id \<Rightarrow> (bool \<times> 'w) res" where
  "delete_edge_in G ops w edge =
    bind_res (s_get ops w EDGES (edge_key edge)) (\<lambda>x.
    case x of
      None \<Rightarrow> Ok (False, w)
    | Some bytes \<Rightarrow>
        bind_res (decode (edge_codec G) bytes) (\<lambda>record.
        bind_res (s_delete ops w ADJ_OUT (adj_out_key (er_from record) (er_edge_type record) (er_to record) edge)) (\<lambda>w.
        bind_res (s_delete ops w ADJ_IN (adj_in_key (er_to record) (er_edge_type record) (er_from record) edge)) (\<lambda>w.
        bind_res (s_delete ops w EDGES (edge_key edge)) (\<lambda>w. Ok (True, w))))))"

definition update_edge_properties_in :: "graph_codecs \<Rightarrow> ('w, 'z) write_ops_scheme \<Rightarrow> 'w \<Rightarrow> edge_id
    \<Rightarrow> (properties \<Rightarrow> properties) \<Rightarrow> 'w res" where
  "update_edge_properties_in G ops w edge mutate =
    bind_res (s_get ops w EDGES (edge_key edge)) (\<lambda>x.
    bind_res (ok_or x NotFound) (\<lambda>bytes.
    bind_res (decode (edge_codec G) bytes) (\<lambda>record.
    bind_res (encode (edge_codec G) (record\<lparr>er_properties := mutate (er_properties record)\<rparr>)) (\<lambda>bytes.
    s_put ops w EDGES (edge_key edge) bytes))))"

section \<open>Deleting a node\<close>

definition node_rows :: "('r, 'z) read_ops_scheme \<Rightarrow> 'r \<Rightarrow> table \<Rightarrow> node_id \<Rightarrow> kv_pairs res" where
  "node_rows ops r t i = (case next_node_prefix i of
      Some e \<Rightarrow> s_range ops r t (Included (node_key i)) (Excluded e)
    | None \<Rightarrow> s_range ops r t (Included (node_key i)) Unbounded)"

definition drop_out_row :: "('w, 'z) write_ops_scheme \<Rightarrow> node_id \<Rightarrow> bytes \<times> bytes \<Rightarrow> 'w \<Rightarrow> 'w res" where
  "drop_out_row ops i row w = (case row of (key, _) \<Rightarrow>
    bind_res (decode_adj_key key) (\<lambda>(_, edge_type, to, edge).
    bind_res (s_delete ops w ADJ_OUT key) (\<lambda>w.
    bind_res (s_delete ops w ADJ_IN (adj_in_key to edge_type i edge)) (\<lambda>w.
    s_delete ops w EDGES (edge_key edge)))))"

definition drop_in_row :: "('w, 'z) write_ops_scheme \<Rightarrow> node_id \<Rightarrow> bytes \<times> bytes \<Rightarrow> 'w \<Rightarrow> 'w res" where
  "drop_in_row ops i row w = (case row of (key, _) \<Rightarrow>
    bind_res (decode_adj_key key) (\<lambda>(_, edge_type, from, edge).
    bind_res (s_delete ops w ADJ_IN key) (\<lambda>w.
    bind_res (s_delete ops w ADJ_OUT (adj_out_key from edge_type i edge)) (\<lambda>w.
    s_delete ops w EDGES (edge_key edge)))))"

definition delete_node_in :: "graph_codecs \<Rightarrow> ('w, 'z) write_ops_scheme \<Rightarrow> 'w \<Rightarrow> node_id \<Rightarrow> 'w res" where
  "delete_node_in G ops w i =
    bind_res (node_rows ops w ADJ_OUT i) (\<lambda>out_rows.
    bind_res (for_res (drop_out_row ops i) out_rows w) (\<lambda>w.
    bind_res (node_rows ops w ADJ_IN i) (\<lambda>in_rows.
    bind_res (for_res (drop_in_row ops i) in_rows w) (\<lambda>w.
    bind_res (s_get ops w NODES (node_key i)) (\<lambda>x.
    bind_res (case x of
        Some bytes \<Rightarrow> bind_res (decode (node_codec G) bytes) (\<lambda>record. on_delete ops w i record)
      | None \<Rightarrow> Ok w) (\<lambda>w.
    s_delete ops w NODES (node_key i)))))))"

section \<open>Neighbours\<close>

definition neighbors_typed :: "('r, 'z) read_ops_scheme \<Rightarrow> 'r \<Rightarrow> table \<Rightarrow> node_id \<Rightarrow> string \<Rightarrow> (node_id \<times> edge_id) list res" where
  "neighbors_typed ops r t node edge_type =
    bind_res (s_range ops r t (Included (adj_type_prefix node edge_type)) (Included (adj_type_upper_bound node edge_type))) (\<lambda>rows.
    traverse (\<lambda>(k, _). bind_res (decode_adj_key k) (\<lambda>(_, _, second, e). Ok (second, e))) rows)"

definition neighbors_out_in :: "('r, 'z) read_ops_scheme \<Rightarrow> 'r \<Rightarrow> node_id \<Rightarrow> string \<Rightarrow> (node_id \<times> edge_id) list res" where
  "neighbors_out_in ops r node edge_type = neighbors_typed ops r ADJ_OUT node edge_type"

definition neighbors_in_in :: "('r, 'z) read_ops_scheme \<Rightarrow> 'r \<Rightarrow> node_id \<Rightarrow> string \<Rightarrow> (node_id \<times> edge_id) list res" where
  "neighbors_in_in ops r node edge_type = neighbors_typed ops r ADJ_IN node edge_type"

definition neighbors_any_in :: "('r, 'z) read_ops_scheme \<Rightarrow> 'r \<Rightarrow> table \<Rightarrow> node_id \<Rightarrow> (string \<times> node_id \<times> edge_id) list res" where
  "neighbors_any_in ops r t node =
    bind_res (node_rows ops r t node) (\<lambda>rows.
    traverse (\<lambda>(k, _). bind_res (decode_adj_key k) (\<lambda>(_, edge_type, second, e). Ok (edge_type, second, e))) rows)"

datatype direction = Out | In | Both

section \<open>Hubs\<close>

definition degree :: "('r, 'z) read_ops_scheme \<Rightarrow> 'r \<Rightarrow> direction \<Rightarrow> node_id \<Rightarrow> nat res" where
  "degree ops r dir i = (case dir of
      Out \<Rightarrow> bind_res (neighbors_any_in ops r ADJ_OUT i) (\<lambda>xs. Ok (length xs))
    | In \<Rightarrow> bind_res (neighbors_any_in ops r ADJ_IN i) (\<lambda>xs. Ok (length xs))
    | Both \<Rightarrow> bind_res (neighbors_any_in ops r ADJ_OUT i) (\<lambda>xs.
        bind_res (neighbors_any_in ops r ADJ_IN i) (\<lambda>ys. Ok (length xs + length ys))))"

text \<open>The min-heap of \<open>(degree, id)\<close> pairs is their ascending list: \<open>peek\<close> and \<open>pop\<close> take its head.\<close>

definition hub_step :: "nat \<Rightarrow> nat \<Rightarrow> node_id \<Rightarrow> (nat \<times> node_id) list \<Rightarrow> (nat \<times> node_id) list" where
  "hub_step limit deg i heap =
    (if length heap < limit then insort (deg, i) heap
     else (case heap of
         (min_deg, _) # rest \<Rightarrow> if deg > min_deg then insort (deg, i) rest else heap
       | [] \<Rightarrow> heap))"

text \<open>\<open>into_sorted_vec\<close> orders the reversed pairs ascending, that is the pairs descending; the
  result is then reversed.\<close>

definition top_hubs_in :: "graph_codecs \<Rightarrow> ('r, 'z) read_ops_scheme \<Rightarrow> 'r \<Rightarrow> nat \<Rightarrow> direction \<Rightarrow> string option
    \<Rightarrow> (node_id \<times> nat) list res" where
  "top_hubs_in G ops r limit dir label_filter =
    (if limit = 0 then Ok []
     else
       bind_res (case label_filter of
           Some label \<Rightarrow> nodes_by_label_in G ops r label
         | None \<Rightarrow> bind_res (s_range ops r NODES Unbounded Unbounded) (\<lambda>rows. traverse (\<lambda>(k, _). decode_node_id k) rows)) (\<lambda>candidates.
       bind_res (for_res (\<lambda>i heap. bind_res (degree ops r dir i) (\<lambda>deg. Ok (hub_step limit deg i heap))) candidates []) (\<lambda>heap.
       let sorted_vec = rev heap
       in Ok (rev (map (\<lambda>(deg, i). (i, deg)) sorted_vec)))))"

section \<open>Cascading deletion\<close>

text \<open>\<open>if visited.insert(child) { queue.push_back(child) }\<close> over a list of neighbours.\<close>

definition visit :: "node_id \<Rightarrow> node_id list \<times> node_id list \<Rightarrow> node_id list \<times> node_id list" where
  "visit child s = (case s of (visited, queue) \<Rightarrow>
     if child \<in> set visited then (visited, queue) else (child # visited, queue @ [child]))"

definition unvisited :: "node_id list \<Rightarrow> nat" where
  "unvisited visited = card (- set visited)"

lemma unvisited_Cons: "x \<notin> set visited \<Longrightarrow> unvisited (x # visited) < unvisited visited"
  by (auto simp: unvisited_def intro!: psubset_card_mono)

lemma fold_visit_measure:
  "fold visit xs (visited, queue) = (visited', queue') \<Longrightarrow>
    unvisited visited' < unvisited visited \<or> unvisited visited' = unvisited visited \<and> queue' = queue"
proof (induction xs arbitrary: visited queue)
  case (Cons x xs)
  show ?case
  proof (cases "x \<in> set visited")
    case False
    then have "fold visit xs (x # visited, queue @ [x]) = (visited', queue')"
      using Cons.prems by (simp add: visit_def [of x])
    from Cons.IH [OF this] unvisited_Cons [OF False] show ?thesis by linarith
  qed (use Cons in \<open>simp add: visit_def [of x]\<close>)
qed simp

function cascade_loop :: "('r, 'z) read_ops_scheme \<Rightarrow> 'r \<Rightarrow> string \<Rightarrow> node_id list \<Rightarrow> node_id list \<Rightarrow> node_id list
    \<Rightarrow> node_id list res" where
  "cascade_loop ops r t visited queue to_delete = (case queue of
      [] \<Rightarrow> Ok to_delete
    | current # queue \<Rightarrow>
        bind_res (neighbors_out_in ops r current t) (\<lambda>neighbors.
        let (visited, queue) = fold visit (map fst neighbors) (visited, queue)
        in cascade_loop ops r t visited queue (to_delete @ [current])))"
  by pat_completeness auto
termination
proof (relation "measures [\<lambda>(ops, r, t, visited, queue, to_delete). unvisited visited,
      \<lambda>(ops, r, t, visited, queue, to_delete). length queue]", goal_cases)
  case (2 ops r t visited queue to_delete current rest neighbors p visited' queue')
  then show ?case using fold_visit_measure [of "map fst neighbors" visited rest visited' queue'] by auto
qed simp

declare cascade_loop.simps [simp del]

definition cascade_delete_in :: "graph_codecs \<Rightarrow> ('w, 'z) write_ops_scheme \<Rightarrow> 'w \<Rightarrow> node_id \<Rightarrow> string \<Rightarrow> (node_id list \<times> 'w) res" where
  "cascade_delete_in G ops w root containment_edge_type =
    bind_res (get_node_in G ops w root) (\<lambda>x.
    if x = None then Err NotFound
    else
      bind_res (cascade_loop ops w containment_edge_type [root] [root] []) (\<lambda>to_delete.
      bind_res (for_res (\<lambda>i w. delete_node_in G ops w i) (rev to_delete) w) (\<lambda>w. Ok (to_delete, w))))"

end
