(* ===== verification/Graph_Repr.thy ===== *)
theory Graph_Repr
  imports Graph_Ops
begin

text \<open>
  What the tables of the graph layer stand for. \<open>graph\<close> is the abstract property graph: nodes,
  edges, the next free ids and the registered property indexes. \<open>graph_repr\<close> relates it to the
  contents of a store, table by table, and \<open>graph_wf\<close> is its invariant: edges join existing nodes,
  ids are below the counters, names fit their length prefix. The locale \<open>graph_store\<close> is a
  transaction that meets the storage contract and may use the graph's tables.
\<close>

section \<open>The abstract graph\<close>

record graph =
  g_nodes :: "node_id \<rightharpoonup> node_record"
  g_edges :: "edge_id \<rightharpoonup> edge_record"
  g_next_node :: u64
  g_next_edge :: u64
  g_indexes :: "(string \<times> string) set"
  g_labels_ready :: bool

definition empty_graph :: graph where
  "empty_graph = \<lparr>g_nodes = Map.empty, g_edges = Map.empty, g_next_node = 1, g_next_edge = 1, g_indexes = {},
     g_labels_ready = False\<rparr>"

definition node_names_ok :: "string \<Rightarrow> bool" where
  "node_names_ok s \<longleftrightarrow> str_ok s \<and> short s"

definition graph_wf :: "graph \<Rightarrow> bool" where
  "graph_wf g \<longleftrightarrow>
    (\<forall>i r. g_nodes g i = Some r \<longrightarrow> node_ok r \<and> short (nr_label r) \<and> 1 \<le> i \<and> i < g_next_node g) \<and>
    (\<forall>e r. g_edges g e = Some r \<longrightarrow> edge_ok r \<and> short (er_edge_type r) \<and> g_nodes g (er_from r) \<noteq> None \<and>
      g_nodes g (er_to r) \<noteq> None \<and> 1 \<le> e \<and> e < g_next_edge g) \<and>
    (\<forall>l p. (l, p) \<in> g_indexes g \<longrightarrow> node_names_ok l \<and> node_names_ok p)"

section \<open>Its representation\<close>

definition rows_of :: "'a codec \<Rightarrow> (u64 \<rightharpoonup> 'a) \<Rightarrow> bytes \<rightharpoonup> bytes" where
  "rows_of c m k = (if length k = 8 then Option.bind (m (of_be64 k)) (serialize c) else None)"

definition out_keys :: "(edge_id \<rightharpoonup> edge_record) \<Rightarrow> bytes set" where
  "out_keys E = {k. \<exists>e r. E e = Some r \<and> k = adj_out_key (er_from r) (er_edge_type r) (er_to r) e}"

definition in_keys :: "(edge_id \<rightharpoonup> edge_record) \<Rightarrow> bytes set" where
  "in_keys E = {k. \<exists>e r. E e = Some r \<and> k = adj_in_key (er_to r) (er_edge_type r) (er_from r) e}"

definition label_entry :: "string \<Rightarrow> node_id \<Rightarrow> bytes" where
  "label_entry l i = encode_edge_type l @ be64 i"

definition label_keys :: "(node_id \<rightharpoonup> node_record) \<Rightarrow> bytes set" where
  "label_keys N = {k. \<exists>i r. N i = Some r \<and> k = label_entry (nr_label r) i}"

definition prop_row :: "string \<Rightarrow> string \<Rightarrow> prop_value option \<Rightarrow> node_id \<Rightarrow> bytes option" where
  "prop_row l p v i = map_option (\<lambda>enc. encode_edge_type l @ encode_edge_type p @ enc @ be64 i) (Option.bind v index_value_key)"

definition node_rows_of :: "(string \<times> string) set \<Rightarrow> node_id \<Rightarrow> node_record \<Rightarrow> bytes set" where
  "node_rows_of X i r = {k. \<exists>p. (nr_label r, p) \<in> X \<and> prop_row (nr_label r) p (map_of (nr_properties r) p) i = Some k}"

definition prop_keys :: "(node_id \<rightharpoonup> node_record) \<Rightarrow> (string \<times> string) set \<Rightarrow> bytes set" where
  "prop_keys N X = {k. \<exists>i r. N i = Some r \<and> k \<in> node_rows_of X i r}"

definition reg_key :: "string \<Rightarrow> string \<Rightarrow> bytes" where
  "reg_key l p = PROP_INDEX_PREFIX @ encode_edge_type l @ encode_edge_type p"

definition counter_is :: "(bytes \<rightharpoonup> bytes) \<Rightarrow> bytes \<Rightarrow> u64 \<Rightarrow> bool" where
  "counter_is m key n \<longleftrightarrow> m key = Some (be64 n) \<and> 1 < n \<or> m key = None \<and> n = 1"

definition meta_ok :: "(bytes \<rightharpoonup> bytes) \<Rightarrow> graph \<Rightarrow> bool" where
  "meta_ok m g \<longleftrightarrow> counter_is m NEXT_NODE_ID_KEY (g_next_node g) \<and> counter_is m NEXT_EDGE_ID_KEY (g_next_edge g) \<and>
    (m LABEL_INDEX_MARKER \<noteq> None) = g_labels_ready g \<and>
    (\<forall>k. prefix PROP_INDEX_PREFIX k \<longrightarrow> m k = flags {reg_key l p | l p. (l, p) \<in> g_indexes g} k)"

definition graph_repr :: "graph_codecs \<Rightarrow> store \<Rightarrow> graph \<Rightarrow> bool" where
  "graph_repr C \<sigma> g \<longleftrightarrow>
    \<sigma> NODES = rows_of (node_codec C) (g_nodes g) \<and> \<sigma> EDGES = rows_of (edge_codec C) (g_edges g) \<and>
    \<sigma> ADJ_OUT = flags (out_keys (g_edges g)) \<and> \<sigma> ADJ_IN = flags (in_keys (g_edges g)) \<and>
    (\<exists>L. \<sigma> NODE_LABELS = flags L \<and> L \<subseteq> label_keys (g_nodes g) \<and> (g_labels_ready g \<longrightarrow> L = label_keys (g_nodes g))) \<and>
    \<sigma> NODE_PROPS = flags (prop_keys (g_nodes g) (g_indexes g)) \<and> meta_ok (\<sigma> META) g \<and> graph_wf g"

lemma empty_repr: "graph_repr C (\<lambda>_. Map.empty) empty_graph"
  by (auto simp: graph_repr_def empty_graph_def rows_of_def flags_def out_keys_def in_keys_def label_keys_def prop_keys_def
      meta_ok_def counter_is_def graph_wf_def fun_eq_iff intro!: exI [of _ "{}"])

section \<open>Table updates\<close>

lemma tables_distinct [simp]:
  "NODES \<noteq> EDGES" "NODES \<noteq> ADJ_OUT" "NODES \<noteq> ADJ_IN" "NODES \<noteq> META" "NODES \<noteq> NODE_LABELS" "NODES \<noteq> NODE_PROPS"
  "EDGES \<noteq> NODES" "EDGES \<noteq> ADJ_OUT" "EDGES \<noteq> ADJ_IN" "EDGES \<noteq> META" "EDGES \<noteq> NODE_LABELS" "EDGES \<noteq> NODE_PROPS"
  "ADJ_OUT \<noteq> NODES" "ADJ_OUT \<noteq> EDGES" "ADJ_OUT \<noteq> ADJ_IN" "ADJ_OUT \<noteq> META" "ADJ_OUT \<noteq> NODE_LABELS" "ADJ_OUT \<noteq> NODE_PROPS"
  "ADJ_IN \<noteq> NODES" "ADJ_IN \<noteq> EDGES" "ADJ_IN \<noteq> ADJ_OUT" "ADJ_IN \<noteq> META" "ADJ_IN \<noteq> NODE_LABELS" "ADJ_IN \<noteq> NODE_PROPS"
  "META \<noteq> NODES" "META \<noteq> EDGES" "META \<noteq> ADJ_OUT" "META \<noteq> ADJ_IN" "META \<noteq> NODE_LABELS" "META \<noteq> NODE_PROPS"
  "NODE_LABELS \<noteq> NODES" "NODE_LABELS \<noteq> EDGES" "NODE_LABELS \<noteq> ADJ_OUT" "NODE_LABELS \<noteq> ADJ_IN" "NODE_LABELS \<noteq> META" "NODE_LABELS \<noteq> NODE_PROPS"
  "NODE_PROPS \<noteq> NODES" "NODE_PROPS \<noteq> EDGES" "NODE_PROPS \<noteq> ADJ_OUT" "NODE_PROPS \<noteq> ADJ_IN" "NODE_PROPS \<noteq> META" "NODE_PROPS \<noteq> NODE_LABELS"
  by (simp_all add: NODES_def EDGES_def ADJ_OUT_def ADJ_IN_def META_def NODE_LABELS_def NODE_PROPS_def)

lemma tables_reserved [simp]:
  "is_reserved NODES" "is_reserved EDGES" "is_reserved ADJ_OUT" "is_reserved ADJ_IN" "is_reserved META"
  "is_reserved NODE_LABELS" "is_reserved NODE_PROPS"
  by (simp_all add: is_reserved_def RESERVED_TABLE_NAMES_def NODES_def EDGES_def ADJ_OUT_def ADJ_IN_def META_def
      NODE_LABELS_def NODE_PROPS_def)

lemma user_table [simp]:
  "\<not> is_reserved t \<Longrightarrow> (t = NODES) = False" "\<not> is_reserved t \<Longrightarrow> (t = EDGES) = False" "\<not> is_reserved t \<Longrightarrow> (t = ADJ_OUT) = False"
  "\<not> is_reserved t \<Longrightarrow> (t = ADJ_IN) = False" "\<not> is_reserved t \<Longrightarrow> (t = META) = False"
  "\<not> is_reserved t \<Longrightarrow> (t = NODE_LABELS) = False" "\<not> is_reserved t \<Longrightarrow> (t = NODE_PROPS) = False"
  using tables_reserved by auto

lemma rows_of_be64 [simp]: "rows_of c m (be64 i) = Option.bind (m i) (serialize c)"
  by (simp add: rows_of_def)

lemma rows_of_upd:
  "serialize c x = Some bs \<Longrightarrow> (rows_of c m)(be64 i \<mapsto> bs) = rows_of c (m(i \<mapsto> x))"
  "(rows_of c m)(be64 i := None) = rows_of c (m(i := None))"
  by (auto simp: rows_of_def fun_eq_iff)

lemma wf_nodeD: "graph_wf g \<Longrightarrow> g_nodes g i = Some r \<Longrightarrow> node_ok r \<and> short (nr_label r) \<and> 1 \<le> i \<and> i < g_next_node g"
  by (simp add: graph_wf_def)

lemma wf_edgeD: "graph_wf g \<Longrightarrow> g_edges g e = Some r \<Longrightarrow> edge_ok r \<and> short (er_edge_type r) \<and>
    (\<exists>a. g_nodes g (er_from r) = Some a) \<and> (\<exists>b. g_nodes g (er_to r) = Some b) \<and> 1 \<le> e \<and> e < g_next_edge g"
  by (simp add: graph_wf_def)

lemma wf_fresh_node: "graph_wf g \<Longrightarrow> g_next_node g \<le> i \<Longrightarrow> g_nodes g i = None"
  by (cases "g_nodes g i") (auto dest: wf_nodeD)

lemma wf_fresh_edge: "graph_wf g \<Longrightarrow> g_next_edge g \<le> e \<Longrightarrow> g_edges g e = None"
  by (cases "g_edges g e") (auto dest: wf_edgeD)

lemma prefix_free_keys [simp]:
  "\<not> prefix PROP_INDEX_PREFIX NEXT_NODE_ID_KEY" "\<not> prefix PROP_INDEX_PREFIX NEXT_EDGE_ID_KEY" "\<not> prefix PROP_INDEX_PREFIX LABEL_INDEX_MARKER"
  "NEXT_NODE_ID_KEY \<noteq> NEXT_EDGE_ID_KEY" "NEXT_NODE_ID_KEY \<noteq> LABEL_INDEX_MARKER" "NEXT_EDGE_ID_KEY \<noteq> LABEL_INDEX_MARKER"
  "NEXT_EDGE_ID_KEY \<noteq> NEXT_NODE_ID_KEY" "LABEL_INDEX_MARKER \<noteq> NEXT_NODE_ID_KEY" "LABEL_INDEX_MARKER \<noteq> NEXT_EDGE_ID_KEY"
  by (simp_all add: PROP_INDEX_PREFIX_def NEXT_NODE_ID_KEY_def NEXT_EDGE_ID_KEY_def LABEL_INDEX_MARKER_def)

section \<open>Index keys\<close>

lemma names_Ok [simp]:
  "short l \<Longrightarrow> label_prefix l = Ok (encode_edge_type l)"
  "short l \<Longrightarrow> label_key l i = Ok (label_entry l i)"
  "short l \<Longrightarrow> short p \<Longrightarrow> prop_prefix l p = Ok (encode_edge_type l @ encode_edge_type p)"
  "short l \<Longrightarrow> short p \<Longrightarrow> registry_key l p = Ok (reg_key l p)"
  by (simp_all add: label_prefix_def push_len_prefixed_def encode_edge_type_def label_key_def label_entry_def prop_prefix_def
      registry_key_def reg_key_def node_key_def)

lemma prop_entry_Ok [simp]: "short l \<Longrightarrow> short p \<Longrightarrow> prop_entry l p v i = Ok (prop_row l p v i)"
  by (simp add: prop_entry_def prop_row_def node_key_def split: option.split)

lemma reg_key_inject: "short l \<Longrightarrow> short l' \<Longrightarrow> short p \<Longrightarrow> short p' \<Longrightarrow> reg_key l p = reg_key l' p' \<longleftrightarrow> l = l' \<and> p = p'"
  using encode_edge_type_inject [of p p' "[]" "[]"] by (simp add: reg_key_def encode_edge_type_inject)

lemma prefix_reg_key: "short l \<Longrightarrow> short l' \<Longrightarrow> prefix (PROP_INDEX_PREFIX @ encode_edge_type l) (reg_key l' p) \<longleftrightarrow> l = l'"
  using encode_edge_type_inject [of l l'] by (auto simp: reg_key_def prefix_def eq_commute)

lemma read_name_encode [simp]: "short p \<Longrightarrow> str_ok p \<Longrightarrow> read_name (encode_edge_type p @ r) = Ok (p, r)"
  unfolding read_name_def encode_edge_type_def by (simp add: slice_get_def unat_len16)

lemma suffix_id: "x @ be64 i = y @ be64 j \<longleftrightarrow> x = y \<and> i = j"
  by (subst append_eq_append_conv) simp_all

lemma label_entry_inject: "short l \<Longrightarrow> short l' \<Longrightarrow> label_entry l i = label_entry l' i' \<longleftrightarrow> l = l' \<and> i = i'"
  using encode_edge_type_inject [of l l' "be64 i" "be64 i'"] by (simp only: label_entry_def be64_eq_iff)

lemma prop_row_suffix: "prop_row l p v i = Some k \<Longrightarrow> \<exists>x. k = x @ be64 i"
  by (auto simp: prop_row_def)

lemma prop_row_same:
  assumes "prop_row l p v i = Some k" "prop_row l' p' v' i' = Some k" "short l" "short l'" "short p" "short p'"
  shows "i = i' \<and> l = l' \<and> p = p'"
proof -
  obtain a b where ab: "k = encode_edge_type l @ encode_edge_type p @ a @ be64 i" "k = encode_edge_type l' @ encode_edge_type p' @ b @ be64 i'"
    using assms(1,2) by (auto simp: prop_row_def)
  then have "l = l' \<and> encode_edge_type p @ a @ be64 i = encode_edge_type p' @ b @ be64 i'"
    using encode_edge_type_inject [OF assms(3,4)] by metis
  moreover from this have "p = p' \<and> a @ be64 i = b @ be64 i'" using encode_edge_type_inject [OF assms(5,6)] by metis
  ultimately show ?thesis by (simp only: suffix_id)
qed

lemma node_rows_of_other: "k \<in> node_rows_of X i r \<Longrightarrow> k \<in> node_rows_of X' i' r' \<Longrightarrow> i = i'"
proof -
  assume "k \<in> node_rows_of X i r" "k \<in> node_rows_of X' i' r'"
  then obtain x y where "k = x @ be64 i" "k = y @ be64 i'" by (auto simp: node_rows_of_def dest!: prop_row_suffix)
  then show ?thesis by (simp only: suffix_id)
qed

text \<open>Adding, changing or removing one node changes the property rows of that node only.\<close>

lemma prop_keys_upd: "prop_keys (N(i \<mapsto> r)) X = (prop_keys N X - (case N i of Some r0 \<Rightarrow> node_rows_of X i r0 | None \<Rightarrow> {})) \<union> node_rows_of X i r"
proof (intro set_eqI iffI)
  fix k assume "k \<in> prop_keys (N(i \<mapsto> r)) X"
  then obtain j r' where "(N(i \<mapsto> r)) j = Some r'" "k \<in> node_rows_of X j r'" by (auto simp: prop_keys_def)
  then show "k \<in> (prop_keys N X - (case N i of Some r0 \<Rightarrow> node_rows_of X i r0 | None \<Rightarrow> {})) \<union> node_rows_of X i r"
    by (cases "j = i") (auto simp: prop_keys_def dest: node_rows_of_other split: option.splits)
next
  fix k assume k: "k \<in> (prop_keys N X - (case N i of Some r0 \<Rightarrow> node_rows_of X i r0 | None \<Rightarrow> {})) \<union> node_rows_of X i r"
  show "k \<in> prop_keys (N(i \<mapsto> r)) X"
  proof (cases "k \<in> node_rows_of X i r")
    case False
    then obtain j r' where j: "N j = Some r'" "k \<in> node_rows_of X j r'" using k by (auto simp: prop_keys_def)
    then have "j \<noteq> i" using k False by auto
    then show ?thesis using j by (auto simp: prop_keys_def)
  qed (auto simp: prop_keys_def intro!: exI [of _ i])
qed

lemma prop_keys_del: "prop_keys (N(i := None)) X = prop_keys N X - (case N i of Some r0 \<Rightarrow> node_rows_of X i r0 | None \<Rightarrow> {})"
proof (intro set_eqI iffI)
  fix k assume "k \<in> prop_keys (N(i := None)) X"
  then obtain j r where "N j = Some r" "j \<noteq> i" "k \<in> node_rows_of X j r" by (auto simp: prop_keys_def split: if_splits)
  then show "k \<in> prop_keys N X - (case N i of Some r0 \<Rightarrow> node_rows_of X i r0 | None \<Rightarrow> {})"
    by (auto simp: prop_keys_def dest: node_rows_of_other split: option.splits)
next
  fix k assume k: "k \<in> prop_keys N X - (case N i of Some r0 \<Rightarrow> node_rows_of X i r0 | None \<Rightarrow> {})"
  then obtain j r where j: "N j = Some r" "k \<in> node_rows_of X j r" by (auto simp: prop_keys_def)
  then have "j \<noteq> i" using k by auto
  then show "k \<in> prop_keys (N(i := None)) X" using j by (auto simp: prop_keys_def)
qed

section \<open>Graph transactions\<close>

text \<open>\<open>graph_view I view C r g\<close>: the open transaction \<open>r\<close> shows the graph \<open>g\<close>, stored with the codecs \<open>C\<close>.\<close>

definition graph_view :: "('r \<Rightarrow> bool) \<Rightarrow> ('r \<Rightarrow> store) \<Rightarrow> graph_codecs \<Rightarrow> 'r \<Rightarrow> graph \<Rightarrow> bool" where
  "graph_view I view C r g \<longleftrightarrow> graph_codecs_ok C \<and> I r \<and> graph_repr C (view r) g"

lemma node_codecE:
  assumes "graph_codecs_ok C" "node_ok r"
  obtains bs where "serialize (node_codec C) r = Some bs" "deserialize (node_codec C) bs = Some r"
  using assms by (auto simp: graph_codecs_ok_def elim: codec_onE)

lemma edge_codecE:
  assumes "graph_codecs_ok C" "edge_ok r"
  obtains bs where "serialize (edge_codec C) r = Some bs" "deserialize (edge_codec C) bs = Some r"
  using assms by (auto simp: graph_codecs_ok_def elim: codec_onE)

locale graph_read = storage_read ops inv tbl_ok view
  for ops :: "('r, 'z) read_ops_scheme" and inv tbl_ok view +
  assumes reserved_ok: "is_reserved t \<Longrightarrow> tbl_ok t"
begin

abbreviation gread :: "graph_codecs \<Rightarrow> 'r \<Rightarrow> graph \<Rightarrow> bool" where
  "gread \<equiv> graph_view inv view"

lemma get_wp [simp]: "inv r \<Longrightarrow> is_reserved t \<Longrightarrow> s_get ops r t k = Ok (view r t k)"
  by (simp add: get_view reserved_ok)

lemma scan_prefix_wp:
  assumes "inv r" "is_reserved t"
  shows "\<exists>ks. scan_prefix ops r t p = Ok ks \<and> sorted_wrt (<) ks \<and> set ks = {k. prefix p k \<and> view r t k \<noteq> None}"
proof -
  obtain xs where xs: "s_range ops r t (Included p) (prefix_hi (byte_successor p)) = Ok xs" "sorted_keys xs"
      "\<And>k v. (k, v) \<in> set xs \<longleftrightarrow> prefix p k \<and> view r t k = Some v"
    by (rule prefix_scan [OF assms(1) reserved_ok [OF assms(2)], of p]) blast
  have "(case prefix_end p of Some e \<Rightarrow> Excluded e | None \<Rightarrow> Unbounded) = prefix_hi (byte_successor p)"
    by (simp add: prefix_end_def prefix_hi_def split: option.split)
  then have "scan_prefix ops r t p = Ok (map fst xs)" using xs(1) by (simp add: scan_prefix_def)
  moreover have "set (map fst xs) = {k. prefix p k \<and> view r t k \<noteq> None}" 
  proof (intro set_eqI iffI)
    fix k assume "k \<in> set (map fst xs)"
    then obtain v where "(k, v) \<in> set xs" by auto
    then show "k \<in> {k. prefix p k \<and> view r t k \<noteq> None}" by (simp add: xs(3))
  next
    fix k assume "k \<in> {k. prefix p k \<and> view r t k \<noteq> None}"
    then obtain v where "(k, v) \<in> set xs" by (auto simp: xs(3))
    then show "k \<in> set (map fst xs)" by force
  qed
  ultimately show ?thesis using xs(2) by blast
qed

lemma indexed_properties_wp:
  assumes "inv r" "meta_ok (view r META) g" "graph_wf g" "short l"
  shows "\<exists>ps. indexed_properties ops r l = Ok ps \<and> set ps = {p. (l, p) \<in> g_indexes g} \<and> distinct ps"
proof -
  let ?p = "PROP_INDEX_PREFIX @ encode_edge_type l"
  obtain ks where ks: "scan_prefix ops r META ?p = Ok ks" "sorted_wrt (<) ks" "set ks = {k. prefix ?p k \<and> view r META k \<noteq> None}"
    using scan_prefix_wp [OF assms(1), of META ?p] by auto
  have names: "short l' \<and> str_ok l' \<and> short p \<and> str_ok p" if "(l', p) \<in> g_indexes g" for l' p
    using assms(3) that by (auto simp: graph_wf_def node_names_ok_def)
  have mem: "k \<in> set ks \<longleftrightarrow> (\<exists>p. (l, p) \<in> g_indexes g \<and> k = reg_key l p)" for k
  proof
    assume "k \<in> set ks"
    then have k: "prefix ?p k" "view r META k \<noteq> None" using ks(3) by auto
    then have "prefix PROP_INDEX_PREFIX k" by (metis append_prefixD)
    then have "k \<in> {reg_key l p | l p. (l, p) \<in> g_indexes g}" using assms(2) k(2) by (auto simp: meta_ok_def)
    then show "\<exists>p. (l, p) \<in> g_indexes g \<and> k = reg_key l p" using k(1) prefix_reg_key [OF assms(4)] names by blast
  next
    assume "\<exists>p. (l, p) \<in> g_indexes g \<and> k = reg_key l p"
    then obtain p where p: "(l, p) \<in> g_indexes g" "k = reg_key l p" by blast
    then have "prefix PROP_INDEX_PREFIX k" by (simp add: reg_key_def)
    then have "view r META k = flags {reg_key l p | l p. (l, p) \<in> g_indexes g} k" using assms(2) by (simp add: meta_ok_def)
    moreover have "prefix ?p k" using p(2) by (simp add: reg_key_def)
    ultimately show "k \<in> set ks" using p ks(3) by (auto simp: flags_def)
  qed
  define nm where "nm k = (SOME p. (l, p) \<in> g_indexes g \<and> k = reg_key l p)" for k
  have nm: "(l, nm k) \<in> g_indexes g \<and> k = reg_key l (nm k)" if "k \<in> set ks" for k
    unfolding nm_def using mem [of k] that by (metis (mono_tags, lifting) someI_ex)
  have "(if length k < length ?p then Panic else bind_res (read_name (drop (length ?p) k)) (\<lambda>(s, _). Ok s)) = Ok (nm k)"
    if "k \<in> set ks" for k
  proof -
    have k: "k = ?p @ encode_edge_type (nm k) @ []" using nm [OF that] by (simp add: reg_key_def)
    have "short (nm k)" "str_ok (nm k)" using names nm [OF that] by blast+
    then have "read_name (drop (length ?p) k) = Ok (nm k, [])" by (subst k) (simp del: append_Nil2)
    moreover have "\<not> length k < length ?p" by (subst k) simp
    ultimately show ?thesis by simp
  qed
  then have "indexed_properties ops r l = Ok (map nm ks)"
    using ks(1) assms(4) by (simp add: indexed_properties_def Let_def traverse_Ok [where g = nm] del: length_append)
  moreover have "set (map nm ks) = {p. (l, p) \<in> g_indexes g}"
  proof -
    have "nm (reg_key l p) = p" if "(l, p) \<in> g_indexes g" for p
      using nm [of "reg_key l p"] mem [of "reg_key l p"] that names reg_key_inject by (metis)
    then show ?thesis using nm mem by (auto simp: image_iff) metis
  qed
  moreover have "distinct (map nm ks)"
  proof -
    have "inj_on nm (set ks)" using nm by (metis inj_onI)
    then show ?thesis using ks(2) by (simp add: distinct_map strict_sorted_iff)
  qed
  ultimately show ?thesis by blast
qed

end

end
