(* ===== verification/Graph_Write.thy ===== *)
theory Graph_Write
  imports Graph_Repr
begin

text \<open>
  Every write of the graph layer implements its abstract counterpart: from a transaction that
  represents a graph it returns one that represents the changed graph, and it leaves all tables but
  the graph's own unchanged. The lemmas hold for every transaction that meets the storage contract;
  the index maintenance hooks come first, then nodes, edges and deletion.
\<close>

text \<open>The keys the graph layer keeps in the \<open>meta\<close> table, which it shares with the relational layer, and what it leaves alone: the
  user tables and all other keys of \<open>meta\<close>.\<close>

definition graph_key :: "bytes \<Rightarrow> bool" where
  "graph_key k \<longleftrightarrow> k \<in> {NEXT_NODE_ID_KEY, NEXT_EDGE_ID_KEY, LABEL_INDEX_MARKER} \<or> prefix PROP_INDEX_PREFIX k"

definition off_graph :: "store \<Rightarrow> store \<Rightarrow> bool" where
  "off_graph \<sigma> \<sigma>' \<longleftrightarrow> (\<forall>t. \<not> is_reserved t \<longrightarrow> \<sigma>' t = \<sigma> t) \<and> (\<forall>k. \<not> graph_key k \<longrightarrow> \<sigma>' META k = \<sigma> META k)"

lemma graph_keys [simp]:
  "graph_key NEXT_NODE_ID_KEY" "graph_key NEXT_EDGE_ID_KEY" "graph_key LABEL_INDEX_MARKER" "graph_key (reg_key l p)"
  by (simp_all add: graph_key_def reg_key_def)

lemma off_graph_refl [simp]: "off_graph \<sigma> \<sigma>"
  by (simp add: off_graph_def)

lemma off_graph_upd [simp]:
  "is_reserved t \<Longrightarrow> t \<noteq> META \<Longrightarrow> off_graph \<sigma> (\<sigma>'(t := m)) \<longleftrightarrow> off_graph \<sigma> \<sigma>'"
  by (auto simp: off_graph_def)

lemma off_graph_meta:
  "off_graph \<sigma> \<sigma>' \<Longrightarrow> (\<And>k. \<not> graph_key k \<Longrightarrow> m k = \<sigma>' META k) \<Longrightarrow> off_graph \<sigma> (\<sigma>'(META := m))"
  by (simp add: off_graph_def)

lemma graph_key_upd: "graph_key k \<Longrightarrow> \<not> graph_key k' \<Longrightarrow> (m(k := v)) k' = m k'"
  by auto

definition graph_tx :: "('w \<Rightarrow> bool) \<Rightarrow> ('w \<Rightarrow> store) \<Rightarrow> graph_codecs \<Rightarrow> store \<Rightarrow> 'w \<Rightarrow> graph \<Rightarrow> bool" where
  "graph_tx I view C \<sigma> w g \<longleftrightarrow> graph_view I view C w g \<and> off_graph \<sigma> (view w)"

locale graph_store = storage_write ops inv tbl_ok view + graph_read ops inv tbl_ok view
  for ops :: "('w, 'z) write_ops_scheme" and inv tbl_ok view
begin

abbreviation gtx :: "graph_codecs \<Rightarrow> store \<Rightarrow> 'w \<Rightarrow> graph \<Rightarrow> bool" where
  "gtx \<equiv> graph_tx inv view"

section \<open>Single writes and loops of writes\<close>

lemma put_wp:
  assumes "inv w" "is_reserved t" "\<And>w'. inv w' \<Longrightarrow> view w' = (view w)(t := (view w t)(k \<mapsto> v)) \<Longrightarrow> Q w'"
  shows "ok_with (s_put ops w t k v) Q"
  using put_view [OF assms(1) reserved_ok [OF assms(2)], of k v] assms(3) by (auto simp: ok_with_iff)

lemma delete_wp:
  assumes "inv w" "is_reserved t" "\<And>w'. inv w' \<Longrightarrow> view w' = (view w)(t := (view w t)(k := None)) \<Longrightarrow> Q w'"
  shows "ok_with (s_delete ops w t k) Q"
  using delete_view [OF assms(1) reserved_ok [OF assms(2)], of k] assms(3) by (auto simp: ok_with_iff)

lemma putE:
  assumes "inv w" "is_reserved t"
  obtains w' where "s_put ops w t k v = Ok w'" "inv w'" "view w' = (view w)(t := (view w t)(k \<mapsto> v))"
  using put_view [OF assms(1) reserved_ok [OF assms(2)], of k v] by blast

lemma deleteE:
  assumes "inv w" "is_reserved t"
  obtains w' where "s_delete ops w t k = Ok w'" "inv w'" "view w' = (view w)(t := (view w t)(k := None))"
  using delete_view [OF assms(1) reserved_ok [OF assms(2)], of k] by blast

lemma put_rows_wp:
  assumes "inv w" "is_reserved t" "view w t = flags S"
  shows "ok_with (for_res (\<lambda>x w. case f x of Some k \<Rightarrow> s_put ops w t k [] | None \<Rightarrow> Ok w) xs w)
    (\<lambda>w'. inv w' \<and> view w' = (view w)(t := flags (S \<union> {k. \<exists>x\<in>set xs. f x = Some k})))"
proof (rule for_res_rule)
  fix ys x zs w'
  assume "inv w' \<and> view w' = (view w)(t := flags (S \<union> {k. \<exists>x\<in>set ys. f x = Some k}))"
  then show "ok_with (case f x of Some k \<Rightarrow> s_put ops w' t k [] | None \<Rightarrow> Ok w')
      (\<lambda>w'. inv w' \<and> view w' = (view w)(t := flags (S \<union> {k. \<exists>x\<in>set (ys @ [x]). f x = Some k})))"
    using assms(2) by (cases "f x") (auto intro!: put_wp arg_cong [where f = flags])
qed (use assms in \<open>auto simp: fun_upd_idem\<close>)

lemma delete_rows_wp:
  assumes "inv w" "is_reserved t" "view w t = flags S"
  shows "ok_with (for_res (\<lambda>x w. case f x of Some k \<Rightarrow> s_delete ops w t k | None \<Rightarrow> Ok w) xs w)
    (\<lambda>w'. inv w' \<and> view w' = (view w)(t := flags (S - {k. \<exists>x\<in>set xs. f x = Some k})))"
proof (rule for_res_rule)
  fix ys x zs w'
  assume "inv w' \<and> view w' = (view w)(t := flags (S - {k. \<exists>x\<in>set ys. f x = Some k}))"
  then show "ok_with (case f x of Some k \<Rightarrow> s_delete ops w' t k | None \<Rightarrow> Ok w')
      (\<lambda>w'. inv w' \<and> view w' = (view w)(t := flags (S - {k. \<exists>x\<in>set (ys @ [x]). f x = Some k})))"
    using assms(2) by (cases "f x") (auto intro!: delete_wp arg_cong [where f = flags])
qed (use assms in \<open>auto simp: fun_upd_idem\<close>)

section \<open>Index maintenance\<close>

lemma on_insert_wp:
  assumes "inv w" "meta_ok (view w META) g" "graph_wf g" "short (nr_label r)"
    and "view w NODE_LABELS = flags L" "view w NODE_PROPS = flags S"
  shows "ok_with (on_insert ops w i r) (\<lambda>w'. inv w' \<and>
    view w' = (view w)(NODE_LABELS := flags (insert (label_entry (nr_label r) i) L), NODE_PROPS := flags (S \<union> node_rows_of (g_indexes g) i r)))"
proof -
  let ?l = "nr_label r"
  have "ok_with (bind_res (indexed_properties ops w1 ?l) (\<lambda>props. for_res (\<lambda>prop w.
          bind_res (prop_entry ?l prop (map_of (nr_properties r) prop) i) (\<lambda>e.
          case e of Some k \<Rightarrow> s_put ops w NODE_PROPS k [] | None \<Rightarrow> Ok w)) props w1))
        (\<lambda>w'. inv w' \<and> view w' = (view w1)(NODE_PROPS := flags (S \<union> node_rows_of (g_indexes g) i r)))"
    if w1: "inv w1" "view w1 META = view w META" "view w1 NODE_PROPS = flags S" for w1
  proof -
    obtain ps where ps: "indexed_properties ops w1 ?l = Ok ps" "set ps = {p. (?l, p) \<in> g_indexes g}"
      using indexed_properties_wp [OF w1(1) _ assms(3,4)] assms(2) w1(2) by auto
    have "short p" if "p \<in> set ps" for p using that ps(2) assms(3) by (auto simp: graph_wf_def node_names_ok_def)
    then have "for_res (\<lambda>prop w. bind_res (prop_entry ?l prop (map_of (nr_properties r) prop) i) (\<lambda>e.
          case e of Some k \<Rightarrow> s_put ops w NODE_PROPS k [] | None \<Rightarrow> Ok w)) ps w1
        = for_res (\<lambda>prop w. case prop_row ?l prop (map_of (nr_properties r) prop) i of
          Some k \<Rightarrow> s_put ops w NODE_PROPS k [] | None \<Rightarrow> Ok w) ps w1"
      using assms(4) by (intro for_res_cong) simp_all
    moreover have "{k. \<exists>p\<in>set ps. prop_row ?l p (map_of (nr_properties r) p) i = Some k} = node_rows_of (g_indexes g) i r"
      using ps(2) by (auto simp: node_rows_of_def)
    ultimately show ?thesis
      using ps(1) put_rows_wp [OF w1(1) _ w1(3), of "\<lambda>prop. prop_row ?l prop (map_of (nr_properties r) prop) i" ps] by simp
  qed
  note props = this
  obtain w1 where w1: "s_put ops w NODE_LABELS (label_entry ?l i) [] = Ok w1" "inv w1"
      "view w1 = (view w)(NODE_LABELS := flags (insert (label_entry ?l i) L))"
    using putE [OF assms(1), of NODE_LABELS "label_entry ?l i" "[]"] assms(5) by auto
  have "on_insert ops w i r = bind_res (indexed_properties ops w1 ?l) (\<lambda>props. for_res (\<lambda>prop w.
          bind_res (prop_entry ?l prop (map_of (nr_properties r) prop) i) (\<lambda>e.
          case e of Some k \<Rightarrow> s_put ops w NODE_PROPS k [] | None \<Rightarrow> Ok w)) props w1)"
    using assms(4) w1(1) by (simp add: on_insert_def)
  then show ?thesis using props [of w1] w1(2,3) assms(6) by simp
qed

lemma on_delete_wp:
  assumes "inv w" "meta_ok (view w META) g" "graph_wf g" "short (nr_label r)"
    and "view w NODE_LABELS = flags L" "view w NODE_PROPS = flags S"
  shows "ok_with (on_delete ops w i r) (\<lambda>w'. inv w' \<and>
    view w' = (view w)(NODE_LABELS := flags (L - {label_entry (nr_label r) i}), NODE_PROPS := flags (S - node_rows_of (g_indexes g) i r)))"
proof -
  let ?l = "nr_label r"
  obtain w1 where w1: "s_delete ops w NODE_LABELS (label_entry ?l i) = Ok w1" "inv w1"
      "view w1 = (view w)(NODE_LABELS := flags (L - {label_entry ?l i}))"
    using deleteE [OF assms(1), of NODE_LABELS "label_entry ?l i"] assms(5) by auto
  obtain ps where ps: "indexed_properties ops w1 ?l = Ok ps" "set ps = {p. (?l, p) \<in> g_indexes g}"
    using indexed_properties_wp [OF w1(2) _ assms(3,4)] assms(2) w1(3) by auto
  have "short p" if "p \<in> set ps" for p using that ps(2) assms(3) by (auto simp: graph_wf_def node_names_ok_def)
  then have "for_res (\<lambda>prop w. bind_res (prop_entry ?l prop (map_of (nr_properties r) prop) i) (\<lambda>e.
        case e of Some k \<Rightarrow> s_delete ops w NODE_PROPS k | None \<Rightarrow> Ok w)) ps w1
      = for_res (\<lambda>prop w. case prop_row ?l prop (map_of (nr_properties r) prop) i of
        Some k \<Rightarrow> s_delete ops w NODE_PROPS k | None \<Rightarrow> Ok w) ps w1"
    using assms(4) by (intro for_res_cong) simp_all
  moreover have "{k. \<exists>p\<in>set ps. prop_row ?l p (map_of (nr_properties r) p) i = Some k} = node_rows_of (g_indexes g) i r"
    using ps(2) by (auto simp: node_rows_of_def)
  moreover have "view w1 NODE_PROPS = flags S" using w1(3) assms(6) by simp
  ultimately show ?thesis
    using ps(1) w1 assms(4) delete_rows_wp [OF w1(2), of NODE_PROPS S "\<lambda>prop. prop_row ?l prop (map_of (nr_properties r) prop) i" ps]
    by (simp add: on_delete_def)
qed

lemma opt_prop_eq_row: "opt_prop_eq a b \<Longrightarrow> prop_row l p a i = prop_row l p b i"
  by (auto simp: opt_prop_eq_def prop_row_def index_value_key_def split: option.splits prop_value.splits)

lemma on_update_wp:
  assumes "inv w" "meta_ok (view w META) g" "graph_wf g" "short (nr_label new)" "nr_label old = nr_label new"
    and "view w NODE_PROPS = flags S" "node_rows_of (g_indexes g) i old \<subseteq> S"
  shows "ok_with (on_update ops w i old new) (\<lambda>w'. inv w' \<and>
    view w' = (view w)(NODE_PROPS := flags (S - node_rows_of (g_indexes g) i old \<union> node_rows_of (g_indexes g) i new)))"
proof -
  let ?l = "nr_label new"
  let ?old = "\<lambda>p. prop_row ?l p (map_of (nr_properties old) p) i" and ?new = "\<lambda>p. prop_row ?l p (map_of (nr_properties new) p) i"
  let ?rows = "\<lambda>f ys. {k. \<exists>p\<in>set ys. f p = Some k}"
  obtain ps where ps: "indexed_properties ops w ?l = Ok ps" "set ps = {p. (?l, p) \<in> g_indexes g}" "distinct ps"
    using indexed_properties_wp [OF assms(1-4)] by auto
  have short: "short p" if "p \<in> set ps" for p using that ps(2) assms(3) by (auto simp: graph_wf_def node_names_ok_def)
  have rows: "?rows ?old ps = node_rows_of (g_indexes g) i old" "?rows ?new ps = node_rows_of (g_indexes g) i new"
    using ps(2) assms(5) by (auto simp: node_rows_of_def)
  have "ok_with (for_res (\<lambda>prop w.
      let before = map_of (nr_properties old) prop; after = map_of (nr_properties new) prop in
      if opt_prop_eq before after then Ok w
      else
        bind_res (prop_entry (nr_label old) prop before i) (\<lambda>e.
        bind_res (case e of Some k \<Rightarrow> s_delete ops w NODE_PROPS k | None \<Rightarrow> Ok w) (\<lambda>w.
        bind_res (prop_entry (nr_label new) prop after i) (\<lambda>e.
        case e of Some k \<Rightarrow> s_put ops w NODE_PROPS k [] | None \<Rightarrow> Ok w)))) ps w)
    (\<lambda>w'. inv w' \<and> view w' = (view w)(NODE_PROPS := flags (S - ?rows ?old ps \<union> ?rows ?new ps)))"
  proof (rule for_res_rule)
    fix ys p zs w1
    assume split: "ps = ys @ p # zs" and I: "inv w1 \<and> view w1 = (view w)(NODE_PROPS := flags (S - ?rows ?old ys \<union> ?rows ?new ys))"
    have p: "p \<in> set ps" "p \<notin> set ys" using split ps(3) by auto
    have sh: "short p" "\<And>q. q \<in> set ys \<Longrightarrow> short q" using short split by auto
    have other: "k \<notin> ?rows ?new ys" "k \<notin> ?rows ?old ys" if "?old p = Some k \<or> ?new p = Some k" for k
      using that prop_row_same [OF _ _ assms(4,4) sh(1)] sh(2) p(2) by (blast, blast)
    have oldS: "k \<in> S" if "?old p = Some k" for k using that p(1) rows(1) assms(7) by blast
    show "ok_with (let before = map_of (nr_properties old) p; after = map_of (nr_properties new) p in
      if opt_prop_eq before after then Ok w1
      else
        bind_res (prop_entry (nr_label old) p before i) (\<lambda>e.
        bind_res (case e of Some k \<Rightarrow> s_delete ops w1 NODE_PROPS k | None \<Rightarrow> Ok w1) (\<lambda>w.
        bind_res (prop_entry (nr_label new) p after i) (\<lambda>e.
        case e of Some k \<Rightarrow> s_put ops w NODE_PROPS k [] | None \<Rightarrow> Ok w))))
      (\<lambda>w'. inv w' \<and> view w' = (view w)(NODE_PROPS := flags (S - ?rows ?old (ys @ [p]) \<union> ?rows ?new (ys @ [p]))))"
    proof (cases "opt_prop_eq (map_of (nr_properties old) p) (map_of (nr_properties new) p)")
      case True
      then have "?old p = ?new p" by (rule opt_prop_eq_row)
      then have "S - ?rows ?old ys \<union> ?rows ?new ys = S - ?rows ?old (ys @ [p]) \<union> ?rows ?new (ys @ [p])"
        using oldS other by auto
      then show ?thesis using True I by simp
    next
      case False
      have del: "ok_with (case ?old p of Some k \<Rightarrow> s_delete ops w1 NODE_PROPS k | None \<Rightarrow> Ok w1)
          (\<lambda>w2. inv w2 \<and> view w2 = (view w)(NODE_PROPS := flags (S - ?rows ?old (ys @ [p]) \<union> ?rows ?new ys)))"
      proof (cases "?old p")
        case (Some k)
        have "S - ?rows ?old ys \<union> ?rows ?new ys - {k} = S - ?rows ?old (ys @ [p]) \<union> ?rows ?new ys"
          using other(1) [of k] Some by auto
        then show ?thesis using I Some by (auto intro!: delete_wp)
      qed (use I in auto)
      have "ok_with (case ?new p of Some k \<Rightarrow> s_put ops w2 NODE_PROPS k [] | None \<Rightarrow> Ok w2)
          (\<lambda>w'. inv w' \<and> view w' = (view w)(NODE_PROPS := flags (S - ?rows ?old (ys @ [p]) \<union> ?rows ?new (ys @ [p]))))"
        if "inv w2 \<and> view w2 = (view w)(NODE_PROPS := flags (S - ?rows ?old (ys @ [p]) \<union> ?rows ?new ys))" for w2
        using that by (cases "?new p") (auto intro!: put_wp arg_cong [where f = flags])
      then show ?thesis using False del assms(4,5) sh(1) by (auto elim!: ok_with_mono)
    qed
  qed (use assms in \<open>simp add: fun_upd_idem\<close>)
  then show ?thesis using ps(1) rows by (simp add: on_update_def)
qed

end

end
