(* ===== verification/Graph_Nodes.thy ===== *)
theory Graph_Nodes
  imports Graph_Write
begin

text \<open>Creating, reading and updating nodes.\<close>

section \<open>The abstract operations\<close>

definition mark_ready :: "graph \<Rightarrow> graph" where
  "mark_ready g = g\<lparr>g_labels_ready := g_labels_ready g \<or> g_next_node g = 1\<rparr>"

definition set_node :: "node_id \<Rightarrow> node_record \<Rightarrow> graph \<Rightarrow> graph" where
  "set_node i r g = g\<lparr>g_nodes := (g_nodes g)(i \<mapsto> r)\<rparr>"

definition take_node_ids :: "u64 \<Rightarrow> graph \<Rightarrow> graph" where
  "take_node_ids n g = g\<lparr>g_next_node := g_next_node g + n\<rparr>"

definition add_node :: "node_record \<Rightarrow> graph \<Rightarrow> graph" where
  "add_node r g = set_node (g_next_node g) r (take_node_ids 1 (mark_ready g))"

fun set_nodes :: "node_id \<Rightarrow> node_record list \<Rightarrow> graph \<Rightarrow> graph" where
  "set_nodes i [] g = g"
| "set_nodes i (r # rs) g = set_nodes (i + 1) rs (set_node i r g)"

abbreviation item_node :: "string \<times> properties \<Rightarrow> node_record" where
  "item_node x \<equiv> \<lparr>nr_label = fst x, nr_properties = snd x\<rparr>"

text \<open>Taking the ids of a batch first and then storing its nodes is the same as adding them one by one.\<close>

lemma set_node_take: "set_node i r (take_node_ids n g) = take_node_ids n (set_node i r g)"
  by (cases g) (simp add: set_node_def take_node_ids_def)

lemma set_nodes_take: "set_nodes i rs (take_node_ids n g) = take_node_ids n (set_nodes i rs g)"
  by (induction rs arbitrary: i g) (simp_all add: set_node_take)

lemma mark_ready_id: "g_labels_ready g \<or> g_next_node g \<noteq> 1 \<Longrightarrow> mark_ready g = g"
  by (cases g) (auto simp: mark_ready_def)

lemma fold_add_node_ready:
  "g_labels_ready g \<or> g_next_node g \<noteq> 1 \<Longrightarrow> unat (g_next_node g) + length rs < 2 ^ 64 \<Longrightarrow> 1 \<le> g_next_node g \<Longrightarrow>
    fold add_node rs g = take_node_ids (word_of_nat (length rs)) (set_nodes (g_next_node g) rs g)"
proof (induction rs arbitrary: g)
  case Nil
  then show ?case by (simp add: take_node_ids_def)
next
  case (Cons r rs)
  let ?n = "g_next_node g" and ?g = "add_node r g"
  have u: "unat (?n + 1) = unat ?n + 1" using Cons.prems(2) by (simp add: unat_word_ariths)
  have g: "?g = take_node_ids 1 (set_node ?n r g)" using Cons.prems(1) by (simp add: add_node_def mark_ready_id set_node_take)
  have "1 \<le> unat ?n" using Cons.prems(3) by (simp add: word_le_nat_alt)
  then have "?n + 1 \<noteq> 1" "1 \<le> ?n + 1" using u by (auto simp: word_le_nat_alt word_unat_eq_iff)
  moreover have next_g: "g_next_node ?g = ?n + 1" by (simp add: g take_node_ids_def set_node_def)
  ultimately have "fold add_node rs ?g = take_node_ids (word_of_nat (length rs)) (set_nodes (?n + 1) rs ?g)"
    using Cons.IH [of ?g] Cons.prems(2) u by simp
  also have "set_nodes (?n + 1) rs ?g = take_node_ids 1 (set_nodes ?n (r # rs) g)"
    by (simp add: g set_nodes_take)
  finally show ?case by (simp add: take_node_ids_def algebra_simps)
qed

lemma fold_add_node:
  assumes "rs \<noteq> []" "unat (g_next_node g) + length rs < 2 ^ 64" "1 \<le> g_next_node g"
  shows "fold add_node rs g = set_nodes (g_next_node g) rs (take_node_ids (word_of_nat (length rs)) (mark_ready g))"
proof -
  have "add_node r (mark_ready g) = add_node r g" for r by (simp add: add_node_def mark_ready_def)
  then have "fold add_node rs g = fold add_node rs (mark_ready g)" using assms(1) by (cases rs) simp_all
  also have "\<dots> = take_node_ids (word_of_nat (length rs)) (set_nodes (g_next_node g) rs (mark_ready g))"
    using assms(2,3) fold_add_node_ready [of "mark_ready g" rs] by (simp add: mark_ready_def)
  finally show ?thesis by (simp add: set_nodes_take)
qed

lemma counter_after: "counter_is m k n \<Longrightarrow> unat n + unat c < 2 ^ 64 \<Longrightarrow> c \<noteq> 0 \<Longrightarrow> n < n + c \<and> 1 < n + c"
  by (auto simp: counter_is_def word_less_nat_alt unat_word_ariths word_unat_eq_iff)

lemma one_more: "n \<noteq> - 1 \<Longrightarrow> unat (n :: u64) + unat (1 :: u64) < 2 ^ 64"
proof (rule ccontr)
  assume "n \<noteq> - 1" and "\<not> unat n + unat (1 :: u64) < 2 ^ 64"
  then have "unat n = unat (- 1 :: u64)" using unat_widths_less(3) [of n] by (simp add: unsigned_minus_1_eq_mask mask_eq_exp_minus_1)
  then show False using \<open>n \<noteq> - 1\<close> by (metis word_unat_eq_iff)
qed

lemma take_node_ids_wf: "graph_wf g \<Longrightarrow> g_next_node g < g_next_node g + n \<Longrightarrow> graph_wf (take_node_ids n g)"
  unfolding graph_wf_def take_node_ids_def by (auto dest: less_trans)

lemma label_keys_new: "N i = None \<Longrightarrow> label_keys (N(i \<mapsto> r)) = insert (label_entry (nr_label r) i) (label_keys N)"
proof (intro set_eqI iffI)
  fix k assume "N i = None" "k \<in> insert (label_entry (nr_label r) i) (label_keys N)"
  then consider "k = label_entry (nr_label r) i" | j s where "N j = Some s" "j \<noteq> i" "k = label_entry (nr_label s) j"
    unfolding label_keys_def by fastforce
  then show "k \<in> label_keys (N(i \<mapsto> r))" by cases (auto simp: label_keys_def)
qed (auto simp: label_keys_def split: if_splits)

lemma label_keys_same:
  assumes "N i = Some r" "nr_label r' = nr_label r"
  shows "label_keys (N(i \<mapsto> r')) = label_keys N"
proof -
  have eq: "label_keys M = {k. \<exists>j l. map_option nr_label (M j) = Some l \<and> k = label_entry l j}" for M
    by (fastforce simp: label_keys_def)
  have "map_option nr_label ((N(i \<mapsto> r')) j) = map_option nr_label (N j)" for j using assms by simp
  then show ?thesis by (simp only: eq)
qed

context graph_store
begin

lemma gtxE:
  assumes "gtx C \<sigma> w g"
  obtains L where "graph_codecs_ok C" "inv w" "view w NODES = rows_of (node_codec C) (g_nodes g)"
    "view w EDGES = rows_of (edge_codec C) (g_edges g)" "view w ADJ_OUT = flags (out_keys (g_edges g))"
    "view w ADJ_IN = flags (in_keys (g_edges g))" "view w NODE_LABELS = flags L" "L \<subseteq> label_keys (g_nodes g)"
    "g_labels_ready g \<longrightarrow> L = label_keys (g_nodes g)" "view w NODE_PROPS = flags (prop_keys (g_nodes g) (g_indexes g))"
    "meta_ok (view w META) g" "graph_wf g" "off_graph \<sigma> (view w)"
  using assms unfolding graph_tx_def graph_view_def graph_repr_def by blast

lemma gtxI:
  assumes "graph_codecs_ok C" "inv w" "view w NODES = rows_of (node_codec C) (g_nodes g)"
    "view w EDGES = rows_of (edge_codec C) (g_edges g)" "view w ADJ_OUT = flags (out_keys (g_edges g))"
    "view w ADJ_IN = flags (in_keys (g_edges g))" "view w NODE_LABELS = flags L" "L \<subseteq> label_keys (g_nodes g)"
    "g_labels_ready g \<longrightarrow> L = label_keys (g_nodes g)" "view w NODE_PROPS = flags (prop_keys (g_nodes g) (g_indexes g))"
    "meta_ok (view w META) g" "graph_wf g" "off_graph \<sigma> (view w)"
  shows "gtx C \<sigma> w g"
  using assms unfolding graph_tx_def graph_view_def graph_repr_def by blast

lemma gtx_metaI:
  assumes "gtx C \<sigma> w g" "inv w'" "view w' = (view w)(META := m)" "meta_ok m g'" "graph_wf g'"
    and "g_nodes g' = g_nodes g" "g_edges g' = g_edges g" "g_indexes g' = g_indexes g"
    and "g_labels_ready g' \<Longrightarrow> g_labels_ready g \<or> label_keys (g_nodes g) = {}" "\<And>k. \<not> graph_key k \<Longrightarrow> m k = view w META k"
  shows "gtx C \<sigma> w' g'"
  using assms(1)
proof (rule gtxE, goal_cases)
  case (1 L)
  then show ?case using assms(2-) by (intro gtxI [of C w' g' L]) (auto intro: off_graph_meta)
qed

lemma before_first_nodes_wp:
  assumes "gtx C \<sigma> w g"
  shows "ok_with (before_first_nodes ops w) (\<lambda>w'. gtx C \<sigma> w' (mark_ready g))"
proof -
  have w: "inv w" "meta_ok (view w META) g" "graph_wf g" using assms by (auto elim: gtxE)
  have same: "mark_ready g = g" if "g_next_node g \<noteq> 1 \<or> g_labels_ready g"
    using that by (auto simp: mark_ready_def)
  show ?thesis
  proof (cases "view w META NEXT_NODE_ID_KEY = None \<and> \<not> g_labels_ready g")
    case True
    then have one: "g_next_node g = 1" using w(2) by (auto simp: meta_ok_def counter_is_def)
    then have first: "label_keys (g_nodes g) = {}" using w(3) by (fastforce simp: graph_wf_def label_keys_def)
    have "gtx C \<sigma> w' (mark_ready g)" if "inv w'" "view w' = (view w)(META := (view w META)(LABEL_INDEX_MARKER \<mapsto> [1]))" for w'
      using w(2,3) by (intro gtx_metaI [OF assms that]) (auto simp: first one mark_ready_def meta_ok_def counter_is_def graph_wf_def)
    then show ?thesis using True w(1,2) by (auto simp: before_first_nodes_def meta_ok_def intro!: put_wp)
  next
    case False
    then show ?thesis using w(1,2) assms same by (auto simp: before_first_nodes_def meta_ok_def counter_is_def)
  qed
qed

lemma reserve_node_ids_wp:
  assumes "gtx C \<sigma> w g" "count \<noteq> 0" "unat (g_next_node g) + unat count < 2 ^ 64"
  shows "ok_with (reserve_ids ops w NEXT_NODE_ID_KEY count) (\<lambda>(start, w'). start = g_next_node g \<and> gtx C \<sigma> w' (take_node_ids count g))"
proof -
  have w: "inv w" "meta_ok (view w META) g" "graph_wf g" using assms by (auto elim: gtxE)
  have nxt: "g_next_node g < g_next_node g + count \<and> 1 < g_next_node g + count"
    using w(2) counter_after [OF _ assms(3,2)] by (metis meta_ok_def)
  have "gtx C \<sigma> w' (take_node_ids count g)"
    if "inv w'" "view w' = (view w)(META := (view w META)(NEXT_NODE_ID_KEY \<mapsto> be64 (g_next_node g + count)))" for w'
    using w(2) nxt take_node_ids_wf [OF w(3)]
    by (intro gtx_metaI [OF assms(1) that]) (auto simp: take_node_ids_def meta_ok_def counter_is_def)
  then show ?thesis using w(1,2) assms(2) by (auto simp: reserve_ids_def meta_ok_def counter_is_def intro!: put_wp)
qed

lemma put_node_wp:
  assumes "gtx C \<sigma> w g" "g_nodes g i = None" "1 \<le> i" "i < g_next_node g" "node_ok r" "short (nr_label r)"
  shows "ok_with (put_node C ops w i r) (\<lambda>w'. gtx C \<sigma> w' (set_node i r g))"
  using assms(1)
proof (rule gtxE, goal_cases)
  case (1 L)
  obtain bs where bs: "serialize (node_codec C) r = Some bs" using 1(1) assms(5) by (rule node_codecE)
  obtain w1 where w1: "s_put ops w NODES (be64 i) bs = Ok w1" "inv w1"
      "view w1 = (view w)(NODES := rows_of (node_codec C) ((g_nodes g)(i \<mapsto> r)))"
    using putE [OF 1(2), of NODES "be64 i" bs] 1(3) bs by (auto simp: rows_of_upd)
  have "gtx C \<sigma> w' (set_node i r g)" if "inv w'" "view w' = (view w1)(NODE_LABELS := flags (insert (label_entry (nr_label r) i) L),
        NODE_PROPS := flags (prop_keys (g_nodes g) (g_indexes g) \<union> node_rows_of (g_indexes g) i r))" for w'
    using 1 that w1(3) assms
    by (intro gtxI [of C w' _ "insert (label_entry (nr_label r) i) L"])
      (auto simp: set_node_def label_keys_new prop_keys_upd meta_ok_def graph_wf_def)
  then show ?case
    using on_insert_wp [OF w1(2), of g r L "prop_keys (g_nodes g) (g_indexes g)" i] 1 w1 assms(6) bs
    by (auto simp: put_node_def encode_def node_key_def elim!: ok_with_mono)
qed


lemma create_node_wp:
  assumes "gtx C \<sigma> w g" "node_ok \<lparr>nr_label = l, nr_properties = ps\<rparr>" "short l" "g_next_node g \<noteq> - 1"
  shows "ok_with (create_node_in C ops w l ps) (\<lambda>(i, w'). i = g_next_node g \<and>
    gtx C \<sigma> w' (add_node \<lparr>nr_label = l, nr_properties = ps\<rparr> g))"
proof -
  let ?n = "g_next_node g" and ?r = "\<lparr>nr_label = l, nr_properties = ps\<rparr>"
  have room: "unat ?n + unat (1 :: u64) < 2 ^ 64"
    using assms(4) by (rule one_more)
  have put: "ok_with (put_node C ops w1 ?n ?r) (\<lambda>w'. gtx C \<sigma> w' (add_node ?r g))"
    if w1: "gtx C \<sigma> w1 (take_node_ids 1 (mark_ready g))" for w1
  proof -
    have "graph_wf g" "counter_is (view w META) NEXT_NODE_ID_KEY ?n" using assms(1) by (auto elim: gtxE simp: meta_ok_def)
    then have "g_nodes g ?n = None" "1 \<le> ?n" "?n < ?n + 1"
      using counter_after [OF _ room] by (auto simp: wf_fresh_node counter_is_def)
    then show ?thesis using put_node_wp [OF w1, of ?n ?r] assms(2,3)
      by (simp add: add_node_def set_node_def take_node_ids_def mark_ready_def)
  qed
  have "ok_with (next_id ops w1 NEXT_NODE_ID_KEY) (\<lambda>(i, w'). i = ?n \<and> gtx C \<sigma> w' (take_node_ids 1 (mark_ready g)))"
    if "gtx C \<sigma> w1 (mark_ready g)" for w1
    using reserve_node_ids_wp [OF that, of 1] room by (simp add: next_id_def mark_ready_def)
  then show ?thesis
    using before_first_nodes_wp [OF assms(1)] put
    by (fastforce simp: create_node_in_def elim!: ok_with_mono)
qed

lemma put_nodes_wp:
  assumes "gtx C \<sigma> w g" "\<forall>j\<ge>i. g_nodes g j = None" "1 \<le> i" "unat i + length items \<le> unat (g_next_node g)"
    and "\<forall>x\<in>set items. node_ok (item_node x) \<and> short (fst x)"
  shows "ok_with (put_nodes C ops i items w) (\<lambda>w'. gtx C \<sigma> w' (set_nodes i (map item_node items) g))"
  using assms
proof (induction items arbitrary: i w g)
  case (Cons x items)
  obtain l ps where x: "x = (l, ps)" by (cases x)
  let ?r = "\<lparr>nr_label = l, nr_properties = ps\<rparr>"
  have i: "unat i < unat (g_next_node g)" using Cons.prems(4) by simp
  then have u: "unat (i + 1) = unat i + 1" using unat_widths_less(3) [of "g_next_node g"] by (simp add: unat_word_ariths)
  have 1: "ok_with (put_node C ops w i ?r) (\<lambda>w'. gtx C \<sigma> w' (set_node i ?r g))"
    using Cons.prems i by (intro put_node_wp) (auto simp: x word_less_nat_alt)
  have 2: "ok_with (put_nodes C ops (i + 1) items w1) (\<lambda>w'. gtx C \<sigma> w' (set_nodes (i + 1) (map item_node items) (set_node i ?r g)))"
    if w1: "gtx C \<sigma> w1 (set_node i ?r g)" for w1
  proof (rule Cons.IH [OF w1])
    show "\<forall>j\<ge>i + 1. g_nodes (set_node i ?r g) j = None"
      using Cons.prems(2) u by (auto simp: set_node_def word_le_nat_alt)
  qed (use Cons.prems u in \<open>auto simp: set_node_def word_le_nat_alt\<close>)
  show ?case using ok_with_mono [OF 1 2] by (simp add: x)
qed simp

lemma create_nodes_bulk_wp:
  assumes "gtx C \<sigma> w g" "\<forall>x\<in>set items. node_ok (item_node x) \<and> short (fst x)"
    and "unat (g_next_node g) + length items < 2 ^ 64"
  shows "ok_with (create_nodes_bulk_in C ops w items) (\<lambda>(ids, w').
    ids = map (\<lambda>k. g_next_node g + word_of_nat k) [0..<length items] \<and> gtx C \<sigma> w' (fold add_node (map item_node items) g))"
proof (cases items)
  case Nil
  then show ?thesis using assms(1) by (simp add: create_nodes_bulk_in_def)
next
  case (Cons x xs)
  let ?n = "g_next_node g" and ?c = "word_of_nat (length items) :: u64"
  have c: "unat ?c = length items" using assms(3) by (simp add: unsigned_of_nat take_bit_nat_eq_self)
  then have c0: "?c \<noteq> 0" using Cons by (metis length_0_conv list.simps(3) unsigned_0)
  have "graph_wf g" "counter_is (view w META) NEXT_NODE_ID_KEY ?n" using assms(1) by (auto elim: gtxE simp: meta_ok_def)
  then have g: "\<forall>j\<ge>?n. g_nodes g j = None" "1 \<le> ?n" "unat (?n + ?c) = unat ?n + length items"
    using assms(3) c by (auto simp: wf_fresh_node counter_is_def unat_word_ariths)
  have res: "ok_with (reserve_ids ops w1 NEXT_NODE_ID_KEY ?c) (\<lambda>(s, w'). s = ?n \<and> gtx C \<sigma> w' (take_node_ids ?c (mark_ready g)))"
    if "gtx C \<sigma> w1 (mark_ready g)" for w1
    using reserve_node_ids_wp [OF that c0] assms(3) c by (simp add: mark_ready_def)
  have put: "ok_with (put_nodes C ops ?n items w1) (\<lambda>w'. gtx C \<sigma> w' (fold add_node (map item_node items) g))"
    if w1: "gtx C \<sigma> w1 (take_node_ids ?c (mark_ready g))" for w1
    using put_nodes_wp [OF w1, of ?n items] assms(2,3) g Cons fold_add_node [of "map item_node items" g]
    by (simp add: take_node_ids_def mark_ready_def)
  show ?thesis using before_first_nodes_wp [OF assms(1)] res put Cons
    by (fastforce simp: create_nodes_bulk_in_def elim!: ok_with_mono)
qed

lemma update_node_properties_wp:
  assumes "gtx C \<sigma> w g" "g_nodes g i = Some r" "node_ok (r\<lparr>nr_properties := f (nr_properties r)\<rparr>)"
  shows "ok_with (update_node_properties_in C ops w i f) (\<lambda>w'. gtx C \<sigma> w' (set_node i (r\<lparr>nr_properties := f (nr_properties r)\<rparr>) g))"
  using assms(1)
proof (rule gtxE, goal_cases)
  case (1 L)
  let ?r = "r\<lparr>nr_properties := f (nr_properties r)\<rparr>" and ?S = "prop_keys (g_nodes g) (g_indexes g)"
  have r: "node_ok r" "short (nr_label r)" "1 \<le> i" "i < g_next_node g" using wf_nodeD [OF 1(12) assms(2)] by auto
  obtain bs where bs: "serialize (node_codec C) r = Some bs" "deserialize (node_codec C) bs = Some r" using 1(1) r(1) by (rule node_codecE)
  obtain bs' where bs': "serialize (node_codec C) ?r = Some bs'" using 1(1) assms(3) by (rule node_codecE)
  have "node_rows_of (g_indexes g) i r \<subseteq> ?S" using assms(2) by (auto simp: prop_keys_def)
  then have 2: "ok_with (on_update ops w i r ?r) (\<lambda>w'. inv w' \<and> view w' = (view w)(NODE_PROPS :=
      flags (?S - node_rows_of (g_indexes g) i r \<union> node_rows_of (g_indexes g) i ?r)))"
    using 1 r(2) by (intro on_update_wp) auto
  have keys: "label_keys ((g_nodes g)(i \<mapsto> ?r)) = label_keys (g_nodes g)"
    using assms(2) by (rule label_keys_same) simp
  have "gtx C \<sigma> w' (set_node i ?r g)" if "inv w'" "view w' = (view w)(NODE_PROPS :=
      flags (?S - node_rows_of (g_indexes g) i r \<union> node_rows_of (g_indexes g) i ?r), NODES := (view w NODES)(be64 i \<mapsto> bs'))" for w'
    using 1 that assms r keys bs'
    by (intro gtxI [of C w' _ L]) (auto simp: set_node_def prop_keys_upd rows_of_upd meta_ok_def graph_wf_def)
  then have "ok_with (s_put ops w1 NODES (be64 i) bs') (\<lambda>w'. gtx C \<sigma> w' (set_node i ?r g))"
    if "inv w1" "view w1 = (view w)(NODE_PROPS := flags (?S - node_rows_of (g_indexes g) i r \<union> node_rows_of (g_indexes g) i ?r))" for w1
    using that by (auto intro!: put_wp)
  then show ?case using 1 2 bs bs' assms(2)
    by (auto simp: update_node_properties_in_def node_key_def decode_def encode_def Let_def elim!: ok_with_mono)
qed

lemma update_node_missing:
  "gtx C \<sigma> w g \<Longrightarrow> g_nodes g i = None \<Longrightarrow> update_node_properties_in C ops w i f = Err NotFound"
  by (erule gtxE) (simp add: update_node_properties_in_def node_key_def)

end

context graph_read
begin

lemma get_node_view: "gread C r g \<Longrightarrow> get_node_in C ops r i = Ok (g_nodes g i)"
proof -
  assume "gread C r g"
  then have r: "graph_codecs_ok C" "inv r" "view r NODES = rows_of (node_codec C) (g_nodes g)" "graph_wf g"
    by (auto simp: graph_view_def graph_repr_def)
  show ?thesis
  proof (cases "g_nodes g i")
    case None
    then show ?thesis using r by (simp add: get_node_in_def node_key_def)
  next
    case (Some x)
    obtain bs where "serialize (node_codec C) x = Some bs" "deserialize (node_codec C) bs = Some x"
      using r(1) wf_nodeD [OF r(4) Some] by (auto elim: node_codecE)
    then show ?thesis using r Some by (simp add: get_node_in_def node_key_def decode_def)
  qed
qed

end

end
