(* ===== verification/Graph_Edges.thy ===== *)
theory Graph_Edges
  imports Graph_Nodes
begin

text \<open>
  Creating, reading and deleting edges, deleting nodes, and the neighbour scans. The two adjacency
  tables are handled together: in the table \<open>t\<close> an edge is filed under its \<open>near\<close> endpoint.
\<close>

section \<open>Adjacency rows\<close>

definition near :: "table \<Rightarrow> edge_record \<Rightarrow> node_id" where
  "near t r = (if t = ADJ_OUT then er_from r else er_to r)"

definition far :: "table \<Rightarrow> edge_record \<Rightarrow> node_id" where
  "far t r = (if t = ADJ_OUT then er_to r else er_from r)"

definition adj_row :: "table \<Rightarrow> (edge_id \<rightharpoonup> edge_record) \<Rightarrow> edge_id \<Rightarrow> bytes" where
  "adj_row t E e = encode_adj_key (near t (the (E e))) (er_edge_type (the (E e))) (far t (the (E e))) e"

lemma out_in_keys:
  "out_keys E = adj_row ADJ_OUT E ` dom E" "in_keys E = adj_row ADJ_IN E ` dom E"
  by (force simp: out_keys_def in_keys_def adj_row_def adj_out_key_def adj_in_key_def near_def far_def image_iff)+

abbreviation adj_table :: "table \<Rightarrow> bool" where
  "adj_table t \<equiv> t = ADJ_OUT \<or> t = ADJ_IN"

definition key_edge :: "bytes \<Rightarrow> edge_id" where
  "key_edge k = of_be64 (drop (length k - 8) k)"

lemma key_edge_adj [simp]: "key_edge (encode_adj_key a l b e) = e"
  by (simp add: key_edge_def encode_adj_key_def encode_edge_type_def)

lemma key_edge_row [simp]: "key_edge (adj_row t E e) = e"
  by (simp add: adj_row_def)

lemma adj_row_inject: "adj_row t E e = adj_row t E' e' \<Longrightarrow> e = e'"
  by (metis key_edge_row)

lemma adj_row_upd: "adj_row t (E(e \<mapsto> r)) ` dom (E(e \<mapsto> r)) = insert (encode_adj_key (near t r) (er_edge_type r) (far t r) e) (adj_row t E ` (dom E - {e}))"
proof -
  have "adj_row t (E(e \<mapsto> r)) x = adj_row t E x" if "x \<noteq> e" for x using that by (simp add: adj_row_def)
  then have "adj_row t (E(e \<mapsto> r)) ` (dom E - {e}) = adj_row t E ` (dom E - {e})" by (intro image_cong) auto
  moreover have d: "dom (E(e \<mapsto> r)) = insert e (dom E - {e})" by auto
  ultimately show ?thesis unfolding d image_insert by (simp add: adj_row_def [of _ _ e])
qed

lemma adj_row_del: "adj_row t (E(e := None)) ` dom (E(e := None)) = adj_row t E ` dom E - {adj_row t E e}"
proof -
  have "adj_row t (E(e := None)) x = adj_row t E x" if "x \<noteq> e" for x using that by (simp add: adj_row_def)
  then have "adj_row t (E(e := None)) ` (dom E - {e}) = adj_row t E ` (dom E - {e})" by (intro image_cong) auto
  also have "\<dots> = adj_row t E ` dom E - {adj_row t E e}" by (auto dest: adj_row_inject)
  finally show ?thesis by simp
qed

context graph_read
begin

lemma node_stored:
  assumes "gread C r g"
  shows "view r NODES (be64 i) = None \<longleftrightarrow> g_nodes g i = None"
proof (cases "g_nodes g i")
  case (Some x)
  then have "graph_codecs_ok C" "node_ok x" using assms wf_nodeD [of g i x] by (auto simp: graph_view_def graph_repr_def)
  then obtain bs where "serialize (node_codec C) x = Some bs" by (rule node_codecE)
  then show ?thesis using Some assms by (simp add: graph_view_def graph_repr_def)
qed (use assms in \<open>simp add: graph_view_def graph_repr_def\<close>)

lemma edge_stored:
  assumes "gread C r g" "g_edges g e = Some x"
  obtains bs where "view r EDGES (be64 e) = Some bs" "deserialize (edge_codec C) bs = Some x"
proof -
  have "graph_codecs_ok C" "edge_ok x" using assms wf_edgeD [of g e x] by (auto simp: graph_view_def graph_repr_def)
  then obtain bs where "serialize (edge_codec C) x = Some bs" "deserialize (edge_codec C) bs = Some x" by (rule edge_codecE)
  then show ?thesis using assms by (intro that [of bs]) (simp_all add: graph_view_def graph_repr_def)
qed

lemma get_edge_view:
  assumes "gread C r g"
  shows "get_edge_in C ops r e = Ok (g_edges g e)"
proof (cases "g_edges g e")
  case (Some x)
  then obtain bs where "view r EDGES (be64 e) = Some bs" "deserialize (edge_codec C) bs = Some x"
    using assms edge_stored by blast
  then show ?thesis using assms Some by (simp add: get_edge_in_def edge_key_def decode_def graph_view_def)
qed (use assms in \<open>simp add: get_edge_in_def edge_key_def graph_view_def graph_repr_def\<close>)

lemma adj_view: "gread C r g \<Longrightarrow> adj_table t \<Longrightarrow> view r t = flags (adj_row t (g_edges g) ` dom (g_edges g))"
  by (auto simp: graph_view_def graph_repr_def out_in_keys)

lemma adj_rows:
  assumes "gread C r g" "adj_table t"
  shows "\<exists>es. s_range ops r t lo hi = Ok (map (\<lambda>e. (adj_row t (g_edges g) e, [])) es) \<and>
    sorted_wrt (<) (map (adj_row t (g_edges g)) es) \<and> set es = {e \<in> dom (g_edges g). in_range lo hi (adj_row t (g_edges g) e)}"
proof -
  let ?k = "adj_row t (g_edges g)"
  have "inv r" "tbl_ok t" using assms by (auto simp: graph_view_def intro: reserved_ok)
  then obtain xs where xs: "s_range ops r t lo hi = Ok xs" "range_of (flags (?k ` dom (g_edges g))) lo hi xs"
    using rangeE [of r t lo hi] adj_view [OF assms] by metis
  have mem: "(k, v) \<in> set xs \<longleftrightarrow> in_range lo hi k \<and> k \<in> ?k ` dom (g_edges g) \<and> v = []" for k v
    using range_of_mem [OF xs(2)] by simp
  let ?es = "map (key_edge \<circ> fst) xs"
  have "\<forall>x\<in>set xs. (?k (key_edge (fst x)), []) = x" using mem by (force simp del: split_paired_All)
  then have eq: "map (\<lambda>e. (?k e, [])) ?es = xs" by (simp add: comp_def map_idI)
  moreover have keys: "map ?k ?es = map fst xs" by (subst (2) eq [symmetric]) (simp add: comp_def)
  moreover have "set ?es = {e \<in> dom (g_edges g). in_range lo hi (?k e)}"
  proof (intro set_eqI iffI)
    fix e assume "e \<in> set ?es"
    then obtain k v where "(k, v) \<in> set xs" "e = key_edge k" by auto
    then show "e \<in> {e \<in> dom (g_edges g). in_range lo hi (?k e)}" using mem by auto
  next
    fix e assume "e \<in> {e \<in> dom (g_edges g). in_range lo hi (?k e)}"
    then have "(?k e, []) \<in> set xs" using mem by auto
    then show "e \<in> set ?es" by (force simp: image_iff)
  qed
  moreover have "sorted_wrt (<) (map fst xs)" using xs(2) by (simp add: range_of_def)
  ultimately show ?thesis using xs(1) by (intro exI [of _ ?es] conjI) (simp_all only: eq keys)
qed

lemma decode_row:
  assumes "graph_wf g" "g_edges g e = Some x"
  shows "decode_adj_key (adj_row t (g_edges g) e) = Ok (near t x, er_edge_type x, far t x, e)"
  using wf_edgeD [OF assms] by (simp add: adj_row_def assms(2) edge_ok_def)

lemma node_rows_wp:
  assumes "gread C r g" "adj_table t"
  shows "\<exists>es. node_rows ops r t i = Ok (map (\<lambda>e. (adj_row t (g_edges g) e, [])) es) \<and>
    sorted_wrt (<) (map (adj_row t (g_edges g)) es) \<and> set es = {e. \<exists>x. g_edges g e = Some x \<and> near t x = i}"
proof -
  let ?lo = "Included (node_key i)" and ?hi = "node_hi i" and ?k = "adj_row t (g_edges g)"
  have rows: "node_rows ops r t i = s_range ops r t ?lo ?hi"
    by (simp add: node_rows_def node_hi_def split: option.split)
  have "in_range ?lo ?hi (?k e) \<longleftrightarrow> near t (the (g_edges g e)) = i" for e
    by (simp add: adj_row_def encode_adj_key_def in_range_node_prefix)
  then have "{e \<in> dom (g_edges g). in_range ?lo ?hi (?k e)} = {e. \<exists>x. g_edges g e = Some x \<and> near t x = i}" by force
  with adj_rows [OF assms, of ?lo ?hi] show ?thesis unfolding rows by (elim exE conjE) (intro exI conjI; simp)
qed

lemma typed_rows_wp:
  assumes "gread C r g" "adj_table t" "short l"
  shows "\<exists>es. s_range ops r t (Included (adj_type_prefix i l)) (Included (adj_type_upper_bound i l)) =
      Ok (map (\<lambda>e. (adj_row t (g_edges g) e, [])) es) \<and> sorted_wrt (<) (map (adj_row t (g_edges g)) es) \<and>
    set es = {e. \<exists>x. g_edges g e = Some x \<and> near t x = i \<and> er_edge_type x = l}"
proof -
  have "graph_wf g" using assms(1) by (simp add: graph_view_def graph_repr_def)
  then have "in_range (Included (adj_type_prefix i l)) (Included (adj_type_upper_bound i l)) (adj_row t (g_edges g) e) \<longleftrightarrow>
      near t x = i \<and> er_edge_type x = l" if "g_edges g e = Some x" for e x
    using wf_edgeD [OF _ that] that assms(3) by (simp add: adj_row_def in_range_adj_type)
  then have "{e \<in> dom (g_edges g). in_range (Included (adj_type_prefix i l)) (Included (adj_type_upper_bound i l)) (adj_row t (g_edges g) e)}
      = {e. \<exists>x. g_edges g e = Some x \<and> near t x = i \<and> er_edge_type x = l}" by auto
  then show ?thesis
    using adj_rows [OF assms(1,2), of "Included (adj_type_prefix i l)" "Included (adj_type_upper_bound i l)"] by simp
qed

text \<open>Neighbours of one type come in ascending order of neighbour and edge id.\<close>

lemma neighbors_typed_view:
  assumes "gread C r g" "adj_table t" "short l"
  shows "\<exists>ns. neighbors_typed ops r t i l = Ok ns \<and> sorted_wrt (<) ns \<and>
    set ns = {(j, e). \<exists>x. g_edges g e = Some x \<and> near t x = i \<and> er_edge_type x = l \<and> far t x = j}"
proof -
  have wf: "graph_wf g" using assms(1) by (simp add: graph_view_def graph_repr_def)
  obtain es where es: "s_range ops r t (Included (adj_type_prefix i l)) (Included (adj_type_upper_bound i l)) =
      Ok (map (\<lambda>e. (adj_row t (g_edges g) e, [])) es)" "sorted_wrt (<) (map (adj_row t (g_edges g)) es)"
      "set es = {e. \<exists>x. g_edges g e = Some x \<and> near t x = i \<and> er_edge_type x = l}"
    using typed_rows_wp [OF assms] by blast
  let ?f = "\<lambda>e. (far t (the (g_edges g e)), e)"
  have "traverse (\<lambda>(k, _). bind_res (decode_adj_key k) (\<lambda>(_, _, second, e). Ok (second, e))) (map (\<lambda>e. (adj_row t (g_edges g) e, [])) es)
      = traverse (\<lambda>e. Ok (?f e)) es"
    using es(3) decode_row [OF wf] by (auto simp: traverse_map intro!: traverse_cong)
  then have "neighbors_typed ops r t i l = Ok (map ?f es)" using es(1) by (simp add: neighbors_typed_def traverse_Ok)
  moreover have "sorted_wrt (<) (map ?f es)"
  proof -
    have "?f e < ?f e'" if "e \<in> set es" "e' \<in> set es" "adj_row t (g_edges g) e < adj_row t (g_edges g) e'" for e e'
      using that es(3) by (auto simp: adj_row_def encode_adj_key_def less_append_iff_same_length)
    then show ?thesis using es(2) by (auto simp: sorted_wrt_map elim!: sorted_wrt_mono_rel [rotated])
  qed
  moreover have "set (map ?f es) = {(j, e). \<exists>x. g_edges g e = Some x \<and> near t x = i \<and> er_edge_type x = l \<and> far t x = j}"
    using es(3) by (auto simp: image_iff)
  ultimately show ?thesis by blast
qed

lemma neighbors_any_view:
  assumes "gread C r g" "adj_table t"
  shows "\<exists>ns. neighbors_any_in ops r t i = Ok ns \<and> distinct ns \<and>
    set ns = {(l, j, e). \<exists>x. g_edges g e = Some x \<and> near t x = i \<and> er_edge_type x = l \<and> far t x = j}"
proof -
  have wf: "graph_wf g" using assms(1) by (simp add: graph_view_def graph_repr_def)
  obtain es where es: "node_rows ops r t i = Ok (map (\<lambda>e. (adj_row t (g_edges g) e, [])) es)"
      "sorted_wrt (<) (map (adj_row t (g_edges g)) es)" "set es = {e. \<exists>x. g_edges g e = Some x \<and> near t x = i}"
    using node_rows_wp [OF assms] by blast
  let ?f = "\<lambda>e. (er_edge_type (the (g_edges g e)), far t (the (g_edges g e)), e)"
  have "traverse (\<lambda>(k, _). bind_res (decode_adj_key k) (\<lambda>(_, l, second, e). Ok (l, second, e))) (map (\<lambda>e. (adj_row t (g_edges g) e, [])) es)
      = traverse (\<lambda>e. Ok (?f e)) es"
    using es(3) decode_row [OF wf] by (auto simp: traverse_map intro!: traverse_cong)
  then have "neighbors_any_in ops r t i = Ok (map ?f es)" using es(1) by (simp add: neighbors_any_in_def traverse_Ok)
  moreover have "distinct (map ?f es)"
  proof -
    have "distinct es" using es(2) distinct_map strict_sorted_iff by blast
    then show ?thesis by (simp add: distinct_map inj_on_def)
  qed
  moreover have "set (map ?f es) = {(l, j, e). \<exists>x. g_edges g e = Some x \<and> near t x = i \<and> er_edge_type x = l \<and> far t x = j}"
    using es(3) by (auto simp: image_iff)
  ultimately show ?thesis by blast
qed

end

section \<open>The abstract operations\<close>

definition set_edge :: "edge_id \<Rightarrow> edge_record \<Rightarrow> graph \<Rightarrow> graph" where
  "set_edge e r g = g\<lparr>g_edges := (g_edges g)(e \<mapsto> r)\<rparr>"

definition take_edge_ids :: "u64 \<Rightarrow> graph \<Rightarrow> graph" where
  "take_edge_ids n g = g\<lparr>g_next_edge := g_next_edge g + n\<rparr>"

definition add_edge :: "edge_record \<Rightarrow> graph \<Rightarrow> graph" where
  "add_edge r g = set_edge (g_next_edge g) r (take_edge_ids 1 g)"

fun set_edges :: "edge_id \<Rightarrow> edge_record list \<Rightarrow> graph \<Rightarrow> graph" where
  "set_edges e [] g = g"
| "set_edges e (r # rs) g = set_edges (e + 1) rs (set_edge e r g)"

definition del_edge :: "edge_id \<Rightarrow> graph \<Rightarrow> graph" where
  "del_edge e g = g\<lparr>g_edges := (g_edges g)(e := None)\<rparr>"

definition del_edges :: "edge_id set \<Rightarrow> graph \<Rightarrow> graph" where
  "del_edges X g = g\<lparr>g_edges := g_edges g |` (- X)\<rparr>"

abbreviation item_edge :: "node_id \<times> string \<times> node_id \<times> properties \<Rightarrow> edge_record" where
  "item_edge x \<equiv> (case x of (a, l, b, ps) \<Rightarrow> \<lparr>er_from = a, er_to = b, er_edge_type = l, er_properties = ps\<rparr>)"

text \<open>Deleting a node takes every edge that touches it along.\<close>

definition touching :: "node_id \<Rightarrow> graph \<Rightarrow> edge_id set" where
  "touching i g = {e. \<exists>x. g_edges g e = Some x \<and> (er_from x = i \<or> er_to x = i)}"

definition del_node :: "node_id \<Rightarrow> graph \<Rightarrow> graph" where
  "del_node i g = (del_edges (touching i g) g)\<lparr>g_nodes := (g_nodes g)(i := None)\<rparr>"

lemma set_edge_take: "set_edge e r (take_edge_ids n g) = take_edge_ids n (set_edge e r g)"
  by (cases g) (simp add: set_edge_def take_edge_ids_def)

lemma set_edges_take: "set_edges e rs (take_edge_ids n g) = take_edge_ids n (set_edges e rs g)"
  by (induction rs arbitrary: e g) (simp_all add: set_edge_take)

lemma fold_add_edge: "fold add_edge rs g = set_edges (g_next_edge g) rs (take_edge_ids (word_of_nat (length rs)) g)"
proof (induction rs arbitrary: g)
  case (Cons r rs)
  have "g_next_edge (add_edge r g) = g_next_edge g + 1" by (simp add: add_edge_def set_edge_def take_edge_ids_def)
  then show ?case using Cons.IH [of "add_edge r g"]
    by (simp add: add_edge_def set_edge_take set_edges_take) (simp add: take_edge_ids_def algebra_simps)
qed (simp add: take_edge_ids_def)

lemma take_edge_ids_wf: "graph_wf g \<Longrightarrow> g_next_edge g < g_next_edge g + n \<Longrightarrow> graph_wf (take_edge_ids n g)"
  unfolding graph_wf_def take_edge_ids_def by simp (meson less_trans)

lemma label_keys_del:
  assumes "graph_wf g" "g_nodes g i = Some r"
  shows "label_keys ((g_nodes g)(i := None)) = label_keys (g_nodes g) - {label_entry (nr_label r) i}"
proof -
  have "label_entry (nr_label s) j \<noteq> label_entry (nr_label r) i" if "g_nodes g j = Some s" "j \<noteq> i" for j s
    using that wf_nodeD [OF assms(1)] assms(2) label_entry_inject by blast
  moreover have "k \<in> label_keys ((g_nodes g)(i := None))" if k: "k \<in> label_keys (g_nodes g)" "k \<noteq> label_entry (nr_label r) i" for k
  proof -
    obtain j s where "g_nodes g j = Some s" "k = label_entry (nr_label s) j" using k(1) by (auto simp: label_keys_def)
    moreover from this have "j \<noteq> i" using k(2) assms(2) by auto
    ultimately show ?thesis by (auto simp: label_keys_def)
  qed
  moreover have "k \<in> label_keys (g_nodes g) - {label_entry (nr_label r) i}" if "k \<in> label_keys ((g_nodes g)(i := None))" for k
    using that calculation(1) by (auto simp: label_keys_def split: if_splits)
  ultimately show ?thesis by blast
qed

context graph_store
begin

lemma gtx_gread: "gtx C \<sigma> w g \<Longrightarrow> gread C w g"
  by (simp add: graph_tx_def)

lemma gtx_edgesI:
  assumes "gtx C \<sigma> w g" "inv w'" "graph_wf (g\<lparr>g_edges := E\<rparr>)"
    and "view w' = (view w)(EDGES := rows_of (edge_codec C) E, ADJ_OUT := flags (adj_row ADJ_OUT E ` dom E), ADJ_IN := flags (adj_row ADJ_IN E ` dom E))"
  shows "gtx C \<sigma> w' (g\<lparr>g_edges := E\<rparr>)"
  using assms(1)
proof (rule gtxE, goal_cases)
  case (1 L)
  then show ?case using assms(2-) by (intro gtxI [of C w' _ L]) (auto simp: out_in_keys meta_ok_def)
qed

lemma reserve_edge_ids_wp:
  assumes "gtx C \<sigma> w g" "count \<noteq> 0" "unat (g_next_edge g) + unat count < 2 ^ 64"
  shows "ok_with (reserve_ids ops w NEXT_EDGE_ID_KEY count) (\<lambda>(start, w'). start = g_next_edge g \<and> gtx C \<sigma> w' (take_edge_ids count g))"
proof -
  have w: "inv w" "meta_ok (view w META) g" "graph_wf g" using assms by (auto elim: gtxE)
  have nxt: "g_next_edge g < g_next_edge g + count \<and> 1 < g_next_edge g + count"
    using w(2) counter_after [OF _ assms(3,2)] by (metis meta_ok_def)
  have "gtx C \<sigma> w' (take_edge_ids count g)"
    if "inv w'" "view w' = (view w)(META := (view w META)(NEXT_EDGE_ID_KEY \<mapsto> be64 (g_next_edge g + count)))" for w'
    using w(2) nxt take_edge_ids_wf [OF w(3)]
    by (intro gtx_metaI [OF assms(1) that]) (auto simp: take_edge_ids_def meta_ok_def counter_is_def)
  then show ?thesis using w(1,2) assms(2) by (auto simp: reserve_ids_def meta_ok_def counter_is_def intro!: put_wp)
qed

lemma put_edge_wp:
  assumes "gtx C \<sigma> w g" "g_edges g e = None" "1 \<le> e" "e < g_next_edge g" "edge_ok r" "short (er_edge_type r)"
    and "g_nodes g (er_from r) \<noteq> None" "g_nodes g (er_to r) \<noteq> None"
  shows "ok_with (put_edge C ops w e r) (\<lambda>w'. gtx C \<sigma> w' (set_edge e r g))"
  using assms(1)
proof (rule gtxE, goal_cases)
  case (1 L)
  let ?E = "g_edges g"
  obtain bs where bs: "serialize (edge_codec C) r = Some bs" using 1(1) assms(5) by (rule edge_codecE)
  have wf: "graph_wf (g\<lparr>g_edges := ?E(e \<mapsto> r)\<rparr>)" using 1(12) assms(3-) by (auto simp: graph_wf_def)
  have d: "dom ?E - {e} = dom ?E" using assms(2) by auto
  have "gtx C \<sigma> w' (set_edge e r g)" if "inv w'" "view w' = (view w)(EDGES := (view w EDGES)(be64 e \<mapsto> bs),
      ADJ_OUT := (view w ADJ_OUT)(adj_out_key (er_from r) (er_edge_type r) (er_to r) e \<mapsto> []),
      ADJ_IN := (view w ADJ_IN)(adj_in_key (er_to r) (er_edge_type r) (er_from r) e \<mapsto> []))" for w'
    unfolding set_edge_def
    by (rule gtx_edgesI [OF assms(1) that(1) wf], unfold adj_row_upd d)
      (simp add: that(2) 1(4-6) rows_of_upd(1) [OF bs] out_in_keys near_def far_def adj_out_key_def adj_in_key_def)
  then show ?case using 1(2) bs by (auto simp: put_edge_def encode_def edge_key_def intro!: put_wp)
qed

lemma create_edge_wp:
  assumes "gtx C \<sigma> w g" "edge_ok \<lparr>er_from = a, er_to = b, er_edge_type = l, er_properties = ps\<rparr>" "short l" "g_next_edge g \<noteq> - 1"
    and "g_nodes g a \<noteq> None" "g_nodes g b \<noteq> None"
  shows "ok_with (create_edge_in C ops w a l b ps) (\<lambda>(e, w'). e = g_next_edge g \<and>
    gtx C \<sigma> w' (add_edge \<lparr>er_from = a, er_to = b, er_edge_type = l, er_properties = ps\<rparr> g))"
proof -
  let ?n = "g_next_edge g" and ?r = "\<lparr>er_from = a, er_to = b, er_edge_type = l, er_properties = ps\<rparr>"
  have g: "graph_wf g" "counter_is (view w META) NEXT_EDGE_ID_KEY ?n" "inv w" using assms(1) by (auto elim: gtxE simp: meta_ok_def)
  then have "g_edges g ?n = None" "1 \<le> ?n" "?n < ?n + 1"
    using counter_after [OF _ one_more [OF assms(4)]] by (auto simp: wf_fresh_edge counter_is_def)
  then have put: "ok_with (put_edge C ops w1 ?n ?r) (\<lambda>w'. gtx C \<sigma> w' (add_edge ?r g))"
    if "gtx C \<sigma> w1 (take_edge_ids 1 g)" for w1
    using put_edge_wp [OF that, of ?n ?r] assms(2-) by (simp add: add_edge_def take_edge_ids_def)
  have "view w NODES (be64 a) \<noteq> None" "view w NODES (be64 b) \<noteq> None"
    using assms(5,6) node_stored [OF gtx_gread [OF assms(1)]] by simp_all
  then show ?thesis
    using reserve_edge_ids_wp [OF assms(1), of 1] one_more [OF assms(4)] put g(3)
    by (fastforce simp: create_edge_in_def node_key_def next_id_def elim!: ok_with_mono)
qed

lemma create_edge_missing:
  assumes "gtx C \<sigma> w g" "g_nodes g a = None \<or> g_nodes g b = None"
  shows "create_edge_in C ops w a l b ps = Err NotFound"
  using assms by (elim gtxE) (auto simp: create_edge_in_def node_key_def)

lemma verify_node_wp:
  assumes "gtx C \<sigma> w g" "\<forall>j\<in>set verified. g_nodes g j \<noteq> None"
  shows "verify_node ops w verified i = (if g_nodes g i = None then Err NotFound else Ok (if i \<in> set verified then verified else i # verified))"
proof -
  have "inv w" using assms(1) by (auto elim: gtxE)
  then show ?thesis using assms(2) node_stored [OF gtx_gread [OF assms(1)], of i] by (auto simp: verify_node_def node_key_def)
qed

lemma put_edges_wp:
  assumes "gtx C \<sigma> w g" "\<forall>j\<ge>e. g_edges g j = None" "1 \<le> e" "unat e + length items \<le> unat (g_next_edge g)"
    and "\<forall>j\<in>set verified. g_nodes g j \<noteq> None"
    and "\<forall>x\<in>set items. edge_ok (item_edge x) \<and> short (er_edge_type (item_edge x)) \<and>
      g_nodes g (er_from (item_edge x)) \<noteq> None \<and> g_nodes g (er_to (item_edge x)) \<noteq> None"
  shows "ok_with (put_edges C ops e verified items w) (\<lambda>w'. gtx C \<sigma> w' (set_edges e (map item_edge items) g))"
  using assms
proof (induction items arbitrary: e w g verified)
  case (Cons x items)
  obtain a l b ps where x: "x = (a, l, b, ps)" by (cases x)
  let ?r = "item_edge x"
  have e: "unat e < unat (g_next_edge g)" using Cons.prems(4) by simp
  then have u: "unat (e + 1) = unat e + 1" using unat_widths_less(3) [of "g_next_edge g"] by (simp add: unat_word_ariths)
  have 1: "ok_with (put_edge C ops w e ?r) (\<lambda>w'. gtx C \<sigma> w' (set_edge e ?r g))"
    using Cons.prems e by (intro put_edge_wp) (auto simp: word_less_nat_alt)
  obtain vs where vs: "bind_res (verify_node ops w verified a) (\<lambda>v. verify_node ops w v b) = Ok vs" "\<forall>j\<in>set vs. g_nodes g j \<noteq> None"
    using Cons.prems(6) verify_node_wp [OF Cons.prems(1)] Cons.prems(5) by (auto simp: x)
  have 2: "ok_with (put_edges C ops (e + 1) vs items w1) (\<lambda>w'. gtx C \<sigma> w' (set_edges (e + 1) (map item_edge items) (set_edge e ?r g)))"
    if w1: "gtx C \<sigma> w1 (set_edge e ?r g)" for w1
  proof (rule Cons.IH [OF w1])
    show "\<forall>j\<ge>e + 1. g_edges (set_edge e ?r g) j = None"
      using Cons.prems(2) u by (auto simp: set_edge_def word_le_nat_alt)
  qed (use Cons.prems u vs(2) in \<open>auto simp: set_edge_def word_le_nat_alt\<close>)
  have "put_edges C ops e verified (x # items) w = bind_res (bind_res (verify_node ops w verified a) (\<lambda>v. verify_node ops w v b))
      (\<lambda>vs. bind_res (put_edge C ops w e ?r) (\<lambda>w. put_edges C ops (e + 1) vs items w))"
    by (simp add: x bind_res_assoc)
  then show ?case using ok_with_mono [OF 1 2] vs(1) by simp
qed simp

lemma create_edges_bulk_wp:
  assumes "gtx C \<sigma> w g" "unat (g_next_edge g) + length items < 2 ^ 64"
    and "\<forall>x\<in>set items. edge_ok (item_edge x) \<and> short (er_edge_type (item_edge x)) \<and>
      g_nodes g (er_from (item_edge x)) \<noteq> None \<and> g_nodes g (er_to (item_edge x)) \<noteq> None"
  shows "ok_with (create_edges_bulk_in C ops w items) (\<lambda>(ids, w').
    ids = map (\<lambda>k. g_next_edge g + word_of_nat k) [0..<length items] \<and> gtx C \<sigma> w' (fold add_edge (map item_edge items) g))"
proof (cases items)
  case Nil
  then show ?thesis using assms(1) by (simp add: create_edges_bulk_in_def)
next
  case (Cons x xs)
  let ?n = "g_next_edge g" and ?c = "word_of_nat (length items) :: u64"
  have c: "unat ?c = length items" using assms(2) by (simp add: unsigned_of_nat take_bit_nat_eq_self)
  then have c0: "?c \<noteq> 0" using Cons by (metis length_0_conv list.simps(3) unsigned_0)
  have "graph_wf g" "counter_is (view w META) NEXT_EDGE_ID_KEY ?n" using assms(1) by (auto elim: gtxE simp: meta_ok_def)
  then have g: "\<forall>j\<ge>?n. g_edges g j = None" "1 \<le> ?n" "unat (?n + ?c) = unat ?n + length items"
    using assms(2) c by (auto simp: wf_fresh_edge counter_is_def unat_word_ariths)
  have put: "ok_with (put_edges C ops ?n [] items w1) (\<lambda>w'. gtx C \<sigma> w' (fold add_edge (map item_edge items) g))"
    if w1: "gtx C \<sigma> w1 (take_edge_ids ?c g)" for w1
    using put_edges_wp [OF w1, of ?n items "[]"] assms(3) g fold_add_edge [of "map item_edge items" g]
    by (simp add: take_edge_ids_def)
  show ?thesis using reserve_edge_ids_wp [OF assms(1) c0] assms(2) c put Cons
    by (fastforce simp: create_edges_bulk_in_def elim!: ok_with_mono)
qed

text \<open>A batch with an edge to a missing node fails.\<close>

lemma put_edges_missing:
  assumes "gtx C \<sigma> w g" "\<forall>j\<ge>e. g_edges g j = None" "1 \<le> e" "unat e + length items \<le> unat (g_next_edge g)"
    and "\<forall>j\<in>set verified. g_nodes g j \<noteq> None" "\<forall>x\<in>set items. edge_ok (item_edge x) \<and> short (er_edge_type (item_edge x))"
    and "\<exists>x\<in>set items. g_nodes g (er_from (item_edge x)) = None \<or> g_nodes g (er_to (item_edge x)) = None"
  shows "put_edges C ops e verified items w = Err NotFound"
  using assms
proof (induction items arbitrary: e w g verified)
  case (Cons x items)
  obtain a l b ps where x: "x = (a, l, b, ps)" by (cases x)
  let ?r = "item_edge x"
  note ver = verify_node_wp [OF Cons.prems(1)]
  show ?case
  proof (cases "g_nodes g a = None \<or> g_nodes g b = None")
    case True
    then show ?thesis using ver Cons.prems(5) by (auto simp: x)
  next
    case False
    have e: "unat e < unat (g_next_edge g)" using Cons.prems(4) by simp
    then have u: "unat (e + 1) = unat e + 1" using unat_widths_less(3) [of "g_next_edge g"] by (simp add: unat_word_ariths)
    have "ok_with (put_edge C ops w e ?r) (\<lambda>w'. gtx C \<sigma> w' (set_edge e ?r g))"
      using Cons.prems e False by (intro put_edge_wp) (auto simp: word_less_nat_alt x)
    then obtain w1 where w1: "put_edge C ops w e ?r = Ok w1" "gtx C \<sigma> w1 (set_edge e ?r g)" by (auto simp: ok_with_iff)
    obtain vs where vs: "bind_res (verify_node ops w verified a) (\<lambda>v. verify_node ops w v b) = Ok vs" "\<forall>j\<in>set vs. g_nodes g j \<noteq> None"
      using False ver Cons.prems(5) by auto
    have "put_edges C ops (e + 1) vs items w1 = Err NotFound"
    proof (rule Cons.IH [OF w1(2)])
      show "\<forall>j\<ge>e + 1. g_edges (set_edge e ?r g) j = None"
        using Cons.prems(2) u by (auto simp: set_edge_def word_le_nat_alt)
      show "\<exists>x\<in>set items. g_nodes (set_edge e ?r g) (er_from (item_edge x)) = None \<or> g_nodes (set_edge e ?r g) (er_to (item_edge x)) = None"
        using Cons.prems(7) False by (auto simp: set_edge_def x)
    qed (use Cons.prems u vs(2) in \<open>auto simp: set_edge_def word_le_nat_alt\<close>)
    moreover have "put_edges C ops e verified (x # items) w = bind_res (bind_res (verify_node ops w verified a) (\<lambda>v. verify_node ops w v b))
        (\<lambda>vs. bind_res (put_edge C ops w e ?r) (\<lambda>w. put_edges C ops (e + 1) vs items w))"
      by (simp add: x bind_res_assoc)
    ultimately show ?thesis using vs(1) w1(1) by simp
  qed
qed simp

lemma create_edges_bulk_missing:
  assumes "gtx C \<sigma> w g" "unat (g_next_edge g) + length items < 2 ^ 64" "\<forall>x\<in>set items. edge_ok (item_edge x) \<and> short (er_edge_type (item_edge x))"
    and "\<exists>x\<in>set items. g_nodes g (er_from (item_edge x)) = None \<or> g_nodes g (er_to (item_edge x)) = None"
  shows "create_edges_bulk_in C ops w items = Err NotFound"
proof -
  let ?n = "g_next_edge g" and ?c = "word_of_nat (length items) :: u64"
  have c: "unat ?c = length items" using assms(2) by (simp add: unsigned_of_nat take_bit_nat_eq_self)
  have ne: "items \<noteq> []" using assms(4) by auto
  then have c0: "?c \<noteq> 0" using c by (metis length_0_conv unsigned_0)
  have "graph_wf g" "counter_is (view w META) NEXT_EDGE_ID_KEY ?n" using assms(1) by (auto elim: gtxE simp: meta_ok_def)
  then have g: "\<forall>j\<ge>?n. g_edges g j = None" "1 \<le> ?n" "unat (?n + ?c) = unat ?n + length items"
    using assms(2) c by (auto simp: wf_fresh_edge counter_is_def unat_word_ariths)
  obtain w1 where w1: "reserve_ids ops w NEXT_EDGE_ID_KEY ?c = Ok (?n, w1)" "gtx C \<sigma> w1 (take_edge_ids ?c g)"
    using reserve_edge_ids_wp [OF assms(1) c0] assms(2) c by (auto simp: ok_with_iff)
  have "put_edges C ops ?n [] items w1 = Err NotFound"
    using put_edges_missing [OF w1(2), of ?n items "[]"] assms(3,4) g by (simp add: take_edge_ids_def)
  then show ?thesis using w1(1) ne by (simp add: create_edges_bulk_in_def)
qed

lemma del_edges_wf: "graph_wf g \<Longrightarrow> graph_wf (del_edges X g)"
  by (auto simp: graph_wf_def del_edges_def restrict_map_def split: if_splits)

lemma drop_edge_view:
  assumes "gtx C \<sigma> w g" "inv w'" "view w' = (view w)(EDGES := (view w EDGES)(be64 e := None),
      ADJ_OUT := (view w ADJ_OUT)(adj_row ADJ_OUT (g_edges g) e := None), ADJ_IN := (view w ADJ_IN)(adj_row ADJ_IN (g_edges g) e := None))"
  shows "gtx C \<sigma> w' (del_edge e g)"
  using assms(1)
proof (rule gtxE, goal_cases)
  case (1 L)
  have "graph_wf (g\<lparr>g_edges := (g_edges g)(e := None)\<rparr>)" using 1(12) by (auto simp: graph_wf_def)
  then show ?case unfolding del_edge_def
    by (rule gtx_edgesI [OF assms(1,2)], unfold adj_row_del) (simp add: assms(3) 1(4-6) out_in_keys rows_of_upd(2))
qed

lemma delete_edge_wp:
  assumes "gtx C \<sigma> w g"
  shows "ok_with (delete_edge_in C ops w e) (\<lambda>(found, w'). found = (g_edges g e \<noteq> None) \<and> gtx C \<sigma> w' (del_edge e g))"
proof (cases "g_edges g e")
  case None
  then have "del_edge e g = g" by (simp add: del_edge_def fun_upd_idem)
  moreover have "inv w" "view w EDGES (be64 e) = None" using assms None by (auto elim: gtxE)
  ultimately show ?thesis using assms None by (simp add: delete_edge_in_def edge_key_def)
next
  case (Some x)
  obtain bs where bs: "view w EDGES (be64 e) = Some bs" "deserialize (edge_codec C) bs = Some x"
    using edge_stored [OF gtx_gread [OF assms] Some] .
  have w: "inv w" using assms by (auto elim: gtxE)
  have keys: "adj_out_key (er_from x) (er_edge_type x) (er_to x) e = adj_row ADJ_OUT (g_edges g) e"
    "adj_in_key (er_to x) (er_edge_type x) (er_from x) e = adj_row ADJ_IN (g_edges g) e"
    using Some by (simp_all add: adj_row_def near_def far_def adj_out_key_def adj_in_key_def)
  have "gtx C \<sigma> w' (del_edge e g)" if "inv w'" "view w' = (view w)(ADJ_OUT := (view w ADJ_OUT)(adj_row ADJ_OUT (g_edges g) e := None),
      ADJ_IN := (view w ADJ_IN)(adj_row ADJ_IN (g_edges g) e := None), EDGES := (view w EDGES)(be64 e := None))" for w'
    using that by (intro drop_edge_view [OF assms]) (auto simp: fun_upd_twist)
  then show ?thesis using w bs Some by (auto simp: delete_edge_in_def edge_key_def decode_def keys intro!: delete_wp)
qed

lemma update_edge_properties_wp:
  assumes "gtx C \<sigma> w g" "g_edges g e = Some r" "edge_ok (r\<lparr>er_properties := f (er_properties r)\<rparr>)"
  shows "ok_with (update_edge_properties_in C ops w e f) (\<lambda>w'. gtx C \<sigma> w' (set_edge e (r\<lparr>er_properties := f (er_properties r)\<rparr>) g))"
  using assms(1)
proof (rule gtxE, goal_cases)
  case (1 L)
  let ?r = "r\<lparr>er_properties := f (er_properties r)\<rparr>" and ?E = "g_edges g"
  obtain bs where bs: "view w EDGES (be64 e) = Some bs" "deserialize (edge_codec C) bs = Some r"
    using edge_stored [OF gtx_gread [OF assms(1)] assms(2)] .
  obtain bs' where bs': "serialize (edge_codec C) ?r = Some bs'" using 1(1) assms(3) by (rule edge_codecE)
  have wf: "graph_wf (g\<lparr>g_edges := ?E(e \<mapsto> ?r)\<rparr>)" using 1(12) assms(2,3) wf_edgeD [OF 1(12) assms(2)] by (auto simp: graph_wf_def)
  have "adj_row t (?E(e \<mapsto> ?r)) = adj_row t ?E" for t
    using assms(2) by (auto simp: adj_row_def near_def far_def fun_eq_iff)
  moreover have "dom (?E(e \<mapsto> ?r)) = dom ?E" using assms(2) by auto
  ultimately have "gtx C \<sigma> w' (set_edge e ?r g)" if "inv w'" "view w' = (view w)(EDGES := (view w EDGES)(be64 e \<mapsto> bs'))" for w'
    unfolding set_edge_def
    by (intro gtx_edgesI [OF assms(1) that(1) wf]) (simp add: that(2) 1(4-6) rows_of_upd(1) [OF bs'] out_in_keys [symmetric] fun_upd_idem)
  then show ?case using 1(2) bs bs' by (auto simp: update_edge_properties_in_def edge_key_def decode_def encode_def intro!: put_wp)
qed

lemma update_edge_missing:
  "gtx C \<sigma> w g \<Longrightarrow> g_edges g e = None \<Longrightarrow> update_edge_properties_in C ops w e f = Err NotFound"
  by (erule gtxE) (simp add: update_edge_properties_in_def edge_key_def)

section \<open>Deleting a node\<close>

lemma drop_row_wp:
  assumes "gtx C \<sigma> w g" "g_edges g e = Some x"
  shows "er_from x = i \<Longrightarrow> ok_with (drop_out_row ops i (adj_row ADJ_OUT (g_edges g) e, v) w) (\<lambda>w'. gtx C \<sigma> w' (del_edge e g))"
    and "er_to x = i \<Longrightarrow> ok_with (drop_in_row ops i (adj_row ADJ_IN (g_edges g) e, v) w) (\<lambda>w'. gtx C \<sigma> w' (del_edge e g))"
proof -
  have w: "inv w" "graph_wf g" using assms(1) by (auto elim: gtxE)
  have keys: "adj_row ADJ_OUT (g_edges g) e = adj_out_key (er_from x) (er_edge_type x) (er_to x) e"
    "adj_row ADJ_IN (g_edges g) e = adj_in_key (er_to x) (er_edge_type x) (er_from x) e"
    using assms(2) by (simp_all add: adj_row_def near_def far_def adj_out_key_def adj_in_key_def)
  have dec: "decode_adj_key (adj_row t (g_edges g) e) = Ok (near t x, er_edge_type x, far t x, e)" for t
    using decode_row [OF w(2) assms(2)] .
  have "gtx C \<sigma> w' (del_edge e g)" if "inv w'" "view w' = (view w)(ADJ_OUT := (view w ADJ_OUT)(adj_row ADJ_OUT (g_edges g) e := None),
      ADJ_IN := (view w ADJ_IN)(adj_row ADJ_IN (g_edges g) e := None), EDGES := (view w EDGES)(be64 e := None))" for w'
    using that by (intro drop_edge_view [OF assms(1)]) (auto simp: fun_upd_twist)
  then show "er_from x = i \<Longrightarrow> ok_with (drop_out_row ops i (adj_row ADJ_OUT (g_edges g) e, v) w) (\<lambda>w'. gtx C \<sigma> w' (del_edge e g))"
    using w(1) dec [of ADJ_OUT] by (auto simp: drop_out_row_def edge_key_def keys near_def far_def intro!: delete_wp)
  have "gtx C \<sigma> w' (del_edge e g)" if "inv w'" "view w' = (view w)(ADJ_IN := (view w ADJ_IN)(adj_row ADJ_IN (g_edges g) e := None),
      ADJ_OUT := (view w ADJ_OUT)(adj_row ADJ_OUT (g_edges g) e := None), EDGES := (view w EDGES)(be64 e := None))" for w'
    using that by (intro drop_edge_view [OF assms(1)]) (auto simp: fun_upd_twist)
  then show "er_to x = i \<Longrightarrow> ok_with (drop_in_row ops i (adj_row ADJ_IN (g_edges g) e, v) w) (\<lambda>w'. gtx C \<sigma> w' (del_edge e g))"
    using w(1) dec [of ADJ_IN] by (auto simp: drop_in_row_def edge_key_def keys near_def far_def intro!: delete_wp)
qed

lemma drop_rows_wp:
  assumes "gtx C \<sigma> w g" "distinct es" "\<forall>e\<in>set es. g_edges g e \<noteq> None"
    and step: "\<And>w1 X e x. gtx C \<sigma> w1 (del_edges X g) \<Longrightarrow> e \<notin> X \<Longrightarrow> e \<in> set es \<Longrightarrow> g_edges g e = Some x \<Longrightarrow>
      ok_with (f (adj_row t (g_edges (del_edges X g)) e, []) w1) (\<lambda>w'. gtx C \<sigma> w' (del_edge e (del_edges X g)))"
  shows "ok_with (for_res f (map (\<lambda>e. (adj_row t (g_edges g) e, [])) es) w) (\<lambda>w'. gtx C \<sigma> w' (del_edges (set es) g))"
proof -
  have same: "adj_row t (g_edges (del_edges X g)) e = adj_row t (g_edges g) e" if "e \<notin> X" for X e
    using that by (simp add: adj_row_def del_edges_def)
  have del: "del_edge e (del_edges X g) = del_edges (insert e X) g" for e X
    by (simp add: del_edge_def del_edges_def restrict_map_def fun_eq_iff fun_upd_def)
  have "ok_with (for_res (\<lambda>e. f (adj_row t (g_edges g) e, [])) es w) (\<lambda>w'. gtx C \<sigma> w' (del_edges (set es) g))"
  proof (rule for_res_rule)
    show "gtx C \<sigma> w (del_edges (set []) g)" using assms(1) by (simp add: del_edges_def restrict_map_def)
  next
    fix ys e zs w1 assume es: "es = ys @ e # zs" and w1: "gtx C \<sigma> w1 (del_edges (set ys) g)"
    then have e: "e \<notin> set ys" "e \<in> set es" using assms(2) by auto
    obtain x where "g_edges g e = Some x" using assms(3) e(2) by auto
    from step [OF w1 e this] show "ok_with (f (adj_row t (g_edges g) e, []) w1) (\<lambda>w'. gtx C \<sigma> w' (del_edges (set (ys @ [e])) g))"
      using same [OF e(1)] by (simp add: del)
  qed
  then show ?thesis by (simp add: for_res_map)
qed

lemma drop_side_wp:
  assumes "gtx C \<sigma> w g" "(t, f) = (ADJ_OUT, drop_out_row ops i) \<or> (t, f) = (ADJ_IN, drop_in_row ops i)"
  shows "ok_with (bind_res (node_rows ops w t i) (\<lambda>rows. for_res f rows w))
    (\<lambda>w'. gtx C \<sigma> w' (del_edges {e. \<exists>x. g_edges g e = Some x \<and> near t x = i} g))"
proof -
  obtain es where es: "node_rows ops w t i = Ok (map (\<lambda>e. (adj_row t (g_edges g) e, [])) es)"
      "sorted_wrt (<) (map (adj_row t (g_edges g)) es)" "set es = {e. \<exists>x. g_edges g e = Some x \<and> near t x = i}"
    using node_rows_wp [OF gtx_gread [OF assms(1)], of t i] assms(2) by blast
  have "distinct es" using es(2) by (simp add: strict_sorted_iff distinct_map)
  then have "ok_with (for_res f (map (\<lambda>e. (adj_row t (g_edges g) e, [])) es) w) (\<lambda>w1. gtx C \<sigma> w1 (del_edges (set es) g))"
  proof (rule drop_rows_wp [OF assms(1)])
    fix w1 X e x assume h: "gtx C \<sigma> w1 (del_edges X g)" "e \<notin> X" "e \<in> set es" "g_edges g e = Some x"
    have "g_edges (del_edges X g) e = Some x" "near t x = i" using h es(3) by (auto simp: del_edges_def)
    then show "ok_with (f (adj_row t (g_edges (del_edges X g)) e, []) w1) (\<lambda>w'. gtx C \<sigma> w' (del_edge e (del_edges X g)))"
      using drop_row_wp [OF h(1)] assms(2) by (auto simp: near_def)
  qed (use es(3) in auto)
  then show ?thesis using es(1,3) by simp
qed

lemma remove_node_wp:
  assumes "gtx C \<sigma> w g" "touching i g = {}"
  shows "ok_with (bind_res (s_get ops w NODES (node_key i)) (\<lambda>x. bind_res (case x of
      Some bytes \<Rightarrow> bind_res (decode (node_codec C) bytes) (\<lambda>record. on_delete ops w i record) | None \<Rightarrow> Ok w) (\<lambda>w.
      s_delete ops w NODES (node_key i)))) (\<lambda>w'. gtx C \<sigma> w' (g\<lparr>g_nodes := (g_nodes g)(i := None)\<rparr>))"
  using assms(1)
proof (rule gtxE, goal_cases)
  case (1 L)
  let ?N = "(g_nodes g)(i := None)" and ?S = "prop_keys (g_nodes g) (g_indexes g)"
  have wf: "graph_wf (g\<lparr>g_nodes := ?N\<rparr>)" using 1(12) assms(2) by (auto simp: graph_wf_def touching_def)
  have fin: "gtx C \<sigma> w' (g\<lparr>g_nodes := ?N\<rparr>)"
    if "inv w'" "view w' = (view w)(NODE_LABELS := flags L', NODE_PROPS := flags (prop_keys ?N (g_indexes g)), NODES := (view w NODES)(be64 i := None))"
      "L' \<subseteq> label_keys ?N" "g_labels_ready g \<longrightarrow> L' = label_keys ?N" for w' L'
    using 1 that wf by (intro gtxI [of C w' _ L']) (auto simp: rows_of_upd(2) meta_ok_def)
  show ?case
  proof (cases "g_nodes g i")
    case None
    then have N: "?N = g_nodes g" by (simp add: fun_upd_idem)
    have "ok_with (s_delete ops w NODES (be64 i)) (\<lambda>w'. gtx C \<sigma> w' (g\<lparr>g_nodes := ?N\<rparr>))"
      using 1 by (intro delete_wp fin [where L' = L]) (auto simp: N fun_upd_idem)
    then show ?thesis using 1(2,3) None by (simp add: node_key_def)
  next
    case (Some r)
    have r: "node_ok r" "short (nr_label r)" using wf_nodeD [OF 1(12) Some] by auto
    obtain bs where bs: "serialize (node_codec C) r = Some bs" "deserialize (node_codec C) bs = Some r" using 1(1) r(1) by (rule node_codecE)
    let ?L = "L - {label_entry (nr_label r) i}"
    have L: "?L \<subseteq> label_keys ?N" "g_labels_ready g \<longrightarrow> ?L = label_keys ?N"
      using 1(8,9) label_keys_del [OF 1(12) Some] by auto
    have S: "?S - node_rows_of (g_indexes g) i r = prop_keys ?N (g_indexes g)" using Some by (simp add: prop_keys_del)
    have "ok_with (s_delete ops w1 NODES (be64 i)) (\<lambda>w'. gtx C \<sigma> w' (g\<lparr>g_nodes := ?N\<rparr>))"
      if "inv w1" "view w1 = (view w)(NODE_LABELS := flags ?L, NODE_PROPS := flags (?S - node_rows_of (g_indexes g) i r))" for w1
      using that L by (intro delete_wp fin [where L' = ?L]) (auto simp: S)
    then show ?thesis using on_delete_wp [OF 1(2,11,12) r(2) 1(7,10), of i] 1(2,3) Some bs
      by (auto simp: node_key_def decode_def elim!: ok_with_mono)
  qed
qed

lemma delete_node_wp:
  assumes "gtx C \<sigma> w g"
  shows "ok_with (delete_node_in C ops w i) (\<lambda>w'. gtx C \<sigma> w' (del_node i g))"
proof -
  let ?g1 = "del_edges {e. \<exists>x. g_edges g e = Some x \<and> near ADJ_OUT x = i} g" and ?g2 = "del_edges (touching i g) g"
  have "del_edges {e. \<exists>x. g_edges ?g1 e = Some x \<and> near ADJ_IN x = i} ?g1 = ?g2"
    by (auto simp: del_edges_def restrict_map_def touching_def near_def fun_eq_iff intro!: graph.equality)
  then have rows: "ok_with (bind_res (node_rows ops w1 ADJ_IN i) (\<lambda>rows. for_res (drop_in_row ops i) rows w1)) (\<lambda>w2. gtx C \<sigma> w2 ?g2)"
    if "gtx C \<sigma> w1 ?g1" for w1
    using drop_side_wp [OF that, of ADJ_IN "drop_in_row ops i" i] by simp
  have last: "ok_with (bind_res (s_get ops w2 NODES (node_key i)) (\<lambda>x. bind_res (case x of
        Some bytes \<Rightarrow> bind_res (decode (node_codec C) bytes) (\<lambda>record. on_delete ops w2 i record) | None \<Rightarrow> Ok w2) (\<lambda>w.
        s_delete ops w NODES (node_key i)))) (\<lambda>w'. gtx C \<sigma> w' (del_node i g))"
    if w2: "gtx C \<sigma> w2 ?g2" for w2
  proof -
    have "touching i ?g2 = {}" by (auto simp: touching_def del_edges_def restrict_map_def split: if_splits)
    from remove_node_wp [OF w2 this] show ?thesis by (simp add: del_node_def del_edges_def)
  qed
  show ?thesis using drop_side_wp [OF assms, of ADJ_OUT "drop_out_row ops i" i] rows last
    by (fastforce simp: delete_node_in_def elim!: ok_with_mono)
qed

end

end
