(* ===== verification/Graph_Lookup.thy ===== *)
theory Graph_Lookup
  imports Graph_Edges
begin

text \<open>
  Lookups by label and by property value, and the management of the property indexes. A lookup
  returns the same nodes whether it is answered by an index or by a scan.
\<close>

section \<open>Scans\<close>

lemma trailing_id [simp]: "trailing_node_id (p @ be64 i) = Ok i"
  by (simp add: trailing_node_id_def decode_node_id_def)

lemma trailing_ids:
  assumes "sorted_wrt (<) ks" "set ks = (\<lambda>i. p @ be64 i) ` S"
  shows "\<exists>ids. traverse trailing_node_id ks = Ok ids \<and> sorted_wrt (<) ids \<and> set ids = S"
proof -
  have key: "p @ be64 (key_edge k) = k" if k: "k \<in> set ks" for k
    using k assms(2) by (auto simp: key_edge_def)
  have "traverse trailing_node_id ks = Ok (map key_edge ks)"
    by (rule traverse_Ok) (metis key trailing_id)
  moreover have "sorted_wrt (<) (map key_edge ks)"
  proof -
    have "key_edge k < key_edge k'" if "k \<in> set ks" "k' \<in> set ks" "k < k'" for k k'
      using key [OF that(1)] key [OF that(2)] that(3) by (metis append_less_iff be64_less_iff)
    then show ?thesis using assms(1) by (auto simp: sorted_wrt_map elim!: sorted_wrt_mono_rel [rotated])
  qed
  moreover have "set (map key_edge ks) = S"
    using assms(2) by (force simp: key_edge_def image_iff)
  ultimately show ?thesis by blast
qed

text \<open>Two encoded values of one kind are equal, or neither is a prefix of the other followed by an id.\<close>

lemma prefix_terminated: "0 \<notin> set s \<Longrightarrow> 0 \<notin> set t \<Longrightarrow> prefix (s @ [0 :: byte]) (t @ 0 # r) \<longleftrightarrow> s = t"
proof (induction s arbitrary: t)
  case Nil
  then show ?case by (cases t) auto
next
  case (Cons a s)
  then show ?case by (cases t) auto
qed

lemma index_key_prefix:
  assumes "index_value_key u = Some ku" "index_value_key v = Some kv" "kind_name u = kind_name v"
  shows "prefix kv (ku @ be64 i) \<longleftrightarrow> u = v"
proof -
  have num: "prefix (be64 a) (be64 b @ be64 i) \<longleftrightarrow> b = a" for a b
    by (auto simp: prefix_def append_eq_append_conv)
  have flip: "(a :: u64) XOR c = b XOR c \<longleftrightarrow> a = b" for a b c
  proof
    assume "a XOR c = b XOR c"
    then have "(a XOR c) XOR c = (b XOR c) XOR c" by (rule arg_cong)
    then show "a = b" by (simp add: xor.assoc)
  qed simp
  have form: "(\<exists>a. w = IntV a \<and> k = be64 (a XOR 0x8000000000000000)) \<or> (\<exists>s. w = Str s \<and> 0 \<notin> set (as_bytes s) \<and> k = as_bytes s @ [0])"
    if "index_value_key w = Some k" for w k
    using that by (auto simp: index_value_key_def sortable_key_def split: prop_value.splits if_splits)
  from form [OF assms(1)] form [OF assms(2)] assms(3) consider
      (num) a b where "u = IntV a" "v = IntV b" "ku = be64 (a XOR 0x8000000000000000)" "kv = be64 (b XOR 0x8000000000000000)"
    | (str) s t where "u = Str s" "v = Str t" "0 \<notin> set (as_bytes s)" "0 \<notin> set (as_bytes t)" "ku = as_bytes s @ [0]" "kv = as_bytes t @ [0]"
    by (auto simp: kind_name_def)
  then show ?thesis by cases (auto simp: num flip prefix_terminated)
qed

definition labelled :: "graph \<Rightarrow> string \<Rightarrow> node_id set" where
  "labelled g l = {i. \<exists>x. g_nodes g i = Some x \<and> nr_label x = l}"

definition having :: "graph \<Rightarrow> string \<Rightarrow> string \<Rightarrow> prop_value \<Rightarrow> node_id set" where
  "having g l p v = {i. \<exists>x. g_nodes g i = Some x \<and> nr_label x = l \<and> opt_prop_eq (map_of (nr_properties x) p) (Some v)}"

text \<open>What the lookups by label need: everything but the property rows, which an index build is about to write.\<close>

definition graph_core :: "('r \<Rightarrow> bool) \<Rightarrow> ('r \<Rightarrow> store) \<Rightarrow> graph_codecs \<Rightarrow> 'r \<Rightarrow> graph \<Rightarrow> bool" where
  "graph_core I view C r g \<longleftrightarrow>
    graph_codecs_ok C \<and> I r \<and> graph_repr C ((view r)(NODE_PROPS := flags (prop_keys (g_nodes g) (g_indexes g)))) g"

lemma graph_view_core: "graph_view I view C r g \<Longrightarrow> graph_core I view C r g"
proof -
  assume h: "graph_view I view C r g"
  then have "(view r)(NODE_PROPS := flags (prop_keys (g_nodes g) (g_indexes g))) = view r"
    by (intro fun_upd_idem) (simp add: graph_view_def graph_repr_def)
  then show ?thesis using h by (simp add: graph_core_def graph_view_def)
qed

context graph_read
begin

abbreviation gcore :: "graph_codecs \<Rightarrow> 'r \<Rightarrow> graph \<Rightarrow> bool" where
  "gcore \<equiv> graph_core inv view"

lemma scan_all_nodes_view:
  assumes "gcore C r g"
  shows "\<exists>xs. scan_all_nodes C ops r = Ok xs \<and> sorted_wrt (<) (map fst xs) \<and> set xs = {(i, x). g_nodes g i = Some x}"
proof -
  have r: "inv r" "graph_wf g" "graph_codecs_ok C" "view r NODES = rows_of (node_codec C) (g_nodes g)"
    using assms by (auto simp: graph_core_def graph_repr_def)
  obtain rows where rows: "s_range ops r NODES Unbounded Unbounded = Ok rows" "range_of (rows_of (node_codec C) (g_nodes g)) Unbounded Unbounded rows"
    using rangeE [OF r(1) reserved_ok, of NODES Unbounded Unbounded] r(4) by auto
  let ?f = "\<lambda>(k, v). (of_be64 k, the (deserialize (node_codec C) v))"
  have row: "\<exists>i x. k = be64 i \<and> g_nodes g i = Some x \<and> serialize (node_codec C) x = Some v \<and> deserialize (node_codec C) v = Some x"
    if "(k, v) \<in> set rows" for k v
  proof -
    have "rows_of (node_codec C) (g_nodes g) k = Some v" using range_of_mem [OF rows(2)] that by simp
    then obtain x where x: "length k = 8" "g_nodes g (of_be64 k) = Some x" "serialize (node_codec C) x = Some v"
      by (auto simp: rows_of_def bind_eq_Some_conv split: if_splits)
    then have "deserialize (node_codec C) v = Some x" using wf_nodeD [OF r(2) x(2)] r(3) by (auto elim!: node_codecE [of C x])
    then show ?thesis using x by (intro exI [of _ "of_be64 k"] exI [of _ x]) simp
  qed
  have "scan_all_nodes C ops r = Ok (map ?f rows)"
    unfolding scan_all_nodes_def rows(1) bind_res_simps
    by (rule traverse_Ok) (auto simp: decode_node_id_def decode_def dest!: row)
  moreover have "sorted_wrt (<) (map fst (map ?f rows))"
  proof -
    have "of_be64 (fst x) < of_be64 (fst y)" if "x \<in> set rows" "y \<in> set rows" "fst x < fst y" for x y
      using that row [of "fst x" "snd x"] row [of "fst y" "snd y"] by auto
    then show ?thesis using rows(2) by (auto simp: range_of_def sorted_wrt_map case_prod_beta elim!: sorted_wrt_mono_rel [rotated])
  qed
  moreover have "set (map ?f rows) = {(i, x). g_nodes g i = Some x}"
  proof (intro set_eqI iffI)
    fix y assume "y \<in> set (map ?f rows)"
    then obtain k v where "(k, v) \<in> set rows" "y = ?f (k, v)" by auto
    then show "y \<in> {(i, x). g_nodes g i = Some x}" using row [of k v] by auto
  next
    fix y assume "y \<in> {(i, x). g_nodes g i = Some x}"
    then obtain i x where y: "y = (i, x)" "g_nodes g i = Some x" by auto
    then obtain bs where bs: "serialize (node_codec C) x = Some bs" "deserialize (node_codec C) bs = Some x"
      using wf_nodeD [OF r(2)] r(3) by (metis node_codecE)
    then have "(be64 i, bs) \<in> set rows" using range_of_mem [OF rows(2)] y(2) by (simp add: in_range_def)
    then have "?f (be64 i, bs) \<in> ?f ` set rows" by (rule imageI)
    then show "y \<in> set (map ?f rows)" using y bs by simp
  qed
  ultimately show ?thesis by blast
qed

lemma nodes_by_label_view:
  assumes "gcore C r g" "short l"
  shows "\<exists>ids. nodes_by_label_in C ops r l = Ok ids \<and> sorted_wrt (<) ids \<and> set ids = labelled g l"
proof -
  have r: "inv r" "graph_wf g" "meta_ok (view r META) g" using assms by (auto simp: graph_core_def graph_repr_def)
  show ?thesis
  proof (cases "g_labels_ready g")
    case True
    then have v: "view r NODE_LABELS = flags (label_keys (g_nodes g))" using assms by (auto simp: graph_core_def graph_repr_def)
    obtain ks where ks: "scan_prefix ops r NODE_LABELS (encode_edge_type l) = Ok ks" "sorted_wrt (<) ks"
        "set ks = {k. prefix (encode_edge_type l) k \<and> view r NODE_LABELS k \<noteq> None}"
      using scan_prefix_wp [OF r(1), of NODE_LABELS "encode_edge_type l"] by auto
    have pre: "prefix (encode_edge_type l) (label_entry (nr_label x) i) \<longleftrightarrow> nr_label x = l" if "g_nodes g i = Some x" for i x
      using encode_edge_type_inject [of "nr_label x" l] wf_nodeD [OF r(2) that] assms(2) by (auto simp: label_entry_def prefix_def)
    have "set ks = (\<lambda>i. encode_edge_type l @ be64 i) ` labelled g l"
      using pre by (fastforce simp: ks(3) v label_keys_def labelled_def label_entry_def image_iff)
    then obtain ids where "traverse trailing_node_id ks = Ok ids" "sorted_wrt (<) ids" "set ids = labelled g l"
      using trailing_ids [OF ks(2)] by blast
    then show ?thesis using True r ks(1) assms(2) by (auto simp: nodes_by_label_in_def label_index_ready_def meta_ok_def)
  next
    case False
    obtain xs where xs: "scan_all_nodes C ops r = Ok xs" "sorted_wrt (<) (map fst xs)" "set xs = {(i, x). g_nodes g i = Some x}"
      using scan_all_nodes_view [OF assms(1)] by blast
    have "sorted_wrt (<) (map fst (filter (\<lambda>(_, x). nr_label x = l) xs))"
      using xs(2) by (simp add: sorted_wrt_map sorted_wrt_filter)
    moreover have "set (map fst (filter (\<lambda>(_, x). nr_label x = l) xs)) = labelled g l"
      using xs(3) by (force simp: labelled_def image_iff)
    ultimately show ?thesis using False r xs(1) by (auto simp: nodes_by_label_in_def label_index_ready_def meta_ok_def)
  qed
qed

text \<open>The registry holds exactly the registered indexes.\<close>

lemma registered:
  assumes "gread C r g" "short l" "short p"
  shows "view r META (reg_key l p) \<noteq> None \<longleftrightarrow> (l, p) \<in> g_indexes g"
proof -
  have r: "graph_wf g" "meta_ok (view r META) g" using assms by (auto simp: graph_view_def graph_repr_def)
  have "prefix PROP_INDEX_PREFIX (reg_key l p)" by (simp add: reg_key_def)
  then have "view r META (reg_key l p) \<noteq> None \<longleftrightarrow> (\<exists>l' p'. (l', p') \<in> g_indexes g \<and> reg_key l p = reg_key l' p')"
    using r(2) by (auto simp: meta_ok_def)
  then show ?thesis using reg_key_inject assms r(1) by (auto simp: graph_wf_def node_names_ok_def)
qed

lemma find_by_scan:
  assumes "gread C r g" "nodes_by_label_in C ops r l = Ok ids" "set ids = labelled g l" "sorted_wrt (<) ids"
  shows "\<exists>out. for_res (\<lambda>i out.
          bind_res (s_get ops r NODES (node_key i)) (\<lambda>x.
          case x of
            None \<Rightarrow> Ok out
          | Some bytes \<Rightarrow>
              bind_res (decode (node_codec C) bytes) (\<lambda>record.
              Ok (if opt_prop_eq (map_of (nr_properties record) p) (Some v) then out @ [i] else out)))) ids [] = Ok out \<and>
    sorted_wrt (<) out \<and> set out = having g l p v"
proof -
  let ?P = "\<lambda>i. opt_prop_eq (map_of (nr_properties (the (g_nodes g i))) p) (Some v)"
  have r: "inv r" "graph_wf g" "graph_codecs_ok C" "view r NODES = rows_of (node_codec C) (g_nodes g)"
    using assms by (auto simp: graph_view_def graph_repr_def)
  have step: "bind_res (s_get ops r NODES (node_key i)) (\<lambda>x.
          case x of
            None \<Rightarrow> Ok out
          | Some bytes \<Rightarrow>
              bind_res (decode (node_codec C) bytes) (\<lambda>record.
              Ok (if opt_prop_eq (map_of (nr_properties record) p) (Some v) then out @ [i] else out)))
      = Ok (out @ filter ?P [i])" if i: "i \<in> set ids" for i out
  proof -
    obtain x where x: "g_nodes g i = Some x" using i assms(3) by (auto simp: labelled_def)
    then obtain bs where "serialize (node_codec C) x = Some bs" "deserialize (node_codec C) bs = Some x"
      using wf_nodeD [OF r(2)] r(3) by (metis node_codecE)
    then show ?thesis using r x by (simp add: node_key_def decode_def)
  qed
  have "for_res (\<lambda>i out. Ok (out @ filter ?P [i])) xs out = Ok (out @ filter ?P xs)" for xs out
    by (induction xs arbitrary: out) (auto simp: bind_res_def)
  from this [of ids "[]"] have loop: "for_res (\<lambda>i out. Ok (out @ filter ?P [i])) ids [] = Ok (filter ?P ids)" by simp
  moreover have "sorted_wrt (<) (filter ?P ids)" using assms(4) by (simp add: sorted_wrt_filter)
  moreover have "set (filter ?P ids) = having g l p v" using assms(3) by (auto simp: labelled_def having_def)
  ultimately show ?thesis
    by (intro exI [of _ "filter ?P ids"] conjI trans [OF for_res_cong [OF refl step] loop])
qed

lemma find_nodes_view:
  assumes "gread C r g" "short l" "short p"
    and uniform: "\<And>i x u. (l, p) \<in> g_indexes g \<Longrightarrow> g_nodes g i = Some x \<Longrightarrow> nr_label x = l \<Longrightarrow> map_of (nr_properties x) p = Some u \<Longrightarrow>
      index_value_key u \<noteq> None \<Longrightarrow> kind_name u = kind_name v"
  shows "\<exists>ids. find_nodes_in C ops r l p v = Ok ids \<and> sorted_wrt (<) ids \<and> set ids = having g l p v"
proof -
  have r: "inv r" "graph_wf g" "view r NODE_PROPS = flags (prop_keys (g_nodes g) (g_indexes g))"
    using assms by (auto simp: graph_view_def graph_repr_def)
  obtain ids where ids: "nodes_by_label_in C ops r l = Ok ids" "sorted_wrt (<) ids" "set ids = labelled g l"
    using nodes_by_label_view [OF graph_view_core [OF assms(1)] assms(2)] by blast
  show ?thesis
  proof (cases "(l, p) \<in> g_indexes g \<and> index_value_key v \<noteq> None")
    case False
    then show ?thesis using registered [OF assms(1-3)] r(1) assms(2,3) ids(1) find_by_scan [OF assms(1) ids(1,3,2), of p v]
      by (auto simp: find_nodes_in_def split: option.splits)
  next
    case True
    then obtain enc where enc: "index_value_key v = Some enc" "(l, p) \<in> g_indexes g" by auto
    let ?p = "encode_edge_type l @ encode_edge_type p @ enc"
    obtain ks where ks: "scan_prefix ops r NODE_PROPS ?p = Ok ks" "sorted_wrt (<) ks"
        "set ks = {k. prefix ?p k \<and> view r NODE_PROPS k \<noteq> None}"
      using scan_prefix_wp [OF r(1), of NODE_PROPS ?p] by auto
    have row: "k \<in> node_rows_of (g_indexes g) i x \<and> prefix ?p k \<longleftrightarrow> i \<in> having g l p v \<and> k = ?p @ be64 i"
      if x: "g_nodes g i = Some x" for i x k
    proof
      assume h: "k \<in> node_rows_of (g_indexes g) i x \<and> prefix ?p k"
      then obtain q u ku where q: "(nr_label x, q) \<in> g_indexes g" "map_of (nr_properties x) q = Some u" "index_value_key u = Some ku"
          "k = encode_edge_type (nr_label x) @ encode_edge_type q @ ku @ be64 i"
        by (auto simp: node_rows_of_def prop_row_def bind_eq_Some_conv)
      have sh: "short (nr_label x)" "short q" using q(1) r(2) by (auto simp: graph_wf_def node_names_ok_def)
      obtain z where "encode_edge_type (nr_label x) @ encode_edge_type q @ ku @ be64 i = encode_edge_type l @ encode_edge_type p @ enc @ z"
        using h q(4) by (auto simp: prefix_def)
      then have lq: "nr_label x = l" "q = p" "ku @ be64 i = enc @ z"
        unfolding encode_edge_type_inject [OF sh(1) assms(2)] encode_edge_type_inject [OF sh(2) assms(3)] by auto
      then have "kind_name u = kind_name v" "prefix enc (ku @ be64 i)" using uniform [OF enc(2) x] q by simp_all
      then have "u = v" using index_key_prefix [OF q(3) enc(1)] by blast
      then show "i \<in> having g l p v \<and> k = ?p @ be64 i" using q lq enc x
        by (auto simp: having_def opt_prop_eq_def index_value_key_def split: prop_value.splits)
    next
      assume h: "i \<in> having g l p v \<and> k = ?p @ be64 i"
      then have "map_of (nr_properties x) p = Some v" "nr_label x = l"
        using x enc(1) by (auto simp: having_def opt_prop_eq_def index_value_key_def split: option.splits prop_value.splits)
      then show "k \<in> node_rows_of (g_indexes g) i x \<and> prefix ?p k"
        using enc h by (auto simp: node_rows_of_def prop_row_def)
    qed
    have "set ks = (\<lambda>i. ?p @ be64 i) ` having g l p v"
    proof (intro set_eqI iffI)
      fix k assume "k \<in> set ks"
      then obtain i x where "g_nodes g i = Some x" "k \<in> node_rows_of (g_indexes g) i x" "prefix ?p k"
        using ks(3) r(3) by (auto simp: prop_keys_def)
      then show "k \<in> (\<lambda>i. ?p @ be64 i) ` having g l p v" using row by blast
    next
      fix k assume "k \<in> (\<lambda>i. ?p @ be64 i) ` having g l p v"
      then obtain i where i: "i \<in> having g l p v" "k = ?p @ be64 i" by blast
      then obtain x where "g_nodes g i = Some x" by (auto simp: having_def)
      then have "k \<in> prop_keys (g_nodes g) (g_indexes g) \<and> prefix ?p k" using row [of i x k] i by (auto simp: prop_keys_def)
      then show "k \<in> set ks" by (simp add: ks(3) r(3))
    qed
    then obtain out where "traverse trailing_node_id ks = Ok out" "sorted_wrt (<) out" "set out = having g l p v"
      using trailing_ids [OF ks(2)] by blast
    then show ?thesis using registered [OF assms(1-3)] r(1) assms(2,3) enc ks(1) by (auto simp: find_nodes_in_def)
  qed
qed

lemma property_indexes_view:
  assumes "gread C r g"
  shows "\<exists>xs. property_indexes_in ops r = Ok xs \<and> set xs = g_indexes g \<and> distinct xs"
proof -
  have r: "inv r" "graph_wf g" "meta_ok (view r META) g" using assms by (auto simp: graph_view_def graph_repr_def)
  obtain ks where ks: "scan_prefix ops r META PROP_INDEX_PREFIX = Ok ks" "sorted_wrt (<) ks"
      "set ks = {k. prefix PROP_INDEX_PREFIX k \<and> view r META k \<noteq> None}"
    using scan_prefix_wp [OF r(1), of META PROP_INDEX_PREFIX] by auto
  have names: "short l \<and> str_ok l \<and> short p \<and> str_ok p" if "(l, p) \<in> g_indexes g" for l p
    using r(2) that by (auto simp: graph_wf_def node_names_ok_def)
  have set_ks: "set ks = (\<lambda>(l, p). reg_key l p) ` g_indexes g"
  proof -
    have "prefix PROP_INDEX_PREFIX (reg_key l p)" for l p by (simp add: reg_key_def)
    then show ?thesis using r(3) unfolding ks(3) by (auto simp: meta_ok_def) blast+
  qed
  define F where "F k = (if length k < length PROP_INDEX_PREFIX then Panic
      else bind_res (read_name (drop (length PROP_INDEX_PREFIX) k)) (\<lambda>(label, rest).
        bind_res (read_name rest) (\<lambda>(property, _). Ok (label, property))))" for k
  have f: "F (reg_key l p) = Ok (l, p)" if "(l, p) \<in> g_indexes g" for l p
    using names [OF that] read_name_encode [of p "[]"] by (simp add: F_def reg_key_def)
  define nm where "nm k = (case F k of Ok x \<Rightarrow> x)" for k
  have "property_indexes_in ops r = traverse F ks" by (simp add: property_indexes_in_def ks(1) F_def [abs_def])
  also have "\<dots> = Ok (map nm ks)" by (rule traverse_Ok) (auto simp: set_ks nm_def f)
  finally have "property_indexes_in ops r = Ok (map nm ks)" .
  moreover have "nm (reg_key l p) = (l, p)" if "(l, p) \<in> g_indexes g" for l p
    using f [OF that] by (simp add: nm_def)
  then have "set (map nm ks) = g_indexes g" by (force simp: set_ks image_iff)
  moreover have "distinct (map nm ks)"
  proof -
    have "inj_on nm (set ks)" using f by (auto simp: set_ks inj_on_def nm_def)
    then show ?thesis using ks(2) by (simp add: distinct_map strict_sorted_iff)
  qed
  ultimately show ?thesis by blast
qed

end

section \<open>Index management\<close>

definition index_rows :: "(node_id \<rightharpoonup> node_record) \<Rightarrow> string \<Rightarrow> string \<Rightarrow> bytes set" where
  "index_rows N l p = {k. \<exists>i x. N i = Some x \<and> nr_label x = l \<and> prop_row l p (map_of (nr_properties x) p) i = Some k}"

definition index_range :: "string \<Rightarrow> string \<Rightarrow> bytes set" where
  "index_range l p = {k. prefix (encode_edge_type l @ encode_edge_type p) k}"

lemma prop_keys_insert: "prop_keys N (insert (l, p) X) = prop_keys N X \<union> index_rows N l p"
  by (fastforce simp: prop_keys_def node_rows_of_def index_rows_def)

lemma prop_row_range:
  assumes "prop_row l p v i = Some k" "short l" "short p" "short l'" "short p'"
  shows "k \<in> index_range l' p' \<longleftrightarrow> l = l' \<and> p = p'"
proof -
  obtain enc where k: "k = encode_edge_type l @ encode_edge_type p @ enc @ be64 i" using assms(1) by (auto simp: prop_row_def)
  have "k \<in> index_range l' p' \<longleftrightarrow> (\<exists>z. encode_edge_type l @ encode_edge_type p @ enc @ be64 i = encode_edge_type l' @ encode_edge_type p' @ z)"
    by (auto simp: index_range_def prefix_def k)
  then show ?thesis by (auto simp: encode_edge_type_inject [OF assms(2,4)] encode_edge_type_inject [OF assms(3,5)])
qed

lemma prop_keys_remove:
  assumes "\<And>l p. (l, p) \<in> X \<Longrightarrow> short l \<and> short p" "short l" "short p"
  shows "prop_keys N X - index_range l p = prop_keys N (X - {(l, p)})"
proof -
  have "k \<in> node_rows_of (X - {(l, p)}) i x \<longleftrightarrow> k \<in> node_rows_of X i x \<and> k \<notin> index_range l p" for k i x
    using prop_row_range [OF _ _ _ assms(2,3)] assms(1) unfolding node_rows_of_def by blast
  then show ?thesis by (auto simp: prop_keys_def)
qed

context graph_store
begin

lemma clear_prefix_wp:
  assumes "inv w" "is_reserved t" "view w t = flags S"
  shows "ok_with (clear_prefix ops w t p) (\<lambda>w'. inv w' \<and> view w' = (view w)(t := flags (S - {k. prefix p k})))"
proof -
  obtain ks where ks: "scan_prefix ops w t p = Ok ks" "set ks = {k. prefix p k \<and> view w t k \<noteq> None}"
    using scan_prefix_wp [OF assms(1,2), of p] by auto
  have "S - {k. \<exists>x\<in>set ks. Some x = Some k} = S - {k. prefix p k}" using ks(2) assms(3) by auto
  then show ?thesis using delete_rows_wp [OF assms, of Some ks] ks(1) by (simp add: clear_prefix_def)
qed

lemma backfill_wp:
  assumes "gcore C w g" "short l" "short p" "view w NODE_PROPS = flags S"
  shows "ok_with (backfill_property C ops w l p) (\<lambda>w'. inv w' \<and>
    view w' = (view w)(NODE_PROPS := flags (S - index_range l p \<union> index_rows (g_nodes g) l p)))"
proof -
  have w: "inv w" "graph_wf g" "graph_codecs_ok C" "view w NODES = rows_of (node_codec C) (g_nodes g)"
    using assms(1) by (auto simp: graph_core_def graph_repr_def)
  obtain w1 where w1: "clear_prefix ops w NODE_PROPS (encode_edge_type l @ encode_edge_type p) = Ok w1" "inv w1"
      "view w1 = (view w)(NODE_PROPS := flags (S - index_range l p))"
    using clear_prefix_wp [OF w(1) _ assms(4)] by (auto simp: ok_with_iff index_range_def)
  have "gcore C w1 g" using assms(1) w1(2,3) by (simp add: graph_core_def)
  then obtain ids where ids: "nodes_by_label_in C ops w1 l = Ok ids" "set ids = labelled g l"
    using nodes_by_label_view assms(2) by blast
  let ?f = "\<lambda>i. prop_row l p (map_of (nr_properties (the (g_nodes g i))) p) i"
  have loop: "ok_with (for_res (\<lambda>i w.
      bind_res (s_get ops w NODES (node_key i)) (\<lambda>x.
      case x of
        None \<Rightarrow> Ok w
      | Some bytes \<Rightarrow>
          bind_res (decode (node_codec C) bytes) (\<lambda>record.
          bind_res (prop_entry l p (map_of (nr_properties record) p) i) (\<lambda>e.
          case e of Some k \<Rightarrow> s_put ops w NODE_PROPS k [] | None \<Rightarrow> Ok w)))) ids w1)
    (\<lambda>w'. inv w' \<and> view w' = (view w1)(NODE_PROPS := flags (S - index_range l p \<union> {k. \<exists>i\<in>set ids. ?f i = Some k})))"
  proof (rule for_res_rule)
    fix ys i zs w2
    assume split: "ids = ys @ i # zs" and w2: "inv w2 \<and> view w2 = (view w1)(NODE_PROPS := flags (S - index_range l p \<union> {k. \<exists>i\<in>set ys. ?f i = Some k}))"
    have i: "i \<in> labelled g l" using split ids(2) by auto
    obtain x where x: "g_nodes g i = Some x" using i by (auto simp: labelled_def)
    then obtain bs where bs: "serialize (node_codec C) x = Some bs" "deserialize (node_codec C) bs = Some x"
      using wf_nodeD [OF w(2)] w(3) by (metis node_codecE)
    show "ok_with (bind_res (s_get ops w2 NODES (node_key i)) (\<lambda>x.
      case x of
        None \<Rightarrow> Ok w2
      | Some bytes \<Rightarrow>
          bind_res (decode (node_codec C) bytes) (\<lambda>record.
          bind_res (prop_entry l p (map_of (nr_properties record) p) i) (\<lambda>e.
          case e of Some k \<Rightarrow> s_put ops w2 NODE_PROPS k [] | None \<Rightarrow> Ok w2))))
      (\<lambda>w'. inv w' \<and> view w' = (view w1)(NODE_PROPS := flags (S - index_range l p \<union> {k. \<exists>i\<in>set (ys @ [i]). ?f i = Some k})))"
      using w2 w(4) w1(3) x bs assms(2,3)
      by (cases "?f i") (auto simp: node_key_def decode_def intro!: put_wp arg_cong [where f = flags])
  qed (use w1 in \<open>simp add: fun_upd_idem\<close>)
  have rows: "{k. \<exists>i\<in>set ids. ?f i = Some k} = index_rows (g_nodes g) l p"
    by (force simp: ids(2) labelled_def index_rows_def)
  show ?thesis using loop [unfolded rows] w1 ids(1) assms(2,3) by (simp add: backfill_property_def del: prop_entry_Ok)
qed

text \<open>Building, dropping and rebuilding indexes changes the set of indexes and nothing else.\<close>

lemma gtx_indexI:
  assumes "gtx C \<sigma> w g" "inv w'" "graph_wf (g\<lparr>g_indexes := X\<rparr>)" "meta_ok m (g\<lparr>g_indexes := X\<rparr>)"
    and "view w' = (view w)(META := m, NODE_PROPS := flags (prop_keys (g_nodes g) X))" "\<And>k. \<not> graph_key k \<Longrightarrow> m k = view w META k"
  shows "gtx C \<sigma> w' (g\<lparr>g_indexes := X\<rparr>)"
  using assms(1)
proof (rule gtxE, goal_cases)
  case (1 L)
  then show ?case using assms(2-) by (intro gtxI [of C w' _ L]) (auto intro: off_graph_meta)
qed

lemma names_short: "graph_wf g \<Longrightarrow> (l, p) \<in> g_indexes g \<Longrightarrow> short l \<and> short p"
  by (auto simp: graph_wf_def node_names_ok_def)

lemma index_removed:
  "graph_wf g \<Longrightarrow> short l \<Longrightarrow> short p \<Longrightarrow>
    prop_keys (g_nodes g) (g_indexes g) - index_range l p = prop_keys (g_nodes g) (g_indexes g - {(l, p)})"
  by (rule prop_keys_remove) (auto dest: names_short)

lemma meta_ok_register:
  assumes "meta_ok m g"
  shows "meta_ok (m(reg_key l p \<mapsto> [])) (g\<lparr>g_indexes := insert (l, p) (g_indexes g)\<rparr>)"
proof -
  have n: "reg_key l p \<noteq> NEXT_NODE_ID_KEY" "reg_key l p \<noteq> NEXT_EDGE_ID_KEY" "reg_key l p \<noteq> LABEL_INDEX_MARKER"
    by (simp_all add: reg_key_def PROP_INDEX_PREFIX_def NEXT_NODE_ID_KEY_def NEXT_EDGE_ID_KEY_def LABEL_INDEX_MARKER_def)
  then show ?thesis using assms n [symmetric] by (auto simp: meta_ok_def counter_is_def flags_def)
qed

lemma meta_ok_unregister:
  assumes "meta_ok m g" "graph_wf g" "(l, p) \<in> g_indexes g"
  shows "meta_ok (m(reg_key l p := None)) (g\<lparr>g_indexes := g_indexes g - {(l, p)}\<rparr>)"
proof -
  have n: "reg_key l p \<noteq> NEXT_NODE_ID_KEY" "reg_key l p \<noteq> NEXT_EDGE_ID_KEY" "reg_key l p \<noteq> LABEL_INDEX_MARKER"
    by (simp_all add: reg_key_def PROP_INDEX_PREFIX_def NEXT_NODE_ID_KEY_def NEXT_EDGE_ID_KEY_def LABEL_INDEX_MARKER_def)
  have "{reg_key l' p' | l' p'. (l', p') \<in> g_indexes g - {(l, p)}} = {reg_key l' p' | l' p'. (l', p') \<in> g_indexes g} - {reg_key l p}"
    using names_short [OF assms(2)] assms(3) reg_key_inject by blast
  then show ?thesis using assms(1) n [symmetric] by (auto simp: meta_ok_def counter_is_def flags_def)
qed

lemma create_index_wp:
  assumes "gtx C \<sigma> w g" "node_names_ok l" "node_names_ok p"
  shows "ok_with (create_property_index_in C ops w l p) (\<lambda>(created, w').
    created = ((l, p) \<notin> g_indexes g) \<and> gtx C \<sigma> w' (g\<lparr>g_indexes := insert (l, p) (g_indexes g)\<rparr>))"
proof -
  have sh: "short l" "short p" using assms by (auto simp: node_names_ok_def)
  have w: "inv w" "meta_ok (view w META) g" "graph_wf g" "view w NODE_PROPS = flags (prop_keys (g_nodes g) (g_indexes g))"
    using assms(1) by (auto elim: gtxE)
  have reg: "view w META (reg_key l p) \<noteq> None \<longleftrightarrow> (l, p) \<in> g_indexes g" using registered [OF gtx_gread [OF assms(1)] sh] .
  let ?g = "g\<lparr>g_indexes := insert (l, p) (g_indexes g)\<rparr>"
  have wf: "graph_wf ?g" using w(3) assms(2,3) by (auto simp: graph_wf_def)
  show ?thesis
  proof (cases "(l, p) \<in> g_indexes g")
    case True
    then have "?g = g" by (simp add: insert_absorb)
    then show ?thesis using True reg w(1) sh assms(1) by (simp add: create_property_index_in_def)
  next
    case False
    let ?m = "(view w META)(reg_key l p \<mapsto> [])"
    have bf: "ok_with (backfill_property C ops w1 l p) (\<lambda>w'. gtx C \<sigma> w' ?g)" if w1: "inv w1" "view w1 = (view w)(META := ?m)" for w1
    proof -
      have "gcore C w1 ?g" using graph_view_core [OF gtx_gread [OF assms(1)]] w1 wf meta_ok_register [OF w(2)]
        by (simp add: graph_core_def graph_repr_def)
      then have "ok_with (backfill_property C ops w1 l p) (\<lambda>w'. inv w' \<and> view w' = (view w1)(NODE_PROPS :=
          flags (prop_keys (g_nodes g) (g_indexes g) - index_range l p \<union> index_rows (g_nodes g) l p)))"
        using backfill_wp [of C w1 ?g l p] sh w1 w(4) by simp
      moreover have "prop_keys (g_nodes g) (g_indexes g) - index_range l p \<union> index_rows (g_nodes g) l p = prop_keys (g_nodes g) (insert (l, p) (g_indexes g))"
        using False index_removed [OF w(3) sh] by (simp add: prop_keys_insert)
      ultimately show ?thesis using gtx_indexI [where m = ?m, OF assms(1) _ wf meta_ok_register [OF w(2)] _ graph_key_upd] w1(2) by (auto elim!: ok_with_mono)
    qed
    have "ok_with (s_put ops w META (reg_key l p) []) (\<lambda>w1. ok_with (backfill_property C ops w1 l p) (\<lambda>w'. gtx C \<sigma> w' ?g))"
      using w(1) bf by (intro put_wp) auto
    then show ?thesis using False reg w(1) sh by (simp add: create_property_index_in_def)
  qed
qed

lemma drop_index_wp:
  assumes "gtx C \<sigma> w g" "short l" "short p"
  shows "ok_with (drop_property_index_in ops w l p) (\<lambda>(dropped, w').
    dropped = ((l, p) \<in> g_indexes g) \<and> gtx C \<sigma> w' (g\<lparr>g_indexes := g_indexes g - {(l, p)}\<rparr>))"
proof -
  have w: "inv w" "meta_ok (view w META) g" "graph_wf g" "view w NODE_PROPS = flags (prop_keys (g_nodes g) (g_indexes g))"
    using assms(1) by (auto elim: gtxE)
  have reg: "view w META (reg_key l p) \<noteq> None \<longleftrightarrow> (l, p) \<in> g_indexes g" using registered [OF gtx_gread [OF assms(1)] assms(2,3)] .
  let ?g = "g\<lparr>g_indexes := g_indexes g - {(l, p)}\<rparr>"
  have wf: "graph_wf ?g" using w(3) by (auto simp: graph_wf_def)
  show ?thesis
  proof (cases "(l, p) \<in> g_indexes g")
    case False
    then show ?thesis using reg w(1) assms by (simp add: drop_property_index_in_def)
  next
    case True
    let ?m = "(view w META)(reg_key l p := None)"
    have "ok_with (clear_prefix ops w1 NODE_PROPS (encode_edge_type l @ encode_edge_type p)) (\<lambda>w'. gtx C \<sigma> w' ?g)"
      if w1: "inv w1" "view w1 = (view w)(META := ?m)" for w1
    proof -
      have "ok_with (clear_prefix ops w1 NODE_PROPS (encode_edge_type l @ encode_edge_type p))
          (\<lambda>w'. inv w' \<and> view w' = (view w1)(NODE_PROPS := flags (prop_keys (g_nodes g) (g_indexes g - {(l, p)}))))"
        using clear_prefix_wp [OF w1(1), of NODE_PROPS "prop_keys (g_nodes g) (g_indexes g)" "encode_edge_type l @ encode_edge_type p"]
          w1(2) w(4) index_removed [OF w(3) assms(2,3)] by (simp add: index_range_def)
      then show ?thesis using gtx_indexI [where m = ?m, OF assms(1) _ wf meta_ok_unregister [OF w(2,3) True] _ graph_key_upd] w1(2) by (auto elim!: ok_with_mono)
    qed
    then have "ok_with (s_delete ops w META (reg_key l p)) (\<lambda>w1. ok_with (clear_prefix ops w1 NODE_PROPS (encode_edge_type l @ encode_edge_type p)) (\<lambda>w'. gtx C \<sigma> w' ?g))"
      using w(1) by (intro delete_wp) auto
    then show ?thesis using True reg w(1) assms(2,3) by (simp add: drop_property_index_in_def)
  qed
qed

lemma backfill_registered:
  assumes "gtx C \<sigma> w g" "(l, p) \<in> g_indexes g"
  shows "ok_with (backfill_property C ops w l p) (\<lambda>w'. gtx C \<sigma> w' g)"
proof -
  have w: "meta_ok (view w META) g" "graph_wf g" "view w NODE_PROPS = flags (prop_keys (g_nodes g) (g_indexes g))"
    using assms(1) by (auto elim: gtxE)
  have sh: "short l" "short p" using names_short [OF w(2) assms(2)] by auto
  have "prop_keys (g_nodes g) (g_indexes g) - index_range l p \<union> index_rows (g_nodes g) l p = prop_keys (g_nodes g) (g_indexes g)"
    unfolding index_removed [OF w(2) sh] prop_keys_insert [symmetric] using assms(2) by (simp add: insert_absorb)
  then show ?thesis
    using backfill_wp [OF graph_view_core [OF gtx_gread [OF assms(1)]] sh w(3)] gtx_indexI [OF assms(1), of _ "g_indexes g" "view w META"] w
    by (auto elim!: ok_with_mono)
qed

lemma relabel_wp:
  assumes "gtx C \<sigma> w g" "set nodes = {(i, x). g_nodes g i = Some x}"
  shows "ok_with (bind_res (clear_prefix ops w NODE_LABELS []) (\<lambda>w.
      for_res (\<lambda>(i, record) w. bind_res (label_key (nr_label record) i) (\<lambda>lk. s_put ops w NODE_LABELS lk [])) nodes w))
    (\<lambda>w'. inv w' \<and> view w' = (view w)(NODE_LABELS := flags (label_keys (g_nodes g))))"
  using assms(1)
proof (rule gtxE, goal_cases)
  case (1 L)
  obtain w1 where w1: "clear_prefix ops w NODE_LABELS [] = Ok w1" "inv w1" "view w1 = (view w)(NODE_LABELS := flags {})"
    using clear_prefix_wp [OF 1(2) _ 1(7), of "[]"] by (auto simp: ok_with_iff)
  let ?f = "\<lambda>x. Some (label_entry (nr_label (snd x)) (fst x))"
  have "for_res (\<lambda>(i, record) w. bind_res (label_key (nr_label record) i) (\<lambda>lk. s_put ops w NODE_LABELS lk [])) nodes w1
      = for_res (\<lambda>x w. case ?f x of Some k \<Rightarrow> s_put ops w NODE_LABELS k [] | None \<Rightarrow> Ok w) nodes w1"
    using assms(2) wf_nodeD [OF 1(12)] by (intro for_res_cong) auto
  moreover have "{k. \<exists>x\<in>set nodes. ?f x = Some k} = label_keys (g_nodes g)" using assms(2) by (auto simp: label_keys_def)
  ultimately show ?case using put_rows_wp [OF w1(2), of NODE_LABELS "{}" ?f nodes] w1 by simp
qed

lemma rebuild_indexes_wp:
  assumes "gtx C \<sigma> w g"
  shows "ok_with (rebuild_indexes_in C ops w) (\<lambda>w'. gtx C \<sigma> w' (g\<lparr>g_labels_ready := True\<rparr>))"
proof -
  let ?g = "g\<lparr>g_labels_ready := True\<rparr>"
  obtain nodes where nodes: "scan_all_nodes C ops w = Ok nodes" "set nodes = {(i, x). g_nodes g i = Some x}"
    using scan_all_nodes_view [OF graph_view_core [OF gtx_gread [OF assms]]] by blast
  have props: "ok_with (bind_res (property_indexes_in ops w3) (\<lambda>idx. for_res (\<lambda>(l, p) w. backfill_property C ops w l p) idx w3))
      (\<lambda>w'. gtx C \<sigma> w' ?g)" if w3: "gtx C \<sigma> w3 ?g" for w3
  proof -
    obtain xs where xs: "property_indexes_in ops w3 = Ok xs" "set xs = g_indexes g"
      using property_indexes_view [OF gtx_gread [OF w3]] by auto
    have "ok_with (for_res (\<lambda>(l, p) w. backfill_property C ops w l p) xs w3) (\<lambda>w'. gtx C \<sigma> w' ?g)"
      using w3
    proof (rule for_res_rule [where I = "\<lambda>_ w'. gtx C \<sigma> w' ?g"])
      fix ys x zs w4 assume "xs = ys @ x # zs" and w4: "gtx C \<sigma> w4 ?g"
      then have "x \<in> g_indexes ?g" using xs(2) by auto
      then show "ok_with ((case x of (l, p) \<Rightarrow> \<lambda>w. backfill_property C ops w l p) w4) (\<lambda>w'. gtx C \<sigma> w' ?g)"
        using backfill_registered [OF w4, of "fst x" "snd x"] by (cases x) simp
    qed
    then show ?thesis using xs(1) by simp
  qed
  have mark: "ok_with (s_put ops w2 META LABEL_INDEX_MARKER [1]) (\<lambda>w3. gtx C \<sigma> w3 ?g)"
    if w2: "inv w2" "view w2 = (view w)(NODE_LABELS := flags (label_keys (g_nodes g)))" for w2
    using assms
  proof (rule gtxE, goal_cases)
    case (1 L)
    then show ?case using w2
      by (intro put_wp gtxI [where L = "label_keys (g_nodes g)"]) (auto simp: meta_ok_def counter_is_def graph_wf_def intro!: off_graph_meta)
  qed
  show ?thesis using relabel_wp [OF assms nodes(2)] mark props nodes(1)
    by (fastforce simp: rebuild_indexes_in_def elim!: ok_with_mono)
qed

end

end
