(* ===== verification/Graph_Cascade.thy ===== *)
theory Graph_Cascade
  imports Graph_Lookup
begin

text \<open>
  Cascading deletion: the breadth-first loop collects exactly the nodes reachable from the root over
  edges of the containment type, and deleting them takes along exactly the edges that touch one of them.
\<close>

definition typed_step :: "graph \<Rightarrow> string \<Rightarrow> (node_id \<times> node_id) set" where
  "typed_step g l = {(a, b). \<exists>e x. g_edges g e = Some x \<and> er_from x = a \<and> er_to x = b \<and> er_edge_type x = l}"

definition reachable :: "graph \<Rightarrow> string \<Rightarrow> node_id \<Rightarrow> node_id set" where
  "reachable g l root = {j. (root, j) \<in> (typed_step g l)\<^sup>*}"

definition del_nodes :: "node_id set \<Rightarrow> graph \<Rightarrow> graph" where
  "del_nodes R g = g\<lparr>g_nodes := g_nodes g |` (- R),
     g_edges := g_edges g |` {e. \<forall>x. g_edges g e = Some x \<longrightarrow> er_from x \<notin> R \<and> er_to x \<notin> R}\<rparr>"

lemma del_node_nodes: "del_node i (del_nodes R g) = del_nodes (insert i R) g"
  by (cases g) (auto simp: del_node_def del_nodes_def del_edges_def touching_def restrict_map_def fun_eq_iff split: if_splits)

lemma fold_del_node: "fold del_node xs (del_nodes R g) = del_nodes (set xs \<union> R) g"
  by (induction xs arbitrary: R) (simp_all add: del_node_nodes)

lemma del_nodes_empty: "del_nodes {} g = g"
proof -
  have "g_edges g |` UNIV = g_edges g" "g_nodes g |` UNIV = g_nodes g" by (simp_all add: restrict_map_def)
  then show ?thesis by (simp add: del_nodes_def)
qed

lemma fold_visit:
  "\<exists>new. fold visit xs (visited, queue) = (rev new @ visited, queue @ new) \<and> distinct new \<and> set new = set xs - set visited"
proof (induction xs arbitrary: visited queue)
  case (Cons x xs)
  show ?case
  proof (cases "x \<in> set visited")
    case True
    then show ?thesis using Cons.IH [of visited queue] by (auto simp: visit_def [of x])
  next
    case False
    obtain new where new: "fold visit xs (x # visited, queue @ [x]) = (rev new @ x # visited, (queue @ [x]) @ new)"
        "distinct new" "set new = set xs - set (x # visited)"
      using Cons.IH [of "x # visited" "queue @ [x]"] by blast
    then show ?thesis using False by (intro exI [of _ "x # new"]) (auto simp: visit_def [of x])
  qed
qed simp

context graph_read
begin

lemma out_neighbors:
  assumes "gread C r g" "short l"
  shows "\<exists>ns. neighbors_out_in ops r i l = Ok ns \<and> fst ` set ns = typed_step g l `` {i}"
  using neighbors_typed_view [OF assms(1) _ assms(2), of ADJ_OUT i]
  by (force simp: neighbors_out_in_def typed_step_def near_def far_def)

lemma cascade_loop_view:
  assumes "gread C r g" "short l"
    and "set visited = set (to_delete @ queue)" "distinct (to_delete @ queue)" "set visited \<subseteq> reachable g l root" "root \<in> set visited"
    and "typed_step g l `` set to_delete \<subseteq> set visited"
  shows "\<exists>ids. cascade_loop ops r l visited queue to_delete = Ok ids \<and> prefix (to_delete @ queue) ids \<and> distinct ids \<and> set ids = reachable g l root"
  using assms(3-)
proof (induction ops0 \<equiv> ops r0 \<equiv> r l0 \<equiv> l visited queue to_delete rule: cascade_loop.induct)
  case (1 visited queue to_delete)
  show ?case
  proof (cases queue)
    case Nil
    have "j \<in> set visited" if "(root, j) \<in> (typed_step g l)\<^sup>*" for j
      using that 1(5,6) by (induction rule: rtrancl_induct) (use 1(2) Nil in auto)
    then have "set to_delete = reachable g l root" using 1(2,4) Nil by (auto simp: reachable_def)
    then show ?thesis using Nil 1(3) by (subst cascade_loop.simps) auto
  next
    case (Cons current rest)
    obtain ns where ns: "neighbors_out_in ops r current l = Ok ns" "fst ` set ns = typed_step g l `` {current}"
      using out_neighbors [OF assms(1,2)] by blast
    obtain new where new: "fold visit (map fst ns) (visited, rest) = (rev new @ visited, rest @ new)" "distinct new"
        "set new = typed_step g l `` {current} - set visited"
      using fold_visit [of "map fst ns" visited rest] ns(2) by auto
    have "current \<in> reachable g l root" using 1(2,4) Cons by auto
    then have "typed_step g l `` {current} \<subseteq> reachable g l root" by (auto simp: reachable_def intro: rtrancl_into_rtrancl)
    then have "\<exists>ids. cascade_loop ops r l (rev new @ visited) (rest @ new) (to_delete @ [current]) = Ok ids \<and>
        prefix ((to_delete @ [current]) @ rest @ new) ids \<and> distinct ids \<and> set ids = reachable g l root"
      using 1(2-6) new(2,3) Cons
      by (intro 1(1) [OF Cons ns(1) new(1) [symmetric] refl]) auto
    moreover have "cascade_loop ops r l visited queue to_delete = cascade_loop ops r l (rev new @ visited) (rest @ new) (to_delete @ [current])"
      by (subst cascade_loop.simps) (simp add: Cons ns(1) new(1))
    ultimately show ?thesis using Cons append_prefixD [of "to_delete @ current # rest" new] by auto
  qed
qed

end

context graph_store
begin

lemma cascade_delete_wp:
  assumes "gtx C \<sigma> w g" "short l" "g_nodes g root \<noteq> None"
  shows "ok_with (cascade_delete_in C ops w root l) (\<lambda>(ids, w'). distinct ids \<and> set ids = reachable g l root \<and> hd ids = root \<and>
    gtx C \<sigma> w' (del_nodes (reachable g l root) g))"
proof -
  obtain ids where ids: "cascade_loop ops w l [root] [root] [] = Ok ids" "prefix [root] ids" "distinct ids" "set ids = reachable g l root"
    using cascade_loop_view [OF gtx_gread [OF assms(1)] assms(2), of "[root]" "[]" "[root]" root] by (auto simp: reachable_def)
  have "ok_with (for_res (\<lambda>i w. delete_node_in C ops w i) (rev ids) w) (\<lambda>w'. gtx C \<sigma> w' (fold del_node (rev ids) g))"
    by (rule for_res_rule) (use assms(1) delete_node_wp in auto)
  moreover have "fold del_node (rev ids) g = del_nodes (reachable g l root) g"
    using fold_del_node [of "rev ids" "{}" g] ids(4) by (simp add: del_nodes_empty)
  moreover have "hd ids = root" using ids(2) by (auto simp: prefix_def)
  ultimately show ?thesis using get_node_view [OF gtx_gread [OF assms(1)], of root] ids assms(3)
    by (auto simp: cascade_delete_in_def elim!: ok_with_mono)
qed

lemma cascade_delete_missing:
  "gtx C \<sigma> w g \<Longrightarrow> g_nodes g root = None \<Longrightarrow> cascade_delete_in C ops w root l = Err NotFound"
  using get_node_view [OF gtx_gread, of C \<sigma> w g root] by (simp add: cascade_delete_in_def)

end

end
