(* ===== verification/Graph_Traversal.thy ===== *)
theory Graph_Traversal
  imports Graph_Ops
begin

text \<open>
  Traversals and paths (\<open>graph/traversal/mod.rs\<close>, \<open>builder.rs\<close>): breadth-first traversal with
  depth limit and label filter, unweighted and weighted shortest paths, and the grouping of a
  traversal into a tree. A hash set of visited nodes is the list of its elements, a hash map a map.
\<close>

section \<open>Results\<close>

record traversed_node =
  tn_node :: node_id
  tn_depth :: u32
  tn_via_edge :: "edge_id option"
  tn_parent :: "node_id option"

record path_step =
  ps_node :: node_id
  ps_via_edge :: "edge_id option"
  ps_edge_type :: "string option"

record path_result =
  pr_steps :: "path_step list"

definition path_nodes :: "path_result \<Rightarrow> node_id list" where
  "path_nodes p = map ps_node (pr_steps p)"

definition path_edges :: "path_result \<Rightarrow> edge_id list" where
  "path_edges p = List.map_filter ps_via_edge (pr_steps p)"

section \<open>Breadth-first traversal\<close>

definition traversal_one_way :: "('r, 'z) read_ops_scheme \<Rightarrow> 'r \<Rightarrow> table \<Rightarrow> node_id \<Rightarrow> string list option
    \<Rightarrow> (node_id \<times> edge_id) list res" where
  "traversal_one_way ops r t node edge_types = (case edge_types of
      Some types \<Rightarrow> for_res (\<lambda>ty res. bind_res (neighbors_typed ops r t node ty) (\<lambda>xs. Ok (res @ xs))) types []
    | None \<Rightarrow> bind_res (neighbors_any_in ops r t node) (\<lambda>xs. Ok (map (\<lambda>(_, n, e). (n, e)) xs)))"

definition neighbors_for_traversal :: "('r, 'z) read_ops_scheme \<Rightarrow> 'r \<Rightarrow> node_id \<Rightarrow> direction \<Rightarrow> string list option
    \<Rightarrow> (node_id \<times> edge_id) list res" where
  "neighbors_for_traversal ops r node dir edge_types = (case dir of
      Out \<Rightarrow> traversal_one_way ops r ADJ_OUT node edge_types
    | In \<Rightarrow> traversal_one_way ops r ADJ_IN node edge_types
    | Both \<Rightarrow>
        bind_res (traversal_one_way ops r ADJ_OUT node edge_types) (\<lambda>out.
        bind_res (traversal_one_way ops r ADJ_IN node edge_types) (\<lambda>incoming. Ok (out @ incoming))))"

definition label_matches :: "graph_codecs \<Rightarrow> ('r, 'z) read_ops_scheme \<Rightarrow> 'r \<Rightarrow> string option \<Rightarrow> node_id \<Rightarrow> bool res" where
  "label_matches G ops r filter_label i = (case filter_label of
      Some target \<Rightarrow> bind_res (get_node_in G ops r i) (\<lambda>x.
        Ok (case x of Some record \<Rightarrow> nr_label record = target | None \<Rightarrow> False))
    | None \<Rightarrow> Ok True)"

type_synonym bfs_state = "node_id list \<times> (node_id \<times> u32) list \<times> traversed_node list"

definition traverse_step :: "graph_codecs \<Rightarrow> ('r, 'z) read_ops_scheme \<Rightarrow> 'r \<Rightarrow> string option \<Rightarrow> node_id \<Rightarrow> u32
    \<Rightarrow> node_id \<times> edge_id \<Rightarrow> bfs_state \<Rightarrow> bfs_state res" where
  "traverse_step G ops r filter_label current depth n s = (case (n, s) of ((next, e), (visited, queue, out)) \<Rightarrow>
    if next \<in> set visited then Ok s
    else
      bind_res (label_matches G ops r filter_label next) (\<lambda>matches.
      Ok (next # visited, queue @ [(next, depth + 1)],
        if matches then out @ [\<lparr>tn_node = next, tn_depth = depth + 1, tn_via_edge = Some e, tn_parent = Some current\<rparr>] else out)))"

lemma traverse_step_measure:
  "for_res (traverse_step G ops r fl current depth) ns (visited, queue, out) = Ok (visited', queue', out') \<Longrightarrow>
    unvisited visited' < unvisited visited \<or> unvisited visited' = unvisited visited \<and> queue' = queue"
proof (induction ns arbitrary: visited queue out)
  case (Cons n ns)
  obtain nx e where n: "n = (nx, e)" by (metis surj_pair)
  show ?case
  proof (cases "nx \<in> set visited")
    case False
    then obtain out1 where
      "for_res (traverse_step G ops r fl current depth) ns (nx # visited, queue @ [(nx, depth + 1)], out1) = Ok (visited', queue', out')"
      using Cons.prems n by (auto simp: traverse_step_def [of G ops r fl current depth "(nx, e)"] bind_res_Ok_iff)
    from Cons.IH [OF this] unvisited_Cons [OF False] show ?thesis by linarith
  qed (use Cons n in \<open>simp add: traverse_step_def [of G ops r fl current depth "(nx, e)"]\<close>)
qed simp

function traverse_loop :: "graph_codecs \<Rightarrow> ('r, 'z) read_ops_scheme \<Rightarrow> 'r \<Rightarrow> direction \<Rightarrow> string list option \<Rightarrow> string option
    \<Rightarrow> u32 \<Rightarrow> bfs_state \<Rightarrow> traversed_node list res" where
  "traverse_loop G ops r dir edge_types filter_label max_depth (visited, queue, out) = (case queue of
      [] \<Rightarrow> Ok out
    | (current, depth) # queue \<Rightarrow>
        if max_depth \<le> depth then traverse_loop G ops r dir edge_types filter_label max_depth (visited, queue, out)
        else
          bind_res (neighbors_for_traversal ops r current dir edge_types) (\<lambda>neighbors.
          bind_res (for_res (traverse_step G ops r filter_label current depth) neighbors (visited, queue, out)) (\<lambda>s.
          traverse_loop G ops r dir edge_types filter_label max_depth s)))"
  by pat_completeness auto
termination
proof (relation "measures [\<lambda>(G, ops, r, dir, types, fl, md, visited, queue, out). unvisited visited,
      \<lambda>(G, ops, r, dir, types, fl, md, visited, queue, out). length queue]", goal_cases)
  case (3 G ops r dir types fl md visited queue out x rest current depth neighbors s)
  then show ?case using traverse_step_measure [of G ops r fl current depth neighbors visited rest out] by (cases s) auto
qed simp_all

declare traverse_loop.simps [simp del]

definition traverse_in :: "graph_codecs \<Rightarrow> ('r, 'z) read_ops_scheme \<Rightarrow> 'r \<Rightarrow> node_id \<Rightarrow> direction \<Rightarrow> string list option
    \<Rightarrow> string option \<Rightarrow> u32 \<Rightarrow> traversed_node list res" where
  "traverse_in G ops r start dir edge_types filter_label max_depth =
    bind_res (label_matches G ops r filter_label start) (\<lambda>include_start.
    traverse_loop G ops r dir edge_types filter_label max_depth
      ([start], [(start, 0)],
       if include_start then [\<lparr>tn_node = start, tn_depth = 0, tn_via_edge = None, tn_parent = None\<rparr>] else []))"

section \<open>Shortest path\<close>

definition path_one_way :: "('r, 'z) read_ops_scheme \<Rightarrow> 'r \<Rightarrow> table \<Rightarrow> node_id \<Rightarrow> string list option
    \<Rightarrow> (node_id \<times> edge_id \<times> string) list res" where
  "path_one_way ops r t node edge_types =
    bind_res (neighbors_any_in ops r t node) (\<lambda>all.
    Ok (map (\<lambda>(ty, n, e). (n, e, ty)) (filter (\<lambda>(ty, _, _). case edge_types of None \<Rightarrow> True | Some types \<Rightarrow> ty \<in> set types) all)))"

definition neighbors_for_path :: "('r, 'z) read_ops_scheme \<Rightarrow> 'r \<Rightarrow> node_id \<Rightarrow> direction \<Rightarrow> string list option
    \<Rightarrow> (node_id \<times> edge_id \<times> string) list res" where
  "neighbors_for_path ops r node dir edge_types = (case dir of
      Out \<Rightarrow> path_one_way ops r ADJ_OUT node edge_types
    | In \<Rightarrow> path_one_way ops r ADJ_IN node edge_types
    | Both \<Rightarrow>
        bind_res (path_one_way ops r ADJ_OUT node edge_types) (\<lambda>out.
        bind_res (path_one_way ops r ADJ_IN node edge_types) (\<lambda>incoming. Ok (out @ incoming))))"

type_synonym parent_map = "node_id \<rightharpoonup> node_id \<times> edge_id \<times> string"

text \<open>The inner loop; the first component says that the target was reached (\<open>break 'outer\<close>).\<close>

fun path_scan :: "node_id \<Rightarrow> node_id \<Rightarrow> (node_id \<times> edge_id \<times> string) list \<Rightarrow> node_id list \<Rightarrow> parent_map \<Rightarrow> node_id list
    \<Rightarrow> bool \<times> node_id list \<times> parent_map \<times> node_id list" where
  "path_scan current target [] visited parent queue = (False, visited, parent, queue)"
| "path_scan current target ((next, e, ty) # ns) visited parent queue =
    (if next \<in> set visited then path_scan current target ns visited parent queue
     else if next = target then (True, next # visited, parent(next \<mapsto> (current, e, ty)), queue)
     else path_scan current target ns (next # visited) (parent(next \<mapsto> (current, e, ty))) (queue @ [next]))"

lemma path_scan_measure:
  "path_scan current target ns visited parent queue = (False, visited', parent', queue') \<Longrightarrow>
    unvisited visited' < unvisited visited \<or> unvisited visited' = unvisited visited \<and> queue' = queue"
proof (induction current target ns visited parent queue rule: path_scan.induct)
  case (2 current target nx e ty ns visited parent queue)
  show ?case
  proof (cases "nx \<in> set visited \<or> nx = target")
    case False
    then show ?thesis using 2(2) [OF _ _] 2(3) unvisited_Cons [of nx visited] by fastforce
  qed (use 2 in \<open>auto split: if_splits\<close>)
qed simp

function path_loop :: "('r, 'z) read_ops_scheme \<Rightarrow> 'r \<Rightarrow> node_id \<Rightarrow> direction \<Rightarrow> string list option
    \<Rightarrow> node_id list \<Rightarrow> parent_map \<Rightarrow> node_id list \<Rightarrow> parent_map option res" where
  "path_loop ops r target dir edge_types visited parent queue = (case queue of
      [] \<Rightarrow> Ok None
    | current # queue \<Rightarrow>
        bind_res (neighbors_for_path ops r current dir edge_types) (\<lambda>neighbors.
        case path_scan current target neighbors visited parent queue of (found, visited, parent, queue) \<Rightarrow>
          if found then Ok (Some parent) else path_loop ops r target dir edge_types visited parent queue))"
  by pat_completeness auto
termination
proof (relation "measures [\<lambda>(ops, r, target, dir, types, visited, parent, queue). unvisited visited,
      \<lambda>(ops, r, target, dir, types, visited, parent, queue). length queue]", goal_cases)
  case 2
  then show ?case by (auto dest!: path_scan_measure [OF sym])
qed simp

declare path_loop.simps [simp del]

text \<open>Walking the parents back from the target: \<open>None\<close> is a walk that never returns.\<close>

partial_function (option) walk_back :: "node_id \<Rightarrow> parent_map \<Rightarrow> node_id \<Rightarrow> path_step list \<Rightarrow> path_step list res option" where
  "walk_back start parent cur steps =
    (if cur = start then Some (Ok steps)
     else (case parent cur of
         None \<Rightarrow> Some Panic
       | Some (prev, e, ty) \<Rightarrow>
           walk_back start parent prev (steps @ [\<lparr>ps_node = cur, ps_via_edge = Some e, ps_edge_type = Some ty\<rparr>])))"

definition start_step :: "node_id \<Rightarrow> path_step" where
  "start_step start = \<lparr>ps_node = start, ps_via_edge = None, ps_edge_type = None\<rparr>"

definition steps_to :: "node_id \<Rightarrow> node_id \<Rightarrow> parent_map \<Rightarrow> path_result res option" where
  "steps_to start target parent =
    map_option (\<lambda>s. bind_res s (\<lambda>steps. Ok \<lparr>pr_steps = rev (steps @ [start_step start])\<rparr>)) (walk_back start parent target [])"

definition find_shortest_path_in :: "graph_codecs \<Rightarrow> ('r, 'z) read_ops_scheme \<Rightarrow> 'r \<Rightarrow> node_id \<Rightarrow> node_id \<Rightarrow> direction
    \<Rightarrow> string list option \<Rightarrow> path_result option res option" where
  "find_shortest_path_in G ops r start target dir edge_types =
    (if start = target then
       Some (bind_res (get_node_in G ops r start) (\<lambda>x.
         Ok (if x = None then None else Some \<lparr>pr_steps = [start_step start]\<rparr>)))
     else (case path_loop ops r target dir edge_types [start] Map.empty [start] of
         Ok None \<Rightarrow> Some (Ok None)
       | Ok (Some parent) \<Rightarrow> map_option (\<lambda>p. bind_res p (\<lambda>p. Ok (Some p))) (steps_to start target parent)
       | Err e \<Rightarrow> Some (Err e)
       | Panic \<Rightarrow> Some Panic))"

section \<open>Weighted shortest path\<close>

record weighted_path =
  wp_path :: path_result
  wp_cost :: f64

definition F64_INFINITY :: f64 where "F64_INFINITY = word_of_nat f64_inf"

definition invalid_weight :: "f64 \<Rightarrow> bool" where
  "invalid_weight w = (\<not> (is_finite w \<and> (f64_partial_cmp w 0 = Some Greater \<or> f64_partial_cmp w 0 = Some Equal)))"

definition dist_of :: "(node_id \<rightharpoonup> f64) \<Rightarrow> node_id \<Rightarrow> f64" where
  "dist_of dist n = (case dist n of Some d \<Rightarrow> d | None \<Rightarrow> F64_INFINITY)"

definition edge_weight :: "graph_codecs \<Rightarrow> ('r, 'z) read_ops_scheme \<Rightarrow> 'r \<Rightarrow> string \<Rightarrow> f64 \<Rightarrow> edge_id \<Rightarrow> f64 res" where
  "edge_weight G ops r weight_property default_weight e =
    bind_res (get_edge_in G ops r e) (\<lambda>x.
    Ok (case Option.bind x (\<lambda>r. map_of (er_properties r) weight_property) of
        Some (IntV i) \<Rightarrow> f64_of_i64 i
      | Some (Float f) \<Rightarrow> f
      | _ \<Rightarrow> default_weight))"

text \<open>The priority queue, least \<open>(cost, node)\<close> first, is the ascending list of its entries.\<close>

definition heap_key :: "f64 \<times> node_id \<Rightarrow> int \<times> node_id" where
  "heap_key x = (f64_total_key (fst x), snd x)"

type_synonym dijkstra_state = "(node_id \<rightharpoonup> f64) \<times> parent_map \<times> (f64 \<times> node_id) list"

definition relax :: "graph_codecs \<Rightarrow> ('r, 'z) read_ops_scheme \<Rightarrow> 'r \<Rightarrow> string \<Rightarrow> f64 \<Rightarrow> f64 \<Rightarrow> node_id
    \<Rightarrow> node_id \<times> edge_id \<times> string \<Rightarrow> dijkstra_state \<Rightarrow> dijkstra_state res" where
  "relax G ops r weight_property default_weight d node n s = (case (n, s) of ((next, e, ty), (dist, parent, heap)) \<Rightarrow>
    bind_res (edge_weight G ops r weight_property default_weight e) (\<lambda>weight.
    if invalid_weight weight then Err (Encoding ''edge has invalid weight (must be finite and >= 0)'')
    else
      let candidate = f64_add d weight
      in if f64_lt candidate (dist_of dist next)
         then Ok (dist(next \<mapsto> candidate), parent(next \<mapsto> (node, e, ty)), insort_key heap_key (candidate, next) heap)
         else Ok s))"

definition dist_rank :: "(node_id \<rightharpoonup> f64) \<Rightarrow> nat" where
  "dist_rank dist = (\<Sum>n\<in>UNIV. card {x. f64_lt x (dist_of dist n)})"

lemma f64_lt_trans: "f64_lt x y \<Longrightarrow> f64_lt y z \<Longrightarrow> f64_lt x z"
  by (auto simp: f64_lt_def f64_partial_cmp_def split: if_splits)

lemma f64_lt_irrefl [simp]: "\<not> f64_lt x x"
  by (simp add: f64_lt_def f64_partial_cmp_def)

lemma dist_rank_update:
  assumes "f64_lt c (dist_of dist n)"
  shows "dist_rank (dist(n \<mapsto> c)) < dist_rank dist"
proof -
  have less: "card {x. f64_lt x c} < card {x. f64_lt x (dist_of dist n)}"
  proof (intro psubset_card_mono psubsetI)
    show "{x. f64_lt x c} \<noteq> {x. f64_lt x (dist_of dist n)}" using assms f64_lt_irrefl by blast
  qed (use assms f64_lt_trans in auto)
  have "dist_of (dist(n \<mapsto> c)) m = (if m = n then c else dist_of dist m)" for m by (simp add: dist_of_def)
  then show ?thesis
    unfolding dist_rank_def using less by (intro sum_strict_mono_ex1) auto
qed

lemma relax_measure:
  "for_res (relax G ops r wp dw d node) ns (dist, parent, heap) = Ok (dist', parent', heap') \<Longrightarrow>
    dist_rank dist' < dist_rank dist \<or> dist' = dist \<and> heap' = heap"
proof (induction ns arbitrary: dist parent heap)
  case (Cons n ns)
  obtain nx e ty where n: "n = (nx, e, ty)" by (metis surj_pair)
  obtain s1 where s1: "relax G ops r wp dw d node n (dist, parent, heap) = Ok s1" "for_res (relax G ops r wp dw d node) ns s1 = Ok (dist', parent', heap')"
    using Cons.prems by (auto simp: bind_res_Ok_iff)
  consider "s1 = (dist, parent, heap)" | c where "f64_lt c (dist_of dist nx)" "fst s1 = dist(nx \<mapsto> c)"
    using s1(1) n by (auto simp: relax_def bind_res_Ok_iff Let_def split: if_splits)
  then show ?case
  proof cases
    case 1 then show ?thesis using Cons.IH s1(2) by simp
  next
    case 2
    obtain p1 h1 where "s1 = (dist(nx \<mapsto> c), p1, h1)" using 2(2) by (metis prod.collapse)
    then have "dist_rank dist' < dist_rank (dist(nx \<mapsto> c)) \<or> dist' = dist(nx \<mapsto> c) \<and> heap' = h1"
      using Cons.IH [of "dist(nx \<mapsto> c)"] s1(2) by (metis)
    then show ?thesis using dist_rank_update [OF 2(1)] by (metis less_trans)
  qed
qed simp

function dijkstra_loop :: "graph_codecs \<Rightarrow> ('r, 'z) read_ops_scheme \<Rightarrow> 'r \<Rightarrow> node_id \<Rightarrow> direction \<Rightarrow> string list option \<Rightarrow> string \<Rightarrow> f64
    \<Rightarrow> dijkstra_state \<Rightarrow> dijkstra_state res" where
  "dijkstra_loop G ops r target dir edge_types weight_property default_weight (dist, parent, heap) = (case heap of
      [] \<Rightarrow> Ok (dist, parent, heap)
    | (d, node) # heap \<Rightarrow>
        if node = target then Ok (dist, parent, heap)
        else if f64_lt (dist_of dist node) d
        then dijkstra_loop G ops r target dir edge_types weight_property default_weight (dist, parent, heap)
        else
          bind_res (neighbors_for_path ops r node dir edge_types) (\<lambda>neighbors.
          bind_res (for_res (relax G ops r weight_property default_weight d node) neighbors (dist, parent, heap)) (\<lambda>s.
          dijkstra_loop G ops r target dir edge_types weight_property default_weight s)))"
  by pat_completeness auto
termination
proof (relation "measures [\<lambda>(G, ops, r, target, dir, types, wp, dw, dist, parent, heap). dist_rank dist,
      \<lambda>(G, ops, r, target, dir, types, wp, dw, dist, parent, heap). length heap]", goal_cases)
  case (3 G ops r target dir types wp dw dist parent heap x rest d node neighbors s)
  then show ?case using relax_measure [of G ops r wp dw d node neighbors dist parent rest] by (cases s) auto
qed simp_all

declare dijkstra_loop.simps [simp del]

definition find_weighted_path_in :: "graph_codecs \<Rightarrow> ('r, 'z) read_ops_scheme \<Rightarrow> 'r \<Rightarrow> node_id \<Rightarrow> node_id \<Rightarrow> direction
    \<Rightarrow> string list option \<Rightarrow> string \<Rightarrow> f64 \<Rightarrow> weighted_path option res option" where
  "find_weighted_path_in G ops r start target dir edge_types weight_property default_weight =
    (if invalid_weight default_weight then Some (Err (Encoding ''default edge weight must be finite and >= 0''))
     else
       let found = bind_res (get_node_in G ops r start) (\<lambda>a.
             if a = None then Ok False else bind_res (get_node_in G ops r target) (\<lambda>b. Ok (b \<noteq> None)));
           searched = bind_res found (\<lambda>ok.
             if ok then bind_res (dijkstra_loop G ops r target dir edge_types weight_property default_weight
                 ([start \<mapsto> 0], Map.empty, [(0, start)])) (\<lambda>s. Ok (Some s))
             else Ok None)
       in case searched of
            Err e \<Rightarrow> Some (Err e)
          | Panic \<Rightarrow> Some Panic
          | Ok None \<Rightarrow> Some (Ok None)
          | Ok (Some (dist, parent, _)) \<Rightarrow> (case dist target of
              None \<Rightarrow> Some (Ok None)
            | Some cost \<Rightarrow>
                map_option (\<lambda>p. bind_res p (\<lambda>p. Ok (Some \<lparr>wp_path = p, wp_cost = cost\<rparr>))) (steps_to start target parent)))"

section \<open>Builder\<close>

record traversal_builder =
  tb_start :: "node_id option"
  tb_direction :: direction
  tb_edge_types :: "string list option"
  tb_filter_label :: "string option"
  tb_max_depth :: u32

definition tb_new :: traversal_builder where
  "tb_new = \<lparr>tb_start = None, tb_direction = Out, tb_edge_types = None, tb_filter_label = None, tb_max_depth = 10\<rparr>"

definition tb_outgoing :: "string \<Rightarrow> traversal_builder \<Rightarrow> traversal_builder" where
  "tb_outgoing edge_type b = b\<lparr>tb_direction := Out, tb_edge_types := Some [edge_type]\<rparr>"

definition tb_incoming :: "string \<Rightarrow> traversal_builder \<Rightarrow> traversal_builder" where
  "tb_incoming edge_type b = b\<lparr>tb_direction := In, tb_edge_types := Some [edge_type]\<rparr>"

definition tb_set_start :: "node_id \<Rightarrow> traversal_builder \<Rightarrow> traversal_builder" where
  "tb_set_start i b = b\<lparr>tb_start := Some i\<rparr>"

definition tb_filter_edge_types :: "string list \<Rightarrow> traversal_builder \<Rightarrow> traversal_builder" where
  "tb_filter_edge_types types b = b\<lparr>tb_edge_types := Some types\<rparr>"

definition tb_filter_node_label :: "string \<Rightarrow> traversal_builder \<Rightarrow> traversal_builder" where
  "tb_filter_node_label label b = b\<lparr>tb_filter_label := Some label\<rparr>"

definition tb_any_type :: "traversal_builder \<Rightarrow> traversal_builder" where
  "tb_any_type b = b\<lparr>tb_edge_types := None\<rparr>"

definition tb_set_direction :: "direction \<Rightarrow> traversal_builder \<Rightarrow> traversal_builder" where
  "tb_set_direction dir b = b\<lparr>tb_direction := dir\<rparr>"

definition tb_set_max_depth :: "u32 \<Rightarrow> traversal_builder \<Rightarrow> traversal_builder" where
  "tb_set_max_depth depth b = b\<lparr>tb_max_depth := depth\<rparr>"

definition tb_run_on_tx :: "graph_codecs \<Rightarrow> ('r, 'z) read_ops_scheme \<Rightarrow> 'r \<Rightarrow> traversal_builder \<Rightarrow> traversed_node list res" where
  "tb_run_on_tx G ops r b =
    bind_res (ok_or (tb_start b) (Encoding ''traversal requires .start(id)'')) (\<lambda>start.
    traverse_in G ops r start (tb_direction b) (tb_edge_types b) (tb_filter_label b) (tb_max_depth b))"

definition tb_run :: "graph_codecs \<Rightarrow> ('b, 'r, 'w) backend_ops \<Rightarrow> 'b \<Rightarrow> traversal_builder \<Rightarrow> traversed_node list res" where
  "tb_run G B b tb =
    bind_res (ok_or (tb_start tb) (Encoding ''traversal requires .start(id)'')) (\<lambda>start.
    bind_res (begin_read B b) (\<lambda>r.
    traverse_in G (read_tx B) r start (tb_direction tb) (tb_edge_types tb) (tb_filter_label tb) (tb_max_depth tb)))"

section \<open>Call trees\<close>

datatype call_tree_node = CallTreeNode (ct_node: node_id) (ct_via_edge: "edge_id option") (ct_children: "call_tree_node list")

text \<open>\<open>children_of\<close> groups the nodes by parent, in the order of the list.\<close>

definition children_of :: "traversed_node list \<Rightarrow> node_id option \<Rightarrow> traversed_node list" where
  "children_of nodes p = filter (\<lambda>n. tn_parent n = p) nodes"

text \<open>\<open>build\<close> recurses into the children of a node and depends on nothing but the node's id: deeper
  than there are nodes, an id has come back and the recursion has no end. The fuel is one more.\<close>

primrec build_tree :: "nat \<Rightarrow> traversed_node list \<Rightarrow> traversed_node \<Rightarrow> call_tree_node option" where
  "build_tree 0 nodes n = None"
| "build_tree (Suc fuel) nodes n =
    (let kids = map (build_tree fuel nodes) (children_of nodes (Some (tn_node n)))
     in if None \<in> set kids then None else Some (CallTreeNode (tn_node n) (tn_via_edge n) (map the kids)))"

definition to_tree :: "traversed_node list \<Rightarrow> call_tree_node list option" where
  "to_tree nodes =
    (let roots = map (build_tree (Suc (length nodes)) nodes) (children_of nodes None)
     in if None \<in> set roots then None else Some (map the roots))"

end
