(* ===== verification/Graph_Db.thy ===== *)
theory Graph_Db
  imports Graph_Traversal
begin

text \<open>
  The graph facade (\<open>graph/db/mod.rs\<close>) and its batch and read views (\<open>graph/txn.rs\<close>). A method of
  \<open>GraphDb\<close> opens a transaction, calls the operation and, if it wrote, commits; the batch and read
  views call the same operations on a transaction that is already open.
\<close>

section \<open>Write methods\<close>

text \<open>Open a write transaction, run the operation, commit; an error leaves before the commit.\<close>

definition in_write :: "('b, 'r, 'w) backend_ops \<Rightarrow> 'b \<Rightarrow> ('w \<Rightarrow> ('a \<times> 'w) res) \<Rightarrow> ('a \<times> 'b) res" where
  "in_write B b f =
    bind_res (begin_write B b) (\<lambda>wtx.
    bind_res (f wtx) (\<lambda>(x, wtx).
    bind_res (commit B b wtx) (\<lambda>b. Ok (x, b))))"

text \<open>An operation without a result.\<close>

definition unit_of :: "'w res \<Rightarrow> (unit \<times> 'w) res" where
  "unit_of r = bind_res r (\<lambda>w. Ok ((), w))"

definition graph_create_node :: "graph_codecs \<Rightarrow> ('b, 'r, 'w) backend_ops \<Rightarrow> 'b \<Rightarrow> string \<Rightarrow> properties \<Rightarrow> (node_id \<times> 'b) res" where
  "graph_create_node G B b label properties = in_write B b (\<lambda>w. create_node_in G (write_tx B) w label properties)"

definition graph_create_nodes_bulk :: "graph_codecs \<Rightarrow> ('b, 'r, 'w) backend_ops \<Rightarrow> 'b \<Rightarrow> (string \<times> properties) list \<Rightarrow> (node_id list \<times> 'b) res" where
  "graph_create_nodes_bulk G B b nodes = in_write B b (\<lambda>w. create_nodes_bulk_in G (write_tx B) w nodes)"

definition graph_create_edge :: "graph_codecs \<Rightarrow> ('b, 'r, 'w) backend_ops \<Rightarrow> 'b \<Rightarrow> node_id \<Rightarrow> string \<Rightarrow> node_id \<Rightarrow> properties \<Rightarrow> (edge_id \<times> 'b) res" where
  "graph_create_edge G B b from edge_type to properties = in_write B b (\<lambda>w. create_edge_in G (write_tx B) w from edge_type to properties)"

definition graph_create_edges_bulk :: "graph_codecs \<Rightarrow> ('b, 'r, 'w) backend_ops \<Rightarrow> 'b \<Rightarrow> (node_id \<times> string \<times> node_id \<times> properties) list \<Rightarrow> (edge_id list \<times> 'b) res" where
  "graph_create_edges_bulk G B b edges = in_write B b (\<lambda>w. create_edges_bulk_in G (write_tx B) w edges)"

definition graph_delete_node :: "graph_codecs \<Rightarrow> ('b, 'r, 'w) backend_ops \<Rightarrow> 'b \<Rightarrow> node_id \<Rightarrow> (unit \<times> 'b) res" where
  "graph_delete_node G B b i = in_write B b (\<lambda>w. unit_of (delete_node_in G (write_tx B) w i))"

definition graph_update_edge_properties :: "graph_codecs \<Rightarrow> ('b, 'r, 'w) backend_ops \<Rightarrow> 'b \<Rightarrow> edge_id \<Rightarrow> (properties \<Rightarrow> properties) \<Rightarrow> (unit \<times> 'b) res" where
  "graph_update_edge_properties G B b edge mutate = in_write B b (\<lambda>w. unit_of (update_edge_properties_in G (write_tx B) w edge mutate))"

definition graph_update_node_properties :: "graph_codecs \<Rightarrow> ('b, 'r, 'w) backend_ops \<Rightarrow> 'b \<Rightarrow> node_id \<Rightarrow> (properties \<Rightarrow> properties) \<Rightarrow> (unit \<times> 'b) res" where
  "graph_update_node_properties G B b i mutate = in_write B b (\<lambda>w. unit_of (update_node_properties_in G (write_tx B) w i mutate))"

definition graph_delete_edge :: "graph_codecs \<Rightarrow> ('b, 'r, 'w) backend_ops \<Rightarrow> 'b \<Rightarrow> edge_id \<Rightarrow> (bool \<times> 'b) res" where
  "graph_delete_edge G B b edge = in_write B b (\<lambda>w. delete_edge_in G (write_tx B) w edge)"

definition graph_create_property_index :: "graph_codecs \<Rightarrow> ('b, 'r, 'w) backend_ops \<Rightarrow> 'b \<Rightarrow> string \<Rightarrow> string \<Rightarrow> (bool \<times> 'b) res" where
  "graph_create_property_index G B b label property = in_write B b (\<lambda>w. create_property_index_in G (write_tx B) w label property)"

definition graph_drop_property_index :: "('b, 'r, 'w) backend_ops \<Rightarrow> 'b \<Rightarrow> string \<Rightarrow> string \<Rightarrow> (bool \<times> 'b) res" where
  "graph_drop_property_index B b label property = in_write B b (\<lambda>w. drop_property_index_in (write_tx B) w label property)"

definition graph_rebuild_indexes :: "graph_codecs \<Rightarrow> ('b, 'r, 'w) backend_ops \<Rightarrow> 'b \<Rightarrow> (unit \<times> 'b) res" where
  "graph_rebuild_indexes G B b = in_write B b (\<lambda>w. unit_of (rebuild_indexes_in G (write_tx B) w))"

definition graph_cascade_delete :: "graph_codecs \<Rightarrow> ('b, 'r, 'w) backend_ops \<Rightarrow> 'b \<Rightarrow> node_id \<Rightarrow> string \<Rightarrow> (node_id list \<times> 'b) res" where
  "graph_cascade_delete G B b root containment_edge_type = in_write B b (\<lambda>w. cascade_delete_in G (write_tx B) w root containment_edge_type)"

text \<open>\<open>write_tx\<close>: a closure over one open transaction, committed if it succeeds.\<close>

definition graph_write_tx :: "('b, 'r, 'w) backend_ops \<Rightarrow> 'b \<Rightarrow> ('w \<Rightarrow> ('a \<times> 'w) res) \<Rightarrow> ('a \<times> 'b) res" where
  "graph_write_tx B b f =
    bind_res (begin_write B b) (\<lambda>wtx.
    bind_res (f wtx) (\<lambda>(result, batch).
    bind_res (commit B b batch) (\<lambda>b. Ok (result, b))))"

section \<open>Read methods\<close>

definition graph_get_node :: "graph_codecs \<Rightarrow> ('b, 'r, 'w) backend_ops \<Rightarrow> 'b \<Rightarrow> node_id \<Rightarrow> node_record option res" where
  "graph_get_node G B b i = bind_res (begin_read B b) (\<lambda>rtx. get_node_in G (read_tx B) rtx i)"

definition graph_get_edge :: "graph_codecs \<Rightarrow> ('b, 'r, 'w) backend_ops \<Rightarrow> 'b \<Rightarrow> edge_id \<Rightarrow> edge_record option res" where
  "graph_get_edge G B b e = bind_res (begin_read B b) (\<lambda>rtx. get_edge_in G (read_tx B) rtx e)"

definition graph_neighbors_out :: "('b, 'r, 'w) backend_ops \<Rightarrow> 'b \<Rightarrow> node_id \<Rightarrow> string \<Rightarrow> (node_id \<times> edge_id) list res" where
  "graph_neighbors_out B b node edge_type = bind_res (begin_read B b) (\<lambda>rtx. neighbors_out_in (read_tx B) rtx node edge_type)"

definition graph_neighbors_in :: "('b, 'r, 'w) backend_ops \<Rightarrow> 'b \<Rightarrow> node_id \<Rightarrow> string \<Rightarrow> (node_id \<times> edge_id) list res" where
  "graph_neighbors_in B b node edge_type = bind_res (begin_read B b) (\<lambda>rtx. neighbors_in_in (read_tx B) rtx node edge_type)"

definition graph_neighbors_out_any :: "('b, 'r, 'w) backend_ops \<Rightarrow> 'b \<Rightarrow> node_id \<Rightarrow> (string \<times> node_id \<times> edge_id) list res" where
  "graph_neighbors_out_any B b node = bind_res (begin_read B b) (\<lambda>rtx. neighbors_any_in (read_tx B) rtx ADJ_OUT node)"

definition graph_neighbors_in_any :: "('b, 'r, 'w) backend_ops \<Rightarrow> 'b \<Rightarrow> node_id \<Rightarrow> (string \<times> node_id \<times> edge_id) list res" where
  "graph_neighbors_in_any B b node = bind_res (begin_read B b) (\<lambda>rtx. neighbors_any_in (read_tx B) rtx ADJ_IN node)"

definition graph_out_degree :: "('b, 'r, 'w) backend_ops \<Rightarrow> 'b \<Rightarrow> node_id \<Rightarrow> nat res" where
  "graph_out_degree B b node = bind_res (graph_neighbors_out_any B b node) (\<lambda>xs. Ok (length xs))"

definition graph_in_degree :: "('b, 'r, 'w) backend_ops \<Rightarrow> 'b \<Rightarrow> node_id \<Rightarrow> nat res" where
  "graph_in_degree B b node = bind_res (graph_neighbors_in_any B b node) (\<lambda>xs. Ok (length xs))"

definition graph_nodes_by_label :: "graph_codecs \<Rightarrow> ('b, 'r, 'w) backend_ops \<Rightarrow> 'b \<Rightarrow> string \<Rightarrow> node_id list res" where
  "graph_nodes_by_label G B b label = bind_res (begin_read B b) (\<lambda>rtx. nodes_by_label_in G (read_tx B) rtx label)"

definition graph_find_nodes :: "graph_codecs \<Rightarrow> ('b, 'r, 'w) backend_ops \<Rightarrow> 'b \<Rightarrow> string \<Rightarrow> string \<Rightarrow> prop_value \<Rightarrow> node_id list res" where
  "graph_find_nodes G B b label property v = bind_res (begin_read B b) (\<lambda>rtx. find_nodes_in G (read_tx B) rtx label property v)"

definition graph_property_indexes :: "('b, 'r, 'w) backend_ops \<Rightarrow> 'b \<Rightarrow> (string \<times> string) list res" where
  "graph_property_indexes B b = bind_res (begin_read B b) (\<lambda>rtx. property_indexes_in (read_tx B) rtx)"

definition graph_top_hubs :: "graph_codecs \<Rightarrow> ('b, 'r, 'w) backend_ops \<Rightarrow> 'b \<Rightarrow> nat \<Rightarrow> direction \<Rightarrow> string option \<Rightarrow> (node_id \<times> nat) list res" where
  "graph_top_hubs G B b limit dir label = bind_res (begin_read B b) (\<lambda>rtx. top_hubs_in G (read_tx B) rtx limit dir label)"

text \<open>The path searches may, in the model, not return: \<open>None\<close>.\<close>

definition graph_find_shortest_path :: "graph_codecs \<Rightarrow> ('b, 'r, 'w) backend_ops \<Rightarrow> 'b \<Rightarrow> node_id \<Rightarrow> node_id \<Rightarrow> direction
    \<Rightarrow> string list option \<Rightarrow> path_result option res option" where
  "graph_find_shortest_path G B b start target dir edge_types = (case begin_read B b of
      Ok rtx \<Rightarrow> find_shortest_path_in G (read_tx B) rtx start target dir edge_types
    | Err e \<Rightarrow> Some (Err e)
    | Panic \<Rightarrow> Some Panic)"

definition graph_find_weighted_path :: "graph_codecs \<Rightarrow> ('b, 'r, 'w) backend_ops \<Rightarrow> 'b \<Rightarrow> node_id \<Rightarrow> node_id \<Rightarrow> direction
    \<Rightarrow> string list option \<Rightarrow> string \<Rightarrow> f64 \<Rightarrow> weighted_path option res option" where
  "graph_find_weighted_path G B b start target dir edge_types weight_property default_weight = (case begin_read B b of
      Ok rtx \<Rightarrow> find_weighted_path_in G (read_tx B) rtx start target dir edge_types weight_property default_weight
    | Err e \<Rightarrow> Some (Err e)
    | Panic \<Rightarrow> Some Panic)"

section \<open>The batch and read views\<close>

definition batch_create_node where
  "batch_create_node G ops w label properties = create_node_in G ops w label properties"

definition batch_create_nodes_bulk where
  "batch_create_nodes_bulk G ops w nodes = create_nodes_bulk_in G ops w nodes"

definition batch_create_edge where
  "batch_create_edge G ops w from edge_type to properties = create_edge_in G ops w from edge_type to properties"

definition batch_create_edges_bulk where
  "batch_create_edges_bulk G ops w edges = create_edges_bulk_in G ops w edges"

definition batch_delete_node where
  "batch_delete_node G ops w i = delete_node_in G ops w i"

definition batch_create_property_index where
  "batch_create_property_index G ops w label property = create_property_index_in G ops w label property"

definition batch_drop_property_index where
  "batch_drop_property_index ops w label property = drop_property_index_in ops w label property"

definition batch_rebuild_indexes where
  "batch_rebuild_indexes G ops w = rebuild_indexes_in G ops w"

definition batch_update_node_properties where
  "batch_update_node_properties G ops w i mutate = update_node_properties_in G ops w i mutate"

definition batch_delete_edge where
  "batch_delete_edge G ops w edge = delete_edge_in G ops w edge"

definition batch_update_edge_properties where
  "batch_update_edge_properties G ops w edge mutate = update_edge_properties_in G ops w edge mutate"

definition batch_cascade_delete where
  "batch_cascade_delete G ops w root containment_edge_type = cascade_delete_in G ops w root containment_edge_type"

text \<open>The reads of \<open>BatchGraph\<close> and of \<open>ReadGraph\<close> are the same calls, on a write and on a read transaction.\<close>

definition read_get_node where
  "read_get_node G ops r i = get_node_in G ops r i"

definition read_get_edge where
  "read_get_edge G ops r e = get_edge_in G ops r e"

definition read_neighbors_out where
  "read_neighbors_out ops r node edge_type = neighbors_out_in ops r node edge_type"

definition read_neighbors_in where
  "read_neighbors_in ops r node edge_type = neighbors_in_in ops r node edge_type"

definition read_neighbors_out_any where
  "read_neighbors_out_any ops r node = neighbors_any_in ops r ADJ_OUT node"

definition read_neighbors_in_any where
  "read_neighbors_in_any ops r node = neighbors_any_in ops r ADJ_IN node"

definition read_out_degree where
  "read_out_degree ops r node = bind_res (read_neighbors_out_any ops r node) (\<lambda>xs. Ok (length xs))"

definition read_in_degree where
  "read_in_degree ops r node = bind_res (read_neighbors_in_any ops r node) (\<lambda>xs. Ok (length xs))"

definition read_nodes_by_label where
  "read_nodes_by_label G ops r label = nodes_by_label_in G ops r label"

definition read_find_nodes where
  "read_find_nodes G ops r label property v = find_nodes_in G ops r label property v"

definition read_property_indexes where
  "read_property_indexes ops r = property_indexes_in ops r"

definition read_find_shortest_path where
  "read_find_shortest_path G ops r start target dir edge_types = find_shortest_path_in G ops r start target dir edge_types"

definition read_find_weighted_path where
  "read_find_weighted_path G ops r start target dir edge_types weight_property default_weight = find_weighted_path_in G ops r start target dir edge_types weight_property default_weight"

definition read_top_hubs where
  "read_top_hubs G ops r limit dir label = top_hubs_in G ops r limit dir label"

end
