(* ===== verification/Value_Codec.thy ===== *)
theory Value_Codec
  imports Graph_Codec
begin

text \<open>
  A concrete instance of the record codecs: a value is written as a tag and its payload, with its
  size ahead of it as the decoder's bound. It shows that \<open>graph_codecs_ok\<close> can hold.
\<close>

definition sc_string :: "string scodec" where
  "sc_string = sc_map string_of as_bytes (sc_list sc_byte)"

lemma sc_string_ok: "sc_ok sc_string"
  by (auto simp: sc_string_def intro!: sc_oks)

fun enc_value :: "prop_value \<Rightarrow> bytes" where
  "enc_value Null = [0]"
| "enc_value (Bool b) = 1 # fst sc_bool b"
| "enc_value (IntV i) = 2 # fst sc_u64 i"
| "enc_value (Float f) = 3 # fst sc_u64 f"
| "enc_value (Str s) = 4 # fst sc_string s"
| "enc_value (Bytes b) = 5 # fst (sc_list sc_byte) b"
| "enc_value (Timestamp i) = 6 # fst sc_u64 i"
| "enc_value (Uuid u) = 7 # fst (sc_list sc_byte) u"
| "enc_value (List xs) = 8 # replicate (length xs) 1 @ 0 # concat (map enc_value xs)"
| "enc_value (Map m) = 9 # replicate (length m) 1 @ 0 # concat (map (\<lambda>(k, v). fst sc_string k @ enc_value v) m)"

definition tagged :: "('a \<Rightarrow> 'b) \<Rightarrow> ('a \<times> bytes) option \<Rightarrow> ('b \<times> bytes) option" where
  "tagged f x = map_option (\<lambda>(y, r). (f y, r)) x"

definition dec_many :: "(bytes \<Rightarrow> ('a \<times> bytes) option) \<Rightarrow> bytes \<Rightarrow> ('a list \<times> bytes) option" where
  "dec_many d bs = (let n = length (takeWhile (\<lambda>b. b = 1) bs) in sc_many d n (drop (Suc n) bs))"

definition dec_entry :: "(bytes \<Rightarrow> (prop_value \<times> bytes) option) \<Rightarrow> bytes \<Rightarrow> ((string \<times> prop_value) \<times> bytes) option" where
  "dec_entry d bs = Option.bind (snd sc_string bs) (\<lambda>(k, r). map_option (\<lambda>(v, r). ((k, v), r)) (d r))"

primrec dec_value :: "nat \<Rightarrow> bytes \<Rightarrow> (prop_value \<times> bytes) option" where
  "dec_value 0 = (\<lambda>_. None)"
| "dec_value (Suc n) = (\<lambda>bs. case bs of [] \<Rightarrow> None | t # r \<Rightarrow>
    (if t = 0 then Some (Null, r)
     else if t = 1 then tagged Bool (snd sc_bool r)
     else if t = 2 then tagged IntV (snd sc_u64 r)
     else if t = 3 then tagged Float (snd sc_u64 r)
     else if t = 4 then tagged Str (snd sc_string r)
     else if t = 5 then tagged Bytes (snd (sc_list sc_byte) r)
     else if t = 6 then tagged Timestamp (snd sc_u64 r)
     else if t = 7 then tagged Uuid (snd (sc_list sc_byte) r)
     else if t = 8 then tagged List (dec_many (dec_value n) r)
     else tagged Map (dec_many (dec_entry (dec_value n)) r)))"

lemma dec_many_ok:
  assumes "\<And>x r. x \<in> set xs \<Longrightarrow> d (e x @ r) = Some (x, r)"
  shows "dec_many d (replicate (length xs) 1 @ 0 # concat (map e xs) @ r) = Some (xs, r)"
proof -
  have "sc_many d (length xs) (concat (map e xs) @ r) = Some (xs, r)"
    using assms by (induction xs) auto
  then show ?thesis by (simp add: dec_many_def takeWhile_unary Let_def)
qed

lemma dec_enc_value: "size v < n \<Longrightarrow> dec_value n (enc_value v @ r) = Some (v, r)"
proof (induction v arbitrary: n r)
  case (List xs)
  then obtain m where n: "n = Suc m" by (cases n) auto
  have "dec_value m (enc_value x @ s) = Some (x, s)" if "x \<in> set xs" for x s
    using List.IH [OF that, of m s] List.prems n size_list_estimation' [OF that, of "size x" size] by auto
  then show ?case using dec_many_ok [of xs "dec_value m" enc_value r] n by (simp add: tagged_def)
next
  case (Map xs)
  then obtain m where n: "n = Suc m" by (cases n) auto
  have "dec_entry (dec_value m) ((\<lambda>(k, v). fst sc_string k @ enc_value v) x @ s) = Some (x, s)" if x: "x \<in> set xs" for x s
  proof -
    obtain k v where kv: "x = (k, v)" by (cases x)
    have "size v < m" using Map.prems n size_list_estimation' [OF x, of "size v" "size_prod (\<lambda>_. 0) size"] kv by auto
    then have "dec_value m (enc_value v @ s) = Some (v, s)" using Map.IH [OF x, of v m s] kv by simp
    then show ?thesis using sc_string_ok by (simp add: kv dec_entry_def sc_ok_def)
  qed
  then show ?case using dec_many_ok [of xs "dec_entry (dec_value m)" "\<lambda>(k, v). fst sc_string k @ enc_value v" r] n by (simp add: tagged_def)
qed (use sc_basic_ok sc_string_ok sc_bool_ok sc_list_ok [OF sc_basic_ok(1)] in \<open>auto simp: gr0_conv_Suc less_Suc_eq_0_disj tagged_def sc_ok_def dest!: less_imp_Suc_add\<close>)

definition sc_value :: "prop_value scodec" where
  "sc_value = (\<lambda>v. replicate (size v) 1 @ 0 # enc_value v,
     \<lambda>bs. let n = length (takeWhile (\<lambda>b. b = 1) bs) in dec_value (Suc n) (drop (Suc n) bs))"

lemma sc_value_ok: "sc_ok sc_value"
  by (simp add: sc_ok_def sc_value_def takeWhile_unary dec_enc_value Let_def del: dec_value.simps)

definition sc_properties :: "properties scodec" where
  "sc_properties = sc_list (sc_pair sc_string sc_value)"

definition demo_codecs :: graph_codecs where
  "demo_codecs = \<lparr>node_codec = codec_of (sc_map (\<lambda>(l, p). \<lparr>nr_label = l, nr_properties = p\<rparr>) (\<lambda>r. (nr_label r, nr_properties r))
       (sc_pair sc_string sc_properties)),
     edge_codec = codec_of (sc_map (\<lambda>(a, b, l, p). \<lparr>er_from = a, er_to = b, er_edge_type = l, er_properties = p\<rparr>)
       (\<lambda>r. (er_from r, er_to r, er_edge_type r, er_properties r)) (sc_pair sc_u64 (sc_pair sc_u64 (sc_pair sc_string sc_properties))))\<rparr>"

lemma demo_codecs_ok: "graph_codecs_ok demo_codecs"
proof -
  have "sc_ok sc_properties" by (auto simp: sc_properties_def intro!: sc_oks sc_string_ok sc_value_ok)
  then show ?thesis
    by (auto simp: graph_codecs_ok_def demo_codecs_def intro!: codec_ok_on codec_of_ok sc_oks sc_string_ok)
qed

end
