(* ===== verification/Lsm_Keys.thy ===== *)
theory Lsm_Keys
  imports Storage
begin

text \<open>
  The shared keyspace of the LSM backend (\<open>bkndb-storage-lsm/src/keys.rs\<close>): a table's keys are
  prefixed with the table's length-prefixed name. The lemmas show that the encoding is injective
  across tables, keeps the order within a table, and that the keys with a table's prefix are
  exactly its keys.
\<close>

definition table_prefix :: "table \<Rightarrow> bytes res" where
  "table_prefix t =
    (let name = as_bytes t
     in if length name \<le> 255 then Ok (word_of_nat (length name) # name) else Panic)"

definition encode_key :: "table \<Rightarrow> bytes \<Rightarrow> bytes res" where
  "encode_key t user_key =
    (let name = as_bytes t
     in if length name \<le> 255 then Ok (word_of_nat (length name) # name @ user_key) else Panic)"

definition strip_table_prefix :: "table \<Rightarrow> bytes \<Rightarrow> bytes res" where
  "strip_table_prefix t key =
    bind_res (table_prefix t) (\<lambda>p. if prefix p key then Ok (drop (length p) key) else Panic)"

definition prefix_upper_bound :: "bytes \<Rightarrow> bytes option" where
  "prefix_upper_bound p = succ_rev (rev p)"

section \<open>Table prefixes\<close>

definition lsm_tbl_ok :: "table \<Rightarrow> bool" where
  "lsm_tbl_ok t \<longleftrightarrow> length t \<le> 255"

text \<open>The prefix itself, for the proofs; \<open>table_prefix\<close> returns it when the name fits.\<close>

definition tprefix :: "table \<Rightarrow> bytes" where
  "tprefix t = word_of_nat (length t) # as_bytes t"

lemma table_prefix_ok [simp]: "lsm_tbl_ok t \<Longrightarrow> table_prefix t = Ok (tprefix t)"
  by (simp add: table_prefix_def lsm_tbl_ok_def tprefix_def)

lemma encode_key_ok [simp]: "lsm_tbl_ok t \<Longrightarrow> encode_key t k = Ok (tprefix t @ k)"
  by (simp add: encode_key_def lsm_tbl_ok_def tprefix_def)

lemma encode_key_panics: "\<not> lsm_tbl_ok t \<Longrightarrow> encode_key t k = Panic"
  by (simp add: encode_key_def lsm_tbl_ok_def)

lemma prefix_upper_bound_eq [simp]: "prefix_upper_bound p = byte_successor p"
  by (simp add: prefix_upper_bound_def byte_successor_def)

lemma tprefix_inject:
  assumes "lsm_tbl_ok t" "lsm_tbl_ok t'" "tprefix t @ k = tprefix t' @ k'"
  shows "t = t' \<and> k = k'"
proof -
  have "length t < 2 ^ LENGTH(8)" "length t' < 2 ^ LENGTH(8)"
    using assms(1,2) by (simp_all add: lsm_tbl_ok_def)
  moreover have "(word_of_nat (length t) :: byte) = word_of_nat (length t')"
    using assms(3) by (simp add: tprefix_def)
  ultimately have "length t = length t'"
    by (metis mod_less unat_of_nat)
  with assms(3) show ?thesis
    by (simp add: tprefix_def)
qed

text \<open>The byte strings between two keys with a common prefix have that prefix.\<close>

lemma prefix_convex: "p @ a \<le> (x :: 'a::linorder list) \<Longrightarrow> x \<le> p @ b \<Longrightarrow> prefix p x"
proof (induction p arbitrary: x)
  case (Cons c p)
  then show ?case by (cases x) auto
qed simp

section \<open>Properties\<close>

text \<open>C30: One keyspace for all tables. Two tables never share an encoded key, whatever their names
  and keys (the length byte separates the name from the key); within a table the encoding keeps the
  order of the keys; and a scan from a table's prefix up to the prefix's upper bound covers exactly
  the encoded keys of that table.\<close>

theorem encode_key_separates_tables:
  assumes "lsm_tbl_ok t" "lsm_tbl_ok t'"
  shows "(encode_key t k = encode_key t' k' \<longleftrightarrow> t = t' \<and> k = k')
    \<and> bind_res (encode_key t k) (strip_table_prefix t) = Ok k
    \<and> (\<exists>a b. encode_key t k = Ok a \<and> encode_key t k' = Ok b \<and> (a < b \<longleftrightarrow> k < k'))
    \<and> bind_res (table_prefix t) (\<lambda>p. Ok (in_range (Included p) (prefix_hi (prefix_upper_bound p)) x))
      = Ok (\<exists>u. encode_key t u = Ok x)"
proof (intro conjI)
  show "encode_key t k = encode_key t' k' \<longleftrightarrow> t = t' \<and> k = k'"
    using assms tprefix_inject [OF assms] by (metis encode_key_ok res.inject(1))
  show "bind_res (encode_key t k) (strip_table_prefix t) = Ok k"
    using assms by (simp add: strip_table_prefix_def)
  show "\<exists>a b. encode_key t k = Ok a \<and> encode_key t k' = Ok b \<and> (a < b \<longleftrightarrow> k < k')"
    using assms by simp
  show "bind_res (table_prefix t) (\<lambda>p. Ok (in_range (Included p) (prefix_hi (prefix_upper_bound p)) x))
      = Ok (\<exists>u. encode_key t u = Ok x)"
    using assms by (auto simp: in_range_prefix prefix_def)
qed

theorem encode_key_separates_tables_witness: "encode_key ''a'' [98, 120] \<noteq> encode_key ''ab'' [120]"
  using encode_key_separates_tables [of "''a''" "''ab''" "[98, 120]" "[120]"] by (simp add: lsm_tbl_ok_def)

end
