(* ===== verification/Lsm_Bloom.thy ===== *)
theory Lsm_Bloom
  imports Prelude
begin

text \<open>
  The Bloom filter of an SSTable (\<open>bkndb-storage-lsm/src/bloom.rs\<close>): its size, the frozen
  SipHash-1-3 behind the probes, insertion and query. The two floating-point formulas that size
  the filter are parameters (\<open>raw_m\<close>, \<open>raw_k\<close>: the values before they are clamped), since
  \<open>f64::ln\<close> has no specified precision; nothing proved here depends on their values.
  Out-of-range indexing and \<open>% 0\<close>, which a filter read from a damaged file could cause, panic.
\<close>

unbundle bit_operations_syntax

record bloom =
  bl_m :: u32
  bl_k :: u32
  bl_bits :: bytes

definition bloom_new :: "(nat \<Rightarrow> u32) \<Rightarrow> (u32 \<Rightarrow> nat \<Rightarrow> u32) \<Rightarrow> nat \<Rightarrow> bloom" where
  "bloom_new raw_m raw_k expected_items =
    (let n = max expected_items 1;
         m = max (raw_m n) 64;
         k = min (max (raw_k m n) 1) 32
     in \<lparr>bl_m = m, bl_k = k, bl_bits = replicate ((unat m + 7) div 8) 0\<rparr>)"

section \<open>SipHash-1-3\<close>

type_synonym sip_state = "u64 \<times> u64 \<times> u64 \<times> u64"

definition sip_round :: "sip_state \<Rightarrow> sip_state" where
  "sip_round v = (case v of (v0, v1, v2, v3) \<Rightarrow>
     let v0 = v0 + v1;
         v1 = word_rotl 13 v1 XOR v0;
         v0 = word_rotl 32 v0;
         v2 = v2 + v3;
         v3 = word_rotl 16 v3 XOR v2;
         v0 = v0 + v3;
         v3 = word_rotl 21 v3 XOR v0;
         v2 = v2 + v1;
         v1 = word_rotl 17 v1 XOR v2;
         v2 = word_rotl 32 v2
     in (v0, v1, v2, v3))"

definition sip_compress :: "sip_state \<Rightarrow> u64 \<Rightarrow> sip_state" where
  "sip_compress v m = (case v of (v0, v1, v2, v3) \<Rightarrow>
     (case sip_round (v0, v1, v2, v3 XOR m) of (w0, w1, w2, w3) \<Rightarrow> (w0 XOR m, w1, w2, w3)))"

text \<open>Little-endian words: \<open>le64\<close> is \<open>u64::to_le_bytes\<close>, \<open>of_le\<close> reads one.\<close>

definition le64 :: "u64 \<Rightarrow> bytes" where
  "le64 w = rev (be64 w)"

definition of_le :: "bytes \<Rightarrow> u64" where
  "of_le bs = word_of_nat (of_be (rev bs))"

text \<open>The byte loop: fill an eight-byte buffer, compress it when full.\<close>

fun sip_absorb :: "bytes \<Rightarrow> sip_state \<times> bytes \<Rightarrow> sip_state \<times> bytes" where
  "sip_absorb [] (v, buf) = (v, buf)"
| "sip_absorb (b # bs) (v, buf) =
    (let buf = buf @ [b]
     in if length buf = 8 then sip_absorb bs (sip_compress v (of_le buf), []) else sip_absorb bs (v, buf))"

definition sip13 :: "bytes list \<Rightarrow> u64" where
  "sip13 parts =
    (let v = (0x736f6d6570736575, 0x646f72616e646f6d, 0x6c7967656e657261, 0x7465646279746573);
         (v, buf) = fold sip_absorb parts (v, []);
         total = fold (\<lambda>p acc. acc + word_of_nat (length p)) parts (0 :: u64);
         last = push_bit 56 (total AND 0xff);
         last = foldl (\<lambda>l (i, b). l OR push_bit (8 * i) (ucast b)) last (zip [0..<length buf] buf);
         (v0, v1, v2, v3) = sip_compress v last;
         (v0, v1, v2, v3) = (sip_round ^^ 3) (v0, v1, v2 XOR 0xff, v3)
     in v0 XOR v1 XOR v2 XOR v3)"

definition base_hashes :: "bytes \<Rightarrow> u64 \<times> u64" where
  "base_hashes key =
    (let len_prefix = le64 (word_of_nat (length key));
         a = sip13 [len_prefix, key];
         b = sip13 [len_prefix, key, le64 0x9E3779B97F4A7C15]
     in (a, b))"

section \<open>Probes, insertion and query\<close>

definition probe_bits :: "bloom \<Rightarrow> bytes \<Rightarrow> u32 list" where
  "probe_bits b key =
    (let (h1, h2) = base_hashes key; m = ucast (bl_m b) :: u64
     in map (\<lambda>i. ucast ((h1 + word_of_nat i * h2) mod m)) [0..<unat (bl_k b)])"

fun set_bits_loop :: "u32 list \<Rightarrow> bytes \<Rightarrow> bytes res" where
  "set_bits_loop [] bits = Ok bits"
| "set_bits_loop (i # rest) bits =
    (let byte = unat (i div 8)
     in if byte < length bits
        then set_bits_loop rest (bits[byte := bits ! byte OR push_bit (unat (i mod 8)) 1])
        else Panic)"

definition bloom_insert :: "bytes \<Rightarrow> bloom \<Rightarrow> bloom res" where
  "bloom_insert key b =
    (if bl_m b = 0 \<and> bl_k b \<noteq> 0 then Panic
     else bind_res (set_bits_loop (probe_bits b key) (bl_bits b)) (\<lambda>bits. Ok (b\<lparr>bl_bits := bits\<rparr>)))"

fun all_bits_loop :: "u32 list \<Rightarrow> bytes \<Rightarrow> bool res" where
  "all_bits_loop [] bits = Ok True"
| "all_bits_loop (i # rest) bits =
    (let byte = unat (i div 8)
     in if byte < length bits
        then if bits ! byte AND push_bit (unat (i mod 8)) 1 \<noteq> 0 then all_bits_loop rest bits else Ok False
        else Panic)"

definition might_contain :: "bloom \<Rightarrow> bytes \<Rightarrow> bool res" where
  "might_contain b key =
    (if bl_m b = 0 \<and> bl_k b \<noteq> 0 then Panic else all_bits_loop (probe_bits b key) (bl_bits b))"

section \<open>No false negatives\<close>

definition bloom_ok :: "bloom \<Rightarrow> bool" where
  "bloom_ok b \<longleftrightarrow> 0 < bl_m b \<and> length (bl_bits b) = (unat (bl_m b) + 7) div 8"

text \<open>\<open>covers bits bit\<close>: the probe's bit is set.\<close>

definition covers :: "bytes \<Rightarrow> u32 \<Rightarrow> bool" where
  "covers bits i \<longleftrightarrow> unat (i div 8) < length bits \<and> bit (bits ! unat (i div 8)) (unat (i mod 8))"

lemma unat_mod8_less: "unat ((i :: u32) mod 8) < 8"
  by (simp add: unat_word_ariths)

lemma byte_test_bit: "(w AND push_bit n 1 \<noteq> (0 :: byte)) \<longleftrightarrow> bit w n" if "n < 8"
  using that by (simp add: and_exp_eq_0_iff_not_bit)

lemma all_bits_loop_covers: "(\<And>i. i \<in> set ps \<Longrightarrow> covers bits i) \<Longrightarrow> all_bits_loop ps bits = Ok True"
proof (induction ps)
  case (Cons i ps)
  then have "covers bits i" by simp
  then show ?case
    using Cons byte_test_bit [OF unat_mod8_less] by (simp add: covers_def Let_def)
qed simp

lemma set_bits_loop_ok:
  assumes "\<And>i. i \<in> set ps \<Longrightarrow> unat (i div 8) < length bits"
  shows "\<exists>bits'. set_bits_loop ps bits = Ok bits' \<and> length bits' = length bits \<and>
    (\<forall>i. covers bits i \<or> i \<in> set ps \<longrightarrow> covers bits' i)"
  using assms
proof (induction ps arbitrary: bits)
  case (Cons i ps)
  let ?j = "unat (i div 8)"
  let ?bits = "bits[?j := bits ! ?j OR push_bit (unat (i mod 8)) 1]"
  have j: "?j < length bits" using Cons.prems by simp
  obtain bits' where b: "set_bits_loop ps ?bits = Ok bits'" "length bits' = length bits"
      "\<And>x. covers ?bits x \<or> x \<in> set ps \<Longrightarrow> covers bits' x"
    using Cons.IH [of ?bits] Cons.prems by auto
  have "covers bits x \<Longrightarrow> covers ?bits x" for x
    using j by (cases "unat (x div 8) = ?j") (auto simp: covers_def bit_or_iff)
  moreover have "covers ?bits i"
    using j unat_mod8_less [of i] by (simp add: covers_def bit_or_iff bit_exp_iff)
  ultimately show ?case
    using b j by (auto simp: Let_def)
qed simp

lemma probe_bits_in_range:
  assumes "bloom_ok b" "i \<in> set (probe_bits b key)"
  shows "unat (i div 8) < length (bl_bits b)"
proof -
  let ?m = "ucast (bl_m b) :: u64"
  have m: "unat ?m = unat (bl_m b)" "0 < unat ?m"
    using assms(1) unat_widths_less(2) [of "bl_m b"]
    by (simp_all add: bloom_ok_def unsigned_ucast_eq take_bit_nat_eq_self word_less_nat_alt)
  obtain h where i: "i = ucast (h mod ?m)"
    using assms(2) by (auto simp: probe_bits_def Let_def case_prod_beta)
  have "unat (h mod ?m) < unat (bl_m b)"
    using m by (simp add: unat_mod)
  moreover have "unat i \<le> unat (h mod ?m)"
    unfolding i by (simp add: unsigned_ucast_eq take_bit_nat_less_eq_self)
  ultimately have "unat i < unat (bl_m b)" by simp
  then have "unat i div 8 < (unat (bl_m b) + 7) div 8" by linarith
  then show ?thesis
    using assms(1) by (simp add: bloom_ok_def unat_div)
qed

lemma bloom_new_ok: "bloom_ok (bloom_new raw_m raw_k n)"
proof -
  have "(0 :: u32) < max (raw_m (max n 1)) 64"
    by (rule less_le_trans [of _ 64]) simp_all
  then show ?thesis by (simp add: bloom_ok_def bloom_new_def Let_def)
qed

lemma bloom_insert_ok:
  assumes "bloom_ok b"
  shows "\<exists>b'. bloom_insert key b = Ok b' \<and> bloom_ok b' \<and> bl_m b' = bl_m b \<and> bl_k b' = bl_k b \<and>
    might_contain b' key = Ok True \<and> (\<forall>k. might_contain b k = Ok True \<longrightarrow> might_contain b' k = Ok True)"
proof -
  obtain bits where bits: "set_bits_loop (probe_bits b key) (bl_bits b) = Ok bits"
      "length bits = length (bl_bits b)"
      "\<And>i. covers (bl_bits b) i \<or> i \<in> set (probe_bits b key) \<Longrightarrow> covers bits i"
    using set_bits_loop_ok [of "probe_bits b key" "bl_bits b"] probe_bits_in_range [OF assms] by blast
  let ?b = "b\<lparr>bl_bits := bits\<rparr>"
  have probes: "probe_bits ?b k = probe_bits b k" for k
    by (simp add: probe_bits_def)
  have conv: "(\<forall>i\<in>set ps. covers bs i)" if "all_bits_loop ps bs = Ok True" for ps bs
    using that
  proof (induction ps)
    case (Cons i ps)
    then show ?case
      using byte_test_bit [OF unat_mod8_less, of _ i]
      by (auto simp: covers_def Let_def split: if_splits)
  qed simp
  have keep: "might_contain ?b k = Ok True" if "might_contain b k = Ok True" for k
    using that conv all_bits_loop_covers bits(3) assms
    by (auto simp: might_contain_def probes bloom_ok_def split: if_splits)
  have "might_contain ?b key = Ok True"
    using all_bits_loop_covers bits(3) assms by (auto simp: might_contain_def probes bloom_ok_def)
  moreover have "bloom_ok ?b"
    using assms bits(2) by (simp add: bloom_ok_def)
  ultimately show ?thesis
    using bits(1) keep assms by (auto simp: bloom_insert_def bloom_ok_def)
qed

text \<open>Inserting a list of keys, as the SSTable writer does; all of them are found afterwards.\<close>

lemma bloom_insert_all:
  assumes "bloom_ok b"
  shows "\<exists>b'. for_res bloom_insert ks b = Ok b' \<and> bloom_ok b' \<and>
    (\<forall>k. k \<in> set ks \<or> might_contain b k = Ok True \<longrightarrow> might_contain b' k = Ok True)"
  using assms
proof (induction ks arbitrary: b)
  case (Cons k ks)
  obtain b1 where b1: "bloom_insert k b = Ok b1" "bloom_ok b1" "might_contain b1 k = Ok True"
      "\<And>x. might_contain b x = Ok True \<Longrightarrow> might_contain b1 x = Ok True"
    using bloom_insert_ok [OF Cons.prems] by blast
  then show ?case using Cons.IH [OF b1(2)] by fastforce
qed simp

text \<open>C29: No false negatives. A filter sized for any number of items, filled with any list of keys,
  never panics and reports every inserted key as possibly present.\<close>

theorem bloom_no_false_negatives:
  "\<exists>b. for_res bloom_insert ks (bloom_new raw_m raw_k n) = Ok b \<and> (\<forall>k. k \<in> set ks \<longrightarrow> might_contain b k = Ok True)"
  using bloom_insert_all [OF bloom_new_ok] by blast

theorem bloom_no_false_negatives_witness:
  "\<exists>b. for_res bloom_insert [[1], [2, 3]] (bloom_new (\<lambda>_. 64) (\<lambda>_ _. 7) 2) = Ok b \<and> might_contain b [2, 3] = Ok True"
  using bloom_no_false_negatives [of "[[1], [2, 3]]" "\<lambda>_. 64" "\<lambda>_ _. 7" 2] by auto

end
