(* ===== verification/Lsm_Merge.thy ===== *)
theory Lsm_Merge
  imports Storage
begin

text \<open>
  Memtables (\<open>bkndb-storage-lsm/src/memtable.rs\<close>) and the streaming k-way merge
  (\<open>compaction.rs\<close>) behind range scans, compaction and backup. An iterator is the list of the
  items it has left. \<open>BinaryHeap<Reverse<_>>\<close> is the ascending list of its elements (pop takes
  the first). A source that panics ends the merge with \<open>Panic\<close>, like one that fails.
\<close>

datatype lsm_value = Value bytes | Tombstone

type_synonym memtable = "(bytes, lsm_value) btree"
type_synonym entry = "bytes \<times> lsm_value"
type_synonym entry_iter = "entry res list"

definition memtable_byte_size :: "memtable \<Rightarrow> nat" where
  "memtable_byte_size m = sum_list (map (\<lambda>(k, v). length k + (case v of Value b \<Rightarrow> length b | Tombstone \<Rightarrow> 0)) m)"

section \<open>The merge iterator\<close>

record merge_iter =
  mi_sources :: "entry_iter list"
  mi_heads :: "lsm_value option list"
  mi_heap :: "(bytes \<times> nat) list"
  mi_error :: "(bytes \<times> bytes) res option"

definition advance :: "nat \<Rightarrow> merge_iter \<Rightarrow> merge_iter" where
  "advance i st =
    (if i < length (mi_sources st) then
       (case mi_sources st ! i of
          [] \<Rightarrow> st
        | item # rest \<Rightarrow>
            let st = st\<lparr>mi_sources := (mi_sources st)[i := rest]\<rparr>
            in (case item of
                  Ok (key, value) \<Rightarrow>
                    st\<lparr>mi_heads := (mi_heads st)[i := Some value], mi_heap := insort (key, i) (mi_heap st)\<rparr>
                | Err e \<Rightarrow> if mi_error st = None then st\<lparr>mi_error := Some (Err e)\<rparr> else st
                | Panic \<Rightarrow> if mi_error st = None then st\<lparr>mi_error := Some Panic\<rparr> else st))
     else st)"

definition merge_new :: "entry_iter list \<Rightarrow> merge_iter" where
  "merge_new sources =
    fold advance [0..<length sources]
      \<lparr>mi_sources = sources, mi_heads = replicate (length sources) None, mi_heap = [], mi_error = None\<rparr>"

definition mi_size :: "merge_iter \<Rightarrow> nat" where
  "mi_size st = sum_list (map length (mi_sources st)) + length (mi_heap st) + (if mi_error st = None then 0 else 1)"

lemma sum_list_length_update:
  "i < length xss \<Longrightarrow> xss ! i = x # rest \<Longrightarrow> sum_list (map length xss) = Suc (sum_list (map length (xss[i := rest])))"
proof (induction xss arbitrary: i)
  case (Cons xs xss)
  then show ?case by (cases i) auto
qed simp

lemma advance_size: "mi_size (advance i st) \<le> mi_size st"
proof (cases "i < length (mi_sources st) \<and> mi_sources st ! i \<noteq> []")
  case True
  then obtain item rest where src: "mi_sources st ! i = item # rest" by (auto simp: neq_Nil_conv)
  then show ?thesis
    using True sum_list_length_update [OF _ src]
    by (cases item) (auto simp: advance_def mi_size_def Let_def)
next
  case False
  then show ?thesis by (auto simp: advance_def)
qed

text \<open>Consume the older versions of a key: every heap entry with that key.\<close>

function drop_older :: "bytes \<Rightarrow> merge_iter \<Rightarrow> merge_iter" where
  "drop_older key st = (case mi_heap st of
      [] \<Rightarrow> st
    | (k, j) # h \<Rightarrow>
        if k \<noteq> key then st
        else drop_older key (advance j (st\<lparr>mi_heap := h, mi_heads := (mi_heads st)[j := None]\<rparr>)))"
  by pat_completeness auto
termination
proof (relation "measure (\<lambda>(key, st). mi_size st)")
  fix key :: bytes and st :: merge_iter and x h k j
  assume "mi_heap st = x # h" "(k, j) = x"
  then have "mi_size (st\<lparr>mi_heap := h, mi_heads := (mi_heads st)[j := None]\<rparr>) < mi_size st"
    by (simp add: mi_size_def)
  then show "((key, advance j (st\<lparr>mi_heap := h, mi_heads := (mi_heads st)[j := None]\<rparr>)), key, st)
      \<in> measure (\<lambda>(key, st). mi_size st)"
    by (simp add: le_less_trans [OF advance_size])
qed simp

declare drop_older.simps [simp del]

lemma drop_older_size: "mi_size (drop_older key st) \<le> mi_size st"
proof (induction key st rule: drop_older.induct)
  case (1 key st)
  show ?case
  proof (cases "mi_heap st")
    case (Cons e h)
    obtain k j where e: "e = (k, j)" by (metis surj_pair)
    let ?st = "st\<lparr>mi_heap := h, mi_heads := (mi_heads st)[j := None]\<rparr>"
    have "mi_size (advance j ?st) \<le> mi_size st"
      using Cons advance_size [of j ?st] by (simp add: mi_size_def)
    then show ?thesis
      using "1.IH" [OF Cons e [symmetric]] Cons e by (subst drop_older.simps) auto
  qed (simp add: drop_older.simps)
qed

text \<open>One round of the loop in \<open>next\<close>: pop the least key's newest version, discard the others.\<close>

definition merge_pop :: "merge_iter \<Rightarrow> bytes \<Rightarrow> nat \<Rightarrow> (bytes \<times> nat) list \<Rightarrow> merge_iter" where
  "merge_pop st key i h =
    drop_older key (advance i (st\<lparr>mi_heap := h, mi_heads := (mi_heads st)[i := None]\<rparr>))"

lemma merge_pop_size: "mi_heap st = (key, i) # h \<Longrightarrow> mi_size (merge_pop st key i h) < mi_size st"
  using drop_older_size [of key "advance i (st\<lparr>mi_heap := h, mi_heads := (mi_heads st)[i := None]\<rparr>)"]
    advance_size [of i "st\<lparr>mi_heap := h, mi_heads := (mi_heads st)[i := None]\<rparr>"]
  by (simp add: merge_pop_def mi_size_def)

function merge_next :: "merge_iter \<Rightarrow> (bytes \<times> bytes) res option \<times> merge_iter" where
  "merge_next st = (case mi_error st of
      Some e \<Rightarrow> (Some e, st\<lparr>mi_error := None, mi_heap := []\<rparr>)
    | None \<Rightarrow>
      (case mi_heap st of
         [] \<Rightarrow> (None, st)
       | (key, i) # h \<Rightarrow>
         (case (if i < length (mi_heads st) then mi_heads st ! i else None) of
            None \<Rightarrow> (Some Panic, st\<lparr>mi_heap := []\<rparr>)
          | Some (Value v) \<Rightarrow> (Some (Ok (key, v)), merge_pop st key i h)
          | Some Tombstone \<Rightarrow> merge_next (merge_pop st key i h))))"
  by pat_completeness auto
termination
  by (relation "measure mi_size") (auto simp: merge_pop_size)

declare merge_next.simps [simp del]

lemma merge_next_size: "merge_next st = (Some x, st') \<Longrightarrow> mi_size st' < mi_size st"
proof (induction st rule: merge_next.induct)
  case (1 st)
  show ?case
  proof (cases "mi_error st")
    case (Some e)
    then show ?thesis using "1.prems" by (auto simp: merge_next.simps [of st] mi_size_def)
  next
    case None
    show ?thesis
    proof (cases "mi_heap st")
      case Nil
      then show ?thesis using "1.prems" None by (simp add: merge_next.simps [of st])
    next
      case (Cons e h)
      obtain key i where e: "e = (key, i)" by (metis surj_pair)
      have less: "mi_size (merge_pop st key i h) < mi_size st"
        using Cons e by (simp add: merge_pop_size)
      let ?hd = "if i < length (mi_heads st) then mi_heads st ! i else None"
      show ?thesis
      proof (cases "?hd = Some Tombstone")
        case True
        then show ?thesis
          using "1.IH" [OF None Cons e [symmetric] True] "1.prems" None Cons e less
          by (simp add: merge_next.simps [of st])
      next
        case False
        then show ?thesis
          using "1.prems" None Cons e less
          by (auto simp: merge_next.simps [of st] mi_size_def split: option.splits lsm_value.splits if_splits)
      qed
    qed
  qed
qed

text \<open>Draining the iterator.\<close>

function merge_all :: "merge_iter \<Rightarrow> kv_iter" where
  "merge_all st = (case merge_next st of (None, st') \<Rightarrow> [] | (Some x, st') \<Rightarrow> x # merge_all st')"
  by pat_completeness auto
termination
  by (relation "measure mi_size") (auto dest: merge_next_size [OF sym])

declare merge_all.simps [simp del]

definition merge_sources :: "entry_iter list \<Rightarrow> kv_iter" where
  "merge_sources sources = merge_all (merge_new sources)"

section \<open>Specification: newest layer wins, tombstones hide\<close>

fun layers_get :: "(bytes \<times> lsm_value) list list \<Rightarrow> bytes \<Rightarrow> lsm_value option" where
  "layers_get [] k = None"
| "layers_get (l # ls) k = (case map_of l k of Some v \<Rightarrow> Some v | None \<Rightarrow> layers_get ls k)"

definition live :: "lsm_value \<Rightarrow> bytes option" where
  "live v = (case v of Value b \<Rightarrow> Some b | Tombstone \<Rightarrow> None)"

lemma live_simps [simp]: "live (Value b) = Some b" "live Tombstone = None"
  by (simp_all add: live_def)

definition layers_view :: "(bytes \<times> lsm_value) list list \<Rightarrow> bytes \<Rightarrow> bytes option" where
  "layers_view ls k = Option.bind (layers_get ls k) live"

lemma layers_get_append: "layers_get (ls @ ms) k = (case layers_get ls k of Some v \<Rightarrow> Some v | None \<Rightarrow> layers_get ms k)"
  by (induction ls) (auto split: option.splits)

lemma layers_view_Some: "layers_view ls k = Some v \<longleftrightarrow> layers_get ls k = Some (Value v)"
  by (cases "layers_get ls k") (auto simp: layers_view_def live_def split: lsm_value.split)

lemma layers_get_Some:
  "layers_get ls k = Some v \<longleftrightarrow>
    (\<exists>i < length ls. map_of (ls ! i) k = Some v \<and> (\<forall>j < i. map_of (ls ! j) k = None))"
  by (induction ls) (auto simp: Ex_less_Suc2 All_less_Suc2 split: option.split)

lemma layers_get_None: "layers_get ls k = None \<longleftrightarrow> (\<forall>l\<in>set ls. map_of l k = None)"
  by (induction ls) (auto split: option.splits)

text \<open>The heads of the layers that are not exhausted, with their positions.\<close>

definition heads_of :: "(bytes \<times> lsm_value) list list \<Rightarrow> (bytes \<times> nat) set" where
  "heads_of ls = {(fst (hd (ls ! i)), i) | i. i < length ls \<and> ls ! i \<noteq> []}"

lemma heads_ofI: "i < length ls \<Longrightarrow> ls ! i \<noteq> [] \<Longrightarrow> (fst (hd (ls ! i)), i) \<in> heads_of ls"
  by (auto simp: heads_of_def)

lemma finite_heads_of [simp]: "finite (heads_of ls)"
proof -
  have "heads_of ls \<subseteq> (\<lambda>i. (fst (hd (ls ! i)), i)) ` {..<length ls}"
    by (auto simp: heads_of_def)
  then show ?thesis by (rule finite_subset) simp
qed

lemma heads_of_update:
  assumes "j < length ls"
  shows "heads_of (ls[j := l]) = {x \<in> heads_of ls. snd x \<noteq> j} \<union> (if l = [] then {} else {(fst (hd l), j)})"
  using assms by (auto simp: heads_of_def nth_list_update)

text \<open>The iterator's state stands for the layers \<open>ls\<close> still to be merged.\<close>

definition mi_rel :: "merge_iter \<Rightarrow> (bytes \<times> lsm_value) list list \<Rightarrow> bool" where
  "mi_rel st ls \<longleftrightarrow> mi_error st = None \<and> mi_heap st = sorted_list_of_set (heads_of ls) \<and>
    mi_sources st = map (\<lambda>l. map Ok (tl l)) ls \<and> length (mi_heads st) = length ls \<and>
    (\<forall>i < length ls. ls ! i \<noteq> [] \<longrightarrow> mi_heads st ! i = Some (snd (hd (ls ! i))))"

lemma mi_rel_pop:
  assumes rel: "mi_rel st ls" and heap: "mi_heap st = (k, j) # h"
  shows "j < length ls" "ls ! j \<noteq> []" "k = fst (hd (ls ! j))"
    "mi_rel (advance j (st\<lparr>mi_heap := h, mi_heads := (mi_heads st)[j := None]\<rparr>)) (ls[j := tl (ls ! j)])"
    "(k, j) = Min (heads_of ls)"
proof -
  have ne: "heads_of ls \<noteq> {}"
    using rel heap by (auto simp: mi_rel_def)
  then have split: "sorted_list_of_set (heads_of ls) = Min (heads_of ls) # sorted_list_of_set (heads_of ls - {Min (heads_of ls)})"
    by (intro sorted_list_of_set_nonempty) simp_all
  then show min: "(k, j) = Min (heads_of ls)"
    using rel heap by (simp add: mi_rel_def)
  have h: "h = sorted_list_of_set (heads_of ls - {(k, j)})"
    using rel heap split min by (simp add: mi_rel_def)
  have "(k, j) \<in> heads_of ls"
    using Min_in [OF finite_heads_of ne] min by simp
  then show j: "j < length ls" "ls ! j \<noteq> []" "k = fst (hd (ls ! j))"
    by (auto simp: heads_of_def)
  have others: "{x \<in> heads_of ls. snd x \<noteq> j} = heads_of ls - {(k, j)}"
    using j by (auto simp: heads_of_def)
  show "mi_rel (advance j (st\<lparr>mi_heap := h, mi_heads := (mi_heads st)[j := None]\<rparr>)) (ls[j := tl (ls ! j)])"
  proof (cases "tl (ls ! j)")
    case Nil
    have src: "map (\<lambda>l. map Ok (tl l)) ls ! j = []"
      using j Nil by simp
    have "(map (\<lambda>l. map Ok (tl l)) ls) = map (\<lambda>l. map Ok (tl l)) (ls[j := []])"
      using src list_update_id [of "map (\<lambda>l. map Ok (tl l)) ls" j] by (simp add: map_update)
    then show ?thesis
      using rel Nil j h others src
      by (auto simp: mi_rel_def advance_def heads_of_update nth_list_update)
  next
    case (Cons e r)
    obtain k' v' where e: "e = (k', v')" by (metis surj_pair)
    have src: "map (\<lambda>l. map Ok (tl l)) ls ! j = Ok (k', v') # map Ok r"
      using j Cons e by simp
    have "insort (k', j) h = sorted_list_of_set (insert (k', j) (heads_of ls - {(k, j)}))"
    proof -
      have "(k', j) \<notin> heads_of ls - {(k, j)}"
        using j by (auto simp: heads_of_def)
      then show ?thesis
        unfolding h by (subst sorted_list_of_set_insert) simp_all
    qed
    then show ?thesis
      using rel Cons e j others src
      by (auto simp: mi_rel_def advance_def heads_of_update nth_list_update map_update Let_def)
  qed
qed

text \<open>Dropping a key from the front of every layer.\<close>

definition drop_key :: "bytes \<Rightarrow> (bytes \<times> lsm_value) list list \<Rightarrow> (bytes \<times> lsm_value) list list" where
  "drop_key key ls = map (\<lambda>l. case l of [] \<Rightarrow> [] | (k, v) # r \<Rightarrow> if k = key then r else l) ls"

abbreviation heads_from :: "bytes \<Rightarrow> (bytes \<times> lsm_value) list list \<Rightarrow> bool" where
  "heads_from key ls \<equiv> (\<forall>l\<in>set ls. l \<noteq> [] \<longrightarrow> key \<le> fst (hd l))"

lemma drop_key_sorted: "\<forall>l\<in>set ls. sorted_keys l \<Longrightarrow> \<forall>l\<in>set (drop_key key ls). sorted_keys l"
  by (fastforce simp: drop_key_def split: list.splits)

lemma layers_get_drop_key:
  assumes "\<forall>l\<in>set ls. sorted_keys l" "heads_from key ls"
  shows "layers_get (drop_key key ls) k = (if k = key then None else layers_get ls k)"
    and "k < key \<Longrightarrow> layers_get ls k = None"
proof -
  have one: "map_of (case l of [] \<Rightarrow> [] | (a, v) # r \<Rightarrow> if a = key then r else l) k
      = (if k = key then None else map_of l k) \<and> (k < key \<longrightarrow> map_of l k = None)" if "l \<in> set ls" for l
  proof (cases l)
    case (Cons e r)
    obtain a v where e: "e = (a, v)" by (metis surj_pair)
    have "sorted_keys l" using assms(1) that by blast
    moreover have "key \<le> fst (hd l)" using bspec [OF assms(2) that] Cons by simp
    ultimately have a: "sorted_keys ((a, v) # r)" "key \<le> a" using Cons e by auto
    have none: "x \<le> a \<Longrightarrow> map_of r x = None" for x using a(1) by (rule map_of_below)
    show ?thesis using Cons e a none [of key] none [of k] by auto
  qed simp
  then show "layers_get (drop_key key ls) k = (if k = key then None else layers_get ls k)"
    by (induction ls) (auto simp: drop_key_def split: option.splits)
  show "k < key \<Longrightarrow> layers_get ls k = None"
    using one by (simp add: layers_get_None)
qed

lemma drop_older_rel:
  "mi_rel st ls \<Longrightarrow> \<forall>l\<in>set ls. sorted_keys l \<Longrightarrow> heads_from key ls \<Longrightarrow> mi_rel (drop_older key st) (drop_key key ls)"
proof (induction key st arbitrary: ls rule: drop_older.induct)
  case (1 key st)
  have stop: "drop_key key ls = ls" if heads: "\<And>i. i < length ls \<Longrightarrow> ls ! i \<noteq> [] \<Longrightarrow> fst (hd (ls ! i)) \<noteq> key"
  proof -
    have "fst (hd l) \<noteq> key" if "l \<in> set ls" "l \<noteq> []" for l
      using heads that by (auto simp: in_set_conv_nth)
    then show ?thesis
      unfolding drop_key_def by (intro map_idI) (fastforce split: list.split)
  qed
  show ?case
  proof (cases "mi_heap st")
    case Nil
    then have "heads_of ls = {}"
      using "1.prems"(1) unfolding mi_rel_def by (metis finite_heads_of set_empty set_sorted_list_of_set)
    then have "drop_key key ls = ls"
      by (intro stop) (auto simp: heads_of_def)
    then show ?thesis
      using "1.prems"(1) Nil by (simp add: drop_older.simps)
  next
    case (Cons e h)
    obtain k j where e: "e = (k, j)" by (metis surj_pair)
    note pop = mi_rel_pop [OF "1.prems"(1) Cons [unfolded e]]
    show ?thesis
    proof (cases "k = key")
      case False
      have "key \<le> k" using pop "1.prems"(3) by simp
      with False have "key < k" by simp
      moreover have "k \<le> fst x" if "x \<in> heads_of ls" for x
        using Min_le [OF finite_heads_of that] pop(5) [symmetric] by (cases x) auto
      ultimately have "fst x \<noteq> key" if "x \<in> heads_of ls" for x
        using that by fastforce
      then have "drop_key key ls = ls"
        using heads_ofI by (intro stop) (metis fst_conv)
      then show ?thesis
        using "1.prems"(1) Cons e False by (simp add: drop_older.simps)
    next
      case True
      let ?st = "st\<lparr>mi_heap := h, mi_heads := (mi_heads st)[j := None]\<rparr>"
      let ?ls = "ls[j := tl (ls ! j)]"
      obtain v r where lj: "ls ! j = (key, v) # r"
        using pop(2,3) True by (cases "ls ! j") auto
      have srt: "sorted_keys (ls ! j)" using "1.prems"(2) pop(1) by simp
      have sub: "set ?ls \<subseteq> insert r (set ls)"
        using set_update_subset_insert [of ls j "tl (ls ! j)"] lj by simp
      have r: "sorted_keys r" "\<And>x. x \<in> set r \<Longrightarrow> key < fst x"
        using srt lj by auto
      have "heads_from key ?ls"
      proof (intro ballI impI)
        fix l assume "l \<in> set ?ls" "l \<noteq> []"
        then consider "l = r" | "l \<in> set ls" using sub by blast
        then show "key \<le> fst (hd l)"
        proof cases
          case 1
          then show ?thesis using r(2) [of "hd l"] \<open>l \<noteq> []\<close> by simp
        next
          case 2
          then show ?thesis using "1.prems"(3) \<open>l \<noteq> []\<close> by blast
        qed
      qed
      moreover have "\<forall>l\<in>set ?ls. sorted_keys l"
        using sub "1.prems"(2) r(1) by auto
      ultimately have "mi_rel (drop_older key (advance j ?st)) (drop_key key ?ls)"
        using "1.IH" [OF Cons e [symmetric]] pop(4) True by blast
      moreover have "(case r of [] \<Rightarrow> [] | (a, b) # q \<Rightarrow> if a = key then q else r) = r"
        using r(2) [of "hd r"] by (cases r) auto
      then have "drop_key key ?ls = drop_key key ls"
        using lj pop(1) list_update_id [of "drop_key key ls" j]
        by (simp add: drop_key_def map_update case_prod_unfold cong: list.case_cong)
      ultimately show ?thesis
        using Cons e True by (simp add: drop_older.simps [of key st])
    qed
  qed
qed

lemma merge_pop_rel:
  assumes rel: "mi_rel st ls" and srt: "\<forall>l\<in>set ls. sorted_keys l" and heap: "mi_heap st = (key, i) # h"
  shows "mi_rel (merge_pop st key i h) (drop_key key ls)" "heads_from key ls"
    "\<exists>v. i < length ls \<and> mi_heads st ! i = Some v \<and> layers_get ls key = Some v"
proof -
  note pop = mi_rel_pop [OF rel heap]
  have ge: "(key, i) \<le> x" if "x \<in> heads_of ls" for x
    using Min_le [OF finite_heads_of that] pop(5) [symmetric] by simp
  show heads: "heads_from key ls"
  proof (intro ballI impI)
    fix l assume "l \<in> set ls" "l \<noteq> []"
    then obtain j where "j < length ls" "ls ! j = l" by (auto simp: in_set_conv_nth)
    then show "key \<le> fst (hd l)" using ge [of "(fst (hd l), j)"] \<open>l \<noteq> []\<close> by (auto simp: heads_of_def)
  qed
  have "drop_older key st = merge_pop st key i h"
    using heap by (simp add: drop_older.simps [of key st] merge_pop_def)
  then show "mi_rel (merge_pop st key i h) (drop_key key ls)"
    using drop_older_rel [OF rel srt heads] by simp
  have "map_of (ls ! j) key = None" if "j < i" for j
  proof (cases "ls ! j")
    case (Cons e r)
    have j: "j < length ls" using that pop(1) by simp
    obtain a v where e: "e = (a, v)" by (metis surj_pair)
    have "(key, i) \<le> (a, j)" using ge [of "(a, j)"] Cons e j by (auto simp: heads_of_def)
    with that have "key < a" by auto
    moreover have "sorted_keys ((a, v) # r)" using srt j Cons e by (metis nth_mem)
    ultimately show ?thesis using Cons e map_of_below [of a v r key] by simp
  qed simp
  then have "\<forall>l\<in>set (take i ls). map_of l key = None"
    by (auto simp: in_set_conv_nth)
  then have "layers_get (take i ls) key = None"
    by (simp add: layers_get_None)
  moreover have "map_of (ls ! i) key = Some (snd (hd (ls ! i)))"
    using pop(2,3) by (cases "ls ! i") auto
  ultimately have "layers_get ls key = Some (snd (hd (ls ! i)))"
    using id_take_nth_drop [OF pop(1)] layers_get_append [of "take i ls" "ls ! i # drop (Suc i) ls" key] by simp
  then show "\<exists>v. i < length ls \<and> mi_heads st ! i = Some v \<and> layers_get ls key = Some v"
    using pop rel by (auto simp: mi_rel_def)
qed

section \<open>The merge implements the specification\<close>

lemma heap_Nil_layers: "mi_rel st ls \<Longrightarrow> mi_heap st = [] \<Longrightarrow> layers_get ls k = None"
proof -
  assume "mi_rel st ls" "mi_heap st = []"
  then have "heads_of ls = {}"
    unfolding mi_rel_def by (metis finite_heads_of set_empty set_sorted_list_of_set)
  then have "\<forall>l\<in>set ls. l = []"
    by (auto simp: heads_of_def in_set_conv_nth)
  then show ?thesis by (auto simp: layers_get_None)
qed

text \<open>\<open>next\<close> yields the least live entry; what is left is what lies above it.\<close>

lemma merge_next_rel:
  assumes "mi_rel st ls" "\<forall>l\<in>set ls. sorted_keys l"
  shows "case merge_next st of
      (None, st') \<Rightarrow> layers_view ls = Map.empty
    | (Some x, st') \<Rightarrow> \<exists>key v ls'. x = Ok (key, v) \<and> mi_rel st' ls' \<and> (\<forall>l\<in>set ls'. sorted_keys l) \<and>
        layers_view ls = (layers_view ls')(key \<mapsto> v) \<and> (\<forall>k\<in>dom (layers_view ls'). key < k)"
  using assms
proof (induction st arbitrary: ls rule: merge_next.induct)
  case (1 st)
  have none: "mi_error st = None" using "1.prems" by (simp add: mi_rel_def)
  show ?case
  proof (cases "mi_heap st")
    case Nil
    then show ?thesis
      using none heap_Nil_layers [OF "1.prems"(1)]
      by (simp add: merge_next.simps [of st] layers_view_def fun_eq_iff)
  next
    case (Cons e h)
    obtain key i where e: "e = (key, i)" by (metis surj_pair)
    note pop = merge_pop_rel [OF "1.prems" Cons [unfolded e]]
    obtain v where v: "i < length ls" "mi_heads st ! i = Some v" "layers_get ls key = Some v"
      using pop(3) by blast
    have hd: "(if i < length (mi_heads st) then mi_heads st ! i else None) = Some v"
      using v "1.prems"(1) by (simp add: mi_rel_def)
    let ?ls = "drop_key key ls"
    have srt: "\<forall>l\<in>set ?ls. sorted_keys l" by (rule drop_key_sorted [OF "1.prems"(2)])
    have view: "layers_view ls = (layers_view ?ls)(key := live v)" "layers_view ?ls key = None"
      "\<And>k. k < key \<Longrightarrow> layers_view ?ls k = None"
      using layers_get_drop_key [OF "1.prems"(2) pop(2)] v(3) by (auto simp: layers_view_def fun_eq_iff)
    then have above: "key < k" if "k \<in> dom (layers_view ?ls)" for k
      using that by (metis domIff linorder_less_linear)
    show ?thesis
    proof (cases v)
      case (Value b)
      then have "merge_next st = (Some (Ok (key, b)), merge_pop st key i h)"
        using none Cons e hd by (simp add: merge_next.simps [of st])
      then show ?thesis using pop(1) srt view(1) above Value by auto
    next
      case Tombstone
      then have step: "merge_next st = merge_next (merge_pop st key i h)"
        using none Cons e hd by (simp add: merge_next.simps [of st])
      have eq: "layers_view ls = layers_view ?ls"
        using view(1,2) Tombstone by (simp add: fun_eq_iff)
      show ?thesis
        using "1.IH" [OF none Cons e [symmetric] hd Tombstone pop(1) srt] by (simp only: step eq)
    qed
  qed
qed

lemma merge_all_rel:
  assumes "mi_rel st ls" "\<forall>l\<in>set ls. sorted_keys l"
  shows "\<exists>xs. merge_all st = map Ok xs \<and> sorted_keys xs \<and> map_of xs = layers_view ls"
  using assms
proof (induction st arbitrary: ls rule: merge_all.induct)
  case (1 st)
  note next_rel = merge_next_rel [OF "1.prems"]
  show ?case
  proof (cases "merge_next st")
    case (Pair x st')
    show ?thesis
    proof (cases x)
      case None
      then show ?thesis using Pair next_rel by (auto simp: merge_all.simps [of st] fun_eq_iff)
    next
      case (Some y)
      then obtain key v ls' where y: "y = Ok (key, v)" "mi_rel st' ls'" "\<forall>l\<in>set ls'. sorted_keys l"
          "layers_view ls = (layers_view ls')(key \<mapsto> v)" "\<forall>k\<in>dom (layers_view ls'). key < k"
        using Pair next_rel by auto
      obtain xs where xs: "merge_all st' = map Ok xs" "sorted_keys xs" "map_of xs = layers_view ls'"
        using "1.IH" [OF Pair [symmetric] Some y(2,3)] by blast
      have "merge_all st = map Ok ((key, v) # xs)"
        using Pair Some y(1) xs(1) by (simp add: merge_all.simps [of st])
      moreover have "sorted_keys ((key, v) # xs)"
        using xs y(5) by (simp add: dom_map_of_conv_image_fst [symmetric])
      moreover have "map_of ((key, v) # xs) = layers_view ls"
        using xs(3) y(4) by simp
      ultimately show ?thesis by blast
    qed
  qed
qed

text \<open>\<open>new\<close> advances every source once, which parks every layer's first entry.\<close>

lemma merge_new_prefix:
  assumes "n \<le> length ls"
  shows "fold advance [0..<n] \<lparr>mi_sources = map (map Ok) ls, mi_heads = replicate (length ls) None, mi_heap = [], mi_error = None\<rparr>
    = \<lparr>mi_sources = map (\<lambda>l. map Ok (tl l)) (take n ls) @ map (map Ok) (drop n ls),
       mi_heads = map (\<lambda>l. if l = [] then None else Some (snd (hd l))) (take n ls) @ replicate (length ls - n) None,
       mi_heap = sorted_list_of_set {x \<in> heads_of ls. snd x < n}, mi_error = None\<rparr>"
  using assms
proof (induction n)
  case (Suc n)
  then have n: "n < length ls" by simp
  have drop: "drop n ls = ls ! n # drop (Suc n) ls" using n by (simp add: Cons_nth_drop_Suc)
  have take: "take (Suc n) ls = take n ls @ [ls ! n]" using n by (rule take_Suc_conv_app_nth)
  have rep: "replicate (length ls - n) (None :: lsm_value option) = None # replicate (length ls - Suc n) None"
    using n by (metis Suc_diff_Suc replicate_Suc)
  let ?H = "{x \<in> heads_of ls. snd x < n}"
  show ?case
  proof (cases "ls ! n")
    case Nil
    have "{x \<in> heads_of ls. snd x < Suc n} = ?H"
      using Nil by (auto simp: heads_of_def less_Suc_eq)
    then show ?thesis
      using Suc.IH n Nil take drop rep by (simp add: advance_def nth_append)
  next
    case (Cons e r)
    obtain k v where e: "e = (k, v)" by (metis surj_pair)
    have set: "{x \<in> heads_of ls. snd x < Suc n} = insert (k, n) ?H"
      using Cons e n by (auto simp: heads_of_def less_Suc_eq)
    have "sorted_list_of_set (insert (k, n) ?H) = insort (k, n) (sorted_list_of_set ?H)"
      by (rule sorted_list_of_set_insert) auto
    then show ?thesis
      using Suc.IH n Cons e take drop rep set by (simp add: advance_def nth_append list_update_append)
  qed
qed simp

lemma merge_new_rel: "mi_rel (merge_new (map (map Ok) ls)) ls"
proof -
  have "{x \<in> heads_of ls. snd x < length ls} = heads_of ls"
    by (auto simp: heads_of_def)
  then show ?thesis
    using merge_new_prefix [of "length ls" ls]
    by (simp add: merge_new_def mi_rel_def)
qed

lemma merge_sources_ok:
  "\<forall>l\<in>set ls. sorted_keys l \<Longrightarrow>
    \<exists>xs. merge_sources (map (map Ok) ls) = map Ok xs \<and> sorted_keys xs \<and> map_of xs = layers_view ls"
  unfolding merge_sources_def by (rule merge_all_rel [OF merge_new_rel])

text \<open>C28: The merge yields the newest live version of every key. Merging sorted sources, newest
  first, terminates and yields without error the keys in strictly ascending order, each with the
  value of the first source that has the key, and none for a key whose newest version is a
  tombstone.\<close>

theorem merge_newest_live:
  assumes "\<forall>l\<in>set ls. sorted_keys l"
  shows "\<exists>xs. merge_sources (map (map Ok) ls) = map Ok xs \<and> sorted_keys xs \<and>
    (\<forall>k v. (k, v) \<in> set xs \<longleftrightarrow>
      (\<exists>i < length ls. map_of (ls ! i) k = Some (Value v) \<and> (\<forall>j < i. map_of (ls ! j) k = None)))"
proof -
  obtain xs where xs: "merge_sources (map (map Ok) ls) = map Ok xs" "sorted_keys xs" "map_of xs = layers_view ls"
    using merge_sources_ok [OF assms] by blast
  have "(k, v) \<in> set xs \<longleftrightarrow> layers_get ls k = Some (Value v)" for k v
    using map_of_iff_mem [OF xs(2), of k v] xs(3) by (simp add: layers_view_Some)
  then show ?thesis
    using xs(1,2) layers_get_Some by auto
qed

theorem merge_newest_live_witness:
  "\<exists>xs. merge_sources (map (map Ok) [[([1], Tombstone)], [([1], Value [5]), ([2], Value [6])]]) = map Ok xs
     \<and> ([2], [6]) \<in> set xs \<and> ([1], [5]) \<notin> set xs"
proof -
  have "\<forall>l\<in>set [[([1 :: byte], Tombstone)], [([1], Value [5]), ([2], Value [6])]]. sorted_keys l"
    by simp
  from merge_newest_live [OF this] obtain xs where
    xs: "merge_sources (map (map Ok) [[([1 :: byte], Tombstone)], [([1], Value [5]), ([2], Value [6])]]) = map Ok xs"
      "\<And>k v. (k, v) \<in> set xs \<longleftrightarrow> layers_get [[([1 :: byte], Tombstone)], [([1], Value [5]), ([2], Value [6])]] k = Some (Value v)"
    unfolding layers_get_Some by blast
  then show ?thesis by (intro exI [of _ xs]) simp
qed

end
