(* ===== verification/Lsm_Env.thy ===== *)
theory Lsm_Env
  imports Lsm_Bloom Lsm_Merge Codec
begin

text \<open>
  What the LSM engine takes from third-party crates, as a record of functions the model is
  parameterised by: \<open>crc32fast::hash\<close>, the \<open>lz4_flex\<close> block codec and \<open>bincode\<close> for each
  persisted type. The persisted types are those of \<open>sstable/mod.rs\<close>, \<open>sstable/format.rs\<close>,
  \<open>wal.rs\<close> and \<open>manifest.rs\<close>. \<open>ext_ok\<close> states what the engine relies on: decoding
  inverts encoding, decompression inverts compression, and a manifest's encoded length does not
  depend on its fixed-width fields. Machine integers are words; \<open>+\<close> on them wraps, as in a
  release build.
\<close>

section \<open>Persisted types\<close>

record block_meta =
  bm_first_key :: bytes
  bm_offset :: u64
  bm_stored_len :: u32
  bm_raw_len :: u32
  bm_compressed :: bool
  bm_crc :: u32

record index_v2 =
  ix_min_key :: bytes
  ix_max_key :: bytes
  ix_entry_count :: u64
  ix_blocks :: "block_meta list"

type_synonym legacy_index = "bytes \<times> bytes \<times> (bytes \<times> u64) list"

type_synonym wal_record = "(bytes \<times> bytes option) list"

record sstable_ref =
  sr_generation :: u64
  sr_offset :: u64
  sr_length :: u64

record manifest =
  mf_next_sstable_id :: u64
  mf_sstables :: "sstable_ref list"
  mf_wal_region_start :: u64

section \<open>Third-party code\<close>

record ext =
  crc32 :: "bytes \<Rightarrow> u32"
  lz4_compress :: "bytes \<Rightarrow> bytes"
  lz4_decompress :: "bytes \<Rightarrow> nat \<Rightarrow> bytes option"
  raw_m :: "nat \<Rightarrow> u32"
  raw_k :: "u32 \<Rightarrow> nat \<Rightarrow> u32"
  bloom_codec :: "bloom codec"
  index_codec :: "index_v2 codec"
  legacy_codec :: "legacy_index codec"
  wal_codec :: "wal_record codec"
  manifest_codec :: "manifest codec"

definition ext_ok :: "ext \<Rightarrow> bool" where
  "ext_ok E \<longleftrightarrow>
    (\<forall>x. lz4_decompress E (lz4_compress E x) (length x) = Some x) \<and>
    codec_ok (bloom_codec E) \<and> codec_ok (index_codec E) \<and> codec_ok (wal_codec E) \<and>
    codec_ok (manifest_codec E) \<and>
    (\<forall>m w. map_option length (serialize (manifest_codec E) (m\<lparr>mf_wal_region_start := w\<rparr>))
      = map_option length (serialize (manifest_codec E) m))"

lemma ext_ok_simps:
  assumes "ext_ok E"
  shows "lz4_decompress E (lz4_compress E x) (length x) = Some x"
    and "codec_ok (bloom_codec E)" "codec_ok (index_codec E)" "codec_ok (wal_codec E)" "codec_ok (manifest_codec E)"
  using assms by (auto simp: ext_ok_def)

lemma ext_ok_manifest_length:
  assumes "ext_ok E" "serialize (manifest_codec E) m = Some a"
    "serialize (manifest_codec E) (m\<lparr>mf_wal_region_start := w\<rparr>) = Some b"
  shows "length b = length a"
proof -
  have "map_option length (serialize (manifest_codec E) (m\<lparr>mf_wal_region_start := w\<rparr>))
      = map_option length (serialize (manifest_codec E) m)"
    using assms(1) unfolding ext_ok_def by blast
  then show ?thesis using assms(2,3) by simp
qed

end
