(* ===== verification/Lsm_Sstable.thy ===== *)
theory Lsm_Sstable
  imports Lsm_Env
begin

text \<open>
  SSTables (\<open>bkndb-storage-lsm/src/sstable/mod.rs\<close>, \<open>format.rs\<close>, \<open>cursor.rs\<close>): the entry
  codec, the block writer, writing and opening a blob within the container file, point lookup,
  the range cursor and verification. A file is the list of its bytes; \<open>sh_mmap\<close> is the file as
  mapped when the handle was made (the blob's bytes never change afterwards). File-system errors
  are not modelled, and a write that reports an error leaves the file unspecified.
  \<open>sst_repr\<close> is the abstraction: a handle stands for a strictly ascending list of entries.
\<close>

definition corrupt :: "string \<Rightarrow> bkn_error" where
  "corrupt msg = Corruption msg"

section \<open>Entries\<close>

definition encode_entry :: "bytes \<Rightarrow> bytes \<Rightarrow> lsm_value \<Rightarrow> bytes" where
  "encode_entry out key value =
    (let out = out @ be32 (word_of_nat (length key)) @ key
     in case value of
          Tombstone \<Rightarrow> out @ [0]
        | Value bytes \<Rightarrow> out @ [1] @ be32 (word_of_nat (length bytes)) @ bytes)"

type_synonym decoded_entry = "bytes \<times> (nat \<times> nat) option \<times> nat"

definition read_u32 :: "bytes \<Rightarrow> nat \<Rightarrow> nat res" where
  "read_u32 sl at = (case slice_get at (at + 4) sl of
      Some b \<Rightarrow> Ok (unat (of_be32 b))
    | None \<Rightarrow> Err (corrupt ''sstable entry truncated''))"

definition decode_entry :: "bytes \<Rightarrow> decoded_entry res" where
  "decode_entry sl =
    bind_res (read_u32 sl 0) (\<lambda>key_len.
    bind_res (ok_or (slice_get 4 (4 + key_len) sl) (corrupt ''sstable entry truncated'')) (\<lambda>key.
    bind_res (ok_or (if 4 + key_len < length sl then Some (sl ! (4 + key_len)) else None)
      (corrupt ''sstable entry truncated'')) (\<lambda>tag.
    let consumed = 4 + key_len + 1
    in if tag = 0 then Ok (key, None, consumed)
       else if tag = 1 then
         bind_res (read_u32 sl consumed) (\<lambda>vlen.
           let consumed = consumed + 4
           in if length sl < consumed + vlen then Err (corrupt ''sstable entry truncated'')
              else Ok (key, Some (consumed, consumed + vlen), consumed + vlen))
       else Err (corrupt ''unknown sstable entry tag''))))"

definition to_lsm_value :: "bytes \<Rightarrow> (nat \<times> nat) option \<Rightarrow> lsm_value res" where
  "to_lsm_value block value = (case value of
      Some (a, b) \<Rightarrow> (case slice_get a b block of Some v \<Rightarrow> Ok (Value v) | None \<Rightarrow> Panic)
    | None \<Rightarrow> Ok Tombstone)"

definition shift_range :: "nat \<Rightarrow> (nat \<times> nat) option \<Rightarrow> (nat \<times> nat) option" where
  "shift_range pos value = map_option (\<lambda>(a, b). (a + pos, b + pos)) value"

definition below_start :: "bytes \<Rightarrow> bytes bound \<Rightarrow> bool" where
  "below_start key start = (case start of Included b \<Rightarrow> key < b | Excluded b \<Rightarrow> key \<le> b | Unbounded \<Rightarrow> False)"

definition past_end :: "bytes \<Rightarrow> bytes bound \<Rightarrow> bool" where
  "past_end key e = (case e of Included b \<Rightarrow> key > b | Excluded b \<Rightarrow> key \<ge> b | Unbounded \<Rightarrow> False)"

lemma decode_entry_consumed: "decode_entry sl = Ok (k, v, consumed) \<Longrightarrow> 5 \<le> consumed"
  by (auto simp: decode_entry_def Let_def bind_res_Ok_iff split: if_splits)

section \<open>Blocks and their writer\<close>

record write_options =
  wo_block_size :: nat
  wo_compress :: bool

record block =
  b_first_key :: bytes
  b_offset :: u64
  b_stored_len :: u64
  b_raw_len :: nat
  b_compressed :: bool
  b_crc :: "u32 option"

definition block_of_meta :: "block_meta \<Rightarrow> block" where
  "block_of_meta m = \<lparr>b_first_key = bm_first_key m, b_offset = bm_offset m, b_stored_len = ucast (bm_stored_len m),
     b_raw_len = unat (bm_raw_len m), b_compressed = bm_compressed m, b_crc = Some (bm_crc m)\<rparr>"

text \<open>\<open>bw_out\<close> is what the writer has sent to the file since it was made.\<close>

record block_writer =
  bw_out :: bytes
  bw_raw :: bytes
  bw_first_key :: bytes
  bw_offset :: u64
  bw_blocks :: "block_meta list"

definition finish_block :: "ext \<Rightarrow> write_options \<Rightarrow> block_writer \<Rightarrow> block_writer res" where
  "finish_block E opts w =
    (if bw_raw w = [] then Ok w
     else
       let raw = bw_raw w;
           compressed = (if wo_compress opts \<and> length (lz4_compress E raw) < length raw
                         then Some (lz4_compress E raw) else None);
           stored = (case compressed of Some c \<Rightarrow> c | None \<Rightarrow> raw)
       in if 2 ^ 32 \<le> length stored \<or> 2 ^ 32 \<le> length raw then Err (Backend ''sstable block too large'')
          else Ok (w\<lparr>bw_out := bw_out w @ stored,
                 bw_blocks := bw_blocks w @ [\<lparr>bm_first_key = bw_first_key w, bm_offset = bw_offset w,
                   bm_stored_len = word_of_nat (length stored), bm_raw_len = word_of_nat (length raw),
                   bm_compressed = (compressed \<noteq> None), bm_crc = crc32 E stored\<rparr>],
                 bw_first_key := [], bw_offset := bw_offset w + word_of_nat (length stored), bw_raw := []\<rparr>))"

definition push_entry :: "ext \<Rightarrow> write_options \<Rightarrow> bytes \<Rightarrow> lsm_value \<Rightarrow> block_writer \<Rightarrow> block_writer res" where
  "push_entry E opts key value w =
    (let w = (if bw_raw w = [] then w\<lparr>bw_first_key := key\<rparr> else w);
         w = w\<lparr>bw_raw := encode_entry (bw_raw w) key value\<rparr>
     in if max (wo_block_size opts) 1 \<le> length (bw_raw w) then finish_block E opts w else Ok w)"

definition legacy_blocks :: "(bytes \<times> u64) list \<Rightarrow> u64 \<Rightarrow> block list" where
  "legacy_blocks sparse data_end =
    map (\<lambda>((first_key, offset), e). \<lparr>b_first_key = first_key, b_offset = offset, b_stored_len = e - offset,
        b_raw_len = unat (e - offset), b_compressed = False, b_crc = None\<rparr>)
      (zip sparse (map snd (drop 1 sparse) @ [data_end]))"

section \<open>Handles: writing and opening a blob\<close>

record sstable =
  sh_mmap :: bytes
  sh_base_offset :: u64
  sh_blob_len :: u64
  sh_bloom :: bloom
  sh_blocks :: "block list"
  sh_entry_count :: "u64 option"
  sh_min_key :: bytes
  sh_max_key :: bytes
  sh_generation :: u64

definition FOOTER_V1_LEN :: u64 where "FOOTER_V1_LEN = 24"
definition FOOTER_V2_LEN :: u64 where "FOOTER_V2_LEN = 40"
definition MAGIC_V2 :: bytes where "MAGIC_V2 = as_bytes ''BKNSST02''"

record write_state =
  ws_bloom :: bloom
  ws_min_key :: "bytes option"
  ws_max_key :: bytes
  ws_entry_count :: u64
  ws_writer :: block_writer

text \<open>The body of the loop over the entries.\<close>

definition write_entry :: "ext \<Rightarrow> write_options \<Rightarrow> entry res \<Rightarrow> write_state \<Rightarrow> write_state res" where
  "write_entry E opts item st = bind_res item (\<lambda>(key, value).
     bind_res (bloom_insert key (ws_bloom st)) (\<lambda>bl.
     bind_res (push_entry E opts key value (ws_writer st)) (\<lambda>w.
       Ok (st\<lparr>ws_bloom := bl, ws_min_key := (case ws_min_key st of None \<Rightarrow> Some key | Some k \<Rightarrow> Some k),
              ws_max_key := key, ws_entry_count := ws_entry_count st + 1, ws_writer := w\<rparr>))))"

definition sst_write :: "ext \<Rightarrow> bytes \<Rightarrow> u64 \<Rightarrow> entry_iter \<Rightarrow> nat \<Rightarrow> write_options \<Rightarrow> (bytes \<times> sstable) res" where
  "sst_write E file generation entries expected_items opts =
    (let base_offset = word_of_nat (length file) :: u64;
         st = \<lparr>ws_bloom = bloom_new (raw_m E) (raw_k E) (max expected_items 1), ws_min_key = None,
               ws_max_key = [], ws_entry_count = 0,
               ws_writer = \<lparr>bw_out = [], bw_raw = [], bw_first_key = [], bw_offset = 0, bw_blocks = []\<rparr>\<rparr>
     in bind_res (for_res (write_entry E opts) entries st) (\<lambda>st.
        bind_res (finish_block E opts (ws_writer st)) (\<lambda>w.
        let bloom_offset = bw_offset w
        in bind_res (ok_or (serialize (bloom_codec E) (ws_bloom st)) (Encoding ''bincode'')) (\<lambda>bloom_bytes.
        let index = \<lparr>ix_min_key = (case ws_min_key st of Some k \<Rightarrow> k | None \<Rightarrow> []), ix_max_key = ws_max_key st,
                     ix_entry_count = ws_entry_count st, ix_blocks = bw_blocks w\<rparr>
        in bind_res (ok_or (serialize (index_codec E) index) (Encoding ''bincode'')) (\<lambda>index_bytes.
        let index_offset = bloom_offset + word_of_nat (length bloom_bytes);
            index_len = word_of_nat (length index_bytes) :: u64;
            meta_crc = crc32 E (bloom_bytes @ index_bytes);
            file' = file @ bw_out w @ bloom_bytes @ index_bytes @ be64 bloom_offset @ be64 index_offset
              @ be64 index_len @ be32 meta_crc @ be32 0 @ MAGIC_V2
        in Ok (file', \<lparr>sh_mmap = file', sh_base_offset = base_offset,
             sh_blob_len = index_offset + index_len + FOOTER_V2_LEN, sh_bloom = ws_bloom st,
             sh_blocks = map block_of_meta (ix_blocks index), sh_entry_count = Some (ws_entry_count st),
             sh_min_key = ix_min_key index, sh_max_key = ix_max_key index, sh_generation = generation\<rparr>))))))"

text \<open>\<open>seek\<close> then \<open>read_exact\<close>: fails when the file ends before the range does.\<close>

definition read_at :: "bytes \<Rightarrow> u64 \<Rightarrow> u64 \<Rightarrow> u64 \<Rightarrow> bytes res" where
  "read_at file base_offset offset len =
    (let start = unat (base_offset + offset)
     in ok_or (slice_get start (start + unat len) file) (corrupt ''sstable truncated''))"

definition sst_open :: "ext \<Rightarrow> bytes \<Rightarrow> u64 \<Rightarrow> u64 \<Rightarrow> u64 \<Rightarrow> sstable res" where
  "sst_open E file generation base_offset blob_len =
    (if blob_len < FOOTER_V1_LEN then Err (corrupt ''sstable is too small to contain a footer'')
     else
       bind_res (if FOOTER_V2_LEN \<le> blob_len
                 then bind_res (read_at file base_offset (blob_len - 8) 8) (\<lambda>m. Ok (m = MAGIC_V2))
                 else Ok False) (\<lambda>is_v2.
       let footer_len = (if is_v2 then FOOTER_V2_LEN else FOOTER_V1_LEN)
       in bind_res (read_at file base_offset (blob_len - footer_len) footer_len) (\<lambda>footer.
       let field = (\<lambda>i. of_be64 (take 8 (drop (i * 8) footer)));
           bloom_offset = field 0;
           index_offset = field 1;
           index_len = field 2
       in if bloom_offset > index_offset \<or> 2 ^ 64 \<le> unat index_offset + unat index_len
             \<or> index_offset + index_len + footer_len > blob_len
          then Err (corrupt ''sstable has an inconsistent footer'')
          else
            bind_res (read_at file base_offset bloom_offset (index_offset + index_len - bloom_offset)) (\<lambda>meta.
            let bloom_bytes = take (unat (index_offset - bloom_offset)) meta;
                index_bytes = drop (unat (index_offset - bloom_offset)) meta
            in if is_v2 \<and> crc32 E meta \<noteq> of_be32 (take 4 (drop 24 footer))
               then Err (corrupt ''sstable: bloom/index checksum mismatch'')
               else
                 bind_res (ok_or (deserialize (bloom_codec E) bloom_bytes) (corrupt ''sstable: bincode'')) (\<lambda>bl.
                 bind_res
                   (if is_v2 then
                      bind_res (ok_or (deserialize (index_codec E) index_bytes) (corrupt ''sstable: bincode'')) (\<lambda>index.
                        Ok (map block_of_meta (ix_blocks index), Some (ix_entry_count index), ix_min_key index, ix_max_key index))
                    else
                      bind_res (ok_or (deserialize (legacy_codec E) index_bytes) (corrupt ''sstable: bincode'')) (\<lambda>(mn, mx, sparse).
                        Ok (legacy_blocks sparse bloom_offset, None, mn, mx)))
                   (\<lambda>(blocks, entry_count, min_key, max_key).
                 if blocks \<noteq> [] \<and> b_offset (last blocks) + b_stored_len (last blocks) > bloom_offset
                 then Err (corrupt ''sstable: block index points past the data section'')
                 else Ok \<lparr>sh_mmap = file, sh_base_offset = base_offset, sh_blob_len = blob_len, sh_bloom = bl,
                        sh_blocks = blocks, sh_entry_count = entry_count, sh_min_key = min_key, sh_max_key = max_key,
                        sh_generation = generation\<rparr>))))))"

definition estimated_entries :: "sstable \<Rightarrow> u64" where
  "estimated_entries h = (case sh_entry_count h of Some n \<Rightarrow> n | None \<Rightarrow> word_of_nat (length (sh_blocks h)) * 16)"

definition is_legacy :: "sstable \<Rightarrow> bool" where
  "is_legacy h = (sh_entry_count h = None)"

section \<open>Reading\<close>

definition block_bytes :: "ext \<Rightarrow> sstable \<Rightarrow> nat \<Rightarrow> bytes res" where
  "block_bytes E h i =
    (if i < length (sh_blocks h) then
       let b = sh_blocks h ! i; start = unat (sh_base_offset h + b_offset b)
       in bind_res (ok_or (slice_get start (start + unat (b_stored_len b)) (sh_mmap h))
            (corrupt ''sstable block lies past the end of the file'')) (\<lambda>stored.
          if (case b_crc b of Some crc \<Rightarrow> crc32 E stored \<noteq> crc | None \<Rightarrow> False)
          then Err (corrupt ''sstable block: checksum mismatch'')
          else if b_compressed b
          then ok_or (lz4_decompress E stored (b_raw_len b)) (corrupt ''sstable block: lz4'')
          else Ok stored)
     else Panic)"

text \<open>\<open>partition_point\<close> counts the leading blocks that satisfy the predicate.\<close>

definition block_for :: "sstable \<Rightarrow> bytes \<Rightarrow> nat option" where
  "block_for h key =
    (let n = length (takeWhile (\<lambda>b. b_first_key b \<le> key) (sh_blocks h))
     in if n = 0 then None else Some (n - 1))"

function sst_get_loop :: "bytes \<Rightarrow> bytes \<Rightarrow> nat \<Rightarrow> lsm_value option res" where
  "sst_get_loop block key pos =
    (if pos < length block then
       bind_res (decode_entry (drop pos block)) (\<lambda>(k, value, consumed).
         if k = key then bind_res (to_lsm_value block (shift_range pos value)) (\<lambda>v. Ok (Some v))
         else if k > key then Ok None
         else sst_get_loop block key (pos + consumed))
     else Ok None)"
  by pat_completeness auto
termination
  by (relation "measure (\<lambda>(block, key, pos). length block - pos)") (auto dest!: decode_entry_consumed)

definition sst_get :: "ext \<Rightarrow> sstable \<Rightarrow> bytes \<Rightarrow> lsm_value option res" where
  "sst_get E h key =
    (if sh_blocks h = [] \<or> key < sh_min_key h \<or> key > sh_max_key h then Ok None
     else bind_res (might_contain (sh_bloom h) key) (\<lambda>maybe.
       if \<not> maybe then Ok None
       else (case block_for h key of
           None \<Rightarrow> Ok None
         | Some i \<Rightarrow> bind_res (block_bytes E h i) (\<lambda>block. sst_get_loop block key 0))))"

record sst_cursor =
  cu_next_block :: nat
  cu_buf :: "entry list"
  cu_start :: "bytes bound"
  cu_end :: "bytes bound"
  cu_done :: bool

definition cursor_new :: "sstable \<Rightarrow> bytes bound \<Rightarrow> bytes bound \<Rightarrow> sst_cursor" where
  "cursor_new h start e =
    (let empty = (sh_blocks h = []
           \<or> (case e of Included k \<Rightarrow> k < sh_min_key h | Excluded k \<Rightarrow> k < sh_min_key h | Unbounded \<Rightarrow> False)
           \<or> (case start of Included k \<Rightarrow> k > sh_max_key h | Excluded k \<Rightarrow> k > sh_max_key h | Unbounded \<Rightarrow> False));
         or_zero = (\<lambda>x. case x of Some i \<Rightarrow> i | None \<Rightarrow> 0);
         next_block = (case start of Included k \<Rightarrow> or_zero (block_for h k) | Excluded k \<Rightarrow> or_zero (block_for h k)
                       | Unbounded \<Rightarrow> 0)
     in \<lparr>cu_next_block = (if empty then length (sh_blocks h) else next_block), cu_buf = [], cu_start = start,
         cu_end = e, cu_done = empty\<rparr>)"

function load_loop :: "bytes \<Rightarrow> bytes bound \<Rightarrow> nat \<Rightarrow> entry list \<Rightarrow> entry list res" where
  "load_loop block start pos buf =
    (if pos < length block then
       bind_res (decode_entry (drop pos block)) (\<lambda>(k, value, consumed).
         if \<not> below_start k start
         then bind_res (to_lsm_value block (shift_range pos value)) (\<lambda>v. load_loop block start (pos + consumed) (buf @ [(k, v)]))
         else load_loop block start (pos + consumed) buf)
     else Ok buf)"
  by pat_completeness auto
termination
  by (relation "measure (\<lambda>(block, start, pos, buf). length block - pos)") (auto dest!: decode_entry_consumed)

definition load_next_block :: "ext \<Rightarrow> sstable \<Rightarrow> sst_cursor \<Rightarrow> sst_cursor res" where
  "load_next_block E h c =
    bind_res (block_bytes E h (cu_next_block c)) (\<lambda>block.
      bind_res (load_loop block (cu_start c) 0 (cu_buf c)) (\<lambda>buf.
        Ok (c\<lparr>cu_next_block := cu_next_block c + 1, cu_buf := buf\<rparr>)))"

lemma load_next_block_fields:
  "load_next_block E h c = Ok c' \<Longrightarrow> cu_next_block c' = Suc (cu_next_block c) \<and> cu_done c' = cu_done c"
  by (auto simp: load_next_block_def bind_res_Ok_iff)

function cursor_next :: "ext \<Rightarrow> sstable \<Rightarrow> sst_cursor \<Rightarrow> entry res option \<times> sst_cursor" where
  "cursor_next E h c =
    (if cu_done c then (None, c)
     else (case cu_buf c of
         (k, v) # buf \<Rightarrow>
           let c = c\<lparr>cu_buf := buf\<rparr>
           in if past_end k (cu_end c) then (None, c\<lparr>cu_done := True\<rparr>) else (Some (Ok (k, v)), c)
       | [] \<Rightarrow>
           if length (sh_blocks h) \<le> cu_next_block c then (None, c\<lparr>cu_done := True\<rparr>)
           else (case load_next_block E h c of
               Ok c' \<Rightarrow> cursor_next E h c'
             | Err e \<Rightarrow> (Some (Err e), c\<lparr>cu_done := True\<rparr>)
             | Panic \<Rightarrow> (Some Panic, c\<lparr>cu_done := True\<rparr>))))"
  by pat_completeness auto
termination
  by (relation "measure (\<lambda>(E, h, c). length (sh_blocks h) - cu_next_block c)") (auto dest!: load_next_block_fields)

declare sst_get_loop.simps [simp del] load_loop.simps [simp del] cursor_next.simps [simp del]

definition cursor_rank :: "sstable \<Rightarrow> sst_cursor \<Rightarrow> nat \<times> nat" where
  "cursor_rank h c = (if cu_done c then (0, 0) else (Suc (length (sh_blocks h) - cu_next_block c), length (cu_buf c)))"

lemma cursor_next_rank:
  "cursor_next E h c = (Some r, c') \<Longrightarrow> (cursor_rank h c', cursor_rank h c) \<in> less_than <*lex*> less_than"
proof (induction E h c rule: cursor_next.induct)
  case (1 E h c)
  show ?case
  proof (cases "cu_buf c = [] \<and> \<not> cu_done c \<and> cu_next_block c < length (sh_blocks h)")
    case True
    show ?thesis
    proof (cases "load_next_block E h c")
      case (Ok c1)
      then have "(cursor_rank h c', cursor_rank h c1) \<in> less_than <*lex*> less_than"
        using 1 True by (simp add: cursor_next.simps [of E h c])
      then show ?thesis
        using load_next_block_fields [OF Ok] True by (auto simp: cursor_rank_def split: if_splits)
    qed (use "1.prems" True in \<open>auto simp: cursor_next.simps [of E h c] cursor_rank_def\<close>)
  next
    case False
    then show ?thesis
      using "1.prems" by (auto simp: cursor_next.simps [of E h c] cursor_rank_def Let_def split: list.splits if_splits)
  qed
qed

function cursor_all :: "ext \<Rightarrow> sstable \<Rightarrow> sst_cursor \<Rightarrow> entry_iter" where
  "cursor_all E h c = (case cursor_next E h c of
      (None, c') \<Rightarrow> []
    | (Some r, c') \<Rightarrow> r # cursor_all E h c')"
  by pat_completeness auto
termination
  by (relation "inv_image (less_than <*lex*> less_than) (\<lambda>(E, h, c). cursor_rank h c)")
    (auto dest: cursor_next_rank [OF sym])

declare cursor_all.simps [simp del]

definition cursor :: "ext \<Rightarrow> sstable \<Rightarrow> bytes bound \<Rightarrow> bytes bound \<Rightarrow> entry_iter" where
  "cursor E h start e = cursor_all E h (cursor_new h start e)"

record verify_counts =
  vc_blocks_verified :: u64
  vc_blocks_unchecked :: u64
  vc_entries :: u64

function count_loop :: "bytes \<Rightarrow> nat \<Rightarrow> u64 \<Rightarrow> u64 res" where
  "count_loop block pos n =
    (if pos < length block then
       bind_res (decode_entry (drop pos block)) (\<lambda>(k, value, consumed). count_loop block (pos + consumed) (n + 1))
     else Ok n)"
  by pat_completeness auto
termination
  by (relation "measure (\<lambda>(block, pos, n). length block - pos)") (auto dest!: decode_entry_consumed)

declare count_loop.simps [simp del]

definition verify_block :: "ext \<Rightarrow> sstable \<Rightarrow> nat \<Rightarrow> verify_counts \<Rightarrow> verify_counts res" where
  "verify_block E h i counts =
    bind_res (block_bytes E h i) (\<lambda>block.
    bind_res (count_loop block 0 (vc_entries counts)) (\<lambda>n.
      let counts = counts\<lparr>vc_entries := n\<rparr>
      in Ok (if b_crc (sh_blocks h ! i) \<noteq> None
             then counts\<lparr>vc_blocks_verified := vc_blocks_verified counts + 1\<rparr>
             else counts\<lparr>vc_blocks_unchecked := vc_blocks_unchecked counts + 1\<rparr>)))"

definition sst_verify :: "ext \<Rightarrow> sstable \<Rightarrow> verify_counts res" where
  "sst_verify E h =
    bind_res (for_res (verify_block E h) [0..<length (sh_blocks h)]
      \<lparr>vc_blocks_verified = 0, vc_blocks_unchecked = 0, vc_entries = 0\<rparr>) (\<lambda>counts.
    if (case sh_entry_count h of Some n \<Rightarrow> n \<noteq> vc_entries counts | None \<Rightarrow> False)
    then Err (corrupt ''sstable: index records a different number of entries than the blocks hold'')
    else Ok counts)"

end
