(* ===== verification/Lsm_Sstable_Correct.thy ===== *)
theory Lsm_Sstable_Correct
  imports Lsm_Sstable
begin

text \<open>
  SSTables are correct: a handle that represents an entry list answers \<open>get\<close> with the list's
  map and \<open>cursor\<close> with its restriction to the bounds; \<open>write\<close> returns a handle for the
  entries it was given, and \<open>open\<close> on the written bytes returns the same handle again.
\<close>

section \<open>Decoding what was encoded\<close>

definition enc :: "entry \<Rightarrow> bytes" where
  "enc e = encode_entry [] (fst e) (snd e)"

definition encode_entries :: "entry list \<Rightarrow> bytes" where
  "encode_entries es = concat (map enc es)"

definition entry_ok :: "entry \<Rightarrow> bool" where
  "entry_ok e \<longleftrightarrow> length (fst e) < 2 ^ 32 \<and> (case snd e of Value b \<Rightarrow> length b < 2 ^ 32 | Tombstone \<Rightarrow> True)"

lemma encode_entry_append: "encode_entry out k v = out @ enc (k, v)"
  by (cases v) (simp_all add: enc_def encode_entry_def)

lemma encode_entries_simps [simp]:
  "encode_entries [] = []" "encode_entries (e # es) = enc e @ encode_entries es"
  "encode_entries (xs @ ys) = encode_entries xs @ encode_entries ys"
  by (simp_all add: encode_entries_def)

lemma enc_not_Nil [simp]: "enc e \<noteq> []"
  by (cases "snd e") (simp_all add: enc_def encode_entry_def)

lemma encode_entries_eq_Nil [simp]: "encode_entries es = [] \<longleftrightarrow> es = []"
  by (cases es) simp_all

lemma read_u32_ok:
  assumes "n < 2 ^ 32"
  shows "read_u32 (pre @ be32 (word_of_nat n) @ rest) (length pre) = Ok n"
proof -
  have "n mod 4294967296 = n" using assms by simp
  then show ?thesis
    using slice_get_append [of pre _ _ "be32 (word_of_nat n)" rest] by (simp add: read_u32_def unat_of_nat)
qed

lemma decode_entry_enc:
  assumes "entry_ok (k, v)"
  shows "decode_entry (enc (k, v) @ rest) =
    Ok (k, (case v of Tombstone \<Rightarrow> None | Value b \<Rightarrow> Some (length k + 9, length k + 9 + length b)), length (enc (k, v)))"
proof (cases v)
  case Tombstone
  have s: "enc (k, v) @ rest = be32 (word_of_nat (length k)) @ k @ 0 # rest"
    using Tombstone by (simp add: enc_def encode_entry_def)
  show ?thesis
    unfolding s
    using assms Tombstone read_u32_ok [of "length k" "[]" "k @ 0 # rest"]
      slice_get_append [of "be32 (word_of_nat (length k))" _ _ k "0 # rest"]
    by (simp add: decode_entry_def entry_ok_def nth_append enc_def encode_entry_def)
next
  case (Value b)
  let ?rest = "be32 (word_of_nat (length b)) @ b @ rest"
  have s: "enc (k, v) @ rest = be32 (word_of_nat (length k)) @ k @ 1 # ?rest"
    using Value by (simp add: enc_def encode_entry_def)
  have "read_u32 (be32 (word_of_nat (length k)) @ k @ 1 # ?rest) (length k + 5) = Ok (length b)"
    using assms Value read_u32_ok [of "length b" "be32 (word_of_nat (length k)) @ k @ [1]" "b @ rest"]
    by (simp add: entry_ok_def add.commute)
  then show ?thesis
    unfolding s
    using assms Value read_u32_ok [of "length k" "[]" "k @ 1 # ?rest"]
      slice_get_append [of "be32 (word_of_nat (length k))" _ _ k "1 # ?rest"]
    by (simp add: decode_entry_def entry_ok_def nth_append enc_def encode_entry_def Let_def add.commute add.left_commute)
qed

text \<open>The step of every decoding loop: at an entry boundary, the entry there is read whole.\<close>

lemma decode_step:
  assumes "entry_ok (k, v)" and block: "block = pre @ enc (k, v) @ rest"
  obtains r where "decode_entry (drop (length pre) block) = Ok (k, r, length (enc (k, v)))"
    "to_lsm_value block (shift_range (length pre) r) = Ok v" "length pre < length block"
proof -
  let ?r = "case v of Tombstone \<Rightarrow> None | Value b \<Rightarrow> Some (length k + 9, length k + 9 + length b)"
  have "to_lsm_value block (shift_range (length pre) ?r) = Ok v"
  proof (cases v)
    case (Value b)
    let ?hd = "pre @ be32 (word_of_nat (length k)) @ k @ 1 # be32 (word_of_nat (length b))"
    have "block = ?hd @ b @ rest"
      using block Value by (simp add: enc_def encode_entry_def)
    then have "slice_get (length k + 9 + length pre) (length k + 9 + length b + length pre) block = Some b"
      by (simp only:) (rule slice_get_append, simp_all)
    then show ?thesis using Value by (simp add: to_lsm_value_def shift_range_def)
  qed (simp add: to_lsm_value_def shift_range_def)
  moreover have "decode_entry (drop (length pre) block) = Ok (k, ?r, length (enc (k, v)))"
    using decode_entry_enc [OF assms(1)] block by simp
  moreover have "length pre < length block"
    using block enc_not_Nil [of "(k, v)"] by simp
  ultimately show thesis using that by blast
qed

lemma sst_get_loop_ok:
  assumes "\<forall>e\<in>set es. entry_ok e" "sorted_keys es"
  shows "sst_get_loop (pre @ encode_entries es) key (length pre) = Ok (map_of es key)"
  using assms
proof (induction es arbitrary: pre)
  case Nil
  then show ?case by (simp add: sst_get_loop.simps)
next
  case (Cons e es)
  obtain k v where e [simp]: "e = (k, v)" by (metis surj_pair)
  let ?block = "pre @ enc (k, v) @ encode_entries es"
  have "entry_ok (k, v)" using Cons.prems by simp
  then obtain r where r: "decode_entry (drop (length pre) ?block) = Ok (k, r, length (enc (k, v)))"
      "to_lsm_value ?block (shift_range (length pre) r) = Ok v" "length pre < length ?block"
    by (rule decode_step [OF _ refl])
  have "sst_get_loop ?block key (length pre + length (enc (k, v))) = Ok (map_of es key)"
    using Cons.IH [of "pre @ enc (k, v)"] Cons.prems by simp
  moreover have "map_of es key = None" if "k > key"
    using map_of_below [of k v es key] Cons.prems(2) that by simp
  ultimately show ?case
    using r by (cases "k = key") (subst sst_get_loop.simps, simp)+
qed

lemma load_loop_ok:
  assumes "\<forall>e\<in>set es. entry_ok e"
  shows "load_loop (pre @ encode_entries es) start (length pre) buf
    = Ok (buf @ filter (\<lambda>(k, v). \<not> below_start k start) es)"
  using assms
proof (induction es arbitrary: pre buf)
  case Nil
  then show ?case by (simp add: load_loop.simps)
next
  case (Cons e es)
  obtain k v where e [simp]: "e = (k, v)" by (metis surj_pair)
  let ?block = "pre @ enc (k, v) @ encode_entries es"
  have "entry_ok (k, v)" using Cons.prems by simp
  then obtain r where r: "decode_entry (drop (length pre) ?block) = Ok (k, r, length (enc (k, v)))"
      "to_lsm_value ?block (shift_range (length pre) r) = Ok v" "length pre < length ?block"
    by (rule decode_step [OF _ refl])
  have "load_loop ?block start (length pre + length (enc (k, v))) b = Ok (b @ filter (\<lambda>(k, v). \<not> below_start k start) es)" for b
    using Cons.IH [of "pre @ enc (k, v)" b] Cons.prems by simp
  then show ?case
    using r by (subst load_loop.simps) (simp)
qed

lemma count_loop_ok:
  assumes "\<forall>e\<in>set es. entry_ok e"
  shows "count_loop (pre @ encode_entries es) (length pre) n = Ok (n + word_of_nat (length es))"
  using assms
proof (induction es arbitrary: pre n)
  case Nil
  then show ?case by (simp add: count_loop.simps)
next
  case (Cons e es)
  obtain k v where e [simp]: "e = (k, v)" by (metis surj_pair)
  let ?block = "pre @ enc (k, v) @ encode_entries es"
  have "entry_ok (k, v)" using Cons.prems by simp
  then obtain r where r: "decode_entry (drop (length pre) ?block) = Ok (k, r, length (enc (k, v)))" "length pre < length ?block"
    by (rule decode_step [OF _ refl])
  have "count_loop ?block (length pre + length (enc (k, v))) (n + 1) = Ok (n + 1 + word_of_nat (length es))"
    using Cons.IH [of "pre @ enc (k, v)" "n + 1"] Cons.prems by simp
  then show ?case
    using r by (subst count_loop.simps) (simp add: add.assoc)
qed

section \<open>What a handle represents\<close>

text \<open>
  \<open>sst_repr E h es bss\<close>: the blocks of \<open>h\<close> decode to the non-empty runs \<open>bss\<close> of the
  ascending entry list \<open>es\<close>, the index holds each run's first key and the list's first and last
  keys, and the filter knows every key.
\<close>

definition sst_repr :: "ext \<Rightarrow> sstable \<Rightarrow> entry list \<Rightarrow> entry list list \<Rightarrow> bool" where
  "sst_repr E h es bss \<longleftrightarrow>
    sorted_keys es \<and> (\<forall>e\<in>set es. entry_ok e) \<and> concat bss = es \<and> [] \<notin> set bss \<and>
    map b_first_key (sh_blocks h) = map (\<lambda>bs. fst (hd bs)) bss \<and>
    (\<forall>i<length bss. block_bytes E h i = Ok (encode_entries (bss ! i))) \<and>
    (es \<noteq> [] \<longrightarrow> sh_min_key h = fst (hd es) \<and> sh_max_key h = fst (last es)) \<and>
    bloom_ok (sh_bloom h) \<and> (\<forall>k\<in>fst ` set es. might_contain (sh_bloom h) k = Ok True)"

lemma might_contain_returns:
  assumes "bloom_ok b"
  shows "\<exists>r. might_contain b key = Ok r"
proof -
  have "\<exists>r. all_bits_loop ps (bl_bits b) = Ok r" if "\<forall>i\<in>set ps. unat (i div 8) < length (bl_bits b)" for ps
    using that by (induction ps) (auto simp: Let_def)
  then show ?thesis
    using probe_bits_in_range [OF assms] assms by (auto simp: might_contain_def bloom_ok_def)
qed

lemma sst_repr_length: "sst_repr E h es bss \<Longrightarrow> length (sh_blocks h) = length bss"
  unfolding sst_repr_def by (metis length_map)

lemma sst_repr_first_key:
  assumes "sst_repr E h es bss" "i < length bss"
  shows "b_first_key (sh_blocks h ! i) = fst (hd (bss ! i))"
proof -
  have "map b_first_key (sh_blocks h) ! i = map (\<lambda>bs. fst (hd bs)) bss ! i"
    using assms(1) by (simp add: sst_repr_def)
  then show ?thesis using assms sst_repr_length [OF assms(1)] by simp
qed

lemma sst_repr_Nil: "sst_repr E h es bss \<Longrightarrow> sh_blocks h = [] \<longleftrightarrow> es = []"
  using sst_repr_length [of E h es bss] by (cases bss) (auto simp: sst_repr_def)

text \<open>Splitting the entries at block \<open>i\<close>.\<close>

lemma sst_repr_split:
  assumes "sst_repr E h es bss" "i < length bss"
  shows "es = concat (take i bss) @ bss ! i @ concat (drop (Suc i) bss)"
proof -
  have "bss = take i bss @ bss ! i # drop (Suc i) bss"
    using assms(2) by (simp add: Cons_nth_drop_Suc)
  then have "concat bss = concat (take i bss @ bss ! i # drop (Suc i) bss)" by simp
  then show ?thesis using assms(1) by (simp add: sst_repr_def)
qed

lemma sorted_keys_append:
  "sorted_keys (xs @ ys) \<longleftrightarrow> sorted_keys xs \<and> sorted_keys ys \<and> (\<forall>a\<in>fst ` set xs. \<forall>b\<in>fst ` set ys. a < b)"
  by (auto simp: sorted_wrt_append)

lemma sorted_keys_hd_le: "sorted_keys es \<Longrightarrow> e \<in> set es \<Longrightarrow> fst (hd es) \<le> fst e"
  by (cases es) auto

lemma sorted_keys_le_last: "sorted_keys es \<Longrightarrow> e \<in> set es \<Longrightarrow> fst e \<le> fst (last es)"
  by (induction es) (auto, metis less_le_trans last_in_set order_less_imp_le)

text \<open>The block that \<open>block_for\<close> names: everything before it lies below the key, and everything
  after it above.\<close>

lemma block_for_some:
  assumes repr: "sst_repr E h es bss" and i: "block_for h key = Some i"
  shows "i < length bss" "\<forall>e\<in>set (concat (take i bss)). fst e < key" "\<forall>e\<in>set (concat (drop (Suc i) bss)). key < fst e"
proof -
  let ?P = "\<lambda>b. b_first_key b \<le> key"
  let ?n = "length (takeWhile ?P (sh_blocks h))"
  have n: "?n = Suc i" using i by (auto simp: block_for_def Let_def split: if_splits)
  have le: "?n \<le> length bss" using sst_repr_length [OF repr] length_takeWhile_le [of ?P "sh_blocks h"] by simp
  show il: "i < length bss" using n le by simp
  have ne: "bs \<noteq> []" if "bs \<in> set bss" for bs using repr that by (auto simp: sst_repr_def)
  have "sorted_keys es" using repr by (simp add: sst_repr_def)
  note split = this [unfolded sst_repr_split [OF repr il] sorted_keys_append]
  have "?P (sh_blocks h ! i)"
    using n nth_mem [of i "takeWhile ?P (sh_blocks h)"] takeWhile_nth [of i ?P "sh_blocks h"] set_takeWhileD by force
  then have "fst (hd (bss ! i)) \<le> key" using sst_repr_first_key [OF repr il] by simp
  moreover have "hd (bss ! i) \<in> set (bss ! i)" using ne il by simp
  ultimately show "\<forall>e\<in>set (concat (take i bss)). fst e < key"
    using split by (fastforce dest: less_le_trans)
  show "\<forall>e\<in>set (concat (drop (Suc i) bss)). key < fst e"
  proof (cases "drop (Suc i) bss")
    case (Cons bs rest)
    then have i1: "Suc i < length bss" by (metis drop_all linorder_not_less list.distinct(1))
    have bs: "bs = bss ! Suc i" using Cons i1 by (metis Cons_nth_drop_Suc list.inject)
    have "?n < length (sh_blocks h)" using i1 n sst_repr_length [OF repr] by simp
    then have "\<not> ?P (sh_blocks h ! ?n)" by (rule nth_length_takeWhile)
    then have lt: "key < fst (hd bs)" using sst_repr_first_key [OF repr i1] n bs by simp
    have "bs \<noteq> []" using ne i1 bs by simp
    then have "hd (concat (drop (Suc i) bss)) = hd bs" using Cons by (simp add: hd_append)
    moreover have "sorted_keys (concat (drop (Suc i) bss))" using split by simp
    ultimately have "fst (hd bs) \<le> fst e" if "e \<in> set (concat (drop (Suc i) bss))" for e
      using sorted_keys_hd_le that by metis
    then show ?thesis using lt less_le_trans by blast
  qed simp
qed

lemma block_for_none:
  assumes repr: "sst_repr E h es bss" and "block_for h key = None" "e \<in> set es"
  shows "key < fst e"
proof -
  have ne: "es \<noteq> []" using assms(3) by auto
  then obtain b bs where b: "sh_blocks h = b # bs" using sst_repr_Nil [OF repr] by (cases "sh_blocks h") auto
  then have "bss \<noteq> []" using sst_repr_length [OF repr] by auto
  then have "hd es = hd (bss ! 0)" "0 < length bss"
    using repr by (cases bss, auto simp: sst_repr_def hd_append)+
  then have "b_first_key b = fst (hd es)" using sst_repr_first_key [OF repr, of 0] b by simp
  moreover have "key < b_first_key b"
    using assms(2) b by (auto simp: block_for_def Let_def split: if_splits)
  moreover have "sorted_keys es" using repr by (simp add: sst_repr_def)
  ultimately show ?thesis using sorted_keys_hd_le [OF _ assms(3)] by simp
qed

lemma map_of_append_above: "(\<forall>e\<in>set ys. x \<noteq> fst e) \<Longrightarrow> map_of (xs @ ys) x = map_of xs x"
  by (induction xs) (auto simp: map_of_eq_None_iff)

lemma map_of_append_below: "(\<forall>e\<in>set xs. x \<noteq> fst e) \<Longrightarrow> map_of (xs @ ys) x = map_of ys x"
  by (induction xs) auto

lemma sst_get_ok:
  assumes repr: "sst_repr E h es bss"
  shows "sst_get E h key = Ok (map_of es key)"
proof (cases "sh_blocks h = [] \<or> key < sh_min_key h \<or> key > sh_max_key h")
  case True
  have "map_of es key = None"
  proof (cases "es = []")
    case False
    have "sorted_keys es" "sh_min_key h = fst (hd es)" "sh_max_key h = fst (last es)"
      using repr False by (auto simp: sst_repr_def)
    then have "key \<noteq> fst e" if "e \<in> set es" for e
      using True sorted_keys_hd_le [OF _ that] sorted_keys_le_last [OF _ that] sst_repr_Nil [OF repr] False by auto
    then show ?thesis by (auto simp: map_of_eq_None_iff)
  qed simp
  then show ?thesis using True by (simp add: sst_get_def)
next
  case False
  note out = False
  have "bloom_ok (sh_bloom h)" using repr by (simp add: sst_repr_def)
  then obtain r where r: "might_contain (sh_bloom h) key = Ok r"
    using might_contain_returns by blast
  show ?thesis
  proof (cases r)
    case False
    then have "key \<notin> fst ` set es" using r repr by (auto simp: sst_repr_def)
    then have "map_of es key = None" by (simp add: map_of_eq_None_iff)
    then show ?thesis using out r False by (simp add: sst_get_def)
  next
    case True
    show ?thesis
    proof (cases "block_for h key")
      case None
      then have "map_of es key = None"
        using block_for_none [OF repr None] by (fastforce simp: map_of_eq_None_iff)
      then show ?thesis using out r True None by (simp add: sst_get_def)
    next
      case (Some i)
      note bf = block_for_some [OF repr Some]
      have es: "es = concat (take i bss) @ bss ! i @ concat (drop (Suc i) bss)"
        using sst_repr_split [OF repr bf(1)] .
      have "map_of es key = map_of (bss ! i) key"
      proof -
        have below: "\<forall>e\<in>set (concat (take i bss)). key \<noteq> fst e"
          and above: "\<forall>e\<in>set (concat (drop (Suc i) bss)). key \<noteq> fst e"
          using bf(2,3) by blast+
        have "map_of es key = map_of (bss ! i @ concat (drop (Suc i) bss)) key"
          by (subst es) (rule map_of_append_below [OF below])
        then show ?thesis using map_of_append_above [OF above] by metis
      qed
      moreover have "\<forall>e\<in>set (bss ! i). entry_ok e" "sorted_keys (bss ! i)"
      proof -
        have "set (bss ! i) \<subseteq> set es" "sorted_keys (concat (take i bss) @ bss ! i @ concat (drop (Suc i) bss))"
          using repr es by (auto simp: sst_repr_def)
        then show "\<forall>e\<in>set (bss ! i). entry_ok e" "sorted_keys (bss ! i)"
          using repr unfolding sst_repr_def sorted_keys_append by blast+
      qed
      then have "sst_get_loop (encode_entries (bss ! i)) key 0 = Ok (map_of (bss ! i) key)"
        using sst_get_loop_ok [of "bss ! i" "[]" key] by simp
      moreover have "block_bytes E h i = Ok (encode_entries (bss ! i))"
        using repr bf(1) by (simp add: sst_repr_def)
      ultimately show ?thesis using out r True Some by (simp add: sst_get_def)
    qed
  qed
qed

section \<open>The cursor\<close>

text \<open>What an unfinished cursor still yields, when its remaining entries ascend.\<close>

lemma takeWhile_not_past_end:
  "sorted_keys es \<Longrightarrow> takeWhile (\<lambda>(k, v). \<not> past_end k e) es = filter (\<lambda>(k, v). \<not> past_end k e) es"
proof (induction es)
  case (Cons x es)
  obtain k v where x: "x = (k, v)" by (metis surj_pair)
  have "past_end k' e" if "past_end k e" "k < k'" for k'
    using that by (cases e) (auto simp: past_end_def)
  then have "filter (\<lambda>(k, v). \<not> past_end k e) es = []" if "past_end k e"
    using Cons.prems x that by (fastforce simp: filter_empty_conv)
  then show ?case using Cons x by simp
qed simp

text \<open>Draining the buffer, and moving to the next block when it is empty.\<close>

lemma cursor_all_drain:
  assumes "\<not> cu_done c"
  shows "cursor_all E h c = map Ok (takeWhile (\<lambda>(k, v). \<not> past_end k (cu_end c)) (cu_buf c)) @
    (if \<forall>(k, v)\<in>set (cu_buf c). \<not> past_end k (cu_end c) then cursor_all E h (c\<lparr>cu_buf := []\<rparr>) else [])"
  using assms
proof (induction "cu_buf c" arbitrary: c)
  case Nil
  then have upd: "c\<lparr>cu_buf := []\<rparr> = c" by (cases c) simp
  show ?case by (simp only: upd Nil(1) [symmetric]) simp
next
  case (Cons e buf)
  obtain k v where e: "e = (k, v)" by (metis surj_pair)
  note c = Cons.hyps(2) [symmetric, unfolded e]
  let ?c = "c\<lparr>cu_buf := buf\<rparr>"
  show ?case
  proof (cases "past_end k (cu_end c)")
    case True
    then have "cursor_next E h c = (None, ?c\<lparr>cu_done := True\<rparr>)"
      using Cons.prems c by (simp add: cursor_next.simps [of E h c])
    then show ?thesis using c True by (simp add: cursor_all.simps [of E h c])
  next
    case False
    then have "cursor_next E h c = (Some (Ok (k, v)), ?c)"
      using Cons.prems c by (simp add: cursor_next.simps [of E h c])
    then have "cursor_all E h c = Ok (k, v) # cursor_all E h ?c"
      by (simp add: cursor_all.simps [of E h c])
    then show ?thesis using Cons.hyps(1) [of ?c] Cons.prems c False by simp
  qed
qed

lemma cursor_all_next_block:
  assumes "\<not> cu_done c" "cu_buf c = []" "cu_next_block c < length (sh_blocks h)" "load_next_block E h c = Ok c'"
  shows "cursor_all E h c = cursor_all E h c'"
proof -
  have "cursor_next E h c = cursor_next E h c'"
    using assms by (simp add: cursor_next.simps [of E h c])
  then show ?thesis by (simp add: cursor_all.simps [of E h c] cursor_all.simps [of E h c'])
qed

lemma takeWhile_append_if:
  "takeWhile P (xs @ ys) = takeWhile P xs @ (if \<forall>x\<in>set xs. P x then takeWhile P ys else [])"
  by (induction xs) auto

lemma cursor_all_ok:
  assumes repr: "sst_repr E h es bss" and "\<not> cu_done c" "cu_next_block c \<le> length bss"
  shows "cursor_all E h c = map Ok (takeWhile (\<lambda>(k, v). \<not> past_end k (cu_end c))
    (cu_buf c @ filter (\<lambda>(k, v). \<not> below_start k (cu_start c)) (concat (drop (cu_next_block c) bss))))"
  using assms(2,3)
proof (induction "length bss - cu_next_block c" arbitrary: c)
  case 0
  let ?c = "c\<lparr>cu_buf := []\<rparr>"
  have "cursor_all E h ?c = []"
    using 0 sst_repr_length [OF repr] by (simp add: cursor_all.simps [of E h ?c] cursor_next.simps [of E h ?c])
  then show ?case
    using 0 cursor_all_drain [OF 0(2), of E h] by simp
next
  case (Suc n)
  let ?c = "c\<lparr>cu_buf := []\<rparr>" and ?i = "cu_next_block c"
  let ?fil = "filter (\<lambda>(k, v). \<not> below_start k (cu_start c))"
  let ?c' = "c\<lparr>cu_buf := ?fil (bss ! ?i), cu_next_block := Suc ?i\<rparr>"
  have i: "?i < length bss" using Suc.hyps(2) by simp
  have "\<forall>e\<in>set (bss ! ?i). entry_ok e"
    using repr sst_repr_split [OF repr i] by (auto simp: sst_repr_def)
  then have "load_next_block E h ?c = Ok ?c'"
    using repr i load_loop_ok [of "bss ! ?i" "[]" "cu_start c" "[]"]
    by (simp add: load_next_block_def sst_repr_def)
  then have "cursor_all E h ?c = cursor_all E h ?c'"
    using Suc.prems i sst_repr_length [OF repr] by (intro cursor_all_next_block) simp_all
  also have "\<dots> = map Ok (takeWhile (\<lambda>(k, v). \<not> past_end k (cu_end c)) (?fil (concat (drop ?i bss))))"
    using Suc.hyps(1) [of ?c'] Suc.hyps(2) Suc.prems i Cons_nth_drop_Suc [OF i, symmetric] by simp
  finally show ?case
    using cursor_all_drain [OF Suc.prems(1), of E h]
    by (simp add: takeWhile_append_if case_prod_beta' split: if_splits)
qed

lemma below_past_in_range: "\<not> below_start k lo \<and> \<not> past_end k hi \<longleftrightarrow> in_range lo hi k"
  by (cases lo; cases hi) (auto simp: below_start_def past_end_def in_range_def)

lemma cursor_ok:
  assumes repr: "sst_repr E h es bss"
  shows "cursor E h lo hi = map Ok (restrict lo hi es)"
proof (cases "cu_done (cursor_new h lo hi)")
  case True
  have "cursor_all E h (cursor_new h lo hi) = []"
    using True by (simp add: cursor_all.simps [of E h "cursor_new h lo hi"] cursor_next.simps [of E h "cursor_new h lo hi"])
  moreover have "\<not> in_range lo hi (fst e)" if "e \<in> set es" for e
  proof -
    have "es \<noteq> []" using that by auto
    then have "sh_blocks h \<noteq> []" "sh_min_key h \<le> fst e" "fst e \<le> sh_max_key h"
      using repr sst_repr_Nil [OF repr] sorted_keys_hd_le [OF _ that] sorted_keys_le_last [OF _ that]
      by (auto simp: sst_repr_def)
    with True show ?thesis
      by (cases lo; cases hi) (auto simp: cursor_new_def Let_def in_range_def)
  qed
  ultimately show ?thesis
    by (auto simp: cursor_def restrict_def filter_empty_conv)
next
  case False
  let ?c = "cursor_new h lo hi" and ?i = "cu_next_block (cursor_new h lo hi)"
  have f: "cu_buf ?c = []" "cu_start ?c = lo" "cu_end ?c = hi"
    by (simp_all add: cursor_new_def Let_def)
  have i: "?i \<le> length bss \<and> (\<forall>e\<in>set (concat (take ?i bss)). below_start (fst e) lo)"
  proof (cases lo)
    case (Included key)
    then show ?thesis
      using False block_for_some [OF repr, of key]
      by (cases "block_for h key") (auto simp: cursor_new_def Let_def below_start_def)
  next
    case (Excluded key)
    then show ?thesis
      using False block_for_some [OF repr, of key]
      by (cases "block_for h key") (auto simp: cursor_new_def Let_def below_start_def less_imp_le)
  next
    case Unbounded
    then show ?thesis using False by (simp add: cursor_new_def Let_def)
  qed
  have es: "es = concat (take ?i bss) @ concat (drop ?i bss)"
    using repr by (metis append_take_drop_id concat_append sst_repr_def)
  let ?rest = "filter (\<lambda>(k, v). \<not> below_start k lo) (concat (drop ?i bss))"
  have "filter (\<lambda>(k, v). \<not> below_start k lo) es = ?rest"
    using i by (subst es) (fastforce simp: filter_empty_conv)
  moreover have "sorted_keys es" using repr by (simp add: sst_repr_def)
  ultimately have "sorted_keys ?rest" by (metis sorted_filter_keys)
  have "cursor E h lo hi = map Ok (takeWhile (\<lambda>(k, v). \<not> past_end k hi) ?rest)"
    unfolding cursor_def using cursor_all_ok [OF repr False] i f by simp
  also have "\<dots> = map Ok (filter (\<lambda>(k, v). \<not> past_end k hi) ?rest)"
    using takeWhile_not_past_end [OF \<open>sorted_keys ?rest\<close>] by simp
  also have "\<dots> = map Ok (restrict lo hi es)"
    unfolding \<open>filter _ es = ?rest\<close> [symmetric]
    by (simp add: restrict_def below_past_in_range [symmetric] case_prod_beta' conj_commute)
  finally show ?thesis .
qed

end
