(* ===== verification/Lsm_Demo.thy ===== *)
theory Lsm_Demo
  imports Lsm_Env
begin

text \<open>
  A concrete instance of the third-party functions, which shows that \<open>ext_ok\<close> can hold: the codecs
  are built from the combinators of \<open>Codec\<close>; the
  checksum adds the bytes up and the compressor stores its input.
\<close>

definition sc_bloom :: "bloom scodec" where
  "sc_bloom = sc_map (\<lambda>(m, k, bits). \<lparr>bl_m = m, bl_k = k, bl_bits = bits\<rparr>) (\<lambda>b. (bl_m b, bl_k b, bl_bits b))
     (sc_pair sc_u32 (sc_pair sc_u32 (sc_list sc_byte)))"

definition sc_meta :: "block_meta scodec" where
  "sc_meta = sc_map (\<lambda>(k, off, st, raw, c, crc). \<lparr>bm_first_key = k, bm_offset = off, bm_stored_len = st, bm_raw_len = raw,
       bm_compressed = c, bm_crc = crc\<rparr>)
     (\<lambda>m. (bm_first_key m, bm_offset m, bm_stored_len m, bm_raw_len m, bm_compressed m, bm_crc m))
     (sc_pair (sc_list sc_byte) (sc_pair sc_u64 (sc_pair sc_u32 (sc_pair sc_u32 (sc_pair sc_bool sc_u32)))))"

definition sc_index :: "index_v2 scodec" where
  "sc_index = sc_map (\<lambda>(mn, mx, n, bs). \<lparr>ix_min_key = mn, ix_max_key = mx, ix_entry_count = n, ix_blocks = bs\<rparr>)
     (\<lambda>x. (ix_min_key x, ix_max_key x, ix_entry_count x, ix_blocks x))
     (sc_pair (sc_list sc_byte) (sc_pair (sc_list sc_byte) (sc_pair sc_u64 (sc_list sc_meta))))"

definition sc_wal :: "wal_record scodec" where
  "sc_wal = sc_list (sc_pair (sc_list sc_byte) (sc_opt (sc_list sc_byte)))"

definition sc_ref :: "sstable_ref scodec" where
  "sc_ref = sc_map (\<lambda>(g, off, len). \<lparr>sr_generation = g, sr_offset = off, sr_length = len\<rparr>)
     (\<lambda>x. (sr_generation x, sr_offset x, sr_length x)) (sc_pair sc_u64 (sc_pair sc_u64 sc_u64))"

definition sc_manifest :: "manifest scodec" where
  "sc_manifest = sc_map (\<lambda>(n, ss, w). \<lparr>mf_next_sstable_id = n, mf_sstables = ss, mf_wal_region_start = w\<rparr>)
     (\<lambda>m. (mf_next_sstable_id m, mf_sstables m, mf_wal_region_start m))
     (sc_pair sc_u64 (sc_pair (sc_list sc_ref) sc_u64))"

definition demo_ext :: ext where
  "demo_ext = \<lparr>crc32 = (\<lambda>bs. fold (\<lambda>b acc. acc + ucast b) bs 1), lz4_compress = (\<lambda>bs. bs),
     lz4_decompress = (\<lambda>bs n. Some bs), raw_m = (\<lambda>n. 64), raw_k = (\<lambda>m n. 7),
     bloom_codec = codec_of sc_bloom, index_codec = codec_of sc_index,
     legacy_codec = \<lparr>serialize = (\<lambda>_. None), deserialize = (\<lambda>_. None)\<rparr>,
     wal_codec = codec_of sc_wal, manifest_codec = codec_of sc_manifest\<rparr>"

lemma sc_record_ok: "sc_ok sc_bloom" "sc_ok sc_meta" "sc_ok sc_index" "sc_ok sc_wal" "sc_ok sc_ref" "sc_ok sc_manifest"
proof -
  show "sc_ok sc_bloom" by (auto simp: sc_bloom_def intro!: sc_oks)
  show meta: "sc_ok sc_meta" by (auto simp: sc_meta_def intro!: sc_oks sc_bool_ok)
  show "sc_ok sc_index" by (auto simp: sc_index_def intro!: sc_oks meta)
  show "sc_ok sc_wal" by (auto simp: sc_wal_def intro!: sc_oks)
  show ref: "sc_ok sc_ref" by (auto simp: sc_ref_def intro!: sc_oks)
  show "sc_ok sc_manifest" by (auto simp: sc_manifest_def intro!: sc_oks ref)
qed

lemma demo_ext_ok: "ext_ok demo_ext"
proof -
  have "map_option length (serialize (codec_of sc_manifest) (m\<lparr>mf_wal_region_start := w\<rparr>))
      = map_option length (serialize (codec_of sc_manifest) m)" for m w
    by (simp add: codec_of_def sc_manifest_def sc_map_def sc_pair_def sc_u64_def)
  then show ?thesis
    using sc_record_ok by (simp add: ext_ok_def demo_ext_def codec_of_ok)
qed

end
