(* ===== verification/Lsm_Sstable_Write.thy ===== *)
theory Lsm_Sstable_Write
  imports Lsm_Sstable_Correct Lsm_Demo
begin

text \<open>
  Writing SSTables: the block writer's invariant, that \<open>write\<close> succeeds and returns a handle
  representing the entries, and that \<open>open\<close> on the resulting file returns the same handle.
\<close>

section \<open>The block writer\<close>

text \<open>\<open>meta_ok E out m bs\<close>: index entry \<open>m\<close> locates, in the bytes \<open>out\<close>, a checksummed
  block that holds the entries \<open>bs\<close>.\<close>

definition meta_ok :: "ext \<Rightarrow> bytes \<Rightarrow> block_meta \<Rightarrow> entry list \<Rightarrow> bool" where
  "meta_ok E out m bs \<longleftrightarrow> bs \<noteq> [] \<and> bm_first_key m = fst (hd bs) \<and>
    (\<exists>off stored. bm_offset m = word_of_nat off \<and> slice_get off (off + unat (bm_stored_len m)) out = Some stored \<and>
      crc32 E stored = bm_crc m \<and>
      (if bm_compressed m then lz4_decompress E stored (unat (bm_raw_len m)) = Some (encode_entries bs)
       else stored = encode_entries bs))"

definition bw_inv :: "ext \<Rightarrow> block_writer \<Rightarrow> entry list list \<Rightarrow> entry list \<Rightarrow> bool" where
  "bw_inv E w bss cur \<longleftrightarrow> bw_raw w = encode_entries cur \<and> (cur \<noteq> [] \<longrightarrow> bw_first_key w = fst (hd cur)) \<and>
    bw_offset w = word_of_nat (length (bw_out w)) \<and> list_all2 (meta_ok E (bw_out w)) (bw_blocks w) bss \<and>
    length (bw_out w) \<le> length (encode_entries (concat bss))"

lemma slice_get_extend: "slice_get a b xs = Some ys \<Longrightarrow> slice_get a b (xs @ zs) = Some ys"
  by (auto simp: slice_get_def split: if_splits)

lemma meta_ok_extend: "meta_ok E out m bs \<Longrightarrow> meta_ok E (out @ tail) m bs"
  unfolding meta_ok_def using slice_get_extend by (metis (no_types))

lemma unat_of_nat_small:
  "n < 2 ^ 32 \<Longrightarrow> unat (word_of_nat n :: u32) = n" "n < 2 ^ 64 \<Longrightarrow> unat (word_of_nat n :: u64) = n"
  by (simp_all add: unat_of_nat)

lemma finish_block_ok:
  assumes E: "ext_ok E" and inv: "bw_inv E w bss cur" and raw: "length (bw_raw w) < 2 ^ 32"
  shows "\<exists>w'. finish_block E opts w = Ok w' \<and> bw_inv E w' (bss @ (if cur = [] then [] else [cur])) []"
proof (cases "cur = []")
  case True
  then show ?thesis using inv by (auto simp: finish_block_def bw_inv_def)
next
  case False
  have ne: "bw_raw w \<noteq> []" using False inv by (simp add: bw_inv_def)
  define comp where "comp = (wo_compress opts \<and> length (lz4_compress E (bw_raw w)) < length (bw_raw w))"
  define stored where "stored = (if comp then lz4_compress E (bw_raw w) else bw_raw w)"
  define m where "m = \<lparr>bm_first_key = bw_first_key w, bm_offset = bw_offset w,
     bm_stored_len = word_of_nat (length stored), bm_raw_len = word_of_nat (length (bw_raw w)),
     bm_compressed = comp, bm_crc = crc32 E stored\<rparr>"
  let ?w = "w\<lparr>bw_out := bw_out w @ stored, bw_blocks := bw_blocks w @ [m], bw_first_key := [],
     bw_offset := bw_offset w + word_of_nat (length stored), bw_raw := []\<rparr>"
  have len: "length stored \<le> length (bw_raw w)" by (simp add: stored_def comp_def)
  have "finish_block E opts w = Ok ?w"
    using ne raw len by (simp add: finish_block_def Let_def m_def stored_def comp_def)
  moreover have "meta_ok E (bw_out w @ stored) m cur"
  proof -
    have "slice_get (length (bw_out w)) (length (bw_out w) + length stored) (bw_out w @ stored) = Some stored"
      using slice_get_mid [of "bw_out w" stored "[]"] by simp
    moreover have "lz4_decompress E (lz4_compress E (bw_raw w)) (length (bw_raw w)) = Some (bw_raw w)"
      using E by (rule ext_ok_simps)
    ultimately show ?thesis
      using inv False raw len
      by (auto simp: meta_ok_def m_def bw_inv_def unat_of_nat_small stored_def intro!: exI [of _ "length (bw_out w)"])
  qed
  moreover have "list_all2 (meta_ok E (bw_out w @ stored)) (bw_blocks w) bss"
    using inv by (auto simp: bw_inv_def intro: list_all2_mono meta_ok_extend)
  moreover have "length (bw_out w @ stored) \<le> length (encode_entries (concat (bss @ [cur])))"
    using inv len by (simp add: bw_inv_def)
  ultimately show ?thesis
    using False by (auto simp: bw_inv_def list_all2_appendI inv [unfolded bw_inv_def])
qed

lemma push_entry_ok:
  assumes E: "ext_ok E" and inv: "bw_inv E w bss cur" and raw: "length (bw_raw w) < max (wo_block_size opts) 1"
    and fits: "max (wo_block_size opts) 1 + length (enc (k, v)) \<le> 2 ^ 32"
  shows "\<exists>w' bss' cur'. push_entry E opts k v w = Ok w' \<and> bw_inv E w' bss' cur' \<and>
    concat bss' @ cur' = concat bss @ cur @ [(k, v)] \<and> length (bw_raw w') < max (wo_block_size opts) 1"
proof -
  define w1 where "w1 = (if bw_raw w = [] then w\<lparr>bw_first_key := k\<rparr> else w)"
  define w2 where "w2 = w1\<lparr>bw_raw := encode_entry (bw_raw w1) k v\<rparr>"
  have inv': "bw_inv E w2 bss (cur @ [(k, v)])"
    using inv by (cases cur) (auto simp: bw_inv_def encode_entry_append w1_def w2_def)
  have len: "length (bw_raw w2) < 2 ^ 32"
    using raw fits by (simp add: encode_entry_append w1_def w2_def)
  have push: "push_entry E opts k v w
      = (if max (wo_block_size opts) 1 \<le> length (bw_raw w2) then finish_block E opts w2 else Ok w2)"
    by (simp only: push_entry_def Let_def w1_def w2_def)
  show ?thesis
  proof (cases "max (wo_block_size opts) 1 \<le> length (bw_raw w2)")
    case True
    obtain w' where w': "finish_block E opts w2 = Ok w'" "bw_inv E w' (bss @ [cur @ [(k, v)]]) []"
      using finish_block_ok [OF E inv' len, of opts] by auto
    moreover have "push_entry E opts k v w = finish_block E opts w2"
      using True push by simp
    moreover have "bw_raw w' = []" using w'(2) by (simp add: bw_inv_def)
    ultimately show ?thesis
      by (intro exI [of _ w'] exI [of _ "bss @ [cur @ [(k, v)]]"] exI [of _ "[]"]) simp
  next
    case False
    then have "push_entry E opts k v w = Ok w2"
      by (simp only: push if_False)
    moreover have "length (bw_raw w2) < max (wo_block_size opts) 1"
      using False by (simp only: not_le)
    ultimately show ?thesis
      using inv' by (intro exI [of _ w2] exI [of _ bss] exI [of _ "cur @ [(k, v)]"]) simp
  qed
qed

section \<open>The whole blob\<close>

definition fits_block :: "write_options \<Rightarrow> entry \<Rightarrow> bool" where
  "fits_block opts e \<longleftrightarrow> max (wo_block_size opts) 1 + length (enc e) \<le> 2 ^ 32"

lemma fits_block_entry_ok: "fits_block opts e \<Longrightarrow> entry_ok e"
  by (cases "snd e") (auto simp: fits_block_def entry_ok_def enc_def encode_entry_def)

definition bloom_sized :: "ext \<Rightarrow> bloom \<Rightarrow> bool" where
  "bloom_sized E b \<longleftrightarrow> (\<exists>n. bl_m b = bl_m (bloom_new (raw_m E) (raw_k E) n))"

definition ws_inv :: "ext \<Rightarrow> write_options \<Rightarrow> write_state \<Rightarrow> entry list \<Rightarrow> bool" where
  "ws_inv E opts st xs \<longleftrightarrow>
    ws_entry_count st = word_of_nat (length xs) \<and>
    ws_min_key st = (if xs = [] then None else Some (fst (hd xs))) \<and>
    ws_max_key st = (if xs = [] then [] else fst (last xs)) \<and>
    bloom_ok (ws_bloom st) \<and> (\<forall>k\<in>fst ` set xs. might_contain (ws_bloom st) k = Ok True) \<and>
    bloom_sized E (ws_bloom st) \<and>
    length (bw_raw (ws_writer st)) < max (wo_block_size opts) 1 \<and>
    (\<exists>bss cur. bw_inv E (ws_writer st) bss cur \<and> concat bss @ cur = xs)"

lemma write_entry_ok:
  assumes E: "ext_ok E" and inv: "ws_inv E opts st xs" and fits: "fits_block opts e"
  shows "\<exists>st'. write_entry E opts (Ok e) st = Ok st' \<and> ws_inv E opts st' (xs @ [e])"
proof -
  obtain k v where e: "e = (k, v)" by (metis surj_pair)
  obtain bss cur where bw: "bw_inv E (ws_writer st) bss cur" "concat bss @ cur = xs"
    using inv by (auto simp: ws_inv_def)
  obtain b where b: "bloom_insert k (ws_bloom st) = Ok b" "bloom_ok b" "bl_m b = bl_m (ws_bloom st)" "might_contain b k = Ok True"
      "\<And>x. might_contain (ws_bloom st) x = Ok True \<Longrightarrow> might_contain b x = Ok True"
    using bloom_insert_ok [of "ws_bloom st" k] inv by (auto simp: ws_inv_def)
  obtain w' bss' cur' where w': "push_entry E opts k v (ws_writer st) = Ok w'" "bw_inv E w' bss' cur'"
      "concat bss' @ cur' = xs @ [(k, v)]" "length (bw_raw w') < max (wo_block_size opts) 1"
    using push_entry_ok [OF E bw(1), of opts k v] inv fits bw(2) e by (auto simp: ws_inv_def fits_block_def)
  let ?st = "st\<lparr>ws_bloom := b, ws_min_key := (case ws_min_key st of None \<Rightarrow> Some k | Some x \<Rightarrow> Some x),
     ws_max_key := k, ws_entry_count := ws_entry_count st + 1, ws_writer := w'\<rparr>"
  have "write_entry E opts (Ok e) st = Ok ?st"
    using b(1) w'(1) e by (simp add: write_entry_def)
  moreover have "ws_inv E opts ?st (xs @ [e])"
    unfolding ws_inv_def using inv b w' e
    by (auto simp: ws_inv_def bloom_sized_def intro!: exI [of _ bss'] exI [of _ cur'])
  ultimately show ?thesis by blast
qed

lemma write_loop_ok:
  assumes "ext_ok E" "ws_inv E opts st xs" "\<forall>e\<in>set es. fits_block opts e"
  shows "\<exists>st'. for_res (write_entry E opts) (map Ok es) st = Ok st' \<and> ws_inv E opts st' (xs @ es)"
  using assms(2,3)
proof (induction es arbitrary: st xs)
  case (Cons e es)
  then obtain st1 where "write_entry E opts (Ok e) st = Ok st1" "ws_inv E opts st1 (xs @ [e])"
    using write_entry_ok [OF assms(1)] by (metis list.set_intros(1))
  then show ?case using Cons.IH [of st1 "xs @ [e]"] Cons.prems(2) by simp
qed simp

text \<open>Reading a located block back, wherever the blob lies in the file.\<close>

lemma block_bytes_meta:
  assumes blocks: "sh_blocks h = map block_of_meta ms" and i: "i < length ms" and meta: "meta_ok E out (ms ! i) bs"
    and base: "sh_base_offset h = word_of_nat (length pre)" and mmap: "sh_mmap h = pre @ out @ rest"
    and small: "length pre + length out < 2 ^ 64"
  shows "block_bytes E h i = Ok (encode_entries bs)"
proof -
  obtain off stored where m: "bm_offset (ms ! i) = word_of_nat off"
      "slice_get off (off + unat (bm_stored_len (ms ! i))) out = Some stored" "crc32 E stored = bm_crc (ms ! i)"
      "if bm_compressed (ms ! i) then lz4_decompress E stored (unat (bm_raw_len (ms ! i))) = Some (encode_entries bs)
       else stored = encode_entries bs"
    using meta by (auto simp: meta_ok_def)
  let ?n = "unat (bm_stored_len (ms ! i))"
  have "off + ?n \<le> length out" using m(2) by (auto simp: slice_get_def split: if_splits)
  then have start: "unat (word_of_nat (length pre) + word_of_nat off :: u64) = length pre + off"
    using small unat_of_nat_small(2) [of "length pre + off"] by simp
  have "slice_get (length pre + off) (length pre + off + ?n) (pre @ out @ rest) = Some stored"
    using m(2) by (auto simp: slice_get_def split: if_splits)
  moreover have "unat (ucast (bm_stored_len (ms ! i)) :: u64) = ?n"
    using unat_widths_less(2) [of "bm_stored_len (ms ! i)"] by (simp add: unsigned_ucast_eq take_bit_nat_eq_self)
  ultimately show ?thesis
    using blocks i base mmap start m by (simp add: block_bytes_def Let_def block_of_meta_def split: if_splits)
qed

lemma read_at_mid:
  assumes "base = word_of_nat (length pre)" "off = word_of_nat (length x)" "len = word_of_nat (length y)"
    and "length pre + length x + length y < 2 ^ 64"
  shows "read_at (pre @ x @ y @ z) base off len = Ok y"
proof -
  have "unat (word_of_nat (length pre) + word_of_nat (length x) :: u64) = length pre + length x"
    "unat (word_of_nat (length y) :: u64) = length y"
    using assms(4) unat_of_nat_small(2) [of "length pre + length x"] unat_of_nat_small(2) [of "length y"] by simp_all
  moreover have "slice_get (length pre + length x) (length pre + length x + length y) (pre @ x @ y @ z) = Some y"
    using slice_get_mid [of "pre @ x" y z] by simp
  ultimately show ?thesis using assms(1-3) by (simp add: read_at_def Let_def)
qed

text \<open>The layout of a written blob: data, filter, index and footer.\<close>

definition blob_layout :: "ext \<Rightarrow> sstable \<Rightarrow> bytes \<Rightarrow> block_meta list \<Rightarrow> bytes \<Rightarrow> bytes \<Rightarrow> bytes \<Rightarrow> bool" where
  "blob_layout E h out ms bb ib blob \<longleftrightarrow>
    (\<exists>index. serialize (bloom_codec E) (sh_bloom h) = Some bb \<and> deserialize (bloom_codec E) bb = Some (sh_bloom h) \<and>
       serialize (index_codec E) index = Some ib \<and> deserialize (index_codec E) ib = Some index \<and> ix_min_key index = sh_min_key h \<and> ix_max_key index = sh_max_key h \<and>
       sh_entry_count h = Some (ix_entry_count index) \<and> ix_blocks index = ms \<and> sh_blocks h = map block_of_meta ms) \<and>
    sh_blob_len h = word_of_nat (length blob) \<and>
    blob = out @ bb @ ib @ be64 (word_of_nat (length out)) @ be64 (word_of_nat (length out + length bb))
      @ be64 (word_of_nat (length ib)) @ be32 (crc32 E (bb @ ib)) @ be32 0 @ MAGIC_V2"

lemma length_MAGIC_V2 [simp]: "length MAGIC_V2 = 8"
  by (simp add: MAGIC_V2_def)

lemma sst_write_layout:
  assumes E: "ext_ok E" and fits: "\<forall>e\<in>set es. fits_block opts e" and sorted: "sorted_keys es"
  shows "\<exists>h out ms bb ib blob bss. sst_write E file gen (map Ok es) n opts = Ok (file @ blob, h) \<and>
    blob_layout E h out ms bb ib blob \<and> list_all2 (meta_ok E out) ms bss \<and> concat bss = es \<and>
    sh_mmap h = file @ blob \<and> sh_base_offset h = word_of_nat (length file) \<and> sh_generation h = gen \<and>
    (es \<noteq> [] \<longrightarrow> sh_min_key h = fst (hd es) \<and> sh_max_key h = fst (last es)) \<and>
    bloom_ok (sh_bloom h) \<and> (\<forall>k\<in>fst ` set es. might_contain (sh_bloom h) k = Ok True) \<and>
    sh_entry_count h = Some (word_of_nat (length es)) \<and> length out \<le> length (encode_entries es) \<and>
    bloom_sized E (sh_bloom h)"
proof -
  let ?st0 = "\<lparr>ws_bloom = bloom_new (raw_m E) (raw_k E) (max n 1), ws_min_key = None, ws_max_key = [], ws_entry_count = 0,
     ws_writer = \<lparr>bw_out = [], bw_raw = [], bw_first_key = [], bw_offset = 0, bw_blocks = []\<rparr>\<rparr>"
  have "ws_inv E opts ?st0 []"
    by (auto simp: ws_inv_def bw_inv_def bloom_new_ok bloom_sized_def intro!: exI [of _ "[]"])
  then obtain st where st: "for_res (write_entry E opts) (map Ok es) ?st0 = Ok st" "ws_inv E opts st es"
    using write_loop_ok [OF E _ fits, of ?st0 "[]"] by auto
  obtain bss cur where bw: "bw_inv E (ws_writer st) bss cur" "concat bss @ cur = es"
    using st(2) by (auto simp: ws_inv_def)
  have "length (bw_raw (ws_writer st)) < 2 ^ 32"
  proof (cases es)
    case Nil
    then show ?thesis using bw by (simp add: bw_inv_def)
  next
    case (Cons e es')
    then have "fits_block opts e" using fits by simp
    then show ?thesis using st(2) by (auto simp: ws_inv_def fits_block_def)
  qed
  then obtain w bss' where w: "finish_block E opts (ws_writer st) = Ok w" "bw_inv E w bss' []" "concat bss' = es"
    using finish_block_ok [OF E bw(1), of opts] bw(2) by (auto split: if_splits)
  obtain bb where bb: "serialize (bloom_codec E) (ws_bloom st) = Some bb" "deserialize (bloom_codec E) bb = Some (ws_bloom st)"
    using ext_ok_simps(2) [OF E] by (rule codec_okE)
  let ?ix = "\<lparr>ix_min_key = (case ws_min_key st of Some k \<Rightarrow> k | None \<Rightarrow> []), ix_max_key = ws_max_key st,
     ix_entry_count = ws_entry_count st, ix_blocks = bw_blocks w\<rparr>"
  obtain ib where ib: "serialize (index_codec E) ?ix = Some ib" "deserialize (index_codec E) ib = Some ?ix"
    using ext_ok_simps(3) [OF E] by (rule codec_okE)
  let ?blob = "bw_out w @ bb @ ib @ be64 (word_of_nat (length (bw_out w))) @ be64 (word_of_nat (length (bw_out w) + length bb))
      @ be64 (word_of_nat (length ib)) @ be32 (crc32 E (bb @ ib)) @ be32 0 @ MAGIC_V2"
  let ?h = "\<lparr>sh_mmap = file @ ?blob, sh_base_offset = word_of_nat (length file),
     sh_blob_len = word_of_nat (length ?blob), sh_bloom = ws_bloom st, sh_blocks = map block_of_meta (bw_blocks w),
     sh_entry_count = Some (ws_entry_count st), sh_min_key = ix_min_key ?ix, sh_max_key = ws_max_key st, sh_generation = gen\<rparr>"
  have off: "bw_offset w = word_of_nat (length (bw_out w))" using w(2) by (simp add: bw_inv_def)
  have "sst_write E file gen (map Ok es) n opts = Ok (file @ ?blob, ?h)"
    using st(1) w(1) bb(1) ib(1) by (simp add: sst_write_def Let_def off FOOTER_V2_LEN_def add.assoc)
  moreover have "blob_layout E ?h (bw_out w) (bw_blocks w) bb ib ?blob"
    using bb ib by (auto simp: blob_layout_def intro!: exI [of _ ?ix])
  moreover have "list_all2 (meta_ok E (bw_out w)) (bw_blocks w) bss'" "length (bw_out w) \<le> length (encode_entries es)"
    using w(2,3) by (simp_all add: bw_inv_def)
  ultimately show ?thesis
    using st(2) w(3) by (intro exI conjI) (assumption | simp add: ws_inv_def)+
qed

text \<open>A handle with this layout, over any file that holds the blob at its offset, represents the
  entries, and opening the blob yields it.\<close>

lemma layout_repr:
  assumes lay: "blob_layout E h out ms bb ib blob" and metas: "list_all2 (meta_ok E out) ms bss" and es: "concat bss = es"
    and ok: "sorted_keys es" "\<forall>e\<in>set es. entry_ok e"
    and keys: "es \<noteq> [] \<longrightarrow> sh_min_key h = fst (hd es) \<and> sh_max_key h = fst (last es)"
    and bloom: "bloom_ok (sh_bloom h)" "\<forall>k\<in>fst ` set es. might_contain (sh_bloom h) k = Ok True"
    and fl: "sh_mmap h = pre @ blob @ rest" "sh_base_offset h = word_of_nat (length pre)" "length pre + length blob < 2 ^ 64"
  shows "sst_repr E h es bss"
proof -
  have blocks: "sh_blocks h = map block_of_meta ms" using lay by (auto simp: blob_layout_def)
  obtain rest' where mmap: "sh_mmap h = pre @ out @ rest'" "length pre + length out < 2 ^ 64"
    using lay fl by (auto simp: blob_layout_def)
  have "map b_first_key (sh_blocks h) = map (\<lambda>bs. fst (hd bs)) bss"
    unfolding blocks using metas
    by (intro nth_equalityI) (auto simp: list_all2_conv_all_nth meta_ok_def block_of_meta_def)
  moreover have "[] \<notin> set bss"
    using metas by (auto simp: list_all2_conv_all_nth meta_ok_def in_set_conv_nth)
  moreover have "block_bytes E h i = Ok (encode_entries (bss ! i))" if "i < length bss" for i
    using block_bytes_meta [OF blocks _ _ fl(2) mmap] metas that by (simp add: list_all2_conv_all_nth)
  ultimately show ?thesis
    using es ok keys bloom by (auto simp: sst_repr_def)
qed

lemma layout_open:
  assumes lay: "blob_layout E h out ms bb ib blob" and metas: "list_all2 (meta_ok E out) ms bss"
    and base: "sh_base_offset h = word_of_nat (length pre)" and small: "length pre + length blob < 2 ^ 64"
  shows "sst_open E (pre @ blob @ rest) (sh_generation h) (sh_base_offset h) (sh_blob_len h)
    = Ok (h\<lparr>sh_mmap := pre @ blob @ rest\<rparr>)"
proof -
  let ?a = "length out" and ?b = "length bb" and ?i = "length ib"
  let ?f3 = "be64 (word_of_nat ?a) @ be64 (word_of_nat (?a + ?b)) @ be64 (word_of_nat ?i)"
  let ?ftr = "?f3 @ be32 (crc32 E (bb @ ib)) @ be32 0 @ MAGIC_V2"
  have blob: "blob = out @ bb @ ib @ ?ftr" "sh_blob_len h = word_of_nat (?a + ?b + ?i + 40)"
    using lay by (auto simp: blob_layout_def add.assoc)
  obtain index where ix: "deserialize (bloom_codec E) bb = Some (sh_bloom h)" "deserialize (index_codec E) ib = Some index"
      "ix_min_key index = sh_min_key h" "ix_max_key index = sh_max_key h" "sh_entry_count h = Some (ix_entry_count index)"
      "ix_blocks index = ms" "sh_blocks h = map block_of_meta ms"
    using lay by (auto simp: blob_layout_def)
  have n: "length pre + ?a + ?b + ?i + 40 < 2 ^ 64" using small blob(1) by simp
  have un: "unat (word_of_nat m :: u64) = m" if "m \<le> ?a + ?b + ?i + 40" for m
    using n that by (intro unat_of_nat_small) simp
  let ?file = "pre @ blob @ rest"
  have magic: "read_at ?file (sh_base_offset h) (sh_blob_len h - 8) 8 = Ok MAGIC_V2"
  proof -
    let ?x = "out @ bb @ ib @ ?f3 @ be32 (crc32 E (bb @ ib)) @ be32 0"
    have "?file = pre @ ?x @ MAGIC_V2 @ rest" by (simp add: blob(1))
    moreover have "sh_blob_len h - 8 = word_of_nat (length ?x)" by (simp add: blob(2))
    ultimately show ?thesis using n by (simp only:) (rule read_at_mid [OF base], simp_all)
  qed
  have footer: "read_at ?file (sh_base_offset h) (sh_blob_len h - FOOTER_V2_LEN) FOOTER_V2_LEN = Ok ?ftr"
  proof -
    have "?file = pre @ (out @ bb @ ib) @ ?ftr @ rest" by (simp add: blob(1))
    moreover have "sh_blob_len h - FOOTER_V2_LEN = word_of_nat (length (out @ bb @ ib))"
      by (simp add: blob(2) FOOTER_V2_LEN_def)
    ultimately show ?thesis using n by (simp only:) (rule read_at_mid [OF base], simp_all add: FOOTER_V2_LEN_def)
  qed
  have meta: "read_at ?file (sh_base_offset h) (word_of_nat ?a) (word_of_nat (?b + ?i)) = Ok (bb @ ib)"
  proof -
    have "?file = pre @ out @ (bb @ ib) @ (?ftr @ rest)" by (simp add: blob(1))
    then show ?thesis using n by (simp only:) (rule read_at_mid [OF base], simp_all)
  qed
  have fields: "of_be64 (take 8 ?ftr) = word_of_nat ?a" "of_be64 (take 8 (drop 8 ?ftr)) = word_of_nat (?a + ?b)"
    "of_be64 (take 8 (drop 16 ?ftr)) = word_of_nat ?i" "of_be32 (take 4 (drop 24 ?ftr)) = crc32 E (bb @ ib)"
    by (simp_all add: drop_append)
  have sizes: "\<not> sh_blob_len h < FOOTER_V1_LEN" "FOOTER_V2_LEN \<le> sh_blob_len h"
    "\<not> (word_of_nat ?a :: u64) > word_of_nat (?a + ?b)"
    "\<not> 2 ^ 64 \<le> unat (word_of_nat (?a + ?b) :: u64) + unat (word_of_nat ?i :: u64)"
    "\<not> word_of_nat (?a + ?b) + word_of_nat ?i + FOOTER_V2_LEN > sh_blob_len h"
    "(word_of_nat (?a + ?b) + word_of_nat ?i - word_of_nat ?a :: u64) = word_of_nat (?b + ?i)"
    "unat (word_of_nat (?a + ?b) - word_of_nat ?a :: u64) = ?b"
  proof -
    have len: "unat (sh_blob_len h) = ?a + ?b + ?i + 40"
      unfolding blob(2) by (rule un) simp
    have foot: "unat FOOTER_V1_LEN = 24" "unat FOOTER_V2_LEN = 40"
      by (simp_all add: FOOTER_V1_LEN_def FOOTER_V2_LEN_def)
    show "\<not> sh_blob_len h < FOOTER_V1_LEN" "FOOTER_V2_LEN \<le> sh_blob_len h"
      unfolding word_less_nat_alt word_le_nat_alt len foot by simp_all
    show "\<not> (word_of_nat ?a :: u64) > word_of_nat (?a + ?b)"
      unfolding word_less_nat_alt using un [of ?a] un [of "?a + ?b"] by simp
    show "\<not> 2 ^ 64 \<le> unat (word_of_nat (?a + ?b) :: u64) + unat (word_of_nat ?i :: u64)"
      using un [of "?a + ?b"] un [of ?i] n by simp
    have "word_of_nat (?a + ?b) + word_of_nat ?i + FOOTER_V2_LEN = sh_blob_len h"
      by (simp add: blob(2) FOOTER_V2_LEN_def)
    then show "\<not> word_of_nat (?a + ?b) + word_of_nat ?i + FOOTER_V2_LEN > sh_blob_len h" by simp
    show "(word_of_nat (?a + ?b) + word_of_nat ?i - word_of_nat ?a :: u64) = word_of_nat (?b + ?i)"
      by simp
    show "unat (word_of_nat (?a + ?b) - word_of_nat ?a :: u64) = ?b"
      using un [of ?b] by simp
  qed
  have last: "\<not> (sh_blocks h \<noteq> [] \<and> b_offset (last (sh_blocks h)) + b_stored_len (last (sh_blocks h)) > word_of_nat ?a)"
  proof (cases "ms = []")
    case False
    then have "meta_ok E out (last ms) (last bss)"
      using metas by (cases bss) (auto simp: list_all2_conv_all_nth last_conv_nth)
    then obtain off stored where off: "bm_offset (last ms) = word_of_nat off"
        "slice_get off (off + unat (bm_stored_len (last ms))) out = Some stored"
      by (auto simp: meta_ok_def)
    have "off + unat (bm_stored_len (last ms)) \<le> ?a"
      using off(2) by (auto simp: slice_get_def split: if_splits)
    moreover have "b_offset (last (sh_blocks h)) + b_stored_len (last (sh_blocks h))
        = word_of_nat (off + unat (bm_stored_len (last ms)))"
      using False off(1) ix(7) by (simp add: last_map block_of_meta_def)
    ultimately show ?thesis
      using un [of "off + unat (bm_stored_len (last ms))"] un [of ?a] by (simp add: word_less_nat_alt)
  qed (simp add: ix)
  define A AB I BI where w: "A = (word_of_nat ?a :: u64)" "AB = (word_of_nat (?a + ?b) :: u64)"
    "I = (word_of_nat ?i :: u64)" "BI = (word_of_nat (?b + ?i) :: u64)"
  define F where "F = ?ftr"
  note facts = magic footer [folded F_def] meta [folded w] fields [folded w F_def] sizes [folded w] last [folded w]
  have h: "\<lparr>sh_mmap = ?file, sh_base_offset = sh_base_offset h, sh_blob_len = sh_blob_len h, sh_bloom = sh_bloom h,
     sh_blocks = map block_of_meta ms, sh_entry_count = Some (ix_entry_count index), sh_min_key = sh_min_key h,
     sh_max_key = sh_max_key h, sh_generation = sh_generation h\<rparr> = h\<lparr>sh_mmap := ?file\<rparr>"
    using ix(5,7) by (cases h) simp
  show ?thesis
    using ix h facts by (simp add: sst_open_def Let_def)
qed

text \<open>
  The summary the engine uses. \<open>blob_of E h es blob\<close>: the bytes \<open>blob\<close> encode \<open>es\<close> and
  the handle describes them; \<open>stored E f h es\<close>: the file holds such a blob at the handle's offset,
  past the header.
\<close>

definition blob_of :: "ext \<Rightarrow> sstable \<Rightarrow> entry list \<Rightarrow> bytes \<Rightarrow> bool" where
  "blob_of E h es blob \<longleftrightarrow>
    (\<exists>out ms bb ib bss. blob_layout E h out ms bb ib blob \<and> list_all2 (meta_ok E out) ms bss \<and> concat bss = es \<and>
      length out \<le> length (encode_entries es)) \<and>
    bloom_sized E (sh_bloom h) \<and>
    sorted_keys es \<and> (\<forall>e\<in>set es. entry_ok e) \<and>
    (es \<noteq> [] \<longrightarrow> sh_min_key h = fst (hd es) \<and> sh_max_key h = fst (last es)) \<and>
    bloom_ok (sh_bloom h) \<and> (\<forall>k\<in>fst ` set es. might_contain (sh_bloom h) k = Ok True)"

definition stored :: "ext \<Rightarrow> bytes \<Rightarrow> sstable \<Rightarrow> entry list \<Rightarrow> bool" where
  "stored E f h es \<longleftrightarrow>
    (\<exists>pre blob rest. f = pre @ blob @ rest \<and> sh_base_offset h = word_of_nat (length pre) \<and>
      length pre + length blob < 2 ^ 64 \<and> 128 \<le> length pre \<and> blob_of E h es blob)"

lemma blob_of_mmap [simp]: "blob_of E (h\<lparr>sh_mmap := f\<rparr>) es blob = blob_of E h es blob"
  by (simp add: blob_of_def blob_layout_def)

lemma stored_mmap [simp]: "stored E f (h\<lparr>sh_mmap := g\<rparr>) es = stored E f h es"
  by (simp add: stored_def)

lemma blob_of_repr:
  assumes blob: "blob_of E h es blob" and f: "sh_mmap h = pre @ blob @ rest" "sh_base_offset h = word_of_nat (length pre)"
    "length pre + length blob < 2 ^ 64"
  shows "\<exists>bss. sst_repr E h es bss"
proof -
  obtain out ms bb ib bss where l: "blob_layout E h out ms bb ib blob" "list_all2 (meta_ok E out) ms bss" "concat bss = es"
    using blob by (auto simp: blob_of_def)
  show ?thesis
    using layout_repr [OF l _ _ _ _ _ f] blob unfolding blob_of_def by blast
qed

lemma stored_repr: "stored E f h es \<Longrightarrow> sh_mmap h = f \<Longrightarrow> \<exists>bss. sst_repr E h es bss"
  unfolding stored_def by (elim exE conjE) (rule blob_of_repr, auto)

lemma stored_open:
  assumes "stored E f h es"
  shows "sst_open E f (sh_generation h) (sh_base_offset h) (sh_blob_len h) = Ok (h\<lparr>sh_mmap := f\<rparr>)"
proof -
  obtain pre blob rest where f: "f = pre @ blob @ rest" "sh_base_offset h = word_of_nat (length pre)"
      "length pre + length blob < 2 ^ 64" "blob_of E h es blob"
    using assms by (auto simp: stored_def)
  then obtain out ms bb ib bss where "blob_layout E h out ms bb ib blob" "list_all2 (meta_ok E out) ms bss"
    by (auto simp: blob_of_def)
  then show ?thesis using layout_open f by metis
qed

text \<open>The blob survives whatever keeps the bytes between the header and the blob's end.\<close>

lemma stored_append: "stored E f h es \<Longrightarrow> stored E (f @ g) h es"
  unfolding stored_def by fastforce

lemma stored_header:
  assumes "stored E f h es" "length hdr \<le> 128"
  shows "stored E (hdr @ drop (length hdr) f) h es"
proof -
  obtain pre blob rest where f: "f = pre @ blob @ rest" "sh_base_offset h = word_of_nat (length pre)"
      "length pre + length blob < 2 ^ 64" "128 \<le> length pre" "blob_of E h es blob"
    using assms by (auto simp: stored_def)
  let ?pre = "hdr @ drop (length hdr) pre"
  have "hdr @ drop (length hdr) f = ?pre @ blob @ rest" "length ?pre = length pre"
    using f(1,4) assms(2) by simp_all
  then show ?thesis unfolding stored_def using f by metis
qed

lemma sst_write_ok:
  assumes "ext_ok E" "\<forall>e\<in>set es. fits_block opts e" "sorted_keys es"
  shows "\<exists>h blob. sst_write E f gen (map Ok es) n opts = Ok (f @ blob, h) \<and> sh_mmap h = f @ blob \<and>
    sh_generation h = gen \<and> sh_base_offset h = word_of_nat (length f) \<and> sh_blob_len h = word_of_nat (length blob) \<and>
    sh_entry_count h = Some (word_of_nat (length es)) \<and> blob \<noteq> [] \<and> blob_of E h es blob"
proof -
  obtain h out ms bb ib blob bss where w: "sst_write E f gen (map Ok es) n opts = Ok (f @ blob, h)"
      "blob_layout E h out ms bb ib blob" "list_all2 (meta_ok E out) ms bss" "concat bss = es"
      "sh_mmap h = f @ blob" "sh_base_offset h = word_of_nat (length f)" "sh_generation h = gen"
      "es \<noteq> [] \<longrightarrow> sh_min_key h = fst (hd es) \<and> sh_max_key h = fst (last es)"
      "bloom_ok (sh_bloom h)" "\<forall>k\<in>fst ` set es. might_contain (sh_bloom h) k = Ok True"
      "sh_entry_count h = Some (word_of_nat (length es))" "length out \<le> length (encode_entries es)"
      "bloom_sized E (sh_bloom h)"
    using sst_write_layout [OF assms, of f gen n] by (elim exE conjE) (rule that)
  have "\<forall>e\<in>set es. entry_ok e" using assms(2) fits_block_entry_ok by blast
  then have "blob_of E h es blob"
    unfolding blob_of_def using w(2-4,8-10,12,13) assms(3) by blast
  moreover have "sh_blob_len h = word_of_nat (length blob)" using w(2) by (simp add: blob_layout_def)
  moreover have "8 \<le> length blob" using w(2) by (auto simp: blob_layout_def)
  then have "blob \<noteq> []" by auto
  ultimately show ?thesis
    using w(1,5-7,11) by (intro exI [of _ h] exI [of _ blob]) simp
qed

section \<open>Size of a blob, for the concrete environment\<close>

lemma length_sc_bytes: "length (fst (sc_list sc_byte) bs) = 2 * length bs + 1"
  by (simp add: sc_list_def sc_byte_def)

lemma length_sc_meta: "length (fst sc_meta m) = 2 * length (bm_first_key m) + 22"
proof -
  have "length (fst sc_bool b) = 1" for b by (simp add: sc_bool_def sc_map_def sc_byte_def)
  then show ?thesis by (simp add: sc_meta_def sc_map_def sc_pair_def sc_u64_def sc_u32_def length_sc_bytes)
qed

lemma length_sc_metas: "(\<forall>m\<in>set ms. length (bm_first_key m) \<le> K) \<Longrightarrow> length (concat (map (fst sc_meta) ms)) \<le> length ms * (2 * K + 22)"
  by (induction ms) (auto simp: length_sc_meta)

lemma length_concat_nonempty: "[] \<notin> set bss \<Longrightarrow> length bss \<le> length (concat bss)"
proof (induction bss)
  case (Cons bs bss)
  then show ?case by (cases bs) auto
qed simp

lemma demo_blob_size:
  assumes blob: "blob_of demo_ext h es blob" and K: "\<forall>e\<in>set es. length (fst e) \<le> K" and ne: "es \<noteq> []"
  shows "length blob \<le> length (encode_entries es) + 80 + 4 * K + length es * (2 * K + 23)"
proof -
  obtain out ms bb ib bss n where b: "blob_layout demo_ext h out ms bb ib blob" "list_all2 (meta_ok demo_ext out) ms bss"
      "concat bss = es" "length out \<le> length (encode_entries es)"
      "bl_m (sh_bloom h) = bl_m (bloom_new (raw_m demo_ext) (raw_k demo_ext) n)" "bloom_ok (sh_bloom h)"
      "sh_min_key h = fst (hd es)" "sh_max_key h = fst (last es)"
    using blob ne by (auto simp: blob_of_def bloom_sized_def)
  obtain index where ix: "bb = fst sc_bloom (sh_bloom h)" "ib = fst sc_index index" "ix_min_key index = sh_min_key h"
      "ix_max_key index = sh_max_key h" "ix_blocks index = ms"
    using b(1) by (auto simp: blob_layout_def demo_ext_def codec_of_def)
  have "unat (bl_m (sh_bloom h)) = 64" using b(5) by (simp add: bloom_new_def demo_ext_def Let_def)
  then have "length (bl_bits (sh_bloom h)) = 8" using b(6) by (simp add: bloom_ok_def)
  then have bb: "length bb = 25"
    by (simp add: ix(1) sc_bloom_def sc_map_def sc_pair_def sc_u32_def length_sc_bytes)
  have "[] \<notin> set bss" "\<forall>m\<in>set ms. \<exists>bs\<in>set bss. bm_first_key m = fst (hd bs)"
    using b(2) nth_mem by (fastforce simp: list_all2_conv_all_nth meta_ok_def in_set_conv_nth)+
  note bs = this
  have keys: "\<forall>m\<in>set ms. length (bm_first_key m) \<le> K"
  proof
    fix m assume "m \<in> set ms"
    then obtain x where x: "x \<in> set bss" "bm_first_key m = fst (hd x)" using bs(2) by blast
    then have "hd x \<in> set x" using bs(1) by (metis list.set_sel(1))
    then have "hd x \<in> set es" using x(1) b(3) by auto
    then show "length (bm_first_key m) \<le> K" using K x(2) by simp
  qed
  have len: "length ms \<le> length es"
    using b(3) length_concat_nonempty [OF bs(1)] list_all2_lengthD [OF b(2)] by simp
  have "length (sh_min_key h) \<le> K" "length (sh_max_key h) \<le> K" using K b(7,8) ne by simp_all
  then have "length ib \<le> 4 * K + 11 + length ms + length ms * (2 * K + 22)"
    using length_sc_metas [OF keys]
    by (simp add: ix sc_index_def sc_map_def sc_pair_def sc_u64_def length_sc_bytes) (simp add: sc_list_def ix)
  moreover have "length ms + length ms * (2 * K + 22) \<le> length es * (2 * K + 23)"
    using mult_le_mono1 [OF len, of "2 * K + 23"] by (simp add: algebra_simps)
  moreover have "length blob = length out + length bb + length ib + 40"
    using b(1) by (simp add: blob_layout_def)
  ultimately show ?thesis using b(4) bb by linarith
qed

section \<open>Properties\<close>

text \<open>C35: What is written is read back. Writing any strictly ascending entries whose blocks fit 4 GiB
  succeeds and appends a blob to the file; as long as the file stays addressable by 64-bit offsets,
  opening that blob, also after more has been appended, succeeds, and both handles answer every
  point lookup with the entry written (tombstones included, filter and block index notwithstanding)
  and every range scan with exactly the entries in range, in order.\<close>

theorem sst_write_then_read:
  assumes "ext_ok E" "\<forall>e\<in>set es. fits_block opts e" "sorted_keys es" "128 \<le> length f"
    and small: "\<And>blob h. blob_of E h es blob \<Longrightarrow> length f + length blob < 2 ^ 64"
  shows "\<exists>blob h. sst_write E f gen (map Ok es) n opts = Ok (f @ blob, h) \<and>
    (\<forall>k. sst_get E h k = Ok (map_of es k)) \<and> (\<forall>lo hi. cursor E h lo hi = map Ok (restrict lo hi es)) \<and>
    (\<exists>h'. sst_open E (f @ blob @ rest) gen (word_of_nat (length f)) (word_of_nat (length blob)) = Ok h' \<and>
      (\<forall>k. sst_get E h' k = Ok (map_of es k)) \<and> (\<forall>lo hi. cursor E h' lo hi = map Ok (restrict lo hi es)))"
proof -
  obtain h blob where w: "sst_write E f gen (map Ok es) n opts = Ok (f @ blob, h)" "sh_mmap h = f @ blob"
      "sh_generation h = gen" "sh_base_offset h = word_of_nat (length f)" "sh_blob_len h = word_of_nat (length blob)"
      "blob_of E h es blob"
    using sst_write_ok [OF assms(1-3), of f gen n] by blast
  have st: "stored E (f @ blob) h es"
    unfolding stored_def using w small [OF w(6)] assms(4) by (intro exI [of _ f] exI [of _ blob] exI [of _ "[]"]) simp
  note st' = stored_append [OF st, of rest, simplified]
  let ?h' = "h\<lparr>sh_mmap := f @ blob @ rest\<rparr>"
  have "sst_open E (f @ blob @ rest) gen (word_of_nat (length f)) (word_of_nat (length blob)) = Ok ?h'"
    using stored_open [OF st'] w by simp
  moreover obtain bss where "sst_repr E h es bss" using stored_repr [OF st] w(2) by blast
  moreover obtain bss' where "sst_repr E ?h' es bss'" using stored_repr [of E "f @ blob @ rest" ?h' es] st' by auto
  ultimately show ?thesis
    using w(1) sst_get_ok cursor_ok by blast
qed

theorem sst_write_then_read_witness:
  "\<exists>blob h. sst_write demo_ext (replicate 128 0) 1 (map Ok [([1], Value [2]), ([3], Tombstone)]) 2
      \<lparr>wo_block_size = 4096, wo_compress = True\<rparr> = Ok (replicate 128 0 @ blob, h)
    \<and> sst_get demo_ext h [1] = Ok (Some (Value [2])) \<and> cursor demo_ext h (Excluded [1]) Unbounded = [Ok ([3], Tombstone)]"
proof -
  let ?es = "[([1], Value [2]), ([3], Tombstone)]" and ?opts = "\<lparr>wo_block_size = 4096, wo_compress = True\<rparr>"
  have fits: "\<forall>e\<in>set ?es. fits_block ?opts e"
    by (simp add: fits_block_def enc_def encode_entry_def)
  have size: "length (replicate 128 (0 :: byte)) + length blob < 2 ^ 64" if "blob_of demo_ext h ?es blob" for h blob
    using demo_blob_size [OF that, of 1] by (simp add: enc_def encode_entry_def)
  show ?thesis
    using sst_write_then_read [OF demo_ext_ok fits _ _ size, where gen = 1 and n = 2 and rest = "[]"]
    by (fastforce simp: restrict_def in_range_def)
qed

lemma verify_blocks_ok:
  assumes repr: "sst_repr E h es bss" and crc: "\<forall>b\<in>set (sh_blocks h). b_crc b \<noteq> None" and "k \<le> length bss"
  shows "for_res (verify_block E h) [0..<k] \<lparr>vc_blocks_verified = 0, vc_blocks_unchecked = 0, vc_entries = 0\<rparr>
    = Ok \<lparr>vc_blocks_verified = word_of_nat k, vc_blocks_unchecked = 0, vc_entries = word_of_nat (length (concat (take k bss)))\<rparr>"
  using assms(3)
proof (induction k)
  case (Suc k)
  then have k: "k < length bss" by simp
  have "\<forall>e\<in>set (bss ! k). entry_ok e"
    using repr sst_repr_split [OF repr k] by (auto simp: sst_repr_def)
  then have "count_loop (encode_entries (bss ! k)) 0 n = Ok (n + word_of_nat (length (bss ! k)))" for n
    using count_loop_ok [of "bss ! k" "[]" n] by simp
  moreover have "block_bytes E h k = Ok (encode_entries (bss ! k))" "b_crc (sh_blocks h ! k) \<noteq> None"
    using repr crc k sst_repr_length [OF repr] by (auto simp: sst_repr_def)
  ultimately show ?case
    using Suc k by (simp add: for_res_append verify_block_def Let_def take_Suc_conv_app_nth add.commute)
qed simp

text \<open>Verification accepts what was written. A handle whose blob holds \<open>es\<close> passes
  \<open>verify\<close>: every block's checksum matches, and the counts are the number of its blocks and entries.\<close>

theorem sst_verify_accepts:
  assumes "stored E (sh_mmap h) h es" "sh_entry_count h = Some (word_of_nat (length es))"
  shows "\<exists>c. sst_verify E h = Ok c \<and> vc_entries c = word_of_nat (length es) \<and>
    vc_blocks_verified c = word_of_nat (length (sh_blocks h)) \<and> vc_blocks_unchecked c = 0"
proof -
  obtain bss where repr: "sst_repr E h es bss" using stored_repr [OF assms(1)] by blast
  have "\<forall>b\<in>set (sh_blocks h). b_crc b \<noteq> None"
    using assms(1) by (auto simp: stored_def blob_of_def blob_layout_def block_of_meta_def)
  then show ?thesis
    using verify_blocks_ok [OF repr _ le_refl] sst_repr_length [OF repr] repr assms(2)
    by (simp add: sst_verify_def sst_repr_def)
qed

theorem sst_verify_accepts_witness:
  "\<exists>h c. sst_verify demo_ext h = Ok c \<and> vc_entries c = 2"
proof -
  let ?es = "[([1], Value [2]), ([3], Tombstone)]" and ?opts = "\<lparr>wo_block_size = 4096, wo_compress = True\<rparr>"
  have fits: "\<forall>e\<in>set ?es. fits_block ?opts e"
    by (simp add: fits_block_def enc_def encode_entry_def)
  obtain h blob where w: "sh_mmap h = replicate 128 0 @ blob" "sh_base_offset h = word_of_nat 128"
      "sh_entry_count h = Some (word_of_nat 2)" "blob_of demo_ext h ?es blob"
    using sst_write_ok [OF demo_ext_ok fits, of "replicate 128 0" 1 2] by auto
  have "stored demo_ext (sh_mmap h) h ?es"
    unfolding stored_def using w demo_blob_size [OF w(4), of 1]
    by (intro exI [of _ "replicate 128 0"] exI [of _ blob] exI [of _ "[]"]) (simp add: enc_def encode_entry_def)
  from sst_verify_accepts [OF this] w(3) show ?thesis by auto
qed

end
