(* ===== verification/Lsm_Wal.thy ===== *)
theory Lsm_Wal
  imports Lsm_Env Lsm_Demo
begin

text \<open>
  The write-ahead log (\<open>bkndb-storage-lsm/src/wal.rs\<close>): one frame per commit, appended at the end
  of the container file, and the replay that reads frames until the first torn or damaged one.
  The main facts: replay of complete frames followed by a torn one returns exactly the complete
  frames and the offset where they end, whatever prefix of the last frame reached the disk.
\<close>

section \<open>Frames\<close>

definition wal_frame :: "ext \<Rightarrow> wal_record \<Rightarrow> bytes res" where
  "wal_frame E record =
    bind_res (ok_or (serialize (wal_codec E) record) (Encoding ''bincode'')) (\<lambda>payload.
      let crc = crc32 E payload
      in if 2 ^ 32 \<le> length payload then Err (Backend ''transaction too large for one WAL frame'')
         else Ok (be32 (word_of_nat (length payload)) @ be32 crc @ payload))"

definition wal_append :: "ext \<Rightarrow> bytes \<Rightarrow> wal_record \<Rightarrow> bytes res" where
  "wal_append E f record = bind_res (wal_frame E record) (\<lambda>buf. Ok (f @ buf))"

text \<open>One round of the loop: \<open>reader\<close> is what the reader has left, \<open>valid_end\<close> the offset
  already accepted. \<open>None\<close> is a \<open>break\<close>.\<close>

definition replay_step :: "ext \<Rightarrow> nat \<Rightarrow> bytes \<Rightarrow> u64 \<Rightarrow> (wal_record \<times> bytes \<times> u64) option" where
  "replay_step E file_len reader valid_end =
    (if length reader < 8 then None
     else
       let header = take 8 reader;
           len = unat (of_be32 (take 4 header));
           expected_crc = of_be32 (drop 4 header);
           rest = drop 8 reader
       in if 2 ^ 64 \<le> unat valid_end + (8 + len) \<or> file_len < unat valid_end + (8 + len) then None
          else if length rest < len then None
          else
            let payload = take len rest
            in if crc32 E payload \<noteq> expected_crc then None
               else (case deserialize (wal_codec E) payload of
                   None \<Rightarrow> None
                 | Some record \<Rightarrow> Some (record, drop len rest, valid_end + word_of_nat (8 + len))))"

lemma replay_step_shrinks: "replay_step E n r v = Some (rec, r', v') \<Longrightarrow> length r' < length r"
  by (auto simp: replay_step_def Let_def split: if_splits option.splits)

function replay_loop :: "ext \<Rightarrow> nat \<Rightarrow> bytes \<Rightarrow> u64 \<Rightarrow> wal_record list \<times> u64" where
  "replay_loop E file_len reader valid_end =
    (case replay_step E file_len reader valid_end of
       None \<Rightarrow> ([], valid_end)
     | Some (record, reader', valid_end') \<Rightarrow>
         (case replay_loop E file_len reader' valid_end' of (records, e) \<Rightarrow> (record # records, e)))"
  by pat_completeness auto
termination
  by (relation "measure (\<lambda>(E, n, r, v). length r)") (auto dest: replay_step_shrinks)

declare replay_loop.simps [simp del]

text \<open>Seeking past the end of the file is allowed and leaves nothing to read.\<close>

definition replay_from :: "ext \<Rightarrow> bytes \<Rightarrow> u64 \<Rightarrow> (wal_record list \<times> u64) res" where
  "replay_from E f start_offset = Ok (replay_loop E (length f) (drop (unat start_offset) f) start_offset)"

section \<open>Replaying frames\<close>

text \<open>\<open>no_frame E n tail v\<close>: the bytes \<open>tail\<close> at offset \<open>v\<close> do not start with a valid frame.\<close>

definition no_frame :: "ext \<Rightarrow> bytes \<Rightarrow> bool" where
  "no_frame E tail \<longleftrightarrow> \<not> (8 \<le> length tail \<and>
     (let len = unat (of_be32 (take 4 tail)); payload = take len (drop 8 tail)
      in len \<le> length (drop 8 tail) \<and> crc32 E payload = of_be32 (take 4 (drop 4 tail))
         \<and> deserialize (wal_codec E) payload \<noteq> None))"

lemma no_frame_step: "no_frame E tail \<Longrightarrow> replay_step E n tail v = None"
  by (auto simp: no_frame_def replay_step_def Let_def take_drop split: option.splits)

lemma replay_no_frame: "no_frame E tail \<Longrightarrow> replay_loop E n tail v = ([], v)"
  by (simp add: replay_loop.simps no_frame_step)

text \<open>A proper prefix of a frame is no frame: its header is incomplete, or its payload shorter
  than the header says.\<close>

lemma torn_frame_no_frame:
  assumes "wal_frame E r = Ok fr" "prefix tail fr" "tail \<noteq> fr"
  shows "no_frame E tail"
proof -
  obtain payload where p: "length payload < 2 ^ 32" "fr = be32 (word_of_nat (length payload)) @ be32 (crc32 E payload) @ payload"
    using assms(1) by (auto simp: wal_frame_def Let_def bind_res_Ok_iff split: if_splits)
  obtain more_bytes where m: "fr = tail @ more_bytes" "more_bytes \<noteq> []" using assms(2,3) by (auto simp: prefix_def)
  show ?thesis
  proof (cases "length tail < 8")
    case False
    then have "take 4 tail = be32 (word_of_nat (length payload))"
      using arg_cong [OF p(2), of "take 4"] m(1) by simp
    then have "unat (of_be32 (take 4 tail)) = length payload"
      using p(1) by (simp add: unat_of_nat)
    moreover have "length tail < 8 + length payload"
      using arg_cong [OF p(2), of length] m by (cases more_bytes) auto
    ultimately show ?thesis using False by (auto simp: no_frame_def Let_def)
  qed (simp add: no_frame_def)
qed

lemma no_frame_Nil [simp]: "no_frame E []"
  by (simp add: no_frame_def)

text \<open>Complete frames followed by bytes that are no frame.\<close>

lemma replay_step_frame:
  assumes E: "ext_ok E" and fr: "wal_frame E r = Ok fr" and small: "unat v + length fr \<le> n" "n < 2 ^ 64"
  shows "replay_step E n (fr @ tail) v = Some (r, tail, v + word_of_nat (length fr))"
proof -
  obtain payload where p: "serialize (wal_codec E) r = Some payload" "length payload < 2 ^ 32"
      "fr = be32 (word_of_nat (length payload)) @ be32 (crc32 E payload) @ payload"
    using fr by (auto simp: wal_frame_def Let_def bind_res_Ok_iff ok_or_def split: if_splits option.splits)
  have "deserialize (wal_codec E) payload = Some r"
    using codec_okE [OF ext_ok_simps(4) [OF E], of r] p(1) by (metis option.inject)
  moreover have "length payload mod 4294967296 = length payload" using p(2) by simp
  ultimately show ?thesis
    using small p by (simp add: replay_step_def Let_def unat_of_nat add.assoc)
qed

definition frames :: "ext \<Rightarrow> wal_record list \<Rightarrow> bytes \<Rightarrow> bool" where
  "frames E rs bs \<longleftrightarrow> bind_res (traverse (wal_frame E) rs) (\<lambda>fs. Ok (concat fs)) = Ok bs"

lemma frames_simps [simp]:
  "frames E [] bs \<longleftrightarrow> bs = []"
  "frames E (r # rs) bs \<longleftrightarrow> (\<exists>fr bs'. wal_frame E r = Ok fr \<and> frames E rs bs' \<and> bs = fr @ bs')"
  by (auto simp: frames_def bind_res_Ok_iff)

lemma frames_appendI: "frames E rs a \<Longrightarrow> frames E ss b \<Longrightarrow> frames E (rs @ ss) (a @ b)"
proof (induction rs arbitrary: a)
  case (Cons r rs)
  then obtain fr a' where "wal_frame E r = Ok fr" "frames E rs a'" "a = fr @ a'" by auto
  then show ?case using Cons by auto
qed simp

lemma replay_frames:
  assumes "ext_ok E" "frames E rs bs" "no_frame E tail" "unat v + length bs \<le> n" "n < 2 ^ 64"
  shows "replay_loop E n (bs @ tail) v = (rs, v + word_of_nat (length bs))"
  using assms(2,4)
proof (induction rs arbitrary: bs v)
  case Nil
  then show ?case using replay_no_frame [OF assms(3)] by simp
next
  case (Cons r rs)
  then obtain fr bs' where fr: "wal_frame E r = Ok fr" "frames E rs bs'" "bs = fr @ bs'" by auto
  have "unat (v + word_of_nat (length fr)) = unat v + length fr"
    using Cons.prems(2) assms(5) fr(3) by (simp add: unat_word_ariths unat_of_nat)
  then show ?case
    using replay_step_frame [OF assms(1) fr(1), of v n "bs' @ tail"] Cons.IH [OF fr(2), of "v + word_of_nat (length fr)"]
      Cons.prems(2) assms(5) fr(3)
    by (simp add: replay_loop.simps [of E n "fr @ bs' @ tail"] add.assoc)
qed

lemma replay_from_frames:
  assumes "ext_ok E" "frames E rs bs" "no_frame E tail" "length (pre @ bs @ tail) < 2 ^ 64"
  shows "replay_from E (pre @ bs @ tail) (word_of_nat (length pre)) = Ok (rs, word_of_nat (length (pre @ bs)))"
proof -
  have "unat (word_of_nat (length pre) :: u64) = length pre"
    using assms(4) by (simp add: unat_of_nat)
  then show ?thesis
    using replay_frames [OF assms(1-3), of "word_of_nat (length pre)" "length (pre @ bs @ tail)"] assms(4)
    by (simp add: replay_from_def)
qed

section \<open>Properties\<close>

text \<open>A commit survives a crash entirely or not at all. Take a log of complete frames and a crash
  that leaves only the first \<open>n\<close> bytes of one more frame: replay returns the earlier records, and the
  new one exactly if all of its bytes arrived; the offset it reports is where the accepted frames
  end, so truncating there and appending again never hides a later commit.\<close>

theorem replay_after_torn_append:
  assumes "ext_ok E" "frames E rs bs" "wal_frame E r = Ok fr" "length pre + length bs + length fr < 2 ^ 64"
  shows "replay_from E (pre @ bs @ take n fr) (word_of_nat (length pre)) =
    (if n < length fr then Ok (rs, word_of_nat (length pre + length bs))
     else Ok (rs @ [r], word_of_nat (length pre + length bs + length fr)))"
proof (cases "n < length fr")
  case True
  then have "no_frame E (take n fr)"
    using torn_frame_no_frame [OF assms(3) take_is_prefix] by (metis length_take less_irrefl min.absorb4)
  then show ?thesis
    using replay_from_frames [OF assms(1,2), of "take n fr" pre] assms(4) True by simp
next
  case False
  then have "frames E (rs @ [r]) (bs @ fr)" using assms(2,3) by (auto intro!: frames_appendI)
  then show ?thesis
    using replay_from_frames [OF assms(1) _ no_frame_Nil, of "rs @ [r]" "bs @ fr" pre] assms(4) False by simp
qed

theorem replay_after_torn_append_witness:
  "\<exists>fr. wal_frame demo_ext [([7], Some [8])] = Ok fr \<and>
    replay_from demo_ext ([1, 2, 3] @ fr @ take 9 fr) 3 = Ok ([[([7], Some [8])]], word_of_nat (3 + length fr))"
proof -
  let ?r = "[([7], Some [8])]"
  obtain payload where p: "serialize (wal_codec demo_ext) ?r = Some payload" "length payload = 9"
    by (simp add: demo_ext_def codec_of_def sc_wal_def sc_list_def sc_pair_def sc_opt_def sc_byte_def)
  then obtain fr where fr: "wal_frame demo_ext ?r = Ok fr" "length fr = 17"
    by (simp add: wal_frame_def)
  then have "frames demo_ext [?r] fr" by simp
  from replay_after_torn_append [OF demo_ext_ok this fr(1), of "[1, 2, 3]" 9] fr show ?thesis by auto
qed

end
