(* ===== verification/Lsm_Container.thy ===== *)
theory Lsm_Container
  imports Lsm_Env Lsm_Demo
begin

text \<open>
  The container file (\<open>bkndb-storage-lsm/src/container.rs\<close>, \<open>manifest.rs\<close>): two header slots,
  of which the valid one with the higher sequence number points at the current manifest, and blobs
  at growing offsets. A torn header write leaves the other slot in charge.
\<close>

section \<open>Header slots\<close>

definition MAGIC :: bytes where "MAGIC = as_bytes ''BKNDBLS1''"
definition FORMAT_VERSION :: u32 where "FORMAT_VERSION = 2"
definition LEGACY_FORMAT_VERSION :: u32 where "LEGACY_FORMAT_VERSION = 1"
definition HEADER_SLOT_LEN :: nat where "HEADER_SLOT_LEN = 64"
definition BODY_START :: nat where "BODY_START = 128"

record header_slot =
  hs_slot :: byte
  hs_seq :: u64
  hs_manifest_offset :: u64
  hs_manifest_len :: u64
  hs_manifest_crc :: "u32 option"

definition encode_slot :: "ext \<Rightarrow> u64 \<Rightarrow> u64 \<Rightarrow> bytes \<Rightarrow> bytes" where
  "encode_slot E seq manifest_offset manifest =
    (let b = MAGIC @ be32 FORMAT_VERSION @ be64 seq @ be64 manifest_offset
           @ be64 (word_of_nat (length manifest)) @ be32 (crc32 E manifest)
     in b @ be32 (crc32 E b) @ replicate 20 0)"

definition decode_slot :: "ext \<Rightarrow> byte \<Rightarrow> bytes \<Rightarrow> header_slot option res" where
  "decode_slot E slot buf =
    (if take 8 buf \<noteq> MAGIC then Ok None
     else
       let rd32 = (\<lambda>at. of_be32 (take 4 (drop at buf)));
           rd64 = (\<lambda>at. of_be64 (take 8 (drop at buf)))
       in bind_res
         (if rd32 8 = FORMAT_VERSION then Ok (40, Some (rd32 36))
          else if rd32 8 = LEGACY_FORMAT_VERSION then Ok (36, None)
          else Err (Backend ''unsupported .bkndb format version''))
         (\<lambda>(crc_end, manifest_crc).
           if crc32 E (take crc_end buf) \<noteq> rd32 crc_end then Ok None
           else Ok (Some \<lparr>hs_slot = slot, hs_seq = rd64 12, hs_manifest_offset = rd64 20, hs_manifest_len = rd64 28,
                      hs_manifest_crc = manifest_crc\<rparr>)))"

definition read_header :: "ext \<Rightarrow> bytes \<Rightarrow> header_slot option res" where
  "read_header E f =
    (if length f < BODY_START then Ok None
     else
       bind_res (decode_slot E 0 (take HEADER_SLOT_LEN f)) (\<lambda>a.
       bind_res (decode_slot E 1 (take HEADER_SLOT_LEN (drop HEADER_SLOT_LEN f))) (\<lambda>b.
       (case (a, b) of
          (Some a, Some b) \<Rightarrow> Ok (Some (if hs_seq a \<ge> hs_seq b then a else b))
        | (Some a, None) \<Rightarrow> Ok (Some a)
        | (None, Some b) \<Rightarrow> Ok (Some b)
        | (None, None) \<Rightarrow>
            if length f = 0 then Ok None
            else Err (Backend ''corrupt or unrecognized .bkndb header: neither slot is valid'')))))"

text \<open>\<open>seek\<close> to an offset and \<open>write_all\<close>: a gap past the end of the file reads as zeros.\<close>

definition write_at :: "bytes \<Rightarrow> nat \<Rightarrow> bytes \<Rightarrow> bytes" where
  "write_at f offset bs = take offset f @ replicate (offset - length f) 0 @ bs @ drop (offset + length bs) f"

definition write_blob_at :: "bytes \<Rightarrow> u64 \<Rightarrow> bytes \<Rightarrow> bytes" where
  "write_blob_at f offset bs = write_at f (unat offset) bs"

definition write_header :: "ext \<Rightarrow> bytes \<Rightarrow> u64 \<Rightarrow> byte \<Rightarrow> u64 \<Rightarrow> bytes \<Rightarrow> bytes \<times> u64 \<times> byte" where
  "write_header E f prev_seq prev_slot manifest_offset manifest =
    (let new_slot = 1 - prev_slot;
         new_seq = prev_seq + 1;
         buf = encode_slot E new_seq manifest_offset manifest
     in (write_at f (unat new_slot * HEADER_SLOT_LEN) buf, new_seq, new_slot))"

definition read_blob :: "bytes \<Rightarrow> u64 \<Rightarrow> u64 \<Rightarrow> bytes res" where
  "read_blob f offset len =
    (if 2 ^ 64 \<le> unat offset + unat len then Err (Corruption ''blob range overflow'')
     else if length f < unat offset + unat len then Err (Corruption ''blob extends past EOF'')
     else Ok (take (unat len) (drop (unat offset) f)))"

definition read_manifest :: "ext \<Rightarrow> bytes \<Rightarrow> header_slot \<Rightarrow> bytes res" where
  "read_manifest E f slot =
    (case read_blob f (hs_manifest_offset slot) (hs_manifest_len slot) of
       Err e \<Rightarrow> Err (Corruption ''manifest unreadable'')
     | Panic \<Rightarrow> Panic
     | Ok bytes \<Rightarrow>
         if (case hs_manifest_crc slot of Some crc \<Rightarrow> crc \<noteq> crc32 E bytes | None \<Rightarrow> False)
         then Err (Corruption ''manifest checksum mismatch'')
         else Ok bytes)"

definition manifest_encode :: "ext \<Rightarrow> manifest \<Rightarrow> bytes res" where
  "manifest_encode E m = ok_or (serialize (manifest_codec E) m) (Encoding ''bincode'')"

definition manifest_decode :: "ext \<Rightarrow> bytes \<Rightarrow> manifest res" where
  "manifest_decode E bs = ok_or (deserialize (manifest_codec E) bs) (Encoding ''bincode'')"

section \<open>Reading back what was written\<close>

lemma length_MAGIC [simp]: "length MAGIC = 8"
  by (simp add: MAGIC_def)

lemma take_8_MAGIC: "bs ! 7 \<noteq> 49 \<Longrightarrow> take 8 bs \<noteq> MAGIC"
proof
  assume "bs ! 7 \<noteq> 49" "take 8 bs = MAGIC"
  moreover have "MAGIC ! 7 = 49" by (simp add: MAGIC_def)
  ultimately show False using nth_take [of 7 8 bs] by simp
qed

lemma be32_two: "be32 FORMAT_VERSION = [0, 0, 0, 2]"
proof -
  have four: "(4 :: nat) = Suc (Suc (Suc (Suc 0)))" by simp
  have "be 4 2 = [0, 0, 0, 2]" unfolding four by simp
  then show ?thesis by (simp add: be32_def FORMAT_VERSION_def)
qed

lemma replicate_four: "replicate 4 x = [x, x, x, x]"
proof -
  have four: "(4 :: nat) = Suc (Suc (Suc (Suc 0)))" by simp
  show ?thesis unfolding four by simp
qed

lemma decode_slot_not_magic: "bs ! 7 \<noteq> 49 \<Longrightarrow> decode_slot E s bs = Ok None"
  by (simp only: decode_slot_def take_8_MAGIC not_False_eq_True if_True)

lemma decode_slot_bad_version:
  assumes "take 8 buf = MAGIC" "take 4 (drop 8 buf) = [0, 0, 0, 0]"
  shows "decode_slot E s buf = Err (Backend ''unsupported .bkndb format version'')"
proof -
  have "of_be32 [0, 0, 0, 0] = 0" by (simp add: of_be32_def of_be_def)
  then show ?thesis
    using assms by (simp add: decode_slot_def Let_def FORMAT_VERSION_def LEGACY_FORMAT_VERSION_def)
qed

lemma length_encode_slot [simp]: "length (encode_slot E seq off m) = 64"
  by (simp add: encode_slot_def Let_def)

definition slot_of :: "ext \<Rightarrow> byte \<Rightarrow> u64 \<Rightarrow> u64 \<Rightarrow> bytes \<Rightarrow> header_slot" where
  "slot_of E slot seq off m = \<lparr>hs_slot = slot, hs_seq = seq, hs_manifest_offset = off,
     hs_manifest_len = word_of_nat (length m), hs_manifest_crc = Some (crc32 E m)\<rparr>"

lemma decode_encode_slot: "decode_slot E slot (encode_slot E seq off m) = Ok (Some (slot_of E slot seq off m))"
proof -
  define b where "b = MAGIC @ be32 FORMAT_VERSION @ be64 seq @ be64 off @ be64 (word_of_nat (length m)) @ be32 (crc32 E m)"
  define buf where "buf = b @ be32 (crc32 E b) @ replicate 20 0"
  have "take 8 buf = MAGIC" "of_be32 (take 4 (drop 8 buf)) = FORMAT_VERSION" "of_be64 (take 8 (drop 12 buf)) = seq"
    "of_be64 (take 8 (drop 20 buf)) = off" "of_be64 (take 8 (drop 28 buf)) = word_of_nat (length m)"
    "of_be32 (take 4 (drop 36 buf)) = crc32 E m" "take 40 buf = b" "of_be32 (take 4 (drop 40 buf)) = crc32 E b"
    by (simp_all add: buf_def b_def drop_append)
  moreover have "encode_slot E seq off m = buf"
    by (simp add: encode_slot_def Let_def buf_def b_def)
  ultimately show ?thesis
    by (simp add: decode_slot_def Let_def slot_of_def)
qed

text \<open>The slots of a file; the header in force, and the slot an update overwrites.\<close>

definition slot_at :: "bytes \<Rightarrow> byte \<Rightarrow> bytes" where
  "slot_at f i = take 64 (drop (unat i * 64) f)"

definition header_is :: "ext \<Rightarrow> bytes \<Rightarrow> header_slot \<Rightarrow> bool" where
  "header_is E f hs \<longleftrightarrow> 128 \<le> length f \<and> (hs_slot hs = 0 \<or> hs_slot hs = 1) \<and>
    decode_slot E (hs_slot hs) (slot_at f (hs_slot hs)) = Ok (Some hs) \<and>
    (\<exists>x. decode_slot E (1 - hs_slot hs) (slot_at f (1 - hs_slot hs)) = Ok x \<and>
      (case x of None \<Rightarrow> True | Some old \<Rightarrow> hs_seq old < hs_seq hs))"

lemma read_header_is:
  assumes "header_is E f hs"
  shows "read_header E f = Ok (Some hs)"
  using assms
  by (auto simp: header_is_def read_header_def BODY_START_def HEADER_SLOT_LEN_def slot_at_def split: option.splits)

lemma write_at_slot:
  assumes "128 \<le> length f" "s = 0 \<or> s = (1 :: byte)" "length buf = 64"
  shows "slot_at (write_at f (unat s * 64) buf) s = buf"
    and "slot_at (write_at f (unat s * 64) buf) (1 - s) = slot_at f (1 - s)"
    and "drop 128 (write_at f (unat s * 64) buf) = drop 128 f"
    and "length (write_at f (unat s * 64) buf) = length f"
proof -
  define a b r where "a = take 64 f" "b = take 64 (drop 64 f)" "r = drop 128 f"
  then have f: "f = a @ b @ r" "length a = 64" "length b = 64"
    using assms(1) append_take_drop_id [of 64 f] append_take_drop_id [of 64 "drop 64 f"] by simp_all
  show "slot_at (write_at f (unat s * 64) buf) s = buf" "slot_at (write_at f (unat s * 64) buf) (1 - s) = slot_at f (1 - s)"
    "drop 128 (write_at f (unat s * 64) buf) = drop 128 f" "length (write_at f (unat s * 64) buf) = length f"
    using assms(2,3) by (elim disjE; simp add: slot_at_def write_at_def f)+
qed

lemma write_at_same: "p + n \<le> length f \<Longrightarrow> write_at f p (take n (drop p f)) = f"
proof -
  assume "p + n \<le> length f"
  moreover have "take p f @ take n (drop p f) @ drop n (drop p f) = f" by (simp only: append_take_drop_id)
  ultimately show ?thesis by (simp add: write_at_def add.commute [of n])
qed

lemma word_less_Suc: "(x :: u64) \<noteq> -1 \<Longrightarrow> x < x + 1"
proof -
  assume "x \<noteq> -1"
  then have "x + 1 \<noteq> 0" by (metis eq_neg_iff_add_eq_0)
  then have "unat (x + 1) = Suc (unat x)" by (rule unatSuc [unfolded add.commute [of 1]])
  then show ?thesis by (simp add: word_less_nat_alt)
qed

lemma new_slot_cases: "s = 0 \<or> s = (1 :: byte) \<Longrightarrow> 1 - s = 0 \<or> 1 - s = 1" "s = 0 \<or> s = (1 :: byte) \<Longrightarrow> 1 - (1 - s) = s"
  by auto

text \<open>Overwriting the inactive slot: a complete write takes over, a torn one changes nothing.\<close>

lemma header_switch:
  assumes "header_is E f hs" "hs_seq hs \<noteq> -1"
  shows "header_is E (fst (write_header E f (hs_seq hs) (hs_slot hs) off m))
    (slot_of E (1 - hs_slot hs) (hs_seq hs + 1) off m)"
proof -
  let ?s = "1 - hs_slot hs" and ?buf = "encode_slot E (hs_seq hs + 1) off m"
  let ?f = "write_at f (unat ?s * 64) ?buf"
  have h: "128 \<le> length f" "hs_slot hs = 0 \<or> hs_slot hs = 1" "decode_slot E (hs_slot hs) (slot_at f (hs_slot hs)) = Ok (Some hs)"
    using assms(1) by (simp_all add: header_is_def)
  note w = write_at_slot [OF h(1) new_slot_cases(1) [OF h(2)] length_encode_slot, of E "hs_seq hs + 1" off m]
  have "hs_seq hs < hs_seq hs + 1"
    using assms(2) by (rule word_less_Suc)
  then have "header_is E ?f (slot_of E ?s (hs_seq hs + 1) off m)"
    using h w new_slot_cases [OF h(2)] decode_encode_slot [of E ?s "hs_seq hs + 1" off m]
    by (auto simp: header_is_def slot_of_def)
  then show ?thesis by (simp add: write_header_def Let_def HEADER_SLOT_LEN_def)
qed

lemma header_torn:
  assumes "header_is E f hs" "length buf = 64" "decode_slot E (1 - hs_slot hs) buf = Ok None"
  shows "header_is E (write_at f (unat (1 - hs_slot hs) * 64) buf) hs"
proof -
  have h: "128 \<le> length f" "hs_slot hs = 0 \<or> hs_slot hs = 1"
    using assms(1) by (simp_all add: header_is_def)
  note w = write_at_slot [OF h(1) new_slot_cases(1) [OF h(2)] assms(2)]
  show ?thesis
    using assms w new_slot_cases(2) [OF h(2)] by (auto simp: header_is_def)
qed

lemma header_is_append: "header_is E f hs \<Longrightarrow> header_is E (f @ g) hs"
  by (auto simp: header_is_def slot_at_def)

lemma header_is_take:
  assumes "header_is E f hs" "128 \<le> n"
  shows "header_is E (take n f) hs"
proof -
  have "slot_at (take n f) s = slot_at f s" if "s = 0 \<or> s = 1" for s :: byte
    using that assms(2) by (auto simp: slot_at_def drop_take min_def)
  then show ?thesis
    using assms by (fastforce simp: header_is_def)
qed

lemma read_manifest_ok:
  assumes "f = pre @ m @ rest" "hs_manifest_offset hs = word_of_nat (length pre)" "hs_manifest_len hs = word_of_nat (length m)"
    "hs_manifest_crc hs = Some (crc32 E m)" "length pre + length m < 2 ^ 64"
  shows "read_manifest E f hs = Ok m"
proof -
  have "unat (word_of_nat (length pre) :: u64) = length pre" "unat (word_of_nat (length m) :: u64) = length m"
    using assms(5) by (simp_all add: unat_of_nat)
  then show ?thesis
    using assms by (simp add: read_manifest_def read_blob_def)
qed

section \<open>Properties\<close>

text \<open>The root pointer changes atomically. With a valid header in force, writing the next one goes to
  the other slot. If the machine stops after any number \<open>j\<close> of its bytes and the torn slot fails its
  checks (or happens to equal its old or new contents), \<open>read_header\<close> finds the old header or the
  new one; once the write is complete it finds the new one.\<close>

theorem header_write_is_atomic:
  assumes "header_is E f hs" "hs_seq hs \<noteq> -1"
    and "torn = take j (encode_slot E (hs_seq hs + 1) off m) @ drop j (slot_at f (1 - hs_slot hs))"
    and "torn = slot_at f (1 - hs_slot hs) \<or> torn = encode_slot E (hs_seq hs + 1) off m
      \<or> decode_slot E (1 - hs_slot hs) torn = Ok None"
  shows "read_header E (write_at f (unat (1 - hs_slot hs) * 64) torn)
      \<in> {Ok (Some hs), Ok (Some (slot_of E (1 - hs_slot hs) (hs_seq hs + 1) off m))}
    \<and> read_header E (fst (write_header E f (hs_seq hs) (hs_slot hs) off m))
      = Ok (Some (slot_of E (1 - hs_slot hs) (hs_seq hs + 1) off m))"
proof -
  let ?s = "1 - hs_slot hs" and ?new = "encode_slot E (hs_seq hs + 1) off m"
  have h: "128 \<le> length f" "hs_slot hs = 0 \<or> hs_slot hs = 1" using assms(1) by (simp_all add: header_is_def)
  have len: "length torn = 64" using h by (auto simp: slot_at_def assms(3))
  have new: "header_is E (write_at f (unat ?s * 64) ?new) (slot_of E ?s (hs_seq hs + 1) off m)"
    using header_switch [OF assms(1,2), of off m] by (simp add: write_header_def Let_def HEADER_SLOT_LEN_def)
  have same: "write_at f (unat ?s * 64) (slot_at f ?s) = f"
    unfolding slot_at_def using h by (intro write_at_same) auto
  have "read_header E (write_at f (unat ?s * 64) torn) \<in> {Ok (Some hs), Ok (Some (slot_of E ?s (hs_seq hs + 1) off m))}"
    using assms(4) read_header_is [OF assms(1)] read_header_is [OF new] same
      read_header_is [OF header_torn [OF assms(1) len]] by auto
  then show ?thesis
    using read_header_is [OF header_switch [OF assms(1,2), of off m]] by blast
qed

lemma demo_header: "header_is demo_ext (encode_slot demo_ext 1 128 [] @ replicate 64 0) (slot_of demo_ext 0 1 128 [])"
  using decode_encode_slot [of demo_ext 0 1 128 "[]"]
  by (simp add: header_is_def slot_of_def slot_at_def) (simp add: decode_slot_not_magic)

theorem header_write_is_atomic_witness:
  "read_header demo_ext (write_at (encode_slot demo_ext 1 128 [] @ replicate 64 0) 64 (take 2 MAGIC @ replicate 62 0))
    \<in> {Ok (Some (slot_of demo_ext 0 1 128 [])), Ok (Some (slot_of demo_ext 1 2 200 [5]))}"
proof -
  let ?f = "encode_slot demo_ext 1 128 [] @ replicate 64 0" and ?hs = "slot_of demo_ext 0 1 128 []"
  have hs: "hs_slot ?hs = 0" "hs_seq ?hs = 1" by (simp_all add: slot_of_def)
  have torn: "take 2 MAGIC @ replicate 62 0 = take 2 (encode_slot demo_ext 2 200 [5]) @ drop 2 (slot_at ?f 1)"
    by (simp add: encode_slot_def Let_def slot_at_def)
  have "decode_slot demo_ext 1 (take 2 MAGIC @ replicate 62 0) = Ok None"
    by (rule decode_slot_not_magic) (simp add: nth_append)
  then show ?thesis
    using header_write_is_atomic [OF demo_header, of "take 2 MAGIC @ replicate 62 0" 2 200 "[5]"] torn by (simp add: hs)
qed

text \<open>C36: A header write torn inside its version field locks the database out. If the inactive slot has
  never been written (as after creation, until the first flush) and a crash leaves 8 to 11 bytes of
  the new slot, the slot reads as an unsupported version, and \<open>read_header\<close> fails although the other
  slot is valid.\<close>

theorem torn_version_locks_out:
  assumes "header_is E f hs" "hs_slot hs = 0" "slot_at f 1 = replicate 64 0" "8 \<le> j" "j < 12"
  shows "read_header E (write_at f 64 (take j (encode_slot E seq off m) @ drop j (slot_at f 1)))
    = Err (Backend ''unsupported .bkndb format version'')"
proof -
  let ?torn = "take j (encode_slot E seq off m) @ drop j (slot_at f 1)"
  have len: "length ?torn = 64" using assms(3) by simp
  have f: "128 \<le> length f" "decode_slot E 0 (slot_at f 0) = Ok (Some hs)"
    using assms(1,2) by (simp_all add: header_is_def)
  note w = write_at_slot [OF f(1) _ len, of 1, simplified]
  have j: "j = 8 \<or> j = 9 \<or> j = 10 \<or> j = 11" using assms(4,5) by auto
  have ver: "take 4 (drop 8 ?torn) = [0, 0, 0, 0]"
  proof -
    have "drop 8 ?torn = take (j - 8) (drop 8 (encode_slot E seq off m)) @ replicate (64 - j) 0"
      using assms(3-5) by (simp add: drop_take)
    moreover have "take (j - 8) (drop 8 (encode_slot E seq off m)) = replicate (j - 8) 0"
      using j by (auto simp: encode_slot_def Let_def be32_two take_Cons' numeral_2_eq_2 numeral_3_eq_3)
    ultimately have "drop 8 ?torn = replicate 56 0"
      using j by (auto simp: replicate_add [symmetric])
    then have "take 4 (drop 8 ?torn) = take 4 (replicate 56 0)" by (rule arg_cong)
    then show ?thesis by (simp only: take_replicate) (simp add: replicate_four)
  qed
  have "take 8 ?torn = MAGIC" using j by (auto simp: encode_slot_def Let_def)
  then have "decode_slot E 1 ?torn = Err (Backend ''unsupported .bkndb format version'')"
    using ver by (rule decode_slot_bad_version)
  then show ?thesis
    using w f by (simp add: read_header_def BODY_START_def HEADER_SLOT_LEN_def slot_at_def)
qed

theorem torn_version_locks_out_witness:
  "read_header demo_ext (write_at (encode_slot demo_ext 1 128 [] @ replicate 64 0) 64
      (take 9 (encode_slot demo_ext 2 200 [5]) @ replicate 55 0)) = Err (Backend ''unsupported .bkndb format version'')"
proof -
  have "slot_at (encode_slot demo_ext 1 128 [] @ replicate 64 0) 1 = replicate 64 0" by (simp add: slot_at_def)
  then show ?thesis
    using torn_version_locks_out [OF demo_header, of 9 2 200 "[5]"] by (simp add: slot_of_def)
qed

end
