(* ===== verification/Lsm_Engine.thy ===== *)
theory Lsm_Engine
  imports Lsm_Keys Lsm_Sstable_Write Lsm_Wal Lsm_Container
begin

text \<open>
  The LSM engine (\<open>bkndb-storage-lsm/src/engine/mod.rs\<close>, \<open>tx.rs\<close>, \<open>write.rs\<close>, \<open>ops.rs\<close>).
  The backend's state is its options, the shared \<open>EngineState\<close>, and the container writer with
  the file it holds; the file at the database's path is \<open>lb_file\<close> (a compaction renames its new
  file over it). Locks are not state: every operation below runs under the writer mutex or, for
  reads, on a snapshot copied under the state lock. Paths, directory creation, file locks and
  operating-system errors are not modelled.
\<close>

section \<open>Data\<close>

record lsm_options =
  lo_memtable_flush_bytes :: nat
  lo_compaction_trigger_files :: nat
  lo_block_size_bytes :: nat
  lo_compression :: bool

definition lsm_options_default :: lsm_options where
  "lsm_options_default = \<lparr>lo_memtable_flush_bytes = 16 * 1024 * 1024, lo_compaction_trigger_files = 16,
     lo_block_size_bytes = 4096, lo_compression = True\<rparr>"

record engine_state =
  es_active_memtable :: memtable
  es_immutable_memtables :: "memtable list"
  es_sstables :: "sstable list"
  es_next_sstable_id :: u64
  es_wal_region_start :: u64
  es_manifest_len :: u64

record read_snapshot =
  rs_active_memtable :: memtable
  rs_immutable_memtables :: "memtable list"
  rs_sstables :: "sstable list"

record lsm_backend =
  lb_options :: lsm_options
  lb_state :: engine_state
  lb_file :: bytes
  lb_header_seq :: u64
  lb_header_slot :: byte

type_synonym pending = "(bytes, bytes option) btree"

record lsm_read_tx =
  lr_snapshot :: read_snapshot

record lsm_write_tx =
  lw_snapshot :: read_snapshot
  lw_pending :: pending

section \<open>Lookups and scans\<close>

fun lookup_imms :: "memtable list \<Rightarrow> bytes \<Rightarrow> lsm_value option" where
  "lookup_imms [] key = None"
| "lookup_imms (m # ms) key = (case map_of m key of Some v \<Rightarrow> Some v | None \<Rightarrow> lookup_imms ms key)"

fun lookup_ssts :: "ext \<Rightarrow> sstable list \<Rightarrow> bytes \<Rightarrow> bytes option res" where
  "lookup_ssts E [] key = Ok None"
| "lookup_ssts E (h # hs) key =
    bind_res (sst_get E h key) (\<lambda>r. case r of Some v \<Rightarrow> Ok (live v) | None \<Rightarrow> lookup_ssts E hs key)"

definition lookup :: "ext \<Rightarrow> read_snapshot \<Rightarrow> pending option \<Rightarrow> bytes \<Rightarrow> bytes option res" where
  "lookup E s pending key = (case Option.bind pending (\<lambda>p. map_of p key) of
      Some entry \<Rightarrow> Ok entry
    | None \<Rightarrow> (case map_of (rs_active_memtable s) key of
        Some v \<Rightarrow> Ok (live v)
      | None \<Rightarrow> (case lookup_imms (rev (rs_immutable_memtables s)) key of
          Some v \<Rightarrow> Ok (live v)
        | None \<Rightarrow> lookup_ssts E (rev (rs_sstables s)) key)))"

definition bounds_empty :: "bytes bound \<Rightarrow> bytes bound \<Rightarrow> bool" where
  "bounds_empty lo hi = (case (lo, hi) of
      (Included a, Included b) \<Rightarrow> a > b
    | (Included a, Excluded b) \<Rightarrow> a \<ge> b
    | (Excluded a, Included b) \<Rightarrow> a \<ge> b
    | (Excluded a, Excluded b) \<Rightarrow> a \<ge> b
    | _ \<Rightarrow> False)"

definition to_value :: "bytes option \<Rightarrow> lsm_value" where
  "to_value v = (case v of Some b \<Rightarrow> Value b | None \<Rightarrow> Tombstone)"

definition scan_sources :: "ext \<Rightarrow> read_snapshot \<Rightarrow> pending option \<Rightarrow> bytes bound \<Rightarrow> bytes bound \<Rightarrow> entry_iter list res" where
  "scan_sources E s pending lo hi =
    (if bounds_empty lo hi then Ok []
     else
       bind_res (case pending of
           None \<Rightarrow> Ok []
         | Some p \<Rightarrow> bind_res (bt_range lo hi p) (\<lambda>xs. Ok [map (\<lambda>(k, v). Ok (k, to_value v)) xs])) (\<lambda>ps.
       bind_res (traverse (\<lambda>m. bind_res (bt_range lo hi m) (\<lambda>xs. Ok (map Ok xs)))
           (rs_active_memtable s # rev (rs_immutable_memtables s))) (\<lambda>ms.
       Ok (ps @ ms @ map (\<lambda>h. cursor E h lo hi) (rev (rs_sstables s))))))"

definition translate_bound :: "table \<Rightarrow> bytes bound \<Rightarrow> bytes bound res" where
  "translate_bound t b = (case b of
      Included k \<Rightarrow> bind_res (encode_key t k) (\<lambda>x. Ok (Included x))
    | Excluded k \<Rightarrow> bind_res (encode_key t k) (\<lambda>x. Ok (Excluded x))
    | Unbounded \<Rightarrow> Ok Unbounded)"

definition table_scan_bounds :: "table \<Rightarrow> bytes bound \<Rightarrow> bytes bound \<Rightarrow> (bytes bound \<times> bytes bound) res" where
  "table_scan_bounds t start e =
    bind_res (case start of Unbounded \<Rightarrow> bind_res (table_prefix t) (\<lambda>p. Ok (Included p)) | _ \<Rightarrow> translate_bound t start) (\<lambda>lo.
    bind_res (case e of
        Unbounded \<Rightarrow> bind_res (table_prefix t) (\<lambda>p. Ok (case prefix_upper_bound p of Some b \<Rightarrow> Excluded b | None \<Rightarrow> Unbounded))
      | _ \<Rightarrow> translate_bound t e) (\<lambda>hi.
    Ok (lo, hi)))"

definition scan_table :: "ext \<Rightarrow> read_snapshot \<Rightarrow> pending option \<Rightarrow> table \<Rightarrow> bytes bound \<Rightarrow> bytes bound \<Rightarrow> kv_iter res" where
  "scan_table E s pending t start e =
    bind_res (table_scan_bounds t start e) (\<lambda>(lo, hi).
    bind_res (table_prefix t) (\<lambda>p.
    bind_res (scan_sources E s pending lo hi) (\<lambda>sources.
    Ok (map (\<lambda>r. bind_res r (\<lambda>(k, v). if length p \<le> length k then Ok (drop (length p) k, v) else Panic))
      (merge_sources sources)))))"

section \<open>Transactions\<close>

definition lsm_snapshot :: "lsm_backend \<Rightarrow> read_snapshot" where
  "lsm_snapshot b = \<lparr>rs_active_memtable = es_active_memtable (lb_state b),
     rs_immutable_memtables = es_immutable_memtables (lb_state b), rs_sstables = es_sstables (lb_state b)\<rparr>"

definition lsm_begin_read :: "lsm_backend \<Rightarrow> lsm_read_tx res" where
  "lsm_begin_read b = Ok \<lparr>lr_snapshot = lsm_snapshot b\<rparr>"

definition lsm_begin_write :: "lsm_backend \<Rightarrow> lsm_write_tx res" where
  "lsm_begin_write b = Ok \<lparr>lw_snapshot = lsm_snapshot b, lw_pending = []\<rparr>"

definition lsm_read_get :: "ext \<Rightarrow> lsm_read_tx \<Rightarrow> table \<Rightarrow> bytes \<Rightarrow> bytes option res" where
  "lsm_read_get E r t k = bind_res (encode_key t k) (lookup E (lr_snapshot r) None)"

definition lsm_read_range :: "ext \<Rightarrow> lsm_read_tx \<Rightarrow> table \<Rightarrow> bytes bound \<Rightarrow> bytes bound \<Rightarrow> kv_pairs res" where
  "lsm_read_range E r t lo hi = bind_res (scan_table E (lr_snapshot r) None t lo hi) (traverse (\<lambda>x. x))"

definition lsm_read_scan :: "ext \<Rightarrow> lsm_read_tx \<Rightarrow> table \<Rightarrow> bytes bound \<Rightarrow> bytes bound \<Rightarrow> kv_iter res" where
  "lsm_read_scan E r t lo hi = scan_table E (lr_snapshot r) None t lo hi"

definition lsm_write_get :: "ext \<Rightarrow> lsm_write_tx \<Rightarrow> table \<Rightarrow> bytes \<Rightarrow> bytes option res" where
  "lsm_write_get E w t k = bind_res (encode_key t k) (lookup E (lw_snapshot w) (Some (lw_pending w)))"

definition lsm_write_range :: "ext \<Rightarrow> lsm_write_tx \<Rightarrow> table \<Rightarrow> bytes bound \<Rightarrow> bytes bound \<Rightarrow> kv_pairs res" where
  "lsm_write_range E w t lo hi =
    bind_res (scan_table E (lw_snapshot w) (Some (lw_pending w)) t lo hi) (traverse (\<lambda>x. x))"

definition lsm_write_scan :: "ext \<Rightarrow> lsm_write_tx \<Rightarrow> table \<Rightarrow> bytes bound \<Rightarrow> bytes bound \<Rightarrow> kv_iter res" where
  "lsm_write_scan E w t lo hi = scan_table E (lw_snapshot w) (Some (lw_pending w)) t lo hi"

definition lsm_put :: "lsm_write_tx \<Rightarrow> table \<Rightarrow> bytes \<Rightarrow> bytes \<Rightarrow> lsm_write_tx res" where
  "lsm_put w t k v = bind_res (encode_key t k) (\<lambda>x. Ok (w\<lparr>lw_pending := bt_insert x (Some v) (lw_pending w)\<rparr>))"

definition lsm_delete :: "lsm_write_tx \<Rightarrow> table \<Rightarrow> bytes \<Rightarrow> lsm_write_tx res" where
  "lsm_delete w t k = bind_res (encode_key t k) (\<lambda>x. Ok (w\<lparr>lw_pending := bt_insert x None (lw_pending w)\<rparr>))"

section \<open>Writing: flush, compaction, commit\<close>

definition lsm_write_options :: "lsm_backend \<Rightarrow> write_options" where
  "lsm_write_options b = \<lparr>wo_block_size = lo_block_size_bytes (lb_options b), wo_compress = lo_compression (lb_options b)\<rparr>"

definition ref_of :: "sstable \<Rightarrow> sstable_ref" where
  "ref_of h = \<lparr>sr_generation = sh_generation h, sr_offset = sh_base_offset h, sr_length = sh_blob_len h\<rparr>"

record fresh_container =
  fc_file :: bytes
  fc_handle :: sstable
  fc_manifest :: manifest
  fc_manifest_len :: u64

definition write_fresh_container :: "ext \<Rightarrow> u64 \<Rightarrow> kv_iter \<Rightarrow> nat \<Rightarrow> write_options \<Rightarrow> fresh_container res" where
  "write_fresh_container E generation entries expected_items opts =
    (let f = replicate BODY_START 0;
         entries = map (\<lambda>r. bind_res r (\<lambda>(k, v). Ok (k, Value v))) entries
     in bind_res (sst_write E f generation entries expected_items opts) (\<lambda>(f, handle).
        let placeholder = \<lparr>mf_next_sstable_id = generation + 1, mf_sstables = [ref_of handle], mf_wal_region_start = 0\<rparr>
        in bind_res (manifest_encode E placeholder) (\<lambda>p.
        let len = word_of_nat (length p);
            manifest_offset = sh_base_offset handle + sh_blob_len handle;
            manifest = placeholder\<lparr>mf_wal_region_start := manifest_offset + len\<rparr>
        in bind_res (manifest_encode E manifest) (\<lambda>bytes.
        let f = write_blob_at f manifest_offset bytes;
            f = fst (write_header E f 0 1 manifest_offset bytes)
        in Ok \<lparr>fc_file = f, fc_handle = handle, fc_manifest = manifest, fc_manifest_len = word_of_nat (length bytes)\<rparr>))))"

definition compact_all :: "ext \<Rightarrow> bool \<Rightarrow> lsm_backend \<Rightarrow> lsm_backend res" where
  "compact_all E force b =
    (let st = lb_state b;
         worth_it = (2 \<le> length (es_sstables st) \<or> (force \<and> es_sstables st \<noteq> []))
     in if \<not> worth_it then Ok b
        else
          let sources = map (\<lambda>h. cursor E h Unbounded Unbounded) (rev (es_sstables st));
              expected = sum_list (map estimated_entries (es_sstables st));
              new_generation = es_next_sstable_id st;
              st = st\<lparr>es_next_sstable_id := es_next_sstable_id st + 1\<rparr>
          in bind_res (write_fresh_container E new_generation (merge_sources sources) (unat expected) (lsm_write_options b)) (\<lambda>fresh.
             Ok (b\<lparr>lb_file := fc_file fresh, lb_header_seq := 1, lb_header_slot := 0,
                   lb_state := st\<lparr>es_sstables := [fc_handle fresh], es_wal_region_start := mf_wal_region_start (fc_manifest fresh),
                     es_next_sstable_id := mf_next_sstable_id (fc_manifest fresh), es_manifest_len := fc_manifest_len fresh\<rparr>\<rparr>)))"

text \<open>
  The memtable being flushed stays readable as the last immutable memtable until its SSTable is in
  place; \<open>flush\<close> then removes that very memtable (pointer equality), which leaves the others.
\<close>

definition flush :: "ext \<Rightarrow> lsm_backend \<Rightarrow> lsm_backend res" where
  "flush E b =
    (let st = lb_state b
     in if es_active_memtable st = [] then Ok b
        else
          let memtable_to_flush = es_active_memtable st;
              generation = es_next_sstable_id st;
              st1 = st\<lparr>es_immutable_memtables := es_immutable_memtables st @ [memtable_to_flush],
                       es_active_memtable := [], es_next_sstable_id := es_next_sstable_id st + 1\<rparr>
          in bind_res (sst_write E (lb_file b) generation (map Ok memtable_to_flush) (length memtable_to_flush)
                (lsm_write_options b)) (\<lambda>(f, handle).
             let sstable_refs = map ref_of (es_sstables st1) @ [ref_of handle];
                 manifest_offset = sh_base_offset handle + sh_blob_len handle;
                 placeholder = \<lparr>mf_next_sstable_id = es_next_sstable_id st1, mf_sstables = sstable_refs, mf_wal_region_start = 0\<rparr>
             in bind_res (manifest_encode E placeholder) (\<lambda>p.
             let len = word_of_nat (length p);
                 manifest = placeholder\<lparr>mf_wal_region_start := manifest_offset + len\<rparr>
             in bind_res (manifest_encode E manifest) (\<lambda>bytes.
             let f = write_blob_at f manifest_offset bytes;
                 (f, seq, slot) = write_header E f (lb_header_seq b) (lb_header_slot b) manifest_offset bytes;
                 st2 = st1\<lparr>es_sstables := es_sstables st1 @ [handle],
                           es_immutable_memtables := butlast (es_immutable_memtables st1),
                           es_wal_region_start := mf_wal_region_start manifest,
                           es_manifest_len := word_of_nat (length bytes)\<rparr>;
                 b2 = b\<lparr>lb_file := f, lb_header_seq := seq, lb_header_slot := slot, lb_state := st2\<rparr>
             in if lo_compaction_trigger_files (lb_options b) \<le> length (es_sstables st2)
                then compact_all E False b2 else Ok b2))))"

definition apply_pending :: "(bytes \<times> bytes option) list \<Rightarrow> memtable \<Rightarrow> memtable" where
  "apply_pending es m = fold (\<lambda>(k, v). bt_insert k (to_value v)) es m"

definition commit_pending :: "ext \<Rightarrow> lsm_backend \<Rightarrow> pending \<Rightarrow> lsm_backend res" where
  "commit_pending E b pending =
    (if pending = [] then Ok b
     else
       bind_res (wal_append E (lb_file b) pending) (\<lambda>f.
       let st = (lb_state b)\<lparr>es_active_memtable := apply_pending pending (es_active_memtable (lb_state b))\<rparr>;
           b1 = b\<lparr>lb_file := f, lb_state := st\<rparr>;
           needs_flush = (memtable_byte_size (es_active_memtable st) \<ge> lo_memtable_flush_bytes (lb_options b))
       in if needs_flush then flush E b1 else Ok b1))"

definition lsm_commit :: "ext \<Rightarrow> lsm_backend \<Rightarrow> lsm_write_tx \<Rightarrow> lsm_backend res" where
  "lsm_commit E b w = commit_pending E b (lw_pending w)"

definition lsm_read_ops :: "ext \<Rightarrow> lsm_read_tx read_ops" where
  "lsm_read_ops E = \<lparr>s_get = lsm_read_get E, s_range = lsm_read_range E, s_scan = lsm_read_scan E\<rparr>"

definition lsm_write_ops :: "ext \<Rightarrow> lsm_write_tx write_ops" where
  "lsm_write_ops E = \<lparr>s_get = lsm_write_get E, s_range = lsm_write_range E, s_scan = lsm_write_scan E,
     s_put = lsm_put, s_delete = lsm_delete\<rparr>"

definition lsm_ops :: "ext \<Rightarrow> (lsm_backend, lsm_read_tx, lsm_write_tx) backend_ops" where
  "lsm_ops E = \<lparr>read_tx = lsm_read_ops E, write_tx = lsm_write_ops E, begin_read = lsm_begin_read,
     begin_write = lsm_begin_write, commit = lsm_commit E\<rparr>"

section \<open>Opening and maintenance\<close>

text \<open>Opening: find the manifest (or bootstrap an empty file), replay the log and cut the file off
  after the last valid frame, then open the SSTables. \<open>f\<close> is the file's contents.\<close>

definition lsm_bootstrap :: "ext \<Rightarrow> bytes \<Rightarrow> (bytes \<times> manifest \<times> u64 \<times> u64 \<times> byte) res" where
  "lsm_bootstrap E f =
    (let placeholder = \<lparr>mf_next_sstable_id = 1, mf_sstables = [], mf_wal_region_start = 0\<rparr>
     in bind_res (manifest_encode E placeholder) (\<lambda>p.
        let manifest = placeholder\<lparr>mf_wal_region_start := word_of_nat BODY_START + word_of_nat (length p)\<rparr>
        in bind_res (manifest_encode E manifest) (\<lambda>bytes.
        let f = write_blob_at f (word_of_nat BODY_START) bytes;
            (f, seq, slot) = write_header E f 0 1 (word_of_nat BODY_START) bytes
        in Ok (f, manifest, word_of_nat (length bytes), seq, slot))))"

definition lsm_open :: "ext \<Rightarrow> bytes \<Rightarrow> lsm_options \<Rightarrow> lsm_backend res" where
  "lsm_open E f options =
    bind_res (read_header E f) (\<lambda>header.
    bind_res (case header of
        Some slot \<Rightarrow>
          bind_res (read_manifest E f slot) (\<lambda>bytes.
            (case manifest_decode E bytes of
               Ok manifest \<Rightarrow> Ok (f, manifest, hs_manifest_len slot, hs_seq slot, hs_slot slot)
             | Err e \<Rightarrow> Err (Corruption ''manifest undecodable'')
             | Panic \<Rightarrow> Panic))
      | None \<Rightarrow> lsm_bootstrap E f) (\<lambda>(f, manifest, manifest_len, seq, slot).
    bind_res (replay_from E f (mf_wal_region_start manifest)) (\<lambda>(records, valid_end).
    let f = (if unat valid_end < length f then take (unat valid_end) f else f);
        active_memtable = fold apply_pending records []
    in bind_res (traverse (\<lambda>r. sst_open E f (sr_generation r) (sr_offset r) (sr_length r)) (mf_sstables manifest)) (\<lambda>sstables.
    Ok \<lparr>lb_options = options,
        lb_state = \<lparr>es_active_memtable = active_memtable, es_immutable_memtables = [],
          es_sstables = sort_key sh_generation sstables, es_next_sstable_id = mf_next_sstable_id manifest,
          es_wal_region_start = mf_wal_region_start manifest, es_manifest_len = manifest_len\<rparr>,
        lb_file = f, lb_header_seq = seq, lb_header_slot = slot\<rparr>))))"

definition force_compact :: "ext \<Rightarrow> lsm_backend \<Rightarrow> lsm_backend res" where
  "force_compact E b = bind_res (flush E b) (compact_all E True)"

definition sstable_count :: "lsm_backend \<Rightarrow> nat" where
  "sstable_count b = length (es_sstables (lb_state b))"

text \<open>The file written at the backup's path (which must not exist yet).\<close>

definition backup_to :: "ext \<Rightarrow> lsm_backend \<Rightarrow> bytes res" where
  "backup_to E b =
    (let s = lsm_snapshot b;
         expected = word_of_nat (length (rs_active_memtable s))
           + sum_list (map (\<lambda>m. word_of_nat (length m)) (rs_immutable_memtables s))
           + sum_list (map estimated_entries (rs_sstables s))
     in bind_res (scan_sources E s None Unbounded Unbounded) (\<lambda>sources.
        bind_res (write_fresh_container E 1 (merge_sources sources) (unat (expected :: u64)) (lsm_write_options b)) (\<lambda>fresh.
        Ok (fc_file fresh))))"

record lsm_stats =
  st_file_bytes :: u64
  st_sstable_count :: nat
  st_legacy_sstable_count :: nat
  st_sstable_bytes :: u64
  st_sstable_entries :: u64
  st_memtable_entries :: nat
  st_memtable_bytes :: nat
  st_wal_bytes :: u64
  st_reclaimable_bytes :: u64

definition saturating_sub :: "u64 \<Rightarrow> u64 \<Rightarrow> u64" where
  "saturating_sub a b = (if b \<le> a then a - b else 0)"

definition lsm_stats_of :: "lsm_backend \<Rightarrow> lsm_stats res" where
  "lsm_stats_of b =
    (let file_bytes = word_of_nat (length (lb_file b));
         st = lb_state b;
         (memtable_entries, memtable_bytes) = fold (\<lambda>m (n, s). (n + length m, s + memtable_byte_size m))
           (es_active_memtable st # es_immutable_memtables st) (0, 0);
         sstable_bytes = sum_list (map sh_blob_len (es_sstables st));
         wal_bytes = saturating_sub file_bytes (es_wal_region_start st)
     in Ok \<lparr>st_file_bytes = file_bytes, st_sstable_count = length (es_sstables st),
         st_legacy_sstable_count = length (filter is_legacy (es_sstables st)), st_sstable_bytes = sstable_bytes,
         st_sstable_entries = sum_list (map estimated_entries (es_sstables st)),
         st_memtable_entries = memtable_entries, st_memtable_bytes = memtable_bytes, st_wal_bytes = wal_bytes,
         st_reclaimable_bytes = saturating_sub file_bytes
           (word_of_nat BODY_START + sstable_bytes + es_manifest_len st + wal_bytes)\<rparr>)"

record integrity_report =
  ir_sstables_checked :: nat
  ir_blocks_verified :: u64
  ir_legacy_blocks_unchecked :: u64
  ir_entries :: u64
  ir_wal_records :: u64

definition verify_sst :: "ext \<Rightarrow> sstable \<Rightarrow> integrity_report \<Rightarrow> integrity_report res" where
  "verify_sst E h report = bind_res (sst_verify E h) (\<lambda>counts.
     Ok (report\<lparr>ir_sstables_checked := ir_sstables_checked report + 1,
       ir_blocks_verified := ir_blocks_verified report + vc_blocks_verified counts,
       ir_legacy_blocks_unchecked := ir_legacy_blocks_unchecked report + vc_blocks_unchecked counts,
       ir_entries := ir_entries report + vc_entries counts\<rparr>))"

definition verify_integrity :: "ext \<Rightarrow> lsm_backend \<Rightarrow> integrity_report res" where
  "verify_integrity E b =
    bind_res (for_res (verify_sst E) (es_sstables (lb_state b))
      \<lparr>ir_sstables_checked = 0, ir_blocks_verified = 0, ir_legacy_blocks_unchecked = 0, ir_entries = 0, ir_wal_records = 0\<rparr>) (\<lambda>report.
    bind_res (bind_res (read_header E (lb_file b)) (\<lambda>h. ok_or h (Corruption ''database header is missing''))) (\<lambda>slot.
    bind_res (read_manifest E (lb_file b) slot) (\<lambda>bytes.
    (case manifest_decode E bytes of
       Err e \<Rightarrow> Err (Corruption ''manifest undecodable'')
     | Panic \<Rightarrow> Panic
     | Ok m \<Rightarrow>
         bind_res (replay_from E (lb_file b) (es_wal_region_start (lb_state b))) (\<lambda>(records, valid_end).
         if unat valid_end \<noteq> length (lb_file b)
         then Err (Corruption ''write-ahead log has trailing bytes that are not a valid frame'')
         else Ok (report\<lparr>ir_wal_records := word_of_nat (length records)\<rparr>))))))"

end
