(* ===== verification/Lsm_Read.thy ===== *)
theory Lsm_Read
  imports Lsm_Engine
begin

text \<open>
  Reads of the LSM engine are correct: a snapshot stands for the stack of its layers (pending
  writes, memtables, SSTables, newest first); point lookups and table scans return what that stack
  holds, so the engine's transactions meet the storage contract.
\<close>

section \<open>Layers of a snapshot\<close>

definition sst_entries :: "ext \<Rightarrow> sstable \<Rightarrow> entry list" where
  "sst_entries E h = concat (map (\<lambda>r. case r of Ok e \<Rightarrow> [e] | _ \<Rightarrow> []) (cursor E h Unbounded Unbounded))"

definition sst_good :: "ext \<Rightarrow> sstable \<Rightarrow> bool" where
  "sst_good E h \<longleftrightarrow> (\<exists>bss. sst_repr E h (sst_entries E h) bss)"

lemma restrict_Unbounded [simp]: "restrict Unbounded Unbounded es = es"
  by (simp add: restrict_def in_range_def)

lemma sst_entries_repr: "sst_repr E h es bss \<Longrightarrow> sst_entries E h = es"
  by (simp add: sst_entries_def cursor_ok o_def)

lemma sst_goodI: "sst_repr E h es bss \<Longrightarrow> sst_good E h"
  by (auto simp: sst_good_def sst_entries_repr)

lemma sst_good_facts:
  assumes "sst_good E h"
  shows "sst_get E h k = Ok (map_of (sst_entries E h) k)"
    and "cursor E h lo hi = map Ok (restrict lo hi (sst_entries E h))"
    and "sorted_keys (sst_entries E h)"
proof -
  obtain bss where r: "sst_repr E h (sst_entries E h) bss" using assms by (auto simp: sst_good_def)
  show "sst_get E h k = Ok (map_of (sst_entries E h) k)" "cursor E h lo hi = map Ok (restrict lo hi (sst_entries E h))"
    "sorted_keys (sst_entries E h)"
    using r by (rule sst_get_ok, rule cursor_ok, simp add: sst_repr_def)
qed

definition snap_ok :: "ext \<Rightarrow> read_snapshot \<Rightarrow> bool" where
  "snap_ok E s \<longleftrightarrow> sorted_keys (rs_active_memtable s) \<and> (\<forall>m\<in>set (rs_immutable_memtables s). sorted_keys m) \<and>
    (\<forall>h\<in>set (rs_sstables s). sst_good E h)"

definition snap_layers :: "ext \<Rightarrow> read_snapshot \<Rightarrow> entry list list" where
  "snap_layers E s = rs_active_memtable s # rev (rs_immutable_memtables s) @ map (sst_entries E) (rev (rs_sstables s))"

definition pending_layer :: "pending \<Rightarrow> entry list" where
  "pending_layer p = map (\<lambda>(k, v). (k, to_value v)) p"

definition tx_layers :: "ext \<Rightarrow> read_snapshot \<Rightarrow> pending option \<Rightarrow> entry list list" where
  "tx_layers E s p = (case p of None \<Rightarrow> [] | Some q \<Rightarrow> [pending_layer q]) @ snap_layers E s"

definition tx_ok :: "ext \<Rightarrow> read_snapshot \<Rightarrow> pending option \<Rightarrow> bool" where
  "tx_ok E s p \<longleftrightarrow> snap_ok E s \<and> (case p of None \<Rightarrow> True | Some q \<Rightarrow> sorted_keys q)"

lemma live_to_value [simp]: "live (to_value v) = v"
  by (simp add: live_def to_value_def split: option.split)

lemma pending_layer_simps [simp]:
  "map_of (pending_layer p) k = map_option to_value (map_of p k)" "sorted_keys (pending_layer p) = sorted_keys p"
  unfolding pending_layer_def by (rule map_of_map_values, rule sorted_map_values)

lemma tx_layers_sorted: "tx_ok E s p \<Longrightarrow> \<forall>l\<in>set (tx_layers E s p). sorted_keys l"
  using sst_good_facts(3) by (auto simp: tx_ok_def tx_layers_def snap_ok_def snap_layers_def split: option.splits)

section \<open>Point lookups\<close>

lemma lookup_imms_layers: "lookup_imms ms k = layers_get ms k"
  by (induction ms) (auto split: option.split)

lemma lookup_ssts_layers:
  "\<forall>h\<in>set hs. sst_good E h \<Longrightarrow> lookup_ssts E hs k = Ok (layers_view (map (sst_entries E) hs) k)"
  by (induction hs) (auto simp: layers_view_def sst_good_facts(1) split: option.split)

lemma lookup_ok:
  assumes "tx_ok E s p"
  shows "lookup E s p k = Ok (layers_view (tx_layers E s p) k)"
proof -
  have ssts: "lookup_ssts E (rev (rs_sstables s)) k = Ok (layers_view (map (sst_entries E) (rev (rs_sstables s))) k)"
    using assms by (intro lookup_ssts_layers) (auto simp: tx_ok_def snap_ok_def)
  show ?thesis
    by (cases p) (auto simp: lookup_def tx_layers_def snap_layers_def layers_view_def layers_get_append lookup_imms_layers
      ssts split: option.split)
qed

section \<open>Scans\<close>

lemma layers_get_restrict:
  "layers_get (map (restrict lo hi) ls) k = (if in_range lo hi k then layers_get ls k else None)"
  by (induction ls) (auto split: option.split)

lemma layers_view_restrict:
  "layers_view (map (restrict lo hi) ls) k = (if in_range lo hi k then layers_view ls k else None)"
  by (simp add: layers_view_def layers_get_restrict)

lemma bounds_empty_facts:
  "bounds_empty lo hi \<Longrightarrow> \<not> in_range lo hi k" "\<not> bounds_empty lo hi \<Longrightarrow> \<not> range_panics lo hi"
  by (cases lo; cases hi; auto simp: bounds_empty_def in_range_def range_panics_def)+

lemma restrict_pending: "map (\<lambda>(k, v). Ok (k, to_value v)) (restrict lo hi p) = map Ok (restrict lo hi (pending_layer p))"
  by (induction p) (auto simp: restrict_def pending_layer_def)

lemma scan_sources_ok:
  assumes ok: "tx_ok E s p" and ne: "\<not> bounds_empty lo hi"
  shows "scan_sources E s p lo hi = Ok (map (map Ok) (map (restrict lo hi) (tx_layers E s p)))"
proof -
  have rg: "bt_range lo hi m = Ok (restrict lo hi m)" for m :: "(bytes, 'v) btree"
    using bounds_empty_facts(2) [OF ne] by (simp add: bt_range_def)
  have mems: "traverse (\<lambda>m. Ok (map Ok (restrict lo hi m))) ms = Ok (map (\<lambda>m. map Ok (restrict lo hi m)) ms)"
    for ms :: "memtable list"
    by (rule traverse_Ok) simp
  have curs: "map (\<lambda>h. cursor E h lo hi) (rev (rs_sstables s))
      = map (\<lambda>h. map Ok (restrict lo hi (sst_entries E h))) (rev (rs_sstables s))"
    using ok sst_good_facts(2) by (intro map_cong refl) (auto simp: tx_ok_def snap_ok_def)
  show ?thesis
    using ne by (cases p)
      (simp_all add: scan_sources_def rg mems curs restrict_pending tx_layers_def snap_layers_def o_def del: traverse.simps)
qed

text \<open>The bounds of a table scan select exactly the table's keys within the caller's bounds.\<close>

lemma table_scan_bounds_ok:
  assumes t: "lsm_tbl_ok t"
  obtains lo' hi' where "table_scan_bounds t lo hi = Ok (lo', hi')"
    "\<And>x. in_range lo' hi' x \<longleftrightarrow> (\<exists>k. x = tprefix t @ k \<and> in_range lo hi k)"
proof -
  let ?P = "tprefix t"
  define lo' where "lo' = (case lo of Included k \<Rightarrow> Included (?P @ k) | Excluded k \<Rightarrow> Excluded (?P @ k) | Unbounded \<Rightarrow> Included ?P)"
  define hi' where "hi' = (case hi of Included k \<Rightarrow> Included (?P @ k) | Excluded k \<Rightarrow> Excluded (?P @ k)
     | Unbounded \<Rightarrow> prefix_hi (byte_successor ?P))"
  have eq: "table_scan_bounds t lo hi = Ok (lo', hi')"
    using t by (cases lo; cases hi)
      (auto simp: table_scan_bounds_def translate_bound_def lo'_def hi'_def prefix_hi_def split: option.split)
  have low: "\<exists>a. ?P @ a \<le> x" if "lo_ok lo' x" for x
    using that by (cases lo) (auto simp: lo'_def lo_ok_def intro: less_imp_le exI [of _ "[]"])
  have pre: "prefix ?P x" if r: "in_range lo' hi' x" for x
  proof (cases hi)
    case Unbounded
    obtain a where "?P @ a \<le> x" using low r by (auto simp: in_range_def)
    then have "?P \<le> x" using le_append order_trans by blast
    then have "in_range (Included ?P) (prefix_hi (byte_successor ?P)) x"
      using r Unbounded by (simp add: in_range_def hi'_def lo_ok_def)
    then show ?thesis by (simp only: in_range_prefix)
  qed (use r low in \<open>auto simp: in_range_def hi'_def hi_ok_def intro: prefix_convex less_imp_le\<close>)
  have inn: "in_range lo' hi' (?P @ k) \<longleftrightarrow> in_range lo hi k" for k
  proof -
    have "hi_ok (prefix_hi (byte_successor ?P)) (?P @ k)"
      using in_range_prefix [of ?P "?P @ k"] by (simp add: in_range_def)
    moreover have "?P \<le> ?P @ k" by simp
    ultimately show ?thesis
      by (cases lo; cases hi) (auto simp: in_range_def lo'_def hi'_def lo_ok_def hi_ok_def)
  qed
  have "in_range lo' hi' x \<longleftrightarrow> (\<exists>k. x = ?P @ k \<and> in_range lo hi k)" for x
    using pre [of x] inn by (auto simp: prefix_def)
  with eq show thesis by (rule that)
qed

lemma scan_table_ok:
  assumes ok: "tx_ok E s p" and t: "lsm_tbl_ok t"
  shows "\<exists>ys. scan_table E s p t lo hi = Ok (map Ok ys) \<and> range_of (\<lambda>k. layers_view (tx_layers E s p) (tprefix t @ k)) lo hi ys"
proof -
  obtain lo' hi' where b: "table_scan_bounds t lo hi = Ok (lo', hi')"
      "\<And>x. in_range lo' hi' x \<longleftrightarrow> (\<exists>k. x = tprefix t @ k \<and> in_range lo hi k)"
    using table_scan_bounds_ok [OF t, of lo hi] by blast
  let ?ls = "tx_layers E s p" and ?n = "length (tprefix t)"
  obtain xs where xs: "merge_sources (case scan_sources E s p lo' hi' of Ok ss \<Rightarrow> ss | _ \<Rightarrow> []) = map Ok xs"
      "scan_sources E s p lo' hi' \<noteq> Panic" "\<And>e. scan_sources E s p lo' hi' \<noteq> Err e"
      "sorted_keys xs" "\<And>x. map_of xs x = (if in_range lo' hi' x then layers_view ?ls x else None)"
  proof (cases "bounds_empty lo' hi'")
    case True
    then have "scan_sources E s p lo' hi' = Ok []" by (simp add: scan_sources_def)
    moreover have "merge_sources [] = []"
      using merge_sources_ok [of "[]"] by (auto simp: layers_view_def fun_eq_iff map_of_eq_None_iff)
    ultimately show thesis using that [of "[]"] bounds_empty_facts(1) [OF True] by simp
  next
    case False
    have "\<forall>l\<in>set (map (restrict lo' hi') ?ls). sorted_keys l" using tx_layers_sorted [OF ok] by auto
    from merge_sources_ok [OF this] show thesis
      using that scan_sources_ok [OF ok False] by (auto simp: layers_view_restrict)
  qed
  obtain ss where ss: "scan_sources E s p lo' hi' = Ok ss" "merge_sources ss = map Ok xs"
    using xs(1-3) by (cases "scan_sources E s p lo' hi'") auto
  define ys where "ys = map (\<lambda>(k, v). (drop ?n k, v)) xs"
  have key: "\<exists>k. x = tprefix t @ k \<and> in_range lo hi k" if "x \<in> fst ` set xs" for x
  proof -
    have "map_of xs x \<noteq> None" using that by (simp add: map_of_eq_None_iff)
    then show ?thesis using xs(5) b(2) by (metis)
  qed
  have "map (\<lambda>r. bind_res r (\<lambda>(k, v). if ?n \<le> length k then Ok (drop ?n k, v) else Panic)) (map Ok xs) = map Ok ys"
    using key by (fastforce simp: ys_def)
  then have "scan_table E s p t lo hi = Ok (map Ok ys)"
    using b(1) t ss by (simp add: scan_table_def del: map_map)
  moreover have xs_ys: "xs = map (\<lambda>(k, v). (tprefix t @ k, v)) ys"
    unfolding ys_def map_map by (rule sym, rule map_idI) (use key in fastforce)
  have "sorted_keys ys"
  proof -
    have "sorted_wrt (\<lambda>a b. tprefix t @ a < tprefix t @ b) (map fst ys)"
      using xs(4) unfolding xs_ys by (simp add: sorted_wrt_map case_prod_beta)
    then show ?thesis by simp
  qed
  moreover have "map_of ys k = map_of xs (tprefix t @ k)" for k
    unfolding xs_ys by (induction ys) auto
  then have "map_of ys = (\<lambda>k. if in_range lo hi k then layers_view ?ls (tprefix t @ k) else None)"
    using xs(5) b(2) by auto
  ultimately show ?thesis
    by (auto simp: range_of_def)
qed

section \<open>The transactions meet the storage contract\<close>

definition tx_view :: "ext \<Rightarrow> read_snapshot \<Rightarrow> pending option \<Rightarrow> store" where
  "tx_view E s p t k = (if lsm_tbl_ok t then layers_view (tx_layers E s p) (tprefix t @ k) else None)"

lemma tx_view_ok: "lsm_tbl_ok t \<Longrightarrow> tx_view E s p t = (\<lambda>k. layers_view (tx_layers E s p) (tprefix t @ k))"
  by (simp add: tx_view_def fun_eq_iff)

lemma lsm_tx_reads:
  assumes ok: "tx_ok E s p" and t: "lsm_tbl_ok t"
  shows "bind_res (encode_key t k) (lookup E s p) = Ok (tx_view E s p t k)"
    and "\<exists>xs. bind_res (scan_table E s p t lo hi) (traverse (\<lambda>x. x)) = Ok xs \<and> scan_table E s p t lo hi = Ok (map Ok xs)
      \<and> range_of (tx_view E s p t) lo hi xs"
  using lookup_ok [OF ok] scan_table_ok [OF ok t, of lo hi] t by (auto simp: tx_view_ok)

interpretation lsm_r: storage_read "lsm_read_ops E" "\<lambda>r. snap_ok E (lr_snapshot r)" lsm_tbl_ok
    "\<lambda>r. tx_view E (lr_snapshot r) None" for E
proof
  fix r :: lsm_read_tx and t k lo hi xs
  assume "snap_ok E (lr_snapshot r)" and t: "lsm_tbl_ok t"
  then have "tx_ok E (lr_snapshot r) None" by (simp add: tx_ok_def)
  note rd = lsm_tx_reads [OF this t]
  show "s_get (lsm_read_ops E) r t k = Ok (tx_view E (lr_snapshot r) None t k)"
    using rd(1) by (simp add: lsm_read_ops_def lsm_read_get_def)
  show "\<exists>xs. s_range (lsm_read_ops E) r t lo hi = Ok xs \<and> range_of (tx_view E (lr_snapshot r) None t) lo hi xs"
    using rd(2) [of lo hi] by (auto simp: lsm_read_ops_def lsm_read_range_def)
  show "s_scan (lsm_read_ops E) r t lo hi = Ok (map Ok xs)" if "s_range (lsm_read_ops E) r t lo hi = Ok xs"
    using rd(2) [of lo hi] that by (auto simp: lsm_read_ops_def lsm_read_range_def lsm_read_scan_def)
qed

definition lsm_tx_ok :: "ext \<Rightarrow> lsm_write_tx \<Rightarrow> bool" where
  "lsm_tx_ok E w \<longleftrightarrow> tx_ok E (lw_snapshot w) (Some (lw_pending w))"

definition lsm_view :: "ext \<Rightarrow> lsm_write_tx \<Rightarrow> store" where
  "lsm_view E w = tx_view E (lw_snapshot w) (Some (lw_pending w))"

lemma tx_view_pending:
  "tx_view E s (Some p) t k = (if lsm_tbl_ok t then (case map_of p (tprefix t @ k) of Some v \<Rightarrow> v | None \<Rightarrow> tx_view E s None t k) else None)"
  by (simp add: tx_view_def tx_layers_def layers_view_def split: option.split)

lemma lsm_view_put:
  assumes "lsm_tbl_ok t"
  shows "lsm_view E (w\<lparr>lw_pending := bt_insert (tprefix t @ k) v (lw_pending w)\<rparr>) = (lsm_view E w)(t := (lsm_view E w t)(k := v))"
proof (intro ext)
  fix t' k'
  show "lsm_view E (w\<lparr>lw_pending := bt_insert (tprefix t @ k) v (lw_pending w)\<rparr>) t' k'
      = ((lsm_view E w)(t := (lsm_view E w t)(k := v))) t' k'"
  proof (cases "t' = t \<or> \<not> lsm_tbl_ok t'")
    case True
    then show ?thesis using assms by (auto simp: lsm_view_def tx_view_pending)
  next
    case False
    then have "tprefix t' @ k' \<noteq> tprefix t @ k" using tprefix_inject [OF assms, of t' k k'] by auto
    then show ?thesis using False by (simp add: lsm_view_def tx_view_pending)
  qed
qed

interpretation lsm_w: storage_write "lsm_write_ops E" "lsm_tx_ok E" lsm_tbl_ok "lsm_view E" for E
proof
  fix w :: lsm_write_tx and t k v lo hi xs
  assume w: "lsm_tx_ok E w" and t: "lsm_tbl_ok t"
  note rd = lsm_tx_reads [OF w [unfolded lsm_tx_ok_def] t]
  show "s_get (lsm_write_ops E) w t k = Ok (lsm_view E w t k)"
    using rd(1) by (simp add: lsm_write_ops_def lsm_write_get_def lsm_view_def)
  show "\<exists>xs. s_range (lsm_write_ops E) w t lo hi = Ok xs \<and> range_of (lsm_view E w t) lo hi xs"
    using rd(2) [of lo hi] by (auto simp: lsm_write_ops_def lsm_write_range_def lsm_view_def)
  show "s_scan (lsm_write_ops E) w t lo hi = Ok (map Ok xs)" if "s_range (lsm_write_ops E) w t lo hi = Ok xs"
    using rd(2) [of lo hi] that by (auto simp: lsm_write_ops_def lsm_write_range_def lsm_write_scan_def)
  show "\<exists>w'. s_put (lsm_write_ops E) w t k v = Ok w' \<and> lsm_tx_ok E w' \<and> lsm_view E w' = (lsm_view E w)(t := (lsm_view E w t)(k \<mapsto> v))"
    using w t lsm_view_put [OF t] by (simp add: lsm_write_ops_def lsm_put_def lsm_tx_ok_def tx_ok_def)
  show "\<exists>w'. s_delete (lsm_write_ops E) w t k = Ok w' \<and> lsm_tx_ok E w' \<and> lsm_view E w' = (lsm_view E w)(t := (lsm_view E w t)(k := None))"
    using w t lsm_view_put [OF t] by (simp add: lsm_write_ops_def lsm_delete_def lsm_tx_ok_def tx_ok_def)
qed

end
