(* ===== verification/Lsm_Recovery.thy ===== *)
theory Lsm_Recovery
  imports Lsm_Read
begin

text \<open>
  Durability of the LSM engine. \<open>lsm_inv\<close> ties the in-memory state to the container file: the
  header in force points at a manifest that lists the open SSTables, and the log behind it replays
  to the active memtable. Opening such a file, also with the remains of an interrupted write at its
  end, recovers the state; commit, flush, compaction and backup keep the contents.
\<close>

section \<open>The invariant\<close>

definition disk_ok :: "ext \<Rightarrow> bytes \<Rightarrow> u64 \<Rightarrow> byte \<Rightarrow> u64 \<Rightarrow> manifest \<Rightarrow> wal_record list \<Rightarrow> bool" where
  "disk_ok E f seq slot mlen m rs \<longleftrightarrow> length f < 2 ^ 64 \<and>
    (\<exists>hs pre mb wal. header_is E f hs \<and> hs_seq hs = seq \<and> hs_slot hs = slot \<and> hs_manifest_len hs = mlen \<and>
      f = pre @ mb @ wal \<and> 128 \<le> length pre \<and>
      hs_manifest_offset hs = word_of_nat (length pre) \<and> hs_manifest_len hs = word_of_nat (length mb) \<and>
      hs_manifest_crc hs = Some (crc32 E mb) \<and> deserialize (manifest_codec E) mb = Some m \<and>
      mf_wal_region_start m = word_of_nat (length (pre @ mb)) \<and> frames E rs wal)"

definition ssts_ok :: "ext \<Rightarrow> bytes \<Rightarrow> sstable list \<Rightarrow> u64 \<Rightarrow> bool" where
  "ssts_ok E f hs next_id \<longleftrightarrow> (\<forall>h\<in>set hs. sst_good E h \<and> stored E f h (sst_entries E h) \<and> sh_generation h < next_id \<and>
      sh_entry_count h = Some (word_of_nat (length (sst_entries E h)))) \<and>
    sorted_wrt (<) (map sh_generation hs)"

definition lsm_inv :: "ext \<Rightarrow> lsm_backend \<Rightarrow> bool" where
  "lsm_inv E b \<longleftrightarrow>
    (\<exists>m rs. disk_ok E (lb_file b) (lb_header_seq b) (lb_header_slot b) (es_manifest_len (lb_state b)) m rs \<and>
      (\<forall>r\<in>set rs. sorted_keys r) \<and>
      es_active_memtable (lb_state b) = fold apply_pending rs [] \<and>
      mf_next_sstable_id m = es_next_sstable_id (lb_state b) \<and>
      mf_sstables m = map ref_of (es_sstables (lb_state b)) \<and>
      mf_wal_region_start m = es_wal_region_start (lb_state b)) \<and>
    es_immutable_memtables (lb_state b) = [] \<and>
    ssts_ok E (lb_file b) (es_sstables (lb_state b)) (es_next_sstable_id (lb_state b))"

definition lsm_bview :: "ext \<Rightarrow> lsm_backend \<Rightarrow> store" where
  "lsm_bview E b = tx_view E (lsm_snapshot b) None"

section \<open>Memtables and layers\<close>

lemma sorted_apply_pending: "sorted_keys m \<Longrightarrow> sorted_keys (apply_pending es m)"
  unfolding apply_pending_def by (induction es arbitrary: m) auto

lemma sorted_replayed: "sorted_keys m \<Longrightarrow> sorted_keys (fold apply_pending rs m)"
  by (induction rs arbitrary: m) (simp_all add: sorted_apply_pending)

lemma map_of_apply_pending:
  "sorted_keys es \<Longrightarrow> map_of (apply_pending es m) k = (case map_of es k of Some v \<Rightarrow> Some (to_value v) | None \<Rightarrow> map_of m k)"
  unfolding apply_pending_def
proof (induction es arbitrary: m)
  case (Cons e es)
  obtain k' v where e: "e = (k', v)" by (metis surj_pair)
  have "map_of es k' = None" using Cons.prems e map_of_below [of k' v es k'] by simp
  then show ?case using Cons e by (auto split: option.split)
qed simp

lemma layers_get_apply_pending:
  "sorted_keys es \<Longrightarrow> layers_get (apply_pending es m # ls) k = layers_get (pending_layer es # m # ls) k"
  by (simp add: map_of_apply_pending split: option.split)

lemma layers_get_Nil_layer [simp]: "layers_get ([] # ls) k = layers_get ls k"
  by simp

lemma tx_view_layers: "tx_layers E s p = ls \<Longrightarrow> tx_view E s p t k = (if lsm_tbl_ok t then layers_view ls (tprefix t @ k) else None)"
  by (simp add: tx_view_def)

lemma lsm_bview_eqI:
  assumes "\<And>k. layers_view (tx_layers E (lsm_snapshot b) None) k = layers_view (tx_layers E s p) k"
  shows "lsm_bview E b = tx_view E s p"
  using assms by (simp add: lsm_bview_def tx_view_def fun_eq_iff)

lemma lsm_inv_snap_ok: "lsm_inv E b \<Longrightarrow> snap_ok E (lsm_snapshot b)"
  by (auto simp: lsm_inv_def snap_ok_def lsm_snapshot_def ssts_ok_def sorted_replayed)

section \<open>Files\<close>

lemma write_at_end: "offset = length f \<Longrightarrow> write_at f offset bs = f @ bs"
  by (simp add: write_at_def)

lemma write_blob_at_end: "length f < 2 ^ 64 \<Longrightarrow> offset = word_of_nat (length f) \<Longrightarrow> write_blob_at f offset bs = f @ bs"
  by (simp add: write_blob_at_def write_at_end unat_of_nat)

lemma write_at_append: "p + length buf \<le> length f \<Longrightarrow> write_at (f @ g) p buf = write_at f p buf @ g"
  by (simp add: write_at_def)

text \<open>Rewriting a header slot keeps everything behind the header.\<close>

lemma write_slot_split:
  assumes "128 \<le> length f" "s = 0 \<or> s = (1 :: byte)" "length buf = 64"
  shows "write_at f (unat s * 64) buf = take 128 (write_at f (unat s * 64) buf) @ drop 128 f"
  using write_at_slot(3) [OF assms] by (metis append_take_drop_id)

lemma stored_write_slot:
  assumes "stored E f h es" "128 \<le> length f" "s = 0 \<or> s = (1 :: byte)" "length buf = 64"
  shows "stored E (write_at f (unat s * 64) buf) h es"
proof -
  have "length (take 128 (write_at f (unat s * 64) buf)) = 128"
    using write_at_slot(4) [OF assms(2-4)] assms(2) by simp
  then show ?thesis
    using stored_header [OF assms(1), of "take 128 (write_at f (unat s * 64) buf)"] write_slot_split [OF assms(2-4)] by simp
qed

lemma stored_entries: "stored E f h es \<Longrightarrow> sst_entries E (h\<lparr>sh_mmap := f\<rparr>) = es" "stored E f h es \<Longrightarrow> sst_good E (h\<lparr>sh_mmap := f\<rparr>)"
proof -
  assume "stored E f h es"
  then obtain bss where "sst_repr E (h\<lparr>sh_mmap := f\<rparr>) es bss"
    using stored_repr [of E f "h\<lparr>sh_mmap := f\<rparr>" es] by auto
  then show "sst_entries E (h\<lparr>sh_mmap := f\<rparr>) = es" "sst_good E (h\<lparr>sh_mmap := f\<rparr>)"
    using sst_entries_repr sst_goodI by blast+
qed

lemma stored_entries_self: "stored E f h es \<Longrightarrow> sh_mmap h = f \<Longrightarrow> sst_entries E h = es \<and> sst_good E h"
  using stored_repr sst_entries_repr sst_goodI by blast

section \<open>Opening\<close>

lemma sort_key_sorted:
  assumes "sorted_wrt (<) (map f xs)"
  shows "sort_key f xs = (xs :: 'a list)"
proof -
  have "sorted (map f xs)" using assms by (rule strict_sorted_imp_sorted)
  then show ?thesis by (rule sort_key_id_if_sorted)
qed

lemma open_sstables:
  assumes "\<forall>h\<in>set hs. stored E f h (sst_entries E h)"
  shows "traverse (\<lambda>r. sst_open E f (sr_generation r) (sr_offset r) (sr_length r)) (map ref_of hs)
    = Ok (map (\<lambda>h. h\<lparr>sh_mmap := f\<rparr>) hs)"
  using assms by (induction hs) (auto simp: ref_of_def stored_open)

lemma lsm_open_disk:
  assumes E: "ext_ok E" and disk: "disk_ok E f seq slot mlen m rs" and refs: "mf_sstables m = map ref_of hs"
    and hs: "\<forall>h\<in>set hs. stored E f h (sst_entries E h)" and sorted: "sorted_wrt (<) (map sh_generation hs)"
    and tail: "no_frame E tail" "length (f @ tail) < 2 ^ 64"
  shows "lsm_open E (f @ tail) options = Ok \<lparr>lb_options = options,
    lb_state = \<lparr>es_active_memtable = fold apply_pending rs [], es_immutable_memtables = [],
      es_sstables = map (\<lambda>h. h\<lparr>sh_mmap := f\<rparr>) hs, es_next_sstable_id = mf_next_sstable_id m,
      es_wal_region_start = mf_wal_region_start m, es_manifest_len = mlen\<rparr>,
    lb_file = f, lb_header_seq = seq, lb_header_slot = slot\<rparr>"
proof -
  obtain hd pre mb wal where d: "header_is E f hd" "hs_seq hd = seq" "hs_slot hd = slot" "hs_manifest_len hd = mlen"
      "f = pre @ mb @ wal" "hs_manifest_offset hd = word_of_nat (length pre)" "hs_manifest_len hd = word_of_nat (length mb)"
      "hs_manifest_crc hd = Some (crc32 E mb)" "deserialize (manifest_codec E) mb = Some m"
      "mf_wal_region_start m = word_of_nat (length (pre @ mb))" "frames E rs wal" "length f < 2 ^ 64"
    using disk by (auto simp: disk_ok_def)
  have "read_header E (f @ tail) = Ok (Some hd)"
    using header_is_append [OF d(1)] by (rule read_header_is)
  moreover have "read_manifest E (f @ tail) hd = Ok mb"
    using d by (intro read_manifest_ok [where pre = pre and rest = "wal @ tail"]) simp_all
  moreover have "manifest_decode E mb = Ok m" using d(9) by (simp add: manifest_decode_def)
  moreover have "replay_from E (f @ tail) (mf_wal_region_start m) = Ok (rs, word_of_nat (length f))"
    using replay_from_frames [OF E d(11) tail(1), of "pre @ mb"] tail(2) d(5,10) by simp
  moreover have "(if unat (word_of_nat (length f) :: u64) < length (f @ tail) then take (unat (word_of_nat (length f) :: u64)) (f @ tail)
      else f @ tail) = f"
    using d(12) by (simp add: unat_of_nat)
  moreover have "sort_key sh_generation (map (\<lambda>h. h\<lparr>sh_mmap := f\<rparr>) hs) = map (\<lambda>h. h\<lparr>sh_mmap := f\<rparr>) hs"
    using sorted by (intro sort_key_sorted) (simp add: o_def)
  ultimately show ?thesis
    using d(2-4) refs open_sstables [OF hs] by (simp add: lsm_open_def Let_def)
qed

lemma ssts_ok_reopen:
  assumes "ssts_ok E f hs n"
  shows "ssts_ok E f (map (\<lambda>h. h\<lparr>sh_mmap := f\<rparr>) hs) n"
    and "map (sst_entries E) (map (\<lambda>h. h\<lparr>sh_mmap := f\<rparr>) hs) = map (sst_entries E) hs"
proof -
  have "sst_entries E (h\<lparr>sh_mmap := f\<rparr>) = sst_entries E h" "sst_good E (h\<lparr>sh_mmap := f\<rparr>)" if "h \<in> set hs" for h
    using assms that stored_entries [of E f h "sst_entries E h"] by (auto simp: ssts_ok_def)
  then show "ssts_ok E f (map (\<lambda>h. h\<lparr>sh_mmap := f\<rparr>) hs) n"
    and "map (sst_entries E) (map (\<lambda>h. h\<lparr>sh_mmap := f\<rparr>) hs) = map (sst_entries E) hs"
    using assms by (auto simp: ssts_ok_def o_def)
qed

text \<open>Recovery: the file of a consistent backend, followed by bytes that are no log frame, opens to a
  backend with the same contents, and the trailing bytes are cut off.\<close>

lemma lsm_open_recovers:
  assumes E: "ext_ok E" and inv: "lsm_inv E b" and tail: "no_frame E tail" "length (lb_file b @ tail) < 2 ^ 64"
  shows "\<exists>b'. lsm_open E (lb_file b @ tail) options = Ok b' \<and> lsm_inv E b' \<and> lsm_bview E b' = lsm_bview E b \<and>
    lb_file b' = lb_file b \<and> lb_options b' = options"
proof -
  obtain m rs where d: "disk_ok E (lb_file b) (lb_header_seq b) (lb_header_slot b) (es_manifest_len (lb_state b)) m rs"
      "\<forall>r\<in>set rs. sorted_keys r" "es_active_memtable (lb_state b) = fold apply_pending rs []"
      "mf_next_sstable_id m = es_next_sstable_id (lb_state b)" "mf_sstables m = map ref_of (es_sstables (lb_state b))"
      "mf_wal_region_start m = es_wal_region_start (lb_state b)"
    and ssts: "ssts_ok E (lb_file b) (es_sstables (lb_state b)) (es_next_sstable_id (lb_state b))"
    and imm: "es_immutable_memtables (lb_state b) = []"
    using inv unfolding lsm_inv_def by blast
  let ?hs = "map (\<lambda>h. h\<lparr>sh_mmap := lb_file b\<rparr>) (es_sstables (lb_state b))"
  let ?b = "\<lparr>lb_options = options,
    lb_state = \<lparr>es_active_memtable = fold apply_pending rs [], es_immutable_memtables = [],
      es_sstables = ?hs, es_next_sstable_id = mf_next_sstable_id m,
      es_wal_region_start = mf_wal_region_start m, es_manifest_len = es_manifest_len (lb_state b)\<rparr>,
    lb_file = lb_file b, lb_header_seq = lb_header_seq b, lb_header_slot = lb_header_slot b\<rparr>"
  have "lsm_open E (lb_file b @ tail) options = Ok ?b"
    using ssts by (intro lsm_open_disk [OF E d(1) d(5) _ _ tail]) (simp_all add: ssts_ok_def)
  moreover have "lsm_inv E ?b"
    unfolding lsm_inv_def using d ssts_ok_reopen(1) [OF ssts]
    by (simp add: ref_of_def [abs_def] o_def) (intro exI [of _ m] exI [of _ rs], simp)
  moreover have "lsm_bview E ?b = lsm_bview E b"
    unfolding lsm_bview_def [of E b]
    using ssts_ok_reopen(2) [OF ssts] d(3) imm
    by (intro lsm_bview_eqI) (simp add: tx_layers_def snap_layers_def lsm_snapshot_def rev_map [symmetric] del: map_map)
  ultimately show ?thesis by auto
qed

section \<open>Commit\<close>

lemma disk_ok_append:
  assumes "disk_ok E f seq slot mlen m rs" "wal_frame E r = Ok fr" "length (f @ fr) < 2 ^ 64"
  shows "disk_ok E (f @ fr) seq slot mlen m (rs @ [r])"
proof -
  have fr: "frames E [r] fr" using assms(2) by simp
  obtain hd pre mb wal where d: "header_is E f hd" "hs_seq hd = seq" "hs_slot hd = slot" "hs_manifest_len hd = mlen"
      "f = pre @ mb @ wal" "128 \<le> length pre" "hs_manifest_offset hd = word_of_nat (length pre)" "hs_manifest_len hd = word_of_nat (length mb)"
      "hs_manifest_crc hd = Some (crc32 E mb)" "deserialize (manifest_codec E) mb = Some m"
      "mf_wal_region_start m = word_of_nat (length (pre @ mb))" "frames E rs wal"
    using assms(1) by (auto simp: disk_ok_def)
  show ?thesis
    unfolding disk_ok_def
    using d assms(3) header_is_append [OF d(1), of fr] frames_appendI [OF d(12) fr]
    by (intro conjI exI [of _ hd] exI [of _ pre] exI [of _ mb] exI [of _ "wal @ fr"]) simp_all
qed

definition logged :: "lsm_backend \<Rightarrow> pending \<Rightarrow> bytes \<Rightarrow> lsm_backend" where
  "logged b p fr = b\<lparr>lb_file := lb_file b @ fr,
     lb_state := (lb_state b)\<lparr>es_active_memtable := apply_pending p (es_active_memtable (lb_state b))\<rparr>\<rparr>"

lemma logged_ok:
  assumes inv: "lsm_inv E b" and p: "sorted_keys p" and fr: "wal_frame E p = Ok fr" "length (lb_file b @ fr) < 2 ^ 64"
  shows "lsm_inv E (logged b p fr)" and "lsm_bview E (logged b p fr) = tx_view E (lsm_snapshot b) (Some p)"
proof -
  obtain m rs where d: "disk_ok E (lb_file b) (lb_header_seq b) (lb_header_slot b) (es_manifest_len (lb_state b)) m rs"
      "\<forall>r\<in>set rs. sorted_keys r" "es_active_memtable (lb_state b) = fold apply_pending rs []"
      "mf_next_sstable_id m = es_next_sstable_id (lb_state b)" "mf_sstables m = map ref_of (es_sstables (lb_state b))"
      "mf_wal_region_start m = es_wal_region_start (lb_state b)"
    and ssts: "ssts_ok E (lb_file b) (es_sstables (lb_state b)) (es_next_sstable_id (lb_state b))"
    and imm: "es_immutable_memtables (lb_state b) = []"
    using inv unfolding lsm_inv_def by blast
  have "ssts_ok E (lb_file b @ fr) (es_sstables (lb_state b)) (es_next_sstable_id (lb_state b))"
    using ssts stored_append by (auto simp: ssts_ok_def)
  then show "lsm_inv E (logged b p fr)"
    unfolding lsm_inv_def logged_def using d imm disk_ok_append [OF d(1) fr] p
    by (simp add: del: fold_simps) (intro exI [of _ m] exI [of _ "rs @ [p]"], simp)
  show "lsm_bview E (logged b p fr) = tx_view E (lsm_snapshot b) (Some p)"
    using layers_get_apply_pending [OF p]
    by (intro lsm_bview_eqI) (simp add: tx_layers_def snap_layers_def lsm_snapshot_def logged_def layers_view_def imm)
qed

section \<open>New containers: bootstrap, compaction, backup\<close>

lemma fresh_header:
  "header_is E (fst (write_header E (replicate 128 0 @ g) 0 1 off m)) (slot_of E 0 1 off m)"
proof -
  let ?f = "replicate 128 (0 :: byte) @ g" and ?buf = "encode_slot E 1 off m"
  have w: "slot_at (write_at ?f (unat (0 :: byte) * 64) ?buf) 0 = ?buf"
    "slot_at (write_at ?f (unat (0 :: byte) * 64) ?buf) (1 - 0) = slot_at ?f (1 - 0)"
    "length (write_at ?f (unat (0 :: byte) * 64) ?buf) = length ?f"
    using write_at_slot [of ?f 0 ?buf] by simp_all
  have "decode_slot E 1 (slot_at ?f 1) = Ok None"
    by (rule decode_slot_not_magic) (simp add: slot_at_def)
  then show ?thesis
    using w decode_encode_slot [of E 0 1 off m]
    by (simp add: header_is_def write_header_def Let_def slot_of_def HEADER_SLOT_LEN_def)
qed

lemma write_header_append:
  assumes "128 \<le> length f" "prev = 0 \<or> prev = (1 :: byte)"
  shows "fst (write_header E (f @ g) seq prev off m) = fst (write_header E f seq prev off m) @ g"
    and "length (fst (write_header E f seq prev off m)) = length f"
    and "stored E f h es \<Longrightarrow> stored E (fst (write_header E f seq prev off m)) h es"
proof -
  note s = new_slot_cases(1) [OF assms(2)]
  show "fst (write_header E (f @ g) seq prev off m) = fst (write_header E f seq prev off m) @ g"
    using assms(1) s by (auto simp: write_header_def Let_def HEADER_SLOT_LEN_def write_at_append)
  show "length (fst (write_header E f seq prev off m)) = length f"
    using write_at_slot(4) [OF assms(1) s] by (simp add: write_header_def Let_def HEADER_SLOT_LEN_def)
  show "stored E f h es \<Longrightarrow> stored E (fst (write_header E f seq prev off m)) h es"
    using stored_write_slot [OF _ assms(1) s] by (simp add: write_header_def Let_def HEADER_SLOT_LEN_def)
qed

text \<open>The two-pass encoding of a manifest whose log offset depends on its own length.\<close>

lemma manifest_two_pass:
  assumes "ext_ok E"
  obtains p bytes where "manifest_encode E m0 = Ok p" "manifest_encode E (m0\<lparr>mf_wal_region_start := g (length p)\<rparr>) = Ok bytes"
    "length bytes = length p" "deserialize (manifest_codec E) bytes = Some (m0\<lparr>mf_wal_region_start := g (length p)\<rparr>)"
    "serialize (manifest_codec E) (m0\<lparr>mf_wal_region_start := g (length p)\<rparr>) = Some bytes"
proof -
  obtain p where p: "serialize (manifest_codec E) m0 = Some p"
    using ext_ok_simps(5) [OF assms] by (rule codec_okE)
  obtain bytes where b: "serialize (manifest_codec E) (m0\<lparr>mf_wal_region_start := g (length p)\<rparr>) = Some bytes"
      "deserialize (manifest_codec E) bytes = Some (m0\<lparr>mf_wal_region_start := g (length p)\<rparr>)"
    using ext_ok_simps(5) [OF assms] by (rule codec_okE)
  show thesis
    using that [of p bytes] p b ext_ok_manifest_length [OF assms p b(1)] by (simp add: manifest_encode_def)
qed

text \<open>\<open>small E es n k\<close>: a file of \<open>n\<close> bytes has room, within 64-bit offsets, for an SSTable with the
  entries \<open>es\<close> and a manifest of at most \<open>k\<close> SSTables.\<close>

definition small :: "ext \<Rightarrow> entry list \<Rightarrow> nat \<Rightarrow> nat \<Rightarrow> bool" where
  "small E es n k \<longleftrightarrow> (\<forall>h blob m bytes. blob_of E h es blob \<longrightarrow> serialize (manifest_codec E) m = Some bytes \<longrightarrow>
     length (mf_sstables m) \<le> k \<longrightarrow> n + length blob + length bytes < 2 ^ 64)"

definition vals :: "(bytes \<times> bytes) list \<Rightarrow> entry list" where
  "vals xs = map (\<lambda>(k, v). (k, Value v)) xs"

lemma vals_simps [simp]: "sorted_keys (vals xs) = sorted_keys xs" "map_of (vals xs) k = map_option Value (map_of xs k)"
  unfolding vals_def by (rule sorted_map_values, rule map_of_map_values)

lemma map_value_iter: "map (\<lambda>r. bind_res r (\<lambda>(k, v). Ok (k, Value v))) (map Ok xs) = map Ok (vals xs)"
  by (auto simp: vals_def)

lemma fresh_container_ok:
  assumes E: "ext_ok E" and sorted: "sorted_keys xs" and fits: "\<forall>e\<in>set (vals xs). fits_block opts e"
    and small: "small E (vals xs) 128 1"
  shows "\<exists>c. write_fresh_container E gen (map Ok xs) n opts = Ok c \<and>
    disk_ok E (fc_file c) 1 0 (fc_manifest_len c) (fc_manifest c) [] \<and> mf_next_sstable_id (fc_manifest c) = gen + 1 \<and>
    mf_sstables (fc_manifest c) = [ref_of (fc_handle c)] \<and> sst_entries E (fc_handle c) = vals xs \<and>
    sst_good E (fc_handle c) \<and> stored E (fc_file c) (fc_handle c) (vals xs) \<and> sh_generation (fc_handle c) = gen \<and>
    sh_entry_count (fc_handle c) = Some (word_of_nat (length xs))"
proof -
  let ?f0 = "replicate 128 (0 :: byte)"
  obtain h blob where w: "sst_write E ?f0 gen (map Ok (vals xs)) n opts = Ok (?f0 @ blob, h)" "sh_mmap h = ?f0 @ blob"
      "sh_generation h = gen" "sh_base_offset h = word_of_nat 128" "sh_blob_len h = word_of_nat (length blob)"
      "sh_entry_count h = Some (word_of_nat (length (vals xs)))" "blob_of E h (vals xs) blob"
    using sst_write_ok [OF E fits, of ?f0 gen n] sorted by auto
  let ?m0 = "\<lparr>mf_next_sstable_id = gen + 1, mf_sstables = [ref_of h], mf_wal_region_start = 0\<rparr>"
  let ?off = "sh_base_offset h + sh_blob_len h"
  obtain p bytes where mb: "manifest_encode E ?m0 = Ok p"
      "manifest_encode E (?m0\<lparr>mf_wal_region_start := ?off + word_of_nat (length p)\<rparr>) = Ok bytes" "length bytes = length p"
      "deserialize (manifest_codec E) bytes = Some (?m0\<lparr>mf_wal_region_start := ?off + word_of_nat (length p)\<rparr>)"
      "serialize (manifest_codec E) (?m0\<lparr>mf_wal_region_start := ?off + word_of_nat (length p)\<rparr>) = Some bytes"
    using manifest_two_pass [OF E, of ?m0 "\<lambda>n. ?off + word_of_nat n"] by blast
  let ?m = "?m0\<lparr>mf_wal_region_start := ?off + word_of_nat (length p)\<rparr>"
  have len: "128 + length blob + length bytes < 2 ^ 64"
    using small [unfolded small_def, rule_format, OF w(7) mb(5)] by simp
  let ?f1 = "?f0 @ blob" 
  let ?f2 = "fst (write_header E ?f1 0 1 ?off bytes)"
  have off: "?off = word_of_nat (length ?f1)" using w(4,5) by simp
  have blobat: "write_blob_at ?f1 ?off bytes = ?f1 @ bytes"
    using len off by (intro write_blob_at_end) simp_all
  have hdr: "fst (write_header E (?f1 @ bytes) 0 1 ?off bytes) = ?f2 @ bytes" "length ?f2 = length ?f1"
    using write_header_append(1) [where f = ?f1 and prev = 1] write_header_append(2) [where f = ?f1 and prev = 1] by simp_all
  let ?c = "\<lparr>fc_file = ?f2 @ bytes, fc_handle = h, fc_manifest = ?m, fc_manifest_len = word_of_nat (length bytes)\<rparr>"
  have "write_fresh_container E gen (map Ok xs) n opts = Ok ?c"
    unfolding write_fresh_container_def map_value_iter Let_def BODY_START_def
    using w(1) mb(1,2) blobat hdr(1) by simp
  moreover have "stored E ?f1 h (vals xs)"
    unfolding stored_def using w len by (intro exI [of _ ?f0] exI [of _ blob] exI [of _ "[]"]) simp
  then have st: "stored E (?f2 @ bytes) h (vals xs)" "sst_good E h" "sst_entries E h = vals xs"
    using write_header_append(3) [where f = ?f1 and prev = 1 and h = h and es = "vals xs"] stored_append stored_entries_self [of E ?f1 h "vals xs"] w(2) by auto
  moreover have "disk_ok E (?f2 @ bytes) 1 0 (word_of_nat (length bytes)) ?m []"
    unfolding disk_ok_def
    using fresh_header [of E "blob @ bytes" ?off bytes] hdr len off mb(3,4)
    by (intro conjI exI [of _ "slot_of E 0 1 ?off bytes"] exI [of _ ?f2] exI [of _ bytes] exI [of _ "[]"])
      (simp_all add: slot_of_def)
  ultimately show ?thesis
    using w by (intro exI [of _ ?c]) (simp add: vals_def)
qed

section \<open>Compaction\<close>

text \<open>The live pairs of a stack of layers, as the merge yields them.\<close>

definition live_pairs :: "entry list list \<Rightarrow> (bytes \<times> bytes) list" where
  "live_pairs ls = concat (map (\<lambda>r. case r of Ok x \<Rightarrow> [x] | _ \<Rightarrow> []) (merge_sources (map (map Ok) ls)))"

lemma live_pairs_ok:
  assumes "\<forall>l\<in>set ls. sorted_keys l"
  shows "merge_sources (map (map Ok) ls) = map Ok (live_pairs ls)" "sorted_keys (live_pairs ls)"
    "map_of (live_pairs ls) = layers_view ls"
proof -
  obtain xs where xs: "merge_sources (map (map Ok) ls) = map Ok xs" "sorted_keys xs" "map_of xs = layers_view ls"
    using merge_sources_ok [OF assms] by blast
  moreover have "live_pairs ls = xs" using xs(1) by (simp add: live_pairs_def o_def)
  ultimately show "merge_sources (map (map Ok) ls) = map Ok (live_pairs ls)" "sorted_keys (live_pairs ls)"
    "map_of (live_pairs ls) = layers_view ls" by simp_all
qed

definition sst_layers :: "ext \<Rightarrow> lsm_backend \<Rightarrow> entry list list" where
  "sst_layers E b = map (sst_entries E) (rev (es_sstables (lb_state b)))"

definition compact_room :: "ext \<Rightarrow> write_options \<Rightarrow> entry list list \<Rightarrow> bool" where
  "compact_room E opts ls \<longleftrightarrow> (\<forall>e\<in>set (vals (live_pairs ls)). fits_block opts e) \<and> small E (vals (live_pairs ls)) 128 1"

lemma layers_view_vals: "layers_view [vals xs] k = map_of xs k"
  by (simp add: layers_view_def live_def split: option.split)

lemma layers_view_Nil_layer [simp]: "layers_view ([] # ls) k = layers_view ls k"
  by (simp add: layers_view_def)

lemma compact_all_ok:
  assumes E: "ext_ok E" and inv: "lsm_inv E b" and act: "es_active_memtable (lb_state b) = []"
    and room: "compact_room E (lsm_write_options b) (sst_layers E b)" and id: "es_next_sstable_id (lb_state b) \<noteq> -1"
  shows "\<exists>b'. compact_all E force b = Ok b' \<and> lsm_inv E b' \<and> lsm_bview E b' = lsm_bview E b \<and>
    es_active_memtable (lb_state b') = [] \<and> lb_options b' = lb_options b"
proof (cases "2 \<le> length (es_sstables (lb_state b)) \<or> (force \<and> es_sstables (lb_state b) \<noteq> [])")
  case False
  then show ?thesis using inv act by (auto simp: compact_all_def Let_def)
next
  case True
  let ?ls = "sst_layers E b" and ?hs = "es_sstables (lb_state b)" and ?gen = "es_next_sstable_id (lb_state b)"
  have good: "sst_good E h" if "h \<in> set ?hs" for h
    using inv that by (auto simp: lsm_inv_def ssts_ok_def)
  have imm: "es_immutable_memtables (lb_state b) = []" using inv by (simp add: lsm_inv_def)
  have "\<forall>l\<in>set ?ls. sorted_keys l" using good sst_good_facts(3) by (auto simp: sst_layers_def)
  note live = live_pairs_ok [OF this]
  have src: "map (\<lambda>h. cursor E h Unbounded Unbounded) (rev ?hs) = map (map Ok) ?ls"
    unfolding sst_layers_def map_map using good sst_good_facts(2) [of E _ Unbounded Unbounded]
    by (intro map_cong refl) (auto simp: o_def)
  let ?n = "unat (sum_list (map estimated_entries ?hs))"
  obtain c where c: "write_fresh_container E ?gen (map Ok (live_pairs ?ls)) ?n (lsm_write_options b) = Ok c"
      "disk_ok E (fc_file c) 1 0 (fc_manifest_len c) (fc_manifest c) []" "mf_next_sstable_id (fc_manifest c) = ?gen + 1"
      "mf_sstables (fc_manifest c) = [ref_of (fc_handle c)]" "sst_entries E (fc_handle c) = vals (live_pairs ?ls)"
      "sst_good E (fc_handle c)" "stored E (fc_file c) (fc_handle c) (vals (live_pairs ?ls))" "sh_generation (fc_handle c) = ?gen"
      "sh_entry_count (fc_handle c) = Some (word_of_nat (length (live_pairs ?ls)))"
    using fresh_container_ok [OF E live(2), of "lsm_write_options b" ?gen ?n] room by (auto simp: compact_room_def)
  let ?b = "b\<lparr>lb_file := fc_file c, lb_header_seq := 1, lb_header_slot := 0,
     lb_state := (lb_state b)\<lparr>es_next_sstable_id := mf_next_sstable_id (fc_manifest c), es_sstables := [fc_handle c],
       es_wal_region_start := mf_wal_region_start (fc_manifest c), es_manifest_len := fc_manifest_len c\<rparr>\<rparr>"
  have "compact_all E force b = Ok ?b"
    using True c(1) live(1) by (auto simp: compact_all_def Let_def src)
  moreover have "lsm_inv E ?b"
    unfolding lsm_inv_def using c act imm word_less_Suc [OF id]
    by (auto simp: ssts_ok_def vals_def intro!: exI [of _ "fc_manifest c"] exI [of _ "[]"])
  moreover have "lsm_bview E ?b = lsm_bview E b"
    unfolding lsm_bview_def [of E b]
    using act imm c(5) live(3)
    by (intro lsm_bview_eqI)
      (simp add: tx_layers_def snap_layers_def lsm_snapshot_def layers_view_vals sst_layers_def)
  ultimately show ?thesis using act by auto
qed

section \<open>Flush\<close>

text \<open>What a flush writes: the SSTable blob and the manifest behind the log, then the header.\<close>

lemma flush_writes:
  assumes E: "ext_ok E" and inv: "lsm_inv E b" and act: "es_active_memtable (lb_state b) \<noteq> []"
    and fits: "\<forall>e\<in>set (es_active_memtable (lb_state b)). fits_block (lsm_write_options b) e"
    and small: "small E (es_active_memtable (lb_state b)) (length (lb_file b)) (Suc (length (es_sstables (lb_state b))))"
    and ids: "es_next_sstable_id (lb_state b) \<noteq> -1" "lb_header_seq b \<noteq> -1"
  shows "\<exists>b2 blob bytes off.
    flush E b = (if lo_compaction_trigger_files (lb_options b) \<le> Suc (length (es_sstables (lb_state b)))
      then compact_all E False b2 else Ok b2) \<and>
    lb_file b2 = fst (write_header E (lb_file b @ blob @ bytes) (lb_header_seq b) (lb_header_slot b) off bytes) \<and>
    lsm_inv E b2 \<and> lsm_bview E b2 = lsm_bview E b \<and> es_active_memtable (lb_state b2) = [] \<and> lb_options b2 = lb_options b \<and>
    es_next_sstable_id (lb_state b2) = es_next_sstable_id (lb_state b) + 1 \<and>
    sst_layers E b2 = es_active_memtable (lb_state b) # sst_layers E b \<and>
    length (lb_file b @ blob @ bytes) < 2 ^ 64 \<and>
    blob_of E (last (es_sstables (lb_state b2))) (es_active_memtable (lb_state b)) blob"
proof -
  let ?mem = "es_active_memtable (lb_state b)" and ?gen = "es_next_sstable_id (lb_state b)" and ?f = "lb_file b"
  let ?hs = "es_sstables (lb_state b)"
  obtain m rs where d: "disk_ok E ?f (lb_header_seq b) (lb_header_slot b) (es_manifest_len (lb_state b)) m rs"
      "?mem = fold apply_pending rs []"
    and ssts: "ssts_ok E ?f ?hs ?gen" and imm: "es_immutable_memtables (lb_state b) = []"
    using inv unfolding lsm_inv_def by blast
  obtain hd where hd: "header_is E ?f hd" "hs_seq hd = lb_header_seq b" "hs_slot hd = lb_header_slot b"
    using d(1) by (auto simp: disk_ok_def)
  have f: "128 \<le> length ?f" "lb_header_slot b = 0 \<or> lb_header_slot b = 1" using hd by (auto simp: header_is_def)
  have sorted: "sorted_keys ?mem" using d(2) sorted_replayed [of "[]" rs] by simp
  obtain h blob where w: "sst_write E ?f ?gen (map Ok ?mem) (length ?mem) (lsm_write_options b) = Ok (?f @ blob, h)"
      "sh_mmap h = ?f @ blob" "sh_generation h = ?gen" "sh_base_offset h = word_of_nat (length ?f)"
      "sh_blob_len h = word_of_nat (length blob)" "sh_entry_count h = Some (word_of_nat (length ?mem))" "blob_of E h ?mem blob"
    using sst_write_ok [OF E fits sorted, of ?f ?gen "length ?mem"] by blast
  let ?off = "sh_base_offset h + sh_blob_len h"
  let ?m0 = "\<lparr>mf_next_sstable_id = ?gen + 1, mf_sstables = map ref_of ?hs @ [ref_of h], mf_wal_region_start = 0\<rparr>"
  obtain p bytes where mb: "manifest_encode E ?m0 = Ok p"
      "manifest_encode E (?m0\<lparr>mf_wal_region_start := ?off + word_of_nat (length p)\<rparr>) = Ok bytes" "length bytes = length p"
      "deserialize (manifest_codec E) bytes = Some (?m0\<lparr>mf_wal_region_start := ?off + word_of_nat (length p)\<rparr>)"
      "serialize (manifest_codec E) (?m0\<lparr>mf_wal_region_start := ?off + word_of_nat (length p)\<rparr>) = Some bytes"
    using manifest_two_pass [OF E, of ?m0 "\<lambda>n. ?off + word_of_nat n"] by blast
  let ?m = "?m0\<lparr>mf_wal_region_start := ?off + word_of_nat (length p)\<rparr>"
  have len: "length ?f + length blob + length bytes < 2 ^ 64"
    using small [unfolded small_def, rule_format, OF w(7) mb(5)] by simp
  let ?f1 = "?f @ blob"
  let ?f2 = "fst (write_header E ?f1 (lb_header_seq b) (lb_header_slot b) ?off bytes)"
  have off: "?off = word_of_nat (length ?f1)" using w(4,5) by simp
  have blobat: "write_blob_at ?f1 ?off bytes = ?f1 @ bytes"
    using len off by (intro write_blob_at_end) simp_all
  note wh = write_header_append [OF _ f(2), where f = ?f1]
  have hdr: "fst (write_header E (?f1 @ bytes) (lb_header_seq b) (lb_header_slot b) ?off bytes) = ?f2 @ bytes" "length ?f2 = length ?f1"
    using wh(1,2) f(1) by simp_all
  have snds: "snd (write_header E (?f1 @ bytes) (lb_header_seq b) (lb_header_slot b) ?off bytes) = (lb_header_seq b + 1, 1 - lb_header_slot b)"
    by (simp add: write_header_def Let_def)
  let ?b2 = "b\<lparr>lb_file := ?f2 @ bytes, lb_header_seq := lb_header_seq b + 1, lb_header_slot := 1 - lb_header_slot b,
     lb_state := (lb_state b)\<lparr>es_active_memtable := [], es_next_sstable_id := ?gen + 1,
       es_sstables := ?hs @ [h], es_immutable_memtables := [], es_wal_region_start := mf_wal_region_start ?m, es_manifest_len := word_of_nat (length bytes)\<rparr>\<rparr>"
  have fl: "flush E b = (if lo_compaction_trigger_files (lb_options b) \<le> Suc (length ?hs) then compact_all E False ?b2 else Ok ?b2)"
    using act w(1) mb(1,2) blobat hdr(1) snds imm
    by (simp add: flush_def Let_def case_prod_beta' prod_eq_iff)
  have "stored E ?f1 h ?mem"
    unfolding stored_def using w f(1) len by (intro exI [of _ ?f] exI [of _ blob] exI [of _ "[]"]) simp
  moreover have "stored E ?f1 h' (sst_entries E h')" if "h' \<in> set ?hs" for h'
    using ssts that stored_append by (auto simp: ssts_ok_def)
  ultimately have "ssts_ok E (?f2 @ bytes) (?hs @ [h]) (?gen + 1)" "sst_entries E h = ?mem"
    using wh(3) f(1) stored_append stored_entries_self [of E ?f1 h ?mem] w(2,3,6) ssts word_less_Suc [OF ids(1)]
    by (auto simp: ssts_ok_def sorted_wrt_append dest: less_trans)
  moreover have "disk_ok E (?f2 @ bytes) (lb_header_seq b + 1) (1 - lb_header_slot b) (word_of_nat (length bytes)) ?m []"
    unfolding disk_ok_def
    using header_switch [OF header_is_append [OF hd(1), of "blob @ bytes"], of ?off bytes] ids(2) hd(2,3) hdr len off mb(3,4) f(1)
    by (intro conjI exI [of _ "slot_of E (1 - lb_header_slot b) (lb_header_seq b + 1) ?off bytes"] exI [of _ ?f2]
        exI [of _ bytes] exI [of _ "[]"]) (simp_all add: slot_of_def)
  ultimately have inv2: "lsm_inv E ?b2" and ent: "sst_entries E h = ?mem"
    unfolding lsm_inv_def by (auto intro!: exI [of _ ?m] exI [of _ "[]"])
  moreover have "lsm_bview E ?b2 = lsm_bview E b"
    unfolding lsm_bview_def [of E b] using ent imm
    by (intro lsm_bview_eqI) (simp add: tx_layers_def snap_layers_def lsm_snapshot_def)
  ultimately show ?thesis
    using fl hdr(1) len w(7) act
    by (intro exI [of _ ?b2] exI [of _ blob] exI [of _ bytes] exI [of _ ?off])
      (simp add: sst_layers_def)
qed

end
