(* ===== verification/Lsm_Durable.thy ===== *)
theory Lsm_Durable
  imports Lsm_Recovery
begin

text \<open>
  The LSM engine as a storage backend: commit, flush, compaction, backup and opening keep the
  contents and the invariant, so the engine meets the same contract as the in-memory backend. Every
  file a crash can leave during a commit opens to the contents before or after the commit. A file left
  by a crash during a flush opens to the same contents, except when a checksum matches by accident or
  the header slot is torn inside its version field; each kind of torn slot is told apart.
\<close>

section \<open>Commit, flush, compaction\<close>

lemma tx_view_no_pending [simp]: "tx_view E s (Some []) = tx_view E s None"
  by (simp add: tx_view_def tx_layers_def layers_view_def pending_layer_def fun_eq_iff)

definition flush_room :: "ext \<Rightarrow> lsm_backend \<Rightarrow> bool" where
  "flush_room E b \<longleftrightarrow>
    (\<forall>e\<in>set (es_active_memtable (lb_state b)). fits_block (lsm_write_options b) e) \<and>
    small E (es_active_memtable (lb_state b)) (length (lb_file b)) (Suc (length (es_sstables (lb_state b)))) \<and>
    es_next_sstable_id (lb_state b) \<noteq> -1 \<and> lb_header_seq b \<noteq> -1 \<and>
    (lo_compaction_trigger_files (lb_options b) \<le> Suc (length (es_sstables (lb_state b))) \<longrightarrow>
      compact_room E (lsm_write_options b) (es_active_memtable (lb_state b) # sst_layers E b) \<and>
      es_next_sstable_id (lb_state b) + 1 \<noteq> -1)"

lemma flush_ok:
  assumes E: "ext_ok E" and inv: "lsm_inv E b" and room: "es_active_memtable (lb_state b) \<noteq> [] \<longrightarrow> flush_room E b"
  shows "\<exists>b'. flush E b = Ok b' \<and> lsm_inv E b' \<and> lsm_bview E b' = lsm_bview E b \<and>
    es_active_memtable (lb_state b') = [] \<and> lb_options b' = lb_options b"
proof (cases "es_active_memtable (lb_state b) = []")
  case True
  then show ?thesis using inv by (simp add: flush_def)
next
  case False
  note r = room [rule_format, OF False, unfolded flush_room_def]
  obtain b2 where b2: "flush E b = (if lo_compaction_trigger_files (lb_options b) \<le> Suc (length (es_sstables (lb_state b)))
      then compact_all E False b2 else Ok b2)" "lsm_inv E b2" "lsm_bview E b2 = lsm_bview E b"
      "es_active_memtable (lb_state b2) = []" "lb_options b2 = lb_options b"
      "es_next_sstable_id (lb_state b2) = es_next_sstable_id (lb_state b) + 1"
      "sst_layers E b2 = es_active_memtable (lb_state b) # sst_layers E b"
    using flush_writes [OF E inv False] r by (elim conjE) blast
  have opts: "lsm_write_options b2 = lsm_write_options b" using b2(5) by (simp add: lsm_write_options_def)
  show ?thesis
  proof (cases "lo_compaction_trigger_files (lb_options b) \<le> Suc (length (es_sstables (lb_state b)))")
    case True
    then have "compact_room E (lsm_write_options b2) (sst_layers E b2)" "es_next_sstable_id (lb_state b2) \<noteq> -1"
      using r b2(6,7) opts by auto
    from compact_all_ok [OF E b2(2,4) this, of False] show ?thesis using b2 True by auto
  next
    case False
    then show ?thesis using b2 by auto
  qed
qed

definition commit_room :: "ext \<Rightarrow> lsm_backend \<Rightarrow> pending \<Rightarrow> bool" where
  "commit_room E b p \<longleftrightarrow> (\<exists>fr. wal_frame E p = Ok fr \<and> length (lb_file b @ fr) < 2 ^ 64 \<and>
    (lo_memtable_flush_bytes (lb_options b) \<le> memtable_byte_size (es_active_memtable (lb_state (logged b p fr))) \<longrightarrow>
      flush_room E (logged b p fr)))"

lemma commit_pending_ok:
  assumes E: "ext_ok E" and inv: "lsm_inv E b" and p: "sorted_keys p" and room: "p \<noteq> [] \<longrightarrow> commit_room E b p"
  shows "\<exists>b'. commit_pending E b p = Ok b' \<and> lsm_inv E b' \<and> lsm_bview E b' = tx_view E (lsm_snapshot b) (Some p) \<and>
    lb_options b' = lb_options b"
proof (cases "p = []")
  case True
  then show ?thesis
    using inv by (simp add: commit_pending_def lsm_bview_def)
next
  case False
  obtain fr where fr: "wal_frame E p = Ok fr" "length (lb_file b @ fr) < 2 ^ 64"
      "lo_memtable_flush_bytes (lb_options b) \<le> memtable_byte_size (es_active_memtable (lb_state (logged b p fr))) \<longrightarrow>
        flush_room E (logged b p fr)"
    using room False by (auto simp: commit_room_def)
  note log = logged_ok [OF inv p fr(1,2)]
  have eq: "commit_pending E b p = (if lo_memtable_flush_bytes (lb_options b) \<le>
      memtable_byte_size (es_active_memtable (lb_state (logged b p fr))) then flush E (logged b p fr) else Ok (logged b p fr))"
    using False fr(1) by (simp add: commit_pending_def wal_append_def Let_def logged_def)
  show ?thesis
    using eq flush_ok [OF E log(1)] fr(3) log by (auto simp: logged_def)
qed

interpretation lsm: storage_backend "lsm_ops E" "\<lambda>r. snap_ok E (lr_snapshot r)" lsm_tbl_ok
    "\<lambda>r. tx_view E (lr_snapshot r) None" "lsm_tx_ok E" "lsm_view E"
    "\<lambda>b. ext_ok E \<and> lsm_inv E b" "lsm_bview E"
    "\<lambda>b w. lw_snapshot w = lsm_snapshot b" "\<lambda>b w. lw_pending w \<noteq> [] \<longrightarrow> commit_room E b (lw_pending w)" for E
proof (unfold storage_backend_def storage_backend_axioms_def, intro conjI allI impI)
  show "storage_read (read_tx (lsm_ops E)) (\<lambda>r. snap_ok E (lr_snapshot r)) lsm_tbl_ok (\<lambda>r. tx_view E (lr_snapshot r) None)"
    by (simp add: lsm_ops_def lsm_r.storage_read_axioms)
  show "storage_write (write_tx (lsm_ops E)) (lsm_tx_ok E) lsm_tbl_ok (lsm_view E)"
    by (simp add: lsm_ops_def lsm_w.storage_write_axioms)
next
  fix b assume "ext_ok E \<and> lsm_inv E b"
  then have snap: "snap_ok E (lsm_snapshot b)" using lsm_inv_snap_ok by blast
  then show "\<exists>r. begin_read (lsm_ops E) b = Ok r \<and> snap_ok E (lr_snapshot r) \<and> tx_view E (lr_snapshot r) None = lsm_bview E b"
    by (simp add: lsm_ops_def lsm_begin_read_def lsm_bview_def)
  show "\<exists>w. begin_write (lsm_ops E) b = Ok w \<and> lsm_tx_ok E w \<and> lsm_view E w = lsm_bview E b \<and> lw_snapshot w = lsm_snapshot b"
    using snap by (simp add: lsm_ops_def lsm_begin_write_def lsm_tx_ok_def tx_ok_def lsm_view_def lsm_bview_def)
next
  fix b w
  assume "ext_ok E \<and> lsm_inv E b" "lsm_tx_ok E w" "lw_snapshot w = lsm_snapshot b" "lw_pending w \<noteq> [] \<longrightarrow> commit_room E b (lw_pending w)"
  then show "\<exists>b'. commit (lsm_ops E) b w = Ok b' \<and> (ext_ok E \<and> lsm_inv E b') \<and> lsm_bview E b' = lsm_view E w"
    using commit_pending_ok [of E b "lw_pending w"]
    by (auto simp: lsm_ops_def lsm_commit_def lsm_tx_ok_def tx_ok_def lsm_view_def)
qed (auto simp: lsm_ops_def lsm_write_ops_def lsm_put_def lsm_delete_def bind_res_Ok_iff)

section \<open>Opening a new database, and backups\<close>

lemma lsm_open_new:
  assumes E: "ext_ok E" and small: "\<And>m bytes. serialize (manifest_codec E) m = Some bytes \<Longrightarrow> mf_sstables m = [] \<Longrightarrow> 128 + length bytes < 2 ^ 64"
  shows "\<exists>b. lsm_open E [] options = Ok b \<and> lsm_inv E b \<and> lsm_bview E b = (\<lambda>_. Map.empty) \<and> lb_options b = options \<and>
    es_active_memtable (lb_state b) = [] \<and> es_sstables (lb_state b) = [] \<and>
    es_next_sstable_id (lb_state b) = 1 \<and> lb_header_seq b = 1 \<and>
    (\<exists>m bytes. serialize (manifest_codec E) m = Some bytes \<and> mf_sstables m = [] \<and> length (lb_file b) = 128 + length bytes)"
proof -
  let ?m0 = "\<lparr>mf_next_sstable_id = 1, mf_sstables = [], mf_wal_region_start = 0\<rparr>"
  obtain p bytes where mb: "manifest_encode E ?m0 = Ok p"
      "manifest_encode E (?m0\<lparr>mf_wal_region_start := word_of_nat 128 + word_of_nat (length p)\<rparr>) = Ok bytes" "length bytes = length p"
      "deserialize (manifest_codec E) bytes = Some (?m0\<lparr>mf_wal_region_start := word_of_nat 128 + word_of_nat (length p)\<rparr>)"
      "serialize (manifest_codec E) (?m0\<lparr>mf_wal_region_start := word_of_nat 128 + word_of_nat (length p)\<rparr>) = Some bytes"
    using manifest_two_pass [OF E, of ?m0 "\<lambda>n. word_of_nat 128 + word_of_nat n"] by blast
  let ?m = "?m0\<lparr>mf_wal_region_start := word_of_nat 128 + word_of_nat (length p)\<rparr>"
  have len: "128 + length bytes < 2 ^ 64" using small [OF mb(5)] by simp
  let ?z = "replicate 128 (0 :: byte)"
  let ?f = "fst (write_header E ?z 0 1 128 bytes)"
  have hdr: "fst (write_header E (?z @ bytes) 0 1 128 bytes) = ?f @ bytes" "length ?f = 128"
    using write_header_append(1) [where f = ?z and prev = 1] write_header_append(2) [where f = ?z and prev = 1] by simp_all
  have disk: "disk_ok E (?f @ bytes) 1 0 (word_of_nat (length bytes)) ?m []"
    unfolding disk_ok_def
    using fresh_header [of E bytes 128 bytes] hdr len mb(3,4)
    by (intro conjI exI [of _ "slot_of E 0 1 128 bytes"] exI [of _ ?f] exI [of _ bytes] exI [of _ "[]"])
      (simp_all add: slot_of_def)
  let ?b = "\<lparr>lb_options = options,
    lb_state = \<lparr>es_active_memtable = [], es_immutable_memtables = [], es_sstables = [], es_next_sstable_id = 1,
      es_wal_region_start = mf_wal_region_start ?m, es_manifest_len = word_of_nat (length bytes)\<rparr>,
    lb_file = ?f @ bytes, lb_header_seq = 1, lb_header_slot = 0\<rparr>"
  have boot: "lsm_bootstrap E [] = Ok (?f @ bytes, ?m, word_of_nat (length bytes), 1, 0)"
    using mb(1,2) hdr(1)
    by (simp add: lsm_bootstrap_def Let_def BODY_START_def write_blob_at_def write_at_def case_prod_beta'
      write_header_def [of E "?z @ bytes"])
  have "replay_from E (?f @ bytes) (mf_wal_region_start ?m) = Ok ([], word_of_nat (length (?f @ bytes)))"
    using replay_from_frames [OF E _ no_frame_Nil, of "[]" "[]" "?f @ bytes"] hdr(2) len mb(3) by simp
  moreover have "unat (word_of_nat (length (?f @ bytes)) :: u64) = length (?f @ bytes)"
    by (rule unat_of_nat_small) (use len hdr(2) in simp)
  ultimately have "lsm_open E [] options = Ok ?b"
    using boot by (simp add: lsm_open_def read_header_def BODY_START_def Let_def)
  moreover have "lsm_inv E ?b"
    unfolding lsm_inv_def using disk by (auto simp: ssts_ok_def intro!: exI [of _ ?m] exI [of _ "[]"])
  moreover have "lsm_bview E ?b = (\<lambda>_. Map.empty)"
    by (auto simp: lsm_bview_def tx_view_def tx_layers_def snap_layers_def lsm_snapshot_def layers_view_def fun_eq_iff)
  moreover have "\<exists>m bs. serialize (manifest_codec E) m = Some bs \<and> mf_sstables m = [] \<and> length (lb_file ?b) = 128 + length bs"
    using mb(5) hdr(2) by (intro exI [of _ ?m] exI [of _ bytes]) simp
  ultimately show ?thesis
    by (intro exI [of _ ?b]) simp
qed

lemma backup_ok:
  assumes E: "ext_ok E" and inv: "lsm_inv E b"
    and room: "compact_room E (lsm_write_options b) (snap_layers E (lsm_snapshot b))"
  shows "\<exists>f b'. backup_to E b = Ok f \<and> lsm_open E f options = Ok b' \<and> lsm_inv E b' \<and> lsm_bview E b' = lsm_bview E b"
proof -
  let ?s = "lsm_snapshot b"
  have ok: "tx_ok E ?s None" using lsm_inv_snap_ok [OF inv] by (simp add: tx_ok_def)
  let ?ls = "snap_layers E ?s"
  have ls: "tx_layers E ?s None = ?ls" by (simp add: tx_layers_def)
  note live = live_pairs_ok [OF tx_layers_sorted [OF ok, unfolded ls]]
  have src: "scan_sources E ?s None Unbounded Unbounded = Ok (map (map Ok) ?ls)"
    using scan_sources_ok [OF ok, of Unbounded Unbounded] by (simp add: bounds_empty_def ls map_idI)
  let ?n = "unat (word_of_nat (length (rs_active_memtable ?s)) + sum_list (map (\<lambda>m. word_of_nat (length m)) (rs_immutable_memtables ?s))
    + sum_list (map estimated_entries (rs_sstables ?s)) :: u64)"
  obtain c where c: "write_fresh_container E 1 (map Ok (live_pairs ?ls)) ?n (lsm_write_options b) = Ok c"
      "disk_ok E (fc_file c) 1 0 (fc_manifest_len c) (fc_manifest c) []" "mf_next_sstable_id (fc_manifest c) = 1 + 1"
      "mf_sstables (fc_manifest c) = [ref_of (fc_handle c)]" "sst_entries E (fc_handle c) = vals (live_pairs ?ls)"
      "sst_good E (fc_handle c)" "stored E (fc_file c) (fc_handle c) (vals (live_pairs ?ls))" "sh_generation (fc_handle c) = 1"
      "sh_entry_count (fc_handle c) = Some (word_of_nat (length (live_pairs ?ls)))"
    using fresh_container_ok [OF E live(2), of "lsm_write_options b" 1 ?n] room by (auto simp: compact_room_def)
  let ?b = "\<lparr>lb_options = options,
    lb_state = \<lparr>es_active_memtable = [], es_immutable_memtables = [], es_sstables = [fc_handle c],
      es_next_sstable_id = mf_next_sstable_id (fc_manifest c), es_wal_region_start = mf_wal_region_start (fc_manifest c),
      es_manifest_len = fc_manifest_len c\<rparr>,
    lb_file = fc_file c, lb_header_seq = 1, lb_header_slot = 0\<rparr>"
  have invb: "lsm_inv E ?b"
    unfolding lsm_inv_def using c
    by (auto simp: ssts_ok_def vals_def intro!: exI [of _ "fc_manifest c"] exI [of _ "[]"])
  have "tx_layers E (lsm_snapshot ?b) None = [[], vals (live_pairs ?ls)]"
    using c(5) by (simp add: tx_layers_def snap_layers_def lsm_snapshot_def)
  then have view: "lsm_bview E ?b = lsm_bview E b"
    unfolding lsm_bview_def [of E b] by (intro lsm_bview_eqI) (simp add: ls live(3) layers_view_vals)
  have "backup_to E b = Ok (fc_file c)"
    using src live(1) c(1) by (simp add: backup_to_def Let_def)
  moreover have "length (lb_file ?b @ []) < 2 ^ 64" using c(2) by (simp add: disk_ok_def)
  ultimately show ?thesis
    using lsm_open_recovers [OF E invb no_frame_Nil, of options] view by auto
qed

section \<open>A torn header slot\<close>

lemma torn_slot_inv:
  assumes inv: "lsm_inv E b" and t: "length t = 64" "decode_slot E (1 - lb_header_slot b) t = Ok None"
  shows "lsm_inv E (b\<lparr>lb_file := write_at (lb_file b) (unat (1 - lb_header_slot b) * 64) t\<rparr>)"
    and "lsm_bview E (b\<lparr>lb_file := write_at (lb_file b) (unat (1 - lb_header_slot b) * 64) t\<rparr>) = lsm_bview E b"
    and "write_at (lb_file b @ g) (unat (1 - lb_header_slot b) * 64) t = write_at (lb_file b) (unat (1 - lb_header_slot b) * 64) t @ g"
    and "length (write_at (lb_file b) (unat (1 - lb_header_slot b) * 64) t) = length (lb_file b)"
proof -
  let ?f = "lb_file b" and ?s = "1 - lb_header_slot b"
  let ?g = "write_at ?f (unat ?s * 64) t"
  obtain m rs where d: "disk_ok E ?f (lb_header_seq b) (lb_header_slot b) (es_manifest_len (lb_state b)) m rs"
      "\<forall>r\<in>set rs. sorted_keys r" "es_active_memtable (lb_state b) = fold apply_pending rs []"
      "mf_next_sstable_id m = es_next_sstable_id (lb_state b)" "mf_sstables m = map ref_of (es_sstables (lb_state b))"
      "mf_wal_region_start m = es_wal_region_start (lb_state b)"
    and ssts: "ssts_ok E ?f (es_sstables (lb_state b)) (es_next_sstable_id (lb_state b))"
    and imm: "es_immutable_memtables (lb_state b) = []"
    using inv unfolding lsm_inv_def by blast
  obtain hd pre mb wal where h: "header_is E ?f hd" "hs_seq hd = lb_header_seq b" "hs_slot hd = lb_header_slot b"
      "hs_manifest_len hd = es_manifest_len (lb_state b)" "?f = pre @ mb @ wal" "128 \<le> length pre"
      "hs_manifest_offset hd = word_of_nat (length pre)" "hs_manifest_len hd = word_of_nat (length mb)"
      "hs_manifest_crc hd = Some (crc32 E mb)" "deserialize (manifest_codec E) mb = Some m"
      "mf_wal_region_start m = word_of_nat (length (pre @ mb))" "frames E rs wal" "length ?f < 2 ^ 64"
    using d(1) by (auto simp: disk_ok_def)
  have s: "?s = 0 \<or> ?s = 1" using h(1,3) new_slot_cases(1) by (simp add: header_is_def)
  have len: "128 \<le> length ?f" using h(1) by (simp add: header_is_def)
  show app: "write_at (?f @ g) (unat ?s * 64) t = ?g @ g" for g
    using s len t(1) by (auto simp: write_at_append)
  show length: "length ?g = length ?f" using write_at_slot(4) [OF len s t(1)] .
  have "?g = write_at pre (unat ?s * 64) t @ mb @ wal"
    using s h(5,6) t(1) write_at_append [of "unat ?s * 64" t pre "mb @ wal"] by auto
  moreover have "length (write_at pre (unat ?s * 64) t) = length pre"
    using write_at_slot(4) [OF h(6) s t(1)] .
  ultimately have "disk_ok E ?g (lb_header_seq b) (lb_header_slot b) (es_manifest_len (lb_state b)) m rs"
    unfolding disk_ok_def using h header_torn [OF h(1) t(1)] t(2) length
    by (intro conjI exI [of _ hd] exI [of _ "write_at pre (unat ?s * 64) t"] exI [of _ mb] exI [of _ wal]) simp_all
  moreover have "ssts_ok E ?g (es_sstables (lb_state b)) (es_next_sstable_id (lb_state b))"
    using ssts stored_write_slot [OF _ len s t(1)] by (auto simp: ssts_ok_def)
  ultimately show "lsm_inv E (b\<lparr>lb_file := ?g\<rparr>)"
    unfolding lsm_inv_def using d imm by auto
  show "lsm_bview E (b\<lparr>lb_file := ?g\<rparr>) = lsm_bview E b"
    by (simp add: lsm_bview_def lsm_snapshot_def)
qed

section \<open>A header slot torn between its old and its new contents\<close>

lemma be32_of_be32: "length bs = 4 \<Longrightarrow> be32 (of_be32 bs) = bs"
  using of_be_less [of bs] be_of_be [of bs] by (simp add: be32_def of_be32_def unat_of_nat)

lemma decode_slot_no_panic: "decode_slot E s buf \<noteq> Panic"
  by (simp add: decode_slot_def Let_def)

text \<open>A slot is refused with an error only for its version field.\<close>

lemma decode_slot_version:
  assumes "take 12 buf = MAGIC @ be32 v" "v = FORMAT_VERSION \<or> v = LEGACY_FORMAT_VERSION"
  shows "decode_slot E s buf \<noteq> Err e"
proof -
  have "take 4 (drop 8 buf) = drop 8 (take 12 buf)" by (simp add: drop_take)
  then have "of_be32 (take 4 (drop 8 buf)) = v" using assms(1) by simp
  then show ?thesis using assms(2) by (auto simp: decode_slot_def Let_def)
qed

lemma decode_slot_valid_start:
  assumes "decode_slot E s buf = Ok (Some h)" "length buf = 64"
  shows "\<exists>v. take 12 buf = MAGIC @ be32 v \<and> (v = FORMAT_VERSION \<or> v = LEGACY_FORMAT_VERSION)"
proof -
  let ?v = "of_be32 (take 4 (drop 8 buf))"
  have magic: "take 8 buf = MAGIC" and v: "?v = FORMAT_VERSION \<or> ?v = LEGACY_FORMAT_VERSION"
    using assms(1) by (auto simp: decode_slot_def Let_def split: if_splits)
  have "take 12 buf = take 8 buf @ take 4 (drop 8 buf)" using take_add [of 8 4 buf] by simp
  moreover have "be32 ?v = take 4 (drop 8 buf)" using assms(2) by (intro be32_of_be32) simp
  ultimately show ?thesis using magic v by metis
qed

lemma be32_versions: "be32 FORMAT_VERSION = [0, 0, 0, 2]" "be32 LEGACY_FORMAT_VERSION = [0, 0, 0, 1]"
proof -
  have four: "(4 :: nat) = Suc (Suc (Suc (Suc 0)))" by simp
  have "be 4 1 = [0, 0, 0, 1]" unfolding four by simp
  then show "be32 LEGACY_FORMAT_VERSION = [0, 0, 0, 1]" by (simp add: be32_def LEGACY_FORMAT_VERSION_def)
qed (rule be32_two)

lemma take_12_new: "take 12 (encode_slot E seq off m) = MAGIC @ be32 FORMAT_VERSION"
  by (simp add: encode_slot_def Let_def)

lemma torn_version:
  fixes E seq off m old and j :: nat
  defines "torn \<equiv> take j (encode_slot E seq off m) @ drop j old"
  assumes "length old = 64" "(\<exists>h. decode_slot E s old = Ok (Some h)) \<or> old = replicate 64 0 \<and> (j < 8 \<or> 12 \<le> j)"
  shows "decode_slot E s torn \<noteq> Err e"
proof (cases "\<exists>h. decode_slot E s old = Ok (Some h)")
  case True
  then obtain v where v: "take 12 old = MAGIC @ be32 v" "v = FORMAT_VERSION \<or> v = LEGACY_FORMAT_VERSION"
    using decode_slot_valid_start assms(2) by blast
  let ?new = "MAGIC @ be32 FORMAT_VERSION" and ?old = "MAGIC @ be32 v"
  have "take 12 torn = take j (take 12 (encode_slot E seq off m)) @ drop j (take 12 old)"
    by (simp add: torn_def assms(2) min_def drop_take)
  then have t: "take 12 torn = take j ?new @ drop j ?old" unfolding take_12_new v(1) .
  have "\<exists>u. take j ?new @ drop j ?old = MAGIC @ be32 u \<and> (u = FORMAT_VERSION \<or> u = LEGACY_FORMAT_VERSION)"
  proof (cases "j < 12")
    case True
    then have "j < 8 \<or> j = 8 \<or> j = 9 \<or> j = 10 \<or> j = 11" by auto
    then have "take j ?new @ drop j ?old = ?old"
      using v(2) by (auto simp: be32_versions append_take_drop_id simp flip: append_assoc)
    then show ?thesis using v(2) by blast
  next
    case False
    then have "take j ?new @ drop j ?old = ?new" by simp
    then show ?thesis by blast
  qed
  then show ?thesis unfolding t [symmetric] using decode_slot_version by blast
next
  case False
  then have old: "old = replicate 64 0" "j < 8 \<or> 12 \<le> j" using assms(3) by auto
  show ?thesis
  proof (cases "j < 8")
    case True
    then have "torn ! 7 = 0" using old(1) by (simp add: torn_def nth_append)
    then have "decode_slot E s torn = Ok None" by (intro decode_slot_not_magic) simp
    then show ?thesis by simp
  next
    case False
    then have "12 \<le> j" using old(2) by simp
    then have "take 12 torn = take 12 (encode_slot E seq off m)" by (simp add: torn_def assms(2) min_def)
    then show ?thesis unfolding take_12_new using decode_slot_version by blast
  qed
qed

text \<open>A header slot that is refused fails the open.\<close>

lemma lsm_open_bad_slot:
  assumes "header_is E f hs" "length torn = 64" "decode_slot E (1 - hs_slot hs) torn = Err e"
  shows "lsm_open E (write_at f (unat (1 - hs_slot hs) * 64) torn) options = Err e"
proof -
  have h: "128 \<le> length f" "hs_slot hs = 0 \<or> hs_slot hs = 1" "decode_slot E (hs_slot hs) (slot_at f (hs_slot hs)) = Ok (Some hs)"
    using assms(1) by (simp_all add: header_is_def)
  let ?g = "write_at f (unat (1 - hs_slot hs) * 64) torn"
  note w = write_at_slot [OF h(1) new_slot_cases(1) [OF h(2)] assms(2)]
  have "read_header E ?g = Err e"
    using h(1,3) w assms(3) new_slot_cases(2) [OF h(2)]
    by (rule_tac disjE [OF h(2)]) (auto simp: read_header_def BODY_START_def HEADER_SLOT_LEN_def slot_at_def)
  then show ?thesis by (simp add: lsm_open_def)
qed

text \<open>The file opens, to the contents of \<open>b\<close>.\<close>

definition opens_as :: "ext \<Rightarrow> lsm_options \<Rightarrow> lsm_backend \<Rightarrow> bytes \<Rightarrow> bool" where
  "opens_as E options b f \<longleftrightarrow> (\<exists>b'. lsm_open E f options = Ok b' \<and> lsm_bview E b' = lsm_bview E b)"

section \<open>Sizes in the concrete environment\<close>

lemma length_demo_manifest:
  assumes "serialize (manifest_codec demo_ext) m = Some bytes"
  shows "length bytes = 17 + 25 * length (mf_sstables m)"
proof -
  have "length (concat (map (fst sc_ref) rs)) = 24 * length rs" for rs
    by (induction rs) (simp_all add: sc_ref_def sc_map_def sc_pair_def sc_u64_def)
  then show ?thesis
    using assms by (auto simp: demo_ext_def codec_of_def sc_manifest_def sc_map_def sc_pair_def sc_u64_def sc_list_def)
qed

lemma demo_small:
  assumes "\<forall>e\<in>set es. length (fst e) \<le> K" "es \<noteq> []"
    and "n + (length (encode_entries es) + 80 + 4 * K + length es * (2 * K + 23)) + (17 + 25 * k) < 2 ^ 64"
  shows "small demo_ext es n k"
  unfolding small_def
proof (intro allI impI)
  fix h blob m bytes
  assume a: "blob_of demo_ext h es blob" "serialize (manifest_codec demo_ext) m = Some bytes" "length (mf_sstables m) \<le> k"
  have "length bytes \<le> 17 + 25 * k" using length_demo_manifest [OF a(2)] a(3) by simp
  then show "n + length blob + length bytes < 2 ^ 64"
    using demo_blob_size [OF a(1) assms(1,2)] assms(3) by linarith
qed

text \<open>A database just created, and one with a logged commit.\<close>

lemma demo_db:
  obtains b where "lsm_open demo_ext [] lsm_options_default = Ok b" "lsm_inv demo_ext b" "lsm_bview demo_ext b = (\<lambda>_. Map.empty)"
    "lb_options b = lsm_options_default" "es_active_memtable (lb_state b) = []" "es_sstables (lb_state b) = []"
    "es_next_sstable_id (lb_state b) = 1" "lb_header_seq b = 1" "length (lb_file b) = 145"
proof -
  have "128 + length bytes < 2 ^ 64" if "serialize (manifest_codec demo_ext) m = Some bytes" "mf_sstables m = []" for m bytes
    using length_demo_manifest [OF that(1)] that(2) by simp
  then obtain b m bytes where "lsm_open demo_ext [] lsm_options_default = Ok b" "lsm_inv demo_ext b"
      "lsm_bview demo_ext b = (\<lambda>_. Map.empty)" "lb_options b = lsm_options_default" "es_active_memtable (lb_state b) = []"
      "es_sstables (lb_state b) = []" "es_next_sstable_id (lb_state b) = 1" "lb_header_seq b = 1"
      and m: "serialize (manifest_codec demo_ext) m = Some bytes" "mf_sstables m = []" "length (lb_file b) = 128 + length bytes"
    using lsm_open_new [OF demo_ext_ok, where options = lsm_options_default] by blast
  then show thesis using that length_demo_manifest [OF m(1)] by simp
qed

definition demo_pending :: pending where
  "demo_pending = [(1 # [116] @ [7], Some [8])]"

lemma demo_frame: obtains fr where "wal_frame demo_ext demo_pending = Ok fr" "length fr = 21" "sorted_keys demo_pending"
proof -
  obtain payload where p: "serialize (wal_codec demo_ext) demo_pending = Some payload" "length payload = 13"
    by (simp add: demo_pending_def demo_ext_def codec_of_def sc_wal_def sc_list_def sc_pair_def sc_opt_def sc_byte_def)
  then show thesis using that by (simp add: wal_frame_def demo_pending_def)
qed

section \<open>Properties\<close>

text \<open>C2: A commit is durable and atomic under a crash. Take a consistent backend and a transaction whose
  log frame fits. If the machine stops after any number \<open>n\<close> of bytes of the frame, opening the file
  succeeds and yields exactly the state before the transaction when the frame is incomplete, and
  exactly the state the transaction saw when it is complete.\<close>

theorem lsm_crash_during_commit:
  assumes "ext_ok E" "lsm_inv E b" "sorted_keys p" "wal_frame E p = Ok fr" "length (lb_file b @ fr) < 2 ^ 64"
  shows "\<exists>b'. lsm_open E (lb_file b @ take n fr) options = Ok b' \<and> lsm_inv E b' \<and>
    lsm_bview E b' = (if n < length fr then lsm_bview E b else tx_view E (lsm_snapshot b) (Some p))"
proof (cases "n < length fr")
  case True
  then have "no_frame E (take n fr)"
    using torn_frame_no_frame [OF assms(4) take_is_prefix] by (metis length_take less_irrefl min.absorb4)
  moreover have "length (lb_file b @ take n fr) < 2 ^ 64" using assms(5) by simp
  ultimately show ?thesis
    using lsm_open_recovers [OF assms(1,2), of "take n fr" options] True by auto
next
  case False
  note log = logged_ok [OF assms(2-5)]
  show ?thesis
    using lsm_open_recovers [OF assms(1) log(1) no_frame_Nil, of options] log(2) assms(5) False by (auto simp: logged_def)
qed

theorem lsm_crash_during_commit_witness:
  "\<exists>b b' fr. lsm_open demo_ext [] lsm_options_default = Ok b \<and> wal_frame demo_ext demo_pending = Ok fr \<and>
    lsm_open demo_ext (lb_file b @ take 30 fr) lsm_options_default = Ok b' \<and>
    lsm_bview demo_ext b' = tx_view demo_ext (lsm_snapshot b) (Some demo_pending)"
proof -
  obtain b where b: "lsm_open demo_ext [] lsm_options_default = Ok b" "lsm_inv demo_ext b" "length (lb_file b) = 145"
    by (rule demo_db) blast
  obtain fr where fr: "wal_frame demo_ext demo_pending = Ok fr" "length fr = 21" "sorted_keys demo_pending" by (rule demo_frame)
  have "length (lb_file b @ fr) < 2 ^ 64" using b(3) fr(2) by simp
  from lsm_crash_during_commit [OF demo_ext_ok b(2) fr(3,1) this, of 30 lsm_options_default] b fr show ?thesis by auto
qed

text \<open>C9: A flush appends an SSTable and a manifest and then rewrites the inactive header slot, and what a crash leaves of it opens
  to the contents before the flush in these cases: part of the appended bytes arrived and what arrived does not look like a log frame
  (length, checksum and record all in order; the bytes lie where the old manifest's log continues, so they are read as such);
  all of them arrived and the header slot holds anything that fails its magic or checksum, or still its old contents, or all of
  the new ones; the flush completed, compaction included or not. A slot that is refused for its version instead makes the
  open fail with that error. When the new slot is torn over the old one, whatever the number of bytes written, this cannot
  happen if the old slot was a valid header; if it was never written it cannot happen except at the bytes 8 to 11, where it
  does (C36). Not covered are a checksum that matches by accident, on the appended bytes or on a mix of the two slots.\<close>

theorem lsm_crash_during_flush:
  assumes E: "ext_ok E" and inv: "lsm_inv E b" and act: "es_active_memtable (lb_state b) \<noteq> []" and room: "flush_room E b"
  shows "\<exists>slot blob bytes off b2 b3. slot = 1 - lb_header_slot b \<and> flush E b = Ok b3 \<and> lsm_bview E b3 = lsm_bview E b \<and>
    (lo_compaction_trigger_files (lb_options b) > Suc (length (es_sstables (lb_state b))) \<longrightarrow> b3 = b2) \<and>
    lb_file b2 = fst (write_header E (lb_file b @ blob @ bytes) (lb_header_seq b) (lb_header_slot b) off bytes) \<and>
    (\<forall>n. no_frame E (take n (blob @ bytes)) \<longrightarrow> opens_as E options b (lb_file b @ take n (blob @ bytes))) \<and>
    (\<forall>torn. length torn = 64 \<longrightarrow> no_frame E (blob @ bytes) \<longrightarrow>
      (let f = write_at (lb_file b @ blob @ bytes) (unat slot * 64) torn; old = slot_at (lb_file b) slot;
           new = encode_slot E (lb_header_seq b + 1) off bytes
       in (case decode_slot E slot torn of Ok None \<Rightarrow> opens_as E options b f | Ok (Some _) \<Rightarrow> torn = old \<or> torn = new \<longrightarrow> opens_as E options b f
            | Err e \<Rightarrow> lsm_open E f options = Err e | Panic \<Rightarrow> False) \<and>
          (\<forall>j. torn = take j new @ drop j old \<longrightarrow> (\<exists>h. decode_slot E slot old = Ok (Some h)) \<or> old = replicate 64 0 \<and> (j < 8 \<or> 12 \<le> j) \<longrightarrow>
            (\<forall>e. decode_slot E slot torn \<noteq> Err e)))) \<and>
    opens_as E options b (lb_file b2) \<and> opens_as E options b (lb_file b3)"
proof -
  let ?same = "opens_as E options b"
  define slot where "slot = 1 - lb_header_slot b"
  obtain b2 blob bytes off where w: "flush E b = (if lo_compaction_trigger_files (lb_options b) \<le> Suc (length (es_sstables (lb_state b)))
      then compact_all E False b2 else Ok b2)"
      "lb_file b2 = fst (write_header E (lb_file b @ blob @ bytes) (lb_header_seq b) (lb_header_slot b) off bytes)"
      "lsm_inv E b2" "lsm_bview E b2 = lsm_bview E b" "length (lb_file b @ blob @ bytes) < 2 ^ 64"
    using flush_writes [OF E inv act] room unfolding flush_room_def by (elim conjE) blast
  obtain b3 where b3: "flush E b = Ok b3" "lsm_inv E b3" "lsm_bview E b3 = lsm_bview E b"
    using flush_ok [OF E inv] room by blast
  have reopen: "?same (lb_file c)" if "lsm_inv E c" "lsm_bview E c = lsm_bview E b" for c
    using lsm_open_recovers [OF E that(1) no_frame_Nil, of options] that by (auto simp: opens_as_def lsm_inv_def disk_ok_def)
  have part: "?same (lb_file b @ take n (blob @ bytes))" if "no_frame E (take n (blob @ bytes))" for n
  proof -
    have "length (lb_file b @ take n (blob @ bytes)) < 2 ^ 64" using w(5) by simp
    from lsm_open_recovers [OF E inv that this, of options] show ?thesis unfolding opens_as_def by blast
  qed
  let ?old = "slot_at (lb_file b) slot" and ?new = "encode_slot E (lb_header_seq b + 1) off bytes"
  let ?f = "\<lambda>torn. write_at (lb_file b @ blob @ bytes) (unat slot * 64) torn"
  obtain hd where hd: "header_is E (lb_file b) hd" "hs_slot hd = lb_header_slot b"
    using inv unfolding lsm_inv_def disk_ok_def by blast
  have s: "slot = 0 \<or> slot = 1" and len: "128 \<le> length (lb_file b)" using hd new_slot_cases(1) by (simp_all add: slot_def header_is_def)
  have old: "length ?old = 64" "?old = take 64 (drop (unat slot * 64) (lb_file b @ blob @ bytes))" using s len by (auto simp: slot_at_def)
  have "?f ?old = lb_file b @ blob @ bytes" unfolding old(2) by (rule write_at_same) (use s len in auto)
  then have at_old: "?same (?f ?old)" if "no_frame E (blob @ bytes)"
    using part [of "length (blob @ bytes)"] that by simp
  have "?f ?new = lb_file b2" using w(2) by (simp add: write_header_def Let_def HEADER_SLOT_LEN_def slot_def)
  then have at_new: "?same (?f ?new)" using reopen [OF w(3,4)] by simp
  have torn: "?same (?f t)" if t: "length t = 64" "decode_slot E slot t = Ok None" "no_frame E (blob @ bytes)" for t
  proof -
    note c = torn_slot_inv [OF inv t(1) t(2) [unfolded slot_def], folded slot_def]
    have "?f t = lb_file (b\<lparr>lb_file := write_at (lb_file b) (unat slot * 64) t\<rparr>) @ blob @ bytes" using c(3) by simp
    then show ?thesis using lsm_open_recovers [OF E c(1) t(3), of options] c(2,4) w(5) by (auto simp: opens_as_def)
  qed
  have bad: "lsm_open E (?f t) options = Err e" if "length t = 64" "decode_slot E slot t = Err e" for t e
    using lsm_open_bad_slot [OF header_is_append [OF hd(1)] that(1), of e "blob @ bytes" options] that(2) hd(2) by (simp add: slot_def)
  have kinds: "case decode_slot E slot t of Ok None \<Rightarrow> ?same (?f t) | Ok (Some _) \<Rightarrow> t = ?old \<or> t = ?new \<longrightarrow> ?same (?f t)
      | Err e \<Rightarrow> lsm_open E (?f t) options = Err e | Panic \<Rightarrow> False" if "length t = 64" "no_frame E (blob @ bytes)" for t
    using that torn bad at_old at_new decode_slot_no_panic [of E slot t] by (auto split: res.split option.split)
  have ver: "\<forall>e. decode_slot E slot (take j ?new @ drop j ?old) \<noteq> Err e"
    if "(\<exists>h. decode_slot E slot ?old = Ok (Some h)) \<or> ?old = replicate 64 0 \<and> (j < 8 \<or> 12 \<le> j)" for j
    using torn_version [OF old(1) that] by blast
  show ?thesis
    unfolding Let_def
    using slot_def w(1,2) b3 part kinds ver reopen [OF w(3,4)] reopen [OF b3(2,3)]
    by (intro exI [of _ slot] exI [of _ blob] exI [of _ bytes] exI [of _ off] exI [of _ b2] exI [of _ b3]) auto
qed

lemma demo_logged:
  obtains b where "lsm_inv demo_ext b" "es_active_memtable (lb_state b) \<noteq> []" "flush_room demo_ext b"
    "lsm_bview demo_ext b ''t'' [7] = Some [8]" "lb_options b = lsm_options_default"
    "es_sstables (lb_state b) = []" "es_active_memtable (lb_state b) = [([1, 116, 7], Value [8])]" "es_next_sstable_id (lb_state b) = 1"
proof -
  obtain b where b: "lsm_inv demo_ext b" "lsm_bview demo_ext b = (\<lambda>_. Map.empty)" "lb_options b = lsm_options_default"
      "es_active_memtable (lb_state b) = []" "es_sstables (lb_state b) = []"
      "es_next_sstable_id (lb_state b) = 1" "lb_header_seq b = 1" "length (lb_file b) = 145"
    by (rule demo_db) blast
  obtain fr where fr: "wal_frame demo_ext demo_pending = Ok fr" "length fr = 21" "sorted_keys demo_pending" by (rule demo_frame)
  have "length (lb_file b @ fr) < 2 ^ 64" using b(8) fr(2) by simp
  note log = logged_ok [OF b(1) fr(3,1) this]
  let ?b = "logged b demo_pending fr"
  have act: "es_active_memtable (lb_state ?b) = [([1, 116, 7], Value [8])]"
    by (simp add: logged_def b demo_pending_def apply_pending_def to_value_def)
  have "small demo_ext [([1, 116, 7], Value [8])] (length (lb_file ?b)) 1"
    by (rule demo_small [where K = 3]) (simp_all add: logged_def b fr enc_def encode_entry_def)
  then have "flush_room demo_ext ?b"
    unfolding flush_room_def act
    by (simp add: logged_def b lsm_write_options_def lsm_options_default_def fits_block_def enc_def encode_entry_def)
  moreover have "lsm_bview demo_ext ?b ''t'' [7] = Some [8]"
    unfolding log(2) by (simp add: tx_view_pending lsm_tbl_ok_def tprefix_def demo_pending_def)
  ultimately show thesis
    using that [of ?b] log(1) act b by (simp add: logged_def)
qed

theorem lsm_crash_during_flush_witness:
  "\<exists>b b' blob bytes. lsm_bview demo_ext b ''t'' [7] = Some [8] \<and>
    lsm_open demo_ext (lb_file b @ take 5 (blob @ bytes)) lsm_options_default = Ok b' \<and> lsm_bview demo_ext b' = lsm_bview demo_ext b"
proof -
  obtain b where b: "lsm_inv demo_ext b" "es_active_memtable (lb_state b) \<noteq> []" "flush_room demo_ext b"
      "lsm_bview demo_ext b ''t'' [7] = Some [8]"
    by (rule demo_logged) blast
  have "no_frame demo_ext (take 5 x)" for x by (simp add: no_frame_def)
  then show ?thesis
    using lsm_crash_during_flush [OF demo_ext_ok b(1-3), of lsm_options_default] b(4) unfolding opens_as_def by blast
qed

text \<open>C1: The LSM engine meets the backend contract. From a consistent backend, a write transaction built by
  any sequence of \<open>put\<close> and \<open>delete\<close> on well-named tables reads its own writes, and when its commit
  fits the file, \<open>commit\<close> succeeds, also when it flushes and compacts, leaving a consistent backend that
  holds exactly what the transaction saw; so does reopening the file afterwards.\<close>

theorem lsm_transaction_commits:
  assumes "ext_ok E" "lsm_inv E b" "lsm_begin_write b = Ok w0"
    and ws: "\<forall>(t, k, v)\<in>set ws. lsm_tbl_ok t"
    and run: "for_res (\<lambda>(t, k, v) w. case v of Some x \<Rightarrow> lsm_put w t k x | None \<Rightarrow> lsm_delete w t k) ws w0 = Ok w"
    and room: "lw_pending w \<noteq> [] \<longrightarrow> commit_room E b (lw_pending w)"
  shows "(\<forall>t k. lsm_tbl_ok t \<longrightarrow> lsm_write_get E w t k = Ok (fold (\<lambda>(t, k, v) \<sigma>. \<sigma>(t := (\<sigma> t)(k := v))) ws (lsm_bview E b) t k)) \<and>
    (\<exists>b'. lsm_commit E b w = Ok b' \<and> lsm_inv E b' \<and>
      lsm_bview E b' = fold (\<lambda>(t, k, v) \<sigma>. \<sigma>(t := (\<sigma> t)(k := v))) ws (lsm_bview E b) \<and>
      (\<exists>b''. lsm_open E (lb_file b') options = Ok b'' \<and> lsm_bview E b'' = lsm_bview E b'))"
proof -
  let ?step = "\<lambda>(t, k, v) w. case v of Some x \<Rightarrow> lsm_put w t k x | None \<Rightarrow> lsm_delete w t k"
  let ?upd = "\<lambda>(t, k, v) \<sigma>. \<sigma>(t := (\<sigma> t)(k := v)) :: store"
  have steps: "lsm_tx_ok E w' \<and> lw_snapshot w' = lw_snapshot w1 \<and> lsm_view E w' = fold ?upd ws (lsm_view E w1)"
    if "lsm_tx_ok E w1" "for_res ?step ws w1 = Ok w'" "\<forall>(t, k, v)\<in>set ws. lsm_tbl_ok t" for w1 w' ws
    using that
  proof (induction ws arbitrary: w1)
    case (Cons e ws)
    obtain t k v where e: "e = (t, k, v)" by (metis surj_pair)
    have t: "lsm_tbl_ok t" using Cons.prems(3) e by simp
    let ?w = "w1\<lparr>lw_pending := bt_insert (tprefix t @ k) v (lw_pending w1)\<rparr>"
    have "?step e w1 = Ok ?w"
      using e t by (cases v) (simp_all add: lsm_put_def lsm_delete_def)
    moreover have "lsm_tx_ok E ?w" using Cons.prems(1) by (simp add: lsm_tx_ok_def tx_ok_def)
    moreover have "lsm_view E ?w = ?upd e (lsm_view E w1)"
      unfolding lsm_view_put [OF t] by (simp add: e)
    ultimately show ?case
      using Cons.IH [of ?w] Cons.prems(2,3) e by (simp add: fun_upd_def)
  qed simp
  have "snap_ok E (lsm_snapshot b)" using lsm_inv_snap_ok [OF assms(2)] .
  then have w0: "lsm_tx_ok E w0" "lw_snapshot w0 = lsm_snapshot b" "lsm_view E w0 = lsm_bview E b"
    using assms(3) by (auto simp: lsm_begin_write_def lsm_tx_ok_def tx_ok_def lsm_view_def lsm_bview_def)
  note w = steps [OF w0(1) run ws, unfolded w0(2,3)]
  obtain b' where b': "lsm_commit E b w = Ok b'" "lsm_inv E b'" "lsm_bview E b' = lsm_view E w"
    using lsm.commit_view [of E b w] assms(1,2) w room by (auto simp: lsm_ops_def)
  then have "\<exists>b''. lsm_open E (lb_file b') options = Ok b'' \<and> lsm_bview E b'' = lsm_bview E b'"
    using lsm_open_recovers [OF assms(1) b'(2) no_frame_Nil, of options] by (auto simp: lsm_inv_def disk_ok_def)
  then show ?thesis
    using b' w lsm_w.get_view [of E w] by (auto simp: lsm_write_ops_def)
qed

theorem lsm_transaction_commits_witness:
  "\<exists>b b'. lsm_open demo_ext [] lsm_options_default = Ok b \<and>
    lsm_commit demo_ext b \<lparr>lw_snapshot = lsm_snapshot b, lw_pending = demo_pending\<rparr> = Ok b' \<and> lsm_bview demo_ext b' ''t'' [7] = Some [8]"
proof -
  obtain b where b: "lsm_open demo_ext [] lsm_options_default = Ok b" "lsm_inv demo_ext b" "lb_options b = lsm_options_default"
      "length (lb_file b) = 145" "es_active_memtable (lb_state b) = []"
    by (rule demo_db) blast
  obtain fr where fr: "wal_frame demo_ext demo_pending = Ok fr" "length fr = 21" by (rule demo_frame)
  have room: "commit_room demo_ext b demo_pending"
    unfolding commit_room_def using fr b
    by (intro exI [of _ fr]) (simp add: logged_def lsm_options_default_def demo_pending_def apply_pending_def to_value_def memtable_byte_size_def)
  let ?w = "\<lparr>lw_snapshot = lsm_snapshot b, lw_pending = demo_pending\<rparr>"
  have "for_res (\<lambda>(t, k, v) w. case v of Some x \<Rightarrow> lsm_put w t k x | None \<Rightarrow> lsm_delete w t k) [(''t'', [7], Some [8])]
      \<lparr>lw_snapshot = lsm_snapshot b, lw_pending = []\<rparr> = Ok ?w"
    by (simp add: lsm_put_def lsm_tbl_ok_def tprefix_def demo_pending_def)
  moreover have "lsm_begin_write b = Ok \<lparr>lw_snapshot = lsm_snapshot b, lw_pending = []\<rparr>" by (simp add: lsm_begin_write_def)
  moreover have "\<forall>(t, k, v)\<in>set [(''t'', [7], Some [8])]. lsm_tbl_ok t" by (simp add: lsm_tbl_ok_def)
  ultimately obtain b' where "lsm_commit demo_ext b ?w = Ok b'"
      "lsm_bview demo_ext b' = fold (\<lambda>(t, k, v) \<sigma>. \<sigma>(t := (\<sigma> t)(k := v))) [(''t'', [7], Some [8])] (lsm_bview demo_ext b)"
    using lsm_transaction_commits [OF demo_ext_ok b(2), of _ "[(''t'', [7], Some [8])]" ?w] room by fastforce
  then show ?thesis using b(1) by auto
qed

lemma demo_compact_room:
  assumes "\<forall>k. layers_view ls k = (if k = [1, 116, 7] then Some [8] else None)" "\<forall>l\<in>set ls. sorted_keys l"
    and "opts = lsm_write_options b" "lb_options b = lsm_options_default"
  shows "compact_room demo_ext opts ls"
proof -
  note live = live_pairs_ok [OF assms(2)]
  have "map_of (live_pairs ls) = map_of [([1, 116, 7], [8])]" using live(3) assms(1) by (auto simp: fun_eq_iff)
  then have "live_pairs ls = [([1, 116, 7], [8])]"
    using sorted_keys_unique [OF live(2), of "[([1, 116, 7], [8])]"] by simp
  moreover have "small demo_ext [([1, 116, 7], Value [8])] 128 1"
    by (rule demo_small [where K = 3]) (simp_all add: enc_def encode_entry_def)
  ultimately show ?thesis
    using assms(3,4)
    by (simp add: compact_room_def vals_def lsm_write_options_def lsm_options_default_def fits_block_def enc_def encode_entry_def)
qed

text \<open>C10: Forced compaction rewrites the file without changing the contents: it succeeds when the merged data
  fits, leaves a consistent backend with the same contents, and the renamed file opens to them.\<close>

theorem force_compact_keeps_contents:
  assumes "ext_ok E" "lsm_inv E b" "es_active_memtable (lb_state b) \<noteq> [] \<longrightarrow> flush_room E b"
    and "\<And>b1. flush E b = Ok b1 \<Longrightarrow> compact_room E (lsm_write_options b1) (sst_layers E b1) \<and> es_next_sstable_id (lb_state b1) \<noteq> -1"
  shows "\<exists>b' b''. force_compact E b = Ok b' \<and> lsm_inv E b' \<and> lsm_bview E b' = lsm_bview E b \<and>
    lsm_open E (lb_file b') options = Ok b'' \<and> lsm_bview E b'' = lsm_bview E b"
proof -
  obtain b1 where b1: "flush E b = Ok b1" "lsm_inv E b1" "lsm_bview E b1 = lsm_bview E b" "es_active_memtable (lb_state b1) = []"
    using flush_ok [OF assms(1-3)] by blast
  obtain b' where b': "compact_all E True b1 = Ok b'" "lsm_inv E b'" "lsm_bview E b' = lsm_bview E b"
    using compact_all_ok [OF assms(1) b1(2,4), of True] assms(4) [OF b1(1)] b1(3) by auto
  then have "\<exists>b''. lsm_open E (lb_file b') options = Ok b'' \<and> lsm_bview E b'' = lsm_bview E b"
    using lsm_open_recovers [OF assms(1) b'(2) no_frame_Nil, of options] by (auto simp: lsm_inv_def disk_ok_def)
  then show ?thesis using b1(1) b' by (auto simp: force_compact_def)
qed

theorem force_compact_keeps_contents_witness:
  "\<exists>b b' b''. lsm_bview demo_ext b ''t'' [7] = Some [8] \<and> force_compact demo_ext b = Ok b' \<and>
    lsm_open demo_ext (lb_file b') lsm_options_default = Ok b'' \<and> lsm_bview demo_ext b'' ''t'' [7] = Some [8]"
proof -
  obtain b where b: "lsm_inv demo_ext b" "es_active_memtable (lb_state b) \<noteq> []" "flush_room demo_ext b"
      "lsm_bview demo_ext b ''t'' [7] = Some [8]" "lb_options b = lsm_options_default"
      "es_sstables (lb_state b) = []" "es_active_memtable (lb_state b) = [([1, 116, 7], Value [8])]" "es_next_sstable_id (lb_state b) = 1"
    by (rule demo_logged) blast
  obtain b2 where b2: "flush demo_ext b = Ok b2" "lb_options b2 = lsm_options_default" "es_next_sstable_id (lb_state b2) = 2"
      "sst_layers demo_ext b2 = [[([1, 116, 7], Value [8])]]"
    using flush_writes [OF demo_ext_ok b(1,2)] b(3)
    by (auto simp: flush_room_def b(5-8) lsm_options_default_def sst_layers_def)
  have "compact_room demo_ext (lsm_write_options b2) (sst_layers demo_ext b2)"
    by (rule demo_compact_room [OF _ _ refl b2(2)]) (simp_all add: b2(4) layers_view_def live_def)
  then show ?thesis
    using force_compact_keeps_contents [OF demo_ext_ok b(1), of lsm_options_default] b(3,4) b2(1,3) by auto
qed

text \<open>C27: A backup opens to the same contents. For any consistent backend whose live data fits, the file that
  \<open>backup_to\<close> writes is a valid database, and opening it yields exactly the backend's contents.\<close>

theorem backup_opens_to_same_contents:
  assumes "ext_ok E" "lsm_inv E b" "compact_room E (lsm_write_options b) (snap_layers E (lsm_snapshot b))"
  shows "\<exists>f b'. backup_to E b = Ok f \<and> lsm_open E f options = Ok b' \<and> lsm_bview E b' = lsm_bview E b"
  using backup_ok [OF assms, of options] by blast

theorem backup_opens_to_same_contents_witness:
  "\<exists>b f b'. lsm_bview demo_ext b ''t'' [7] = Some [8] \<and> backup_to demo_ext b = Ok f \<and>
    lsm_open demo_ext f lsm_options_default = Ok b' \<and> lsm_bview demo_ext b' ''t'' [7] = Some [8]"
proof -
  obtain b where b: "lsm_inv demo_ext b" "lsm_bview demo_ext b ''t'' [7] = Some [8]" "lb_options b = lsm_options_default"
      "es_sstables (lb_state b) = []" "es_active_memtable (lb_state b) = [([1, 116, 7], Value [8])]"
    by (rule demo_logged) blast
  have "es_immutable_memtables (lb_state b) = []" using b(1) by (auto simp: lsm_inv_def)
  then have "compact_room demo_ext (lsm_write_options b) (snap_layers demo_ext (lsm_snapshot b))"
    by (intro demo_compact_room [OF _ _ refl b(3)])
      (simp_all add: b(4,5) snap_layers_def lsm_snapshot_def layers_view_def live_def)
  then show ?thesis
    using backup_opens_to_same_contents [OF demo_ext_ok b(1), of lsm_options_default] b(2) by auto
qed

end
