(* ===== verification/Graph_Correct.thy ===== *)
theory Graph_Correct
  imports Graph_Cascade Graph_Db Value_Codec Lsm_Durable Mem_Backend
begin

text \<open>
  The contract of the graph layer. Both backends provide transactions the graph layer can run on; for
  every such transaction the operations refine the operations on the abstract graph.
\<close>

section \<open>The two backends\<close>

interpretation mem_gr: graph_read mem_read_ops "\<lambda>r. mem_tables_ok (mr_snapshot r)" "\<lambda>_. True" "\<lambda>r. mem_snapshot_get (mr_snapshot r)"
  by unfold_locales simp

interpretation mem_gw: graph_store mem_write_ops mem_tx_ok "\<lambda>_. True" mem_view
  by unfold_locales simp

lemma reserved_tbl_ok: "is_reserved t \<Longrightarrow> lsm_tbl_ok t"
  by (auto simp: is_reserved_def RESERVED_TABLE_NAMES_def lsm_tbl_ok_def)

interpretation lsm_gr: graph_read "lsm_read_ops E" "\<lambda>r. snap_ok E (lr_snapshot r)" lsm_tbl_ok "\<lambda>r. tx_view E (lr_snapshot r) None" for E
  by unfold_locales (rule reserved_tbl_ok)

interpretation lsm_gw: graph_store "lsm_write_ops E" "lsm_tx_ok E" lsm_tbl_ok "lsm_view E" for E
  by unfold_locales (rule reserved_tbl_ok)

text \<open>A transaction on a new in-memory database, for the witnesses.\<close>

definition demo_tx :: mem_write_tx where
  "demo_tx = \<lparr>mw_snapshot = [], mw_pending = []\<rparr>"

definition demo_node :: node_record where
  "demo_node = \<lparr>nr_label = ''P'', nr_properties = [(''n'', IntV 7)]\<rparr>"

abbreviation demo_graph_tx :: "mem_write_tx \<Rightarrow> graph \<Rightarrow> bool" where
  "demo_graph_tx \<equiv> graph_tx mem_tx_ok mem_view demo_codecs (\<lambda>_. Map.empty)"

lemma demo_empty: "demo_graph_tx demo_tx empty_graph"
proof -
  have "mem_view demo_tx = (\<lambda>_. Map.empty)" by (simp add: fun_eq_iff demo_tx_def mem_view_def mem_snapshot_get_def)
  moreover have "mem_tx_ok demo_tx" by (simp add: demo_tx_def mem_tx_ok_def mem_tables_ok_def)
  ultimately show ?thesis by (simp add: graph_tx_def graph_view_def demo_codecs_ok empty_repr)
qed

lemma demo_node_ok: "node_ok \<lparr>nr_label = ''P'', nr_properties = [(''n'', IntV 7)]\<rparr>"
  by (simp add: node_ok_def properties_ok_def)

section \<open>Refinement of the abstract graph\<close>

text \<open>C6: Creating a node in a transaction that shows the graph \<open>g\<close> succeeds, returns the next free id and leaves a
  transaction that shows \<open>g\<close> with that node added, every index row in place and every user table unchanged.\<close>

theorem create_node_refines:
  assumes "graph_store ops I ok view" "graph_tx I view C \<sigma> w g" "node_ok \<lparr>nr_label = l, nr_properties = ps\<rparr>" "length l < 2 ^ 16"
    and "g_next_node g \<noteq> - 1"
  shows "\<exists>w'. create_node_in C ops w l ps = Ok (g_next_node g, w') \<and>
    graph_tx I view C \<sigma> w' (add_node \<lparr>nr_label = l, nr_properties = ps\<rparr> g)"
  using graph_store.create_node_wp [OF assms(1,2,3) _ assms(5)] assms(4) by (auto simp: ok_with_iff)

theorem create_node_refines_witness:
  "\<exists>w'. create_node_in demo_codecs mem_write_ops demo_tx ''P'' [(''n'', IntV 7)] = Ok (1, w') \<and> demo_graph_tx w' (add_node demo_node empty_graph)"
  using create_node_refines [OF mem_gw.graph_store_axioms demo_empty demo_node_ok] by (simp add: empty_graph_def demo_node_def)

text \<open>One node, and two nodes with an edge between them.\<close>

definition demo_edge :: edge_record where
  "demo_edge = \<lparr>er_from = 1, er_to = 2, er_edge_type = ''k'', er_properties = []\<rparr>"

definition demo_graph :: graph where
  "demo_graph = add_edge demo_edge (add_node demo_node (add_node demo_node empty_graph))"

lemmas demo_defs = demo_graph_def demo_edge_def demo_node_def add_edge_def set_edge_def take_edge_ids_def
  add_node_def set_node_def take_node_ids_def mark_ready_def empty_graph_def

lemma demo_edge_ok: "edge_ok \<lparr>er_from = 1, er_to = 2, er_edge_type = ''k'', er_properties = []\<rparr>"
  by (simp add: edge_ok_def properties_ok_def)

lemma demo_nodes: "\<exists>w. demo_graph_tx w (add_node demo_node (add_node demo_node empty_graph))"
proof -
  obtain w where "demo_graph_tx w (add_node demo_node empty_graph)"
    using mem_gw.create_node_wp [OF demo_empty demo_node_ok] by (auto simp: ok_with_iff empty_graph_def demo_node_def)
  from mem_gw.create_node_wp [OF this demo_node_ok] show ?thesis by (auto simp: ok_with_iff demo_defs)
qed

lemma demo_graph_shown: "\<exists>w. demo_graph_tx w demo_graph"
proof -
  obtain w where "demo_graph_tx w (add_node demo_node (add_node demo_node empty_graph))" using demo_nodes by blast
  from mem_gw.create_edge_wp [OF this demo_edge_ok] show ?thesis by (auto simp: ok_with_iff demo_defs)
qed

text \<open>A batch of nodes gets consecutive ids, and the result is the graph that creating the nodes one by one gives.\<close>

theorem create_nodes_bulk_refines:
  assumes "graph_store ops I ok view" "graph_tx I view C \<sigma> w g" "unat (g_next_node g) + length items < 2 ^ 64"
    and "\<forall>x\<in>set items. node_ok (item_node x) \<and> length (fst x) < 2 ^ 16"
  shows "\<exists>w'. create_nodes_bulk_in C ops w items = Ok (map (\<lambda>k. g_next_node g + word_of_nat k) [0..<length items], w') \<and>
    graph_tx I view C \<sigma> w' (fold add_node (map item_node items) g)"
  using graph_store.create_nodes_bulk_wp [OF assms(1,2) _ assms(3)] assms(4) by (auto simp: ok_with_iff)

theorem create_nodes_bulk_refines_witness:
  "\<exists>w'. create_nodes_bulk_in demo_codecs mem_write_ops demo_tx [(''P'', [(''n'', IntV 7)]), (''P'', [(''n'', IntV 7)])] = Ok ([1, 2], w') \<and>
    demo_graph_tx w' (add_node demo_node (add_node demo_node empty_graph))"
  using create_nodes_bulk_refines [OF mem_gw.graph_store_axioms demo_empty, of "[(''P'', [(''n'', IntV 7)]), (''P'', [(''n'', IntV 7)])]"] demo_node_ok
  by (simp add: empty_graph_def demo_node_def)

text \<open>C7: An edge is created exactly when both its endpoints exist; otherwise the call reports \<open>NotFound\<close>.\<close>

theorem create_edge_refines:
  assumes "graph_store ops I ok view" "graph_tx I view C \<sigma> w g" "length l < 2 ^ 16" "g_next_edge g \<noteq> - 1"
    and "edge_ok \<lparr>er_from = a, er_to = b, er_edge_type = l, er_properties = ps\<rparr>"
  shows "if g_nodes g a = None \<or> g_nodes g b = None then create_edge_in C ops w a l b ps = Err NotFound
    else \<exists>w'. create_edge_in C ops w a l b ps = Ok (g_next_edge g, w') \<and>
      graph_tx I view C \<sigma> w' (add_edge \<lparr>er_from = a, er_to = b, er_edge_type = l, er_properties = ps\<rparr> g)"
  using graph_store.create_edge_wp [OF assms(1,2,5) _ assms(4)] graph_store.create_edge_missing [OF assms(1,2)] assms(3)
  by (auto simp: ok_with_iff)

theorem create_edge_refines_witness:
  "\<exists>w w'. create_edge_in demo_codecs mem_write_ops w 1 ''k'' 2 [] = Ok (1, w') \<and> demo_graph_tx w' demo_graph \<and>
    create_edge_in demo_codecs mem_write_ops w 1 ''k'' 3 [] = Err NotFound"
proof -
  obtain w where w: "demo_graph_tx w (add_node demo_node (add_node demo_node empty_graph))" using demo_nodes by blast
  have "edge_ok \<lparr>er_from = 1, er_to = 3, er_edge_type = ''k'', er_properties = []\<rparr>" by (simp add: edge_ok_def properties_ok_def)
  then show ?thesis
    using create_edge_refines [OF mem_gw.graph_store_axioms w _ _ demo_edge_ok]
      create_edge_refines [OF mem_gw.graph_store_axioms w, of "''k''" 1 3 "[]"]
    by (simp add: demo_defs) blast
qed

text \<open>C4: Deleting a node removes the node and exactly the edges that touch it, in both adjacency tables, together with its
  index rows; nothing else changes.\<close>

theorem delete_node_refines:
  assumes "graph_store ops I ok view" "graph_tx I view C \<sigma> w g"
  shows "\<exists>w'. delete_node_in C ops w i = Ok w' \<and> graph_tx I view C \<sigma> w' (del_node i g)"
  using graph_store.delete_node_wp [OF assms, of i] by (auto simp: ok_with_iff)

theorem delete_node_refines_witness:
  "\<exists>w w'. demo_graph_tx w demo_graph \<and> delete_node_in demo_codecs mem_write_ops w 2 = Ok w' \<and> demo_graph_tx w' (del_node 2 demo_graph)"
  using delete_node_refines [OF mem_gw.graph_store_axioms, of demo_codecs "\<lambda>_. Map.empty" _ demo_graph 2] demo_graph_shown by blast

text \<open>C8: A cascading deletion returns exactly the nodes reachable from the root over edges of the given type, root first and
  each once, and removes them with every edge that touches one of them; a missing root is \<open>NotFound\<close>.\<close>

theorem cascade_delete_refines:
  assumes "graph_store ops I ok view" "graph_tx I view C \<sigma> w g" "length l < 2 ^ 16"
  shows "if g_nodes g root = None then cascade_delete_in C ops w root l = Err NotFound
    else \<exists>ids w'. cascade_delete_in C ops w root l = Ok (ids, w') \<and> distinct ids \<and> set ids = reachable g l root \<and> hd ids = root \<and>
      graph_tx I view C \<sigma> w' (del_nodes (reachable g l root) g)"
  using graph_store.cascade_delete_wp [OF assms(1,2)] graph_store.cascade_delete_missing [OF assms(1,2)] assms(3)
  by (auto simp: ok_with_iff)

theorem cascade_delete_refines_witness:
  "\<exists>w ids w'. demo_graph_tx w demo_graph \<and> cascade_delete_in demo_codecs mem_write_ops w 1 ''k'' = Ok (ids, w') \<and> hd ids = 1 \<and>
    demo_graph_tx w' (del_nodes (reachable demo_graph ''k'' 1) demo_graph)"
proof -
  obtain w where w: "demo_graph_tx w demo_graph" using demo_graph_shown by blast
  have "g_nodes demo_graph 1 \<noteq> None" by (simp add: demo_defs)
  then obtain ids w' where "cascade_delete_in demo_codecs mem_write_ops w 1 ''k'' = Ok (ids, w')" "hd ids = 1"
      "demo_graph_tx w' (del_nodes (reachable demo_graph ''k'' 1) demo_graph)"
    using cascade_delete_refines [OF mem_gw.graph_store_axioms w, of "''k''" 1] by auto
  then show ?thesis using w by blast
qed

text \<open>Deleting an edge removes its record and both adjacency rows and reports whether it existed.\<close>

theorem delete_edge_refines:
  assumes "graph_store ops I ok view" "graph_tx I view C \<sigma> w g"
  shows "\<exists>w'. delete_edge_in C ops w e = Ok (g_edges g e \<noteq> None, w') \<and> graph_tx I view C \<sigma> w' (del_edge e g)"
  using graph_store.delete_edge_wp [OF assms, of e] by (auto simp: ok_with_iff)

theorem delete_edge_refines_witness:
  "\<exists>w w'. demo_graph_tx w demo_graph \<and> delete_edge_in demo_codecs mem_write_ops w 1 = Ok (True, w') \<and> demo_graph_tx w' (del_edge 1 demo_graph)"
proof -
  obtain w where w: "demo_graph_tx w demo_graph" using demo_graph_shown by blast
  moreover have "g_edges demo_graph 1 \<noteq> None" by (simp add: demo_defs)
  ultimately show ?thesis using delete_edge_refines [OF mem_gw.graph_store_axioms w, of 1] by auto
qed

text \<open>Updating the properties of a node replaces its record and moves exactly its own index rows; a missing node is
  \<open>NotFound\<close>.\<close>

theorem update_node_refines:
  assumes "graph_store ops I ok view" "graph_tx I view C \<sigma> w g" "\<And>r. node_ok r \<Longrightarrow> node_ok (r\<lparr>nr_properties := f (nr_properties r)\<rparr>)"
  shows "case g_nodes g i of None \<Rightarrow> update_node_properties_in C ops w i f = Err NotFound
    | Some r \<Rightarrow> \<exists>w'. update_node_properties_in C ops w i f = Ok w' \<and>
        graph_tx I view C \<sigma> w' (set_node i (r\<lparr>nr_properties := f (nr_properties r)\<rparr>) g)"
proof (cases "g_nodes g i")
  case None
  then show ?thesis using graph_store.update_node_missing [OF assms(1,2)] by simp
next
  case (Some r)
  have "graph_wf g" using assms(2) by (simp add: graph_tx_def graph_view_def graph_repr_def)
  then have "node_ok (r\<lparr>nr_properties := f (nr_properties r)\<rparr>)" using wf_nodeD Some assms(3) by blast
  from graph_store.update_node_properties_wp [where f = f, OF assms(1,2) Some this] Some show ?thesis by (auto simp: ok_with_iff)
qed

theorem update_node_refines_witness:
  "\<exists>w w'. demo_graph_tx w demo_graph \<and> update_node_properties_in demo_codecs mem_write_ops w 1 (\<lambda>_. []) = Ok w' \<and>
    demo_graph_tx w' (set_node 1 (demo_node\<lparr>nr_properties := []\<rparr>) demo_graph)"
proof -
  obtain w where w: "demo_graph_tx w demo_graph" using demo_graph_shown by blast
  have "node_ok (r\<lparr>nr_properties := []\<rparr>)" if "node_ok r" for r using that by (simp add: node_ok_def properties_ok_def)
  moreover have "g_nodes demo_graph 1 = Some demo_node" by (simp add: demo_defs)
  ultimately show ?thesis using update_node_refines [OF mem_gw.graph_store_axioms w, of "\<lambda>_. []" 1] w by auto
qed

text \<open>C31: Building an index, dropping it and rebuilding all of them change the set of indexes as asked and leave nodes, edges
  and user tables alone; a rebuild completes the label index.\<close>

theorem index_management_refines:
  assumes "graph_store ops I ok view" "graph_tx I view C \<sigma> w g" "node_names_ok l" "node_names_ok p"
  shows "\<exists>w1 w2 w3. create_property_index_in C ops w l p = Ok ((l, p) \<notin> g_indexes g, w1) \<and>
      graph_tx I view C \<sigma> w1 (g\<lparr>g_indexes := insert (l, p) (g_indexes g)\<rparr>) \<and>
    drop_property_index_in ops w l p = Ok ((l, p) \<in> g_indexes g, w2) \<and>
      graph_tx I view C \<sigma> w2 (g\<lparr>g_indexes := g_indexes g - {(l, p)}\<rparr>) \<and>
    rebuild_indexes_in C ops w = Ok w3 \<and> graph_tx I view C \<sigma> w3 (g\<lparr>g_labels_ready := True\<rparr>)"
  using graph_store.create_index_wp [OF assms] graph_store.drop_index_wp [OF assms(1,2), of l p]
    graph_store.rebuild_indexes_wp [OF assms(1,2)] assms(3,4)
  by (auto simp: ok_with_iff node_names_ok_def)

theorem index_management_refines_witness:
  "\<exists>w w1. demo_graph_tx w demo_graph \<and> create_property_index_in demo_codecs mem_write_ops w ''P'' ''n'' = Ok (True, w1) \<and>
    demo_graph_tx w1 (demo_graph\<lparr>g_indexes := {(''P'', ''n'')}\<rparr>)"
proof -
  obtain w where w: "demo_graph_tx w demo_graph" using demo_graph_shown by blast
  moreover have "node_names_ok ''P''" "node_names_ok ''n''" "g_indexes demo_graph = {}" by (simp_all add: node_names_ok_def demo_defs)
  ultimately show ?thesis using index_management_refines [OF mem_gw.graph_store_axioms w, of "''P''" "''n''"] by auto
qed

section \<open>Reads\<close>

text \<open>C32: The neighbours of a node over edges of one type are exactly the endpoints of those edges, in ascending order of
  neighbour and edge id, and the two directions agree on which edges exist.\<close>

theorem neighbors_exact:
  assumes "graph_read ops I ok view" "graph_view I view C r g" "length l < 2 ^ 16"
  shows "\<exists>out inc. neighbors_out_in ops r i l = Ok out \<and> sorted_wrt (<) out \<and>
      set out = {(j, e). \<exists>x. g_edges g e = Some x \<and> er_from x = i \<and> er_to x = j \<and> er_edge_type x = l} \<and>
    neighbors_in_in ops r i l = Ok inc \<and> sorted_wrt (<) inc \<and>
      set inc = {(j, e). \<exists>x. g_edges g e = Some x \<and> er_to x = i \<and> er_from x = j \<and> er_edge_type x = l}"
proof -
  have out: "\<exists>ns. neighbors_out_in ops r i l = Ok ns \<and> sorted_wrt (<) ns \<and>
      set ns = {(j, e). \<exists>x. g_edges g e = Some x \<and> near ADJ_OUT x = i \<and> er_edge_type x = l \<and> far ADJ_OUT x = j}"
    using graph_read.neighbors_typed_view [OF assms(1,2), of ADJ_OUT l i] assms(3) by (simp add: neighbors_out_in_def)
  have inc: "\<exists>ns. neighbors_in_in ops r i l = Ok ns \<and> sorted_wrt (<) ns \<and>
      set ns = {(j, e). \<exists>x. g_edges g e = Some x \<and> near ADJ_IN x = i \<and> er_edge_type x = l \<and> far ADJ_IN x = j}"
    using graph_read.neighbors_typed_view [OF assms(1,2), of ADJ_IN l i] assms(3) by (simp add: neighbors_in_in_def)
  show ?thesis using out inc by (simp add: near_def far_def conj_commute)
qed

theorem neighbors_exact_witness:
  "\<exists>w. neighbors_out_in mem_write_ops w 1 ''k'' = Ok [(2, 1)]"
proof -
  obtain w where w: "demo_graph_tx w demo_graph" using demo_graph_shown by blast
  then have "graph_view mem_tx_ok mem_view demo_codecs w demo_graph" by (simp add: graph_tx_def)
  then obtain out where out: "neighbors_out_in mem_write_ops w 1 ''k'' = Ok out" "sorted_wrt (<) out"
      "set out = {(j, e). \<exists>x. g_edges demo_graph e = Some x \<and> er_from x = 1 \<and> er_to x = j \<and> er_edge_type x = ''k''}"
    using neighbors_exact [OF mem_gw.graph_read_axioms, of demo_codecs w demo_graph "''k''" 1] by auto
  have "g_edges demo_graph e = (if e = 1 then Some demo_edge else None)" for e by (simp add: demo_defs)
  then have "set out = {(2, 1)}" using out(3) by (auto simp: demo_edge_def)
  then have "out = [(2, 1)]" using out(2) by (intro sorted_distinct_set_unique) (auto simp: strict_sorted_iff)
  then show ?thesis using out(1) by blast
qed

text \<open>A lookup by label returns exactly the nodes with that label in ascending order, whether the label index answers it
  or a scan of the node table.\<close>

theorem nodes_by_label_exact:
  assumes "graph_read ops I ok view" "graph_view I view C r g" "length l < 2 ^ 16"
  shows "\<exists>ids. nodes_by_label_in C ops r l = Ok ids \<and> sorted_wrt (<) ids \<and> set ids = {i. \<exists>x. g_nodes g i = Some x \<and> nr_label x = l}"
  using graph_read.nodes_by_label_view [OF assms(1) graph_view_core [OF assms(2)]] assms(3) by (simp add: labelled_def)

lemma list_of_set: "sorted_wrt (<) xs \<Longrightarrow> sorted_wrt (<) ys \<Longrightarrow> set xs = set ys \<Longrightarrow> (xs :: 'a::linorder list) = ys"
  by (intro sorted_distinct_set_unique) (auto simp: strict_sorted_iff)

theorem nodes_by_label_exact_witness: "\<exists>w. nodes_by_label_in demo_codecs mem_write_ops w ''P'' = Ok [1, 2]"
proof -
  obtain w where w: "demo_graph_tx w demo_graph" using demo_graph_shown by blast
  then have "graph_view mem_tx_ok mem_view demo_codecs w demo_graph" by (simp add: graph_tx_def)
  then obtain ids where ids: "nodes_by_label_in demo_codecs mem_write_ops w ''P'' = Ok ids" "sorted_wrt (<) ids"
      "set ids = {i. \<exists>x. g_nodes demo_graph i = Some x \<and> nr_label x = ''P''}"
    using nodes_by_label_exact [OF mem_gw.graph_read_axioms, of demo_codecs w demo_graph "''P''"] by auto
  moreover have "{i. \<exists>x. g_nodes demo_graph i = Some x \<and> nr_label x = ''P''} = set [1, 2]" by (auto simp: demo_defs split: if_splits)
  ultimately have "ids = [1, 2]" by (intro list_of_set) auto
  then show ?thesis using ids(1) by blast
qed

text \<open>C33: A lookup by property value returns exactly the nodes with that label and an equal value, in ascending order, with or
  without an index, as long as the indexed values of the property are of the kind that is asked for.\<close>

theorem find_nodes_exact:
  assumes "graph_read ops I ok view" "graph_view I view C r g" "length l < 2 ^ 16" "length p < 2 ^ 16"
    and "\<And>i x u. (l, p) \<in> g_indexes g \<Longrightarrow> g_nodes g i = Some x \<Longrightarrow> nr_label x = l \<Longrightarrow> map_of (nr_properties x) p = Some u \<Longrightarrow>
      index_value_key u \<noteq> None \<Longrightarrow> kind_name u = kind_name v"
  shows "\<exists>ids. find_nodes_in C ops r l p v = Ok ids \<and> sorted_wrt (<) ids \<and>
    set ids = {i. \<exists>x. g_nodes g i = Some x \<and> nr_label x = l \<and> opt_prop_eq (map_of (nr_properties x) p) (Some v)}"
  using graph_read.find_nodes_view [OF assms(1,2), of l p v] assms(3-) by (simp add: having_def)

lemma demo_indexed: "\<exists>w. demo_graph_tx w (demo_graph\<lparr>g_indexes := {(''P'', ''n'')}\<rparr>)"
proof -
  obtain w where w: "demo_graph_tx w demo_graph" using demo_graph_shown by blast
  from mem_gw.create_index_wp [OF this, of "''P''" "''n''"] show ?thesis by (auto simp: ok_with_iff node_names_ok_def demo_defs)
qed

theorem find_nodes_exact_witness: "\<exists>w. find_nodes_in demo_codecs mem_write_ops w ''P'' ''n'' (IntV 7) = Ok [1, 2]"
proof -
  let ?g = "demo_graph\<lparr>g_indexes := {(''P'', ''n'')}\<rparr>"
  obtain w where w: "demo_graph_tx w ?g" using demo_indexed by blast
  then have v: "graph_view mem_tx_ok mem_view demo_codecs w ?g" by (simp add: graph_tx_def)
  have "kind_name u = kind_name (IntV 7)" if "g_nodes ?g i = Some x" "map_of (nr_properties x) ''n'' = Some u" for i x u
    using that by (auto simp: demo_defs kind_name_def split: if_splits)
  then obtain ids where ids: "find_nodes_in demo_codecs mem_write_ops w ''P'' ''n'' (IntV 7) = Ok ids" "sorted_wrt (<) ids"
      "set ids = {i. \<exists>x. g_nodes ?g i = Some x \<and> nr_label x = ''P'' \<and> opt_prop_eq (map_of (nr_properties x) ''n'') (Some (IntV 7))}"
    using find_nodes_exact [OF mem_gw.graph_read_axioms v, of "''P''" "''n''" "IntV 7"] by auto
  moreover have "{i. \<exists>x. g_nodes ?g i = Some x \<and> nr_label x = ''P'' \<and> opt_prop_eq (map_of (nr_properties x) ''n'') (Some (IntV 7))} = set [1, 2]"
    by (auto simp: demo_defs opt_prop_eq_def split: if_splits)
  ultimately have "ids = [1, 2]" by (intro list_of_set) auto
  then show ?thesis using ids(1) by blast
qed

text \<open>C34: Without that restriction the index answers wrongly: the keys of integers and of strings are not told apart, and a
  lookup for the string \<open>a\<close> returns a node whose value is an integer.\<close>

theorem find_nodes_collision:
  "\<exists>w g. graph_tx mem_tx_ok mem_view demo_codecs (\<lambda>_. Map.empty) w g \<and> find_nodes_in demo_codecs mem_write_ops w ''P'' ''n'' (Str ''a'') = Ok [1] \<and>
    g_nodes g 1 = Some \<lparr>nr_label = ''P'', nr_properties = [(''n'', IntV 0xE100000000000000)]\<rparr>"
proof -
  let ?r = "\<lparr>nr_label = ''P'', nr_properties = [(''n'', IntV 0xE100000000000000)]\<rparr>"
  let ?g = "(add_node ?r empty_graph)\<lparr>g_indexes := {(''P'', ''n'')}\<rparr>"
  let ?p = "encode_edge_type ''P'' @ encode_edge_type ''n'' @ as_bytes ''a'' @ [0]"
  obtain w0 where w0: "demo_graph_tx w0 (add_node ?r empty_graph)"
    using mem_gw.create_node_wp [OF demo_empty, of "''P''" "[(''n'', IntV 0xE100000000000000)]"]
    by (auto simp: ok_with_iff empty_graph_def node_ok_def properties_ok_def)
  obtain w where w: "demo_graph_tx w ?g"
    using mem_gw.create_index_wp [OF w0, of "''P''" "''n''"] by (auto simp: ok_with_iff node_names_ok_def add_node_def set_node_def take_node_ids_def mark_ready_def empty_graph_def)
  then have v: "graph_view mem_tx_ok mem_view demo_codecs w ?g" by (simp add: graph_tx_def)
  have nodes: "g_nodes ?g = [1 \<mapsto> ?r]" by (simp add: add_node_def set_node_def take_node_ids_def mark_ready_def empty_graph_def)
  let ?k = "encode_edge_type ''P'' @ encode_edge_type ''n'' @ be64 0x6100000000000000 @ be64 1"
  have "prop_keys (g_nodes ?g) {(''P'', ''n'')} = {?k}"
    unfolding nodes by (auto simp: prop_keys_def node_rows_of_def prop_row_def index_value_key_def sortable_key_def)
  then have view: "mem_tx_ok w" "mem_view w NODE_PROPS = flags {?k}" using v by (auto simp: graph_view_def graph_repr_def)
  have "of_be64 [0x61, 0, 0, 0, 0, 0, 0, 0] = 0x6100000000000000" by (simp add: of_be64_def of_be_simps)
  then have "be64 0x6100000000000000 = [0x61, 0, 0, 0, 0, 0, 0, 0]" using be64_of_be64 [of "[0x61, 0, 0, 0, 0, 0, 0, 0]"] by simp
  then have pre: "prefix ?p ?k" by simp
  obtain ks where ks: "scan_prefix mem_write_ops w NODE_PROPS ?p = Ok ks" "sorted_wrt (<) ks" "set ks = {k. prefix ?p k \<and> mem_view w NODE_PROPS k \<noteq> None}"
    using mem_gw.scan_prefix_wp [OF view(1) tables_reserved(7)] by blast
  have "set ks = {?k}" unfolding ks(3) view(2) using pre by (auto simp del: same_prefix_prefix)
  then have "ks = [?k]" using ks(2) by (intro list_of_set) auto
  moreover have "mem_view w META (reg_key ''P'' ''n'') \<noteq> None" using mem_gw.registered [OF v, of "''P''" "''n''"] by simp
  ultimately have "find_nodes_in demo_codecs mem_write_ops w ''P'' ''n'' (Str ''a'') = traverse trailing_node_id [?k]"
    using ks(1) mem_gw.get_wp [OF view(1), of META] by (simp add: find_nodes_in_def index_value_key_def sortable_key_def bind_res_def)
  moreover have "trailing_node_id ?k = Ok 1" using trailing_id [of "encode_edge_type ''P'' @ encode_edge_type ''n'' @ be64 0x6100000000000000" 1] by simp
  ultimately show ?thesis using w nodes by (intro exI [of _ w] exI [of _ ?g]) simp
qed

end
