(* ===== verification/Bfs.thy ===== *)
theory Bfs
  imports Main
begin

text \<open>
  Breadth-first search over a successor function, independent of how it is computed: distances in
  steps, and the invariant of a search with a set of visited nodes and a queue. Taking the head off
  the queue and appending its new successors keeps the invariant.
\<close>

locale bfs =
  fixes succ :: "'v \<Rightarrow> 'v set" and start :: 'v
begin

definition step :: "('v \<times> 'v) set" where
  "step = {(a, b). b \<in> succ a}"

definition reached :: "'v \<Rightarrow> bool" where
  "reached v \<longleftrightarrow> (start, v) \<in> step\<^sup>*"

definition dist :: "'v \<Rightarrow> nat" where
  "dist v = (LEAST k. (start, v) \<in> step ^^ k)"

lemma reached_start [simp]: "reached start"
  by (simp add: reached_def)

lemma reached_succ: "reached u \<Longrightarrow> v \<in> succ u \<Longrightarrow> reached v"
  by (auto simp: reached_def step_def intro: rtrancl_into_rtrancl)

lemma dist_path: "reached v \<Longrightarrow> (start, v) \<in> step ^^ dist v"
  unfolding dist_def reached_def by (metis LeastI_ex rtrancl_power)

lemma dist_le: "(start, v) \<in> step ^^ k \<Longrightarrow> dist v \<le> k"
  unfolding dist_def by (rule Least_le)

lemma dist_start [simp]: "dist start = 0"
  using dist_le [of start 0] by simp

lemma dist_0: "reached v \<Longrightarrow> dist v = 0 \<Longrightarrow> v = start"
  using dist_path [of v] by simp

lemma dist_succ: "reached u \<Longrightarrow> v \<in> succ u \<Longrightarrow> dist v \<le> Suc (dist u)"
  using dist_path [of u] by (intro dist_le) (auto simp: step_def)

lemma dist_pred:
  assumes "reached v" "dist v = Suc k"
  obtains u where "reached u" "v \<in> succ u" "dist u = k"
proof -
  obtain u where u: "(start, u) \<in> step ^^ k" "(u, v) \<in> step" using dist_path [OF assms(1)] assms(2) by auto
  then have "reached u" "v \<in> succ u" by (auto simp: reached_def step_def rtrancl_power)
  moreover have "dist u = k" using dist_le [OF u(1)] dist_succ [OF calculation] assms(2) by simp
  ultimately show ?thesis by (rule that)
qed

definition searching :: "'v set \<Rightarrow> 'v list \<Rightarrow> bool" where
  "searching V Q \<longleftrightarrow> start \<in> V \<and> set Q \<subseteq> V \<and> (\<forall>v\<in>V. reached v) \<and> sorted (map dist Q) \<and> (\<forall>v\<in>V - set Q. succ v \<subseteq> V) \<and>
    (Q \<noteq> [] \<longrightarrow> (\<forall>v. reached v \<and> dist v \<le> dist (hd Q) \<longrightarrow> v \<in> V) \<and> (\<forall>v\<in>V. dist v \<le> Suc (dist (hd Q))))"

lemma searching_start: "searching {start} [start]"
  using dist_0 by (auto simp: searching_def)

lemma searching_new:
  assumes "searching V (u # Q)" "w \<in> succ u" "w \<notin> V"
  shows "reached w" "dist w = Suc (dist u)"
proof -
  have u: "reached u" "u \<in> V" using assms(1) by (auto simp: searching_def)
  show "reached w" using reached_succ [OF u(1) assms(2)] .
  moreover have "\<not> dist w \<le> dist u" using assms(1,3) calculation by (auto simp: searching_def)
  ultimately show "dist w = Suc (dist u)" using dist_succ [OF u(1) assms(2)] by simp
qed

lemma searching_step:
  assumes I: "searching V (u # Q)" and new: "set new = succ u - V" "V' = V \<union> succ u"
  shows "searching V' (Q @ new)"
proof -
  let ?d = "dist u"
  have V: "start \<in> V" "u \<in> V" "set Q \<subseteq> V" "\<And>v. v \<in> V \<Longrightarrow> reached v" "\<And>v. reached v \<Longrightarrow> dist v \<le> ?d \<Longrightarrow> v \<in> V"
      "\<And>v. v \<in> V \<Longrightarrow> dist v \<le> Suc ?d" "\<And>v. v \<in> V \<Longrightarrow> v \<noteq> u \<Longrightarrow> v \<notin> set Q \<Longrightarrow> succ v \<subseteq> V"
      "sorted (map dist Q)" "\<And>v. v \<in> set Q \<Longrightarrow> ?d \<le> dist v"
    using I by (auto simp: searching_def)
  have new_d: "reached w" "dist w = Suc ?d" if "w \<in> set new" for w
    using searching_new [OF I, of w] that new(1) by auto
  have mem: "v \<in> V' \<longleftrightarrow> v \<in> V \<or> v \<in> set new" for v using new by auto
  have reach: "reached v" if "v \<in> V'" for v using that V(4) new_d(1) mem by blast
  have le: "dist v \<le> Suc ?d" if "v \<in> V'" for v using that V(6) new_d(2) mem by fastforce
  have closed: "succ v \<subseteq> V'" if "v \<in> V'" "v \<notin> set (Q @ new)" for v
    using that V(7) [of v] new mem by (cases "v = u") auto
  have "map dist new = replicate (length new) (Suc ?d)" using new_d(2) by (intro replicate_eqI) auto
  then have srt: "sorted (map dist (Q @ new))" using V(3,6,8) by (auto simp: sorted_append)
  have level: "v \<in> V'" if v: "reached v" "dist v \<le> dist (hd (Q @ new))" and ne: "Q @ new \<noteq> []" for v
  proof -
    have hd_le: "dist (hd (Q @ new)) \<le> Suc ?d" using hd_in_set [OF ne] V(3) mem by (intro le) auto
    consider "dist v \<le> ?d" | "dist v = Suc ?d" using v(2) hd_le by linarith
    then show ?thesis
    proof cases
      case 1 then show ?thesis using V(5) v(1) mem by blast
    next
      case 2
      then obtain p where p: "reached p" "v \<in> succ p" "dist p = ?d" using dist_pred [OF v(1)] by metis
      have "p \<in> V" using V(5) p by simp
      moreover have "p \<notin> set (Q @ new)"
      proof
        assume h: "p \<in> set (Q @ new)"
        have "dist (hd (Q @ new)) = Suc ?d" using 2 v(2) hd_le by simp
        then have "Suc ?d \<le> dist p" using h srt by (cases "Q @ new") auto
        then show False using p(3) by simp
      qed
      ultimately show ?thesis using closed p(2) mem by blast
    qed
  qed
  have "dist v \<le> Suc (dist (hd (Q @ new)))" if "v \<in> V'" "Q @ new \<noteq> []" for v
  proof -
    have "?d \<le> dist (hd (Q @ new))" using hd_in_set [OF that(2)] V(9) new_d(2) by fastforce
    then show ?thesis using le [OF that(1)] by linarith
  qed
  moreover have "start \<in> V'" "set (Q @ new) \<subseteq> V'" using V(1,3) mem by auto
  moreover have "\<forall>v\<in>V' - set (Q @ new). succ v \<subseteq> V'" using closed by blast
  ultimately show ?thesis unfolding searching_def using reach level srt by blast
qed

lemma searching_done:
  assumes "searching V []" "reached v"
  shows "v \<in> V"
  using assms(2) unfolding reached_def
proof (induction rule: rtrancl_induct)
  case base
  then show ?case using assms(1) by (simp add: searching_def)
next
  case (step a b)
  then show ?case using assms(1) by (auto simp: searching_def step_def)
qed

end

end
