(* ===== verification/Graph_Paths.thy ===== *)
theory Graph_Paths
  imports Graph_Edges Graph_Traversal Bfs
begin

text \<open>
  Traversals and unweighted paths. \<open>links\<close> is the set of edges a search may follow from a node; the
  breadth-first searches of the code visit nodes in the order of their distance over it, so a
  traversal lists exactly the nodes within its depth limit, each at its distance, and a path found
  is a shortest one.
\<close>

section \<open>Links\<close>

definition type_allowed :: "string list option \<Rightarrow> string \<Rightarrow> bool" where
  "type_allowed types ty = (case types of None \<Rightarrow> True | Some ts \<Rightarrow> ty \<in> set ts)"

definition joins :: "direction \<Rightarrow> edge_record \<Rightarrow> node_id \<Rightarrow> node_id \<Rightarrow> bool" where
  "joins dir x a b \<longleftrightarrow> dir \<noteq> In \<and> er_from x = a \<and> er_to x = b \<or> dir \<noteq> Out \<and> er_to x = a \<and> er_from x = b"

definition links :: "graph \<Rightarrow> direction \<Rightarrow> string list option \<Rightarrow> node_id \<Rightarrow> (node_id \<times> edge_id \<times> string) set" where
  "links g dir types a = {(b, e, ty). \<exists>x. g_edges g e = Some x \<and> er_edge_type x = ty \<and> type_allowed types ty \<and> joins dir x a b}"

interpretation walk: bfs "\<lambda>a. fst ` links g dir types a" start for g dir types start .

context graph_read
begin

lemma path_one_way_view:
  assumes "gread C r g" "adj_table t"
  shows "\<exists>ns. path_one_way ops r t a types = Ok ns \<and>
    set ns = {(b, e, ty). \<exists>x. g_edges g e = Some x \<and> er_edge_type x = ty \<and> type_allowed types ty \<and> near t x = a \<and> far t x = b}"
proof -
  obtain ns where "neighbors_any_in ops r t a = Ok ns"
      "set ns = {(l, j, e). \<exists>x. g_edges g e = Some x \<and> near t x = a \<and> er_edge_type x = l \<and> far t x = j}"
    using neighbors_any_view [OF assms] by blast
  then show ?thesis by (force simp: path_one_way_def type_allowed_def)
qed

lemma neighbors_for_path_view:
  assumes "gread C r g"
  shows "\<exists>ns. neighbors_for_path ops r a dir types = Ok ns \<and> set ns = links g dir types a"
proof -
  obtain out where out: "path_one_way ops r ADJ_OUT a types = Ok out"
      "set out = {(b, e, ty). \<exists>x. g_edges g e = Some x \<and> er_edge_type x = ty \<and> type_allowed types ty \<and> er_from x = a \<and> er_to x = b}"
    using path_one_way_view [OF assms, of ADJ_OUT a types] by (auto simp: near_def far_def)
  obtain inc where inc: "path_one_way ops r ADJ_IN a types = Ok inc"
      "set inc = {(b, e, ty). \<exists>x. g_edges g e = Some x \<and> er_edge_type x = ty \<and> type_allowed types ty \<and> er_to x = a \<and> er_from x = b}"
    using path_one_way_view [OF assms, of ADJ_IN a types] by (auto simp: near_def far_def)
  show ?thesis
    by (cases dir) (use out inc in \<open>auto simp: neighbors_for_path_def links_def joins_def\<close>)
qed

end

section \<open>Shortest paths\<close>

definition parents_ok :: "graph \<Rightarrow> direction \<Rightarrow> string list option \<Rightarrow> node_id \<Rightarrow> node_id set \<Rightarrow> parent_map \<Rightarrow> bool" where
  "parents_ok g dir types start V P \<longleftrightarrow> start \<in> V \<and> (\<forall>v\<in>V. walk.reached g dir types start v) \<and>
     (\<forall>v\<in>V - {start}. \<exists>u e ty. P v = Some (u, e, ty) \<and> u \<in> V \<and> (v, e, ty) \<in> links g dir types u \<and>
        walk.dist g dir types start v = Suc (walk.dist g dir types start u))"

text \<open>A list of steps from \<open>a\<close> to \<open>b\<close>, each over a link from the node before it.\<close>

fun chain :: "graph \<Rightarrow> direction \<Rightarrow> string list option \<Rightarrow> node_id \<Rightarrow> path_step list \<Rightarrow> node_id \<Rightarrow> bool" where
  "chain g dir types a [] b = (a = b)"
| "chain g dir types a (s # ss) b = (\<exists>e ty. ps_via_edge s = Some e \<and> ps_edge_type s = Some ty \<and>
    (ps_node s, e, ty) \<in> links g dir types a \<and> chain g dir types (ps_node s) ss b)"

lemma chain_append: "chain g dir types a (ss @ ts) b \<longleftrightarrow> (\<exists>c. chain g dir types a ss c \<and> chain g dir types c ts b)"
  by (induction ss arbitrary: a) auto

text \<open>One round of the search.\<close>

lemma path_scan_spec:
  assumes "path_scan current target ns visited P queue = (found, visited', P', queue')"
  shows "\<exists>new. set visited' = set visited \<union> set new \<and> (\<forall>v. v \<notin> set new \<longrightarrow> P' v = P v) \<and> set new \<inter> set visited = {} \<and>
    (\<forall>v\<in>set new. \<exists>e ty. P' v = Some (current, e, ty) \<and> (v, e, ty) \<in> set ns) \<and>
    (if found then target \<in> set new else queue' = queue @ new \<and> set new = fst ` set ns - set visited \<and> target \<notin> set new)"
  using assms
proof (induction current target ns visited P queue arbitrary: found visited' P' queue' rule: path_scan.induct)
  case (1 current target visited P queue)
  then show ?case by (intro exI [of _ "[]"]) auto
next
  case (2 current target nx e ty ns visited P queue)
  consider (seen) "nx \<in> set visited" | (hit) "nx \<notin> set visited" "nx = target" | (fresh) "nx \<notin> set visited" "nx \<noteq> target" by blast
  then show ?case
  proof cases
    case seen
    then obtain new where new: "set visited' = set visited \<union> set new" "\<forall>v. v \<notin> set new \<longrightarrow> P' v = P v"
        "set new \<inter> set visited = {}" "\<forall>v\<in>set new. \<exists>e ty. P' v = Some (current, e, ty) \<and> (v, e, ty) \<in> set ns"
        "if found then target \<in> set new else queue' = queue @ new \<and> set new = fst ` set ns - set visited \<and> target \<notin> set new"
      using 2(1) [OF seen, of found visited' P' queue'] 2(3) by auto
    have "\<forall>v\<in>set new. \<exists>e' ty'. P' v = Some (current, e', ty') \<and> (v, e', ty') \<in> set ((nx, e, ty) # ns)" using new(4) by fastforce
    moreover have "if found then target \<in> set new
        else queue' = queue @ new \<and> set new = fst ` set ((nx, e, ty) # ns) - set visited \<and> target \<notin> set new"
      using new(5) seen by (auto split: if_splits)
    ultimately show ?thesis using new(1-3) by blast
  next
    case hit
    then show ?thesis using 2(3) by (intro exI [of _ "[nx]"]) auto
  next
    case fresh
    have rec: "path_scan current target ns (nx # visited) (P(nx \<mapsto> (current, e, ty))) (queue @ [nx]) = (found, visited', P', queue')"
      using 2(3) fresh by simp
    obtain new where new: "set visited' = set (nx # visited) \<union> set new" "\<forall>v. v \<notin> set new \<longrightarrow> P' v = (P(nx \<mapsto> (current, e, ty))) v"
        "set new \<inter> set (nx # visited) = {}" "\<forall>v\<in>set new. \<exists>e ty. P' v = Some (current, e, ty) \<and> (v, e, ty) \<in> set ns"
        "if found then target \<in> set new else queue' = (queue @ [nx]) @ new \<and> set new = fst ` set ns - set (nx # visited) \<and> target \<notin> set new"
      using 2(2) [OF fresh rec] by blast
    show ?thesis
      by (intro exI [of _ "nx # new"]) (use new fresh in \<open>auto split: if_splits\<close>)
  qed
qed

lemma parents_okE:
  assumes "parents_ok g dir types start V P" "v \<in> V" "v \<noteq> start"
  obtains u e ty where "P v = Some (u, e, ty)" "u \<in> V" "(v, e, ty) \<in> links g dir types u"
    "walk.dist g dir types start v = Suc (walk.dist g dir types start u)"
proof -
  have "v \<in> V - {start}" using assms(2,3) by simp
  then show ?thesis using assms(1) that unfolding parents_ok_def by blast
qed

lemma parents_ok_step:
  assumes "parents_ok g dir types start V P" "walk.searching g dir types start V (current # queue)"
    and "V' = V \<union> N" "N \<inter> V = {}" "\<forall>v. v \<notin> N \<longrightarrow> P' v = P v"
    and "\<forall>v\<in>N. \<exists>e ty. P' v = Some (current, e, ty) \<and> (v, e, ty) \<in> links g dir types current"
  shows "parents_ok g dir types start V' P'"
proof -
  have new: "walk.reached g dir types start v \<and> walk.dist g dir types start v = Suc (walk.dist g dir types start current)" if "v \<in> N" for v
    using walk.searching_new [OF assms(2), of v] that assms(4,6) by (force simp: image_iff)
  have cur: "current \<in> V" using assms(2) by (auto simp: walk.searching_def)
  have "\<exists>u e ty. P' v = Some (u, e, ty) \<and> u \<in> V' \<and> (v, e, ty) \<in> links g dir types u \<and>
      walk.dist g dir types start v = Suc (walk.dist g dir types start u)" if "v \<in> V'" "v \<noteq> start" for v
  proof (cases "v \<in> N")
    case True
    then show ?thesis using assms(3,6) new cur by blast
  next
    case False
    then have "v \<in> V" "P' v = P v" using that(1) assms(3,5) by auto
    then show ?thesis using parents_okE [OF assms(1) _ that(2)] assms(3) by (metis UnI1)
  qed
  then show ?thesis using assms(1,3) new by (auto simp: parents_ok_def)
qed

lemma walk_back_ok:
  assumes "parents_ok g dir types start V P" "v \<in> V"
  shows "\<exists>steps. walk_back start P v acc = Some (Ok (acc @ steps)) \<and> length steps = walk.dist g dir types start v \<and>
    chain g dir types start (rev steps) v"
  using assms(2)
proof (induction "walk.dist g dir types start v" arbitrary: v acc rule: less_induct)
  case less
  show ?case
  proof (cases "v = start")
    case True
    then show ?thesis by (subst walk_back.simps) auto
  next
    case False
    then obtain u e ty where u: "P v = Some (u, e, ty)" "u \<in> V" "(v, e, ty) \<in> links g dir types u"
        "walk.dist g dir types start v = Suc (walk.dist g dir types start u)"
      using parents_okE [OF assms(1) less.prems] by metis
    let ?s = "\<lparr>ps_node = v, ps_via_edge = Some e, ps_edge_type = Some ty\<rparr>"
    obtain steps where steps: "walk_back start P u (acc @ [?s]) = Some (Ok ((acc @ [?s]) @ steps))"
        "length steps = walk.dist g dir types start u" "chain g dir types start (rev steps) u"
      using less.hyps [of u "acc @ [?s]"] u by auto
    show ?thesis
      by (intro exI [of _ "?s # steps"], subst walk_back.simps) (use False u steps in \<open>auto simp: chain_append\<close>)
  qed
qed

context graph_read
begin

lemma path_loop_view:
  assumes "gread C r g"
    and "walk.searching g dir types start (set visited) queue" "parents_ok g dir types start (set visited) P" "target \<notin> set visited"
  shows "if walk.reached g dir types start target
    then \<exists>V P'. path_loop ops r target dir types visited P queue = Ok (Some P') \<and> parents_ok g dir types start V P' \<and> target \<in> V
    else path_loop ops r target dir types visited P queue = Ok None"
  using assms(2-)
proof (induction ops0 \<equiv> ops r0 \<equiv> r target0 \<equiv> target dir0 \<equiv> dir types0 \<equiv> types visited P queue rule: path_loop.induct)
  case (1 visited P queue)
  show ?case
  proof (cases queue)
    case Nil
    then have "\<not> walk.reached g dir types start target" using walk.searching_done 1(2,4) by blast
    then show ?thesis using Nil by (subst path_loop.simps) simp
  next
    case (Cons current rest)
    obtain ns where ns: "neighbors_for_path ops r current dir types = Ok ns" "set ns = links g dir types current"
      using neighbors_for_path_view [OF assms(1)] by blast
    obtain found visited' P' queue' where scan: "path_scan current target ns visited P rest = (found, visited', P', queue')"
      by (metis prod_cases4)
    obtain new where new: "set visited' = set visited \<union> set new" "\<forall>v. v \<notin> set new \<longrightarrow> P' v = P v" "set new \<inter> set visited = {}"
        "\<forall>v\<in>set new. \<exists>e ty. P' v = Some (current, e, ty) \<and> (v, e, ty) \<in> links g dir types current"
        "if found then target \<in> set new else queue' = rest @ new \<and> set new = fst ` links g dir types current - set visited \<and> target \<notin> set new"
      using path_scan_spec [OF scan, unfolded ns(2)] by blast
    have S: "walk.searching g dir types start (set visited) (current # rest)" using 1(2) Cons by simp
    have P: "parents_ok g dir types start (set visited') P'" using parents_ok_step [OF 1(3) S new(1,3,2,4)] .
    have loop: "path_loop ops r target dir types visited P queue =
        (if found then Ok (Some P') else path_loop ops r target dir types visited' P' queue')"
      by (subst path_loop.simps) (simp add: Cons ns(1) scan)
    show ?thesis
    proof (cases found)
      case True
      then have "target \<in> set visited'" using new(1,5) by auto
      moreover from this have "walk.reached g dir types start target" using P by (auto simp: parents_ok_def)
      ultimately show ?thesis using loop True P by auto
    next
      case False
      then have "walk.searching g dir types start (set visited') queue'"
        using walk.searching_step [OF S, of new "set visited'"] new(1,5) by auto
      then show ?thesis using 1(1) [OF Cons ns(1) scan [symmetric] refl refl False] loop False P new(1,5) 1(4) by auto
    qed
  qed
qed

lemma find_shortest_path_view:
  assumes "gread C r g" "start \<noteq> target"
  shows "if walk.reached g dir types start target
    then \<exists>p rest. find_shortest_path_in C ops r start target dir types = Some (Ok (Some p)) \<and> pr_steps p = start_step start # rest \<and>
      chain g dir types start rest target \<and> length rest = walk.dist g dir types start target
    else find_shortest_path_in C ops r start target dir types = Some (Ok None)"
proof -
  have "parents_ok g dir types start {start} Map.empty" by (simp add: parents_ok_def)
  then have loop: "if walk.reached g dir types start target
    then \<exists>V P'. path_loop ops r target dir types [start] Map.empty [start] = Ok (Some P') \<and> parents_ok g dir types start V P' \<and> target \<in> V
    else path_loop ops r target dir types [start] Map.empty [start] = Ok None"
    using path_loop_view [OF assms(1), of dir types start "[start]" "[start]" Map.empty target] walk.searching_start assms(2) by simp
  show ?thesis
  proof (cases "walk.reached g dir types start target")
    case True
    then obtain V P where P: "path_loop ops r target dir types [start] Map.empty [start] = Ok (Some P)"
        "parents_ok g dir types start V P" "target \<in> V" using loop by auto
    obtain steps where "walk_back start P target [] = Some (Ok steps)" "length steps = walk.dist g dir types start target"
        "chain g dir types start (rev steps) target"
      using walk_back_ok [OF P(2,3), of "[]"] by auto
    then show ?thesis using True P(1) assms(2) by (simp add: find_shortest_path_in_def steps_to_def)
  qed (use loop assms(2) in \<open>simp add: find_shortest_path_in_def\<close>)
qed

end

end
