(* ===== verification/Graph_Traverse.thy ===== *)
theory Graph_Traverse
  imports Graph_Paths
begin

text \<open>
  The breadth-first traversal returns exactly the nodes within its depth limit that match the label
  filter, each once, at its distance, in order of distance, with a parent one step closer.
\<close>

definition label_ok :: "graph \<Rightarrow> string option \<Rightarrow> node_id \<Rightarrow> bool" where
  "label_ok g fl i = (case fl of None \<Rightarrow> True | Some l \<Rightarrow> (case g_nodes g i of None \<Rightarrow> False | Some x \<Rightarrow> nr_label x = l))"

text \<open>A listed node: its depth is its distance from the start, and it hangs on a link from a node one closer.\<close>

definition entry_ok :: "graph \<Rightarrow> direction \<Rightarrow> string list option \<Rightarrow> node_id \<Rightarrow> traversed_node \<Rightarrow> bool" where
  "entry_ok g dir types start n \<longleftrightarrow> unat (tn_depth n) = walk.dist g dir types start (tn_node n) \<and>
     (if tn_node n = start then tn_parent n = None \<and> tn_via_edge n = None
      else \<exists>u e ty. tn_parent n = Some u \<and> tn_via_edge n = Some e \<and> (tn_node n, e, ty) \<in> links g dir types u \<and>
        walk.reached g dir types start u \<and> walk.dist g dir types start (tn_node n) = Suc (walk.dist g dir types start u))"

definition listing :: "graph \<Rightarrow> direction \<Rightarrow> string list option \<Rightarrow> node_id \<Rightarrow> string option \<Rightarrow> node_id set \<Rightarrow> traversed_node list \<Rightarrow> bool" where
  "listing g dir types start fl V out \<longleftrightarrow> distinct (map tn_node out) \<and> tn_node ` set out = {v \<in> V. label_ok g fl v} \<and>
     sorted (map (\<lambda>n. unat (tn_depth n)) out) \<and> (\<forall>n\<in>set out. entry_ok g dir types start n)"

definition entry :: "node_id \<Rightarrow> u32 \<Rightarrow> node_id \<times> edge_id \<Rightarrow> traversed_node" where
  "entry current depth x = \<lparr>tn_node = fst x, tn_depth = depth + 1, tn_via_edge = Some (snd x), tn_parent = Some current\<rparr>"

context graph_read
begin

lemma label_matches_view: "gread C r g \<Longrightarrow> label_matches C ops r fl i = Ok (label_ok g fl i)"
  by (simp add: label_matches_def label_ok_def get_node_view split: option.split)

lemma traversal_one_way_view:
  assumes "gread C r g" "adj_table t" "\<forall>ts. types = Some ts \<longrightarrow> (\<forall>ty\<in>set ts. short ty)"
  shows "\<exists>ns. traversal_one_way ops r t a types = Ok ns \<and>
    set ns = {(b, e). \<exists>x. g_edges g e = Some x \<and> type_allowed types (er_edge_type x) \<and> near t x = a \<and> far t x = b}"
proof (cases types)
  case None
  obtain ns where "neighbors_any_in ops r t a = Ok ns"
      "set ns = {(l, j, e). \<exists>x. g_edges g e = Some x \<and> near t x = a \<and> er_edge_type x = l \<and> far t x = j}"
    using neighbors_any_view [OF assms(1,2)] by blast
  then show ?thesis using None by (force simp: traversal_one_way_def type_allowed_def)
next
  case (Some ts)
  let ?N = "\<lambda>ty. {(b, e). \<exists>x. g_edges g e = Some x \<and> near t x = a \<and> er_edge_type x = ty \<and> far t x = b}"
  have "ok_with (for_res (\<lambda>ty res. bind_res (neighbors_typed ops r t a ty) (\<lambda>xs. Ok (res @ xs))) ts [])
      (\<lambda>ns. set ns = (\<Union>ty\<in>set ts. ?N ty))"
  proof (rule for_res_rule)
    fix ys ty zs res assume ts: "ts = ys @ ty # zs" and res: "set res = (\<Union>ty\<in>set ys. ?N ty)"
    have "short ty" using assms(3) Some ts by auto
    then obtain ns where "neighbors_typed ops r t a ty = Ok ns" "set ns = ?N ty"
      using neighbors_typed_view [OF assms(1,2)] by blast
    then show "ok_with (bind_res (neighbors_typed ops r t a ty) (\<lambda>xs. Ok (res @ xs))) (\<lambda>ns. set ns = (\<Union>ty\<in>set (ys @ [ty]). ?N ty))"
      using res by auto
  qed simp
  then show ?thesis using Some by (auto simp: ok_with_iff traversal_one_way_def type_allowed_def)
qed

lemma neighbors_for_traversal_view:
  assumes "gread C r g" "\<forall>ts. types = Some ts \<longrightarrow> (\<forall>ty\<in>set ts. short ty)"
  shows "\<exists>ns. neighbors_for_traversal ops r a dir types = Ok ns \<and> set ns = {(b, e). \<exists>ty. (b, e, ty) \<in> links g dir types a}"
proof -
  obtain out where out: "traversal_one_way ops r ADJ_OUT a types = Ok out"
      "set out = {(b, e). \<exists>x. g_edges g e = Some x \<and> type_allowed types (er_edge_type x) \<and> er_from x = a \<and> er_to x = b}"
    using traversal_one_way_view [OF assms(1) _ assms(2), of ADJ_OUT a] by (auto simp: near_def far_def)
  obtain inc where inc: "traversal_one_way ops r ADJ_IN a types = Ok inc"
      "set inc = {(b, e). \<exists>x. g_edges g e = Some x \<and> type_allowed types (er_edge_type x) \<and> er_to x = a \<and> er_from x = b}"
    using traversal_one_way_view [OF assms(1) _ assms(2), of ADJ_IN a] by (auto simp: near_def far_def)
  show ?thesis
    by (cases dir) (use out inc in \<open>auto simp: neighbors_for_traversal_def links_def joins_def\<close>)
qed

lemma traverse_step_view:
  assumes "gread C r g"
  shows "\<exists>visited' new. for_res (traverse_step C ops r fl current depth) ns (visited, queue, out) =
      Ok (visited', queue @ map (\<lambda>x. (fst x, depth + 1)) new, out @ map (entry current depth) (filter (\<lambda>x. label_ok g fl (fst x)) new)) \<and>
    set visited' = set visited \<union> fst ` set ns \<and> distinct (map fst new) \<and> set new \<subseteq> set ns \<and> fst ` set new = fst ` set ns - set visited"
proof (induction ns arbitrary: visited queue out)
  case (Cons n ns)
  obtain nx e where n: "n = (nx, e)" by (cases n)
  show ?case
  proof (cases "nx \<in> set visited")
    case True
    then have "traverse_step C ops r fl current depth n (visited, queue, out) = Ok (visited, queue, out)" by (simp add: n traverse_step_def)
    then show ?thesis using Cons.IH [of visited queue out] True n by (auto simp: insert_absorb)
  next
    case False
    let ?out = "out @ map (entry current depth) (filter (\<lambda>x. label_ok g fl (fst x)) [n])"
    have step: "traverse_step C ops r fl current depth n (visited, queue, out) = Ok (nx # visited, queue @ [(nx, depth + 1)], ?out)"
      using False by (simp add: n traverse_step_def label_matches_view [OF assms] entry_def)
    obtain visited' new where IH: "for_res (traverse_step C ops r fl current depth) ns (nx # visited, queue @ [(nx, depth + 1)], ?out) =
        Ok (visited', (queue @ [(nx, depth + 1)]) @ map (\<lambda>x. (fst x, depth + 1)) new, ?out @ map (entry current depth) (filter (\<lambda>x. label_ok g fl (fst x)) new))"
        "set visited' = set (nx # visited) \<union> fst ` set ns" "distinct (map fst new)" "set new \<subseteq> set ns" "fst ` set new = fst ` set ns - set (nx # visited)"
      using Cons.IH by blast
    show ?thesis
      by (intro exI [of _ visited'] exI [of _ "n # new"]) (use step IH False n in auto)
  qed
qed simp

end

definition within :: "graph \<Rightarrow> direction \<Rightarrow> string list option \<Rightarrow> node_id \<Rightarrow> u32 \<Rightarrow> node_id set" where
  "within g dir types start md = {v. walk.reached g dir types start v \<and> walk.dist g dir types start v \<le> unat md}"

text \<open>The state of the search: the queue pairs each node with its distance.\<close>

definition traversing :: "graph \<Rightarrow> direction \<Rightarrow> string list option \<Rightarrow> node_id \<Rightarrow> string option \<Rightarrow> u32 \<Rightarrow> bfs_state \<Rightarrow> bool" where
  "traversing g dir types start fl md s \<longleftrightarrow> (case s of (visited, queue, out) \<Rightarrow>
     walk.searching g dir types start (set visited) (map fst queue) \<and> set visited \<subseteq> within g dir types start md \<and>
     (\<forall>(v, k)\<in>set queue. unat k = walk.dist g dir types start v) \<and> listing g dir types start fl (set visited) out)"

lemma traversing_step:
  assumes I: "traversing g dir types start fl md (visited, (current, depth) # queue, out)" and "depth < md"
    and new: "set visited' = set visited \<union> fst ` links g dir types current" "distinct (map fst new)"
      "\<forall>x\<in>set new. \<exists>ty. (fst x, snd x, ty) \<in> links g dir types current" "fst ` set new = fst ` links g dir types current - set visited"
  shows "traversing g dir types start fl md (visited', queue @ map (\<lambda>x. (fst x, depth + 1)) new,
    out @ map (entry current depth) (filter (\<lambda>x. label_ok g fl (fst x)) new))"
proof -
  let ?d = "walk.dist g dir types start"
  have S: "walk.searching g dir types start (set visited) (current # map fst queue)" and V: "set visited \<subseteq> within g dir types start md"
    and Q: "\<forall>(v, k)\<in>set queue. unat k = ?d v" and k: "unat depth = ?d current" and L: "listing g dir types start fl (set visited) out"
    using I by (auto simp: traversing_def)
  have "unat (depth + 1) = unat depth + 1"
    using \<open>depth < md\<close> unat_widths_less(2) [of md] by (simp add: unat_word_ariths word_less_nat_alt)
  then have d1: "unat (depth + 1) = Suc (?d current)" using k by simp
  have dnew: "walk.reached g dir types start (fst x) \<and> ?d (fst x) = Suc (?d current)" if "x \<in> set new" for x
  proof -
    have "fst x \<in> fst ` links g dir types current - set visited" using that new(4) by blast
    then show ?thesis using walk.searching_new [OF S, of "fst x"] by simp
  qed
  have cur: "walk.reached g dir types start current" "start \<in> set visited" using S by (auto simp: walk.searching_def)
  have V': "set visited' = set visited \<union> fst ` set new" using new(1,4) by auto
  have S': "walk.searching g dir types start (set visited') (map fst queue @ map fst new)"
    using walk.searching_step [OF S, of "map fst new" "set visited'"] new by simp
  have "?d current < unat md" using k \<open>depth < md\<close> by (simp add: word_less_nat_alt)
  then have W: "set visited' \<subseteq> within g dir types start md" using V V' dnew by (auto simp: within_def)
  have E: "entry_ok g dir types start (entry current depth x)" if "x \<in> set new" for x
  proof -
    have "fst x \<noteq> start" using that new(4) cur(2) by (metis DiffD2 imageI)
    then show ?thesis using new(3) that dnew [OF that] cur(1) d1 by (auto simp: entry_ok_def entry_def)
  qed
  have le: "unat (tn_depth n) \<le> Suc (?d current)" if "n \<in> set out" for n
  proof -
    have "tn_node n \<in> set visited" "entry_ok g dir types start n" using L that by (auto simp: listing_def)
    then show ?thesis using S by (auto simp: walk.searching_def entry_ok_def)
  qed
  let ?new = "map (entry current depth) (filter (\<lambda>x. label_ok g fl (fst x)) new)"
  have "map (\<lambda>n. unat (tn_depth n)) ?new = replicate (length ?new) (Suc (?d current))" using d1 by (intro replicate_eqI) (auto simp: entry_def)
  then have srt: "sorted (map (\<lambda>n. unat (tn_depth n)) (out @ ?new))" using L le by (auto simp: listing_def sorted_append)
  have nodes: "map tn_node ?new = map fst (filter (\<lambda>x. label_ok g fl (fst x)) new)" by (simp add: entry_def comp_def)
  have "distinct (map tn_node (out @ ?new))"
  proof -
    have "distinct (map tn_node ?new)" unfolding nodes using new(2) by (simp add: distinct_map_filter)
    moreover have "set (map tn_node out) \<inter> set (map tn_node ?new) = {}" unfolding nodes using L new(4) by (fastforce simp: listing_def)
    ultimately show ?thesis using L by (simp add: listing_def)
  qed
  moreover have "tn_node ` set (out @ ?new) = {v \<in> set visited'. label_ok g fl v}"
  proof -
    have "tn_node ` set ?new = {v \<in> fst ` set new. label_ok g fl v}" by (force simp: entry_def)
    moreover have "tn_node ` set out = {v \<in> set visited. label_ok g fl v}" using L by (simp add: listing_def)
    ultimately show ?thesis unfolding set_append image_Un V' by auto
  qed
  ultimately have "listing g dir types start fl (set visited') (out @ ?new)" using srt L E by (auto simp: listing_def)
  moreover have "\<forall>(v, k)\<in>set (queue @ map (\<lambda>x. (fst x, depth + 1)) new). unat k = ?d v" using Q d1 dnew by auto
  ultimately show ?thesis using S' W by (simp add: traversing_def comp_def)
qed

context graph_read
begin

lemma traverse_loop_skip: "\<forall>(v, k)\<in>set queue. md \<le> k \<Longrightarrow> traverse_loop C ops r dir types fl md (visited, queue, out) = Ok out"
  by (induction queue) (auto simp: traverse_loop.simps)

lemma traverse_loop_view:
  assumes "gread C r g" "\<forall>ts. types = Some ts \<longrightarrow> (\<forall>ty\<in>set ts. short ty)" "traversing g dir types start fl md s"
  shows "\<exists>out'. traverse_loop C ops r dir types fl md s = Ok out' \<and> listing g dir types start fl (within g dir types start md) out'"
  using assms(3)
proof (induction C0 \<equiv> C ops0 \<equiv> ops r0 \<equiv> r dir0 \<equiv> dir types0 \<equiv> types fl0 \<equiv> fl md0 \<equiv> md s rule: traverse_loop.induct)
  case (1 visited queue out)
  have S: "walk.searching g dir types start (set visited) (map fst queue)" and V: "set visited \<subseteq> within g dir types start md"
    and Q: "\<forall>(v, k)\<in>set queue. unat k = walk.dist g dir types start v" and L: "listing g dir types start fl (set visited) out"
    using 1(3) by (auto simp: traversing_def)
  show ?case
  proof (cases queue)
    case Nil
    then have "within g dir types start md = set visited" using V S walk.searching_done by (auto simp: within_def)
    then show ?thesis using L Nil by (auto simp: traverse_loop.simps)
  next
    case (Cons q rest)
    obtain current depth where q: "q = (current, depth)" by (cases q)
    have k: "unat depth = walk.dist g dir types start current" using Q Cons q by auto
    show ?thesis
    proof (cases "md \<le> depth")
      case True
      have "md \<le> k'" if "(v, k') \<in> set queue" for v k'
      proof -
        have "walk.dist g dir types start current \<le> walk.dist g dir types start v"
          using S that Cons q by (auto simp: walk.searching_def)
        then show ?thesis using True k Q that by (auto simp: word_le_nat_alt)
      qed
      then have "traverse_loop C ops r dir types fl md (visited, queue, out) = Ok out" by (intro traverse_loop_skip) auto
      moreover have "within g dir types start md = set visited"
        using V S True k Cons q by (fastforce simp: within_def walk.searching_def word_le_nat_alt)
      ultimately show ?thesis using L by auto
    next
      case False
      obtain ns where ns: "neighbors_for_traversal ops r current dir types = Ok ns" "set ns = {(b, e). \<exists>ty. (b, e, ty) \<in> links g dir types current}"
        using neighbors_for_traversal_view [OF assms(1,2)] by blast
      have fst_ns: "fst ` set ns = fst ` links g dir types current" unfolding ns(2) by force
      obtain visited' new where step: "for_res (traverse_step C ops r fl current depth) ns (visited, rest, out) =
          Ok (visited', rest @ map (\<lambda>x. (fst x, depth + 1)) new, out @ map (entry current depth) (filter (\<lambda>x. label_ok g fl (fst x)) new))"
          "set visited' = set visited \<union> fst ` set ns" "distinct (map fst new)" "set new \<subseteq> set ns" "fst ` set new = fst ` set ns - set visited"
        using traverse_step_view [OF assms(1)] by blast
      have "traversing g dir types start fl md (visited', rest @ map (\<lambda>x. (fst x, depth + 1)) new,
          out @ map (entry current depth) (filter (\<lambda>x. label_ok g fl (fst x)) new))"
        using 1(3) Cons q False step fst_ns ns(2) by (intro traversing_step) auto
      from 1(2) [OF Cons q [symmetric] False ns(1) step(1) this] show ?thesis using False Cons q ns(1) step(1) by (simp add: traverse_loop.simps [of _ _ _ _ _ _ _ visited])
    qed
  qed
qed

lemma traverse_view:
  assumes "gread C r g" "\<forall>ts. types = Some ts \<longrightarrow> (\<forall>ty\<in>set ts. short ty)"
  shows "\<exists>out. traverse_in C ops r start dir types fl md = Ok out \<and> listing g dir types start fl (within g dir types start md) out"
proof -
  let ?out = "if label_ok g fl start then [\<lparr>tn_node = start, tn_depth = 0, tn_via_edge = None, tn_parent = None\<rparr>] else []"
  have "listing g dir types start fl {start} ?out" by (auto simp: listing_def entry_ok_def)
  then have "traversing g dir types start fl md ([start], [(start, 0)], ?out)"
    using walk.searching_start by (simp add: traversing_def within_def)
  then show ?thesis using traverse_loop_view [OF assms] by (simp add: traverse_in_def label_matches_view [OF assms(1)])
qed

end

end
