(* ===== verification/Graph_Search.thy ===== *)
theory Graph_Search
  imports Graph_Correct Graph_Traverse
begin

text \<open>
  What the searches return, over every transaction the graph layer runs on: traversals, shortest
  paths and call trees.
\<close>

text \<open>C38: A traversal lists exactly the nodes within its depth limit that match the label filter, each once, in order of
  distance, with its distance as depth and a parent one step closer to the start.\<close>

theorem traverse_exact:
  assumes "graph_read ops I ok view" "graph_view I view C r g" "\<And>ts ty. types = Some ts \<Longrightarrow> ty \<in> set ts \<Longrightarrow> length ty < 2 ^ 16"
  shows "\<exists>out. traverse_in C ops r start dir types fl md = Ok out \<and> distinct (map tn_node out) \<and>
    tn_node ` set out = {v. walk.reached g dir types start v \<and> walk.dist g dir types start v \<le> unat md \<and> label_ok g fl v} \<and>
    sorted (map (\<lambda>n. unat (tn_depth n)) out) \<and> (\<forall>n\<in>set out. entry_ok g dir types start n)"
proof -
  have "\<forall>ts. types = Some ts \<longrightarrow> (\<forall>ty\<in>set ts. length ty < 2 ^ 16)" using assms(3) by blast
  from graph_read.traverse_view [OF assms(1,2) this] obtain out where out: "traverse_in C ops r start dir types fl md = Ok out"
      "listing g dir types start fl (within g dir types start md) out" by blast
  then show ?thesis by (intro exI [of _ out]) (auto simp: listing_def within_def)
qed

lemma demo_links: "links demo_graph Out None a = (if a = 1 then {(2, 1, ''k'')} else {})"
  by (auto simp: links_def joins_def type_allowed_def demo_defs split: if_splits)

lemma demo_walk: "walk.reached demo_graph Out None 1 v \<longleftrightarrow> v = 1 \<or> v = 2" "walk.dist demo_graph Out None 1 2 = 1"
proof -
  have link: "2 \<in> fst ` links demo_graph Out None 1" by (simp add: demo_links)
  have two: "walk.reached demo_graph Out None 1 2" using walk.reached_succ [OF walk.reached_start link] .
  have step: "b = 2" if "(a, b) \<in> walk.step demo_graph Out None" for a b
    using that unfolding walk.step_def by (auto simp: demo_links split: if_splits)
  have "v = 1 \<or> v = 2" if "walk.reached demo_graph Out None 1 v"
    using that unfolding walk.reached_def by (induction rule: rtrancl_induct) (use step in blast)+
  then show "walk.reached demo_graph Out None 1 v \<longleftrightarrow> v = 1 \<or> v = 2" using two by auto
  have "walk.dist demo_graph Out None 1 2 \<le> Suc (walk.dist demo_graph Out None 1 1)" using walk.dist_succ [OF walk.reached_start link] .
  moreover have "walk.dist demo_graph Out None 1 2 \<noteq> 0" using walk.dist_0 [OF two] by auto
  ultimately show "walk.dist demo_graph Out None 1 2 = 1" by simp
qed

theorem traverse_exact_witness:
  "\<exists>w out. traverse_in demo_codecs mem_write_ops w 1 Out None None 10 = Ok out \<and> tn_node ` set out = {1, 2}"
proof -
  obtain w where w: "demo_graph_tx w demo_graph" using demo_graph_shown by blast
  then have "graph_view mem_tx_ok mem_view demo_codecs w demo_graph" by (simp add: graph_tx_def)
  then obtain out where "traverse_in demo_codecs mem_write_ops w 1 Out None None 10 = Ok out"
      "tn_node ` set out = {v. walk.reached demo_graph Out None 1 v \<and> walk.dist demo_graph Out None 1 v \<le> unat (10 :: u32) \<and> label_ok demo_graph None v}"
    using traverse_exact [OF mem_gw.graph_read_axioms, of demo_codecs w demo_graph None 1 Out None 10] by auto
  moreover have "{v. walk.reached demo_graph Out None 1 v \<and> walk.dist demo_graph Out None 1 v \<le> unat (10 :: u32) \<and> label_ok demo_graph None v} = {1, 2}"
    by (auto simp: demo_walk label_ok_def)
  ultimately show ?thesis by blast
qed

text \<open>C37: The path search returns, for two distinct nodes, \<open>None\<close> exactly when the target cannot be reached, and otherwise a
  path over existing edges whose length is the distance; it always returns.\<close>

theorem shortest_path_exact:
  assumes "graph_read ops I ok view" "graph_view I view C r g" "start \<noteq> target"
  shows "if walk.reached g dir types start target
    then \<exists>p rest. find_shortest_path_in C ops r start target dir types = Some (Ok (Some p)) \<and> pr_steps p = start_step start # rest \<and>
      chain g dir types start rest target \<and> length rest = walk.dist g dir types start target
    else find_shortest_path_in C ops r start target dir types = Some (Ok None)"
  using graph_read.find_shortest_path_view [OF assms] .

theorem shortest_path_exact_witness:
  "\<exists>w p. find_shortest_path_in demo_codecs mem_write_ops w 1 2 Out None = Some (Ok (Some p)) \<and> length (pr_steps p) = 2 \<and>
    find_shortest_path_in demo_codecs mem_write_ops w 1 3 Out None = Some (Ok None)"
proof -
  obtain w where w: "demo_graph_tx w demo_graph" using demo_graph_shown by blast
  then have v: "graph_view mem_tx_ok mem_view demo_codecs w demo_graph" by (simp add: graph_tx_def)
  obtain p rest where "find_shortest_path_in demo_codecs mem_write_ops w 1 2 Out None = Some (Ok (Some p))"
      "pr_steps p = start_step 1 # rest" "length rest = 1"
    using shortest_path_exact [OF mem_gw.graph_read_axioms v, of 1 2 Out None] by (auto simp: demo_walk)
  moreover have "find_shortest_path_in demo_codecs mem_write_ops w 1 3 Out None = Some (Ok None)"
    using shortest_path_exact [OF mem_gw.graph_read_axioms v, of 1 3 Out None] by (simp add: demo_walk)
  ultimately show ?thesis by (intro exI [of _ w] exI [of _ p]) simp
qed

end
