(* ===== verification/Rel_Schema.thy ===== *)
theory Rel_Schema
  imports Storage Codec Value
begin

text \<open>
  Relational schemas (\<open>bkndb-core/src/relational/schema/mod.rs\<close>, \<open>builder.rs\<close>). A \<open>TableSchema\<close> is a shared
  pointer to its \<open>TableDef\<close> next to the table's storage name, which always is the table's name, so the model
  keeps the definition only. The builder's checks are in the order of the source; what they establish is
  \<open>schema_ok\<close>, which the rest of the relational store relies on.
\<close>

section \<open>Kinds and columns\<close>

datatype column_kind =
    KNull | KBool | KInt | KFloat | KStr | KBytes | KTimestamp | KUuid | KList | KMap

definition kind_of :: "prop_value \<Rightarrow> column_kind" where
  "kind_of v = (case v of
      Null \<Rightarrow> KNull | Bool _ \<Rightarrow> KBool | IntV _ \<Rightarrow> KInt | Float _ \<Rightarrow> KFloat | Str _ \<Rightarrow> KStr | Bytes _ \<Rightarrow> KBytes
    | Timestamp _ \<Rightarrow> KTimestamp | Uuid _ \<Rightarrow> KUuid | List _ \<Rightarrow> KList | Map _ \<Rightarrow> KMap)"

definition is_keyable :: "column_kind \<Rightarrow> bool" where
  "is_keyable k = (k \<in> {KInt, KStr, KTimestamp, KUuid})"

text \<open>The static form of a schema, whose columns carry no constraints.\<close>

record column_def =
  cd_name :: string
  cd_kind :: column_kind

record rel_schema =
  rs_name :: string
  rs_columns :: "column_def list"
  rs_primary_key :: string
  rs_auto_increment_pk :: bool
  rs_indexed_columns :: "string list"

definition rs_column :: "rel_schema \<Rightarrow> string \<Rightarrow> column_def option" where
  "rs_column s name = find (\<lambda>c. cd_name c = name) (rs_columns s)"

definition rs_primary_key_column :: "rel_schema \<Rightarrow> column_def res" where
  "rs_primary_key_column s = expect (rs_column s (rs_primary_key s))"

definition rs_is_indexed :: "rel_schema \<Rightarrow> string \<Rightarrow> bool" where
  "rs_is_indexed s column = (column \<in> set (rs_indexed_columns s))"

record column_schema =
  cs_name :: string
  cs_kind :: column_kind
  cs_nullable :: bool
  cs_unique :: bool
  cs_default :: "prop_value option"

definition cs_new :: "string \<Rightarrow> column_kind \<Rightarrow> column_schema" where
  "cs_new name kind = \<lparr>cs_name = name, cs_kind = kind, cs_nullable = True, cs_unique = False, cs_default = None\<rparr>"

definition cs_not_null :: "column_schema \<Rightarrow> column_schema" where
  "cs_not_null c = c\<lparr>cs_nullable := False\<rparr>"

definition cs_set_unique :: "column_schema \<Rightarrow> column_schema" where
  "cs_set_unique c = c\<lparr>cs_unique := True\<rparr>"

definition cs_default_value :: "column_schema \<Rightarrow> prop_value \<Rightarrow> column_schema" where
  "cs_default_value c v = c\<lparr>cs_default := Some v\<rparr>"

record table_def =
  td_name :: string
  td_columns :: "column_schema list"
  td_primary_key :: string
  td_auto_increment_pk :: bool
  td_indexed_columns :: "string list"

type_synonym table_schema = table_def

text \<open>The derived equality of definitions compares defaults with the equality of values.\<close>

definition column_eq :: "column_schema \<Rightarrow> column_schema \<Rightarrow> bool" where
  "column_eq c d \<longleftrightarrow> cs_name c = cs_name d \<and> cs_kind c = cs_kind d \<and> cs_nullable c = cs_nullable d \<and>
    cs_unique c = cs_unique d \<and> opt_prop_eq (cs_default c) (cs_default d)"

definition schema_eq :: "table_schema \<Rightarrow> table_schema \<Rightarrow> bool" where
  "schema_eq a b \<longleftrightarrow> td_name a = td_name b \<and> list_all2 column_eq (td_columns a) (td_columns b) \<and>
    td_primary_key a = td_primary_key b \<and> td_auto_increment_pk a = td_auto_increment_pk b \<and>
    td_indexed_columns a = td_indexed_columns b"

definition ts_column :: "table_schema \<Rightarrow> string \<Rightarrow> column_schema option" where
  "ts_column s name = find (\<lambda>c. cs_name c = name) (td_columns s)"

definition primary_key_column :: "table_schema \<Rightarrow> column_schema res" where
  "primary_key_column s = expect (ts_column s (td_primary_key s))"

definition is_indexed :: "table_schema \<Rightarrow> string \<Rightarrow> bool" where
  "is_indexed s column = (column \<in> set (td_indexed_columns s))"

definition base_table :: "table_schema \<Rightarrow> table" where
  "base_table s = td_name s"

definition from_rel_schema :: "rel_schema \<Rightarrow> table_schema" where
  "from_rel_schema s = \<lparr>td_name = rs_name s, td_columns = map (\<lambda>c. cs_new (cd_name c) (cd_kind c)) (rs_columns s),
     td_primary_key = rs_primary_key s, td_auto_increment_pk = rs_auto_increment_pk s,
     td_indexed_columns = rs_indexed_columns s\<rparr>"

section \<open>The builder\<close>

definition MAX_IDENTIFIER_LEN :: nat where "MAX_IDENTIFIER_LEN = 100"

definition is_ascii_alphanumeric :: "char \<Rightarrow> bool" where
  "is_ascii_alphanumeric c \<longleftrightarrow> CHR ''0'' \<le> c \<and> c \<le> CHR ''9'' \<or> CHR ''A'' \<le> c \<and> c \<le> CHR ''Z'' \<or> CHR ''a'' \<le> c \<and> c \<le> CHR ''z''"

text \<open>\<open>str::contains\<close> of a string.\<close>

fun str_contains :: "string \<Rightarrow> string \<Rightarrow> bool" where
  "str_contains [] n = (n = [])"
| "str_contains (c # s) n = (prefix n (c # s) \<or> str_contains s n)"

text \<open>\<open>Some\<close> message when the identifier is rejected.\<close>

definition check_identifier :: "string \<Rightarrow> string option" where
  "check_identifier name =
    (if name = [] \<or> MAX_IDENTIFIER_LEN < length name then Some ''name must be 1..=100 bytes''
     else if \<not> list_all (\<lambda>b. is_ascii_alphanumeric b \<or> b = CHR ''_'') name then Some ''name may only contain ASCII letters, digits and _''
     else if str_contains name ''__'' then Some ''name may not contain __''
     else None)"

record table_schema_builder =
  tsb_name :: string
  tsb_columns :: "column_schema list"
  tsb_primary_key :: "string option"
  tsb_auto_increment_pk :: bool
  tsb_indexed_columns :: "string list"

definition builder :: "string \<Rightarrow> table_schema_builder" where
  "builder name = \<lparr>tsb_name = name, tsb_columns = [], tsb_primary_key = None, tsb_auto_increment_pk = False,
     tsb_indexed_columns = []\<rparr>"

definition to_builder :: "table_schema \<Rightarrow> table_schema_builder" where
  "to_builder s = \<lparr>tsb_name = td_name s, tsb_columns = td_columns s, tsb_primary_key = Some (td_primary_key s),
     tsb_auto_increment_pk = td_auto_increment_pk s, tsb_indexed_columns = td_indexed_columns s\<rparr>"

definition tsb_column :: "table_schema_builder \<Rightarrow> column_schema \<Rightarrow> table_schema_builder" where
  "tsb_column b c = b\<lparr>tsb_columns := filter (\<lambda>d. cs_name d \<noteq> cs_name c) (tsb_columns b) @ [c]\<rparr>"

definition tsb_drop_column :: "table_schema_builder \<Rightarrow> string \<Rightarrow> table_schema_builder" where
  "tsb_drop_column b name = b\<lparr>tsb_columns := filter (\<lambda>c. cs_name c \<noteq> name) (tsb_columns b),
     tsb_indexed_columns := filter (\<lambda>c. c \<noteq> name) (tsb_indexed_columns b)\<rparr>"

definition tsb_set_primary_key :: "table_schema_builder \<Rightarrow> string \<Rightarrow> table_schema_builder" where
  "tsb_set_primary_key b column = b\<lparr>tsb_primary_key := Some column\<rparr>"

definition tsb_auto_increment :: "table_schema_builder \<Rightarrow> table_schema_builder" where
  "tsb_auto_increment b = b\<lparr>tsb_auto_increment_pk := True\<rparr>"

definition tsb_index :: "table_schema_builder \<Rightarrow> string \<Rightarrow> table_schema_builder" where
  "tsb_index b column = (if column \<in> set (tsb_indexed_columns b) then b
     else b\<lparr>tsb_indexed_columns := tsb_indexed_columns b @ [column]\<rparr>)"

definition tsb_drop_index :: "table_schema_builder \<Rightarrow> string \<Rightarrow> table_schema_builder" where
  "tsb_drop_index b column = b\<lparr>tsb_indexed_columns := filter (\<lambda>c. c \<noteq> column) (tsb_indexed_columns b),
     tsb_columns := map (\<lambda>c. if cs_name c = column then c\<lparr>cs_unique := False\<rparr> else c) (tsb_columns b)\<rparr>"

text \<open>One pass of the loop over the columns; \<open>seen\<close> holds the names of the columns before.\<close>

definition check_column :: "string \<Rightarrow> column_schema \<Rightarrow> string list \<Rightarrow> string list res" where
  "check_column table c seen =
    (let err = (\<lambda>m. Err (SchemaMismatch table m)) in
     case check_identifier (cs_name c) of Some m \<Rightarrow> err m | None \<Rightarrow>
     if cs_name c \<in> set seen then err ''duplicate column''
     else if cs_kind c = KNull then err ''column cannot have kind Null''
     else if cs_unique c \<and> \<not> is_keyable (cs_kind c) then err ''UNIQUE column must be Int or Str''
     else (case cs_default c of
         Some v \<Rightarrow>
           if v = Null then (if \<not> cs_nullable c then err ''NOT NULL column cannot default to null'' else Ok (cs_name c # seen))
           else if kind_of v \<noteq> cs_kind c then err ''default for column must be of its kind''
           else Ok (cs_name c # seen)
       | None \<Rightarrow> Ok (cs_name c # seen)))"

text \<open>The first column called \<open>pk\<close>, stripped of the constraints a key has anyway.\<close>

definition key_column :: "column_schema \<Rightarrow> column_schema" where
  "key_column c = c\<lparr>cs_nullable := False, cs_unique := False, cs_default := None\<rparr>"

fun set_key_column :: "string \<Rightarrow> column_schema list \<Rightarrow> column_schema list" where
  "set_key_column pk [] = []"
| "set_key_column pk (c # cs) = (if cs_name c = pk then key_column c # cs else c # set_key_column pk cs)"

definition collect_index :: "string \<Rightarrow> string \<Rightarrow> column_schema list \<Rightarrow> string \<Rightarrow> string list \<Rightarrow> string list res" where
  "collect_index table pk columns name indexed =
    (if name = pk \<or> name \<in> set indexed then Ok indexed
     else (case find (\<lambda>c. cs_name c = name) columns of
         None \<Rightarrow> Err (SchemaMismatch table ''indexed column is not a declared column'')
       | Some col \<Rightarrow>
           if \<not> is_keyable (cs_kind col) then Err (SchemaMismatch table ''indexed column must be Int or Str'')
           else Ok (indexed @ [name])))"

definition build :: "table_schema_builder \<Rightarrow> table_schema res" where
  "build b =
    (let table = tsb_name b; err = (\<lambda>m. Err (SchemaMismatch table m)) in
     case check_identifier table of Some m \<Rightarrow> err m | None \<Rightarrow>
     if is_reserved table then Err (ReservedTableName table)
     else
       bind_res (for_res (check_column table) (tsb_columns b) []) (\<lambda>_.
       case tsb_primary_key b of None \<Rightarrow> err ''no primary key declared'' | Some pk \<Rightarrow>
       case find (\<lambda>c. cs_name c = pk) (tsb_columns b) of
         None \<Rightarrow> err ''primary key is not a declared column''
       | Some pk_col \<Rightarrow>
           if \<not> is_keyable (cs_kind pk_col) then err ''primary key must be Int or Str''
           else if tsb_auto_increment_pk b \<and> cs_kind pk_col \<noteq> KInt then err ''auto-increment primary key must be Int''
           else
             let columns = set_key_column pk (tsb_columns b) in
             bind_res (for_res (collect_index table pk columns)
               (tsb_indexed_columns b @ map cs_name (filter cs_unique columns)) []) (\<lambda>indexed.
             Ok \<lparr>td_name = table, td_columns = columns, td_primary_key = pk,
               td_auto_increment_pk = tsb_auto_increment_pk b, td_indexed_columns = indexed\<rparr>)))"

section \<open>Well-formed schemas\<close>

abbreviation ident_ok :: "string \<Rightarrow> bool" where
  "ident_ok s \<equiv> check_identifier s = None"

text \<open>\<open>value_ok\<close> holds of every Rust value; the rest is what the builder checks.\<close>

definition default_ok :: "column_schema \<Rightarrow> bool" where
  "default_ok c \<longleftrightarrow> (case cs_default c of None \<Rightarrow> True
    | Some v \<Rightarrow> value_ok v \<and> (if v = Null then cs_nullable c else kind_of v = cs_kind c))"

abbreviation values_ok :: "column_schema list \<Rightarrow> bool" where
  "values_ok cs \<equiv> \<forall>c\<in>set cs. \<forall>v. cs_default c = Some v \<longrightarrow> value_ok v"

definition schema_ok :: "table_schema \<Rightarrow> bool" where
  "schema_ok s \<longleftrightarrow> ident_ok (td_name s) \<and> \<not> is_reserved (td_name s) \<and>
    distinct (map cs_name (td_columns s)) \<and>
    (\<forall>c\<in>set (td_columns s). ident_ok (cs_name c) \<and> cs_kind c \<noteq> KNull \<and>
      default_ok c) \<and>
    (\<exists>c\<in>set (td_columns s). cs_name c = td_primary_key s \<and> is_keyable (cs_kind c) \<and> \<not> cs_unique c \<and>
      cs_default c = None \<and> (td_auto_increment_pk s \<longrightarrow> cs_kind c = KInt)) \<and>
    distinct (td_indexed_columns s) \<and> td_primary_key s \<notin> set (td_indexed_columns s) \<and>
    (\<forall>n\<in>set (td_indexed_columns s). \<exists>c\<in>set (td_columns s). cs_name c = n \<and> is_keyable (cs_kind c)) \<and>
    (\<forall>c\<in>set (td_columns s). cs_unique c \<longrightarrow> cs_name c \<in> set (td_indexed_columns s))"

text \<open>
  The builder marks the primary key as not nullable. A schema converted from a static one does not: there every column
  is nullable, the key too. Nothing else depends on the mark of the key column, so it is not part of \<open>schema_ok\<close>.
\<close>

definition key_required :: "table_schema \<Rightarrow> bool" where
  "key_required s \<longleftrightarrow> (\<forall>c\<in>set (td_columns s). cs_name c = td_primary_key s \<longrightarrow> \<not> cs_nullable c)"

text \<open>What a static schema must satisfy for its conversion to be well formed; no code checks it.\<close>

definition static_ok :: "rel_schema \<Rightarrow> bool" where
  "static_ok r \<longleftrightarrow> ident_ok (rs_name r) \<and> \<not> is_reserved (rs_name r) \<and> distinct (map cd_name (rs_columns r)) \<and>
    (\<forall>c\<in>set (rs_columns r). ident_ok (cd_name c) \<and> cd_kind c \<noteq> KNull) \<and>
    (\<exists>c\<in>set (rs_columns r). cd_name c = rs_primary_key r \<and> is_keyable (cd_kind c) \<and> (rs_auto_increment_pk r \<longrightarrow> cd_kind c = KInt)) \<and>
    distinct (rs_indexed_columns r) \<and> rs_primary_key r \<notin> set (rs_indexed_columns r) \<and>
    (\<forall>n\<in>set (rs_indexed_columns r). \<exists>c\<in>set (rs_columns r). cd_name c = n \<and> is_keyable (cd_kind c))"

lemma static_schema_ok: "static_ok r \<Longrightarrow> schema_ok (from_rel_schema r)"
  by (auto simp: static_ok_def schema_ok_def from_rel_schema_def cs_new_def default_ok_def comp_def)

lemma schema_okD:
  assumes "schema_ok s"
  shows "ident_ok (td_name s)" "\<not> is_reserved (td_name s)" "distinct (map cs_name (td_columns s))"
    "distinct (td_indexed_columns s)" "td_primary_key s \<notin> set (td_indexed_columns s)"
    "\<forall>n\<in>set (td_indexed_columns s). \<exists>c\<in>set (td_columns s). cs_name c = n \<and> is_keyable (cs_kind c)"
    "\<forall>c\<in>set (td_columns s). cs_unique c \<longrightarrow> cs_name c \<in> set (td_indexed_columns s)"
    "\<forall>c\<in>set (td_columns s). ident_ok (cs_name c) \<and> cs_kind c \<noteq> KNull \<and>
      default_ok c"
  using assms by (simp_all add: schema_ok_def)

lemma find_name_iff:
  "distinct (map f cs) \<Longrightarrow> find (\<lambda>c. f c = n) cs = Some c \<longleftrightarrow> c \<in> set cs \<and> f c = n"
  by (induction cs) auto

lemma find_name_None: "find (\<lambda>c. f c = n) cs = None \<longleftrightarrow> n \<notin> f ` set cs"
  by (induction cs) auto

lemma ts_column_iff: "schema_ok s \<Longrightarrow> ts_column s n = Some c \<longleftrightarrow> c \<in> set (td_columns s) \<and> cs_name c = n"
  by (simp add: ts_column_def schema_ok_def find_name_iff)

lemma ts_column_None: "ts_column s n = None \<longleftrightarrow> n \<notin> cs_name ` set (td_columns s)"
  by (simp add: ts_column_def find_name_None)

definition pk_kind_of :: "table_schema \<Rightarrow> column_kind" where
  "pk_kind_of s = (case ts_column s (td_primary_key s) of Some c \<Rightarrow> cs_kind c | None \<Rightarrow> KNull)"

lemma schema_pk:
  assumes "schema_ok s"
  obtains c where "ts_column s (td_primary_key s) = Some c" "primary_key_column s = Ok c" "cs_kind c = pk_kind_of s"
    "is_keyable (pk_kind_of s)" "\<not> cs_unique c" "cs_default c = None"
    "td_auto_increment_pk s \<Longrightarrow> pk_kind_of s = KInt"
proof -
  obtain c where "c \<in> set (td_columns s)" "cs_name c = td_primary_key s" "is_keyable (cs_kind c)" "\<not> cs_unique c"
      "cs_default c = None" "td_auto_increment_pk s \<longrightarrow> cs_kind c = KInt"
    using assms unfolding schema_ok_def by blast
  moreover from this have "ts_column s (td_primary_key s) = Some c" using ts_column_iff [OF assms] by blast
  ultimately show ?thesis by (intro that [of c]) (auto simp: pk_kind_of_def primary_key_column_def)
qed

text \<open>What the loop over the columns establishes, and that it accepts columns that satisfy it.\<close>

definition column_ok :: "column_schema \<Rightarrow> bool" where
  "column_ok c \<longleftrightarrow> ident_ok (cs_name c) \<and> cs_kind c \<noteq> KNull \<and> (cs_unique c \<longrightarrow> is_keyable (cs_kind c)) \<and>
    default_ok c"

lemma check_column_Ok:
  "(\<And>v. cs_default c = Some v \<Longrightarrow> value_ok v) \<Longrightarrow>
    check_column t c seen = Ok seen' \<longleftrightarrow> column_ok c \<and> cs_name c \<notin> set seen \<and> seen' = cs_name c # seen"
  by (auto simp: check_column_def column_ok_def default_ok_def Let_def split: option.splits if_splits)

lemma check_columns_Ok:
  "values_ok cs \<Longrightarrow> for_res (check_column t) cs seen = Ok seen' \<longleftrightarrow>
    (\<forall>c\<in>set cs. column_ok c) \<and> distinct (map cs_name cs) \<and> cs_name ` set cs \<inter> set seen = {} \<and> seen' = rev (map cs_name cs) @ seen"
  by (induction cs arbitrary: seen) (auto simp: bind_res_Ok_iff check_column_Ok)

lemma set_key_column_simps [simp]:
  "map cs_name (set_key_column pk cs) = map cs_name cs" "cs_name ` set (set_key_column pk cs) = cs_name ` set cs"
  "map cs_kind (set_key_column pk cs) = map cs_kind cs"
  by (induction cs) (auto simp: key_column_def)

lemma set_key_column_map:
  "distinct (map cs_name cs) \<Longrightarrow> set_key_column pk cs = map (\<lambda>d. if cs_name d = pk then key_column d else d) cs"
proof (induction cs)
  case (Cons c cs)
  show ?case
  proof (cases "cs_name c = pk")
    case True
    then have "\<forall>d\<in>set cs. cs_name d \<noteq> pk" using Cons.prems by (auto simp: image_iff)
    then have "map (\<lambda>d. if cs_name d = pk then key_column d else d) cs = cs" by (intro map_idI) simp
    then show ?thesis using True by simp
  qed (use Cons in simp)
qed simp

lemma set_key_column_set:
  "distinct (map cs_name cs) \<Longrightarrow> c \<in> set (set_key_column pk cs) \<longleftrightarrow>
    (\<exists>d\<in>set cs. c = (if cs_name d = pk then key_column d else d))"
  by (simp only: set_key_column_map set_map image_iff)

lemma collect_index_cases:
  assumes "collect_index t pk cols n ix = Ok ix'"
  obtains "n = pk \<or> n \<in> set ix" "ix' = ix"
    | c where "n \<noteq> pk" "n \<notin> set ix" "c \<in> set cols" "cs_name c = n" "is_keyable (cs_kind c)" "ix' = ix @ [n]"
proof (cases "n = pk \<or> n \<in> set ix")
  case False
  then obtain c where "find (\<lambda>c. cs_name c = n) cols = Some c" "is_keyable (cs_kind c)" "ix' = ix @ [n]"
    using assms by (auto simp: collect_index_def split: option.splits if_splits)
  moreover from this(1) have "c \<in> set cols" "cs_name c = n" by (auto simp: find_Some_iff)
  ultimately show ?thesis using that(2) False by blast
next
  case True
  then have "ix' = ix" using assms by (auto simp: collect_index_def)
  then show ?thesis by (rule that(1) [OF True])
qed

lemma collect_index_Ok:
  "for_res (collect_index t pk cols) ns ix = Ok ix' \<Longrightarrow> distinct ix \<Longrightarrow> pk \<notin> set ix \<Longrightarrow>
    (\<forall>n\<in>set ix. \<exists>c\<in>set cols. cs_name c = n \<and> is_keyable (cs_kind c)) \<Longrightarrow>
    distinct ix' \<and> set ix' = set ix \<union> set ns - {pk} \<and> (\<forall>n\<in>set ix'. \<exists>c\<in>set cols. cs_name c = n \<and> is_keyable (cs_kind c))"
proof (induction ns arbitrary: ix)
  case (Cons n ns)
  then obtain ix1 where ix1: "collect_index t pk cols n ix = Ok ix1" "for_res (collect_index t pk cols) ns ix1 = Ok ix'"
    by (auto simp: bind_res_Ok_iff)
  from ix1(1) show ?case
  proof (cases rule: collect_index_cases)
    case 1
    then show ?thesis using Cons.IH [of ix] ix1(2) Cons.prems by auto
  next
    case 2
    then show ?thesis using Cons.IH [of ix1] ix1(2) Cons.prems by auto
  qed
qed auto

lemma collect_index_run:
  "distinct (ix @ ns) \<Longrightarrow> pk \<notin> set ns \<Longrightarrow> distinct (map cs_name cols) \<Longrightarrow>
    (\<forall>n\<in>set ns. \<exists>c\<in>set cols. cs_name c = n \<and> is_keyable (cs_kind c)) \<Longrightarrow> for_res (collect_index t pk cols) ns ix = Ok (ix @ ns)"
proof (induction ns arbitrary: ix)
  case (Cons n ns)
  then obtain c where "find (\<lambda>c. cs_name c = n) cols = Some c" "is_keyable (cs_kind c)" by (auto simp: find_name_iff)
  then show ?case using Cons by (auto simp: collect_index_def)
qed simp

lemma collect_index_skip:
  "set ns \<subseteq> insert pk (set ix) \<Longrightarrow> for_res (collect_index t pk cols) ns ix = Ok ix"
  by (induction ns) (auto simp: collect_index_def)

lemma column_ok_values: "\<forall>c\<in>set cs. column_ok c \<Longrightarrow> values_ok cs"
  by (auto simp: column_ok_def default_ok_def)

lemma build_schema_ok:
  assumes "build b = Ok s" "values_ok (tsb_columns b)"
  shows "schema_ok s \<and> key_required s"
proof -
  let ?t = "tsb_name b" and ?cs = "tsb_columns b"
  have t: "ident_ok ?t" "\<not> is_reserved ?t" using assms(1) by (auto simp: build_def Let_def split: option.splits if_splits)
  then obtain seen where seen: "for_res (check_column ?t) ?cs [] = Ok seen"
    using assms(1) by (auto simp: build_def Let_def bind_res_Ok_iff)
  obtain pk c where pk: "tsb_primary_key b = Some pk" "find (\<lambda>c. cs_name c = pk) ?cs = Some c"
      "is_keyable (cs_kind c)" "tsb_auto_increment_pk b \<Longrightarrow> cs_kind c = KInt"
    using assms(1) t seen by (auto simp: build_def Let_def split: option.splits if_splits)
  obtain ix where ix: "for_res (collect_index ?t pk (set_key_column pk ?cs))
        (tsb_indexed_columns b @ map cs_name (filter cs_unique (set_key_column pk ?cs))) [] = Ok ix"
      "s = \<lparr>td_name = ?t, td_columns = set_key_column pk ?cs, td_primary_key = pk,
        td_auto_increment_pk = tsb_auto_increment_pk b, td_indexed_columns = ix\<rparr>"
    using assms(1) t seen pk by (auto simp: build_def Let_def bind_res_Ok_iff split: if_splits)
  have cs: "\<forall>c\<in>set ?cs. column_ok c" "distinct (map cs_name ?cs)" using seen assms(2) by (auto simp: check_columns_Ok)
  have c: "c \<in> set ?cs" "cs_name c = pk" using pk(2) cs(2) by (auto simp: find_name_iff)
  note keyed = set_key_column_set [OF cs(2), of _ pk]
  have "distinct ix" "set ix = set (tsb_indexed_columns b) \<union> cs_name ` {c \<in> set (set_key_column pk ?cs). cs_unique c} - {pk}"
      "\<forall>n\<in>set ix. \<exists>c\<in>set (set_key_column pk ?cs). cs_name c = n \<and> is_keyable (cs_kind c)"
    using collect_index_Ok [OF ix(1)] by (simp_all add: image_def)
  moreover have "cs_name d \<noteq> pk" if "d \<in> set (set_key_column pk ?cs)" "cs_unique d" for d
  proof -
    obtain e where "d = (if cs_name e = pk then key_column e else e)" using \<open>d \<in> _\<close> keyed by blast
    then show ?thesis using \<open>cs_unique d\<close> by (cases "cs_name e = pk") (simp_all add: key_column_def)
  qed
  moreover have "key_column c \<in> set (set_key_column pk ?cs)" using c by (auto simp: keyed)
  then have "\<exists>d\<in>set (set_key_column pk ?cs). cs_name d = pk \<and> is_keyable (cs_kind d) \<and> \<not> cs_unique d \<and>
      cs_default d = None \<and> (tsb_auto_increment_pk b \<longrightarrow> cs_kind d = KInt)"
    using c pk(3,4) by (intro bexI [of _ "key_column c"]) (auto simp: key_column_def)
  moreover have "\<forall>d\<in>set (set_key_column pk ?cs). ident_ok (cs_name d) \<and> cs_kind d \<noteq> KNull \<and>
      default_ok d"
  proof
    fix d assume "d \<in> set (set_key_column pk ?cs)"
    then obtain e where "e \<in> set ?cs" "d = (if cs_name e = pk then key_column e else e)" using keyed by blast
    then show "ident_ok (cs_name d) \<and> cs_kind d \<noteq> KNull \<and>
        default_ok d"
      using cs(1) [rule_format, of e] by (cases "cs_name e = pk") (auto simp: column_ok_def key_column_def default_ok_def)
  qed
  ultimately have "schema_ok s" unfolding schema_ok_def ix(2) table_def.simps set_key_column_simps using t cs(2) by blast
  moreover have "\<not> cs_nullable d" if "d \<in> set (set_key_column pk ?cs)" "cs_name d = pk" for d
  proof -
    have "\<exists>e. d = (if cs_name e = pk then key_column e else e)" using that(1) unfolding keyed by blast
    then obtain e where "d = (if cs_name e = pk then key_column e else e)" by blast
    then show ?thesis using that(2) by (cases "cs_name e = pk") (simp_all add: key_column_def)
  qed
  ultimately show ?thesis by (simp add: key_required_def ix(2))
qed

lemma set_key_column_id:
  "distinct (map cs_name cs) \<Longrightarrow> (\<forall>c\<in>set cs. cs_name c = pk \<longrightarrow> \<not> cs_nullable c \<and> \<not> cs_unique c \<and> cs_default c = None) \<Longrightarrow>
    set_key_column pk cs = cs"
  by (induction cs) (auto simp: key_column_def)

lemma build_to_builder:
  assumes "schema_ok s" "key_required s"
  shows "build (to_builder s) = Ok s"
proof -
  obtain c where c: "c \<in> set (td_columns s)" "cs_name c = td_primary_key s" "is_keyable (cs_kind c)" "\<not> cs_unique c"
      "cs_default c = None" "td_auto_increment_pk s \<longrightarrow> cs_kind c = KInt"
    using assms(1) unfolding schema_ok_def by blast
  note d = schema_okD(3-6) [OF assms(1)]
  have only: "x = c" if "x \<in> set (td_columns s)" "cs_name x = td_primary_key s" for x
    using that c d(1) by (metis distinct_map inj_onD)
  have keyed: "set_key_column (td_primary_key s) (td_columns s) = td_columns s"
  proof (rule set_key_column_id [OF d(1)], intro ballI impI)
    fix x assume x: "x \<in> set (td_columns s)" "cs_name x = td_primary_key s"
    then have "\<not> cs_nullable x" using assms(2) unfolding key_required_def by blast
    then show "\<not> cs_nullable x \<and> \<not> cs_unique x \<and> cs_default x = None" using only [OF x] c(4,5) by simp
  qed
  have cols: "column_ok x" if x: "x \<in> set (td_columns s)" for x
  proof -
    have "is_keyable (cs_kind x)" if u: "cs_unique x"
    proof -
      have "cs_name x \<in> set (td_indexed_columns s)" using schema_okD(7) [OF assms(1)] x u by blast
      then obtain y where "y \<in> set (td_columns s)" "cs_name y = cs_name x" "is_keyable (cs_kind y)" using d(4) by blast
      then show ?thesis using x d(1) by (metis distinct_map inj_onD)
    qed
    then show ?thesis using schema_okD(8) [OF assms(1)] x unfolding column_ok_def by blast
  qed
  have "for_res (collect_index (td_name s) (td_primary_key s) (td_columns s))
      (td_indexed_columns s @ map cs_name (filter cs_unique (td_columns s))) [] = Ok (td_indexed_columns s)"
    using collect_index_run [of "[]" "td_indexed_columns s", OF _ d(3) d(1,4)] d(2) schema_okD(7) [OF assms(1)]
    by (simp add: for_res_append) (rule collect_index_skip, auto)
  moreover have "for_res (check_column (td_name s)) (td_columns s) [] = Ok (rev (map cs_name (td_columns s)))"
    using cols d(1) column_ok_values [of "td_columns s"] by (auto simp: check_columns_Ok)
  moreover have "find (\<lambda>c. cs_name c = td_primary_key s) (td_columns s) = Some c" using c d(1) by (auto simp: find_name_iff)
  moreover note schema_okD(1,2) [OF assms(1)]
  ultimately show ?thesis using c(3,6) by (simp add: build_def to_builder_def Let_def keyed)
qed

end
