(* ===== verification/Rel_Codec.thy ===== *)
theory Rel_Codec
  imports Rel_Schema
begin

text \<open>
  Keys and counters of the relational store (\<open>bkndb-core/src/relational/codec.rs\<close>). Row keys are the sortable
  encoding of the primary key; an index key is the encoding of the indexed value followed by the one of the
  primary key. The lemmas show that the two parts can be told apart, that distinct rows have distinct keys, that
  byte ranges cover value ranges, and that no table of one schema is a table of another. The serialiser is the
  record \<open>rel_codecs\<close>; \<open>intern\<close> only caches strings and is the identity.
\<close>

section \<open>Tables and catalog entries\<close>

definition meta_table :: table where "meta_table = ''meta''"

definition index_table_named :: "string \<Rightarrow> string \<Rightarrow> table" where
  "index_table_named t column = t @ ''__idx_'' @ column"

definition index_table :: "table_schema \<Rightarrow> string \<Rightarrow> table" where
  "index_table s column = index_table_named (td_name s) column"

record rel_codecs =
  row_codec :: "properties codec"
  def_codec :: "table_def codec"
  group_codec :: "prop_value list codec"

definition CATALOG_PREFIX :: bytes where "CATALOG_PREFIX = as_bytes ''relschema:''"
definition CATALOG_VERSION :: byte where "CATALOG_VERSION = 1"

definition catalog_key :: "string \<Rightarrow> bytes" where
  "catalog_key t = CATALOG_PREFIX @ as_bytes t"

definition encode_table_def :: "rel_codecs \<Rightarrow> table_def \<Rightarrow> bytes res" where
  "encode_table_def C d = bind_res (encode (def_codec C) d) (\<lambda>bs. Ok (CATALOG_VERSION # bs))"

definition decode_table_def :: "rel_codecs \<Rightarrow> bytes \<Rightarrow> table_def res" where
  "decode_table_def C bs = (case bs of
      [] \<Rightarrow> Err (Encoding ''empty catalog entry'')
    | v # rest \<Rightarrow>
        if v = CATALOG_VERSION then decode (def_codec C) rest
        else Err (Encoding ''unsupported catalog entry version''))"

section \<open>Sortable keys\<close>

definition sortable_encode :: "prop_value \<Rightarrow> bytes res" where
  "sortable_encode v = (case sortable_key v of
      Some k \<Rightarrow> Ok k
    | None \<Rightarrow> Err (Encoding (case v of
        Str _ \<Rightarrow> ''strings used as a primary key or indexed value cannot contain a NUL byte''
      | _ \<Rightarrow> ''only Int/Str/Timestamp/Uuid values can be used as a primary key or indexed column'')))"

definition decode_sortable :: "column_kind \<Rightarrow> bytes \<Rightarrow> prop_value res" where
  "decode_sortable kind bs =
    (if kind = KInt \<or> kind = KTimestamp then
       if length bs \<noteq> 8 then Err (Encoding ''corrupt sortable int key'')
       else let n = of_be64 bs XOR 0x8000000000000000 in Ok (if kind = KInt then IntV n else Timestamp n)
     else if kind = KUuid then
       if length bs \<noteq> 16 then Err (Encoding ''corrupt sortable uuid key'') else Ok (Uuid bs)
     else if kind = KStr then
       if bs = [] then Err (Encoding ''empty sortable str key'')
       else if last bs \<noteq> 0 then Err (Encoding ''sortable str key missing terminator'')
       else bind_res (ok_or (from_utf8 (butlast bs)) (Encoding ''invalid utf-8'')) (\<lambda>s. Ok (Str s))
     else Err (Encoding ''only Int/Str/Timestamp/Uuid columns support sortable decoding''))"

definition index_key :: "prop_value \<Rightarrow> prop_value \<Rightarrow> bytes res" where
  "index_key v pk = bind_res (sortable_encode v) (\<lambda>k. bind_res (sortable_encode pk) (\<lambda>p. Ok (k @ p)))"

definition rel_prefix_upper_bound :: "bytes \<Rightarrow> bytes option" where
  "rel_prefix_upper_bound p = byte_successor p"

definition sortable_str_prefix_bounds :: "string \<Rightarrow> bytes bound \<times> bytes bound" where
  "sortable_str_prefix_bounds p =
    (if p = [] then (Unbounded, Unbounded)
     else (Included (as_bytes p), (case rel_prefix_upper_bound (as_bytes p) of Some ub \<Rightarrow> Excluded ub | None \<Rightarrow> Unbounded)))"

definition indexed_value_len :: "column_kind \<Rightarrow> bytes \<Rightarrow> nat res" where
  "indexed_value_len kind key =
    (if kind = KInt \<or> kind = KTimestamp then Ok 8
     else if kind = KUuid then Ok 16
     else if kind = KStr then
       (if 0 \<in> set key then Ok (Suc (length (takeWhile (\<lambda>b. b \<noteq> 0) key))) else Err (Encoding ''index key missing str terminator''))
     else Err (Encoding ''only Int/Str/Timestamp/Uuid columns support indexing''))"

text \<open>\<open>&key[split..]\<close> panics when the key is shorter than the split.\<close>

definition pk_from_index_key :: "column_kind \<Rightarrow> column_kind \<Rightarrow> bytes \<Rightarrow> prop_value res" where
  "pk_from_index_key indexed_kind pk_kind key =
    bind_res (indexed_value_len indexed_kind key) (\<lambda>split.
    if length key < split then Panic else decode_sortable pk_kind (drop split key))"

definition lower_bound_bytes :: "prop_value bound \<Rightarrow> bytes bound res" where
  "lower_bound_bytes b = (case b of
      Unbounded \<Rightarrow> Ok Unbounded
    | Included v \<Rightarrow> bind_res (sortable_encode v) (\<lambda>k. Ok (Included k))
    | Excluded v \<Rightarrow> bind_res (sortable_encode v) (\<lambda>enc.
        Ok (case rel_prefix_upper_bound enc of Some b \<Rightarrow> Included b | None \<Rightarrow> Unbounded)))"

definition upper_bound_bytes :: "prop_value bound \<Rightarrow> bytes bound res" where
  "upper_bound_bytes b = (case b of
      Unbounded \<Rightarrow> Ok Unbounded
    | Excluded v \<Rightarrow> bind_res (sortable_encode v) (\<lambda>k. Ok (Excluded k))
    | Included v \<Rightarrow> bind_res (sortable_encode v) (\<lambda>enc.
        Ok (case rel_prefix_upper_bound enc of Some b \<Rightarrow> Excluded b | None \<Rightarrow> Unbounded)))"

definition encode_row :: "rel_codecs \<Rightarrow> properties \<Rightarrow> bytes res" where
  "encode_row C p = encode (row_codec C) p"

definition decode_row :: "rel_codecs \<Rightarrow> bytes \<Rightarrow> properties res" where
  "decode_row C bs = decode (row_codec C) bs"

section \<open>Primary-key counters\<close>

definition row_counter_key :: "string \<Rightarrow> bytes" where
  "row_counter_key t = as_bytes (''relnext:'' @ t)"

text \<open>The counter as stored, or 1; additions wrap as they do in a release build.\<close>

definition read_counter :: "('r, 'z) read_ops_scheme \<Rightarrow> 'r \<Rightarrow> bytes \<Rightarrow> u64 res" where
  "read_counter ops r key = bind_res (s_get ops r meta_table key) (\<lambda>x. case x of
      Some bs \<Rightarrow> if length bs = 8 then Ok (of_be64 bs) else Err (Encoding ''corrupt relational id counter'')
    | None \<Rightarrow> Ok 1)"

definition reserve_pks :: "('w, 'z) write_ops_scheme \<Rightarrow> 'w \<Rightarrow> table_schema \<Rightarrow> u64 \<Rightarrow> (i64 \<times> 'w) res" where
  "reserve_pks ops w s count =
    (if count = 0 then Ok (0, w)
     else
       let key = row_counter_key (td_name s) in
       bind_res (read_counter ops w key) (\<lambda>current.
       bind_res (s_put ops w meta_table key (be64 (current + count))) (\<lambda>w.
       Ok (current, w))))"

definition bump_pk_counter_past :: "('w, 'z) write_ops_scheme \<Rightarrow> 'w \<Rightarrow> table_schema \<Rightarrow> i64 \<Rightarrow> 'w res" where
  "bump_pk_counter_past ops w s pk =
    (if sint pk < 1 then Ok w
     else
       let key = row_counter_key (td_name s) in
       bind_res (read_counter ops w key) (\<lambda>current.
       let needed = pk + 1 in
       if current < needed then s_put ops w meta_table key (be64 needed) else Ok w))"

section \<open>Table names\<close>

lemma str_contains_iff: "str_contains s n \<longleftrightarrow> (\<exists>a b. s = a @ n @ b)"
proof (induction s)
  case (Cons c s)
  show ?case
  proof
    assume "str_contains (c # s) n"
    then consider b where "c # s = n @ b" | a b where "s = a @ n @ b" using Cons by (auto simp: prefix_def)
    then show "\<exists>a b. c # s = a @ n @ b"
    proof cases
      case 2
      then show ?thesis by (intro exI [of _ "c # a"] exI [of _ b]) simp
    qed (metis append_Nil)
  next
    assume "\<exists>a b. c # s = a @ n @ b"
    then obtain a b where e: "c # s = a @ n @ b" by blast
    show "str_contains (c # s) n"
    proof (cases a)
      case Nil
      then have "prefix n (c # s)" using e by simp
      then show ?thesis by simp
    qed (use e Cons in auto)
  qed
qed auto

lemma ident_no_dunder: "ident_ok s \<Longrightarrow> \<not> str_contains s ''__''"
  by (auto simp: check_identifier_def split: if_splits)

lemma dunder_unique:
  assumes "\<not> str_contains t ''__''" "\<not> str_contains t' ''__''" "t @ ''__'' @ a # x = t' @ ''__'' @ b # y"
    and "a \<noteq> CHR ''_''" "b \<noteq> CHR ''_''"
  shows "t = t'"
proof -
  have no: False if "\<not> str_contains v ''__''" "u @ ''__'' @ c # p = v @ ''__'' @ d # q" "c \<noteq> CHR ''_''" "length u < length v"
    for u v :: string and c d p q
  proof -
    obtain z where z: "v = u @ z" using \<open>u @ _ = v @ _\<close> \<open>length u < length v\<close> by (metis append_eq_append_conv_if append_take_drop_id less_imp_le)
    then have e: "''__'' @ c # p = z @ ''__'' @ d # q" and "z \<noteq> []" using that by auto
    then show False
    proof (cases z)
      case (Cons z1 z2)
      show ?thesis
      proof (cases z2)
        case Nil
        then show ?thesis using e Cons \<open>c \<noteq> CHR ''_''\<close> by simp
      next
        case (Cons z3 z4)
        then have "v = u @ ''__'' @ z4" using z e \<open>z = z1 # z2\<close> by auto
        then show ?thesis using that(1) by (auto simp: str_contains_iff)
      qed
    qed simp
  qed
  show ?thesis
  proof (rule ccontr)
    assume "t \<noteq> t'"
    then have "length t \<noteq> length t'" using assms(3) by auto
    then show False using no [OF assms(2,3,4)] no [OF assms(1) assms(3) [symmetric] assms(5)] by linarith
  qed
qed

lemma index_table_inject:
  assumes "ident_ok t" "ident_ok t'" "index_table_named t c = index_table_named t' c'"
  shows "t = t' \<and> c = c'"
proof -
  have "t @ ''__'' @ CHR ''i'' # ''dx_'' @ c = t' @ ''__'' @ CHR ''i'' # ''dx_'' @ c'"
    using assms(3) by (simp add: index_table_named_def)
  then have "t = t'" by (rule dunder_unique [OF ident_no_dunder [OF assms(1)] ident_no_dunder [OF assms(2)]]) simp_all
  then show ?thesis using assms(3) by (simp add: index_table_named_def)
qed

lemma index_table_dunder: "str_contains (index_table_named t c) ''__''"
  unfolding str_contains_iff index_table_named_def by (intro exI [of _ t] exI [of _ "''idx_'' @ c"]) simp

lemma index_table_not_ident [simp]: "\<not> ident_ok (index_table_named t c)"
  using index_table_dunder ident_no_dunder by blast

lemma index_table_not_reserved [simp]: "\<not> is_reserved (index_table_named t c)"
proof
  assume "is_reserved (index_table_named t c)"
  moreover have "\<forall>s\<in>set RESERVED_TABLE_NAMES. \<not> str_contains s ''__''"
    by (simp add: RESERVED_TABLE_NAMES_def)
  ultimately show False using index_table_dunder by (auto simp: is_reserved_def)
qed

lemma meta_reserved [simp]: "is_reserved meta_table"
  by (simp add: is_reserved_def RESERVED_TABLE_NAMES_def meta_table_def)

section \<open>Keys determine values\<close>

lemma kind_of_name: "kind_name a = kind_name b \<longleftrightarrow> kind_of a = kind_of b"
  by (cases a; cases b) (simp_all add: kind_name_def kind_of_def)

lemma kind_of_simps [simp]:
  "kind_of Null = KNull" "kind_of (Bool x) = KBool" "kind_of (IntV i) = KInt" "kind_of (Float f) = KFloat" "kind_of (Str s) = KStr"
  "kind_of (Bytes b) = KBytes" "kind_of (Timestamp i) = KTimestamp" "kind_of (Uuid u) = KUuid" "kind_of (List l) = KList"
  "kind_of (Map m) = KMap"
  by (simp_all add: kind_of_def)

lemma kind_of_Null_iff [simp]: "kind_of v = KNull \<longleftrightarrow> v = Null"
  by (cases v) simp_all

lemma sortable_encode_Ok [simp]: "sortable_encode v = Ok k \<longleftrightarrow> sortable_key v = Some k"
  by (auto simp: sortable_encode_def split: option.splits)

lemma sortable_encode_Some [simp]: "sortable_key v = Some k \<Longrightarrow> sortable_encode v = Ok k"
  by simp

lemma sortable_key_keyable: "sortable_key v = Some k \<Longrightarrow> is_keyable (kind_of v)"
  by (cases v) (simp_all add: sortable_key_def is_keyable_def)

lemma index_key_Ok: "index_key v pk = Ok k \<longleftrightarrow> (\<exists>a b. sortable_key v = Some a \<and> sortable_key pk = Some b \<and> k = a @ b)"
  by (auto simp: index_key_def bind_res_Ok_iff)

text \<open>The encodings of one kind are prefix free, whatever follows them.\<close>

lemma terminated_split:
  "xs @ 0 # r = ys @ (0 :: byte) # r' \<Longrightarrow> 0 \<notin> set xs \<Longrightarrow> 0 \<notin> set ys \<Longrightarrow> xs = ys \<and> r = r'"
proof (induction xs arbitrary: ys)
  case Nil
  then show ?case by (cases ys) auto
next
  case (Cons x xs)
  then show ?case by (cases ys) auto
qed

lemma sortable_key_split:
  assumes "sortable_key a = Some ka" "sortable_key b = Some kb" "kind_of a = kind_of b" "value_ok a" "value_ok b" "ka @ r = kb @ r'"
  shows "a = b \<and> r = r'"
proof -
  have flip: "i = j" if "i XOR 0x8000000000000000 = j XOR 0x8000000000000000" for i j :: i64
  proof -
    have "(i XOR 0x8000000000000000) XOR 0x8000000000000000 = (j XOR 0x8000000000000000) XOR 0x8000000000000000" by (simp only: that)
    then show ?thesis by (simp only: xor.assoc xor_self_eq xor.right_neutral)
  qed
  have str: "s = t \<and> r = r'" if "as_bytes s @ 0 # r = as_bytes t @ 0 # r'" "0 \<notin> set (as_bytes s)" "0 \<notin> set (as_bytes t)" for s t
    using terminated_split [OF that] by simp
  show ?thesis
    using assms by (cases a; cases b) (auto simp: sortable_key_def dest!: flip str split: if_splits)
qed

lemma sortable_key_inject:
  "sortable_key a = Some k \<Longrightarrow> sortable_key b = Some k \<Longrightarrow> kind_of a = kind_of b \<Longrightarrow> value_ok a \<Longrightarrow> value_ok b \<Longrightarrow> a = b"
  using sortable_key_split [of a k b k "[]" "[]"] by simp

lemma sortable_key_prefix:
  assumes "sortable_key a = Some ka" "sortable_key b = Some kb" "kind_of a = kind_of b" "value_ok a" "value_ok b" "prefix ka (kb @ r)"
  shows "a = b"
proof -
  obtain z where "kb @ r = ka @ z" using assms(6) by (auto simp: prefix_def)
  then show ?thesis using sortable_key_split [OF assms(2,1)] assms(3-5) by auto
qed

lemma decode_sortable_key:
  assumes "sortable_key v = Some k" "value_ok v"
  shows "decode_sortable (kind_of v) k = Ok v"
proof -
  have flip: "(i XOR m) XOR m = (i :: i64)" for i m by (simp only: xor.assoc xor_self_eq xor.right_neutral)
  show ?thesis using assms
    by (cases v) (auto simp: sortable_key_def decode_sortable_def flip butlast_append split: if_splits)
qed

lemma pk_from_index_key_Ok:
  assumes "index_key v pk = Ok k" "value_ok v" "value_ok pk"
  shows "pk_from_index_key (kind_of v) (kind_of pk) k = Ok pk"
proof -
  obtain a b where ab: "sortable_key v = Some a" "sortable_key pk = Some b" "k = a @ b" using assms(1) by (auto simp: index_key_Ok)
  have stop: "takeWhile (\<lambda>b. b \<noteq> 0) (xs @ 0 # r) = xs" if "0 \<notin> set xs" for xs r :: bytes
    using that by (induction xs) auto
  have "indexed_value_len (kind_of v) k = Ok (length a)"
    using ab(1,3) assms(2)
    by (cases v) (auto simp: indexed_value_len_def sortable_key_def stop split: if_splits)
  then show ?thesis using ab assms(3) by (simp add: pk_from_index_key_def decode_sortable_key)
qed

section \<open>Byte ranges cover value ranges\<close>

lemma less_append_not_prefix: "(xs :: bytes) < ys \<Longrightarrow> \<not> prefix xs ys \<Longrightarrow> xs @ r < ys"
proof (induction xs arbitrary: ys)
  case (Cons x xs)
  then show ?case by (cases ys) auto
qed simp

definition val_lo_ok :: "prop_value bound \<Rightarrow> prop_value \<Rightarrow> bool" where
  "val_lo_ok b v = (case b of
      Unbounded \<Rightarrow> True
    | Included x \<Rightarrow> compare_values v x \<in> {Some Equal, Some Greater}
    | Excluded x \<Rightarrow> compare_values v x = Some Greater)"

definition val_hi_ok :: "prop_value bound \<Rightarrow> prop_value \<Rightarrow> bool" where
  "val_hi_ok b v = (case b of
      Unbounded \<Rightarrow> True
    | Included x \<Rightarrow> compare_values v x \<in> {Some Equal, Some Less}
    | Excluded x \<Rightarrow> compare_values v x = Some Less)"

definition bound_key_ok :: "column_kind \<Rightarrow> prop_value bound \<Rightarrow> bool" where
  "bound_key_ok k b = (case b of Unbounded \<Rightarrow> True
    | Included x \<Rightarrow> kind_of x = k \<and> sortable_key x \<noteq> None \<and> value_ok x
    | Excluded x \<Rightarrow> kind_of x = k \<and> sortable_key x \<noteq> None \<and> value_ok x)"

lemma lower_bound_bytes_covers:
  assumes "sortable_key v = Some kv" "value_ok v" "bound_key_ok (kind_of v) lo" "val_lo_ok lo v"
  shows "\<exists>b. lower_bound_bytes lo = Ok b \<and> lo_ok b (kv @ r)"
proof (cases lo)
  case (Included x)
  then obtain kx where x: "sortable_key x = Some kx" "kind_of x = kind_of v" using assms(3) by (auto simp: bound_key_ok_def)
  then have "compare_values v x = Some (cmp kv kx)" using assms(1) by (intro sortable_key_cmp) (simp_all add: kind_of_name)
  then have "kx \<le> kv" using assms(4) Included by (auto simp: val_lo_ok_def)
  moreover have "kv \<le> kv @ r" by simp
  ultimately have "kx \<le> kv @ r" by order
  then show ?thesis using Included x by (auto simp: lower_bound_bytes_def)
next
  case (Excluded x)
  then obtain kx where x: "sortable_key x = Some kx" "kind_of x = kind_of v" "value_ok x" using assms(3) by (auto simp: bound_key_ok_def)
  then have "compare_values v x = Some (cmp kv kx)" using assms(1) by (intro sortable_key_cmp) (simp_all add: kind_of_name)
  then have less: "kx < kv" using assms(4) Excluded by (auto simp: val_lo_ok_def)
  moreover have "kv \<le> kv @ r" by simp
  ultimately have "kx \<le> kv @ r" by order
  moreover have "\<not> prefix kx (kv @ r)" using sortable_key_prefix [OF x(1) assms(1) x(2,3) assms(2)] less x(1) assms(1) by auto
  ultimately have "u \<le> kv @ r" if "byte_successor kx = Some u" for u using byte_successor_range [OF that, of "kv @ r"] by auto
  then show ?thesis using Excluded x by (auto simp: lower_bound_bytes_def rel_prefix_upper_bound_def split: option.split)
qed (simp add: lower_bound_bytes_def)

lemma upper_bound_bytes_covers:
  assumes "sortable_key v = Some kv" "value_ok v" "bound_key_ok (kind_of v) hi" "val_hi_ok hi v"
  shows "\<exists>b. upper_bound_bytes hi = Ok b \<and> hi_ok b (kv @ r)"
proof -
  have below: "kv @ r < kx" if "sortable_key x = Some kx" "kind_of x = kind_of v" "value_ok x" "kv < kx" for x kx
  proof (rule less_append_not_prefix [OF that(4)])
    show "\<not> prefix kv kx" using sortable_key_prefix [of v kv x kx "[]"] that assms(1,2) by auto
  qed
  have cmp: "compare_values v x = Some (cmp kv kx)" if "sortable_key x = Some kx" "kind_of x = kind_of v" for x kx
    using that assms(1) by (intro sortable_key_cmp) (simp_all add: kind_of_name)
  show ?thesis
  proof (cases hi)
    case (Included x)
    then obtain kx where x: "sortable_key x = Some kx" "kind_of x = kind_of v" "value_ok x" using assms(3) by (auto simp: bound_key_ok_def)
    then have "kv \<le> kx" using assms(4) Included cmp [OF x(1,2)] by (auto simp: val_hi_ok_def)
    then have "kv @ r < u" if u: "byte_successor kx = Some u" for u
    proof (cases "kv = kx")
      case True
      then show ?thesis using byte_successor_range [OF u, of "kv @ r"] by simp
    next
      case False
      then have "kv @ r < kx" using below [OF x] \<open>kv \<le> kx\<close> by simp
      moreover have "kx < u" using byte_successor_range [OF u, of kx] by simp
      ultimately show ?thesis by order
    qed
    then show ?thesis using Included x by (auto simp: upper_bound_bytes_def rel_prefix_upper_bound_def split: option.split)
  next
    case (Excluded x)
    then obtain kx where x: "sortable_key x = Some kx" "kind_of x = kind_of v" "value_ok x" using assms(3) by (auto simp: bound_key_ok_def)
    then show ?thesis using Excluded assms(4) cmp [OF x(1,2)] below [OF x] by (auto simp: upper_bound_bytes_def val_hi_ok_def)
  qed (simp add: upper_bound_bytes_def)
qed

lemma bound_bytes_Ok:
  assumes "bound_key_ok k b"
  shows "\<exists>x. lower_bound_bytes b = Ok x" "\<exists>x. upper_bound_bytes b = Ok x"
  using assms by (auto simp: bound_key_ok_def lower_bound_bytes_def upper_bound_bytes_def split: bound.splits)

lemma str_prefix_bounds_cover:
  assumes "sortable_key (Str s) = Some k" "prefix p s"
  shows "in_range (fst (sortable_str_prefix_bounds p)) (snd (sortable_str_prefix_bounds p)) (k @ r)"
proof -
  have "prefix (as_bytes p) (k @ r)" using assms by (auto simp: sortable_key_def prefix_def split: if_splits)
  then have "in_range (Included (as_bytes p)) (prefix_hi (byte_successor (as_bytes p))) (k @ r)" by (simp add: in_range_prefix)
  then show ?thesis by (simp add: sortable_str_prefix_bounds_def rel_prefix_upper_bound_def prefix_hi_def in_range_def)
qed

section \<open>Counters\<close>

lemma row_counter_key_inject [simp]: "row_counter_key t = row_counter_key t' \<longleftrightarrow> t = t'"
  by (simp add: row_counter_key_def del: as_bytes_simps as_bytes_append)

lemma catalog_key_inject [simp]: "catalog_key t = catalog_key t' \<longleftrightarrow> t = t'"
  by (simp add: catalog_key_def)

lemma catalog_counter_disjoint [simp]: "catalog_key t \<noteq> row_counter_key t'" "row_counter_key t' \<noteq> catalog_key t"
  by (simp_all add: catalog_key_def row_counter_key_def CATALOG_PREFIX_def)

end
