(* ===== verification/Rel_Rows.thy ===== *)
theory Rel_Rows
  imports Rel_Codec
begin

text \<open>
  Rows of a relational table (\<open>bkndb-core/src/relational/db/mod.rs\<close>, \<open>read.rs\<close>, \<open>write.rs\<close>): validation, reads
  through the primary key and the secondary indexes, and the writes that keep the indexes in step. A row's
  properties are an ordered map (\<open>properties\<close>, updated with \<open>bt_insert\<close> and \<open>bt_remove\<close>).

  The calls of the \<open>search\<close> feature that the source compiles in conditionally are the fields of \<open>search_hooks\<close>;
  \<open>no_search\<close> is the build without the feature. The key's text in a duplicate-key error is left out.
\<close>

record row =
  row_pk :: prop_value
  row_values :: properties

definition row_get :: "row \<Rightarrow> table_schema \<Rightarrow> string \<Rightarrow> prop_value option" where
  "row_get r s column = (if column = td_primary_key s then Some (row_pk r) else map_of (row_values r) column)"

record 'w search_hooks =
  on_row_change :: "'w \<Rightarrow> table_schema \<Rightarrow> prop_value \<Rightarrow> properties option \<Rightarrow> properties option \<Rightarrow> 'w res"
  retain_valid :: "'w \<Rightarrow> string \<Rightarrow> table_schema option \<Rightarrow> 'w res"

definition no_search :: "'w search_hooks" where
  "no_search = \<lparr>on_row_change = (\<lambda>w _ _ _ _. Ok w), retain_valid = (\<lambda>w _ _. Ok w)\<rparr>"

section \<open>Reads\<close>

definition get_in :: "rel_codecs \<Rightarrow> ('r, 'z) read_ops_scheme \<Rightarrow> 'r \<Rightarrow> table_schema \<Rightarrow> prop_value \<Rightarrow> row option res" where
  "get_in C ops r s pk = (case sortable_encode pk of
      Ok key \<Rightarrow>
        bind_res (s_get ops r (base_table s) key) (\<lambda>x. case x of
            Some bs \<Rightarrow> bind_res (decode_row C bs) (\<lambda>vs. Ok (Some \<lparr>row_pk = pk, row_values = vs\<rparr>))
          | None \<Rightarrow> Ok None)
    | Err _ \<Rightarrow> Ok None
    | Panic \<Rightarrow> Panic)"

definition decode_base_row :: "rel_codecs \<Rightarrow> column_kind \<Rightarrow> bytes \<times> bytes \<Rightarrow> row res" where
  "decode_base_row C pk_kind kv = (case kv of (k, v) \<Rightarrow>
    bind_res (decode_sortable pk_kind k) (\<lambda>pk.
    bind_res (decode_row C v) (\<lambda>vs.
    Ok \<lparr>row_pk = pk, row_values = vs\<rparr>)))"

definition scan_all_in :: "rel_codecs \<Rightarrow> ('r, 'z) read_ops_scheme \<Rightarrow> 'r \<Rightarrow> table_schema \<Rightarrow> row list res" where
  "scan_all_in C ops r s =
    bind_res (s_range ops r (base_table s) Unbounded Unbounded) (\<lambda>rows.
    bind_res (primary_key_column s) (\<lambda>c.
    traverse (decode_base_row C (cs_kind c)) rows))"

text \<open>The value to index for a column: nulls are never indexed.\<close>

definition indexable :: "row \<Rightarrow> table_schema \<Rightarrow> string \<Rightarrow> prop_value option" where
  "indexable r s column = (case row_get r s column of Some v \<Rightarrow> if v = Null then None else Some v | None \<Rightarrow> None)"

text \<open>One index entry: the row it points to, unless the row is gone or no longer agrees with the entry.\<close>

definition resolve_entry :: "rel_codecs \<Rightarrow> ('r, 'z) read_ops_scheme \<Rightarrow> 'r \<Rightarrow> table_schema \<Rightarrow> string \<Rightarrow> column_kind \<Rightarrow> column_kind
    \<Rightarrow> bytes \<times> bytes \<Rightarrow> row list \<Rightarrow> row list res" where
  "resolve_entry C ops r s column indexed_kind pk_kind kv out = (case kv of (key, _) \<Rightarrow>
    bind_res (pk_from_index_key indexed_kind pk_kind key) (\<lambda>pk.
    bind_res (get_in C ops r s pk) (\<lambda>x. case x of
        None \<Rightarrow> Ok out
      | Some row \<Rightarrow>
          let current = (case indexable row s column of
              Some v \<Rightarrow> (case index_key v pk of Ok k \<Rightarrow> Some k | _ \<Rightarrow> None)
            | None \<Rightarrow> None)
          in Ok (if current = Some key then out @ [row] else out))))"

definition resolve_index_rows_in :: "rel_codecs \<Rightarrow> ('r, 'z) read_ops_scheme \<Rightarrow> 'r \<Rightarrow> table_schema \<Rightarrow> string \<Rightarrow> kv_pairs \<Rightarrow> row list res" where
  "resolve_index_rows_in C ops r s column rows =
    bind_res (ok_or (ts_column s column) (Encoding ''no such column'')) (\<lambda>c.
    bind_res (primary_key_column s) (\<lambda>pkc.
    for_res (resolve_entry C ops r s column (cs_kind c) (cs_kind pkc)) rows []))"

definition index_lookup_eq_in :: "rel_codecs \<Rightarrow> ('r, 'z) read_ops_scheme \<Rightarrow> 'r \<Rightarrow> table_schema \<Rightarrow> string \<Rightarrow> prop_value \<Rightarrow> row list res" where
  "index_lookup_eq_in C ops r s column value =
    bind_res (sortable_encode value) (\<lambda>p.
    bind_res (case rel_prefix_upper_bound p of
        Some e \<Rightarrow> s_range ops r (index_table s column) (Included p) (Excluded e)
      | None \<Rightarrow> s_range ops r (index_table s column) (Included p) Unbounded) (\<lambda>rows.
    resolve_index_rows_in C ops r s column rows))"

definition index_lookup_range_in :: "rel_codecs \<Rightarrow> ('r, 'z) read_ops_scheme \<Rightarrow> 'r \<Rightarrow> table_schema \<Rightarrow> string
    \<Rightarrow> prop_value bound \<Rightarrow> prop_value bound \<Rightarrow> row list res" where
  "index_lookup_range_in C ops r s column start stop =
    bind_res (lower_bound_bytes start) (\<lambda>lo.
    bind_res (upper_bound_bytes stop) (\<lambda>hi.
    bind_res (s_range ops r (index_table s column) lo hi) (\<lambda>rows.
    resolve_index_rows_in C ops r s column rows)))"

definition index_lookup_prefix_in :: "rel_codecs \<Rightarrow> ('r, 'z) read_ops_scheme \<Rightarrow> 'r \<Rightarrow> table_schema \<Rightarrow> string \<Rightarrow> string \<Rightarrow> row list res" where
  "index_lookup_prefix_in C ops r s column p =
    bind_res (ok_or (ts_column s column) (Encoding ''no such column'')) (\<lambda>c.
    if cs_kind c \<noteq> KStr then Err (Encoding ''prefix search is only supported on Str columns'')
    else
      bind_res (s_range ops r (index_table s column) (fst (sortable_str_prefix_bounds p)) (snd (sortable_str_prefix_bounds p))) (\<lambda>rows.
      resolve_index_rows_in C ops r s column rows))"

section \<open>Validation\<close>

definition check_value :: "table_schema \<Rightarrow> string \<Rightarrow> prop_value \<Rightarrow> unit res" where
  "check_value s name v = (case ts_column s name of
      None \<Rightarrow> Err (SchemaMismatch (td_name s) ''column is not declared in the schema'')
    | Some col \<Rightarrow>
        if v \<noteq> Null \<and> kind_of v \<noteq> cs_kind col then Err (SchemaMismatch (td_name s) ''column expects another kind'')
        else Ok ())"

definition check_not_null :: "table_schema \<Rightarrow> properties \<Rightarrow> column_schema \<Rightarrow> unit \<Rightarrow> unit res" where
  "check_not_null s vs c _ =
    (let missing = (case map_of vs (cs_name c) of None \<Rightarrow> True | Some v \<Rightarrow> v = Null)
     in if \<not> cs_nullable c \<and> cs_name c \<noteq> td_primary_key s \<and> missing
        then Err (ConstraintViolation (td_name s) ''column is NOT NULL'') else Ok ())"

definition validate_row :: "table_schema \<Rightarrow> prop_value \<Rightarrow> properties \<Rightarrow> unit res" where
  "validate_row s pk vs =
    (if pk = Null then Err (SchemaMismatch (td_name s) ''primary key cannot be null'')
     else
       bind_res (check_value s (td_primary_key s) pk) (\<lambda>_.
       bind_res (for_res (\<lambda>(name, v) _. check_value s name v) vs ()) (\<lambda>_.
       for_res (check_not_null s vs) (td_columns s) ())))"

definition check_unique_column :: "rel_codecs \<Rightarrow> ('r, 'z) read_ops_scheme \<Rightarrow> 'r \<Rightarrow> table_schema \<Rightarrow> row \<Rightarrow> row option
    \<Rightarrow> column_schema \<Rightarrow> unit \<Rightarrow> unit res" where
  "check_unique_column C ops r s row changed_from c _ = (case indexable row s (cs_name c) of
      None \<Rightarrow> Ok ()
    | Some v \<Rightarrow>
        if (case changed_from of Some old \<Rightarrow> opt_prop_eq (row_get old s (cs_name c)) (Some v) | None \<Rightarrow> False) then Ok ()
        else
          bind_res (index_lookup_eq_in C ops r s (cs_name c) v) (\<lambda>others.
          if list_ex (\<lambda>other. \<not> prop_eq (row_pk other) (row_pk row)) others
          then Err (ConstraintViolation (td_name s) ''UNIQUE column already has value'')
          else Ok ()))"

definition check_unique :: "rel_codecs \<Rightarrow> ('r, 'z) read_ops_scheme \<Rightarrow> 'r \<Rightarrow> table_schema \<Rightarrow> row \<Rightarrow> row option \<Rightarrow> unit res" where
  "check_unique C ops r s row changed_from =
    for_res (check_unique_column C ops r s row changed_from) (filter cs_unique (td_columns s)) ()"

section \<open>Writes\<close>

datatype on_conflict = OnError | Replace

text \<open>The row as stored: without the primary key, with the defaults of the absent columns.\<close>

definition fill_default :: "table_schema \<Rightarrow> column_schema \<Rightarrow> properties \<Rightarrow> properties" where
  "fill_default s c stored = (case cs_default c of
      Some d \<Rightarrow> if cs_name c \<noteq> td_primary_key s \<and> map_of stored (cs_name c) = None then bt_insert (cs_name c) d stored else stored
    | None \<Rightarrow> stored)"

definition stored_values :: "table_schema \<Rightarrow> properties \<Rightarrow> properties" where
  "stored_values s values = fold (fill_default s) (td_columns s) (bt_remove (td_primary_key s) values)"

definition drop_index_entry :: "('w, 'z) write_ops_scheme \<Rightarrow> table_schema \<Rightarrow> row \<Rightarrow> string \<Rightarrow> 'w \<Rightarrow> 'w res" where
  "drop_index_entry ops s row col w = (case indexable row s col of
      Some v \<Rightarrow> bind_res (index_key v (row_pk row)) (\<lambda>k. s_delete ops w (index_table s col) k)
    | None \<Rightarrow> Ok w)"

definition put_index_entry :: "('w, 'z) write_ops_scheme \<Rightarrow> table_schema \<Rightarrow> row \<Rightarrow> string \<Rightarrow> 'w \<Rightarrow> 'w res" where
  "put_index_entry ops s row col w = (case indexable row s col of
      Some v \<Rightarrow> bind_res (index_key v (row_pk row)) (\<lambda>k. s_put ops w (index_table s col) k [])
    | None \<Rightarrow> Ok w)"

definition write_row_in :: "rel_codecs \<Rightarrow> 'w search_hooks \<Rightarrow> ('w, 'z) write_ops_scheme \<Rightarrow> 'w \<Rightarrow> table_schema \<Rightarrow> prop_value \<Rightarrow> properties
    \<Rightarrow> on_conflict \<Rightarrow> 'w res" where
  "write_row_in C H ops w s pk values conflict =
    (let stored = stored_values s values in
     bind_res (validate_row s pk stored) (\<lambda>_.
     bind_res (sortable_encode pk) (\<lambda>row_key.
     bind_res (s_get ops w (base_table s) row_key) (\<lambda>x.
     bind_res (case x of
         Some bs \<Rightarrow>
           if conflict = OnError then Err (DuplicateKey (td_name s) [])
           else bind_res (decode_row C bs) (\<lambda>vs. Ok (Some \<lparr>row_pk = pk, row_values = vs\<rparr>))
       | None \<Rightarrow> Ok None) (\<lambda>old.
     let row = \<lparr>row_pk = pk, row_values = stored\<rparr> in
     bind_res (check_unique C ops w s row None) (\<lambda>_.
     bind_res (case old of
         Some old \<Rightarrow> for_res (drop_index_entry ops s old) (td_indexed_columns s) w
       | None \<Rightarrow> Ok w) (\<lambda>w.
     bind_res (encode_row C stored) (\<lambda>bs.
     bind_res (s_put ops w (base_table s) row_key bs) (\<lambda>w.
     bind_res (for_res (put_index_entry ops s row) (td_indexed_columns s) w) (\<lambda>w.
     on_row_change H w s pk (map_option row_values old) (Some stored)))))))))))"

definition explicit_pk :: "table_schema \<Rightarrow> properties \<Rightarrow> prop_value option" where
  "explicit_pk s values = (case map_of values (td_primary_key s) of
      Some v \<Rightarrow> if v = Null then None else Some v | None \<Rightarrow> None)"

definition allocates_pk :: "table_schema \<Rightarrow> properties \<Rightarrow> bool" where
  "allocates_pk s values \<longleftrightarrow> td_auto_increment_pk s \<and> explicit_pk s values = None"

text \<open>\<open>bump\<close> is the branch both insertion loops share.\<close>

definition bump_for :: "('w, 'z) write_ops_scheme \<Rightarrow> 'w \<Rightarrow> table_schema \<Rightarrow> prop_value \<Rightarrow> 'w res" where
  "bump_for ops w s pk = (case pk of
      IntV i \<Rightarrow> if td_auto_increment_pk s then bump_pk_counter_past ops w s i else Ok w
    | _ \<Rightarrow> Ok w)"

definition insert_one :: "rel_codecs \<Rightarrow> 'w search_hooks \<Rightarrow> ('w, 'z) write_ops_scheme \<Rightarrow> table_schema \<Rightarrow> on_conflict
    \<Rightarrow> properties \<Rightarrow> i64 \<times> prop_value list \<times> 'w \<Rightarrow> (i64 \<times> prop_value list \<times> 'w) res" where
  "insert_one C H ops s conflict values st = (case st of (next, pks, w) \<Rightarrow>
    bind_res
      (if allocates_pk s values then Ok (next + 1, IntV next, w)
       else
         bind_res (ok_or (explicit_pk s values) (Encoding ''missing primary key column'')) (\<lambda>pk.
         bind_res (bump_for ops w s pk) (\<lambda>w. Ok (next, pk, w)))) (\<lambda>(next, pk, w).
    bind_res (write_row_in C H ops w s pk values conflict) (\<lambda>w.
    Ok (next, pks @ [pk], w))))"

definition insert_bulk_in :: "rel_codecs \<Rightarrow> 'w search_hooks \<Rightarrow> ('w, 'z) write_ops_scheme \<Rightarrow> 'w \<Rightarrow> table_schema \<Rightarrow> properties list \<Rightarrow> on_conflict
    \<Rightarrow> (prop_value list \<times> 'w) res" where
  "insert_bulk_in C H ops w s items conflict =
    (let to_allocate = length (filter (allocates_pk s) items) in
     bind_res (if 0 < to_allocate then reserve_pks ops w s (word_of_nat to_allocate) else Ok (0, w)) (\<lambda>(next, w).
     bind_res (for_res (insert_one C H ops s conflict) items (next, [], w)) (\<lambda>(_, pks, w).
     Ok (pks, w))))"

definition insert_in :: "rel_codecs \<Rightarrow> 'w search_hooks \<Rightarrow> ('w, 'z) write_ops_scheme \<Rightarrow> 'w \<Rightarrow> table_schema \<Rightarrow> properties \<Rightarrow> on_conflict
    \<Rightarrow> (prop_value \<times> 'w) res" where
  "insert_in C H ops w s values conflict =
    bind_res (insert_bulk_in C H ops w s [values] conflict) (\<lambda>(pks, w).
    case pks of [] \<Rightarrow> Panic | pk # _ \<Rightarrow> Ok (pk, w))"

definition insert_with_pk_bulk_in :: "rel_codecs \<Rightarrow> 'w search_hooks \<Rightarrow> ('w, 'z) write_ops_scheme \<Rightarrow> 'w \<Rightarrow> table_schema
    \<Rightarrow> (prop_value \<times> properties) list \<Rightarrow> on_conflict \<Rightarrow> 'w res" where
  "insert_with_pk_bulk_in C H ops w s rows conflict =
    (if td_auto_increment_pk s \<and> conflict = OnError
     then Err (Encoding ''insert_with_pk cannot be used on an auto-increment schema (use insert, or upsert_with_pk)'')
     else for_res (\<lambda>(pk, values) w.
       bind_res (bump_for ops w s pk) (\<lambda>w. write_row_in C H ops w s pk values conflict)) rows w)"

definition delete_row_in :: "rel_codecs \<Rightarrow> 'w search_hooks \<Rightarrow> ('w, 'z) write_ops_scheme \<Rightarrow> 'w \<Rightarrow> table_schema \<Rightarrow> prop_value \<Rightarrow> (bool \<times> 'w) res" where
  "delete_row_in C H ops w s pk =
    bind_res (get_in C ops w s pk) (\<lambda>x. case x of
        None \<Rightarrow> Ok (False, w)
      | Some row \<Rightarrow>
          bind_res (sortable_encode pk) (\<lambda>key.
          bind_res (s_delete ops w (base_table s) key) (\<lambda>w.
          bind_res (for_res (drop_index_entry ops s row) (td_indexed_columns s) w) (\<lambda>w.
          bind_res (on_row_change H w s pk (Some (row_values row)) None) (\<lambda>w.
          Ok (True, w))))))"

text \<open>One indexed column of an update: move its entry when the value changed.\<close>

definition move_index_entry :: "('w, 'z) write_ops_scheme \<Rightarrow> table_schema \<Rightarrow> prop_value \<Rightarrow> row \<Rightarrow> row \<Rightarrow> string \<Rightarrow> 'w \<Rightarrow> 'w res" where
  "move_index_entry ops s pk old_row new_row col w =
    (let old = indexable old_row s col; new = indexable new_row s col in
     if opt_prop_eq old new then Ok w
     else
       bind_res (case old of
           Some v \<Rightarrow> bind_res (index_key v pk) (\<lambda>k. s_delete ops w (index_table s col) k)
         | None \<Rightarrow> Ok w) (\<lambda>w.
       case new of
           Some v \<Rightarrow> bind_res (index_key v pk) (\<lambda>k. s_put ops w (index_table s col) k [])
         | None \<Rightarrow> Ok w))"

definition update_row_in :: "rel_codecs \<Rightarrow> 'w search_hooks \<Rightarrow> ('w, 'z) write_ops_scheme \<Rightarrow> 'w \<Rightarrow> table_schema \<Rightarrow> prop_value
    \<Rightarrow> (properties \<Rightarrow> properties) \<Rightarrow> (bool \<times> 'w) res" where
  "update_row_in C H ops w s pk mutate =
    bind_res (get_in C ops w s pk) (\<lambda>x. case x of
        None \<Rightarrow> Ok (False, w)
      | Some old_row \<Rightarrow>
          let new_values = bt_remove (td_primary_key s) (mutate (row_values old_row)) in
          bind_res (validate_row s pk new_values) (\<lambda>_.
          let new_row = \<lparr>row_pk = pk, row_values = new_values\<rparr> in
          bind_res (check_unique C ops w s new_row (Some old_row)) (\<lambda>_.
          bind_res (for_res (move_index_entry ops s pk old_row new_row) (td_indexed_columns s) w) (\<lambda>w.
          bind_res (sortable_encode pk) (\<lambda>key.
          bind_res (encode_row C new_values) (\<lambda>bs.
          bind_res (s_put ops w (base_table s) key bs) (\<lambda>w.
          bind_res (on_row_change H w s pk (Some (row_values old_row)) (Some new_values)) (\<lambda>w.
          Ok (True, w)))))))))"

end
