(* ===== verification/Rel_Expr.thy ===== *)
theory Rel_Expr
  imports Rel_Rows
begin

text \<open>
  Filter expressions and aggregates (\<open>bkndb-core/src/relational/expr.rs\<close>). \<open>eval\<close> decides a filter on a row; a column
  reference may be a dotted path into a list or map column. The accumulators of the aggregate functions keep a
  128-bit sum, which no 64-bit number of rows can overflow, as an integer.
\<close>

section \<open>Expressions\<close>

datatype cmp_op = OpEq | OpNe | OpLt | OpLe | OpGt | OpGe

definition op_holds :: "cmp_op \<Rightarrow> ordering \<Rightarrow> bool" where
  "op_holds op ord = (case op of
      OpEq \<Rightarrow> ord = Equal | OpNe \<Rightarrow> ord \<noteq> Equal | OpLt \<Rightarrow> ord = Less
    | OpLe \<Rightarrow> ord \<noteq> Greater | OpGt \<Rightarrow> ord = Greater | OpGe \<Rightarrow> ord \<noteq> Less)"

datatype expr =
    ECmp string cmp_op prop_value
  | EIn string "prop_value list"
  | EIsNull string
  | EIsNotNull string
  | EPrefix string string
  | EContains string prop_value
  | ELike string string bool
  | EAnd "expr list"
  | EOr "expr list"
  | ENot expr

definition col_between :: "string \<Rightarrow> prop_value \<Rightarrow> prop_value \<Rightarrow> expr" where
  "col_between c lo hi = EAnd [ECmp c OpGe lo, ECmp c OpLe hi]"

definition expr_and :: "expr \<Rightarrow> expr \<Rightarrow> expr" where
  "expr_and a b = (case a of EAnd v \<Rightarrow> EAnd (v @ [b]) | e \<Rightarrow> EAnd [e, b])"

definition expr_or :: "expr \<Rightarrow> expr \<Rightarrow> expr" where
  "expr_or a b = (case a of EOr v \<Rightarrow> EOr (v @ [b]) | e \<Rightarrow> EOr [e, b])"

definition expr_not :: "expr \<Rightarrow> expr" where
  "expr_not e = ENot e"

text \<open>\<open>str::split_once\<close> and \<open>str::split\<close> at a character.\<close>

definition split_once :: "char \<Rightarrow> string \<Rightarrow> (string \<times> string) option" where
  "split_once c s = (if c \<in> set s then Some (takeWhile (\<lambda>x. x \<noteq> c) s, tl (dropWhile (\<lambda>x. x \<noteq> c) s)) else None)"

fun split_at :: "char \<Rightarrow> string \<Rightarrow> string list" where
  "split_at c [] = [[]]"
| "split_at c (x # s) = (if x = c then [] # split_at c s else (case split_at c s of [] \<Rightarrow> [[x]] | p # ps \<Rightarrow> (x # p) # ps))"

definition resolve :: "table_schema \<Rightarrow> row \<Rightarrow> string \<Rightarrow> prop_value option" where
  "resolve s row name =
    (if ts_column s name \<noteq> None then row_get row s name
     else (case split_once CHR ''.'' name of
         None \<Rightarrow> None
       | Some (head, rest) \<Rightarrow>
           (case row_get row s head of None \<Rightarrow> None | Some v \<Rightarrow> get_path v (split_at CHR ''.'' rest))))"

definition root_column :: "table_schema \<Rightarrow> string \<Rightarrow> string option" where
  "root_column s name =
    (if ts_column s name \<noteq> None then Some name
     else (case split_once CHR ''.'' name of
         None \<Rightarrow> None
       | Some (head, _) \<Rightarrow> if ts_column s head \<noteq> None then Some head else None))"

definition non_null :: "prop_value option \<Rightarrow> prop_value option" where
  "non_null x = (case x of Some v \<Rightarrow> if v = Null then None else Some v | None \<Rightarrow> None)"

text \<open>\<open>lower\<close> is the lower-casing of characters, used by case-insensitive \<open>LIKE\<close> only.\<close>

fun eval :: "(nat \<Rightarrow> nat list) \<Rightarrow> table_schema \<Rightarrow> row \<Rightarrow> expr \<Rightarrow> bool" where
  "eval lower s row (ECmp c op rhs) =
    (let value = non_null (resolve s row c) in
     if rhs = Null then (case op of OpEq \<Rightarrow> value = None | OpNe \<Rightarrow> value \<noteq> None | _ \<Rightarrow> False)
     else (case value of None \<Rightarrow> False
       | Some v \<Rightarrow> (case compare_values v rhs of None \<Rightarrow> False | Some ord \<Rightarrow> op_holds op ord)))"
| "eval lower s row (EIn c vs) = (case non_null (resolve s row c) of
      None \<Rightarrow> False
    | Some v \<Rightarrow> list_ex (\<lambda>x. compare_values v x = Some Equal) vs)"
| "eval lower s row (EIsNull c) = (non_null (resolve s row c) = None)"
| "eval lower s row (EIsNotNull c) = (non_null (resolve s row c) \<noteq> None)"
| "eval lower s row (EPrefix c p) = (case non_null (resolve s row c) of Some (Str t) \<Rightarrow> prefix p t | _ \<Rightarrow> False)"
| "eval lower s row (EContains c needle) = (case (non_null (resolve s row c), needle) of
      (Some (List items), n) \<Rightarrow> list_ex (\<lambda>x. compare_values x n = Some Equal) items
    | (Some (Str t), Str n) \<Rightarrow> str_contains t n
    | (Some (Map m), Str k) \<Rightarrow> map_of m k \<noteq> None
    | _ \<Rightarrow> False)"
| "eval lower s row (ELike c pattern ci) = (case non_null (resolve s row c) of
      Some (Str t) \<Rightarrow> like_matches lower t pattern ci | _ \<Rightarrow> False)"
| "eval lower s row (EAnd v) = (\<forall>e\<in>set v. eval lower s row e)"
| "eval lower s row (EOr v) = (\<exists>e\<in>set v. eval lower s row e)"
| "eval lower s row (ENot e) = (\<not> eval lower s row e)"

fun expr_columns :: "expr \<Rightarrow> string list" where
  "expr_columns (ECmp c _ _) = [c]"
| "expr_columns (EIn c _) = [c]"
| "expr_columns (EIsNull c) = [c]"
| "expr_columns (EIsNotNull c) = [c]"
| "expr_columns (EPrefix c _) = [c]"
| "expr_columns (EContains c _) = [c]"
| "expr_columns (ELike c _ _) = [c]"
| "expr_columns (EAnd v) = concat (map expr_columns v)"
| "expr_columns (EOr v) = concat (map expr_columns v)"
| "expr_columns (ENot e) = expr_columns e"

datatype order = Asc | Desc

section \<open>Aggregates\<close>

datatype agg = AggCount | AggCountColumn string | AggSum string | AggMin string | AggMax string | AggAvg string

definition agg_column :: "agg \<Rightarrow> string option" where
  "agg_column a = (case a of AggCount \<Rightarrow> None | AggCountColumn c \<Rightarrow> Some c | AggSum c \<Rightarrow> Some c | AggMin c \<Rightarrow> Some c
    | AggMax c \<Rightarrow> Some c | AggAvg c \<Rightarrow> Some c)"

definition agg_check :: "agg \<Rightarrow> table_schema \<Rightarrow> unit res" where
  "agg_check a s =
    (let numeric = (\<lambda>c. case ts_column s c of Some col \<Rightarrow> cs_kind col = KInt \<or> cs_kind col = KFloat | None \<Rightarrow> False);
         check = (\<lambda>c. if numeric c then Ok () else Err (SchemaMismatch (td_name s) ''SUM/AVG need a numeric column''))
     in case a of AggSum c \<Rightarrow> check c | AggAvg c \<Rightarrow> check c | _ \<Rightarrow> Ok ())"

record aggregate_row =
  ar_group :: "prop_value list"
  ar_values :: "prop_value list"

datatype acc =
    AccCount u64
  | AccSum int f64 bool bool
  | AccMin "prop_value option"
  | AccMax "prop_value option"
  | AccAvg f64 u64

definition acc_new :: "agg \<Rightarrow> acc" where
  "acc_new a = (case a of
      AggCount \<Rightarrow> AccCount 0 | AggCountColumn _ \<Rightarrow> AccCount 0 | AggSum _ \<Rightarrow> AccSum 0 0 False False
    | AggMin _ \<Rightarrow> AccMin None | AggMax _ \<Rightarrow> AccMax None | AggAvg _ \<Rightarrow> AccAvg 0 0)"

text \<open>The shared branch of \<open>Min\<close> and \<open>Max\<close>: keep the value that compares as \<open>want\<close>.\<close>

definition keep_best :: "ordering \<Rightarrow> prop_value option \<Rightarrow> prop_value option \<Rightarrow> prop_value option" where
  "keep_best want v cur = (case v of
      None \<Rightarrow> cur
    | Some x \<Rightarrow> (case cur of None \<Rightarrow> Some x | Some c \<Rightarrow> if total_cmp (Some x) (Some c) = want then Some x else cur))"

definition acc_add :: "agg \<Rightarrow> table_schema \<Rightarrow> row \<Rightarrow> acc \<Rightarrow> acc" where
  "acc_add a s row acc =
    (let v = non_null (Option.bind (agg_column a) (row_get row s));
         want = (case a of AggMin _ \<Rightarrow> Less | _ \<Rightarrow> Greater)
     in case acc of
         AccCount n \<Rightarrow> if agg_column a = None \<or> v \<noteq> None then AccCount (n + 1) else AccCount n
       | AccSum i f any_float seen \<Rightarrow> (case v of
             Some (IntV x) \<Rightarrow> AccSum (i + sint x) f any_float True
           | Some (Float x) \<Rightarrow> AccSum i (f64_add f x) True True
           | _ \<Rightarrow> AccSum i f any_float seen)
       | AccMin cur \<Rightarrow> AccMin (keep_best want v cur)
       | AccMax cur \<Rightarrow> AccMax (keep_best want v cur)
       | AccAvg tot n \<Rightarrow> (case v of
             Some (IntV x) \<Rightarrow> AccAvg (f64_add tot (f64_of_i64 x)) (n + 1)
           | Some (Float x) \<Rightarrow> AccAvg (f64_add tot x) (n + 1)
           | _ \<Rightarrow> AccAvg tot n))"

definition acc_finish :: "string \<Rightarrow> acc \<Rightarrow> prop_value res" where
  "acc_finish table acc = (case acc of
      AccCount n \<Rightarrow> Ok (IntV n)
    | AccSum i f any_float seen \<Rightarrow>
        if \<not> seen then Ok Null
        else if any_float then Ok (Float (f64_add (f64_of_int i) f))
        else if - (2 ^ 63) \<le> i \<and> i < 2 ^ 63 then Ok (IntV (word_of_int i))
        else Err (ConstraintViolation table ''SUM overflows a 64-bit integer'')
    | AccMin v \<Rightarrow> Ok (case v of Some x \<Rightarrow> x | None \<Rightarrow> Null)
    | AccMax v \<Rightarrow> Ok (case v of Some x \<Rightarrow> x | None \<Rightarrow> Null)
    | AccAvg tot n \<Rightarrow> if n = 0 then Ok Null else Ok (Float (f64_div tot (f64_of_u64 n))))"

end
