(* ===== verification/Rel_Query.thy ===== *)
theory Rel_Query
  imports Rel_Expr
begin

text \<open>
  Queries (\<open>bkndb-core/src/relational/query/mod.rs\<close>, \<open>plan.rs\<close>, \<open>exec.rs\<close>): the planner chooses how candidate rows are
  fetched, the executor filters, sorts, pages and projects them. An iterator of rows is the list of results it
  yields, so that a consumer that stops early does not see later errors. \<open>sort_by\<close> is a stable sort; where the
  comparison is not a total preorder the standard library leaves the order open.
\<close>

section \<open>Query descriptions\<close>

record query =
  q_filters :: "expr list"
  q_order :: "(string \<times> order) list"
  q_offset :: nat
  q_limit :: "nat option"
  q_columns :: "string list option"

definition q_new :: query where
  "q_new = \<lparr>q_filters = [], q_order = [], q_offset = 0, q_limit = None, q_columns = None\<rparr>"

definition q_filter :: "query \<Rightarrow> expr \<Rightarrow> query" where
  "q_filter q e = q\<lparr>q_filters := q_filters q @ [e]\<rparr>"

definition where_eq :: "query \<Rightarrow> string \<Rightarrow> prop_value \<Rightarrow> query" where
  "where_eq q column v = q_filter q (ECmp column OpEq v)"

definition where_prefix :: "query \<Rightarrow> string \<Rightarrow> string \<Rightarrow> query" where
  "where_prefix q column p = q_filter q (EPrefix column p)"

definition where_range :: "query \<Rightarrow> string \<Rightarrow> prop_value bound \<Rightarrow> prop_value bound \<Rightarrow> query" where
  "where_range q column start stop =
    (let q = (case start of
         Included v \<Rightarrow> q_filter q (ECmp column OpGe v) | Excluded v \<Rightarrow> q_filter q (ECmp column OpGt v) | Unbounded \<Rightarrow> q)
     in case stop of
         Included v \<Rightarrow> q_filter q (ECmp column OpLe v) | Excluded v \<Rightarrow> q_filter q (ECmp column OpLt v) | Unbounded \<Rightarrow> q)"

definition order_by :: "query \<Rightarrow> string \<Rightarrow> order \<Rightarrow> query" where
  "order_by q column d = q\<lparr>q_order := q_order q @ [(column, d)]\<rparr>"

definition q_set_offset :: "query \<Rightarrow> nat \<Rightarrow> query" where "q_set_offset q n = q\<lparr>q_offset := n\<rparr>"
definition q_set_limit :: "query \<Rightarrow> nat \<Rightarrow> query" where "q_set_limit q n = q\<lparr>q_limit := Some n\<rparr>"
definition q_set_columns :: "query \<Rightarrow> string list \<Rightarrow> query" where "q_set_columns q cols = q\<lparr>q_columns := Some cols\<rparr>"

definition check_columns :: "query \<Rightarrow> table_schema \<Rightarrow> string list \<Rightarrow> unit res" where
  "check_columns q s extra =
    (let paths = concat (map expr_columns (q_filters q)) @ map fst (q_order q);
         names = (case q_columns q of Some cols \<Rightarrow> cols | None \<Rightarrow> []) @ extra;
         unknown = (case find (\<lambda>p. root_column s p = None) paths of
             Some p \<Rightarrow> Some p | None \<Rightarrow> find (\<lambda>n. ts_column s n = None) names)
     in case unknown of Some _ \<Rightarrow> Err (SchemaMismatch (td_name s) ''unknown column'') | None \<Rightarrow> Ok ())"

definition matches :: "(nat \<Rightarrow> nat list) \<Rightarrow> query \<Rightarrow> table_schema \<Rightarrow> row \<Rightarrow> bool" where
  "matches lower q s row = list_all (eval lower s row) (q_filters q)"

section \<open>Planning\<close>

datatype access =
    PkGet "prop_value list"
  | IndexEq string "prop_value list"
  | PkRange "prop_value bound" "prop_value bound"
  | IndexPrefix string string
  | IndexRange string "prop_value bound" "prop_value bound"
  | Scan

fun conj_of :: "expr \<Rightarrow> expr list" where
  "conj_of (EAnd v) = concat (map conj_of v)"
| "conj_of e = [e]"

definition conjuncts :: "expr list \<Rightarrow> expr list" where
  "conjuncts filters = concat (map conj_of filters)"

definition usable_key :: "column_kind \<Rightarrow> prop_value \<Rightarrow> bool" where
  "usable_key kind v \<longleftrightarrow> kind_of v = kind \<and> (\<exists>k. sortable_encode v = Ok k)"

lemma usable_key_code [code]: "usable_key kind v \<longleftrightarrow> kind_of v = kind \<and> sortable_key v \<noteq> None"
  by (auto simp: usable_key_def sortable_encode_def split: option.splits)

fun dedup_from :: "bytes list \<Rightarrow> prop_value list \<Rightarrow> prop_value list" where
  "dedup_from seen [] = []"
| "dedup_from seen (v # vs) = (case sortable_encode v of
      Ok k \<Rightarrow> if k \<in> set seen then dedup_from seen vs else v # dedup_from (k # seen) vs
    | _ \<Rightarrow> dedup_from seen vs)"

definition dedup_values :: "prop_value list \<Rightarrow> prop_value list" where
  "dedup_values vs = dedup_from [] vs"

definition bound_value :: "prop_value bound \<Rightarrow> prop_value option" where
  "bound_value b = (case b of Included v \<Rightarrow> Some v | Excluded v \<Rightarrow> Some v | Unbounded \<Rightarrow> None)"

definition tighter :: "prop_value bound \<Rightarrow> prop_value bound \<Rightarrow> bool \<Rightarrow> prop_value bound" where
  "tighter current new lower = (case (bound_value current, bound_value new) of
      (None, _) \<Rightarrow> new
    | (_, None) \<Rightarrow> current
    | (Some cur_v, Some new_v) \<Rightarrow> (case compare_values new_v cur_v of
          Some Equal \<Rightarrow> (case new of Excluded _ \<Rightarrow> new | _ \<Rightarrow> current)
        | Some ord \<Rightarrow> if (ord = Greater) = lower then new else current
        | None \<Rightarrow> current))"

definition range_step :: "string \<Rightarrow> column_kind \<Rightarrow> expr \<Rightarrow> prop_value bound \<times> prop_value bound \<Rightarrow> prop_value bound \<times> prop_value bound" where
  "range_step column kind e b = (case b of (lo, hi) \<Rightarrow> (case e of
      ECmp c op v \<Rightarrow>
        if c \<noteq> column \<or> \<not> usable_key kind v then (lo, hi)
        else (case op of
            OpGt \<Rightarrow> (tighter lo (Excluded v) True, hi)
          | OpGe \<Rightarrow> (tighter lo (Included v) True, hi)
          | OpLt \<Rightarrow> (lo, tighter hi (Excluded v) False)
          | OpLe \<Rightarrow> (lo, tighter hi (Included v) False)
          | _ \<Rightarrow> (lo, hi))
    | _ \<Rightarrow> (lo, hi)))"

definition range_bounds :: "expr list \<Rightarrow> string \<Rightarrow> column_kind \<Rightarrow> (prop_value bound \<times> prop_value bound) option" where
  "range_bounds conds column kind =
    (let b = fold (range_step column kind) conds (Unbounded, Unbounded)
     in if b = (Unbounded, Unbounded) then None else Some b)"

definition column_kind_of :: "table_schema \<Rightarrow> string \<Rightarrow> column_kind option" where
  "column_kind_of s c = map_option cs_kind (ts_column s c)"

definition pk_access :: "table_schema \<Rightarrow> column_kind \<Rightarrow> expr \<Rightarrow> access option" where
  "pk_access s pk_kind e = (case e of
      ECmp c OpEq v \<Rightarrow> if c = td_primary_key s \<and> usable_key pk_kind v then Some (PkGet [v]) else None
    | EIn c vs \<Rightarrow> if c = td_primary_key s \<and> list_all (usable_key pk_kind) vs then Some (PkGet (dedup_values vs)) else None
    | _ \<Rightarrow> None)"

definition index_eq_access :: "table_schema \<Rightarrow> expr \<Rightarrow> access option" where
  "index_eq_access s e = (case e of
      ECmp c OpEq v \<Rightarrow>
        if is_indexed s c \<and> (case column_kind_of s c of Some k \<Rightarrow> usable_key k v | None \<Rightarrow> False) then Some (IndexEq c [v]) else None
    | EIn c vs \<Rightarrow>
        if is_indexed s c \<and> (case column_kind_of s c of Some k \<Rightarrow> list_all (usable_key k) vs | None \<Rightarrow> False)
        then Some (IndexEq c (dedup_values vs)) else None
    | _ \<Rightarrow> None)"

definition index_prefix_access :: "table_schema \<Rightarrow> expr \<Rightarrow> access option" where
  "index_prefix_access s e = (case e of
      EPrefix c p \<Rightarrow>
        if is_indexed s c \<and> column_kind_of s c = Some KStr \<and> 0 \<notin> set (as_bytes p) then Some (IndexPrefix c p) else None
    | _ \<Rightarrow> None)"

definition index_range_access :: "table_schema \<Rightarrow> expr list \<Rightarrow> string \<Rightarrow> access option" where
  "index_range_access s conds c = (case Option.bind (column_kind_of s c) (range_bounds conds c) of
      Some (lo, hi) \<Rightarrow> Some (IndexRange c lo hi) | None \<Rightarrow> None)"

text \<open>The first \<open>Some\<close> of a function along a list: a loop that returns from inside.\<close>

fun first_some :: "('a \<Rightarrow> 'b option) \<Rightarrow> 'a list \<Rightarrow> 'b option" where
  "first_some f [] = None"
| "first_some f (x # xs) = (case f x of Some y \<Rightarrow> Some y | None \<Rightarrow> first_some f xs)"

definition plan :: "table_schema \<Rightarrow> expr list \<Rightarrow> access res" where
  "plan s filters =
    (let conds = conjuncts filters in
     bind_res (primary_key_column s) (\<lambda>pkc.
     let pk_kind = cs_kind pkc in
     Ok (case first_some (pk_access s pk_kind) conds of Some a \<Rightarrow> a | None \<Rightarrow>
       (case first_some (index_eq_access s) conds of Some a \<Rightarrow> a | None \<Rightarrow>
       (case range_bounds conds (td_primary_key s) pk_kind of Some (lo, hi) \<Rightarrow> PkRange lo hi | None \<Rightarrow>
       (case first_some (index_prefix_access s) conds of Some a \<Rightarrow> a | None \<Rightarrow>
       (case first_some (index_range_access s conds) (td_indexed_columns s) of Some a \<Rightarrow> a | None \<Rightarrow> Scan)))))))"

section \<open>Candidate rows\<close>

type_synonym row_iter = "row res list"

definition decode_base_rows :: "rel_codecs \<Rightarrow> table_schema \<Rightarrow> kv_iter \<Rightarrow> row_iter res" where
  "decode_base_rows C s raw =
    bind_res (primary_key_column s) (\<lambda>c. Ok (map (\<lambda>kv. bind_res kv (decode_base_row C (cs_kind c))) raw))"

definition candidates :: "rel_codecs \<Rightarrow> ('r, 'z) read_ops_scheme \<Rightarrow> 'r \<Rightarrow> table_schema \<Rightarrow> access \<Rightarrow> row_iter res" where
  "candidates C ops r s a = (case a of
      PkGet pks \<Rightarrow>
        for_res (\<lambda>pk rows. bind_res (get_in C ops r s pk) (\<lambda>x. Ok (case x of Some row \<Rightarrow> rows @ [Ok row] | None \<Rightarrow> rows))) pks []
    | IndexEq col values \<Rightarrow>
        for_res (\<lambda>v rows. bind_res (index_lookup_eq_in C ops r s col v) (\<lambda>xs. Ok (rows @ map Ok xs))) values []
    | PkRange lo hi \<Rightarrow>
        bind_res (lower_bound_bytes lo) (\<lambda>lo.
        bind_res (upper_bound_bytes hi) (\<lambda>hi.
        bind_res (s_scan ops r (base_table s) lo hi) (\<lambda>raw.
        decode_base_rows C s raw)))
    | IndexPrefix col p \<Rightarrow> bind_res (index_lookup_prefix_in C ops r s col p) (\<lambda>xs. Ok (map Ok xs))
    | IndexRange col lo hi \<Rightarrow> bind_res (index_lookup_range_in C ops r s col lo hi) (\<lambda>xs. Ok (map Ok xs))
    | Scan \<Rightarrow> bind_res (s_scan ops r (base_table s) Unbounded Unbounded) (\<lambda>raw. decode_base_rows C s raw))"

definition matching_rows :: "(nat \<Rightarrow> nat list) \<Rightarrow> rel_codecs \<Rightarrow> ('r, 'z) read_ops_scheme \<Rightarrow> 'r \<Rightarrow> table_schema \<Rightarrow> query \<Rightarrow> row_iter res" where
  "matching_rows lower C ops r s q =
    bind_res (plan s (q_filters q)) (\<lambda>a.
    bind_res (candidates C ops r s a) (\<lambda>rows.
    Ok (filter (\<lambda>x. case x of Ok row \<Rightarrow> matches lower q s row | _ \<Rightarrow> True) rows)))"

section \<open>Execution\<close>

fun insert_by :: "('a \<Rightarrow> 'a \<Rightarrow> ordering) \<Rightarrow> 'a \<Rightarrow> 'a list \<Rightarrow> 'a list" where
  "insert_by c x [] = [x]"
| "insert_by c x (y # ys) = (if c x y = Greater then y # insert_by c x ys else x # y # ys)"

definition sort_by :: "('a \<Rightarrow> 'a \<Rightarrow> ordering) \<Rightarrow> 'a list \<Rightarrow> 'a list" where
  "sort_by c xs = foldr (insert_by c) xs []"

fun order_cmp :: "table_schema \<Rightarrow> (string \<times> order) list \<Rightarrow> row \<Rightarrow> row \<Rightarrow> ordering" where
  "order_cmp s [] a b = Equal"
| "order_cmp s ((c, d) # rest) a b =
    (let ord = total_cmp (resolve s a c) (resolve s b c); ord = (if d = Desc then reverse_ordering ord else ord)
     in if ord \<noteq> Equal then ord else order_cmp s rest a b)"

text \<open>\<open>usize::saturating_add\<close>.\<close>

definition sat_add :: "nat \<Rightarrow> nat \<Rightarrow> nat" where
  "sat_add a b = min (a + b) (2 ^ 64 - 1)"

fun take_matching :: "nat option \<Rightarrow> (row \<Rightarrow> bool) \<Rightarrow> row_iter \<Rightarrow> row list \<Rightarrow> row list res" where
  "take_matching wanted P [] out = Ok out"
| "take_matching wanted P (x # xs) out =
    (if (case wanted of Some w \<Rightarrow> w \<le> length out | None \<Rightarrow> False) then Ok out
     else bind_res x (\<lambda>row. take_matching wanted P xs (if P row then out @ [row] else out)))"

definition project_row :: "query \<Rightarrow> row \<Rightarrow> row" where
  "project_row q row = (case q_columns q of
      Some cols \<Rightarrow> row\<lparr>row_values := filter (\<lambda>(k, _). k \<in> set cols) (row_values row)\<rparr>
    | None \<Rightarrow> row)"

definition presorted :: "table_schema \<Rightarrow> query \<Rightarrow> access \<Rightarrow> bool" where
  "presorted s q a \<longleftrightarrow> (case a of Scan \<Rightarrow> True | PkRange _ _ \<Rightarrow> True | _ \<Rightarrow> False) \<and> q_order q = [(td_primary_key s, Asc)]"

definition select_in :: "(nat \<Rightarrow> nat list) \<Rightarrow> rel_codecs \<Rightarrow> ('r, 'z) read_ops_scheme \<Rightarrow> 'r \<Rightarrow> table_schema \<Rightarrow> query \<Rightarrow> row list res" where
  "select_in lower C ops r s q =
    bind_res (check_columns q s []) (\<lambda>_.
    bind_res (plan s (q_filters q)) (\<lambda>a.
    bind_res
      (if q_order q = [] \<or> presorted s q a then
         let wanted = map_option (\<lambda>l. sat_add l (q_offset q)) (q_limit q) in
         bind_res (candidates C ops r s a) (\<lambda>rows.
         bind_res (take_matching wanted (matches lower q s) rows []) (\<lambda>out.
         Ok (drop (min (q_offset q) (length out)) out)))
       else
         bind_res (matching_rows lower C ops r s q) (\<lambda>rows.
         bind_res (traverse (\<lambda>x. x) rows) (\<lambda>all_rows.
         let all_rows = sort_by (order_cmp s (q_order q)) all_rows;
             start = min (q_offset q) (length all_rows);
             stop = (case q_limit q of None \<Rightarrow> length all_rows | Some l \<Rightarrow> min (sat_add start l) (length all_rows))
         in Ok (drop start (take stop all_rows))))) (\<lambda>rows.
    Ok (map (project_row q) rows))))"

definition count_in :: "(nat \<Rightarrow> nat list) \<Rightarrow> rel_codecs \<Rightarrow> ('r, 'z) read_ops_scheme \<Rightarrow> 'r \<Rightarrow> table_schema \<Rightarrow> query \<Rightarrow> nat res" where
  "count_in lower C ops r s q =
    bind_res (check_columns q s []) (\<lambda>_.
    bind_res (matching_rows lower C ops r s q) (\<lambda>rows.
    for_res (\<lambda>x n. bind_res x (\<lambda>_. Ok (n + 1))) rows 0))"

type_synonym agg_groups = "(prop_value list \<times> acc list) list \<times> (bytes \<times> nat) list"

text \<open>One row: find or open its group, then feed every accumulator of it.\<close>

definition aggregate_row_step :: "rel_codecs \<Rightarrow> table_schema \<Rightarrow> string list \<Rightarrow> agg list \<Rightarrow> row res \<Rightarrow> agg_groups \<Rightarrow> agg_groups res" where
  "aggregate_row_step C s group_by aggs x st = bind_res x (\<lambda>row. case st of (groups, index) \<Rightarrow>
    bind_res
      (if group_by = [] then Ok (0, groups, index)
       else
         let key = map (\<lambda>c. case resolve s row c of Some v \<Rightarrow> v | None \<Rightarrow> Null) group_by in
         bind_res (encode (group_codec C) key) (\<lambda>encoded.
         Ok (case map_of index encoded of
             Some slot \<Rightarrow> (slot, groups, index)
           | None \<Rightarrow> (length groups, groups @ [(key, map acc_new aggs)], (encoded, length groups) # index)))) (\<lambda>(slot, groups, index).
    if slot < length groups
    then Ok (groups[slot := (fst (groups ! slot), map (\<lambda>(a, g). acc_add g s row a) (zip (snd (groups ! slot)) aggs))], index)
    else Panic))"

fun group_cmp :: "prop_value list \<Rightarrow> prop_value list \<Rightarrow> ordering" where
  "group_cmp (x # xs) (y # ys) = (let ord = total_cmp (Some x) (Some y) in if ord \<noteq> Equal then ord else group_cmp xs ys)"
| "group_cmp _ _ = Equal"

definition aggregate_in :: "(nat \<Rightarrow> nat list) \<Rightarrow> rel_codecs \<Rightarrow> ('r, 'z) read_ops_scheme \<Rightarrow> 'r \<Rightarrow> table_schema \<Rightarrow> query
    \<Rightarrow> string list \<Rightarrow> agg list \<Rightarrow> aggregate_row list res" where
  "aggregate_in lower C ops r s q group_by aggs =
    bind_res (check_columns q s (List.map_filter agg_column aggs)) (\<lambda>_.
    if list_ex (\<lambda>g. root_column s g = None) group_by then Err (SchemaMismatch (td_name s) ''unknown column'')
    else
      bind_res (for_res (\<lambda>a _. agg_check a s) aggs ()) (\<lambda>_.
      let groups = (if group_by = [] then [([], map acc_new aggs)] else []) in
      bind_res (matching_rows lower C ops r s q) (\<lambda>rows.
      bind_res (for_res (aggregate_row_step C s group_by aggs) rows (groups, [])) (\<lambda>(groups, _).
      traverse (\<lambda>(group, accs).
        bind_res (traverse (acc_finish (td_name s)) accs) (\<lambda>vals. Ok \<lparr>ar_group = group, ar_values = vals\<rparr>))
        (sort_by (\<lambda>a b. group_cmp (fst a) (fst b)) groups)))))"

definition apply_sets :: "(string \<times> prop_value) list \<Rightarrow> properties \<Rightarrow> properties" where
  "apply_sets sets values = fold (\<lambda>(c, v) m. bt_insert c v m) sets values"

definition update_in :: "(nat \<Rightarrow> nat list) \<Rightarrow> rel_codecs \<Rightarrow> 'w search_hooks \<Rightarrow> ('w, 'z) write_ops_scheme \<Rightarrow> 'w \<Rightarrow> table_schema \<Rightarrow> query
    \<Rightarrow> (string \<times> prop_value) list \<Rightarrow> (nat \<times> 'w) res" where
  "update_in lower C H ops w s q sets =
    (if list_ex (\<lambda>(c, _). c = td_primary_key s) sets then Err (SchemaMismatch (td_name s) ''cannot set primary key column via update'')
     else
       bind_res (select_in lower C ops w s (q\<lparr>q_columns := None\<rparr>)) (\<lambda>targets.
       for_res (\<lambda>row (n, w).
         bind_res (update_row_in C H ops w s (row_pk row) (apply_sets sets)) (\<lambda>(changed, w).
         Ok (n + (if changed then 1 else 0), w))) targets (0, w)))"

definition delete_in :: "(nat \<Rightarrow> nat list) \<Rightarrow> rel_codecs \<Rightarrow> 'w search_hooks \<Rightarrow> ('w, 'z) write_ops_scheme \<Rightarrow> 'w \<Rightarrow> table_schema \<Rightarrow> query
    \<Rightarrow> (nat \<times> 'w) res" where
  "delete_in lower C H ops w s q =
    bind_res (select_in lower C ops w s (q\<lparr>q_columns := None\<rparr>)) (\<lambda>targets.
    for_res (\<lambda>row (n, w).
      bind_res (delete_row_in C H ops w s (row_pk row)) (\<lambda>(removed, w).
      Ok (n + (if removed then 1 else 0), w))) targets (0, w))"

end
