(* ===== verification/Rel_Catalog.thy ===== *)
theory Rel_Catalog
  imports Rel_Query
begin

text \<open>
  The schema catalog (\<open>bkndb-core/src/relational/catalog.rs\<close>): looking up, listing, creating, migrating and
  dropping registered tables. The names in the texts of the mismatch errors are left out.
\<close>

section \<open>Looking up\<close>

definition load_schema_in :: "rel_codecs \<Rightarrow> ('r, 'z) read_ops_scheme \<Rightarrow> 'r \<Rightarrow> string \<Rightarrow> table_schema option res" where
  "load_schema_in C ops r name =
    bind_res (s_get ops r meta_table (catalog_key name)) (\<lambda>x. case x of
        Some bs \<Rightarrow> bind_res (decode_table_def C bs) (\<lambda>d. Ok (Some d))
      | None \<Rightarrow> Ok None)"

definition require_schema_in :: "rel_codecs \<Rightarrow> ('r, 'z) read_ops_scheme \<Rightarrow> 'r \<Rightarrow> string \<Rightarrow> table_schema res" where
  "require_schema_in C ops r name =
    bind_res (check_table_name name) (\<lambda>_.
    bind_res (load_schema_in C ops r name) (\<lambda>x.
    ok_or x (TableNotFound name)))"

definition list_schemas_in :: "rel_codecs \<Rightarrow> ('r, 'z) read_ops_scheme \<Rightarrow> 'r \<Rightarrow> table_schema list res" where
  "list_schemas_in C ops r =
    bind_res (expect (rel_prefix_upper_bound CATALOG_PREFIX)) (\<lambda>stop.
    bind_res (s_range ops r meta_table (Included CATALOG_PREFIX) (Excluded stop)) (\<lambda>kvs.
    traverse (\<lambda>(_, v). decode_table_def C v) kvs))"

section \<open>Clearing and rebuilding\<close>

definition clear_table :: "('w, 'z) write_ops_scheme \<Rightarrow> table \<Rightarrow> 'w \<Rightarrow> 'w res" where
  "clear_table ops t w =
    bind_res (s_range ops w t Unbounded Unbounded) (\<lambda>kvs.
    for_res (\<lambda>(k, _) w. s_delete ops w t k) kvs w)"

text \<open>One row of a rebuild; \<open>seen\<close> is the set of values of a unique column met so far.\<close>

definition rebuild_row :: "('w, 'z) write_ops_scheme \<Rightarrow> table_schema \<Rightarrow> string \<Rightarrow> bool \<Rightarrow> row \<Rightarrow> bytes set \<times> 'w \<Rightarrow> (bytes set \<times> 'w) res" where
  "rebuild_row ops s col unique row st = (case st of (seen, w) \<Rightarrow>
    case indexable row s col of
      None \<Rightarrow> Ok (seen, w)
    | Some v \<Rightarrow>
        bind_res
          (if unique then
             bind_res (sortable_encode v) (\<lambda>k.
             if k \<in> seen then Err (ConstraintViolation (td_name s) ''cannot make the column UNIQUE: value appears more than once'')
             else Ok (insert k seen))
           else Ok seen) (\<lambda>seen.
        bind_res (index_key v (row_pk row)) (\<lambda>k.
        bind_res (s_put ops w (index_table s col) k []) (\<lambda>w. Ok (seen, w)))))"

definition rebuild_index :: "('w, 'z) write_ops_scheme \<Rightarrow> table_schema \<Rightarrow> row list \<Rightarrow> string \<Rightarrow> 'w \<Rightarrow> 'w res" where
  "rebuild_index ops s rows col w =
    bind_res (clear_table ops (index_table s col) w) (\<lambda>w.
    let unique = (case ts_column s col of Some c \<Rightarrow> cs_unique c | None \<Rightarrow> False) in
    bind_res (for_res (rebuild_row ops s col unique) rows ({}, w)) (\<lambda>(_, w). Ok w))"

section \<open>Registering and migrating\<close>

definition store_def :: "rel_codecs \<Rightarrow> ('w, 'z) write_ops_scheme \<Rightarrow> 'w \<Rightarrow> table_schema \<Rightarrow> 'w res" where
  "store_def C ops w s = bind_res (encode_table_def C s) (\<lambda>bs. s_put ops w meta_table (catalog_key (td_name s)) bs)"

definition mismatch :: "table_schema \<Rightarrow> string \<Rightarrow> bkn_error" where
  "mismatch s message = SchemaMismatch (td_name s) message"

definition adopt_in :: "rel_codecs \<Rightarrow> ('w, 'z) write_ops_scheme \<Rightarrow> 'w \<Rightarrow> table_schema \<Rightarrow> 'w res" where
  "adopt_in C ops w s =
    bind_res (scan_all_in C ops w s) (\<lambda>rows.
    bind_res (if rows \<noteq> [] then for_res (rebuild_index ops s rows) (td_indexed_columns s) w else Ok w) (\<lambda>w.
    store_def C ops w s))"

text \<open>A row's values under the new definition: dropped columns removed, defaults of added columns filled in.\<close>

definition add_default :: "table_schema \<Rightarrow> column_schema \<Rightarrow> properties \<Rightarrow> properties" where
  "add_default old c vs = (case cs_default c of
      Some d \<Rightarrow> if ts_column old (cs_name c) = None \<and> map_of vs (cs_name c) = None then bt_insert (cs_name c) d vs else vs
    | None \<Rightarrow> vs)"

definition migrate_values :: "table_schema \<Rightarrow> table_schema \<Rightarrow> properties \<Rightarrow> properties" where
  "migrate_values old new vs =
    fold (add_default old) (td_columns new) (filter (\<lambda>(k, _). ts_column new k \<noteq> None) vs)"

definition migrate_row :: "rel_codecs \<Rightarrow> ('w, 'z) write_ops_scheme \<Rightarrow> table_schema \<Rightarrow> table_schema \<Rightarrow> row \<Rightarrow> row list \<times> 'w \<Rightarrow> (row list \<times> 'w) res" where
  "migrate_row C ops old new row st = (case st of (rows, w) \<Rightarrow>
    let before = row_values row; vs = migrate_values old new before in
    bind_res (validate_row new (row_pk row) vs) (\<lambda>_.
    bind_res
      (if \<not> entries_eq vs before then
         bind_res (sortable_encode (row_pk row)) (\<lambda>k.
         bind_res (encode_row C vs) (\<lambda>bs.
         s_put ops w (base_table new) k bs))
       else Ok w) (\<lambda>w.
    Ok (rows @ [\<lparr>row_pk = row_pk row, row_values = vs\<rparr>], w))))"

definition column_unique :: "table_schema \<Rightarrow> string \<Rightarrow> bool" where
  "column_unique s col = (case ts_column s col of Some c \<Rightarrow> cs_unique c | None \<Rightarrow> False)"

definition drop_old_index :: "('w, 'z) write_ops_scheme \<Rightarrow> table_schema \<Rightarrow> table_schema \<Rightarrow> string \<Rightarrow> 'w \<Rightarrow> 'w res" where
  "drop_old_index ops old new col w =
    (if \<not> is_indexed new col then clear_table ops (index_table old col) w else Ok w)"

definition build_new_index :: "('w, 'z) write_ops_scheme \<Rightarrow> table_schema \<Rightarrow> table_schema \<Rightarrow> row list \<Rightarrow> string \<Rightarrow> 'w \<Rightarrow> 'w res" where
  "build_new_index ops old new rows col w =
    (let newly_unique = column_unique new col \<and> \<not> column_unique old col in
     if \<not> is_indexed old col \<or> newly_unique then rebuild_index ops new rows col w else Ok w)"

definition check_kind :: "table_schema \<Rightarrow> table_schema \<Rightarrow> column_schema \<Rightarrow> unit \<Rightarrow> unit res" where
  "check_kind old new c _ = (case ts_column old (cs_name c) of
      Some x \<Rightarrow> if cs_kind x \<noteq> cs_kind c then Err (mismatch new ''column cannot change kind'') else Ok ()
    | None \<Rightarrow> Ok ())"

definition migrate_in :: "rel_codecs \<Rightarrow> ('w, 'z) write_ops_scheme \<Rightarrow> 'w \<Rightarrow> table_schema \<Rightarrow> table_schema \<Rightarrow> 'w res" where
  "migrate_in C ops w old new =
    bind_res
      (if td_primary_key old \<noteq> td_primary_key new then Ok True
       else
         bind_res (primary_key_column old) (\<lambda>a.
         bind_res (primary_key_column new) (\<lambda>b.
         Ok (cs_kind a \<noteq> cs_kind b \<or> td_auto_increment_pk old \<noteq> td_auto_increment_pk new)))) (\<lambda>changed.
    if changed then Err (mismatch new ''the primary key and auto-increment setting cannot be changed'')
    else
      bind_res (for_res (check_kind old new) (td_columns new) ()) (\<lambda>_.
      bind_res (scan_all_in C ops w old) (\<lambda>rows.
      bind_res (for_res (migrate_row C ops old new) rows ([], w)) (\<lambda>(rows, w).
      bind_res (for_res (drop_old_index ops old new) (td_indexed_columns old) w) (\<lambda>w.
      bind_res (for_res (build_new_index ops old new rows) (td_indexed_columns new) w) (\<lambda>w.
      store_def C ops w new))))))"

section \<open>Operations\<close>

definition create_table_in :: "rel_codecs \<Rightarrow> ('w, 'z) write_ops_scheme \<Rightarrow> 'w \<Rightarrow> table_schema \<Rightarrow> (bool \<times> 'w) res" where
  "create_table_in C ops w s =
    bind_res (check_table_name (td_name s)) (\<lambda>_.
    bind_res (load_schema_in C ops w (td_name s)) (\<lambda>x. case x of
        Some existing \<Rightarrow>
          if schema_eq existing s then Ok (False, w)
          else Err (mismatch s ''table already exists with a different definition (use ensure_table to migrate it)'')
      | None \<Rightarrow> bind_res (adopt_in C ops w s) (\<lambda>w. Ok (True, w))))"

definition ensure_table_in :: "rel_codecs \<Rightarrow> 'w search_hooks \<Rightarrow> ('w, 'z) write_ops_scheme \<Rightarrow> 'w \<Rightarrow> table_schema \<Rightarrow> 'w res" where
  "ensure_table_in C H ops w s =
    bind_res (check_table_name (td_name s)) (\<lambda>_.
    bind_res (load_schema_in C ops w (td_name s)) (\<lambda>x. case x of
        None \<Rightarrow> adopt_in C ops w s
      | Some old \<Rightarrow>
          if schema_eq old s then Ok w
          else
            bind_res (migrate_in C ops w old s) (\<lambda>w.
            retain_valid H w (td_name s) (Some s))))"

definition drop_table_in :: "rel_codecs \<Rightarrow> 'w search_hooks \<Rightarrow> ('w, 'z) write_ops_scheme \<Rightarrow> 'w \<Rightarrow> string \<Rightarrow> (bool \<times> 'w) res" where
  "drop_table_in C H ops w name =
    bind_res (check_table_name name) (\<lambda>_.
    bind_res (load_schema_in C ops w name) (\<lambda>x. case x of
        None \<Rightarrow> Ok (False, w)
      | Some s \<Rightarrow>
          bind_res (clear_table ops (base_table s) w) (\<lambda>w.
          bind_res (for_res (\<lambda>col. clear_table ops (index_table s col)) (td_indexed_columns s) w) (\<lambda>w.
          bind_res (s_delete ops w meta_table (row_counter_key name)) (\<lambda>w.
          bind_res (s_delete ops w meta_table (catalog_key name)) (\<lambda>w.
          bind_res (retain_valid H w name None) (\<lambda>w.
          Ok (True, w))))))))"

end
