(* ===== verification/Rel_Db.thy ===== *)
theory Rel_Db
  imports Rel_Catalog
begin

text \<open>
  The relational facade: \<open>RelationalDb\<close> (\<open>relational/db/mod.rs\<close>), table handles (\<open>db/table.rs\<close>), the query builders
  bound to a handle (\<open>query/mod.rs\<close>), and the batch and read views over an open transaction (\<open>txn/mod.rs\<close>,
  \<open>txn/view.rs\<close>). A handle is its \<open>TableRef\<close>: every operation resolves it against the catalog inside its own
  transaction. The methods that run SQL are not here.
\<close>

text \<open>What every operation takes from outside: the serialiser, the search feature and lower-casing.\<close>

record 'w rel_env =
  env_codecs :: rel_codecs
  env_hooks :: "'w search_hooks"
  env_lower :: "nat \<Rightarrow> nat list"

section \<open>Transactions and handles\<close>

definition rel_write :: "('b, 'r, 'w) backend_ops \<Rightarrow> 'b \<Rightarrow> ('w \<Rightarrow> ('a \<times> 'w) res) \<Rightarrow> ('a \<times> 'b) res" where
  "rel_write B b f =
    bind_res (begin_write B b) (\<lambda>wtx.
    bind_res (f wtx) (\<lambda>(r, wtx).
    bind_res (commit B b wtx) (\<lambda>b. Ok (r, b))))"

definition rel_write_tx :: "('b, 'r, 'w) backend_ops \<Rightarrow> 'b \<Rightarrow> ('w \<Rightarrow> ('a \<times> 'w) res) \<Rightarrow> ('a \<times> 'b) res" where
  "rel_write_tx B b f =
    bind_res (begin_write B b) (\<lambda>wtx.
    bind_res (f wtx) (\<lambda>(result, batch).
    bind_res (commit B b batch) (\<lambda>b. Ok (result, b))))"

definition no_result :: "'w res \<Rightarrow> (unit \<times> 'w) res" where
  "no_result r = bind_res r (\<lambda>w. Ok ((), w))"

record table_ref =
  tr_schema :: table_schema
  tr_by_name :: bool

definition tr_resolve :: "rel_codecs \<Rightarrow> ('r, 'z) read_ops_scheme \<Rightarrow> 'r \<Rightarrow> table_ref \<Rightarrow> table_schema res" where
  "tr_resolve C ops r t =
    bind_res (load_schema_in C ops r (td_name (tr_schema t))) (\<lambda>x. case x of
        Some current \<Rightarrow>
          if tr_by_name t \<or> schema_eq current (tr_schema t) then Ok current
          else Err (SchemaMismatch (td_name (tr_schema t))
            ''the table is registered with a different definition; use table_named() or ensure_table() first'')
      | None \<Rightarrow> if tr_by_name t then Err (TableNotFound (td_name (tr_schema t))) else Ok (tr_schema t))"

definition resolve_schema :: "rel_codecs \<Rightarrow> ('r, 'z) read_ops_scheme \<Rightarrow> 'r \<Rightarrow> table_schema \<Rightarrow> table_schema res" where
  "resolve_schema C ops r s = tr_resolve C ops r \<lparr>tr_schema = s, tr_by_name = False\<rparr>"

text \<open>Getting a handle by schema panics on a reserved name.\<close>

definition checked_ref :: "table_ref \<Rightarrow> table_ref res" where
  "checked_ref t = (case check_table_name (td_name (tr_schema t)) of Ok _ \<Rightarrow> Ok t | _ \<Rightarrow> Panic)"

definition rel_table :: "table_schema \<Rightarrow> table_ref res" where
  "rel_table s = checked_ref \<lparr>tr_schema = s, tr_by_name = False\<rparr>"

definition rel_table_named :: "'w rel_env \<Rightarrow> ('b, 'r, 'w) backend_ops \<Rightarrow> 'b \<Rightarrow> string \<Rightarrow> table_ref res" where
  "rel_table_named E B b name =
    bind_res (begin_read B b) (\<lambda>rtx.
    bind_res (require_schema_in (env_codecs E) (read_tx B) rtx name) (\<lambda>s.
    Ok \<lparr>tr_schema = s, tr_by_name = True\<rparr>))"

section \<open>Catalog operations\<close>

definition rel_create_table :: "'w rel_env \<Rightarrow> ('b, 'r, 'w) backend_ops \<Rightarrow> 'b \<Rightarrow> table_schema \<Rightarrow> (bool \<times> 'b) res" where
  "rel_create_table E B b s = rel_write B b (\<lambda>w. create_table_in (env_codecs E) (write_tx B) w s)"

definition rel_ensure_table :: "'w rel_env \<Rightarrow> ('b, 'r, 'w) backend_ops \<Rightarrow> 'b \<Rightarrow> table_schema \<Rightarrow> (unit \<times> 'b) res" where
  "rel_ensure_table E B b s = rel_write B b (\<lambda>w. no_result (ensure_table_in (env_codecs E) (env_hooks E) (write_tx B) w s))"

definition rel_drop_table :: "'w rel_env \<Rightarrow> ('b, 'r, 'w) backend_ops \<Rightarrow> 'b \<Rightarrow> string \<Rightarrow> (bool \<times> 'b) res" where
  "rel_drop_table E B b name = rel_write B b (\<lambda>w. drop_table_in (env_codecs E) (env_hooks E) (write_tx B) w name)"

definition rel_create_index :: "'w rel_env \<Rightarrow> ('b, 'r, 'w) backend_ops \<Rightarrow> 'b \<Rightarrow> string \<Rightarrow> string \<Rightarrow> (unit \<times> 'b) res" where
  "rel_create_index E B b t column = rel_write B b (\<lambda>w.
    bind_res (require_schema_in (env_codecs E) (write_tx B) w t) (\<lambda>s.
    bind_res (build (tsb_index (to_builder s) column)) (\<lambda>s.
    no_result (ensure_table_in (env_codecs E) (env_hooks E) (write_tx B) w s))))"

definition rel_drop_index :: "'w rel_env \<Rightarrow> ('b, 'r, 'w) backend_ops \<Rightarrow> 'b \<Rightarrow> string \<Rightarrow> string \<Rightarrow> (unit \<times> 'b) res" where
  "rel_drop_index E B b t column = rel_write B b (\<lambda>w.
    bind_res (require_schema_in (env_codecs E) (write_tx B) w t) (\<lambda>s.
    bind_res (build (tsb_drop_index (to_builder s) column)) (\<lambda>s.
    no_result (ensure_table_in (env_codecs E) (env_hooks E) (write_tx B) w s))))"

definition rel_table_schema :: "'w rel_env \<Rightarrow> ('b, 'r, 'w) backend_ops \<Rightarrow> 'b \<Rightarrow> string \<Rightarrow> table_schema option res" where
  "rel_table_schema E B b name = bind_res (begin_read B b) (\<lambda>rtx. load_schema_in (env_codecs E) (read_tx B) rtx name)"

definition rel_list_tables :: "'w rel_env \<Rightarrow> ('b, 'r, 'w) backend_ops \<Rightarrow> 'b \<Rightarrow> table_schema list res" where
  "rel_list_tables E B b = bind_res (begin_read B b) (\<lambda>rtx. list_schemas_in (env_codecs E) (read_tx B) rtx)"

section \<open>A table handle\<close>

definition rt_write :: "'w rel_env \<Rightarrow> ('b, 'r, 'w) backend_ops \<Rightarrow> 'b \<Rightarrow> table_ref \<Rightarrow> ('w \<Rightarrow> table_schema \<Rightarrow> ('a \<times> 'w) res) \<Rightarrow> ('a \<times> 'b) res" where
  "rt_write E B b t f = rel_write B b (\<lambda>w. bind_res (tr_resolve (env_codecs E) (write_tx B) w t) (\<lambda>s. f w s))"

definition rt_read :: "'w rel_env \<Rightarrow> ('b, 'r, 'w) backend_ops \<Rightarrow> 'b \<Rightarrow> table_ref \<Rightarrow> ('r \<Rightarrow> table_schema \<Rightarrow> 'a res) \<Rightarrow> 'a res" where
  "rt_read E B b t f = bind_res (begin_read B b) (\<lambda>rtx. bind_res (tr_resolve (env_codecs E) (read_tx B) rtx t) (\<lambda>s. f rtx s))"

definition rt_insert where
  "rt_insert E B b t values = rt_write E B b t (\<lambda>w s. insert_in (env_codecs E) (env_hooks E) (write_tx B) w s values OnError)"

definition rt_insert_bulk where
  "rt_insert_bulk E B b t items = rt_write E B b t (\<lambda>w s. insert_bulk_in (env_codecs E) (env_hooks E) (write_tx B) w s items OnError)"

definition rt_insert_with_pk_bulk where
  "rt_insert_with_pk_bulk E B b t items = rt_write E B b t (\<lambda>w s. no_result (insert_with_pk_bulk_in (env_codecs E) (env_hooks E) (write_tx B) w s items OnError))"

definition rt_insert_with_pk where
  "rt_insert_with_pk E B b t pk values = rt_insert_with_pk_bulk E B b t [(pk, values)]"

definition rt_upsert where
  "rt_upsert E B b t values = rt_write E B b t (\<lambda>w s. insert_in (env_codecs E) (env_hooks E) (write_tx B) w s values Replace)"

definition rt_upsert_bulk where
  "rt_upsert_bulk E B b t items = rt_write E B b t (\<lambda>w s. insert_bulk_in (env_codecs E) (env_hooks E) (write_tx B) w s items Replace)"

definition rt_upsert_with_pk_bulk where
  "rt_upsert_with_pk_bulk E B b t items = rt_write E B b t (\<lambda>w s. no_result (insert_with_pk_bulk_in (env_codecs E) (env_hooks E) (write_tx B) w s items Replace))"

definition rt_upsert_with_pk where
  "rt_upsert_with_pk E B b t pk values = rt_upsert_with_pk_bulk E B b t [(pk, values)]"

definition rt_get where
  "rt_get E B b t pk = rt_read E B b t (\<lambda>rtx s. get_in (env_codecs E) (read_tx B) rtx s pk)"

section \<open>Query builders\<close>

text \<open>\<open>SelectQuery\<close>, \<open>UpdateQuery\<close> and \<open>DeleteQuery\<close> hold a handle and a \<open>Query\<close> under construction; \<open>filter_methods!\<close>
  gives all three the same predicate methods.\<close>

record table_query =
  tq_table :: table_ref
  tq_query :: query

record update_query = table_query +
  uq_sets :: "(string \<times> prop_value) list"

definition rt_select :: "table_ref \<Rightarrow> table_query" where "rt_select t = \<lparr>tq_table = t, tq_query = q_new\<rparr>"
definition rt_update :: "table_ref \<Rightarrow> update_query" where "rt_update t = \<lparr>tq_table = t, tq_query = q_new, uq_sets = []\<rparr>"
definition rt_delete :: "table_ref \<Rightarrow> table_query" where "rt_delete t = \<lparr>tq_table = t, tq_query = q_new\<rparr>"

definition tq_filter :: "'z table_query_scheme \<Rightarrow> expr \<Rightarrow> 'z table_query_scheme" where
  "tq_filter q e = q\<lparr>tq_query := q_filter (tq_query q) e\<rparr>"
definition tq_where_eq :: "'z table_query_scheme \<Rightarrow> string \<Rightarrow> prop_value \<Rightarrow> 'z table_query_scheme" where
  "tq_where_eq q column v = q\<lparr>tq_query := where_eq (tq_query q) column v\<rparr>"
definition tq_where_prefix :: "'z table_query_scheme \<Rightarrow> string \<Rightarrow> string \<Rightarrow> 'z table_query_scheme" where
  "tq_where_prefix q column p = q\<lparr>tq_query := where_prefix (tq_query q) column p\<rparr>"
definition tq_where_range :: "'z table_query_scheme \<Rightarrow> string \<Rightarrow> prop_value bound \<Rightarrow> prop_value bound \<Rightarrow> 'z table_query_scheme" where
  "tq_where_range q column start stop = q\<lparr>tq_query := where_range (tq_query q) column start stop\<rparr>"
definition tq_order_by :: "'z table_query_scheme \<Rightarrow> string \<Rightarrow> order \<Rightarrow> 'z table_query_scheme" where
  "tq_order_by q column d = q\<lparr>tq_query := order_by (tq_query q) column d\<rparr>"
definition tq_limit :: "'z table_query_scheme \<Rightarrow> nat \<Rightarrow> 'z table_query_scheme" where
  "tq_limit q n = q\<lparr>tq_query := q_set_limit (tq_query q) n\<rparr>"
definition sq_offset :: "table_query \<Rightarrow> nat \<Rightarrow> table_query" where
  "sq_offset q n = q\<lparr>tq_query := q_set_offset (tq_query q) n\<rparr>"
definition sq_columns :: "table_query \<Rightarrow> string list \<Rightarrow> table_query" where
  "sq_columns q cols = q\<lparr>tq_query := q_set_columns (tq_query q) cols\<rparr>"
definition uq_set :: "update_query \<Rightarrow> string \<Rightarrow> prop_value \<Rightarrow> update_query" where
  "uq_set q column v = q\<lparr>uq_sets := uq_sets q @ [(column, v)]\<rparr>"

definition sq_run where
  "sq_run E B b q = rt_read E B b (tq_table q) (\<lambda>rtx s. select_in (env_lower E) (env_codecs E) (read_tx B) rtx s (tq_query q))"

definition sq_count where
  "sq_count E B b q = rt_read E B b (tq_table q) (\<lambda>rtx s. count_in (env_lower E) (env_codecs E) (read_tx B) rtx s (tq_query q))"

definition sq_aggregate_by where
  "sq_aggregate_by E B b q group_by aggs =
    rt_read E B b (tq_table q) (\<lambda>rtx s. aggregate_in (env_lower E) (env_codecs E) (read_tx B) rtx s (tq_query q) group_by aggs)"

definition sq_aggregate where
  "sq_aggregate E B b q aggs =
    bind_res (rt_read E B b (tq_table q) (\<lambda>rtx s. aggregate_in (env_lower E) (env_codecs E) (read_tx B) rtx s (tq_query q) [] aggs)) (\<lambda>rows.
    Ok (if rows = [] then [] else ar_values (last rows)))"

definition uq_run where
  "uq_run E B b q =
    bind_res (begin_write B b) (\<lambda>w.
    bind_res (tr_resolve (env_codecs E) (write_tx B) w (tq_table q)) (\<lambda>s.
    bind_res (update_in (env_lower E) (env_codecs E) (env_hooks E) (write_tx B) w s (tq_query q) (uq_sets q)) (\<lambda>(n, w).
    bind_res (commit B b w) (\<lambda>b. Ok (n, b)))))"

definition dq_run where
  "dq_run E B b q =
    bind_res (begin_write B b) (\<lambda>w.
    bind_res (tr_resolve (env_codecs E) (write_tx B) w (tq_table q)) (\<lambda>s.
    bind_res (delete_in (env_lower E) (env_codecs E) (env_hooks E) (write_tx B) w s (tq_query q)) (\<lambda>(n, w).
    bind_res (commit B b w) (\<lambda>b. Ok (n, b)))))"

definition rt_select_prefix where
  "rt_select_prefix E B b t column p = sq_run E B b (tq_where_prefix (rt_select t) column p)"

section \<open>Batch tables\<close>

text \<open>\<open>BatchTable\<close>: the same operations on a write transaction that is already open; \<open>ops\<close> are its operations.\<close>

definition batch_table :: "table_schema \<Rightarrow> table_ref res" where
  "batch_table s = checked_ref \<lparr>tr_schema = s, tr_by_name = False\<rparr>"

definition batch_table_named where
  "batch_table_named E ops w name =
    bind_res (require_schema_in (env_codecs E) ops w name) (\<lambda>s. checked_ref \<lparr>tr_schema = s, tr_by_name = True\<rparr>)"

definition btab_resolved where
  "btab_resolved E ops w t = tr_resolve (env_codecs E) ops w t"

definition btab_insert where
  "btab_insert E ops w t values = bind_res (btab_resolved E ops w t) (\<lambda>s. insert_in (env_codecs E) (env_hooks E) ops w s values OnError)"

definition btab_insert_bulk where
  "btab_insert_bulk E ops w t items = bind_res (btab_resolved E ops w t) (\<lambda>s. insert_bulk_in (env_codecs E) (env_hooks E) ops w s items OnError)"

definition btab_insert_with_pk_bulk where
  "btab_insert_with_pk_bulk E ops w t items =
    bind_res (btab_resolved E ops w t) (\<lambda>s. no_result (insert_with_pk_bulk_in (env_codecs E) (env_hooks E) ops w s items OnError))"

definition btab_insert_with_pk where
  "btab_insert_with_pk E ops w t pk values = btab_insert_with_pk_bulk E ops w t [(pk, values)]"

definition btab_upsert where
  "btab_upsert E ops w t values = bind_res (btab_resolved E ops w t) (\<lambda>s. insert_in (env_codecs E) (env_hooks E) ops w s values Replace)"

definition btab_upsert_bulk where
  "btab_upsert_bulk E ops w t items = bind_res (btab_resolved E ops w t) (\<lambda>s. insert_bulk_in (env_codecs E) (env_hooks E) ops w s items Replace)"

definition btab_upsert_with_pk_bulk where
  "btab_upsert_with_pk_bulk E ops w t items =
    bind_res (btab_resolved E ops w t) (\<lambda>s. no_result (insert_with_pk_bulk_in (env_codecs E) (env_hooks E) ops w s items Replace))"

definition btab_upsert_with_pk where
  "btab_upsert_with_pk E ops w t pk values = btab_upsert_with_pk_bulk E ops w t [(pk, values)]"

definition btab_get where
  "btab_get E ops w t pk = bind_res (btab_resolved E ops w t) (\<lambda>s. get_in (env_codecs E) ops w s pk)"

definition btab_find where
  "btab_find E ops w t q = bind_res (btab_resolved E ops w t) (\<lambda>s. select_in (env_lower E) (env_codecs E) ops w s q)"

definition btab_count where
  "btab_count E ops w t q = bind_res (btab_resolved E ops w t) (\<lambda>s. count_in (env_lower E) (env_codecs E) ops w s q)"

definition btab_aggregate where
  "btab_aggregate E ops w t q group_by aggs =
    bind_res (btab_resolved E ops w t) (\<lambda>s. aggregate_in (env_lower E) (env_codecs E) ops w s q group_by aggs)"

definition btab_select_eq where "btab_select_eq E ops w t column v = btab_find E ops w t (where_eq q_new column v)"
definition btab_select_all where "btab_select_all E ops w t = btab_find E ops w t q_new"
definition btab_select_range where
  "btab_select_range E ops w t column start stop = btab_find E ops w t (where_range q_new column start stop)"
definition btab_select_prefix where "btab_select_prefix E ops w t column p = btab_find E ops w t (where_prefix q_new column p)"

definition btab_update where
  "btab_update E ops w t pk mutate = bind_res (btab_resolved E ops w t) (\<lambda>s. update_row_in (env_codecs E) (env_hooks E) ops w s pk mutate)"

definition btab_update_where where
  "btab_update_where E ops w t q sets =
    bind_res (btab_resolved E ops w t) (\<lambda>s. update_in (env_lower E) (env_codecs E) (env_hooks E) ops w s q sets)"

definition btab_update_where_eq where
  "btab_update_where_eq E ops w t column v sets = btab_update_where E ops w t (where_eq q_new column v) sets"

definition btab_delete where
  "btab_delete E ops w t pk = bind_res (btab_resolved E ops w t) (\<lambda>s. delete_row_in (env_codecs E) (env_hooks E) ops w s pk)"

definition btab_delete_where where
  "btab_delete_where E ops w t q =
    bind_res (btab_resolved E ops w t) (\<lambda>s. delete_in (env_lower E) (env_codecs E) (env_hooks E) ops w s q)"

definition btab_delete_where_eq where
  "btab_delete_where_eq E ops w t column v = btab_delete_where E ops w t (where_eq q_new column v)"

section \<open>Views over an open transaction\<close>

definition rbv_create_table where "rbv_create_table E ops w s = create_table_in (env_codecs E) ops w s"
definition rbv_ensure_table where "rbv_ensure_table E ops w s = ensure_table_in (env_codecs E) (env_hooks E) ops w s"
definition rbv_drop_table where "rbv_drop_table E ops w name = drop_table_in (env_codecs E) (env_hooks E) ops w name"
definition rbv_table_schema where "rbv_table_schema E ops w name = load_schema_in (env_codecs E) ops w name"
definition rbv_list_tables where "rbv_list_tables E ops w = list_schemas_in (env_codecs E) ops w"

definition read_table :: "table_schema \<Rightarrow> table_ref res" where
  "read_table s = checked_ref \<lparr>tr_schema = s, tr_by_name = False\<rparr>"

definition read_table_named where
  "read_table_named E ops r name =
    bind_res (require_schema_in (env_codecs E) ops r name) (\<lambda>s. checked_ref \<lparr>tr_schema = s, tr_by_name = True\<rparr>)"

definition rtab_resolved where
  "rtab_resolved E ops r t = tr_resolve (env_codecs E) ops r t"

definition rtab_get where
  "rtab_get E ops r t pk = bind_res (rtab_resolved E ops r t) (\<lambda>s. get_in (env_codecs E) ops r s pk)"

definition rtab_find where
  "rtab_find E ops r t q = bind_res (rtab_resolved E ops r t) (\<lambda>s. select_in (env_lower E) (env_codecs E) ops r s q)"

definition rtab_count where
  "rtab_count E ops r t q = bind_res (rtab_resolved E ops r t) (\<lambda>s. count_in (env_lower E) (env_codecs E) ops r s q)"

definition rtab_aggregate where
  "rtab_aggregate E ops r t q group_by aggs =
    bind_res (rtab_resolved E ops r t) (\<lambda>s. aggregate_in (env_lower E) (env_codecs E) ops r s q group_by aggs)"

definition rtab_select_eq where "rtab_select_eq E ops r t column v = rtab_find E ops r t (where_eq q_new column v)"
definition rtab_select_all where "rtab_select_all E ops r t = rtab_find E ops r t q_new"
definition rtab_select_range where
  "rtab_select_range E ops r t column start stop = rtab_find E ops r t (where_range q_new column start stop)"
definition rtab_select_prefix where "rtab_select_prefix E ops r t column p = rtab_find E ops r t (where_prefix q_new column p)"

definition rrv_table_schema where "rrv_table_schema E ops r name = load_schema_in (env_codecs E) ops r name"
definition rrv_list_tables where "rrv_list_tables E ops r = list_schemas_in (env_codecs E) ops r"

end
