(* ===== verification/Multi_Db.thy ===== *)
theory Multi_Db
  imports Graph_Db Rel_Db
begin

text \<open>
  The multi-model database: \<open>Db\<close> and its statistics (\<open>db/mod.rs\<close>), the transactions that span all models
  (\<open>db/write_tx.rs\<close>, \<open>db/read_tx.rs\<close>, \<open>db/batch.rs\<close>), the synchronisation batch (\<open>db/sync.rs\<close>) and the joins between
  nodes and rows (\<open>hybrid.rs\<close>). The facades \<open>kv()\<close>, \<open>graph()\<close> and \<open>relational()\<close> hand the same backend, or the same open
  transaction, to the operations of the key/value, graph and relational layers.
\<close>

section \<open>Transactions\<close>

definition db_begin_write :: "('b, 'r, 'w) backend_ops \<Rightarrow> 'b \<Rightarrow> 'w res" where
  "db_begin_write B b = begin_write B b"

definition db_commit :: "('b, 'r, 'w) backend_ops \<Rightarrow> 'b \<Rightarrow> 'w \<Rightarrow> 'b res" where
  "db_commit B b batch = commit B b batch"

definition db_write_tx :: "('b, 'r, 'w) backend_ops \<Rightarrow> 'b \<Rightarrow> ('w \<Rightarrow> ('a \<times> 'w) res) \<Rightarrow> ('a \<times> 'b) res" where
  "db_write_tx B b f =
    bind_res (begin_write B b) (\<lambda>wtx.
    bind_res (f wtx) (\<lambda>(result, batch).
    bind_res (commit B b batch) (\<lambda>b. Ok (result, b))))"

definition db_read_tx :: "('b, 'r, 'w) backend_ops \<Rightarrow> 'b \<Rightarrow> ('r \<Rightarrow> 'a res) \<Rightarrow> 'a res" where
  "db_read_tx B b f = bind_res (begin_read B b) (\<lambda>rtx. f rtx)"

section \<open>Statistics\<close>

record db_stats =
  st_nodes :: u64
  st_edges :: u64
  st_tables :: "(string \<times> u64) list"

definition count_table :: "('r, 'z) read_ops_scheme \<Rightarrow> 'r \<Rightarrow> table \<Rightarrow> u64 res" where
  "count_table ops r t =
    bind_res (s_scan ops r t Unbounded Unbounded) (\<lambda>kvs.
    for_res (\<lambda>kv n. bind_res kv (\<lambda>_. Ok (n + 1))) kvs 0)"

definition stats_in :: "rel_codecs \<Rightarrow> ('r, 'z) read_ops_scheme \<Rightarrow> 'r \<Rightarrow> db_stats res" where
  "stats_in C ops r =
    bind_res (count_table ops r NODES) (\<lambda>nodes.
    bind_res (count_table ops r EDGES) (\<lambda>edges.
    bind_res (list_schemas_in C ops r) (\<lambda>schemas.
    bind_res (for_res (\<lambda>s tables. bind_res (count_table ops r (base_table s)) (\<lambda>n. Ok (tables @ [(td_name s, n)]))) schemas []) (\<lambda>tables.
    Ok \<lparr>st_nodes = nodes, st_edges = edges, st_tables = tables\<rparr>))))"

definition db_read_stats :: "rel_codecs \<Rightarrow> ('b, 'r, 'w) backend_ops \<Rightarrow> 'b \<Rightarrow> db_stats res" where
  "db_read_stats C B b = bind_res (begin_read B b) (\<lambda>rtx. stats_in C (read_tx B) rtx)"

section \<open>The synchronisation batch\<close>

datatype node_ref = Existing node_id | NewNode nat

definition nr_resolve :: "node_ref \<Rightarrow> node_id list \<Rightarrow> node_id res" where
  "nr_resolve x created = (case x of
      Existing i \<Rightarrow> Ok i
    | NewNode i \<Rightarrow> ok_or (if i < length created then Some (created ! i) else None) (Encoding ''NodeRef::New is out of range''))"

record sync_batch =
  sb_nodes :: "(string \<times> properties) list"
  sb_edges :: "(node_id \<times> string \<times> node_id \<times> properties) list"
  sb_linked_edges :: "(node_ref \<times> string \<times> node_ref \<times> properties) list"
  sb_rows :: "(table_schema \<times> properties list) list"
  sb_rows_with_pk :: "(table_schema \<times> (prop_value \<times> properties) list) list"

record sync_batch_result =
  sr_node_ids :: "node_id list"
  sr_edge_ids :: "edge_id list"
  sr_relational_pks :: "prop_value list list"

text \<open>Items join the last group when it is for the same table.\<close>

definition push_grouped :: "(table_schema \<times> 'a list) list \<Rightarrow> table_schema \<Rightarrow> 'a list \<Rightarrow> (table_schema \<times> 'a list) list" where
  "push_grouped groups s items =
    (if items = [] then groups
     else if groups \<noteq> [] \<and> schema_eq (fst (last groups)) s
     then butlast groups @ [(fst (last groups), snd (last groups) @ items)]
     else groups @ [(s, items)])"

definition sb_new :: sync_batch where
  "sb_new = \<lparr>sb_nodes = [], sb_edges = [], sb_linked_edges = [], sb_rows = [], sb_rows_with_pk = []\<rparr>"

definition sb_add_node :: "sync_batch \<Rightarrow> string \<Rightarrow> properties \<Rightarrow> sync_batch" where
  "sb_add_node b label ps = b\<lparr>sb_nodes := sb_nodes b @ [(label, ps)]\<rparr>"

definition sb_add_nodes :: "sync_batch \<Rightarrow> (string \<times> properties) list \<Rightarrow> sync_batch" where
  "sb_add_nodes b nodes = b\<lparr>sb_nodes := sb_nodes b @ nodes\<rparr>"

definition sb_add_edge :: "sync_batch \<Rightarrow> node_id \<Rightarrow> string \<Rightarrow> node_id \<Rightarrow> properties \<Rightarrow> sync_batch" where
  "sb_add_edge b from edge_type to ps = b\<lparr>sb_edges := sb_edges b @ [(from, edge_type, to, ps)]\<rparr>"

definition sb_add_linked_edge :: "sync_batch \<Rightarrow> node_ref \<Rightarrow> string \<Rightarrow> node_ref \<Rightarrow> properties \<Rightarrow> sync_batch" where
  "sb_add_linked_edge b from edge_type to ps = b\<lparr>sb_linked_edges := sb_linked_edges b @ [(from, edge_type, to, ps)]\<rparr>"

definition sb_add_edges :: "sync_batch \<Rightarrow> (node_id \<times> string \<times> node_id \<times> properties) list \<Rightarrow> sync_batch" where
  "sb_add_edges b edges = b\<lparr>sb_edges := sb_edges b @ edges\<rparr>"

definition sb_add_row :: "sync_batch \<Rightarrow> table_schema \<Rightarrow> properties \<Rightarrow> sync_batch" where
  "sb_add_row b s values = b\<lparr>sb_rows := push_grouped (sb_rows b) s [values]\<rparr>"

definition sb_add_rows :: "sync_batch \<Rightarrow> table_schema \<Rightarrow> properties list \<Rightarrow> sync_batch" where
  "sb_add_rows b s rows = b\<lparr>sb_rows := push_grouped (sb_rows b) s rows\<rparr>"

definition sb_add_row_with_pk :: "sync_batch \<Rightarrow> table_schema \<Rightarrow> prop_value \<Rightarrow> properties \<Rightarrow> sync_batch" where
  "sb_add_row_with_pk b s pk values = b\<lparr>sb_rows_with_pk := push_grouped (sb_rows_with_pk b) s [(pk, values)]\<rparr>"

definition sb_add_rows_with_pk :: "sync_batch \<Rightarrow> table_schema \<Rightarrow> (prop_value \<times> properties) list \<Rightarrow> sync_batch" where
  "sb_add_rows_with_pk b s rows = b\<lparr>sb_rows_with_pk := push_grouped (sb_rows_with_pk b) s rows\<rparr>"

text \<open>The closure of \<open>sync_batch\<close>, on an open write transaction.\<close>

definition resolve_edge :: "node_id list \<Rightarrow> node_ref \<times> string \<times> node_ref \<times> properties
    \<Rightarrow> (node_id \<times> string \<times> node_id \<times> properties) list \<Rightarrow> (node_id \<times> string \<times> node_id \<times> properties) list res" where
  "resolve_edge node_ids e edges = (case e of (from, edge_type, to, props) \<Rightarrow>
    bind_res (nr_resolve from node_ids) (\<lambda>a.
    bind_res (nr_resolve to node_ids) (\<lambda>b.
    Ok (edges @ [(a, edge_type, b, props)]))))"

definition sync_rows :: "'w rel_env \<Rightarrow> ('w, 'z) write_ops_scheme \<Rightarrow> table_schema \<times> properties list
    \<Rightarrow> prop_value list list \<times> 'w \<Rightarrow> (prop_value list list \<times> 'w) res" where
  "sync_rows E ops rs st = (case (rs, st) of ((s, rows), (pkss, w)) \<Rightarrow>
    bind_res (batch_table s) (\<lambda>tbl.
    bind_res (btab_upsert_bulk E ops w tbl rows) (\<lambda>(pks, w).
    Ok (pkss @ [pks], w))))"

definition sync_rows_with_pk :: "'w rel_env \<Rightarrow> ('w, 'z) write_ops_scheme \<Rightarrow> table_schema \<times> (prop_value \<times> properties) list \<Rightarrow> 'w \<Rightarrow> 'w res" where
  "sync_rows_with_pk E ops rs w = (case rs of (s, rows) \<Rightarrow>
    bind_res (batch_table s) (\<lambda>tbl.
    bind_res (btab_upsert_with_pk_bulk E ops w tbl rows) (\<lambda>(_, w). Ok w)))"

definition sync_batch_in :: "graph_codecs \<Rightarrow> 'w rel_env \<Rightarrow> ('w, 'z) write_ops_scheme \<Rightarrow> 'w \<Rightarrow> sync_batch \<Rightarrow> (sync_batch_result \<times> 'w) res" where
  "sync_batch_in G E ops w batch =
    bind_res (batch_create_nodes_bulk G ops w (sb_nodes batch)) (\<lambda>(node_ids, w).
    bind_res (for_res (resolve_edge node_ids) (sb_linked_edges batch) (sb_edges batch)) (\<lambda>edges.
    bind_res (batch_create_edges_bulk G ops w edges) (\<lambda>(edge_ids, w).
    bind_res (for_res (sync_rows E ops) (sb_rows batch) ([], w)) (\<lambda>(pkss, w).
    bind_res (for_res (sync_rows_with_pk E ops) (sb_rows_with_pk batch) w) (\<lambda>w.
    Ok (\<lparr>sr_node_ids = node_ids, sr_edge_ids = edge_ids, sr_relational_pks = pkss\<rparr>, w))))))"

definition db_sync_batch :: "graph_codecs \<Rightarrow> 'w rel_env \<Rightarrow> ('b, 'r, 'w) backend_ops \<Rightarrow> 'b \<Rightarrow> sync_batch \<Rightarrow> (sync_batch_result \<times> 'b) res" where
  "db_sync_batch G E B b batch = db_write_tx B b (\<lambda>w. sync_batch_in G E (write_tx B) w batch)"

section \<open>Joins between nodes and rows\<close>

record joined_node =
  jn_id :: node_id
  jn_node :: "node_record option"
  jn_row :: "row option"

record joined_node_rows =
  jr_id :: node_id
  jr_node :: "node_record option"
  jr_rows :: "row list"

text \<open>\<open>i64::try_from\<close>: an id with the top bit set has no \<open>Int\<close> value.\<close>

definition fits_i64 :: "u64 \<Rightarrow> bool" where
  "fits_i64 i \<longleftrightarrow> unat i < 2 ^ 63"

definition node_id_value :: "node_id \<Rightarrow> prop_value res" where
  "node_id_value i = (if fits_i64 i then Ok (IntV i) else Err (Encoding ''NodeId does not fit in an Int column''))"

definition join_nodes_with_table :: "graph_codecs \<Rightarrow> rel_codecs \<Rightarrow> ('r, 'z) read_ops_scheme \<Rightarrow> 'r \<Rightarrow> node_id list \<Rightarrow> table_schema \<Rightarrow> joined_node list res" where
  "join_nodes_with_table G C ops r nodes s =
    bind_res (primary_key_column s) (\<lambda>c.
    if cs_kind c \<noteq> KInt then Err (Encoding ''table primary key is not Int, cannot join directly with NodeId'')
    else for_res (\<lambda>i out.
      bind_res (get_node_in G ops r i) (\<lambda>node.
      bind_res (node_id_value i) (\<lambda>v.
      bind_res (get_in C ops r s v) (\<lambda>row.
      Ok (out @ [\<lparr>jn_id = i, jn_node = node, jn_row = row\<rparr>]))))) nodes [])"

text \<open>One row of the scan of an unindexed join: kept under its key when that is one of the targets.\<close>

definition group_row :: "table_schema \<Rightarrow> string \<Rightarrow> i64 list \<Rightarrow> row \<Rightarrow> (i64 \<rightharpoonup> row list) \<Rightarrow> (i64 \<rightharpoonup> row list)" where
  "group_row s column target_fks row groups = (case row_get row s column of
      Some (IntV fk) \<Rightarrow>
        if fk \<in> set target_fks
        then groups(fk \<mapsto> (case groups fk of Some rows \<Rightarrow> rows | None \<Rightarrow> []) @ [row])
        else groups
    | _ \<Rightarrow> groups)"

definition scan_groups :: "rel_codecs \<Rightarrow> ('r, 'z) read_ops_scheme \<Rightarrow> 'r \<Rightarrow> node_id list \<Rightarrow> table_schema \<Rightarrow> string \<Rightarrow> (i64 \<rightharpoonup> row list) res" where
  "scan_groups C ops r nodes s column =
    (let target_fks = filter fits_i64 nodes in
     bind_res (scan_all_in C ops r s) (\<lambda>rows.
     Ok (fold (group_row s column target_fks) rows Map.empty)))"

definition join_nodes_by_column :: "graph_codecs \<Rightarrow> rel_codecs \<Rightarrow> ('r, 'z) read_ops_scheme \<Rightarrow> 'r \<Rightarrow> node_id list \<Rightarrow> table_schema \<Rightarrow> string
    \<Rightarrow> joined_node_rows list res" where
  "join_nodes_by_column G C ops r nodes s column =
    bind_res (ok_or (ts_column s column) (Encoding ''no such column in schema'')) (\<lambda>col.
    if cs_kind col \<noteq> KInt then Err (Encoding ''foreign key column is not Int'')
    else if nodes = [] then Ok []
    else
      bind_res (if is_indexed s column then Ok None
        else bind_res (scan_groups C ops r nodes s column) (\<lambda>g. Ok (Some g))) (\<lambda>by_fk.
      for_res (\<lambda>i out.
        bind_res (get_node_in G ops r i) (\<lambda>node.
        bind_res (node_id_value i) (\<lambda>v.
        bind_res (case (by_fk, v) of
            (Some groups, IntV fk) \<Rightarrow> Ok (case groups fk of Some rows \<Rightarrow> rows | None \<Rightarrow> [])
          | _ \<Rightarrow> index_lookup_eq_in C ops r s column v) (\<lambda>rows.
        Ok (out @ [\<lparr>jr_id = i, jr_node = node, jr_rows = rows\<rparr>]))))) nodes []))"

definition join_rows_with_nodes :: "graph_codecs \<Rightarrow> ('r, 'z) read_ops_scheme \<Rightarrow> 'r \<Rightarrow> row list \<Rightarrow> table_schema \<Rightarrow> string
    \<Rightarrow> (row \<times> node_record option) list res" where
  "join_rows_with_nodes G ops r rows s node_id_column =
    for_res (\<lambda>row out.
      bind_res (case row_get row s node_id_column of
          Some (IntV i) \<Rightarrow> if 0 \<le> sint i then get_node_in G ops r i else Ok None
        | _ \<Rightarrow> Ok None) (\<lambda>node.
      Ok (out @ [(row, node)]))) rows []"

definition query_rows_with_nodes :: "graph_codecs \<Rightarrow> 'w rel_env \<Rightarrow> ('r, 'z) read_ops_scheme \<Rightarrow> 'r \<Rightarrow> table_schema \<Rightarrow> query \<Rightarrow> string
    \<Rightarrow> (row \<times> node_record option) list res" where
  "query_rows_with_nodes G E ops r s q node_id_column =
    bind_res (select_in (env_lower E) (env_codecs E) ops r s q) (\<lambda>rows.
    join_rows_with_nodes G ops r rows s node_id_column)"

text \<open>\<open>DbReadBatch\<close>: the joins with the schema checked against the catalog first.\<close>

definition db_join_nodes_with_table where
  "db_join_nodes_with_table G E ops r nodes s =
    bind_res (resolve_schema (env_codecs E) ops r s) (\<lambda>s. join_nodes_with_table G (env_codecs E) ops r nodes s)"

definition db_join_nodes_by_column where
  "db_join_nodes_by_column G E ops r nodes s column =
    bind_res (resolve_schema (env_codecs E) ops r s) (\<lambda>s. join_nodes_by_column G (env_codecs E) ops r nodes s column)"

definition db_join_rows_with_nodes where
  "db_join_rows_with_nodes G E ops r rows s column =
    bind_res (resolve_schema (env_codecs E) ops r s) (\<lambda>s. join_rows_with_nodes G ops r rows s column)"

definition db_query_rows_with_nodes where
  "db_query_rows_with_nodes G E ops r s q column =
    bind_res (resolve_schema (env_codecs E) ops r s) (\<lambda>s. query_rows_with_nodes G E ops r s q column)"

end
