(* ===== verification/Rel_Repr.thy ===== *)
theory Rel_Repr
  imports Rel_Rows
begin

text \<open>
  The specification of a relational table and its representation. A table's contents are a map from primary key
  to the row's other values (\<open>rows\<close>); \<open>table_repr\<close> says that a store holds them: the base table has one entry per
  row, every index table has exactly one entry per row with a non-null value in that column, every row satisfies
  the schema, and unique columns hold no value twice. The locale \<open>rel_read\<close> is what the reads need of a
  transaction; its lemmas give the meaning of point reads, scans and index lookups.
\<close>

type_synonym rows = "prop_value \<rightharpoonup> properties"

definition rel_codecs_ok :: "rel_codecs \<Rightarrow> bool" where
  "rel_codecs_ok C \<longleftrightarrow> codec_on properties_ok (row_codec C) \<and> codec_on schema_ok (def_codec C)"

definition rows_in :: "rows \<Rightarrow> row set" where
  "rows_in T = {r. T (row_pk r) = Some (row_values r)}"

text \<open>The index entry of a row in one column.\<close>

definition entry_key :: "table_schema \<Rightarrow> string \<Rightarrow> row \<Rightarrow> bytes option" where
  "entry_key s col r = (case indexable r s col of
      Some v \<Rightarrow> (case index_key v (row_pk r) of Ok k \<Rightarrow> Some k | _ \<Rightarrow> None)
    | None \<Rightarrow> None)"

definition index_entries :: "table_schema \<Rightarrow> rows \<Rightarrow> string \<Rightarrow> bytes set" where
  "index_entries s T col = {k. \<exists>r\<in>rows_in T. entry_key s col r = Some k}"

text \<open>A row with a key encoding for its primary key and for every value of an indexed column.\<close>

definition keys_ok :: "table_schema \<Rightarrow> prop_value \<Rightarrow> properties \<Rightarrow> bool" where
  "keys_ok s pk vs \<longleftrightarrow> sortable_key pk \<noteq> None \<and>
    (\<forall>col\<in>set (td_indexed_columns s). \<forall>v. map_of vs col = Some v \<longrightarrow> v \<noteq> Null \<longrightarrow> sortable_key v \<noteq> None)"

definition row_ok :: "table_schema \<Rightarrow> prop_value \<Rightarrow> properties \<Rightarrow> bool" where
  "row_ok s pk vs \<longleftrightarrow> validate_row s pk vs = Ok () \<and> value_ok pk \<and> properties_ok vs \<and> map_of vs (td_primary_key s) = None \<and> keys_ok s pk vs"

definition unique_in :: "table_schema \<Rightarrow> rows \<Rightarrow> bool" where
  "unique_in s T \<longleftrightarrow> (\<forall>c\<in>set (td_columns s). cs_unique c \<longrightarrow> (\<forall>r\<in>rows_in T. \<forall>r'\<in>rows_in T. \<forall>v.
    indexable r s (cs_name c) = Some v \<longrightarrow> indexable r' s (cs_name c) = Some v \<longrightarrow> row_pk r = row_pk r'))"

definition table_wf :: "table_schema \<Rightarrow> rows \<Rightarrow> bool" where
  "table_wf s T \<longleftrightarrow> (\<forall>pk vs. T pk = Some vs \<longrightarrow> row_ok s pk vs) \<and> unique_in s T"

definition base_repr :: "rel_codecs \<Rightarrow> rows \<Rightarrow> (bytes \<rightharpoonup> bytes) \<Rightarrow> bool" where
  "base_repr C T m \<longleftrightarrow> (\<forall>k bs. m k = Some bs \<longleftrightarrow> (\<exists>pk vs. T pk = Some vs \<and> sortable_key pk = Some k \<and> encode_row C vs = Ok bs))"

definition table_repr :: "rel_codecs \<Rightarrow> table_schema \<Rightarrow> rows \<Rightarrow> store \<Rightarrow> bool" where
  "table_repr C s T \<sigma> \<longleftrightarrow> schema_ok s \<and> rel_codecs_ok C \<and> table_wf s T \<and> base_repr C T (\<sigma> (base_table s)) \<and>
    (\<forall>col\<in>set (td_indexed_columns s). \<sigma> (index_table s col) = flags (index_entries s T col))"

section \<open>Rows and their keys\<close>

lemma row_eq_iff: "(r :: row) = r' \<longleftrightarrow> row_pk r = row_pk r' \<and> row_values r = row_values r'"
  by (cases r; cases r') simp

lemma rows_in_row [simp]: "\<lparr>row_pk = pk, row_values = vs\<rparr> \<in> rows_in T \<longleftrightarrow> T pk = Some vs"
  by (simp add: rows_in_def)

lemma rows_in_pk_eq: "r \<in> rows_in T \<Longrightarrow> r' \<in> rows_in T \<Longrightarrow> row_pk r = row_pk r' \<Longrightarrow> r = r'"
  by (simp add: rows_in_def row_eq_iff)

lemma validate_value:
  assumes "validate_row s pk vs = Ok ()" "schema_ok s"
  shows "kind_of pk = pk_kind_of s" "pk \<noteq> Null"
    "(name, v) \<in> set vs \<Longrightarrow> \<exists>c. ts_column s name = Some c \<and> (v \<noteq> Null \<longrightarrow> kind_of v = cs_kind c)"
proof -
  obtain c where c: "ts_column s (td_primary_key s) = Some c" "cs_kind c = pk_kind_of s" using schema_pk [OF assms(2)] by metis
  have pk: "pk \<noteq> Null" using assms(1) by (auto simp: validate_row_def)
  then have "check_value s (td_primary_key s) pk = Ok ()"
    and loop: "for_res (\<lambda>(name, v) _. check_value s name v) vs () = Ok ()"
    using assms(1) by (auto simp: validate_row_def bind_res_Ok_iff)
  then show "kind_of pk = pk_kind_of s" "pk \<noteq> Null" using c pk by (auto simp: check_value_def split: if_splits)
  have "check_value s name v = Ok ()" if "(name, v) \<in> set vs" for name v
    using that loop by (induction vs) (auto simp: bind_res_Ok_iff)
  then show "\<exists>c. ts_column s name = Some c \<and> (v \<noteq> Null \<longrightarrow> kind_of v = cs_kind c)" if "(name, v) \<in> set vs"
    using that by (fastforce simp: check_value_def split: option.splits if_splits)
qed

lemma row_okD:
  assumes "row_ok s pk vs" "schema_ok s"
  shows "kind_of pk = pk_kind_of s" "value_ok pk" "properties_ok vs" "sortable_key pk \<noteq> None"
  using assms validate_value [of s pk vs] by (simp_all add: row_ok_def keys_ok_def)

lemma indexable_Some:
  assumes "row_ok s (row_pk r) (row_values r)" "schema_ok s" "col \<in> set (td_indexed_columns s)" "indexable r s col = Some v" "ts_column s col = Some c"
  shows "kind_of v = cs_kind c" "value_ok v" "sortable_key v \<noteq> None"
proof -
  have "col \<noteq> td_primary_key s" using assms(2,3) schema_okD(5) by auto
  then have v: "map_of (row_values r) col = Some v" "v \<noteq> Null"
    using assms(4) by (auto simp: indexable_def row_get_def split: option.splits if_splits)
  then have mem: "(col, v) \<in> set (row_values r)" by (simp add: map_of_SomeD)
  show "kind_of v = cs_kind c" using validate_value(3) [OF _ assms(2) mem] assms(1,5) v(2) by (auto simp: row_ok_def)
  show "value_ok v" using mem assms(1) by (auto simp: row_ok_def properties_ok_def)
  show "sortable_key v \<noteq> None" using assms(1,3) v by (auto simp: row_ok_def keys_ok_def)
qed

lemma indexed_column:
  assumes "schema_ok s" "col \<in> set (td_indexed_columns s)"
  obtains c where "ts_column s col = Some c" "is_keyable (cs_kind c)" "ident_ok col" "col \<noteq> td_primary_key s"
proof -
  obtain c where "c \<in> set (td_columns s)" "cs_name c = col" "is_keyable (cs_kind c)" using schema_okD(6) [OF assms(1)] assms(2) by blast
  moreover from this have "ident_ok col" using schema_okD(8) [OF assms(1)] by auto
  moreover have "col \<noteq> td_primary_key s" using schema_okD(5) [OF assms(1)] assms(2) by blast
  ultimately show ?thesis using that ts_column_iff [OF assms(1)] by blast
qed

lemma entry_key_row:
  assumes "row_ok s (row_pk r) (row_values r)" "schema_ok s" "col \<in> set (td_indexed_columns s)"
  shows "indexable r s col = Some v \<Longrightarrow> \<exists>k. index_key v (row_pk r) = Ok k \<and> entry_key s col r = Some k"
    "indexable r s col = None \<Longrightarrow> entry_key s col r = None"
proof -
  obtain c where c: "ts_column s col = Some c" using indexed_column [OF assms(2,3)] by blast
  show "\<exists>k. index_key v (row_pk r) = Ok k \<and> entry_key s col r = Some k" if v: "indexable r s col = Some v"
  proof -
    obtain a b where "sortable_key v = Some a" "sortable_key (row_pk r) = Some b"
      using indexable_Some [OF assms v c] row_okD(4) [OF assms(1,2)] by blast
    then have "index_key v (row_pk r) = Ok (a @ b)" by (simp add: index_key_Ok)
    then show ?thesis using v by (simp add: entry_key_def)
  qed
qed (simp add: entry_key_def)

lemma entry_key_inject:
  assumes "row_ok s (row_pk r) (row_values r)" "row_ok s (row_pk r') (row_values r')" "schema_ok s" "col \<in> set (td_indexed_columns s)"
    and "entry_key s col r = Some k" "entry_key s col r' = Some k"
  shows "row_pk r = row_pk r'"
proof -
  obtain c where c: "ts_column s col = Some c" using indexed_column [OF assms(3,4)] by blast
  obtain v where v: "indexable r s col = Some v" "index_key v (row_pk r) = Ok k"
    using assms(5) by (auto simp: entry_key_def split: option.splits res.splits)
  obtain v' where v': "indexable r' s col = Some v'" "index_key v' (row_pk r') = Ok k"
    using assms(6) by (auto simp: entry_key_def split: option.splits res.splits)
  obtain a b a' b' where ab: "sortable_key v = Some a" "sortable_key (row_pk r) = Some b" "k = a @ b"
      "sortable_key v' = Some a'" "sortable_key (row_pk r') = Some b'" "k = a' @ b'"
    using v(2) v'(2) by (auto simp: index_key_Ok)
  have "a @ b = a' @ b'" using ab(3,6) by simp
  then have "v = v' \<and> b = b'"
    using indexable_Some [OF assms(1,3,4) v(1) c] indexable_Some [OF assms(2,3,4) v'(1) c] by (intro sortable_key_split [OF ab(1,4)]) simp_all
  then show ?thesis
    using sortable_key_inject [of "row_pk r" b "row_pk r'"] ab(2,5) row_okD [OF assms(1,3)] row_okD [OF assms(2,3)] by simp
qed

lemma table_wf_row: "table_wf s T \<Longrightarrow> r \<in> rows_in T \<Longrightarrow> row_ok s (row_pk r) (row_values r)"
  by (simp add: table_wf_def rows_in_def)

lemma encode_rowE:
  assumes "rel_codecs_ok C" "properties_ok vs"
  obtains bs where "encode_row C vs = Ok bs" "decode_row C bs = Ok vs"
proof -
  obtain bs where "serialize (row_codec C) vs = Some bs" "deserialize (row_codec C) bs = Some vs"
    using assms by (auto simp: rel_codecs_ok_def elim: codec_onE)
  then show ?thesis using that by (simp add: encode_row_def decode_row_def encode_def decode_def)
qed

lemma encode_table_defE:
  assumes "rel_codecs_ok C" "schema_ok s"
  obtains bs where "encode_table_def C s = Ok bs" "decode_table_def C bs = Ok s"
proof -
  obtain bs where "serialize (def_codec C) s = Some bs" "deserialize (def_codec C) bs = Some s"
    using assms by (auto simp: rel_codecs_ok_def elim: codec_onE)
  then show ?thesis using that by (simp add: encode_table_def_def decode_table_def_def encode_def decode_def)
qed

lemma list_all2_right: "list_all2 P xs ys \<Longrightarrow> y \<in> set ys \<Longrightarrow> \<exists>x\<in>set xs. P x y"
  by (induction rule: list_all2_induct) auto

section \<open>Reading a table\<close>

locale rel_read = storage_read ops inv tbl_ok view
  for ops :: "('r, 'z) read_ops_scheme" and inv tbl_ok view +
  assumes ident_tbl_ok: "ident_ok t \<Longrightarrow> tbl_ok t"
    and index_tbl_ok: "ident_ok t \<Longrightarrow> ident_ok c \<Longrightarrow> tbl_ok (index_table_named t c)"
    and meta_tbl_ok: "tbl_ok meta_table"
begin

abbreviation holds :: "rel_codecs \<Rightarrow> table_schema \<Rightarrow> 'r \<Rightarrow> rows \<Rightarrow> bool" where
  "holds C s r T \<equiv> inv r \<and> table_repr C s T (view r)"

lemma base_ok: "schema_ok s \<Longrightarrow> tbl_ok (base_table s)"
  by (simp add: base_table_def ident_tbl_ok schema_ok_def)

lemma index_ok: "schema_ok s \<Longrightarrow> col \<in> set (td_indexed_columns s) \<Longrightarrow> tbl_ok (index_table s col)"
  unfolding index_table_def by (metis index_tbl_ok indexed_column schema_okD(1))

lemma get_in_view:
  assumes "holds C s r T" "kind_of pk = pk_kind_of s" "value_ok pk"
  shows "get_in C ops r s pk = Ok (map_option (\<lambda>vs. \<lparr>row_pk = pk, row_values = vs\<rparr>) (T pk))"
proof (cases "sortable_key pk")
  case None
  have T: "table_wf s T" "schema_ok s" using assms(1) by (simp_all add: table_repr_def)
  then have "T pk = None" using None row_okD(4) [of s pk] by (metis table_wf_def not_None_eq)
  moreover have "\<exists>e. sortable_encode pk = Err e" using None by (simp add: sortable_encode_def)
  ultimately show ?thesis by (auto simp: get_in_def)
next
  case (Some k)
  have T: "table_wf s T" "schema_ok s" "rel_codecs_ok C" "base_repr C T (view r (base_table s))" using assms(1) by (simp_all add: table_repr_def)
  have same: "pk' = pk" if "T pk' = Some vs" "sortable_key pk' = Some k" for pk' vs
    using sortable_key_inject [OF that(2) Some] assms(2,3) T(1,2) that(1) row_okD [of s pk' vs] by (auto simp: table_wf_def)
  have get: "s_get ops r (base_table s) k = Ok (view r (base_table s) k)" using assms(1) T(2) by (simp add: get_view base_ok)
  show ?thesis
  proof (cases "T pk")
    case None
    then have "view r (base_table s) k = None" using T(4) same unfolding base_repr_def by (metis not_None_eq)
    then show ?thesis using Some get None by (simp add: get_in_def)
  next
    case (Some vs)
    then have "properties_ok vs" using T(1,2) row_okD(3) [of s pk] by (auto simp: table_wf_def)
    then obtain bs where bs: "encode_row C vs = Ok bs" "decode_row C bs = Ok vs" using encode_rowE [OF T(3)] by blast
    then have "view r (base_table s) k = Some bs" using T(4) Some \<open>sortable_key pk = Some k\<close> unfolding base_repr_def by blast
    then show ?thesis using \<open>sortable_key pk = Some k\<close> get Some bs by (simp add: get_in_def)
  qed
qed

text \<open>Decoding the entries of a range of the base table.\<close>

lemma decode_base_rows_view:
  assumes "holds C s r T" "s_range ops r (base_table s) lo hi = Ok xs"
  shows "\<exists>out. traverse (decode_base_row C (pk_kind_of s)) xs = Ok out \<and> distinct out \<and>
    list_all2 (\<lambda>(k, v) x. sortable_key (row_pk x) = Some k) xs out \<and>
    set out = {x \<in> rows_in T. \<exists>k. sortable_key (row_pk x) = Some k \<and> in_range lo hi k}"
proof -
  have T: "table_wf s T" "schema_ok s" "rel_codecs_ok C" "base_repr C T (view r (base_table s))" using assms(1) by (simp_all add: table_repr_def)
  have range: "range_of (view r (base_table s)) lo hi xs" using assms range_Ok_iff base_ok T(2) by blast
  note mem = range_of_mem [OF range]
  have dec: "\<exists>x. decode_base_row C (pk_kind_of s) (k, v) = Ok x \<and> x \<in> rows_in T \<and> sortable_key (row_pk x) = Some k" if kv: "(k, v) \<in> set xs" for k v
  proof -
    obtain pk vs where pk: "T pk = Some vs" "sortable_key pk = Some k" "encode_row C vs = Ok v"
      using kv T(4) by (auto simp: mem base_repr_def)
    have ok: "row_ok s pk vs" using T(1) pk(1) by (simp add: table_wf_def)
    then have "decode_row C v = Ok vs" using encode_rowE [OF T(3), of vs] pk(3) row_okD(3) [OF ok T(2)] by (metis res.inject(1))
    moreover have "decode_sortable (pk_kind_of s) k = Ok pk" using decode_sortable_key [OF pk(2)] row_okD [OF ok T(2)] by simp
    ultimately show ?thesis using pk by (intro exI [of _ "\<lparr>row_pk = pk, row_values = vs\<rparr>"]) (simp add: decode_base_row_def)
  qed
  define f where "f kv = (case decode_base_row C (pk_kind_of s) kv of Ok x \<Rightarrow> x | _ \<Rightarrow> undefined)" for kv
  have f: "decode_base_row C (pk_kind_of s) kv = Ok (f kv)" "f kv \<in> rows_in T" "sortable_key (row_pk (f kv)) = Some (fst kv)" if "kv \<in> set xs" for kv
    using dec [of "fst kv" "snd kv"] that by (auto simp: f_def)
  have "distinct (map (\<lambda>kv. sortable_key (row_pk (f kv))) xs)"
  proof -
    have "map (\<lambda>kv. sortable_key (row_pk (f kv))) xs = map Some (map fst xs)" using f(3) by simp
    then show ?thesis using range_of_distinct [OF range] by (simp only:) (simp add: distinct_map comp_inj_on flip: map_map)
  qed
  then have "distinct (map f xs)" using distinct_map [of "\<lambda>x. sortable_key (row_pk x)" "map f xs"] by (simp add: o_def)
  moreover have "set (map f xs) = {x \<in> rows_in T. \<exists>k. sortable_key (row_pk x) = Some k \<and> in_range lo hi k}"
  proof (intro set_eqI iffI)
    fix x assume "x \<in> set (map f xs)"
    then obtain kv where kv: "kv \<in> set xs" "x = f kv" by auto
    then have "in_range lo hi (fst kv)" using mem [of "fst kv" "snd kv"] by simp
    then show "x \<in> {x \<in> rows_in T. \<exists>k. sortable_key (row_pk x) = Some k \<and> in_range lo hi k}" using kv f(2,3) by auto
  next
    fix x assume x: "x \<in> {x \<in> rows_in T. \<exists>k. sortable_key (row_pk x) = Some k \<and> in_range lo hi k}"
    then obtain k where k: "sortable_key (row_pk x) = Some k" "in_range lo hi k" by blast
    have ok: "row_ok s (row_pk x) (row_values x)" using table_wf_row [OF T(1)] x by simp
    obtain bs where bs: "encode_row C (row_values x) = Ok bs" "decode_row C bs = Ok (row_values x)"
      using encode_rowE [OF T(3) row_okD(3) [OF ok T(2)]] by blast
    then have "view r (base_table s) k = Some bs" using T(4) x k by (auto simp: base_repr_def rows_in_def)
    then have "(k, bs) \<in> set xs" using k(2) by (simp add: mem)
    moreover have "f (k, bs) = x"
      using decode_sortable_key [OF k(1)] row_okD [OF ok T(2)] bs(2) by (simp add: f_def decode_base_row_def)
    ultimately show "x \<in> set (map f xs)" by force
  qed
  moreover have "traverse (decode_base_row C (pk_kind_of s)) xs = Ok (map f xs)" using f(1) by (rule traverse_Ok)
  moreover have "list_all2 (\<lambda>(k, v) x. sortable_key (row_pk x) = Some k) xs (map f xs)"
    using f(3) by (auto simp: list_all2_conv_all_nth) (metis fst_conv nth_mem)
  ultimately show ?thesis by blast
qed

lemma scan_all_in_view:
  assumes "holds C s r T"
  obtains out where "scan_all_in C ops r s = Ok out" "distinct out" "set out = rows_in T"
proof -
  have T: "table_wf s T" "schema_ok s" using assms by (simp_all add: table_repr_def)
  obtain xs where xs: "s_range ops r (base_table s) Unbounded Unbounded = Ok xs" using assms rangeE base_ok [OF T(2)] by metis
  obtain out where out: "traverse (decode_base_row C (pk_kind_of s)) xs = Ok out" "distinct out"
      "set out = {x \<in> rows_in T. \<exists>k. sortable_key (row_pk x) = Some k \<and> in_range Unbounded Unbounded k}"
    using decode_base_rows_view [OF assms xs] by blast
  obtain c where "primary_key_column s = Ok c" "cs_kind c = pk_kind_of s" using schema_pk [OF T(2)] by metis
  moreover have "set out = rows_in T"
    unfolding out(3) using row_okD(4) [OF table_wf_row [OF T(1)] T(2)] by (auto simp: in_range_def)
  ultimately show ?thesis using that [of out] xs out(1,2) by (simp add: scan_all_in_def)
qed

text \<open>Resolving the entries of a range of an index table.\<close>

lemma resolve_index_rows_view:
  assumes "holds C s r T" "col \<in> set (td_indexed_columns s)" "s_range ops r (index_table s col) lo hi = Ok xs"
  shows "\<exists>out. resolve_index_rows_in C ops r s col xs = Ok out \<and> distinct out \<and>
    set out = {x \<in> rows_in T. \<exists>k. entry_key s col x = Some k \<and> in_range lo hi k}"
proof -
  have T: "table_wf s T" "schema_ok s" "view r (index_table s col) = flags (index_entries s T col)"
    using assms(1,2) by (simp_all add: table_repr_def)
  have range: "range_of (view r (index_table s col)) lo hi xs" using assms range_Ok_iff index_ok T(2) by blast
  have mem: "(k, v) \<in> set xs \<longleftrightarrow> in_range lo hi k \<and> k \<in> index_entries s T col \<and> v = []" for k v
    using range_of_mem [OF range] T(3) by simp
  obtain c where c: "ts_column s col = Some c" using indexed_column [OF T(2) assms(2)] by blast
  obtain pkc where pkc: "primary_key_column s = Ok pkc" "cs_kind pkc = pk_kind_of s" using schema_pk [OF T(2)] by metis
  have entry: "resolve_entry C ops r s col (cs_kind c) (pk_kind_of s) (k, v) out = Ok (out @ [x])"
    if x: "x \<in> rows_in T" "entry_key s col x = Some k" for k v out x
  proof -
    have ok: "row_ok s (row_pk x) (row_values x)" using table_wf_row [OF T(1) x(1)] .
    obtain y where y: "indexable x s col = Some y" "index_key y (row_pk x) = Ok k"
      using x(2) by (auto simp: entry_key_def split: option.splits res.splits)
    have "pk_from_index_key (cs_kind c) (pk_kind_of s) k = Ok (row_pk x)"
      using pk_from_index_key_Ok [OF y(2)] indexable_Some [OF ok T(2) assms(2) y(1) c] row_okD [OF ok T(2)] by simp
    moreover have "get_in C ops r s (row_pk x) = Ok (Some x)"
      using get_in_view [OF assms(1) row_okD(1,2) [OF ok T(2)]] x(1) by (simp add: rows_in_def)
    ultimately show ?thesis using y by (simp add: resolve_entry_def)
  qed
  have loop: "\<exists>out. for_res (resolve_entry C ops r s col (cs_kind c) (pk_kind_of s)) ys acc = Ok (acc @ out) \<and>
      list_all2 (\<lambda>kv x. x \<in> rows_in T \<and> entry_key s col x = Some (fst kv)) ys out" if "set ys \<subseteq> set xs" for ys acc
    using that
  proof (induction ys arbitrary: acc)
    case (Cons kv ys)
    then have "fst kv \<in> index_entries s T col" using mem [of "fst kv" "snd kv"] by simp
    then obtain x where x: "x \<in> rows_in T" "entry_key s col x = Some (fst kv)" by (auto simp: index_entries_def)
    then have "resolve_entry C ops r s col (cs_kind c) (pk_kind_of s) kv acc = Ok (acc @ [x])" using entry [OF x, of "snd kv"] by simp
    moreover obtain out where "for_res (resolve_entry C ops r s col (cs_kind c) (pk_kind_of s)) ys (acc @ [x]) = Ok ((acc @ [x]) @ out)"
        "list_all2 (\<lambda>kv x. x \<in> rows_in T \<and> entry_key s col x = Some (fst kv)) ys out"
      using Cons.IH [of "acc @ [x]"] Cons.prems by auto
    ultimately show ?case using x by (intro exI [of _ "x # out"]) simp
  qed simp
  obtain out where out: "for_res (resolve_entry C ops r s col (cs_kind c) (pk_kind_of s)) xs [] = Ok out"
      "list_all2 (\<lambda>kv x. x \<in> rows_in T \<and> entry_key s col x = Some (fst kv)) xs out" using loop [of xs "[]"] by auto
  from out(2) have keys: "map (entry_key s col) out = map (\<lambda>kv. Some (fst kv)) xs" by (induction xs out rule: list_all2_induct) auto
  have "distinct (map (\<lambda>kv. Some (fst kv)) xs)" using range_of_distinct [OF range] by (auto simp: distinct_map inj_on_def)
  then have "distinct out" using keys distinct_map by metis
  moreover have "set out = {x \<in> rows_in T. \<exists>k. entry_key s col x = Some k \<and> in_range lo hi k}"
  proof (intro set_eqI iffI)
    fix x assume "x \<in> set out"
    then obtain kv where "kv \<in> set xs" "x \<in> rows_in T" "entry_key s col x = Some (fst kv)"
      using list_all2_right [OF out(2)] by blast
    then show "x \<in> {x \<in> rows_in T. \<exists>k. entry_key s col x = Some k \<and> in_range lo hi k}" using mem [of "fst kv" "snd kv"] by auto
  next
    fix x assume x: "x \<in> {x \<in> rows_in T. \<exists>k. entry_key s col x = Some k \<and> in_range lo hi k}"
    then obtain k where k: "entry_key s col x = Some k" "in_range lo hi k" by blast
    then have "(k, []) \<in> set xs" using x by (auto simp: mem index_entries_def)
    then have "Some k \<in> set (map (\<lambda>kv. Some (fst kv)) xs)" by force
    then obtain y where y: "y \<in> set out" "entry_key s col y = Some k" unfolding keys [symmetric] by auto
    then have "y \<in> rows_in T" using list_all2_right [OF out(2)] by blast
    then have "row_pk y = row_pk x"
      using entry_key_inject [OF _ _ T(2) assms(2) y(2) k(1)] table_wf_row [OF T(1)] x by simp
    then show "x \<in> set out" using y(1) rows_in_pk_eq \<open>y \<in> rows_in T\<close> x by blast
  qed
  ultimately show ?thesis using out(1) c pkc by (auto simp: resolve_index_rows_in_def)
qed

lemma index_lookup_eq_view:
  assumes "holds C s r T" "col \<in> set (td_indexed_columns s)" "ts_column s col = Some c"
    and v: "kind_of v = cs_kind c" "value_ok v" "sortable_key v = Some kv"
  obtains out where "index_lookup_eq_in C ops r s col v = Ok out" "distinct out" "set out = {x \<in> rows_in T. indexable x s col = Some v}"
proof -
  have T: "table_wf s T" "schema_ok s" using assms(1) by (simp_all add: table_repr_def)
  obtain xs where xs: "s_range ops r (index_table s col) (Included kv) (prefix_hi (byte_successor kv)) = Ok xs"
    using assms(1) rangeE index_ok [OF T(2) assms(2)] by metis
  obtain out where out: "resolve_index_rows_in C ops r s col xs = Ok out" "distinct out"
      "set out = {x \<in> rows_in T. \<exists>k. entry_key s col x = Some k \<and> in_range (Included kv) (prefix_hi (byte_successor kv)) k}"
    using resolve_index_rows_view [OF assms(1,2) xs] by blast
  have "(\<exists>k. entry_key s col x = Some k \<and> prefix kv k) \<longleftrightarrow> indexable x s col = Some v" if x: "x \<in> rows_in T" for x
  proof -
    have ok: "row_ok s (row_pk x) (row_values x)" using table_wf_row [OF T(1) x] .
    show ?thesis
    proof
      assume "\<exists>k. entry_key s col x = Some k \<and> prefix kv k"
      then obtain k y where k: "prefix kv k" "indexable x s col = Some y" "index_key y (row_pk x) = Ok k"
        by (auto simp: entry_key_def split: option.splits res.splits)
      then obtain ky b where "sortable_key y = Some ky" "k = ky @ b" by (auto simp: index_key_Ok)
      then have "v = y" using sortable_key_prefix [OF v(3)] k(1) v(1,2) indexable_Some [OF ok T(2) assms(2) k(2) assms(3)] by auto
      then show "indexable x s col = Some v" using k(2) by simp
    next
      assume i: "indexable x s col = Some v"
      then obtain k where "index_key v (row_pk x) = Ok k" "entry_key s col x = Some k" using entry_key_row(1) [OF ok T(2) assms(2)] by blast
      then show "\<exists>k. entry_key s col x = Some k \<and> prefix kv k" using v(3) by (auto simp: index_key_Ok)
    qed
  qed
  then have "set out = {x \<in> rows_in T. indexable x s col = Some v}" unfolding out(3) in_range_prefix by blast
  moreover have "index_lookup_eq_in C ops r s col v = Ok out"
    using v(3) xs out(1) by (simp add: index_lookup_eq_in_def rel_prefix_upper_bound_def prefix_hi_def split: option.splits)
  ultimately show ?thesis using that out(2) by blast
qed

end

end
