(* ===== verification/Rel_Plan.thy ===== *)
theory Rel_Plan
  imports Rel_Query Rel_Repr
begin

text \<open>
  The planner is sound: whichever access path \<open>plan\<close> chooses, the candidate rows are rows of the table, each once, and
  every row that satisfies the filters is among them; scans and primary-key ranges yield them in key order.
\<close>

section \<open>Filters and values\<close>

text \<open>Every literal of a filter is a Rust value.\<close>

fun expr_ok :: "expr \<Rightarrow> bool" where
  "expr_ok (ECmp c op v) = value_ok v"
| "expr_ok (EIn c vs) = (\<forall>v\<in>set vs. value_ok v)"
| "expr_ok (EAnd v) = (\<forall>e\<in>set v. expr_ok e)"
| "expr_ok (EOr v) = (\<forall>e\<in>set v. expr_ok e)"
| "expr_ok (ENot e) = expr_ok e"
| "expr_ok _ = True"

lemma conj_of_props:
  "eval lower s x e \<Longrightarrow> c \<in> set (conj_of e) \<Longrightarrow> eval lower s x c" "expr_ok e \<Longrightarrow> c \<in> set (conj_of e) \<Longrightarrow> expr_ok c"
  by (induction e rule: conj_of.induct) auto

lemma conjuncts_props:
  "\<forall>f\<in>set fs. eval lower s x f \<Longrightarrow> c \<in> set (conjuncts fs) \<Longrightarrow> eval lower s x c" "\<forall>f\<in>set fs. expr_ok f \<Longrightarrow> c \<in> set (conjuncts fs) \<Longrightarrow> expr_ok c"
  by (auto simp: conjuncts_def intro: conj_of_props)

lemma resolve_column: "ts_column s c = Some d \<Longrightarrow> non_null (resolve s x c) = indexable x s c"
  by (simp add: resolve_def non_null_def indexable_def)

lemma indexable_pk:
  assumes "row_ok s (row_pk x) (row_values x)" "schema_ok s"
  shows "indexable x s (td_primary_key s) = Some (row_pk x)"
  using assms validate_value(2) [of s "row_pk x" "row_values x"] by (simp add: indexable_def row_get_def row_ok_def)

lemma usable_key_iff: "usable_key k v \<longleftrightarrow> kind_of v = k \<and> sortable_key v \<noteq> None"
  by (rule usable_key_code)

lemma compare_equal:
  assumes "compare_values a b = Some Equal" "kind_of a = kind_of b" "sortable_key a \<noteq> None" "sortable_key b \<noteq> None" "value_ok a" "value_ok b"
  shows "a = b"
proof -
  obtain ka kb where k: "sortable_key a = Some ka" "sortable_key b = Some kb" using assms(3,4) by blast
  then have "compare_values a b = Some (cmp ka kb)" using assms(2) by (intro sortable_key_cmp) (simp_all add: kind_of_name)
  then have "cmp ka kb = Equal" using assms(1) by simp
  then have "ka = kb" by simp
  then show ?thesis using sortable_key_inject k assms by blast
qed

text \<open>The value a row has in a keyable column, as the planner relies on it.\<close>

definition keyed_as :: "table_schema \<Rightarrow> string \<Rightarrow> column_kind \<Rightarrow> row \<Rightarrow> bool" where
  "keyed_as s c k x \<longleftrightarrow> (\<forall>v. indexable x s c = Some v \<longrightarrow> kind_of v = k \<and> value_ok v \<and> sortable_key v \<noteq> None)"

lemma keyed_pk: "row_ok s (row_pk x) (row_values x) \<Longrightarrow> schema_ok s \<Longrightarrow> keyed_as s (td_primary_key s) (pk_kind_of s) x"
  using row_okD [of s "row_pk x" "row_values x"] by (simp add: keyed_as_def indexable_pk)

lemma keyed_index:
  "row_ok s (row_pk x) (row_values x) \<Longrightarrow> schema_ok s \<Longrightarrow> c \<in> set (td_indexed_columns s) \<Longrightarrow> ts_column s c = Some d \<Longrightarrow> keyed_as s c (cs_kind d) x"
  using indexable_Some [of s x c] by (auto simp: keyed_as_def)

lemma eval_eq:
  assumes "eval lower s x (ECmp c OpEq v)" "ts_column s c = Some d" "keyed_as s c k x" "usable_key k v" "value_ok v"
  shows "indexable x s c = Some v"
proof -
  have "v \<noteq> Null" using assms(4) by (auto simp: usable_key_iff sortable_key_def)
  then obtain u where u: "indexable x s c = Some u" "compare_values u v = Some Equal"
    using assms(1,2) by (auto simp: resolve_column op_holds_def Let_def split: option.splits)
  then have "u = v" using assms(3-5) by (intro compare_equal) (auto simp: keyed_as_def usable_key_iff)
  then show ?thesis using u(1) by simp
qed

lemma eval_in:
  assumes "eval lower s x (EIn c vs)" "ts_column s c = Some d" "keyed_as s c k x" "list_all (usable_key k) vs" "\<forall>v\<in>set vs. value_ok v"
  shows "\<exists>v\<in>set vs. indexable x s c = Some v"
proof -
  obtain u v where u: "indexable x s c = Some u" "v \<in> set vs" "compare_values u v = Some Equal"
    using assms(1,2) by (auto simp: resolve_column list_ex_iff split: option.splits)
  then have "u = v" using assms(3-5) by (intro compare_equal) (auto simp: keyed_as_def usable_key_iff list_all_iff)
  then show ?thesis using u by blast
qed

lemma dedup_from_set:
  assumes "\<forall>v\<in>set vs. kind_of v = k \<and> value_ok v \<and> sortable_key v \<noteq> None"
  shows "set (dedup_from seen vs) = {v \<in> set vs. the (sortable_key v) \<notin> set seen} \<and> distinct (dedup_from seen vs)"
  using assms
proof (induction vs arbitrary: seen)
  case (Cons v vs)
  then obtain kv where kv: "sortable_key v = Some kv" "kind_of v = k" "value_ok v" by auto
  have same: "u = v" if "u \<in> set vs" "the (sortable_key u) = kv" for u
    using that Cons.prems kv sortable_key_inject [of u kv v] by auto
  show ?case
  proof (cases "kv \<in> set seen")
    case True
    then show ?thesis using Cons kv by auto
  next
    case False
    have "set (dedup_from (kv # seen) vs) = {u \<in> set vs. the (sortable_key u) \<notin> set (kv # seen)} \<and> distinct (dedup_from (kv # seen) vs)"
      using Cons by simp
    then show ?thesis using False kv same by auto
  qed
qed simp

lemma dedup_values_set:
  assumes "list_all (usable_key k) vs" "\<forall>v\<in>set vs. value_ok v"
  shows "set (dedup_values vs) = set vs" "distinct (dedup_values vs)"
  using dedup_from_set [of vs k "[]"] assms by (auto simp: dedup_values_def list_all_iff usable_key_iff)

section \<open>Ranges\<close>

lemma tighter_either: "tighter a b lower = a \<or> tighter a b lower = b"
  by (auto simp: tighter_def split: option.splits ordering.splits bound.splits)

lemma range_fold:
  assumes "\<forall>e\<in>set es. eval lower s x e \<and> expr_ok e" "ts_column s c = Some d" "keyed_as s c k x" "indexable x s c = Some v"
    and "bound_key_ok k lo \<and> val_lo_ok lo v" "bound_key_ok k hi \<and> val_hi_ok hi v"
  shows "case fold (range_step c k) es (lo, hi) of (lo, hi) \<Rightarrow> bound_key_ok k lo \<and> val_lo_ok lo v \<and> bound_key_ok k hi \<and> val_hi_ok hi v"
  using assms(1,5,6)
proof (induction es arbitrary: lo hi)
  case (Cons e es)
  have lo: "bound_key_ok k (tighter lo b True) \<and> val_lo_ok (tighter lo b True) v" if "bound_key_ok k b \<and> val_lo_ok b v" for b
    using tighter_either [of lo b True] that Cons.prems(2) by auto
  have hi: "bound_key_ok k (tighter hi b False) \<and> val_hi_ok (tighter hi b False) v" if "bound_key_ok k b \<and> val_hi_ok b v" for b
    using tighter_either [of hi b False] that Cons.prems(3) by auto
  have "case range_step c k e (lo, hi) of (lo, hi) \<Rightarrow> bound_key_ok k lo \<and> val_lo_ok lo v \<and> bound_key_ok k hi \<and> val_hi_ok hi v"
  proof (cases "\<exists>op u. e = ECmp c op u \<and> usable_key k u")
    case False
    then show ?thesis using Cons.prems(2,3) by (auto simp: range_step_def split: expr.splits)
  next
    case True
    then obtain op u where e: "e = ECmp c op u" "usable_key k u" by blast
    have u: "kind_of u = k" "sortable_key u \<noteq> None" "value_ok u" "u \<noteq> Null" using e Cons.prems(1) by (auto simp: usable_key_iff sortable_key_def)
    obtain ord where ord: "compare_values v u = Some ord" "op_holds op ord"
      using Cons.prems(1) e assms(2,4) u(4) by (auto simp: resolve_column Let_def split: option.splits)
    have "bound_key_ok k (Included u)" "bound_key_ok k (Excluded u)" using u by (simp_all add: bound_key_ok_def)
    then show ?thesis
      using e Cons.prems(2,3) lo [of "Included u"] lo [of "Excluded u"] hi [of "Included u"] hi [of "Excluded u"] ord
      by (cases op; cases ord) (simp_all add: range_step_def op_holds_def val_lo_ok_def val_hi_ok_def)
  qed
  then show ?case using Cons.IH Cons.prems(1) by (cases "range_step c k e (lo, hi)") auto
qed simp

lemma range_bounds_covers:
  assumes "range_bounds es c k = Some (lo, hi)" "\<forall>e\<in>set es. eval lower s x e \<and> expr_ok e" "ts_column s c = Some d" "keyed_as s c k x" "indexable x s c = Some v"
  shows "val_lo_ok lo v" "val_hi_ok hi v"
  using range_fold [OF assms(2-5), of Unbounded Unbounded] assms(1)
  by (auto simp: range_bounds_def Let_def bound_key_ok_def val_lo_ok_def val_hi_ok_def split: if_splits prod.splits)

lemma range_bounds_keys:
  assumes "range_bounds es c k = Some (lo, hi)" "\<forall>e\<in>set es. expr_ok e"
  shows "bound_key_ok k lo" "bound_key_ok k hi"
proof -
  have "case fold (range_step c k) es (lo, hi) of (lo, hi) \<Rightarrow> bound_key_ok k lo \<and> bound_key_ok k hi"
    if "bound_key_ok k lo \<and> bound_key_ok k hi" "\<forall>e\<in>set es. expr_ok e" for es lo hi
    using that
  proof (induction es arbitrary: lo hi)
    case (Cons e es)
    have "bound_key_ok k (tighter a b l)" if "bound_key_ok k a" "bound_key_ok k b" for a b l using that tighter_either [of a b l] by auto
    then have t: "bound_key_ok k (tighter a (Included u) l)" "bound_key_ok k (tighter a (Excluded u) l)"
      if "bound_key_ok k a" "usable_key k u" "value_ok u" for a u l
      using that by (simp_all add: bound_key_ok_def [of k "Included _"] bound_key_ok_def [of k "Excluded _"] usable_key_iff)
    have "case range_step c k e (lo, hi) of (lo, hi) \<Rightarrow> bound_key_ok k lo \<and> bound_key_ok k hi"
      using Cons.prems by (auto simp: range_step_def t split: expr.splits cmp_op.splits)
    then show ?case using Cons.IH Cons.prems(2) by (cases "range_step c k e (lo, hi)") auto
  qed simp
  from this [of Unbounded Unbounded es] show "bound_key_ok k lo" "bound_key_ok k hi"
    using assms by (auto simp: range_bounds_def Let_def bound_key_ok_def [of k Unbounded] split: if_splits prod.splits)
qed

lemma range_bounds_value:
  assumes "range_bounds es c k = Some b" "\<forall>e\<in>set es. eval lower s x e" "ts_column s c = Some d"
  shows "indexable x s c \<noteq> None"
proof
  assume none: "indexable x s c = None"
  have "range_step c k e (Unbounded, Unbounded) = (Unbounded, Unbounded)" if "e \<in> set es" for e
  proof (cases "\<exists>op u. e = ECmp c op u \<and> usable_key k u")
    case True
    then obtain op u where "e = ECmp c op u" "usable_key k u" by blast
    moreover from this have "u \<noteq> Null" by (auto simp: usable_key_iff sortable_key_def)
    ultimately show ?thesis using assms(2,3) that none by (auto simp: resolve_column Let_def split: cmp_op.splits)
  qed (auto simp: range_step_def split: expr.splits)
  then have "fold (range_step c k) es (Unbounded, Unbounded) = (Unbounded, Unbounded)" by (induction es) auto
  then show False using assms(1) by (simp add: range_bounds_def)
qed

section \<open>Candidates\<close>

definition covers :: "(nat \<Rightarrow> nat list) \<Rightarrow> table_schema \<Rightarrow> rows \<Rightarrow> expr list \<Rightarrow> row list \<Rightarrow> bool" where
  "covers lower s T fs rows \<longleftrightarrow> distinct rows \<and> set rows \<subseteq> rows_in T \<and>
    (\<forall>x\<in>rows_in T. (\<forall>f\<in>set fs. eval lower s x f) \<longrightarrow> x \<in> set rows)"

definition key_sorted :: "row list \<Rightarrow> bool" where
  "key_sorted rows \<longleftrightarrow> sorted_wrt (<) (map (\<lambda>x. the (sortable_key (row_pk x))) rows)"

definition key_ordered :: "access \<Rightarrow> bool" where
  "key_ordered a \<longleftrightarrow> (case a of Scan \<Rightarrow> True | PkRange _ _ \<Rightarrow> True | _ \<Rightarrow> False)"

lemma first_some_Some: "first_some f xs = Some y \<Longrightarrow> \<exists>x\<in>set xs. f x = Some y"
  by (induction xs) (auto split: option.splits)

lemma gather_options:
  assumes "\<And>x. x \<in> set xs \<Longrightarrow> g x = Ok (h x)"
  shows "for_res (\<lambda>x rows. bind_res (g x) (\<lambda>y. Ok (case y of Some r \<Rightarrow> rows @ [Ok r] | None \<Rightarrow> rows))) xs acc =
    Ok (acc @ map Ok (List.map_filter h xs))"
  using assms by (induction xs arbitrary: acc) (auto simp: List.map_filter_def split: option.splits)

lemma map_filter_mem: "x \<in> set (List.map_filter h xs) \<longleftrightarrow> (\<exists>y\<in>set xs. h y = Some x)"
  by (auto simp: List.map_filter_def image_iff split: option.splits)

lemma gather_lists:
  assumes "\<And>x. x \<in> set xs \<Longrightarrow> g x = Ok (h x)"
  shows "for_res (\<lambda>x rows. bind_res (g x) (\<lambda>ys. Ok (rows @ map Ok ys))) xs acc = Ok (acc @ map Ok (concat (map h xs)))"
  using assms by (induction xs arbitrary: acc) auto

lemma traverse_map_iff: "traverse f xs = Ok ys \<longleftrightarrow> map f xs = map Ok ys"
  by (induction xs arbitrary: ys) (auto simp: bind_res_Ok_iff)

context rel_read
begin

lemma pk_get_view:
  assumes "holds C s r T" "\<forall>pk\<in>set pks. usable_key (pk_kind_of s) pk \<and> value_ok pk" "distinct pks"
  shows "\<exists>rows. candidates C ops r s (PkGet pks) = Ok (map Ok rows) \<and> distinct rows \<and> set rows = {x \<in> rows_in T. row_pk x \<in> set pks}"
proof -
  let ?h = "\<lambda>pk. map_option (\<lambda>vs. \<lparr>row_pk = pk, row_values = vs\<rparr>) (T pk)"
  have "get_in C ops r s pk = Ok (?h pk)" if "pk \<in> set pks" for pk using get_in_view [OF assms(1)] assms(2) that by (auto simp: usable_key_iff)
  then have "candidates C ops r s (PkGet pks) = Ok (map Ok (List.map_filter ?h pks))" by (simp add: candidates_def gather_options)
  moreover have "set (List.map_filter ?h pks) = {x \<in> rows_in T. row_pk x \<in> set pks}"
  proof (intro set_eqI)
    fix x
    have "?h pk = Some x \<longleftrightarrow> pk = row_pk x \<and> x \<in> rows_in T" for pk by (cases "T pk") (auto simp: rows_in_def row_eq_iff)
    then show "x \<in> set (List.map_filter ?h pks) \<longleftrightarrow> x \<in> {x \<in> rows_in T. row_pk x \<in> set pks}" unfolding map_filter_mem by auto
  qed
  moreover have "distinct (List.map_filter ?h pks)"
  proof -
    have "map row_pk (List.map_filter ?h pks) = filter (\<lambda>pk. T pk \<noteq> None) pks" by (induction pks) (auto simp: List.map_filter_def)
    then have "distinct (map row_pk (List.map_filter ?h pks))" using assms(3) by simp
    then show ?thesis by (rule distinct_map [THEN iffD1, THEN conjunct1])
  qed
  ultimately show ?thesis by blast
qed

lemma index_eq_view:
  assumes "holds C s r T" "col \<in> set (td_indexed_columns s)" "ts_column s col = Some c"
    and "\<forall>v\<in>set vs. usable_key (cs_kind c) v \<and> value_ok v" "distinct vs"
  shows "\<exists>rows. candidates C ops r s (IndexEq col vs) = Ok (map Ok rows) \<and> distinct rows \<and>
    set rows = {x \<in> rows_in T. \<exists>v\<in>set vs. indexable x s col = Some v}"
proof -
  define h where "h v = (case index_lookup_eq_in C ops r s col v of Ok xs \<Rightarrow> xs | _ \<Rightarrow> [])" for v
  have h: "index_lookup_eq_in C ops r s col v = Ok (h v)" "distinct (h v)" "set (h v) = {x \<in> rows_in T. indexable x s col = Some v}" if mem: "v \<in> set vs" for v
  proof -
    obtain kv where kv: "sortable_key v = Some kv" "kind_of v = cs_kind c" "value_ok v" using assms(4) mem by (auto simp: usable_key_iff)
    obtain out where out: "index_lookup_eq_in C ops r s col v = Ok out" "distinct out" "set out = {x \<in> rows_in T. indexable x s col = Some v}"
      by (rule index_lookup_eq_view [OF assms(1-3) kv(2,3,1)])
    then show "index_lookup_eq_in C ops r s col v = Ok (h v)" "distinct (h v)" "set (h v) = {x \<in> rows_in T. indexable x s col = Some v}"
      by (simp_all add: h_def)
  qed
  have "candidates C ops r s (IndexEq col vs) = Ok (map Ok (concat (map h vs)))" by (simp add: candidates_def gather_lists h(1))
  moreover have "distinct (concat (map h ys))" if "set ys \<subseteq> set vs" "distinct ys" for ys
    using that by (induction ys) (auto simp: h(2,3))
  then have "distinct (concat (map h vs))" using assms(5) by blast
  moreover have "set (concat (map h vs)) = {x \<in> rows_in T. \<exists>v\<in>set vs. indexable x s col = Some v}" using h(3) by auto
  ultimately show ?thesis by blast
qed

lemma base_scan_view:
  assumes "holds C s r T" "s_scan ops r (base_table s) lo hi = Ok raw"
  shows "\<exists>rows. decode_base_rows C s raw = Ok (map Ok rows) \<and> distinct rows \<and> key_sorted rows \<and>
    set rows = {x \<in> rows_in T. \<exists>k. sortable_key (row_pk x) = Some k \<and> in_range lo hi k}"
proof -
  have s: "schema_ok s" using assms(1) by (simp add: table_repr_def)
  obtain xs where xs: "s_range ops r (base_table s) lo hi = Ok xs" "range_of (view r (base_table s)) lo hi xs"
    using assms(1) rangeE base_ok [OF s] by blast
  have raw: "raw = map Ok xs" using scan_range [OF _ base_ok [OF s] xs(1)] assms by simp
  obtain rows where rows: "traverse (decode_base_row C (pk_kind_of s)) xs = Ok rows" "distinct rows"
      "list_all2 (\<lambda>(k, v) x. sortable_key (row_pk x) = Some k) xs rows"
      "set rows = {x \<in> rows_in T. \<exists>k. sortable_key (row_pk x) = Some k \<and> in_range lo hi k}"
    using decode_base_rows_view [OF assms(1) xs(1)] by blast
  obtain c where c: "primary_key_column s = Ok c" "cs_kind c = pk_kind_of s" using schema_pk [OF s] by metis
  have "decode_base_rows C s raw = Ok (map Ok rows)"
    using c rows(1) raw by (simp add: decode_base_rows_def traverse_map_iff o_def)
  moreover from rows(3) have "map (\<lambda>x. the (sortable_key (row_pk x))) rows = map fst xs" by (induction rule: list_all2_induct) auto
  then have "key_sorted rows" using xs(2) by (simp add: key_sorted_def range_of_def)
  ultimately show ?thesis using rows(2,4) by blast
qed

lemma in_range_bounds:
  assumes "row_ok s (row_pk x) (row_values x)" "schema_ok s" "kind_of v = k" "value_ok v" "sortable_key v = Some kv"
    and "bound_key_ok k lo" "bound_key_ok k hi" "val_lo_ok lo v" "val_hi_ok hi v" "lower_bound_bytes lo = Ok l" "upper_bound_bytes hi = Ok u"
  shows "in_range l u (kv @ b)"
proof -
  have "lo_ok l (kv @ b)" using lower_bound_bytes_covers [OF assms(5,4), of lo b] assms(3,6,8,10) by auto
  moreover have "hi_ok u (kv @ b)" using upper_bound_bytes_covers [OF assms(5,4), of hi b] assms(3,7,9,11) by auto
  ultimately show ?thesis by (simp add: in_range_def)
qed

theorem candidates_view:
  assumes "holds C s r T" "\<forall>f\<in>set fs. expr_ok f"
  shows "\<exists>a rows. plan s fs = Ok a \<and> candidates C ops r s a = Ok (map Ok rows) \<and> covers lower s T fs rows \<and> (key_ordered a \<longrightarrow> key_sorted rows)"
proof -
  let ?cs = "conjuncts fs" and ?pk = "td_primary_key s"
  have T: "table_wf s T" "schema_ok s" "inv r" using assms(1) by (simp_all add: table_repr_def)
  obtain pkc where pkc: "primary_key_column s = Ok pkc" "cs_kind pkc = pk_kind_of s" "ts_column s ?pk = Some pkc" using schema_pk [OF T(2)] by metis
  have ok: "row_ok s (row_pk x) (row_values x)" if "x \<in> rows_in T" for x using table_wf_row [OF T(1) that] .
  have lit: "expr_ok e" if "e \<in> set ?cs" for e using conjuncts_props(2) [OF assms(2) that] .
  have evs: "\<forall>e\<in>set ?cs. eval lower s x e \<and> expr_ok e" if "\<forall>f\<in>set fs. eval lower s x f" for x
    using conjuncts_props(1) [OF that] lit by blast
  have pks: "indexable x s ?pk = Some (row_pk x)" "keyed_as s ?pk (pk_kind_of s) x" if "x \<in> rows_in T" for x
    using indexable_pk [OF ok T(2)] keyed_pk [OF ok T(2)] that by blast+
  consider (pk) a e where "e \<in> set ?cs" "pk_access s (pk_kind_of s) e = Some a" "plan s fs = Ok a"
    | (ixeq) a e where "e \<in> set ?cs" "index_eq_access s e = Some a" "plan s fs = Ok a"
    | (pkrange) lo hi where "range_bounds ?cs ?pk (pk_kind_of s) = Some (lo, hi)" "plan s fs = Ok (PkRange lo hi)"
    | (ixprefix) a e where "e \<in> set ?cs" "index_prefix_access s e = Some a" "plan s fs = Ok a"
    | (ixrange) a c where "c \<in> set (td_indexed_columns s)" "index_range_access s ?cs c = Some a" "plan s fs = Ok a"
    | (scan) "plan s fs = Ok Scan"
    using pkc by (fastforce simp: plan_def Let_def dest!: first_some_Some split: option.splits)
  then show ?thesis
  proof cases
    case pk
    then obtain vs where vs: "a = PkGet vs" "\<forall>v\<in>set vs. usable_key (pk_kind_of s) v \<and> value_ok v" "distinct vs"
        "\<And>x. x \<in> rows_in T \<Longrightarrow> eval lower s x e \<Longrightarrow> row_pk x \<in> set vs"
    proof -
      consider v where "e = ECmp ?pk OpEq v" "usable_key (pk_kind_of s) v" "a = PkGet [v]"
        | us where "e = EIn ?pk us" "list_all (usable_key (pk_kind_of s)) us" "a = PkGet (dedup_values us)"
        using pk(2) by (auto simp: pk_access_def split: expr.splits cmp_op.splits if_splits)
      then show thesis
      proof cases
        case 1
        moreover have "row_pk x = v" if "x \<in> rows_in T" "eval lower s x e" for x
          using eval_eq [of lower s x ?pk v] pks [OF that(1)] that(2) 1 pkc(3) lit [OF pk(1)] by auto
        ultimately show ?thesis using that [of "[v]"] lit [OF pk(1)] by auto
      next
        case 2
        have us: "\<forall>v\<in>set us. value_ok v" using lit [OF pk(1)] 2(1) by simp
        have "row_pk x \<in> set us" if "x \<in> rows_in T" "eval lower s x e" for x
          using eval_in [of lower s x ?pk us] pks [OF that(1)] that(2) 2 pkc(3) us by auto
        then show ?thesis using that [of "dedup_values us"] dedup_values_set [OF 2(2) us] 2(2,3) us by (auto simp: list_all_iff)
      qed
    qed
    obtain rows where "candidates C ops r s a = Ok (map Ok rows)" "distinct rows" "set rows = {x \<in> rows_in T. row_pk x \<in> set vs}"
      using pk_get_view [OF assms(1) vs(2,3)] vs(1) by blast
    then show ?thesis using pk vs(1,4) evs by (intro exI [of _ a] exI [of _ rows]) (auto simp: covers_def key_ordered_def)
  next
    case ixeq
    then obtain c vs d where vs: "a = IndexEq c vs" "c \<in> set (td_indexed_columns s)" "ts_column s c = Some d"
        "\<forall>v\<in>set vs. usable_key (cs_kind d) v \<and> value_ok v" "distinct vs"
        "\<And>x. x \<in> rows_in T \<Longrightarrow> eval lower s x e \<Longrightarrow> \<exists>v\<in>set vs. indexable x s c = Some v"
    proof -
      consider c v d where "e = ECmp c OpEq v" "c \<in> set (td_indexed_columns s)" "ts_column s c = Some d" "usable_key (cs_kind d) v" "a = IndexEq c [v]"
        | c us d where "e = EIn c us" "c \<in> set (td_indexed_columns s)" "ts_column s c = Some d" "list_all (usable_key (cs_kind d)) us" "a = IndexEq c (dedup_values us)"
        using ixeq(2) by (auto simp: index_eq_access_def column_kind_of_def is_indexed_def split: expr.splits cmp_op.splits if_splits option.splits)
      then show thesis
      proof cases
        case 1
        have "indexable x s c = Some v" if "x \<in> rows_in T" "eval lower s x e" for x
          using eval_eq [of lower s x c v] keyed_index [OF ok [OF that(1)] T(2) 1(2,3)] that(2) 1 lit [OF ixeq(1)] by auto
        then show ?thesis using that [of c "[v]" d] 1 lit [OF ixeq(1)] by auto
      next
        case 2
        have us: "\<forall>v\<in>set us. value_ok v" using lit [OF ixeq(1)] 2(1) by simp
        have "\<exists>v\<in>set us. indexable x s c = Some v" if "x \<in> rows_in T" "eval lower s x e" for x
          using eval_in [of lower s x c us] keyed_index [OF ok [OF that(1)] T(2) 2(2,3)] that(2) 2 us by blast
        then show ?thesis using that [of c "dedup_values us" d] dedup_values_set [OF 2(4) us] 2(2-5) us by (auto simp: list_all_iff)
      qed
    qed
    obtain rows where "candidates C ops r s a = Ok (map Ok rows)" "distinct rows" "set rows = {x \<in> rows_in T. \<exists>v\<in>set vs. indexable x s c = Some v}"
      using index_eq_view [OF assms(1) vs(2-5)] vs(1) by blast
    then show ?thesis using ixeq vs(1,6) evs by (intro exI [of _ a] exI [of _ rows]) (auto simp: covers_def key_ordered_def)
  next
    case pkrange
    have keys: "bound_key_ok (pk_kind_of s) lo" "bound_key_ok (pk_kind_of s) hi" using range_bounds_keys [OF pkrange(1)] lit by blast+
    obtain l u where lu: "lower_bound_bytes lo = Ok l" "upper_bound_bytes hi = Ok u" using bound_bytes_Ok [OF keys(1)] bound_bytes_Ok [OF keys(2)] by blast
    obtain xs where "s_range ops r (base_table s) l u = Ok xs" using rangeE [OF T(3) base_ok [OF T(2)]] by blast
    then have raw: "s_scan ops r (base_table s) l u = Ok (map Ok xs)" using scan_range [OF T(3) base_ok [OF T(2)]] by blast
    obtain rows where rows: "decode_base_rows C s (map Ok xs) = Ok (map Ok rows)" "distinct rows" "key_sorted rows"
        "set rows = {x \<in> rows_in T. \<exists>k. sortable_key (row_pk x) = Some k \<and> in_range l u k}"
      using base_scan_view [OF assms(1) raw] by blast
    have "x \<in> set rows" if x: "x \<in> rows_in T" "\<forall>f\<in>set fs. eval lower s x f" for x
    proof -
      obtain k where k: "sortable_key (row_pk x) = Some k" using row_okD(4) [OF ok [OF x(1)] T(2)] by blast
      have "val_lo_ok lo (row_pk x)" "val_hi_ok hi (row_pk x)"
        using range_bounds_covers [OF pkrange(1) evs [OF x(2)] pkc(3) pks(2,1) [OF x(1)]] by blast+
      then have "in_range l u (k @ [])" using in_range_bounds [OF ok [OF x(1)] T(2) _ _ k keys] row_okD [OF ok [OF x(1)] T(2)] lu by blast
      then show ?thesis using rows(4) x(1) k by simp
    qed
    then show ?thesis using pkrange(2) lu raw rows by (intro exI [of _ "PkRange lo hi"] exI [of _ rows]) (auto simp: candidates_def covers_def)
  next
    case ixprefix
    then obtain c p d where c: "e = EPrefix c p" "a = IndexPrefix c p" "c \<in> set (td_indexed_columns s)" "ts_column s c = Some d" "cs_kind d = KStr"
      by (auto simp: index_prefix_access_def column_kind_of_def is_indexed_def split: expr.splits if_splits)
    obtain xs where xs: "s_range ops r (index_table s c) (fst (sortable_str_prefix_bounds p)) (snd (sortable_str_prefix_bounds p)) = Ok xs"
      using rangeE [OF T(3) index_ok [OF T(2) c(3)]] by blast
    obtain rows where rows: "resolve_index_rows_in C ops r s c xs = Ok rows" "distinct rows"
        "set rows = {x \<in> rows_in T. \<exists>k. entry_key s c x = Some k \<and> in_range (fst (sortable_str_prefix_bounds p)) (snd (sortable_str_prefix_bounds p)) k}"
      using resolve_index_rows_view [OF assms(1) c(3) xs] by blast
    have "x \<in> set rows" if x: "x \<in> rows_in T" "\<forall>f\<in>set fs. eval lower s x f" for x
    proof -
      have "eval lower s x (EPrefix c p)" using evs [OF x(2)] ixprefix(1) c(1) by blast
      then obtain t where t: "indexable x s c = Some (Str t)" "prefix p t" using c(4) by (auto simp: resolve_column split: option.splits prop_value.splits)
      obtain k where k: "index_key (Str t) (row_pk x) = Ok k" "entry_key s c x = Some k" using entry_key_row(1) [OF ok [OF x(1)] T(2) c(3) t(1)] by blast
      then obtain kt b where "sortable_key (Str t) = Some kt" "k = kt @ b" by (auto simp: index_key_Ok)
      then show ?thesis using rows(3) x(1) k(2) str_prefix_bounds_cover [OF _ t(2)] by auto
    qed
    then show ?thesis using ixprefix(3) c xs rows
      by (intro exI [of _ a] exI [of _ rows]) (auto simp: candidates_def index_lookup_prefix_in_def covers_def key_ordered_def)
  next
    case ixrange
    then obtain d lo hi where c: "ts_column s c = Some d" "range_bounds ?cs c (cs_kind d) = Some (lo, hi)" "a = IndexRange c lo hi"
      by (auto simp: index_range_access_def column_kind_of_def bind_eq_Some_conv split: option.splits)
    have keys: "bound_key_ok (cs_kind d) lo" "bound_key_ok (cs_kind d) hi" using range_bounds_keys [OF c(2)] lit by blast+
    obtain l u where lu: "lower_bound_bytes lo = Ok l" "upper_bound_bytes hi = Ok u" using bound_bytes_Ok [OF keys(1)] bound_bytes_Ok [OF keys(2)] by blast
    obtain xs where xs: "s_range ops r (index_table s c) l u = Ok xs" using rangeE [OF T(3) index_ok [OF T(2) ixrange(1)]] by blast
    obtain rows where rows: "resolve_index_rows_in C ops r s c xs = Ok rows" "distinct rows"
        "set rows = {x \<in> rows_in T. \<exists>k. entry_key s c x = Some k \<and> in_range l u k}"
      using resolve_index_rows_view [OF assms(1) ixrange(1) xs] by blast
    have "x \<in> set rows" if x: "x \<in> rows_in T" "\<forall>f\<in>set fs. eval lower s x f" for x
    proof -
      have keyed: "keyed_as s c (cs_kind d) x" using keyed_index [OF ok [OF x(1)] T(2) ixrange(1) c(1)] .
      obtain v where v: "indexable x s c = Some v" using range_bounds_value [OF c(2) _ c(1)] evs [OF x(2)] by blast
      then obtain kv where kv: "kind_of v = cs_kind d" "value_ok v" "sortable_key v = Some kv" using keyed by (auto simp: keyed_as_def)
      obtain k b where k: "entry_key s c x = Some k" "k = kv @ b"
        using entry_key_row(1) [OF ok [OF x(1)] T(2) ixrange(1) v] kv(3) by (auto simp: index_key_Ok)
      have "val_lo_ok lo v" "val_hi_ok hi v" using range_bounds_covers [OF c(2) evs [OF x(2)] c(1) keyed v] by blast+
      then show ?thesis using in_range_bounds [OF ok [OF x(1)] T(2) kv keys] lu rows(3) x(1) k by auto
    qed
    then show ?thesis using ixrange(3) c(3) lu xs rows
      by (intro exI [of _ a] exI [of _ rows]) (auto simp: candidates_def index_lookup_range_in_def covers_def key_ordered_def)
  next
    case scan
    obtain xs where "s_range ops r (base_table s) Unbounded Unbounded = Ok xs" using rangeE [OF T(3) base_ok [OF T(2)]] by blast
    then have raw: "s_scan ops r (base_table s) Unbounded Unbounded = Ok (map Ok xs)" using scan_range [OF T(3) base_ok [OF T(2)]] by blast
    obtain rows where rows: "decode_base_rows C s (map Ok xs) = Ok (map Ok rows)" "distinct rows" "key_sorted rows"
        "set rows = {x \<in> rows_in T. \<exists>k. sortable_key (row_pk x) = Some k \<and> in_range Unbounded Unbounded k}"
      using base_scan_view [OF assms(1) raw] by blast
    have "x \<in> set rows" if "x \<in> rows_in T" for x using rows(4) row_okD(4) [OF ok [OF that] T(2)] that by (auto simp: in_range_def)
    then show ?thesis using scan raw rows by (intro exI [of _ Scan] exI [of _ rows]) (auto simp: candidates_def covers_def)
  qed
qed

end

end
