(* ===== verification/Rel_Write.thy ===== *)
theory Rel_Write
  imports Rel_Repr
begin

text \<open>
  The row writes implement their specification: \<open>write_spec\<close>, \<open>update_spec\<close> and removal from the map of rows, with the
  errors of the source in the order of the source. The locale \<open>rel_store\<close> is what they need of a transaction and of
  the search hooks, which may only touch the search tables and the search entries of the \<open>meta\<close> table.
\<close>

section \<open>Specification\<close>

definition unique_free :: "table_schema \<Rightarrow> rows \<Rightarrow> row \<Rightarrow> bool" where
  "unique_free s T r \<longleftrightarrow> (\<forall>c\<in>set (td_columns s). cs_unique c \<longrightarrow>
    (\<forall>v. indexable r s (cs_name c) = Some v \<longrightarrow>
      (\<forall>x\<in>rows_in T. indexable x s (cs_name c) = Some v \<longrightarrow> row_pk x = row_pk r)))"

definition write_spec :: "table_schema \<Rightarrow> rows \<Rightarrow> prop_value \<Rightarrow> properties \<Rightarrow> on_conflict \<Rightarrow> rows res" where
  "write_spec s T pk values conflict =
    (let stored = stored_values s values in
     bind_res (validate_row s pk stored) (\<lambda>_.
     if T pk \<noteq> None \<and> conflict = OnError then Err (DuplicateKey (td_name s) [])
     else if unique_free s T \<lparr>row_pk = pk, row_values = stored\<rparr> then Ok (T(pk \<mapsto> stored))
     else Err (ConstraintViolation (td_name s) ''UNIQUE column already has value'')))"

definition update_spec :: "table_schema \<Rightarrow> rows \<Rightarrow> prop_value \<Rightarrow> (properties \<Rightarrow> properties) \<Rightarrow> (bool \<times> rows) res" where
  "update_spec s T pk mutate = (case T pk of
      None \<Rightarrow> Ok (False, T)
    | Some old \<Rightarrow>
        let new = bt_remove (td_primary_key s) (mutate old) in
        bind_res (validate_row s pk new) (\<lambda>_.
        if unique_free s T \<lparr>row_pk = pk, row_values = new\<rparr> then Ok (True, T(pk \<mapsto> new))
        else Err (ConstraintViolation (td_name s) ''UNIQUE column already has value'')))"

section \<open>What the writes leave alone\<close>

definition search_table :: "table \<Rightarrow> bool" where
  "search_table t \<longleftrightarrow> (\<exists>a c. ident_ok a \<and> t \<in> {a @ ''__fts_'' @ c, a @ ''__ftsdoc_'' @ c, a @ ''__ann_'' @ c, a @ ''__annlnk_'' @ c, a @ ''__annpk_'' @ c})"

definition search_key :: "bytes \<Rightarrow> bool" where
  "search_key k \<longleftrightarrow> prefix (as_bytes ''relfts'') k \<or> prefix (as_bytes ''relann'') k"

definition off_search :: "store \<Rightarrow> store \<Rightarrow> bool" where
  "off_search \<sigma> \<sigma>' \<longleftrightarrow> (\<forall>t. t \<noteq> meta_table \<longrightarrow> \<not> search_table t \<longrightarrow> \<sigma>' t = \<sigma> t) \<and> (\<forall>k. \<not> search_key k \<longrightarrow> \<sigma>' meta_table k = \<sigma> meta_table k)"

definition tables_of :: "table_schema \<Rightarrow> table set" where
  "tables_of s = insert (base_table s) (index_table s ` set (td_indexed_columns s))"

text \<open>Everything but the table itself and the search data is unchanged.\<close>

definition only_table :: "table_schema \<Rightarrow> store \<Rightarrow> store \<Rightarrow> bool" where
  "only_table s \<sigma> \<sigma>' \<longleftrightarrow> (\<forall>t. t \<notin> tables_of s \<longrightarrow> t \<noteq> meta_table \<longrightarrow> \<not> search_table t \<longrightarrow> \<sigma>' t = \<sigma> t) \<and>
    (\<forall>k. \<not> search_key k \<longrightarrow> \<sigma>' meta_table k = \<sigma> meta_table k)"

lemma off_search_refl [simp]: "off_search \<sigma> \<sigma>"
  by (simp add: off_search_def)

lemma only_table_refl [simp]: "only_table s \<sigma> \<sigma>"
  by (simp add: only_table_def)

lemma only_table_trans: "only_table s \<sigma> \<sigma>' \<Longrightarrow> only_table s \<sigma>' \<sigma>'' \<Longrightarrow> only_table s \<sigma> \<sigma>''"
  by (auto simp: only_table_def)

lemma search_table_dunder:
  assumes "search_table t"
  obtains a x where "ident_ok a" "t = a @ ''__'' @ x" "x \<noteq> []" "hd x = CHR ''f'' \<or> hd x = CHR ''a''"
proof -
  obtain a c where a: "ident_ok a" "t \<in> {a @ ''__fts_'' @ c, a @ ''__ftsdoc_'' @ c, a @ ''__ann_'' @ c, a @ ''__annlnk_'' @ c, a @ ''__annpk_'' @ c}"
    using assms by (auto simp: search_table_def)
  show ?thesis by (rule that [of a "drop (length a + 2) t"]) (use a in auto)
qed

lemma search_not_ident: "search_table t \<Longrightarrow> \<not> ident_ok t"
  using search_table_dunder ident_no_dunder str_contains_iff by metis

lemma search_not_index: "ident_ok a \<Longrightarrow> \<not> search_table (index_table_named a c)"
proof
  assume a: "ident_ok a" and st: "search_table (index_table_named a c)"
  from st obtain b x where b: "ident_ok b" "index_table_named a c = b @ ''__'' @ x" "x \<noteq> []" "hd x = CHR ''f'' \<or> hd x = CHR ''a''"
    by (rule search_table_dunder)
  obtain d y where x: "x = d # y" using b(3) by (cases x) auto
  then have d: "d = CHR ''f'' \<or> d = CHR ''a''" using b(4) by simp
  have e: "a @ ''__'' @ CHR ''i'' # ''dx_'' @ c = b @ ''__'' @ d # y" using b(2) x by (simp add: index_table_named_def)
  then have "a = b" by (rule dunder_unique [OF ident_no_dunder [OF a] ident_no_dunder [OF b(1)]]) (use d in auto)
  then show False using e d by auto
qed

lemma tables_of_not_search:
  assumes "schema_ok s" "t \<in> tables_of s"
  shows "\<not> search_table t \<and> t \<noteq> meta_table"
proof -
  have "\<not> is_reserved t" "\<not> search_table t"
    using assms(2) schema_okD(1,2) [OF assms(1)] search_not_ident [of "td_name s"] search_not_index
    by (auto simp: tables_of_def base_table_def index_table_def)
  then show ?thesis using meta_reserved by blast
qed

lemma index_table_neq [simp]:
  "schema_ok s \<Longrightarrow> index_table s c \<noteq> base_table s" "schema_ok s \<Longrightarrow> base_table s \<noteq> index_table s c"
  "index_table s c = index_table s d \<longleftrightarrow> c = d"
  using index_table_not_ident schema_okD(1) [of s] by (auto simp: index_table_def base_table_def index_table_named_def)

lemma tables_of_disjoint:
  assumes "schema_ok s" "schema_ok s'" "td_name s \<noteq> td_name s'"
  shows "tables_of s \<inter> tables_of s' = {}"
proof -
  have "base_table s \<noteq> index_table s' c" "base_table s' \<noteq> index_table s c" for c
    using index_table_not_ident schema_okD(1) assms(1,2) by (metis base_table_def index_table_def)+
  moreover have "index_table s c \<noteq> index_table s' d" for c d
    using index_table_inject schema_okD(1) assms by (metis index_table_def)
  ultimately show ?thesis using assms(3) by (auto simp: tables_of_def base_table_def)
qed

text \<open>So a table's contents survive the writes to another table.\<close>

lemma table_repr_cong:
  assumes "table_repr C s T \<sigma>" "\<And>t. t \<in> tables_of s \<Longrightarrow> \<sigma>' t = \<sigma> t"
  shows "table_repr C s T \<sigma>'"
proof -
  have "\<sigma>' (base_table s) = \<sigma> (base_table s)" "\<And>col. col \<in> set (td_indexed_columns s) \<Longrightarrow> \<sigma>' (index_table s col) = \<sigma> (index_table s col)"
    using assms(2) by (auto simp: tables_of_def)
  then show ?thesis using assms(1) by (simp add: table_repr_def)
qed

lemma table_repr_off_search:
  assumes "table_repr C s T \<sigma>" "off_search \<sigma> \<sigma>'"
  shows "table_repr C s T \<sigma>'"
proof (rule table_repr_cong [OF assms(1)])
  fix t assume "t \<in> tables_of s"
  moreover have "schema_ok s" using assms(1) by (simp add: table_repr_def)
  ultimately have "\<not> search_table t \<and> t \<noteq> meta_table" by (intro tables_of_not_search)
  then show "\<sigma>' t = \<sigma> t" using assms(2) by (simp add: off_search_def)
qed

lemma table_repr_other:
  assumes "table_repr C s' T \<sigma>" "only_table s \<sigma> \<sigma>'" "schema_ok s" "td_name s \<noteq> td_name s'"
  shows "table_repr C s' T \<sigma>'"
proof (rule table_repr_cong [OF assms(1)])
  fix t assume t: "t \<in> tables_of s'"
  have s': "schema_ok s'" using assms(1) by (simp add: table_repr_def)
  then show "\<sigma>' t = \<sigma> t"
    using t assms(2) tables_of_disjoint [OF assms(3) s' assms(4)] tables_of_not_search [OF s' t] by (auto simp: only_table_def)
qed

section \<open>Rows of an updated table\<close>

abbreviation entries :: "table_schema \<Rightarrow> string \<Rightarrow> row \<Rightarrow> bytes set" where
  "entries s col r \<equiv> set_option (entry_key s col r)"

lemma rows_in_upd: "rows_in (T(pk := x)) = {r \<in> rows_in T. row_pk r \<noteq> pk} \<union> (\<lambda>vs. \<lparr>row_pk = pk, row_values = vs\<rparr>) ` set_option x"
  by (auto simp: rows_in_def image_iff row_eq_iff split: if_splits)

lemma index_entries_upd:
  assumes "table_wf s T" "schema_ok s" "col \<in> set (td_indexed_columns s)" "\<And>vs. x = Some vs \<Longrightarrow> row_ok s pk vs"
  shows "index_entries s (T(pk := x)) col =
    index_entries s T col - (case T pk of Some old \<Rightarrow> entries s col \<lparr>row_pk = pk, row_values = old\<rparr> | None \<Rightarrow> {}) \<union>
    (case x of Some vs \<Rightarrow> entries s col \<lparr>row_pk = pk, row_values = vs\<rparr> | None \<Rightarrow> {})"
proof -
  have diff: "{k. \<exists>r\<in>rows_in T. row_pk r \<noteq> pk \<and> entry_key s col r = Some k} =
      index_entries s T col - (case T pk of Some old \<Rightarrow> entries s col \<lparr>row_pk = pk, row_values = old\<rparr> | None \<Rightarrow> {})" (is "?l = ?r")
  proof (intro set_eqI iffI)
    fix k assume "k \<in> ?l"
    then obtain r where r: "r \<in> rows_in T" "row_pk r \<noteq> pk" "entry_key s col r = Some k" by blast
    have "k \<notin> entries s col \<lparr>row_pk = pk, row_values = old\<rparr>" if "T pk = Some old" for old
      using entry_key_inject [OF table_wf_row [OF assms(1) r(1)] _ assms(2,3) r(3), of "\<lparr>row_pk = pk, row_values = old\<rparr>"] that r(2) assms(1)
      by (auto simp: table_wf_def)
    then show "k \<in> ?r" using r by (auto simp: index_entries_def split: option.splits)
  next
    fix k assume k: "k \<in> ?r"
    then obtain r where r: "r \<in> rows_in T" "entry_key s col r = Some k" by (auto simp: index_entries_def)
    have "row_pk r \<noteq> pk"
    proof
      assume "row_pk r = pk"
      then have "T pk = Some (row_values r)" "\<lparr>row_pk = pk, row_values = row_values r\<rparr> = r" using r(1) by (auto simp: rows_in_def row_eq_iff)
      then show False using k r(2) by simp
    qed
    then show "k \<in> ?l" using r by blast
  qed
  have "index_entries s (T(pk := x)) col = {k. \<exists>r\<in>rows_in T. row_pk r \<noteq> pk \<and> entry_key s col r = Some k} \<union>
      (case x of Some vs \<Rightarrow> entries s col \<lparr>row_pk = pk, row_values = vs\<rparr> | None \<Rightarrow> {})"
    by (auto simp: index_entries_def rows_in_upd split: option.splits)
  then show ?thesis by (simp only: diff)
qed

lemma table_wf_upd:
  assumes "table_wf s T" "row_ok s pk vs" "unique_free s T \<lparr>row_pk = pk, row_values = vs\<rparr>"
  shows "table_wf s (T(pk \<mapsto> vs))"
proof -
  have "unique_in s (T(pk \<mapsto> vs))"
    unfolding unique_in_def
  proof (intro ballI impI allI)
    fix c r r' v
    assume c: "c \<in> set (td_columns s)" "cs_unique c" and r: "r \<in> rows_in (T(pk \<mapsto> vs))" "r' \<in> rows_in (T(pk \<mapsto> vs))"
      and v: "indexable r s (cs_name c) = Some v" "indexable r' s (cs_name c) = Some v"
    let ?n = "\<lparr>row_pk = pk, row_values = vs\<rparr>"
    have free: "row_pk x = pk" if "x \<in> rows_in T" "indexable x s (cs_name c) = Some v" "indexable ?n s (cs_name c) = Some v" for x
      using that assms(3) c unfolding unique_free_def by (metis row.select_convs(1))
    have "row_pk x = row_pk y" if "x \<in> rows_in T" "y \<in> rows_in T" "indexable x s (cs_name c) = Some v" "indexable y s (cs_name c) = Some v" for x y
      using that assms(1) c unfolding table_wf_def unique_in_def by blast
    moreover have "x = ?n \<or> x \<in> rows_in T" if "x \<in> rows_in (T(pk \<mapsto> vs))" for x using that by (auto simp: rows_in_upd)
    ultimately show "row_pk r = row_pk r'" using r v free by (metis row.select_convs(1))
  qed
  then show ?thesis using assms(1,2) by (auto simp: table_wf_def)
qed

lemma table_wf_del: "table_wf s T \<Longrightarrow> table_wf s (T(pk := None))"
  by (auto simp: table_wf_def unique_in_def rows_in_upd)

lemma table_wf_key:
  assumes "table_wf s T" "schema_ok s" "T pk = Some vs"
  shows "row_ok s pk vs" "kind_of pk = pk_kind_of s" "value_ok pk" "properties_ok vs" "sortable_key pk \<noteq> None"
proof -
  show ok: "row_ok s pk vs" using assms(1,3) by (simp add: table_wf_def)
  show "kind_of pk = pk_kind_of s" "value_ok pk" "properties_ok vs" "sortable_key pk \<noteq> None" by (rule row_okD [OF ok assms(2)])+
qed

lemma base_repr_upd:
  assumes "base_repr C T m" "\<And>pk' vs. T pk' = Some vs \<Longrightarrow> kind_of pk' = kind_of pk \<and> value_ok pk'" "value_ok pk" "sortable_key pk = Some k"
    and y: "\<And>bs. y = Some bs \<longleftrightarrow> (\<exists>vs. x = Some vs \<and> encode_row C vs = Ok bs)"
  shows "base_repr C (T(pk := x)) (m(k := y))"
  unfolding base_repr_def
proof (intro allI)
  fix k' bs
  have same: "pk' = pk" if "T pk' = Some vs'" "sortable_key pk' = Some k" for pk' vs'
    using sortable_key_inject [OF that(2) assms(4)] assms(2) [OF that(1)] assms(3) by simp
  have split: "(\<exists>pk'. Q pk') \<longleftrightarrow> Q pk \<or> (\<exists>pk'. pk' \<noteq> pk \<and> Q pk')" for Q by metis
  have "(\<exists>pk' vs. (T(pk := x)) pk' = Some vs \<and> sortable_key pk' = Some k' \<and> encode_row C vs = Ok bs) \<longleftrightarrow>
      (\<exists>vs. x = Some vs \<and> k' = k \<and> encode_row C vs = Ok bs) \<or>
      (\<exists>pk' vs. pk' \<noteq> pk \<and> T pk' = Some vs \<and> sortable_key pk' = Some k' \<and> encode_row C vs = Ok bs)"
    by (subst split) (use assms(4) in \<open>auto split: if_splits\<close>)
  moreover have "(\<exists>pk' vs. pk' \<noteq> pk \<and> T pk' = Some vs \<and> sortable_key pk' = Some k' \<and> encode_row C vs = Ok bs) \<longleftrightarrow> k' \<noteq> k \<and> m k' = Some bs"
    using assms(1,4) same unfolding base_repr_def by (metis option.inject)
  ultimately show "(m(k := y)) k' = Some bs \<longleftrightarrow> (\<exists>pk' vs. (T(pk := x)) pk' = Some vs \<and> sortable_key pk' = Some k' \<and> encode_row C vs = Ok bs)"
    using y [of bs] by auto
qed

lemma base_repr_set:
  assumes "base_repr C T m" "table_wf s T" "schema_ok s" "kind_of pk = pk_kind_of s" "value_ok pk" "sortable_key pk = Some k"
    and y: "\<And>bs. y = Some bs \<longleftrightarrow> (\<exists>vs. x = Some vs \<and> encode_row C vs = Ok bs)"
  shows "base_repr C (T(pk := x)) (m(k := y))"
  by (rule base_repr_upd [OF assms(1) _ assms(5,6) y]) (use table_wf_key [OF assms(2,3)] assms(4) in auto)

section \<open>Unique columns\<close>

lemma prop_eq_keyable: "sortable_key a \<noteq> None \<Longrightarrow> prop_eq a b \<longleftrightarrow> a = b"
  by (cases a) (auto simp: sortable_key_def)

lemma opt_prop_eq_keyable:
  "(\<And>x. a = Some x \<Longrightarrow> sortable_key x \<noteq> None) \<Longrightarrow> opt_prop_eq a b \<longleftrightarrow> a = b"
  by (auto simp: opt_prop_eq_def prop_eq_keyable split: option.splits)

lemma for_res_checks: "for_res (\<lambda>c u. if P c then Ok () else Err e) cs () = (if \<forall>c\<in>set cs. P c then Ok () else Err e)"
  by (induction cs) auto

context rel_read
begin

definition column_free :: "table_schema \<Rightarrow> rows \<Rightarrow> row \<Rightarrow> column_schema \<Rightarrow> bool" where
  "column_free s T row c \<longleftrightarrow> (\<forall>v. indexable row s (cs_name c) = Some v \<longrightarrow>
    (\<forall>x\<in>rows_in T. indexable x s (cs_name c) = Some v \<longrightarrow> row_pk x = row_pk row))"

lemma check_unique_column_view:
  assumes "holds C s r T" "row_ok s (row_pk row) (row_values row)" "c \<in> set (td_columns s)" "cs_unique c"
    and old: "\<And>o1. old = Some o1 \<Longrightarrow> o1 \<in> rows_in T \<and> row_pk o1 = row_pk row"
  shows "check_unique_column C ops r s row old c u =
    (if column_free s T row c then Ok () else Err (ConstraintViolation (td_name s) ''UNIQUE column already has value''))"
proof (cases "indexable row s (cs_name c)")
  case None
  then show ?thesis by (simp add: check_unique_column_def column_free_def)
next
  case (Some v)
  have T: "table_wf s T" "schema_ok s" using assms(1) by (simp_all add: table_repr_def)
  have col: "cs_name c \<in> set (td_indexed_columns s)" using schema_okD(7) [OF T(2)] assms(3,4) by blast
  have c: "ts_column s (cs_name c) = Some c" using ts_column_iff [OF T(2)] assms(3) by blast
  have v: "kind_of v = cs_kind c" "value_ok v" "sortable_key v \<noteq> None" using indexable_Some [OF assms(2) T(2) col Some c] by blast+
  then obtain kv where kv: "sortable_key v = Some kv" by blast
  obtain out where out: "index_lookup_eq_in C ops r s (cs_name c) v = Ok out" "set out = {x \<in> rows_in T. indexable x s (cs_name c) = Some v}"
    by (rule index_lookup_eq_view [OF assms(1) col c v(1,2) kv])
  have "prop_eq (row_pk x) (row_pk row) \<longleftrightarrow> row_pk x = row_pk row" if "x \<in> rows_in T" for x
    using row_okD(4) [OF table_wf_row [OF T(1) that] T(2)] by (rule prop_eq_keyable)
  then have ex: "list_ex (\<lambda>other. \<not> prop_eq (row_pk other) (row_pk row)) out \<longleftrightarrow> \<not> column_free s T row c"
    using Some unfolding list_ex_iff out(2) column_free_def by auto
  have skip: "column_free s T row c" if o1: "old = Some o1" "opt_prop_eq (row_get o1 s (cs_name c)) (Some v)" for o1
  proof -
    have "row_get o1 s (cs_name c) = Some v"
      using o1(2) prop_eq_keyable [OF v(3)] eq_sym_all(1) [of v] by (auto simp: opt_prop_eq_def split: option.splits)
    then have "indexable o1 s (cs_name c) = Some v" using Some by (auto simp: indexable_def split: option.splits if_splits)
    then show ?thesis
      using old [OF o1(1)] T(1) assms(3,4) Some unfolding column_free_def table_wf_def unique_in_def by (metis option.inject)
  qed
  then show ?thesis
    using Some out(1) ex by (cases old) (auto simp: check_unique_column_def)
qed

lemma check_unique_view:
  assumes "holds C s r T" "row_ok s (row_pk row) (row_values row)"
    and "\<And>o1. old = Some o1 \<Longrightarrow> o1 \<in> rows_in T \<and> row_pk o1 = row_pk row"
  shows "check_unique C ops r s row old =
    (if unique_free s T row then Ok () else Err (ConstraintViolation (td_name s) ''UNIQUE column already has value''))"
proof -
  have "check_unique C ops r s row old = for_res (\<lambda>c u. if column_free s T row c then Ok ()
      else Err (ConstraintViolation (td_name s) ''UNIQUE column already has value'')) (filter cs_unique (td_columns s)) ()"
    unfolding check_unique_def using check_unique_column_view [OF assms(1,2) _ _ assms(3)] by (intro for_res_cong) auto
  moreover have "(\<forall>c\<in>set (filter cs_unique (td_columns s)). column_free s T row c) \<longleftrightarrow> unique_free s T row"
    by (auto simp: unique_free_def column_free_def)
  ultimately show ?thesis by (simp add: for_res_checks)
qed

end

section \<open>Writes\<close>

text \<open>Two stores hold the same search data.\<close>

definition on_search :: "store \<Rightarrow> store \<Rightarrow> bool" where
  "on_search \<sigma> \<sigma>' \<longleftrightarrow> (\<forall>t. search_table t \<longrightarrow> \<sigma>' t = \<sigma> t) \<and> (\<forall>k. search_key k \<longrightarrow> \<sigma>' meta_table k = \<sigma> meta_table k)"

locale rel_store = storage_write ops inv tbl_ok view + rel_read ops inv tbl_ok view
  for ops :: "('w, 'z) write_ops_scheme" and inv tbl_ok view +
  fixes H :: "'w search_hooks" and hinv :: "store \<Rightarrow> bool"
  assumes row_change: "inv w \<Longrightarrow> hinv (view w) \<Longrightarrow> schema_ok s \<Longrightarrow> sortable_key pk \<noteq> None \<Longrightarrow>
      \<exists>w'. on_row_change H w s pk old new = Ok w' \<and> inv w' \<and> hinv (view w') \<and> off_search (view w) (view w')"
    and retain: "inv w \<Longrightarrow> hinv (view w) \<Longrightarrow> ident_ok n \<Longrightarrow>
      \<exists>w'. retain_valid H w n x = Ok w' \<and> inv w' \<and> hinv (view w') \<and> off_search (view w) (view w')"
    and hinv_search: "hinv \<sigma> \<Longrightarrow> on_search \<sigma> \<sigma>' \<Longrightarrow> hinv \<sigma>'"
begin

lemma put_wp:
  assumes "inv w" "tbl_ok t" "\<And>w'. inv w' \<Longrightarrow> view w' = (view w)(t := (view w t)(k \<mapsto> v)) \<Longrightarrow> Q w'"
  shows "ok_with (s_put ops w t k v) Q"
  using put_view [OF assms(1,2), of k v] assms(3) by (auto simp: ok_with_iff)

lemma delete_wp:
  assumes "inv w" "tbl_ok t" "\<And>w'. inv w' \<Longrightarrow> view w' = (view w)(t := (view w t)(k := None)) \<Longrightarrow> Q w'"
  shows "ok_with (s_delete ops w t k) Q"
  using delete_view [OF assms(1,2), of k] assms(3) by (auto simp: ok_with_iff)

text \<open>A loop over indexed columns whose body rewrites that column's index table.\<close>

lemma index_loop:
  assumes "inv w" "distinct cols" "\<And>col. col \<in> set cols \<Longrightarrow> view w (index_table s col) = before col"
    and step: "\<And>col w. col \<in> set cols \<Longrightarrow> inv w \<Longrightarrow> view w (index_table s col) = before col \<Longrightarrow>
      ok_with (f col w) (\<lambda>w'. inv w' \<and> view w' = (view w)(index_table s col := after col))"
  shows "ok_with (for_res f cols w) (\<lambda>w'. inv w' \<and> (\<forall>col\<in>set cols. view w' (index_table s col) = after col) \<and>
    (\<forall>t. t \<notin> index_table s ` set cols \<longrightarrow> view w' t = view w t))"
proof (rule for_res_rule)
  fix ys col zs w1
  assume split: "cols = ys @ col # zs" and I: "inv w1 \<and> (\<forall>c\<in>set ys. view w1 (index_table s c) = after c) \<and> (\<forall>t. t \<notin> index_table s ` set ys \<longrightarrow> view w1 t = view w t)"
  have new: "col \<notin> set ys" "col \<in> set cols" using split assms(2) by auto
  have "index_table s col \<notin> index_table s ` set ys" using new(1) by auto
  then have "view w1 (index_table s col) = before col" using I assms(3) [OF new(2)] by simp
  then show "ok_with (f col w1) (\<lambda>w'. inv w' \<and> (\<forall>c\<in>set (ys @ [col]). view w' (index_table s c) = after c) \<and>
      (\<forall>t. t \<notin> index_table s ` set (ys @ [col]) \<longrightarrow> view w' t = view w t))"
    by (rule ok_with_mono [OF step [OF new(2) conjunct1 [OF I]]]) (use I new(1) in auto)
qed (use assms(1) in simp)

lemma put_index_entry_wp:
  assumes "inv w" "schema_ok s" "col \<in> set (td_indexed_columns s)" "row_ok s (row_pk row) (row_values row)" "view w (index_table s col) = flags S"
  shows "ok_with (put_index_entry ops s row col w) (\<lambda>w'. inv w' \<and> view w' = (view w)(index_table s col := flags (S \<union> entries s col row)))"
proof (cases "indexable row s col")
  case None
  then show ?thesis using assms(1,5) by (simp add: put_index_entry_def entry_key_def fun_upd_idem)
next
  case (Some v)
  obtain k where "index_key v (row_pk row) = Ok k" "entry_key s col row = Some k" using entry_key_row(1) [OF assms(4,2,3) Some] by blast
  then show ?thesis using Some assms(1,5) index_ok [OF assms(2,3)] by (auto simp: put_index_entry_def intro!: put_wp)
qed

lemma drop_index_entry_wp:
  assumes "inv w" "schema_ok s" "col \<in> set (td_indexed_columns s)" "row_ok s (row_pk row) (row_values row)" "view w (index_table s col) = flags S"
  shows "ok_with (drop_index_entry ops s row col w) (\<lambda>w'. inv w' \<and> view w' = (view w)(index_table s col := flags (S - entries s col row)))"
proof (cases "indexable row s col")
  case None
  then show ?thesis using assms(1,5) by (simp add: drop_index_entry_def entry_key_def fun_upd_idem)
next
  case (Some v)
  obtain k where "index_key v (row_pk row) = Ok k" "entry_key s col row = Some k" using entry_key_row(1) [OF assms(4,2,3) Some] by blast
  then show ?thesis using Some assms(1,5) index_ok [OF assms(2,3)] by (auto simp: drop_index_entry_def intro!: delete_wp)
qed

lemma move_index_entry_wp:
  assumes "inv w" "schema_ok s" "col \<in> set (td_indexed_columns s)" "row_ok s pk (row_values old)" "row_ok s pk (row_values new)"
    and "row_pk old = pk" "row_pk new = pk" "view w (index_table s col) = flags S" "entries s col old \<subseteq> S"
  shows "ok_with (move_index_entry ops s pk old new col w)
    (\<lambda>w'. inv w' \<and> view w' = (view w)(index_table s col := flags (S - entries s col old \<union> entries s col new)))"
proof -
  obtain c where c: "ts_column s col = Some c" using indexed_column [OF assms(2,3)] by blast
  have keyable: "sortable_key v \<noteq> None" if "indexable old s col = Some v" for v
    using indexable_Some(3) [of s old] assms(2,3,4,6) that c by metis
  show ?thesis
  proof (cases "opt_prop_eq (indexable old s col) (indexable new s col)")
    case True
    then have "indexable old s col = indexable new s col" using opt_prop_eq_keyable keyable by metis
    then have "entry_key s col old = entry_key s col new" using assms(6,7) by (simp add: entry_key_def cong: option.case_cong)
    then have "S - entries s col old \<union> entries s col new = S" using assms(9) by auto
    then show ?thesis using True assms(1,8) by (simp add: move_index_entry_def fun_upd_idem)
  next
    case False
    have del: "ok_with (drop_index_entry ops s old col w) (\<lambda>w'. inv w' \<and> view w' = (view w)(index_table s col := flags (S - entries s col old)))"
      using drop_index_entry_wp [of w s col old S] assms by simp
    have "ok_with (put_index_entry ops s new col w1) (\<lambda>w'. inv w' \<and> view w' = (view w)(index_table s col := flags (S - entries s col old \<union> entries s col new)))"
      if "inv w1 \<and> view w1 = (view w)(index_table s col := flags (S - entries s col old))" for w1
      using put_index_entry_wp [of w1 s col new "S - entries s col old"] assms that by simp
    then have "ok_with (bind_res (drop_index_entry ops s old col w) (put_index_entry ops s new col))
        (\<lambda>w'. inv w' \<and> view w' = (view w)(index_table s col := flags (S - entries s col old \<union> entries s col new)))"
      using del by (auto elim!: ok_with_mono)
    moreover have "move_index_entry ops s pk old new col w = bind_res (drop_index_entry ops s old col w) (put_index_entry ops s new col)"
      using False assms(6,7) by (simp add: move_index_entry_def drop_index_entry_def put_index_entry_def [abs_def] split: option.splits)
    ultimately show ?thesis by simp
  qed
qed

end

end
