(* ===== verification/Rel_Row_Ops.thy ===== *)
theory Rel_Row_Ops
  imports Rel_Write
begin

text \<open>
  Inserting, replacing, updating and deleting one row implement their specifications, for every transaction and every
  build: from a transaction that holds a table they return one that holds the changed table, with everything outside
  the table unchanged, or they fail with the error of the specification.
\<close>

section \<open>Stored rows\<close>

lemma ident_str_ok:
  assumes "ident_ok s"
  shows "str_ok s"
proof -
  have "list_all (\<lambda>b. is_ascii_alphanumeric b \<or> b = CHR ''_'') s" using assms by (auto simp: check_identifier_def split: if_splits)
  then show ?thesis
  proof (induction s)
    case (Cons c s)
    have "c \<le> CHR ''z''" using Cons.prems by (auto simp: is_ascii_alphanumeric_def less_eq_char_def)
    then have "(of_char c :: nat) \<le> 122" by (simp add: less_eq_char_def)
    then have "(word_of_nat (of_char c) :: byte) \<le> 0x7F" by (simp add: word_le_nat_alt unsigned_of_nat take_bit_nat_eq_self)
    then show ?case using Cons by simp
  qed simp
qed

lemma properties_ok_insert: "properties_ok m \<Longrightarrow> str_ok k \<Longrightarrow> value_ok v \<Longrightarrow> properties_ok (bt_insert k v m)"
proof -
  assume a: "properties_ok m" "str_ok k" "value_ok v"
  have "set (bt_insert k v m) \<subseteq> insert (k, v) (set m)" by (induction k v m rule: bt_insert.induct) auto
  then show ?thesis using a by (auto simp: properties_ok_def)
qed

lemma properties_ok_remove: "properties_ok m \<Longrightarrow> properties_ok (bt_remove k m)"
proof -
  assume a: "properties_ok m"
  have "set (bt_remove k m) \<subseteq> set m" by (induction k m rule: bt_remove.induct) auto
  then show ?thesis using a by (auto simp: properties_ok_def)
qed

lemma fill_default_ok:
  assumes "properties_ok m" "ident_ok (cs_name c)" "default_ok c"
  shows "properties_ok (fill_default s c m)" "map_of (fill_default s c m) (td_primary_key s) = map_of m (td_primary_key s)"
  using assms by (auto simp: fill_default_def default_ok_def intro!: properties_ok_insert ident_str_ok split: option.splits)

lemma stored_values_ok:
  assumes "schema_ok s" "properties_ok vs"
  shows "properties_ok (stored_values s vs)" "map_of (stored_values s vs) (td_primary_key s) = None"
proof -
  have "properties_ok (fold (fill_default s) cs m) \<and> map_of (fold (fill_default s) cs m) (td_primary_key s) = None"
    if "properties_ok m" "map_of m (td_primary_key s) = None" "\<forall>c\<in>set cs. ident_ok (cs_name c) \<and> default_ok c" for m cs
    using that by (induction cs arbitrary: m) (simp_all add: fill_default_ok)
  moreover have "map_of (bt_remove (td_primary_key s) vs) (td_primary_key s) = None" using assms(2) by (simp add: properties_ok_def)
  ultimately show "properties_ok (stored_values s vs)" "map_of (stored_values s vs) (td_primary_key s) = None"
    using schema_okD(8) [OF assms(1)] properties_ok_remove [OF assms(2)] by (auto simp: stored_values_def)
qed

lemma stored_row_ok:
  assumes "schema_ok s" "properties_ok vs" "value_ok pk" "validate_row s pk (stored_values s vs) = Ok ()" "keys_ok s pk (stored_values s vs)"
  shows "row_ok s pk (stored_values s vs)"
  using assms stored_values_ok [OF assms(1,2)] by (simp add: row_ok_def)

lemma for_res_no_panic: "(\<And>x s. f x s \<noteq> Panic) \<Longrightarrow> for_res f xs s \<noteq> Panic"
  by (induction xs arbitrary: s) (auto simp: bind_res_def split: res.splits)

lemma validate_no_panic: "validate_row s pk vs \<noteq> Panic"
proof -
  have "check_value s n v \<noteq> Panic" for n v by (simp add: check_value_def split: option.splits)
  moreover from this have "for_res (\<lambda>(name, v) _. check_value s name v) vs () \<noteq> Panic" by (intro for_res_no_panic) auto
  moreover have "for_res (check_not_null s vs) (td_columns s) () \<noteq> Panic"
    by (intro for_res_no_panic) (auto simp: check_not_null_def Let_def)
  ultimately show ?thesis by (simp add: validate_row_def bind_res_def split: res.splits)
qed

section \<open>The operations\<close>

definition rel_tx :: "('w \<Rightarrow> bool) \<Rightarrow> ('w \<Rightarrow> store) \<Rightarrow> (store \<Rightarrow> bool) \<Rightarrow> rel_codecs \<Rightarrow> table_schema \<Rightarrow> 'w \<Rightarrow> rows \<Rightarrow> bool" where
  "rel_tx I view hinv C s w T \<longleftrightarrow> I w \<and> hinv (view w) \<and> table_repr C s T (view w)"

context rel_store
begin

lemma on_search_tables:
  assumes "schema_ok s" "\<And>t. t \<notin> tables_of s \<Longrightarrow> \<sigma>' t = \<sigma> t"
  shows "on_search \<sigma> \<sigma>'" "only_table s \<sigma> \<sigma>'"
proof -
  have "meta_table \<notin> tables_of s" using tables_of_not_search [OF assms(1)] by blast
  then have "\<sigma>' meta_table = \<sigma> meta_table" by (rule assms(2))
  then show "on_search \<sigma> \<sigma>'" "only_table s \<sigma> \<sigma>'"
    using assms(2) tables_of_not_search [OF assms(1)] by (auto simp: on_search_def only_table_def)
qed

text \<open>The hook at the end of every write: the table is as the write left it.\<close>

lemma finish_write:
  assumes "inv w1" "hinv \<sigma>" "table_repr C s T (view w1)" "\<And>t. t \<notin> tables_of s \<Longrightarrow> view w1 t = \<sigma> t" "sortable_key pk \<noteq> None"
  shows "ok_with (on_row_change H w1 s pk old new) (\<lambda>w'. rel_tx inv view hinv C s w' T \<and> only_table s \<sigma> (view w'))"
proof -
  have s: "schema_ok s" using assms(3) by (simp add: table_repr_def)
  have h: "hinv (view w1)" "only_table s \<sigma> (view w1)" using on_search_tables [of s "view w1" \<sigma>] s assms(4) hinv_search [OF assms(2)] by blast+
  obtain w' where w': "on_row_change H w1 s pk old new = Ok w'" "inv w'" "hinv (view w')" "off_search (view w1) (view w')"
    using row_change [OF assms(1) h(1) s assms(5)] by blast
  have "table_repr C s T (view w')" using table_repr_off_search [OF assms(3) w'(4)] .
  moreover have "only_table s (view w1) (view w')" using w'(4) by (auto simp: off_search_def only_table_def)
  ultimately show ?thesis using w' h(2) by (auto simp: rel_tx_def intro: only_table_trans)
qed

lemma index_not_base: "schema_ok s \<Longrightarrow> base_table s \<notin> index_table s ` A"
  by (auto dest: index_table_neq(1))

text \<open>Insert and upsert.\<close>

lemma write_row_refines:
  assumes tx: "rel_tx inv view hinv C s w T"
    and vs: "properties_ok vs" "value_ok pk" "keys_ok s pk (stored_values s vs)"
  shows "refines (write_spec s T pk vs conflict) (write_row_in C H ops w s pk vs conflict)
    (\<lambda>T' w'. rel_tx inv view hinv C s w' T' \<and> only_table s (view w) (view w'))"
proof -
  let ?new = "stored_values s vs" and ?ix = "set (td_indexed_columns s)"
  let ?row = "\<lparr>row_pk = pk, row_values = ?new\<rparr>" and ?old = "\<lambda>vs. \<lparr>row_pk = pk, row_values = vs\<rparr>"
  have T: "inv w" "hinv (view w)" "table_wf s T" "schema_ok s" "rel_codecs_ok C" "base_repr C T (view w (base_table s))"
      "\<And>col. col \<in> ?ix \<Longrightarrow> view w (index_table s col) = flags (index_entries s T col)"
    using tx by (simp_all add: rel_tx_def table_repr_def)
  have holds: "holds C s w T" using tx by (simp add: rel_tx_def)
  obtain k where k: "sortable_key pk = Some k" using vs(3) by (auto simp: keys_ok_def)
  show ?thesis
  proof (cases "validate_row s pk ?new")
    case (Err e)
    then show ?thesis by (simp add: write_spec_def write_row_in_def Let_def)
  next
    case Panic
    then show ?thesis using validate_no_panic by blast
  next
    case (Ok u)
    then have ok: "row_ok s pk ?new" using stored_row_ok [OF T(4) vs(1,2) _ vs(3)] by simp
    obtain bs where bs: "encode_row C ?new = Ok bs" using encode_rowE [OF T(5) row_okD(3) [OF ok T(4)]] by blast
    have get: "s_get ops w (base_table s) k = Ok (view w (base_table s) k)" using T(1,4) by (simp add: get_view base_ok)
    have old: "view w (base_table s) k = None \<longleftrightarrow> T pk = None"
        "\<And>b. view w (base_table s) k = Some b \<Longrightarrow> \<exists>v. T pk = Some v \<and> decode_row C b = Ok v"
    proof -
      have "get_in C ops w s pk = Ok (map_option ?old (T pk))" using get_in_view [OF holds row_okD(1,2) [OF ok T(4)]] .
      then show "view w (base_table s) k = None \<longleftrightarrow> T pk = None"
          "\<And>b. view w (base_table s) k = Some b \<Longrightarrow> \<exists>v. T pk = Some v \<and> decode_row C b = Ok v"
        using k get by (cases "T pk"; auto simp: get_in_def bind_res_Ok_iff split: option.splits)+
    qed
    show ?thesis
    proof (cases "T pk \<noteq> None \<and> conflict = OnError")
      case True
      then obtain b where "view w (base_table s) k = Some b" using old(1) by auto
      then show ?thesis using True Ok k get by (simp add: write_spec_def write_row_in_def Let_def)
    next
      case ncon: False
      have unique: "check_unique C ops w s ?row None =
          (if unique_free s T ?row then Ok () else Err (ConstraintViolation (td_name s) ''UNIQUE column already has value''))"
        using check_unique_view [OF holds, of ?row None] ok by simp
      let ?x = "map_option ?old (T pk)"
      have look: "bind_res (s_get ops w (base_table s) k) (\<lambda>x. case x of
          Some bs \<Rightarrow> if conflict = OnError then Err (DuplicateKey (td_name s) [])
            else bind_res (decode_row C bs) (\<lambda>vs. Ok (Some \<lparr>row_pk = pk, row_values = vs\<rparr>))
        | None \<Rightarrow> Ok None) = Ok ?x"
      proof (cases "view w (base_table s) k")
        case None
        then show ?thesis using get old(1) by simp
      next
        case (Some b)
        then obtain v where "T pk = Some v" "decode_row C b = Ok v" using old(2) by blast
        then show ?thesis using Some get ncon by simp
      qed
      show ?thesis
      proof (cases "unique_free s T ?row")
        case False
        then have "write_spec s T pk vs conflict = Err (ConstraintViolation (td_name s) ''UNIQUE column already has value'')"
          using Ok ncon by (auto simp: write_spec_def Let_def)
        then show ?thesis using False Ok k look unique by (simp add: write_row_in_def Let_def flip: bind_res_assoc)
      next
        case True
        let ?S1 = "\<lambda>col. index_entries s T col - (case T pk of Some v \<Rightarrow> entries s col (?old v) | None \<Rightarrow> {})"
        have wf: "table_wf s (T(pk \<mapsto> ?new))" using table_wf_upd [OF T(3) ok True] .
        have S: "index_entries s (T(pk \<mapsto> ?new)) col = ?S1 col \<union> entries s col ?row" if "col \<in> ?ix" for col
          using index_entries_upd [OF T(3,4) that, of "Some ?new" pk] ok by simp
        have drop: "ok_with (case ?x of Some old \<Rightarrow> for_res (drop_index_entry ops s old) (td_indexed_columns s) w | None \<Rightarrow> Ok w)
            (\<lambda>w'. inv w' \<and> (\<forall>col\<in>?ix. view w' (index_table s col) = flags (?S1 col)) \<and> (\<forall>t. t \<notin> index_table s ` ?ix \<longrightarrow> view w' t = view w t))"
        proof (cases "T pk")
          case None
          then show ?thesis using T(1,7) by simp
        next
          case (Some v)
          have "row_ok s pk v" using Some T(3) by (simp add: table_wf_def)
          then show ?thesis
            unfolding Some option.map option.case
            by (intro index_loop [where before = "\<lambda>col. flags (index_entries s T col)"])
              (use T schema_okD(4) [OF T(4)] in \<open>auto intro!: drop_index_entry_wp\<close>)
        qed
        have rest: "ok_with (bind_res (s_put ops w1 (base_table s) k bs) (\<lambda>w2. bind_res (for_res (put_index_entry ops s ?row) (td_indexed_columns s) w2)
              (\<lambda>w3. on_row_change H w3 s pk (map_option row_values ?x) (Some ?new))))
            (\<lambda>w'. rel_tx inv view hinv C s w' (T(pk \<mapsto> ?new)) \<and> only_table s (view w) (view w'))"
          if w1: "inv w1" "\<forall>col\<in>?ix. view w1 (index_table s col) = flags (?S1 col)" "\<forall>t. t \<notin> index_table s ` ?ix \<longrightarrow> view w1 t = view w t" for w1
        proof -
          obtain w2 where w2: "s_put ops w1 (base_table s) k bs = Ok w2" "inv w2" "view w2 = (view w1)(base_table s := (view w1 (base_table s))(k \<mapsto> bs))"
            using put_view [OF w1(1) base_ok [OF T(4)]] by blast
          have ix2: "view w2 (index_table s col) = flags (?S1 col)" if "col \<in> ?ix" for col using that w1(2) w2(3) T(4) by simp
          have "ok_with (for_res (put_index_entry ops s ?row) (td_indexed_columns s) w2) (\<lambda>w3. inv w3 \<and>
              (\<forall>col\<in>?ix. view w3 (index_table s col) = flags (?S1 col \<union> entries s col ?row)) \<and> (\<forall>t. t \<notin> index_table s ` ?ix \<longrightarrow> view w3 t = view w2 t))"
            by (intro index_loop [where before = "\<lambda>col. flags (?S1 col)"])
              (use w2(2) ix2 T(4) ok schema_okD(4) [OF T(4)] in \<open>auto intro!: put_index_entry_wp\<close>)
          then obtain w3 where w3: "for_res (put_index_entry ops s ?row) (td_indexed_columns s) w2 = Ok w3" "inv w3"
              "\<forall>col\<in>?ix. view w3 (index_table s col) = flags (?S1 col \<union> entries s col ?row)" "\<forall>t. t \<notin> index_table s ` ?ix \<longrightarrow> view w3 t = view w2 t"
            by (auto simp: ok_with_iff)
          have "view w3 (base_table s) = (view w (base_table s))(k \<mapsto> bs)"
            using w3(4) w2(3) w1(3) index_not_base [OF T(4)] by simp
          moreover have "base_repr C (T(pk \<mapsto> ?new)) ((view w (base_table s))(k \<mapsto> bs))"
            using row_okD [OF ok T(4)] bs by (intro base_repr_set [OF T(6,3,4) _ _ k]) auto
          ultimately have "table_repr C s (T(pk \<mapsto> ?new)) (view w3)"
            using T(4,5) wf w3(3) S by (simp add: table_repr_def)
          moreover have "view w3 t = view w t" if "t \<notin> tables_of s" for t using that w3(4) w2(3) w1(3) by (simp add: tables_of_def)
          ultimately show ?thesis using w2(1) w3(1) finish_write [OF w3(2) T(2)] k by simp
        qed
        have "write_row_in C H ops w s pk vs conflict =
            bind_res (case ?x of Some old \<Rightarrow> for_res (drop_index_entry ops s old) (td_indexed_columns s) w | None \<Rightarrow> Ok w) (\<lambda>w1.
            bind_res (s_put ops w1 (base_table s) k bs) (\<lambda>w2. bind_res (for_res (put_index_entry ops s ?row) (td_indexed_columns s) w2)
              (\<lambda>w3. on_row_change H w3 s pk (map_option row_values ?x) (Some ?new))))"
          using Ok k bs look unique True by (simp add: write_row_in_def Let_def flip: bind_res_assoc)
        moreover have "write_spec s T pk vs conflict = Ok (T(pk \<mapsto> ?new))" using Ok ncon True by (simp add: write_spec_def Let_def)
        ultimately show ?thesis using ok_with_mono [OF drop] rest by simp
      qed
    qed
  qed
qed

text \<open>Delete. A key of another kind than the primary key's is not considered.\<close>

lemma delete_row_refines:
  assumes tx: "rel_tx inv view hinv C s w T" and pk: "kind_of pk = pk_kind_of s" "value_ok pk"
  shows "ok_with (delete_row_in C H ops w s pk) (\<lambda>(b, w'). (b \<longleftrightarrow> T pk \<noteq> None) \<and> rel_tx inv view hinv C s w' (T(pk := None)) \<and>
    only_table s (view w) (view w'))"
proof (cases "T pk")
  case None
  have "get_in C ops w s pk = Ok None" using get_in_view [OF _ pk, of w C T] tx None by (simp add: rel_tx_def)
  then show ?thesis using tx None by (simp add: delete_row_in_def fun_upd_idem)
next
  case (Some vs)
  let ?ix = "set (td_indexed_columns s)" and ?row = "\<lparr>row_pk = pk, row_values = vs\<rparr>"
  have T: "inv w" "hinv (view w)" "table_wf s T" "schema_ok s" "rel_codecs_ok C" "base_repr C T (view w (base_table s))"
      "\<And>col. col \<in> ?ix \<Longrightarrow> view w (index_table s col) = flags (index_entries s T col)"
    using tx by (simp_all add: rel_tx_def table_repr_def)
  have row: "row_ok s pk vs" using Some T(3) by (simp add: table_wf_def)
  obtain k where k: "sortable_key pk = Some k" using row_okD(4) [OF row T(4)] by blast
  have get: "get_in C ops w s pk = Ok (Some ?row)" using get_in_view [OF _ pk, of w C T] tx Some by (simp add: rel_tx_def)
  obtain w1 where w1: "s_delete ops w (base_table s) k = Ok w1" "inv w1" "view w1 = (view w)(base_table s := (view w (base_table s))(k := None))"
    using delete_view [OF T(1) base_ok [OF T(4)]] by blast
  have ix: "view w1 (index_table s col) = flags (index_entries s T col)" if "col \<in> ?ix" for col using that T(4,7) w1(3) by simp
  have "ok_with (for_res (drop_index_entry ops s ?row) (td_indexed_columns s) w1) (\<lambda>w2. inv w2 \<and>
      (\<forall>col\<in>?ix. view w2 (index_table s col) = flags (index_entries s T col - entries s col ?row)) \<and>
      (\<forall>t. t \<notin> index_table s ` ?ix \<longrightarrow> view w2 t = view w1 t))"
    by (intro index_loop [where before = "\<lambda>col. flags (index_entries s T col)"])
      (use w1(2) ix T(4) row schema_okD(4) [OF T(4)] in \<open>auto intro!: drop_index_entry_wp\<close>)
  then obtain w2 where w2: "for_res (drop_index_entry ops s ?row) (td_indexed_columns s) w1 = Ok w2" "inv w2"
      "\<forall>col\<in>?ix. view w2 (index_table s col) = flags (index_entries s T col - entries s col ?row)"
      "\<forall>t. t \<notin> index_table s ` ?ix \<longrightarrow> view w2 t = view w1 t"
    by (auto simp: ok_with_iff)
  have "view w2 (base_table s) = (view w (base_table s))(k := None)" using w2(4) w1(3) index_not_base [OF T(4)] by simp
  moreover have "base_repr C (T(pk := None)) ((view w (base_table s))(k := None))"
    using pk by (intro base_repr_set [OF T(6,3,4) _ _ k]) auto
  moreover have "index_entries s (T(pk := None)) col = index_entries s T col - entries s col ?row" if "col \<in> ?ix" for col
    using index_entries_upd [OF T(3,4) that, of None pk] Some by simp
  ultimately have "table_repr C s (T(pk := None)) (view w2)"
    using T(4,5) table_wf_del [OF T(3)] w2(3) by (simp add: table_repr_def)
  moreover have "view w2 t = view w t" if "t \<notin> tables_of s" for t using that w2(4) w1(3) by (simp add: tables_of_def)
  ultimately have "ok_with (on_row_change H w2 s pk (Some vs) None) (\<lambda>w'. rel_tx inv view hinv C s w' (T(pk := None)) \<and> only_table s (view w) (view w'))"
    using finish_write [OF w2(2) T(2)] k by simp
  then show ?thesis using get k w1(1) w2(1) Some by (auto simp: delete_row_in_def elim!: ok_with_mono)
qed

text \<open>Point update.\<close>

lemma update_row_refines:
  assumes tx: "rel_tx inv view hinv C s w T" and pk: "kind_of pk = pk_kind_of s" "value_ok pk"
    and new: "\<And>vs. T pk = Some vs \<Longrightarrow> properties_ok (mutate vs) \<and> keys_ok s pk (bt_remove (td_primary_key s) (mutate vs))"
  shows "refines (update_spec s T pk mutate) (update_row_in C H ops w s pk mutate)
    (\<lambda>(b, T') (b', w'). b' = b \<and> rel_tx inv view hinv C s w' T' \<and> only_table s (view w) (view w'))"
proof (cases "T pk")
  case None
  have "get_in C ops w s pk = Ok None" using get_in_view [OF _ pk, of w C T] tx None by (simp add: rel_tx_def)
  then show ?thesis using tx None by (simp add: update_row_in_def update_spec_def)
next
  case (Some vs)
  let ?new = "bt_remove (td_primary_key s) (mutate vs)" and ?ix = "set (td_indexed_columns s)"
  let ?row = "\<lparr>row_pk = pk, row_values = ?new\<rparr>" and ?old = "\<lparr>row_pk = pk, row_values = vs\<rparr>"
  have T: "inv w" "hinv (view w)" "table_wf s T" "schema_ok s" "rel_codecs_ok C" "base_repr C T (view w (base_table s))"
      "\<And>col. col \<in> ?ix \<Longrightarrow> view w (index_table s col) = flags (index_entries s T col)"
    using tx by (simp_all add: rel_tx_def table_repr_def)
  have holds: "holds C s w T" using tx by (simp add: rel_tx_def)
  have row: "row_ok s pk vs" using Some T(3) by (simp add: table_wf_def)
  obtain k where k: "sortable_key pk = Some k" using row_okD(4) [OF row T(4)] by blast
  have get: "get_in C ops w s pk = Ok (Some ?old)" using get_in_view [OF _ pk, of w C T] tx Some by (simp add: rel_tx_def)
  show ?thesis
  proof (cases "validate_row s pk ?new")
    case (Err e)
    then show ?thesis using Some get by (simp add: update_spec_def update_row_in_def Let_def)
  next
    case Panic
    then show ?thesis using validate_no_panic by blast
  next
    case (Ok u)
    have "properties_ok (mutate vs)" "keys_ok s pk ?new" using new [OF Some] by simp_all
    moreover from this have "properties_ok ?new" "map_of ?new (td_primary_key s) = None"
      using properties_ok_remove by (auto simp: properties_ok_def)
    ultimately have ok: "row_ok s pk ?new" using Ok pk(2) by (simp add: row_ok_def)
    obtain bs where bs: "encode_row C ?new = Ok bs" using encode_rowE [OF T(5) row_okD(3) [OF ok T(4)]] by blast
    have unique: "check_unique C ops w s ?row (Some ?old) =
        (if unique_free s T ?row then Ok () else Err (ConstraintViolation (td_name s) ''UNIQUE column already has value''))"
      using check_unique_view [OF holds, of ?row "Some ?old"] ok Some by simp
    show ?thesis
    proof (cases "unique_free s T ?row")
      case False
      then show ?thesis using Some get Ok unique by (simp add: update_spec_def update_row_in_def Let_def)
    next
      case True
      let ?S1 = "\<lambda>col. index_entries s T col - entries s col ?old \<union> entries s col ?row"
      have old_in: "entries s col ?old \<subseteq> index_entries s T col" for col
        using Some by (auto simp: index_entries_def intro!: bexI [of _ ?old])
      have "ok_with (for_res (move_index_entry ops s pk ?old ?row) (td_indexed_columns s) w) (\<lambda>w1. inv w1 \<and>
          (\<forall>col\<in>?ix. view w1 (index_table s col) = flags (?S1 col)) \<and> (\<forall>t. t \<notin> index_table s ` ?ix \<longrightarrow> view w1 t = view w t))"
        by (intro index_loop [where before = "\<lambda>col. flags (index_entries s T col)"])
          (use T row ok old_in schema_okD(4) [OF T(4)] in \<open>auto intro!: move_index_entry_wp\<close>)
      then obtain w1 where w1: "for_res (move_index_entry ops s pk ?old ?row) (td_indexed_columns s) w = Ok w1" "inv w1"
          "\<forall>col\<in>?ix. view w1 (index_table s col) = flags (?S1 col)" "\<forall>t. t \<notin> index_table s ` ?ix \<longrightarrow> view w1 t = view w t"
        by (auto simp: ok_with_iff)
      obtain w2 where w2: "s_put ops w1 (base_table s) k bs = Ok w2" "inv w2" "view w2 = (view w1)(base_table s := (view w1 (base_table s))(k \<mapsto> bs))"
        using put_view [OF w1(2) base_ok [OF T(4)]] by blast
      have "view w2 (base_table s) = (view w (base_table s))(k \<mapsto> bs)" using w2(3) w1(4) index_not_base [OF T(4)] by simp
      moreover have "base_repr C (T(pk \<mapsto> ?new)) ((view w (base_table s))(k \<mapsto> bs))"
        using pk bs by (intro base_repr_set [OF T(6,3,4) _ _ k]) auto
      moreover have "index_entries s (T(pk \<mapsto> ?new)) col = ?S1 col" if "col \<in> ?ix" for col
        using index_entries_upd [OF T(3,4) that, of "Some ?new" pk] ok Some by simp
      ultimately have "table_repr C s (T(pk \<mapsto> ?new)) (view w2)"
        using T(4,5) table_wf_upd [OF T(3) ok True] w1(3) w2(3) by (simp add: table_repr_def)
      moreover have "view w2 t = view w t" if "t \<notin> tables_of s" for t using that w1(4) w2(3) by (simp add: tables_of_def)
      ultimately have "ok_with (on_row_change H w2 s pk (Some vs) (Some ?new))
          (\<lambda>w'. rel_tx inv view hinv C s w' (T(pk \<mapsto> ?new)) \<and> only_table s (view w) (view w'))"
        using finish_write [OF w2(2) T(2)] k by simp
      then show ?thesis
        using Some get Ok unique True w1(1) w2(1) k bs by (auto simp: update_row_in_def update_spec_def Let_def elim!: ok_with_mono)
    qed
  qed
qed

end

end
