(* ===== verification/Rel_Select.thy ===== *)
theory Rel_Select
  imports Rel_Plan Rel_Row_Ops "HOL-Library.Multiset"
begin

text \<open>
  Queries return what their description says: the matching rows of the table, sorted by the requested columns,
  paged and projected, whichever access path was chosen. Predicate updates and deletes change exactly the selected
  rows.
\<close>

section \<open>Sorting\<close>

lemma mset_insert_by [simp]: "mset (insert_by c x xs) = add_mset x (mset xs)"
  by (induction xs) auto

lemma mset_sort_by [simp]: "mset (sort_by c xs) = mset xs"
  by (induction xs) (simp_all add: sort_by_def)

lemma sort_by_set [simp]: "set (sort_by c xs) = set xs" "distinct (sort_by c xs) = distinct xs" "length (sort_by c xs) = length xs"
  using mset_sort_by [of c xs] by (metis mset_eq_setD, metis mset_eq_imp_distinct_iff, metis size_mset)

lemma sort_by_sorted: "sorted_wrt (\<lambda>a b. c a b \<noteq> Greater) xs \<Longrightarrow> sort_by c xs = xs"
proof (induction xs)
  case (Cons x xs)
  then have "sort_by c (x # xs) = insert_by c x xs" by (simp add: sort_by_def)
  then show ?case using Cons.prems by (cases xs) auto
qed (simp add: sort_by_def)

text \<open>A comparison that is a total preorder on a set.\<close>

definition preorder_on :: "('a \<Rightarrow> 'a \<Rightarrow> ordering) \<Rightarrow> 'a set \<Rightarrow> bool" where
  "preorder_on c A \<longleftrightarrow> (\<forall>a\<in>A. \<forall>b\<in>A. c b a = reverse_ordering (c a b)) \<and>
    (\<forall>a\<in>A. \<forall>b\<in>A. \<forall>d\<in>A. c a b \<noteq> Greater \<longrightarrow> c b d \<noteq> Greater \<longrightarrow> c a d \<noteq> Greater)"

lemma reverse_ordering_simps [simp]:
  "reverse_ordering Less = Greater" "reverse_ordering Equal = Equal" "reverse_ordering Greater = Less"
  "reverse_ordering o1 = Greater \<longleftrightarrow> o1 = Less" "reverse_ordering o1 = Less \<longleftrightarrow> o1 = Greater" "reverse_ordering o1 = Equal \<longleftrightarrow> o1 = Equal"
  "reverse_ordering (reverse_ordering o1) = o1"
  by (simp_all add: reverse_ordering_def split: ordering.splits)

lemma preorder_on_subset: "preorder_on c A \<Longrightarrow> B \<subseteq> A \<Longrightarrow> preorder_on c B"
  unfolding preorder_on_def by blast

lemma preorder_onD:
  assumes "preorder_on c A" "a \<in> A" "b \<in> A"
  shows "c b a = reverse_ordering (c a b)" "d \<in> A \<Longrightarrow> c a b \<noteq> Greater \<Longrightarrow> c b d \<noteq> Greater \<Longrightarrow> c a d \<noteq> Greater"
  using assms unfolding preorder_on_def by blast+

lemma insert_by_sorts:
  "preorder_on c (insert x (set xs)) \<Longrightarrow> sorted_wrt (\<lambda>a b. c a b \<noteq> Greater) xs \<Longrightarrow> sorted_wrt (\<lambda>a b. c a b \<noteq> Greater) (insert_by c x xs)"
proof (induction xs)
  case (Cons y ys)
  have IH: "sorted_wrt (\<lambda>a b. c a b \<noteq> Greater) (insert_by c x ys)"
    using Cons.prems by (intro Cons.IH preorder_on_subset [OF Cons.prems(1)]) auto
  have y: "c y z \<noteq> Greater" if "z \<in> set ys" for z using Cons.prems(2) that by simp
  show ?case
  proof (cases "c x y = Greater")
    case True
    then have "c y x \<noteq> Greater" using preorder_onD(1) [OF Cons.prems(1), of x y] by simp
    moreover have "set (insert_by c x ys) = insert x (set ys)" by (metis mset_insert_by set_mset_add_mset_insert set_mset_mset)
    ultimately show ?thesis using True IH y by simp
  next
    case False
    have "c x z \<noteq> Greater" if "z \<in> set ys" for z
      by (rule preorder_onD(2) [OF Cons.prems(1), of x y]) (use that False y in auto)
    then show ?thesis using False Cons.prems(2) by simp
  qed
qed simp

lemma sort_by_sorts: "preorder_on c (set xs) \<Longrightarrow> sorted_wrt (\<lambda>a b. c a b \<noteq> Greater) (sort_by c xs)"
proof (induction xs)
  case (Cons x xs)
  then have "sorted_wrt (\<lambda>a b. c a b \<noteq> Greater) (sort_by c xs)" using preorder_on_subset [OF Cons.prems, of "set xs"] by auto
  moreover have "sort_by c (x # xs) = insert_by c x (sort_by c xs)" by (simp add: sort_by_def)
  ultimately show ?case using Cons.prems insert_by_sorts [of c x "sort_by c xs"] by simp
qed (simp add: sort_by_def)

text \<open>Values of one scalar kind, or absent, compare as their images in a linear order.\<close>

definition scalar :: "column_kind \<Rightarrow> bool" where
  "scalar k \<longleftrightarrow> k \<noteq> KList \<and> k \<noteq> KMap"

definition of_kind :: "column_kind \<Rightarrow> prop_value option \<Rightarrow> bool" where
  "of_kind k v \<longleftrightarrow> (case v of None \<Rightarrow> True | Some x \<Rightarrow> x = Null \<or> kind_of x = k)"

definition scalar_key :: "prop_value option \<Rightarrow> nat \<times> int \<times> bytes" where
  "scalar_key v = (case v of None \<Rightarrow> (0, 0, []) | Some x \<Rightarrow> (case x of
      Bool b \<Rightarrow> (1, if b then 1 else 0, []) | IntV i \<Rightarrow> (2, sint i, []) | Float f \<Rightarrow> (2, f64_total_key f, [])
    | Str t \<Rightarrow> (3, 0, as_bytes t) | Bytes b \<Rightarrow> (4, 0, b) | Timestamp i \<Rightarrow> (5, sint i, []) | Uuid u \<Rightarrow> (6, 0, u) | _ \<Rightarrow> (0, 0, [])))"

lemma cmp_pair: "cmp (a, x) (b, y) = then_cmp (cmp a b) (cmp x y)"
  by (auto simp: cmp_def then_cmp_def)

lemma then_cmp_Equal_right [simp]: "then_cmp a Equal = a"
  by (cases a) (simp_all add: then_cmp_def)

lemma total_cmp_key:
  assumes "scalar k" "of_kind k a" "of_kind k b"
  shows "total_cmp a b = cmp (scalar_key a) (scalar_key b)"
proof -
  have str: "cmp t u = cmp (as_bytes t) (as_bytes u)" for t u by (rule cmp_eqI) (simp_all add: as_bytes_less_iff)
  have bool: "cmp t u = cmp (if t then 1 else 0 :: int) (if u then 1 else 0)" for t u by (cases t; cases u) (simp_all add: cmp_def)
  note str' = str [symmetric] and bool' = bool [symmetric]
  have none: "v = None \<or> v = Some Null \<or> (\<exists>x. v = Some x \<and> kind_of x = k \<and> x \<noteq> Null)" if "of_kind k v" for v
    using that by (cases v) (auto simp: of_kind_def)
  have both: "total_cmp (Some x) (Some y) = cmp (scalar_key (Some x)) (scalar_key (Some y))" if "kind_of x = kind_of y" "scalar (kind_of x)" for x y
    using that by (cases x; cases y) (simp_all add: scalar_def total_cmp_def rank_def scalar_key_def cmp_pair f64_total_cmp_def str' bool')
  have one: "total_cmp v (Some x) = cmp (scalar_key v) (scalar_key (Some x))" "total_cmp (Some x) v = cmp (scalar_key (Some x)) (scalar_key v)"
    if "v = None \<or> v = Some Null" "scalar (kind_of x)" for x v
    using that by (cases x; auto simp: scalar_def total_cmp_def rank_def scalar_key_def cmp_pair cmp_def)+
  have "total_cmp v u = cmp (scalar_key v) (scalar_key u)" if "v = None \<or> v = Some Null" "u = None \<or> u = Some Null" for v u
    using that by (auto simp: total_cmp_def rank_def scalar_key_def)
  then show ?thesis using none [OF assms(2)] none [OF assms(3)] both one assms(1) by metis
qed

lemma preorder_key: "(\<And>a b. a \<in> A \<Longrightarrow> b \<in> A \<Longrightarrow> c a b = cmp (f a) (f b)) \<Longrightarrow> preorder_on c A"
  unfolding preorder_on_def
proof (intro conjI ballI impI)
  fix a b d assume c: "\<And>a b. a \<in> A \<Longrightarrow> b \<in> A \<Longrightarrow> c a b = cmp (f a) (f b)" and abd: "a \<in> A" "b \<in> A" "d \<in> A"
    and le: "c a b \<noteq> Greater" "c b d \<noteq> Greater"
  then have "f a \<le> f b" "f b \<le> f d" by (simp_all add: not_less)
  then have "f a \<le> f d" by (rule order_trans)
  then show "c a d \<noteq> Greater" using c abd by (simp add: not_less)
qed (simp add: reverse_cmp)

lemma preorder_reverse: "preorder_on c A \<Longrightarrow> preorder_on (\<lambda>a b. reverse_ordering (c a b)) A"
proof -
  assume p: "preorder_on c A"
  have r: "reverse_ordering (c a b) = c b a" if "a \<in> A" "b \<in> A" for a b using preorder_onD(1) [OF p that] by simp
  show ?thesis
    unfolding preorder_on_def
  proof (intro conjI ballI impI)
    fix a b d assume "a \<in> A" "b \<in> A" "d \<in> A" "reverse_ordering (c a b) \<noteq> Greater" "reverse_ordering (c b d) \<noteq> Greater"
    then show "reverse_ordering (c a d) \<noteq> Greater" unfolding r [OF \<open>a \<in> A\<close> \<open>b \<in> A\<close>] r [OF \<open>b \<in> A\<close> \<open>d \<in> A\<close>] r [OF \<open>a \<in> A\<close> \<open>d \<in> A\<close>]
      using preorder_onD(2) [OF p, of d b a] by blast
  next
    fix a b assume "a \<in> A" "b \<in> A"
    then show "reverse_ordering (c b a) = reverse_ordering (reverse_ordering (c a b))" by (simp only: r)
  qed
qed

lemma preorder_lex:
  assumes "preorder_on c A" "preorder_on d A"
  shows "preorder_on (\<lambda>a b. if c a b \<noteq> Equal then c a b else d a b) A"
proof -
  have strict: "c x z = Less" if "x \<in> A" "y \<in> A" "z \<in> A" "c x y \<noteq> Greater" "c y z \<noteq> Greater" "c x y = Less \<or> c y z = Less" for x y z
  proof (rule ccontr)
    assume "c x z \<noteq> Less"
    then have "c z x \<noteq> Greater" using preorder_onD(1) [OF assms(1) that(1,3)] by simp
    moreover have "c y x \<noteq> Greater \<and> c z y \<noteq> Greater"
      using calculation preorder_onD(2) [OF assms(1)] that(1-5) by blast
    ultimately show False using preorder_onD(1) [OF assms(1) that(1,2)] preorder_onD(1) [OF assms(1) that(2,3)] that(6) by auto
  qed
  have eq: "c x z = Equal" if "x \<in> A" "y \<in> A" "z \<in> A" "c x y = Equal" "c y z = Equal" for x y z
  proof -
    have "c x z \<noteq> Greater" "c z x \<noteq> Greater"
      using preorder_onD(2) [OF assms(1) that(1,2,3)] preorder_onD(2) [OF assms(1) that(3,2,1)]
        preorder_onD(1) [OF assms(1) that(1,2)] preorder_onD(1) [OF assms(1) that(2,3)] that(4,5) by auto
    then show ?thesis using preorder_onD(1) [OF assms(1) that(1,3)] by (cases "c x z") auto
  qed
  show ?thesis
    unfolding preorder_on_def
  proof (intro conjI ballI impI)
    fix a b assume ab: "a \<in> A" "b \<in> A"
    show "(if c b a \<noteq> Equal then c b a else d b a) = reverse_ordering (if c a b \<noteq> Equal then c a b else d a b)"
      using preorder_onD(1) [OF assms(1) ab] preorder_onD(1) [OF assms(2) ab] by simp
  next
    fix x y z assume xyz: "x \<in> A" "y \<in> A" "z \<in> A"
      and l: "(if c x y \<noteq> Equal then c x y else d x y) \<noteq> Greater" "(if c y z \<noteq> Equal then c y z else d y z) \<noteq> Greater"
    then have le: "c x y \<noteq> Greater" "c y z \<noteq> Greater" by (auto split: if_splits)
    show "(if c x z \<noteq> Equal then c x z else d x z) \<noteq> Greater"
    proof (cases "c x y = Less \<or> c y z = Less")
      case True
      then show ?thesis using strict [OF xyz le] by simp
    next
      case False
      then have e: "c x y = Equal" "c y z = Equal" using le by (cases "c x y"; cases "c y z"; simp)+
      then show ?thesis using eq [OF xyz] l preorder_onD(2) [OF assms(2) xyz(1,2,3)] by simp
    qed
  qed
qed

text \<open>The order of a query whose columns are scalar.\<close>

definition scalar_order :: "table_schema \<Rightarrow> (string \<times> order) list \<Rightarrow> bool" where
  "scalar_order s ord \<longleftrightarrow> (\<forall>(c, _)\<in>set ord. \<exists>d. ts_column s c = Some d \<and> scalar (cs_kind d))"

lemma row_of_kind:
  assumes "row_ok s (row_pk x) (row_values x)" "schema_ok s" "ts_column s c = Some d"
  shows "of_kind (cs_kind d) (resolve s x c)"
proof (cases "c = td_primary_key s")
  case True
  then show ?thesis using assms row_okD(1) [OF assms(1,2)] by (simp add: of_kind_def resolve_def row_get_def pk_kind_of_def)
next
  case False
  then have r: "resolve s x c = map_of (row_values x) c" using assms(3) by (simp add: resolve_def row_get_def)
  show ?thesis
  proof (cases "map_of (row_values x) c")
    case (Some v)
    then have "(c, v) \<in> set (row_values x)" by (rule map_of_SomeD)
    then show ?thesis using r Some validate_value(3) [OF _ assms(2), of "row_pk x" "row_values x" c v] assms(1,3)
      by (auto simp: of_kind_def row_ok_def)
  qed (simp add: r of_kind_def)
qed

lemma order_cmp_preorder:
  assumes "scalar_order s ord" "schema_ok s" "\<And>x. x \<in> A \<Longrightarrow> row_ok s (row_pk x) (row_values x)"
  shows "preorder_on (order_cmp s ord) A"
  using assms(1)
proof (induction ord)
  case Nil
  then show ?case by (auto simp: preorder_on_def)
next
  case (Cons cd ord)
  obtain c d where cd: "cd = (c, d)" by (cases cd)
  obtain col where col: "ts_column s c = Some col" "scalar (cs_kind col)" using Cons.prems cd by (auto simp: scalar_order_def)
  have "preorder_on (\<lambda>a b. total_cmp (resolve s a c) (resolve s b c)) A"
    using total_cmp_key [OF col(2)] row_of_kind [OF assms(3) assms(2) col(1)] by (intro preorder_key [where f = "\<lambda>x. scalar_key (resolve s x c)"]) blast
  then have first: "preorder_on (\<lambda>a b. if d = Desc then reverse_ordering (total_cmp (resolve s a c) (resolve s b c)) else total_cmp (resolve s a c) (resolve s b c)) A"
    using preorder_reverse by (cases d) auto
  have rest: "preorder_on (order_cmp s ord) A" using Cons.IH Cons.prems by (simp add: scalar_order_def)
  show ?case using preorder_lex [OF first rest] unfolding cd by (simp add: Let_def cong: if_cong)
qed

section \<open>Selection\<close>

definition page :: "query \<Rightarrow> 'a list \<Rightarrow> 'a list" where
  "page q xs = drop (q_offset q) (case q_limit q of None \<Rightarrow> xs | Some l \<Rightarrow> take (sat_add l (q_offset q)) xs)"

text \<open>\<open>selects\<close>: the answer of a query over the rows of a table.\<close>

definition selects :: "(nat \<Rightarrow> nat list) \<Rightarrow> table_schema \<Rightarrow> rows \<Rightarrow> query \<Rightarrow> row list \<Rightarrow> bool" where
  "selects lower s T q out \<longleftrightarrow> (\<exists>rows. distinct rows \<and> set rows = {x \<in> rows_in T. matches lower q s x} \<and>
    out = map (project_row q) (page q (sort_by (order_cmp s (q_order q)) rows)))"

lemma take_matching_Ok:
  "(\<And>w. wanted = Some w \<Longrightarrow> length out \<le> w) \<Longrightarrow> take_matching wanted P (map Ok rows) out =
    Ok (out @ (case wanted of None \<Rightarrow> filter P rows | Some w \<Rightarrow> take (w - length out) (filter P rows)))"
proof (induction rows arbitrary: out)
  case (Cons x rows)
  show ?case
  proof (cases "\<exists>w. wanted = Some w \<and> w \<le> length out")
    case False
    have IH: "take_matching wanted P (map Ok rows) (out @ [x]) =
        Ok ((out @ [x]) @ (case wanted of None \<Rightarrow> filter P rows | Some w \<Rightarrow> take (w - length (out @ [x])) (filter P rows)))"
      using Cons.IH [of "out @ [x]"] False by fastforce
    have IH': "take_matching wanted P (map Ok rows) out = Ok (out @ (case wanted of None \<Rightarrow> filter P rows | Some w \<Rightarrow> take (w - length out) (filter P rows)))"
      using Cons.IH [of out] Cons.prems by blast
    show ?thesis using False IH IH' by (cases wanted) (auto simp: take_Cons' not_le)
  qed (use Cons.prems in auto)
qed (auto split: option.splits)

lemma page_window: "drop (min off n) (take (min (sat_add (min off n) l) n) xs) = drop off (take (sat_add l off) xs)" if "length xs = n"
proof (cases "off \<le> n")
  case True
  then show ?thesis using that by (simp add: sat_add_def min_def add.commute)
next
  case False
  then show ?thesis using that by simp
qed

lemma order_pk_sorted:
  assumes "schema_ok s" "\<And>x. x \<in> set rows \<Longrightarrow> row_ok s (row_pk x) (row_values x)" "key_sorted rows"
  shows "sorted_wrt (\<lambda>a b. order_cmp s [(td_primary_key s, Asc)] a b \<noteq> Greater) rows"
proof -
  obtain c where c: "ts_column s (td_primary_key s) = Some c" using schema_pk [OF assms(1)] by metis
  have "order_cmp s [(td_primary_key s, Asc)] a b \<noteq> Greater"
    if ab: "a \<in> set rows" "b \<in> set rows" "the (sortable_key (row_pk a)) < the (sortable_key (row_pk b))" for a b
  proof -
    have ok: "row_ok s (row_pk a) (row_values a)" "row_ok s (row_pk b) (row_values b)" using assms(2) ab by blast+
    obtain ka kb where k: "sortable_key (row_pk a) = Some ka" "sortable_key (row_pk b) = Some kb" using row_okD(4) [OF ok(1) assms(1)] row_okD(4) [OF ok(2) assms(1)] by blast
    have kind: "kind_of (row_pk a) = kind_of (row_pk b)" using row_okD(1) [OF ok(1) assms(1)] row_okD(1) [OF ok(2) assms(1)] by simp
    have "compare_values (row_pk a) (row_pk b) = Some (cmp ka kb)" using k kind by (intro sortable_key_cmp) (simp_all add: kind_of_name)
    then have "compare_values (row_pk a) (row_pk b) = Some Less" using ab(3) k by simp
    then have "total_cmp (Some (row_pk a)) (Some (row_pk b)) = Less"
      using kind k by (cases "row_pk a"; cases "row_pk b") (simp_all add: total_cmp_def rank_def sortable_key_def)
    then show ?thesis using c by (simp add: resolve_def row_get_def)
  qed
  then show ?thesis using assms(3) by (auto simp: key_sorted_def sorted_wrt_map intro: sorted_wrt_mono_rel [rotated])
qed

lemma key_sorted_filter: "key_sorted rows \<Longrightarrow> key_sorted (filter P rows)"
  by (auto simp: key_sorted_def sorted_wrt_map sorted_wrt_filter)

context rel_read
begin

lemma matching_rows_view:
  assumes "holds C s r T" "\<forall>f\<in>set (q_filters q). expr_ok f"
  shows "\<exists>a rows. plan s (q_filters q) = Ok a \<and> candidates C ops r s a = Ok (map Ok rows) \<and>
    matching_rows lower C ops r s q = Ok (map Ok (filter (matches lower q s) rows)) \<and> (key_ordered a \<longrightarrow> key_sorted rows) \<and>
    distinct rows \<and> set (filter (matches lower q s) rows) = {x \<in> rows_in T. matches lower q s x}"
proof -
  obtain a rows where a: "plan s (q_filters q) = Ok a" "candidates C ops r s a = Ok (map Ok rows)" "covers lower s T (q_filters q) rows"
      "key_ordered a \<longrightarrow> key_sorted rows"
    using candidates_view [OF assms] by blast
  have "filter (\<lambda>x. case x of Ok row \<Rightarrow> matches lower q s row | _ \<Rightarrow> True) (map Ok rows) = map Ok (filter (matches lower q s) rows)"
    by (induction rows) auto
  moreover have "set (filter (matches lower q s) rows) = {x \<in> rows_in T. matches lower q s x}"
    using a(3) by (auto simp: covers_def matches_def list_all_iff)
  ultimately show ?thesis using a by (intro exI [of _ a] exI [of _ rows]) (simp add: matching_rows_def covers_def)
qed

theorem select_in_view:
  assumes "holds C s r T" "\<forall>f\<in>set (q_filters q). expr_ok f" "check_columns q s [] = Ok ()"
  shows "\<exists>out. select_in lower C ops r s q = Ok out \<and> selects lower s T q out"
proof -
  let ?P = "matches lower q s" and ?c = "order_cmp s (q_order q)"
  have T: "schema_ok s" "table_wf s T" using assms(1) by (simp_all add: table_repr_def)
  obtain a rows where a: "plan s (q_filters q) = Ok a" "candidates C ops r s a = Ok (map Ok rows)"
      "matching_rows lower C ops r s q = Ok (map Ok (filter ?P rows))" "key_ordered a \<Longrightarrow> key_sorted rows"
      "distinct rows" "set (filter ?P rows) = {x \<in> rows_in T. ?P x}"
    using matching_rows_view [OF assms(1,2)] by blast
  have window: "drop (min (q_offset q) (length xs)) (take (case q_limit q of None \<Rightarrow> length xs
      | Some l \<Rightarrow> min (sat_add (min (q_offset q) (length xs)) l) (length xs)) xs) = page q xs" for xs :: "row list"
    using page_window [OF refl, of "q_offset q" xs] by (cases "q_limit q") (auto simp: page_def min_def)
  have "select_in lower C ops r s q = Ok (map (project_row q) (page q (sort_by ?c (filter ?P rows))))"
  proof (cases "q_order q = [] \<or> presorted s q a")
    case True
    have "sorted_wrt (\<lambda>a b. ?c a b \<noteq> Greater) (filter ?P rows)"
    proof (cases "q_order q = []")
      case False
      then have "q_order q = [(td_primary_key s, Asc)]" "key_sorted (filter ?P rows)"
        using True a(4) key_sorted_filter by (auto simp: presorted_def key_ordered_def)
      moreover have "row_ok s (row_pk x) (row_values x)" if "x \<in> set (filter ?P rows)" for x using that a(6) table_wf_row [OF T(2)] by blast
      ultimately show ?thesis using order_pk_sorted [OF T(1), of "filter ?P rows"] by simp
    qed (simp add: sorted_wrt_iff_nth_less)
    then have "sort_by ?c (filter ?P rows) = filter ?P rows" by (rule sort_by_sorted)
    then show ?thesis using True assms(3) a(1,2)
      by (cases "q_limit q") (auto simp: select_in_def take_matching_Ok page_def min_def Let_def)
  next
    case False
    then show ?thesis using assms(3) a(1,3) window [of "sort_by ?c (filter ?P rows)"] by (simp add: select_in_def Let_def)
  qed
  moreover have "distinct (filter ?P rows)" using a(5) by simp
  ultimately show ?thesis using a(6) unfolding selects_def by blast
qed

theorem count_in_view:
  assumes "holds C s r T" "\<forall>f\<in>set (q_filters q). expr_ok f" "check_columns q s [] = Ok ()"
  shows "count_in lower C ops r s q = Ok (card {x \<in> rows_in T. matches lower q s x})"
proof -
  let ?P = "matches lower q s"
  obtain rows where a: "matching_rows lower C ops r s q = Ok (map Ok (filter ?P rows))" "distinct rows" "set (filter ?P rows) = {x \<in> rows_in T. ?P x}"
    using matching_rows_view [OF assms(1,2)] by blast
  have "for_res (\<lambda>x n. bind_res x (\<lambda>_. Ok (n + 1))) (map Ok xs) n = Ok (n + length xs)" for xs :: "row list" and n
    by (induction xs arbitrary: n) auto
  moreover have "length (filter ?P rows) = card {x \<in> rows_in T. ?P x}" using a(2,3) distinct_card [of "filter ?P rows"] by simp
  ultimately show ?thesis using a(1) assms(3) by (simp add: count_in_def)
qed

end

end
