(* ===== verification/Rel_Bulk.thy ===== *)
theory Rel_Bulk
  imports Rel_Select
begin

text \<open>
  Writes of several rows: predicate updates and deletes implement the row by row specification on the rows a query
  selects, and insertion into an auto-increment table hands out keys that no row has.
\<close>

section \<open>Selected rows\<close>

lemma selects_rows:
  assumes "selects lower s T (q\<lparr>q_columns := None\<rparr>) out"
  shows "distinct out" "set out \<subseteq> rows_in T" "x \<in> set out \<Longrightarrow> matches lower q s x"
    "q_limit q = None \<Longrightarrow> q_offset q = 0 \<Longrightarrow> set out = {x \<in> rows_in T. matches lower q s x}"
proof -
  let ?q = "q\<lparr>q_columns := None\<rparr>"
  obtain rows where rows: "distinct rows" "set rows = {x \<in> rows_in T. matches lower ?q s x}" "out = map (project_row ?q) (page ?q (sort_by (order_cmp s (q_order ?q)) rows))"
    using assms by (auto simp: selects_def)
  have "project_row ?q = (\<lambda>x. x)" by (simp add: project_row_def fun_eq_iff)
  moreover have "page ?q xs = page q xs" for xs :: "row list" by (cases "q_limit q") (simp_all add: page_def)
  ultimately have out: "out = page q (sort_by (order_cmp s (q_order q)) rows)" using rows(3) by simp
  have m: "matches lower ?q s = matches lower q s" by (simp add: matches_def fun_eq_iff)
  have sub: "set (page q xs) \<subseteq> set xs" "distinct xs \<Longrightarrow> distinct (page q xs)" for xs :: "row list"
    by (auto simp: page_def dest: in_set_dropD in_set_takeD split: option.splits)
  show "distinct out" "set out \<subseteq> rows_in T" "x \<in> set out \<Longrightarrow> matches lower q s x"
    using sub [of "sort_by (order_cmp s (q_order q)) rows"] rows(1,2) out m by auto
  show "set out = {x \<in> rows_in T. matches lower q s x}" if "q_limit q = None" "q_offset q = 0"
    using out rows(2) m that by (simp add: page_def)
qed

definition without :: "rows \<Rightarrow> row list \<Rightarrow> rows" where
  "without T xs = (\<lambda>pk. if pk \<in> row_pk ` set xs then None else T pk)"

definition update_all :: "table_schema \<Rightarrow> (string \<times> prop_value) list \<Rightarrow> row list \<Rightarrow> rows \<Rightarrow> (nat \<times> rows) res" where
  "update_all s sets targets T = for_res (\<lambda>row (n, T).
    bind_res (update_spec s T (row_pk row) (apply_sets sets)) (\<lambda>(changed, T). Ok (n + (if changed then 1 else 0), T))) targets (0, T)"

text \<open>The assignments of an update: valid values, with key encodings where the column is indexed.\<close>

definition sets_ok :: "table_schema \<Rightarrow> (string \<times> prop_value) list \<Rightarrow> bool" where
  "sets_ok s sets \<longleftrightarrow> (\<forall>(c, v)\<in>set sets. str_ok c \<and> value_ok v \<and> (c \<in> set (td_indexed_columns s) \<longrightarrow> v \<noteq> Null \<longrightarrow> sortable_key v \<noteq> None))"

lemma apply_sets_ok:
  assumes "sets_ok s sets" "row_ok s pk vs" "schema_ok s"
  shows "properties_ok (apply_sets sets vs)" "keys_ok s pk (bt_remove (td_primary_key s) (apply_sets sets vs))"
proof -
  let ?K = "\<lambda>m. \<forall>col\<in>set (td_indexed_columns s). \<forall>v. map_of m col = Some v \<longrightarrow> v \<noteq> Null \<longrightarrow> sortable_key v \<noteq> None"
  have step: "properties_ok (apply_sets xs m) \<and> ?K (apply_sets xs m)" if "sets_ok s xs" "properties_ok m" "?K m" for xs m
    using that
  proof (induction xs arbitrary: m)
    case (Cons cv xs)
    obtain c v where cv: "cv = (c, v)" by (cases cv)
    have "properties_ok (bt_insert c v m)" "?K (bt_insert c v m)"
      using Cons.prems cv by (auto simp: sets_ok_def intro!: properties_ok_insert split: if_splits)
    then show ?case using Cons.IH [of "bt_insert c v m"] Cons.prems(1) cv by (simp add: apply_sets_def sets_ok_def)
  qed (simp add: apply_sets_def)
  have vs: "properties_ok vs" "?K vs" "sortable_key pk \<noteq> None" using assms(2) by (simp_all add: row_ok_def keys_ok_def)
  show ok: "properties_ok (apply_sets sets vs)" using step [OF assms(1) vs(1,2)] by blast
  then show "keys_ok s pk (bt_remove (td_primary_key s) (apply_sets sets vs))"
    using step [OF assms(1) vs(1,2)] vs(3) by (auto simp: keys_ok_def properties_ok_def split: if_splits)
qed

context rel_store
begin

lemma delete_in_refines:
  assumes tx: "rel_tx inv view hinv C s w T" and q: "\<forall>f\<in>set (q_filters q). expr_ok f" "check_columns (q\<lparr>q_columns := None\<rparr>) s [] = Ok ()"
  shows "\<exists>targets. selects lower s T (q\<lparr>q_columns := None\<rparr>) targets \<and>
    ok_with (delete_in lower C H ops w s q) (\<lambda>(n, w'). n = length targets \<and> rel_tx inv view hinv C s w' (without T targets) \<and> only_table s (view w) (view w'))"
proof -
  have holds: "holds C s w T" using tx by (simp add: rel_tx_def)
  have T: "schema_ok s" "table_wf s T" using tx by (simp_all add: rel_tx_def table_repr_def)
  obtain targets where t: "select_in lower C ops w s (q\<lparr>q_columns := None\<rparr>) = Ok targets" "selects lower s T (q\<lparr>q_columns := None\<rparr>) targets"
    using select_in_view [OF holds _ q(2)] q(1) by auto
  note sel = selects_rows [OF t(2)]
  have "ok_with (for_res (\<lambda>row (n, w). bind_res (delete_row_in C H ops w s (row_pk row)) (\<lambda>(removed, w). Ok (n + (if removed then 1 else 0), w))) targets (0, w))
    ((\<lambda>ys (n, w'). n = length ys \<and> rel_tx inv view hinv C s w' (without T ys) \<and> only_table s (view w) (view w')) targets)"
  proof (rule for_res_rule)
    fix ys x zs st
    assume split: "targets = ys @ x # zs" and I: "case st of (n, w1) \<Rightarrow> n = length ys \<and> rel_tx inv view hinv C s w1 (without T ys) \<and> only_table s (view w) (view w1)"
    obtain n w1 where st: "st = (n, w1)" by (cases st)
    have x: "x \<in> rows_in T" "set ys \<subseteq> rows_in T" "x \<notin> set ys" using sel(1,2) split by auto
    have row: "row_ok s (row_pk x) (row_values x)" using table_wf_row [OF T(2) x(1)] .
    have "row_pk x \<notin> row_pk ` set ys" using x rows_in_pk_eq by blast
    then have here: "without T ys (row_pk x) \<noteq> None" using x(1) by (simp add: without_def rows_in_def)
    have upd: "(without T ys)(row_pk x := None) = without T (ys @ [x])" by (auto simp: without_def)
    have I1: "n = length ys" "rel_tx inv view hinv C s w1 (without T ys)" "only_table s (view w) (view w1)" using I st by auto
    have del: "ok_with (delete_row_in C H ops w1 s (row_pk x)) (\<lambda>(b, w'). (b \<longleftrightarrow> without T ys (row_pk x) \<noteq> None) \<and>
        rel_tx inv view hinv C s w' ((without T ys)(row_pk x := None)) \<and> only_table s (view w1) (view w'))"
      using delete_row_refines [OF I1(2) row_okD(1,2) [OF row T(1)]] .
    show "ok_with ((\<lambda>(n, w). bind_res (delete_row_in C H ops w s (row_pk x)) (\<lambda>(removed, w). Ok (n + (if removed then 1 else 0), w))) st)
        (\<lambda>(n, w'). n = length (ys @ [x]) \<and> rel_tx inv view hinv C s w' (without T (ys @ [x])) \<and> only_table s (view w) (view w'))"
      unfolding st prod.case ok_with_simps
      by (rule ok_with_mono [OF del]) (use here upd I1 in \<open>auto intro: only_table_trans\<close>)
  qed (use tx in \<open>simp add: without_def\<close>)
  then show ?thesis using t by (intro exI [of _ targets]) (simp add: delete_in_def)
qed

lemma update_in_refines:
  assumes tx: "rel_tx inv view hinv C s w T" and q: "\<forall>f\<in>set (q_filters q). expr_ok f" "check_columns (q\<lparr>q_columns := None\<rparr>) s [] = Ok ()"
    and sets: "sets_ok s sets" "td_primary_key s \<notin> fst ` set sets"
  shows "\<exists>targets. selects lower s T (q\<lparr>q_columns := None\<rparr>) targets \<and>
    refines (update_all s sets targets T) (update_in lower C H ops w s q sets)
      (\<lambda>(n, T') (n', w'). n' = n \<and> rel_tx inv view hinv C s w' T' \<and> only_table s (view w) (view w'))"
proof -
  have holds: "holds C s w T" using tx by (simp add: rel_tx_def)
  have T: "schema_ok s" "table_wf s T" using tx by (simp_all add: rel_tx_def table_repr_def)
  obtain targets where t: "select_in lower C ops w s (q\<lparr>q_columns := None\<rparr>) = Ok targets" "selects lower s T (q\<lparr>q_columns := None\<rparr>) targets"
    using select_in_view [OF holds _ q(2)] q(1) by auto
  let ?R = "\<lambda>(n, T') (n', w'). n' = n \<and> rel_tx inv view hinv C s w' T' \<and> only_table s (view w) (view w')"
  have "refines (update_all s sets targets T) (for_res (\<lambda>row (n, w).
      bind_res (update_row_in C H ops w s (row_pk row) (apply_sets sets)) (\<lambda>(changed, w). Ok (n + (if changed then 1 else 0), w))) targets (0, w)) ?R"
    unfolding update_all_def
  proof (rule refines_for_res)
    fix x and st1 :: "nat \<times> rows" and st2
    assume x: "x \<in> set targets" and R: "?R st1 st2"
    obtain n T1 where st1: "st1 = (n, T1)" by (cases st1)
    obtain m w1 where st2: "st2 = (m, w1)" by (cases st2)
    have R1: "m = n" "rel_tx inv view hinv C s w1 T1" "only_table s (view w) (view w1)" using R st1 st2 by auto
    have row: "row_ok s (row_pk x) (row_values x)" using table_wf_row [OF T(2)] selects_rows(2) [OF t(2)] x by blast
    have "properties_ok (apply_sets sets vs) \<and> keys_ok s (row_pk x) (bt_remove (td_primary_key s) (apply_sets sets vs))" if "T1 (row_pk x) = Some vs" for vs
    proof -
      have "table_wf s T1" using R1(2) by (simp add: rel_tx_def table_repr_def)
      then have "row_ok s (row_pk x) vs" using that unfolding table_wf_def by blast
      then show ?thesis using apply_sets_ok [OF sets(1) _ T(1)] by blast
    qed
    then have upd: "refines (update_spec s T1 (row_pk x) (apply_sets sets)) (update_row_in C H ops w1 s (row_pk x) (apply_sets sets))
        (\<lambda>(b, T') (b', w'). b' = b \<and> rel_tx inv view hinv C s w' T' \<and> only_table s (view w1) (view w'))"
      using update_row_refines [OF R1(2) row_okD(1,2) [OF row T(1)]] by blast
    show "refines ((\<lambda>(n, T). bind_res (update_spec s T (row_pk x) (apply_sets sets)) (\<lambda>(changed, T). Ok (n + (if changed then 1 else 0), T))) st1)
        ((\<lambda>(n, w). bind_res (update_row_in C H ops w s (row_pk x) (apply_sets sets)) (\<lambda>(changed, w). Ok (n + (if changed then 1 else 0), w))) st2) ?R"
      unfolding st1 st2 prod.case
      by (intro refines_bind refines_mono [OF upd]) (use R1(1,3) in \<open>auto simp: refines_simps intro: only_table_trans\<close>)
  qed (use tx in simp)
  moreover have "\<not> list_ex (\<lambda>(c, _). c = td_primary_key s) sets" using sets(2) by (force simp: list_ex_iff)
  ultimately show ?thesis using t by (intro exI [of _ targets]) (simp add: update_in_def)
qed

end

end
