(* ===== verification/Rel_Auto.thy ===== *)
theory Rel_Auto
  imports Rel_Bulk
begin

text \<open>
  Inserting rows: the keys \<open>insert_bulk_in\<close> hands out and the counter it takes them from. The specification
  \<open>insert_spec\<close> allocates the keys of one call from a block that starts at the counter; \<open>auto_at\<close> says that the counter
  is past every positive integer key of the table. Inserts keep it so, hence a key allocated by a call of its own is
  new; a call that mixes explicit and allocated keys can hand out a key it has just stored. \<open>counter_after\<close> is the exact
  value of the counter after a call, for callers that insert again.
\<close>

section \<open>Specification\<close>

definition choose_pk :: "table_schema \<Rightarrow> i64 \<Rightarrow> properties \<Rightarrow> (i64 \<times> prop_value) res" where
  "choose_pk s next vs =
    (if allocates_pk s vs then Ok (next + 1, IntV next)
     else bind_res (ok_or (explicit_pk s vs) (Encoding ''missing primary key column'')) (\<lambda>pk. Ok (next, pk)))"

definition insert_one_spec :: "table_schema \<Rightarrow> on_conflict \<Rightarrow> properties \<Rightarrow> i64 \<times> prop_value list \<times> rows \<Rightarrow> (i64 \<times> prop_value list \<times> rows) res" where
  "insert_one_spec s conflict vs st = (case st of (next, pks, T) \<Rightarrow>
    bind_res (choose_pk s next vs) (\<lambda>(next, pk).
    bind_res (write_spec s T pk vs conflict) (\<lambda>T. Ok (next, pks @ [pk], T))))"

definition insert_spec :: "table_schema \<Rightarrow> on_conflict \<Rightarrow> i64 \<Rightarrow> properties list \<Rightarrow> rows \<Rightarrow> (prop_value list \<times> rows) res" where
  "insert_spec s conflict n items T =
    bind_res (for_res (insert_one_spec s conflict) items (if list_ex (allocates_pk s) items then n else 0, [], T)) (\<lambda>(_, pks, T). Ok (pks, T))"

definition keyed_spec :: "table_schema \<Rightarrow> on_conflict \<Rightarrow> (prop_value \<times> properties) list \<Rightarrow> rows \<Rightarrow> rows res" where
  "keyed_spec s conflict items T = for_res (\<lambda>(pk, vs) T. write_spec s T pk vs conflict) items T"

text \<open>The counter of the table is \<open>n\<close>, and past every positive integer key.\<close>

definition auto_at :: "table_schema \<Rightarrow> store \<Rightarrow> rows \<Rightarrow> u64 \<Rightarrow> bool" where
  "auto_at s \<sigma> T n \<longleftrightarrow>
    (case \<sigma> meta_table (row_counter_key (td_name s)) of None \<Rightarrow> n = 1 | Some bs \<Rightarrow> bs = be64 n) \<and> 0 < n \<and>
    (\<forall>i. T (IntV i) \<noteq> None \<longrightarrow> 0 < sint i \<longrightarrow> i < n)"

definition set_counter :: "table_schema \<Rightarrow> u64 \<Rightarrow> store \<Rightarrow> store" where
  "set_counter s n \<sigma> = \<sigma>(meta_table := (\<sigma> meta_table)(row_counter_key (td_name s) \<mapsto> be64 n))"

text \<open>What an insert may change: the table, its counter, and search data.\<close>

definition only_table_auto :: "table_schema \<Rightarrow> store \<Rightarrow> store \<Rightarrow> bool" where
  "only_table_auto s \<sigma> \<sigma>' \<longleftrightarrow> only_table s \<sigma> \<sigma>' \<or> (\<exists>n. only_table s (set_counter s n \<sigma>) \<sigma>')"

text \<open>A transaction that holds the table, with its counter at \<open>limit\<close> or later; \<open>\<sigma>\<close> is the store it started from.\<close>

definition auto_tx :: "('w \<Rightarrow> bool) \<Rightarrow> ('w \<Rightarrow> store) \<Rightarrow> (store \<Rightarrow> bool) \<Rightarrow> rel_codecs \<Rightarrow> table_schema \<Rightarrow> u64 \<Rightarrow> store \<Rightarrow> 'w \<Rightarrow> rows \<Rightarrow> bool" where
  "auto_tx I view hinv C s limit \<sigma> w T \<longleftrightarrow> rel_tx I view hinv C s w T \<and> only_table_auto s \<sigma> (view w) \<and>
    (td_auto_increment_pk s \<longrightarrow> (\<exists>c. auto_at s (view w) T c \<and> limit \<le> c))"

text \<open>The same with the exact value of the counter; a table without automatic keys does not touch it.\<close>

definition auto_exact :: "('w \<Rightarrow> bool) \<Rightarrow> ('w \<Rightarrow> store) \<Rightarrow> (store \<Rightarrow> bool) \<Rightarrow> rel_codecs \<Rightarrow> table_schema \<Rightarrow> u64 \<Rightarrow> store \<Rightarrow> 'w \<Rightarrow> rows \<Rightarrow> bool" where
  "auto_exact I view hinv C s c \<sigma> w T \<longleftrightarrow> rel_tx I view hinv C s w T \<and> only_table_auto s \<sigma> (view w) \<and>
    (if td_auto_increment_pk s then auto_at s (view w) T c
     else view w meta_table (row_counter_key (td_name s)) = \<sigma> meta_table (row_counter_key (td_name s)))"

text \<open>Where the counter is after a call: an allocating call reserves its block first; then every positive explicit key
  moves the counter past it.\<close>

definition bump_counter :: "table_schema \<Rightarrow> prop_value \<Rightarrow> u64 \<Rightarrow> u64" where
  "bump_counter s pk c = (case pk of
      IntV i \<Rightarrow> if td_auto_increment_pk s \<and> 0 < sint i \<and> c < i + 1 then i + 1 else c
    | _ \<Rightarrow> c)"

definition counter_step :: "table_schema \<Rightarrow> properties \<Rightarrow> u64 \<Rightarrow> u64" where
  "counter_step s vs c = (if allocates_pk s vs then c else case explicit_pk s vs of Some pk \<Rightarrow> bump_counter s pk c | None \<Rightarrow> c)"

definition counter_after :: "table_schema \<Rightarrow> u64 \<Rightarrow> properties list \<Rightarrow> u64" where
  "counter_after s c items = fold (counter_step s) items (c + word_of_nat (length (filter (allocates_pk s) items)))"

definition counter_after_keyed :: "table_schema \<Rightarrow> u64 \<Rightarrow> (prop_value \<times> properties) list \<Rightarrow> u64" where
  "counter_after_keyed s c items = fold (\<lambda>(pk, _). bump_counter s pk) items c"

definition item_ok :: "table_schema \<Rightarrow> properties \<Rightarrow> bool" where
  "item_ok s vs \<longleftrightarrow> properties_ok vs \<and> keys_ok s (IntV 0) (stored_values s vs) \<and>
    (case explicit_pk s vs of Some pk \<Rightarrow> sortable_key pk \<noteq> None | None \<Rightarrow> True)"

section \<open>The counter\<close>

lemma counter_not_search [simp]: "\<not> search_key (row_counter_key t)"
  by (simp add: search_key_def row_counter_key_def)

lemma only_table_auto_refl [simp]: "only_table_auto s \<sigma> \<sigma>"
  by (simp add: only_table_auto_def)

lemma only_table_cong_meta:
  assumes "only_table s \<sigma> \<sigma>'"
  shows "only_table s (set_counter s n \<sigma>) (set_counter s n \<sigma>')"
  using assms by (simp add: only_table_def set_counter_def)

lemma set_counter_twice [simp]: "set_counter s n (set_counter s m \<sigma>) = set_counter s n \<sigma>"
  by (simp add: set_counter_def)

lemma only_table_auto_trans:
  assumes "only_table_auto s \<sigma> \<sigma>'" "only_table_auto s \<sigma>' \<sigma>''"
  shows "only_table_auto s \<sigma> \<sigma>''"
  using assms unfolding only_table_auto_def
  by (metis only_table_cong_meta only_table_trans set_counter_twice)

lemma auto_at_cong:
  assumes "only_table s \<sigma> \<sigma>'"
  shows "auto_at s \<sigma>' T n \<longleftrightarrow> auto_at s \<sigma> T n"
  using assms by (simp add: auto_at_def only_table_def)

lemma auto_at_set:
  assumes "auto_at s \<sigma> T n" "n \<le> m"
  shows "auto_at s (set_counter s m \<sigma>) T m"
  using assms by (auto simp: auto_at_def set_counter_def)

lemma auto_at_upd:
  assumes "auto_at s \<sigma> T n" "\<And>i. pk = IntV i \<Longrightarrow> 0 < sint i \<Longrightarrow> i < n"
  shows "auto_at s \<sigma> (T(pk \<mapsto> vs)) n"
  using assms by (simp add: auto_at_def)

lemma sint_pos_unat:
  assumes "0 < sint (i :: i64)"
  shows "sint i = int (unat i)" "unat i < 2 ^ 63"
proof -
  have lt: "sint i < 2 ^ 63" using sint_lt [of i] by simp
  have "uint i = take_bit 64 (sint i)" by (simp add: uint_sint)
  also have "\<dots> = sint i" using assms lt by (simp add: take_bit_int_eq_self)
  finally show "sint i = int (unat i)" by simp
  then have "int (unat i) < int (2 ^ 63)" using lt by simp
  then show "unat i < 2 ^ 63" by (simp only: of_nat_less_iff)
qed

lemma sint_small:
  assumes "unat (n :: i64) < 2 ^ 63"
  shows "sint n = int (unat n)"
proof -
  have "int (unat n) < int (2 ^ 63)" using assms by (simp only: of_nat_less_iff)
  then have "uint n < 2 ^ 63" by simp
  then have "signed_take_bit 63 (uint n) = uint n" by (intro signed_take_bit_int_eq_self) (auto intro: order_trans [of _ 0])
  then show ?thesis by (simp add: sint_uint)
qed

lemma bump_counter_le: "c \<le> bump_counter s pk c"
  by (auto simp: bump_counter_def split: prop_value.splits)

lemma bump_counter_past:
  assumes "td_auto_increment_pk s" "pk = IntV i" "0 < sint i"
  shows "i < bump_counter s pk c"
proof -
  have "unat (i + 1) = unat i + 1" using sint_pos_unat(2) [OF assms(3)] by (simp add: unat_word_ariths)
  then have "i < i + 1" by (simp add: word_less_nat_alt)
  then show ?thesis using assms by (auto simp: bump_counter_def)
qed

lemma bump_counter_bound: "unat (bump_counter s pk c) \<le> max (unat c) (2 ^ 63)"
proof -
  have "unat (i + 1) \<le> 2 ^ 63" if "0 < sint i" for i :: i64
    using sint_pos_unat(2) [OF that] by (simp add: unat_word_ariths)
  then have "unat (i + 1) \<le> max (unat c) (2 ^ 63)" if "0 < sint i" for i :: i64 using that by (meson max.coboundedI2)
  then show ?thesis by (simp add: bump_counter_def split: prop_value.splits)
qed

lemma counter_step_le: "c \<le> counter_step s vs c"
  by (simp add: counter_step_def bump_counter_le split: option.splits)

lemma counter_step_bound: "unat (counter_step s vs c) \<le> max (unat c) (2 ^ 63)"
  using bump_counter_bound by (auto simp: counter_step_def split: option.splits)

lemma counter_after_bound:
  assumes "unat c + length items < 2 ^ 64"
  shows "unat (counter_after s c items) \<le> max (unat c + length items) (2 ^ 63)"
proof -
  have fold: "unat (fold (counter_step s) items c) \<le> max (unat c) (2 ^ 63)" for c
  proof (induction items arbitrary: c)
    case (Cons vs items)
    from Cons.IH [of "counter_step s vs c"] counter_step_bound [of s vs c] show ?case by simp
  qed simp
  let ?k = "length (filter (allocates_pk s) items)"
  have k: "?k \<le> length items" by simp
  then have lt: "unat c + ?k < 2 ^ 64" using assms by linarith
  then have "unat (word_of_nat ?k :: u64) = ?k" by (simp add: unat_of_nat)
  then have "unat (c + word_of_nat ?k) = unat c + ?k" using lt by (simp add: unat_word_ariths)
  then have "unat (counter_after s c items) \<le> max (unat c + ?k) (2 ^ 63)" using fold [of "c + word_of_nat ?k"] by (simp add: counter_after_def)
  then show ?thesis using k by (meson add_left_mono max.mono order_refl order_trans)
qed

lemma counter_kept:
  assumes "\<not> td_auto_increment_pk s"
  shows "counter_after s c items = c" "counter_after_keyed s c keyed = c"
proof -
  have bump: "bump_counter s pk c = c" for pk c using assms by (simp add: bump_counter_def split: prop_value.splits)
  have "fold (counter_step s) items c = c" for c by (induction items) (simp_all add: counter_step_def bump split: option.splits)
  moreover have "filter (allocates_pk s) items = []" using assms by (simp add: filter_empty_conv allocates_pk_def)
  ultimately show "counter_after s c items = c" by (simp add: counter_after_def)
  show "counter_after_keyed s c keyed = c" by (induction keyed) (auto simp: counter_after_keyed_def bump)
qed

lemma auto_exact_tx: "auto_exact I view hinv C s c \<sigma> w T \<Longrightarrow> auto_tx I view hinv C s 0 \<sigma> w T"
  by (auto simp: auto_exact_def auto_tx_def)

lemma meta_not_search [simp]: "\<not> search_table meta_table"
proof
  assume "search_table meta_table"
  then obtain a x where "meta_table = a @ ''__'' @ x" by (rule search_table_dunder)
  then have "str_contains meta_table ''__''" by (auto simp: str_contains_iff)
  then show False by (simp add: meta_table_def)
qed

context rel_store
begin

lemma read_counter_view:
  assumes "inv w" "auto_at s (view w) T n"
  shows "read_counter ops w (row_counter_key (td_name s)) = Ok n"
  using assms get_view [OF assms(1) meta_tbl_ok] by (auto simp: read_counter_def auto_at_def split: option.splits)

lemma set_counter_tx:
  assumes "rel_tx inv view hinv C s w T" "inv w'" "view w' = set_counter s n (view w)"
  shows "rel_tx inv view hinv C s w' T"
proof -
  have T: "schema_ok s" "hinv (view w)" "table_repr C s T (view w)" using assms(1) by (simp_all add: rel_tx_def table_repr_def)
  have "on_search (view w) (view w')" using assms(3) by (auto simp: on_search_def set_counter_def)
  moreover have "table_repr C s T (view w')"
    using tables_of_not_search [OF T(1)] by (intro table_repr_cong [OF T(3)]) (simp add: assms(3) set_counter_def)
  ultimately show ?thesis using assms(2) hinv_search [OF T(2)] by (simp add: rel_tx_def)
qed

text \<open>Setting the counter of an auto-increment table to a later value.\<close>

lemma set_counter_wp:
  assumes "auto_exact inv view hinv C s c \<sigma> w T" "td_auto_increment_pk s" "c \<le> m"
  shows "ok_with (s_put ops w meta_table (row_counter_key (td_name s)) (be64 m)) (\<lambda>w'. auto_exact inv view hinv C s m \<sigma> w' T)"
proof -
  have tx: "rel_tx inv view hinv C s w T" "inv w" "auto_at s (view w) T c" using assms(1,2) by (simp_all add: auto_exact_def rel_tx_def)
  show ?thesis
  proof (rule put_wp [OF tx(2) meta_tbl_ok])
    fix w' assume w': "inv w'" "view w' = (view w)(meta_table := (view w meta_table)(row_counter_key (td_name s) \<mapsto> be64 m))"
    then have v: "view w' = set_counter s m (view w)" by (simp add: set_counter_def)
    have "only_table_auto s (view w) (view w')" unfolding v only_table_auto_def using only_table_refl by blast
    then have "only_table_auto s \<sigma> (view w')" using assms(1) only_table_auto_trans unfolding auto_exact_def by blast
    moreover have "auto_at s (view w') T m" unfolding v by (rule auto_at_set [OF tx(3) assms(3)])
    ultimately show "auto_exact inv view hinv C s m \<sigma> w' T"
      using assms(2) set_counter_tx [OF tx(1) w'(1) v] by (simp add: auto_exact_def)
  qed
qed

lemma reserve_pks_wp:
  assumes "auto_exact inv view hinv C s n \<sigma> w T" "td_auto_increment_pk s" "k \<noteq> 0" "unat n + unat k < 2 ^ 64"
  shows "ok_with (reserve_pks ops w s k) (\<lambda>(next, w'). next = n \<and> auto_exact inv view hinv C s (n + k) \<sigma> w' T)"
proof -
  have w: "inv w" "auto_at s (view w) T n" using assms(1,2) by (simp_all add: auto_exact_def rel_tx_def)
  have "n \<le> n + k" using assms(4) by (simp add: word_le_nat_alt unat_word_ariths)
  then show ?thesis
    using assms(3) read_counter_view [OF w] set_counter_wp [OF assms(1,2)] by (simp add: reserve_pks_def)
qed

lemma bump_for_wp:
  assumes "auto_exact inv view hinv C s c \<sigma> w T"
  shows "ok_with (bump_for ops w s pk) (\<lambda>w'. auto_exact inv view hinv C s (bump_counter s pk c) \<sigma> w' T)"
proof (cases "td_auto_increment_pk s \<and> (\<exists>i. pk = IntV i \<and> 0 < sint i)")
  case False
  then have "bump_for ops w s pk = Ok w" by (auto simp: bump_for_def bump_pk_counter_past_def split: prop_value.splits)
  moreover have "bump_counter s pk c = c" using False by (auto simp: bump_counter_def split: prop_value.splits)
  ultimately show ?thesis using assms by simp
next
  case True
  then obtain i where i: "pk = IntV i" "0 < sint i" by blast
  have w: "inv w" "auto_at s (view w) T c" using assms True by (simp_all add: auto_exact_def rel_tx_def)
  have "bump_for ops w s pk = (if c < i + 1 then s_put ops w meta_table (row_counter_key (td_name s)) (be64 (i + 1)) else Ok w)"
    using True i read_counter_view [OF w] by (simp add: bump_for_def bump_pk_counter_past_def Let_def)
  then show ?thesis using assms set_counter_wp [OF assms, of "i + 1"] True i by (simp add: bump_counter_def)
qed

lemma item_ok_keys:
  assumes "item_ok s vs" "explicit_pk s vs = Some pk"
  shows "properties_ok vs" "value_ok pk" "keys_ok s pk (stored_values s vs)"
proof -
  show ok: "properties_ok vs" using assms(1) by (simp add: item_ok_def)
  have "map_of vs (td_primary_key s) = Some pk" using assms(2) by (auto simp: explicit_pk_def split: option.splits if_splits)
  then have "(td_primary_key s, pk) \<in> set vs" by (rule map_of_SomeD)
  then show "value_ok pk" using ok by (auto simp: properties_ok_def)
  show "keys_ok s pk (stored_values s vs)" using assms by (simp add: item_ok_def keys_ok_def)
qed

text \<open>One item: the write keeps the counter past the key it stores.\<close>

lemma write_auto_refines:
  assumes tx: "auto_exact inv view hinv C s c \<sigma> w T" and pk: "properties_ok vs" "value_ok pk" "keys_ok s pk (stored_values s vs)"
    and past: "\<And>i. td_auto_increment_pk s \<Longrightarrow> pk = IntV i \<Longrightarrow> 0 < sint i \<Longrightarrow> i < c"
  shows "refines (write_spec s T pk vs conflict) (write_row_in C H ops w s pk vs conflict) (\<lambda>T' w'. auto_exact inv view hinv C s c \<sigma> w' T')"
proof -
  have "rel_tx inv view hinv C s w T" using tx by (simp add: auto_exact_def)
  note wr = write_row_refines [OF this pk, of conflict]
  show ?thesis
  proof (cases "write_spec s T pk vs conflict")
    case (Ok T')
    have T': "T' = T(pk \<mapsto> stored_values s vs)" using Ok by (auto simp: write_spec_def Let_def bind_res_Ok_iff split: if_splits)
    have "auto_exact inv view hinv C s c \<sigma> w' T'" if "rel_tx inv view hinv C s w' T' \<and> only_table s (view w) (view w')" for w'
    proof -
      have only: "only_table s (view w) (view w')" using that by simp
      then have "only_table_auto s \<sigma> (view w')" using tx only_table_auto_trans [of s \<sigma> "view w" "view w'"] by (simp add: auto_exact_def only_table_auto_def [of s "view w"])
      moreover have "view w' meta_table (row_counter_key (td_name s)) = view w meta_table (row_counter_key (td_name s))"
        using only by (simp add: only_table_def)
      moreover have "auto_at s (view w') T' c" if auto: "td_auto_increment_pk s"
        unfolding T' auto_at_cong [OF only] by (rule auto_at_upd) (use tx auto past in \<open>auto simp: auto_exact_def\<close>)
      ultimately show ?thesis using that tx by (simp add: auto_exact_def)
    qed
    then show ?thesis using wr Ok by (auto elim!: ok_with_mono)
  qed (use wr in simp_all)
qed

lemma insert_one_refines:
  assumes tx: "auto_exact inv view hinv C s c \<sigma> w T" and vs: "item_ok s vs"
    and nxt: "allocates_pk s vs \<Longrightarrow> nx < c"
  shows "refines (insert_one_spec s conflict vs (nx, pks, T)) (insert_one C H ops s conflict vs (nx, pks, w))
    (\<lambda>(n1, pks1, T1) (n2, pks2, w2). n2 = n1 \<and> pks2 = pks1 \<and> auto_exact inv view hinv C s (counter_step s vs c) \<sigma> w2 T1 \<and>
      n1 = (if allocates_pk s vs then nx + 1 else nx))"
proof (cases "allocates_pk s vs")
  case True
  have "properties_ok vs" "value_ok (IntV nx)" "keys_ok s (IntV nx) (stored_values s vs)" using vs by (auto simp: item_ok_def keys_ok_def sortable_key_def)
  note wr = write_auto_refines [OF tx this, of conflict]
  show ?thesis
    using True nxt [OF True] by (auto simp: insert_one_spec_def insert_one_def choose_pk_def counter_step_def intro!: refines_bind wr)
next
  case False
  show ?thesis
  proof (cases "explicit_pk s vs")
    case None
    then show ?thesis using False by (simp add: insert_one_spec_def insert_one_def choose_pk_def)
  next
    case (Some pk)
    let ?c = "bump_counter s pk c"
    obtain w1 where w1: "bump_for ops w s pk = Ok w1" "auto_exact inv view hinv C s ?c \<sigma> w1 T"
      using bump_for_wp [OF tx, of pk] by (auto simp: ok_with_iff)
    note wr = write_auto_refines [OF w1(2) item_ok_keys [OF vs Some] bump_counter_past, of conflict]
    show ?thesis
      using False Some w1(1) by (auto simp: insert_one_spec_def insert_one_def choose_pk_def counter_step_def intro!: refines_bind wr)
  qed
qed

lemma insert_loop_refines:
  assumes "auto_exact inv view hinv C s c \<sigma> w T" "\<forall>vs\<in>set items. item_ok s vs"
    and "unat nx + length (filter (allocates_pk s) items) \<le> unat c"
  shows "refines (for_res (insert_one_spec s conflict) items (nx, pks, T)) (for_res (insert_one C H ops s conflict) items (nx, pks, w))
    (\<lambda>(n1, pks1, T1) (n2, pks2, w2). pks2 = pks1 \<and> auto_exact inv view hinv C s (fold (counter_step s) items c) \<sigma> w2 T1)"
  using assms
proof (induction items arbitrary: nx pks T w c)
  case (Cons vs items)
  let ?c = "counter_step s vs c"
  let ?R = "\<lambda>(n1, pks1 :: prop_value list, T1) (n2, pks2, w2). n2 = n1 \<and> pks2 = pks1 \<and> auto_exact inv view hinv C s ?c \<sigma> w2 T1 \<and>
      n1 = (if allocates_pk s vs then nx + 1 else nx)"
  have room: "allocates_pk s vs \<Longrightarrow> nx < c" using Cons.prems(3) by (simp add: word_less_nat_alt)
  have step: "refines (insert_one_spec s conflict vs (nx, pks, T)) (insert_one C H ops s conflict vs (nx, pks, w)) ?R"
    using insert_one_refines [OF Cons.prems(1)] Cons.prems(2) room by simp
  have succ: "unat (nx + 1) = unat nx + 1" if "allocates_pk s vs"
  proof -
    have "unat nx + 1 < 2 ^ 64" using room [OF that] unat_widths_less(3) [of c] by (simp add: word_less_nat_alt)
    then show ?thesis by (simp add: unat_word_ariths)
  qed
  have grow: "unat c \<le> unat ?c" using counter_step_le [of c s vs] by (simp add: word_le_nat_alt)
  show ?case
    unfolding for_res.simps
  proof (rule refines_bind [OF step])
    fix a x assume R: "?R a x"
    obtain n1 pks1 T1 w2 where ac: "a = (n1, pks1, T1)" "x = (n1, pks1, w2)" "auto_exact inv view hinv C s ?c \<sigma> w2 T1"
        "n1 = (if allocates_pk s vs then nx + 1 else nx)"
      using R by (cases a; cases x) auto
    have "unat n1 + length (filter (allocates_pk s) items) \<le> unat ?c" using Cons.prems(3) succ ac(4) grow by auto
    then show "refines (for_res (insert_one_spec s conflict) items a) (for_res (insert_one C H ops s conflict) items x)
        (\<lambda>(n1, pks1, T1) (n2, pks2, w2). pks2 = pks1 \<and> auto_exact inv view hinv C s (fold (counter_step s) (vs # items) c) \<sigma> w2 T1)"
      unfolding ac(1,2) using Cons.IH [OF ac(3)] Cons.prems(2) by simp
  qed
qed simp

lemma insert_bulk_exact:
  assumes tx: "auto_exact inv view hinv C s n \<sigma> w T" and items: "\<forall>vs\<in>set items. item_ok s vs"
    and room: "td_auto_increment_pk s \<Longrightarrow> unat n + length (filter (allocates_pk s) items) < 2 ^ 64"
  shows "refines (insert_spec s conflict n items T) (insert_bulk_in C H ops w s items conflict)
    (\<lambda>(pks, T') (pks', w'). pks' = pks \<and> auto_exact inv view hinv C s (counter_after s n items) \<sigma> w' T')"
proof -
  let ?k = "length (filter (allocates_pk s) items)" and ?n = "if list_ex (allocates_pk s) items then n else 0"
  let ?c = "n + word_of_nat ?k"
  have ex: "list_ex (allocates_pk s) items \<longleftrightarrow> 0 < ?k" by (auto simp: list_ex_iff filter_empty_conv)
  have start: "ok_with (if 0 < ?k then reserve_pks ops w s (word_of_nat ?k) else Ok (0, w))
      (\<lambda>(nx, w'). nx = ?n \<and> auto_exact inv view hinv C s ?c \<sigma> w' T) \<and> unat ?n + ?k \<le> unat ?c"
  proof (cases "0 < ?k")
    case True
    then have auto: "td_auto_increment_pk s" by (auto simp: allocates_pk_def filter_empty_conv)
    note room = room [OF auto]
    then have k: "unat (word_of_nat ?k :: u64) = ?k" by (simp add: unat_of_nat)
    then have "(word_of_nat ?k :: u64) \<noteq> 0" using True by (metis less_numeral_extra(3) unat_0)
    then have "ok_with (reserve_pks ops w s (word_of_nat ?k)) (\<lambda>(nx, w'). nx = n \<and> auto_exact inv view hinv C s ?c \<sigma> w' T)"
      using reserve_pks_wp [OF tx auto] room k by simp
    moreover have "unat n + ?k \<le> unat ?c" using room k by (simp add: unat_word_ariths)
    ultimately show ?thesis using True ex by simp
  qed (use tx ex in simp)
  obtain w1 where w1: "(if 0 < ?k then reserve_pks ops w s (word_of_nat ?k) else Ok (0, w)) = Ok (?n, w1)"
      "auto_exact inv view hinv C s ?c \<sigma> w1 T" "unat ?n + ?k \<le> unat ?c"
    using start by (auto simp only: ok_with_iff)
  show ?thesis
    unfolding insert_spec_def insert_bulk_in_def Let_def w1(1) bind_res_simps prod.case counter_after_def
    by (intro refines_bind [OF insert_loop_refines [OF w1(2) items w1(3)]]) auto
qed

lemma insert_bulk_refines:
  assumes tx: "rel_tx inv view hinv C s w T" and items: "\<forall>vs\<in>set items. item_ok s vs"
    and auto: "td_auto_increment_pk s \<Longrightarrow> auto_at s (view w) T n \<and> unat n + length (filter (allocates_pk s) items) < 2 ^ 64"
  shows "refines (insert_spec s conflict n items T) (insert_bulk_in C H ops w s items conflict)
    (\<lambda>(pks, T') (pks', w'). pks' = pks \<and> auto_tx inv view hinv C s 0 (view w) w' T')"
proof -
  have "auto_exact inv view hinv C s n (view w) w T" using tx auto by (simp add: auto_exact_def)
  note insert_bulk_exact [OF this items conjunct2 [OF auto], of conflict]
  then show ?thesis by (rule refines_mono) (auto simp: auto_exact_tx)
qed

text \<open>Rows stored under explicit keys, one after another; the counter stays past them.\<close>

lemma keyed_bulk_exact:
  assumes "auto_exact inv view hinv C s c \<sigma> w T" "\<forall>(pk, vs)\<in>set items. properties_ok vs \<and> value_ok pk \<and> keys_ok s pk (stored_values s vs)"
  shows "refines (keyed_spec s Replace items T) (insert_with_pk_bulk_in C H ops w s items Replace)
    (\<lambda>T' w'. auto_exact inv view hinv C s (counter_after_keyed s c items) \<sigma> w' T')"
proof -
  have "refines (for_res (\<lambda>(pk, vs) T. write_spec s T pk vs Replace) items T)
      (for_res (\<lambda>(pk, vs) w. bind_res (bump_for ops w s pk) (\<lambda>w. write_row_in C H ops w s pk vs Replace)) items w)
      (\<lambda>T' w'. auto_exact inv view hinv C s (fold (\<lambda>(pk, _). bump_counter s pk) items c) \<sigma> w' T')"
    using assms
  proof (induction items arbitrary: c w T)
    case (Cons x items)
    obtain pk vs where pk: "x = (pk, vs)" "properties_ok vs" "value_ok pk" "keys_ok s pk (stored_values s vs)" using Cons.prems(2) by (cases x) auto
    obtain w1 where w1: "bump_for ops w s pk = Ok w1" "auto_exact inv view hinv C s (bump_counter s pk c) \<sigma> w1 T"
      using bump_for_wp [OF Cons.prems(1), of pk] by (auto simp: ok_with_iff)
    show ?case
      using refines_bind [OF write_auto_refines [OF w1(2) pk(2-4) bump_counter_past, of Replace] Cons.IH] Cons.prems(2) pk(1) w1(1) by simp
  qed simp
  then show ?thesis by (simp add: keyed_spec_def insert_with_pk_bulk_in_def counter_after_keyed_def)
qed

end

section \<open>Allocated keys are new\<close>

lemma write_spec_new:
  assumes "T pk = None"
  shows "write_spec s T pk vs conflict \<noteq> Err (DuplicateKey t [])" "write_spec s T pk vs conflict \<noteq> Panic"
    "write_spec s T pk vs conflict = Ok T' \<Longrightarrow> T' = T(pk \<mapsto> stored_values s vs)"
proof -
  have no_dup: "validate_row s pk vs \<noteq> Err (DuplicateKey t [])" for vs
  proof -
    have no: "for_res f xs u \<noteq> Err (DuplicateKey t [])" if "\<And>x u. f x u \<noteq> Err (DuplicateKey t [])" for f and xs :: "'b list" and u :: unit
      using that by (induction xs arbitrary: u) (auto simp: bind_res_def split: res.splits)
    have c: "check_value s n v \<noteq> Err (DuplicateKey t [])" for n v by (simp add: check_value_def split: option.splits)
    have a: "for_res (\<lambda>(name, v) _. check_value s name v) vs () \<noteq> Err (DuplicateKey t [])" by (rule no) (use c in auto)
    have "for_res (check_not_null s vs) (td_columns s) () \<noteq> Err (DuplicateKey t [])" by (rule no) (simp add: check_not_null_def Let_def)
    then show ?thesis using c [of "td_primary_key s" pk] a by (auto simp: validate_row_def bind_res_def split: res.splits)
  qed
  show "write_spec s T pk vs conflict \<noteq> Err (DuplicateKey t [])" "write_spec s T pk vs conflict \<noteq> Panic"
      "write_spec s T pk vs conflict = Ok T' \<Longrightarrow> T' = T(pk \<mapsto> stored_values s vs)"
    using assms no_dup validate_no_panic by (auto simp: write_spec_def Let_def bind_res_def split: res.splits if_splits)
qed

definition block_keys :: "i64 \<Rightarrow> nat \<Rightarrow> prop_value list" where
  "block_keys n k = map (\<lambda>i. IntV (n + word_of_nat i)) [0..<k]"

lemma block_keys_Suc: "block_keys n (Suc k) = IntV n # block_keys (n + 1) k"
  by (simp add: block_keys_def upt_conv_Cons map_Suc_upt [symmetric] ac_simps del: upt_Suc map_Suc_upt)

lemma block_keys_later:
  assumes "unat n + 1 + k < 2 ^ 64"
  shows "IntV n \<notin> set (block_keys (n + 1) k)"
proof -
  have "n \<noteq> n + 1 + word_of_nat i" if "i < k" for i
  proof -
    have "take_bit 64 (i + 1) = i + 1" using that assms by (intro take_bit_nat_eq_self) simp
    then have i: "unat (word_of_nat (i + 1) :: i64) = i + 1" by (simp only: unsigned_of_nat) simp
    have "n + 1 + word_of_nat i = n + word_of_nat (i + 1)" by simp
    moreover have "(word_of_nat (i + 1) :: i64) \<noteq> 0" using i by (metis add_is_0 unat_0 zero_neq_one)
    ultimately show ?thesis by (metis add_cancel_right_right)
  qed
  then show ?thesis by (auto simp: block_keys_def)
qed

lemma insert_block:
  assumes "list_all (allocates_pk s) items" "\<forall>pk\<in>set (block_keys nx (length items)). T pk = None" "unat nx + length items < 2 ^ 64"
  shows "case for_res (insert_one_spec s conflict) items (nx, pks, T) of
      Ok (_, pks', T') \<Rightarrow> pks' = pks @ block_keys nx (length items)
    | Err e \<Rightarrow> e \<noteq> DuplicateKey (td_name s) [] | Panic \<Rightarrow> False"
  using assms
proof (induction items arbitrary: nx pks T)
  case (Cons vs items)
  note w = write_spec_new [of T "IntV nx" s vs conflict]
  have new: "T (IntV nx) = None" using Cons.prems(2) by (simp add: block_keys_Suc)
  show ?case
  proof (cases "write_spec s T (IntV nx) vs conflict")
    case (Ok T')
    have T': "T' = T(IntV nx \<mapsto> stored_values s vs)" using w(3) new Ok by simp
    have room: "unat nx + 1 + length items < 2 ^ 64" using Cons.prems(3) by simp
    have "unat (nx + 1) = unat nx + 1" using room by (simp add: unat_word_ariths)
    moreover have "\<forall>pk\<in>set (block_keys (nx + 1) (length items)). T' pk = None"
      using Cons.prems(2) block_keys_later [OF room] T' by (auto simp: block_keys_Suc)
    ultimately show ?thesis
      using Cons.IH [of "nx + 1" T' "pks @ [IntV nx]"] Cons.prems(1) room Ok
      by (simp add: insert_one_spec_def choose_pk_def block_keys_Suc split: res.splits prod.splits)
  qed (use w new Cons.prems(1) in \<open>auto simp: insert_one_spec_def choose_pk_def\<close>)
qed (simp add: block_keys_def)

lemma auto_at_block:
  assumes "auto_at s \<sigma> T n" "unat n + k \<le> 2 ^ 63" "pk \<in> set (block_keys n k)"
  shows "T pk = None"
proof -
  obtain i where i: "i < k" "pk = IntV (n + word_of_nat i)" using assms(3) by (auto simp: block_keys_def)
  have "0 < unat n" using assms(1) by (simp add: auto_at_def word_less_nat_alt)
  moreover have u: "unat (n + word_of_nat i) = unat n + i" using i(1) assms(2) by (simp add: unat_word_ariths unat_of_nat)
  ultimately have "0 < int (unat (n + word_of_nat i))" by (simp only: of_nat_0_less_iff)
  then have "0 < sint (n + word_of_nat i)" using sint_small [of "n + word_of_nat i"] u i(1) assms(2) by simp
  moreover have "\<not> n + word_of_nat i < n" using u by (simp add: word_less_nat_alt)
  ultimately show ?thesis using assms(1) i(2) by (auto simp: auto_at_def)
qed

text \<open>A call that allocates every key hands out the next block of the counter, all of them new.\<close>

lemma insert_spec_fresh:
  assumes "auto_at s \<sigma> T n" "list_all (allocates_pk s) items" "items \<noteq> []" "unat n + length items \<le> 2 ^ 63"
  shows "\<forall>pk\<in>set (block_keys n (length items)). T pk = None"
    "case insert_spec s conflict n items T of Ok (pks, T') \<Rightarrow> pks = block_keys n (length items)
      | Err e \<Rightarrow> e \<noteq> DuplicateKey (td_name s) [] | Panic \<Rightarrow> False"
proof -
  show new: "\<forall>pk\<in>set (block_keys n (length items)). T pk = None" using auto_at_block [OF assms(1,4)] by blast
  have "list_ex (allocates_pk s) items" using assms(2,3) by (cases items) auto
  then show "case insert_spec s conflict n items T of Ok (pks, T') \<Rightarrow> pks = block_keys n (length items)
      | Err e \<Rightarrow> e \<noteq> DuplicateKey (td_name s) [] | Panic \<Rightarrow> False"
    using insert_block [OF assms(2) new, where pks = "[]" and conflict = conflict] assms(4) by (auto simp: insert_spec_def bind_res_def split: res.splits prod.splits)
qed

end
