(* ===== verification/Rel_Migrate.thy ===== *)
theory Rel_Migrate
  imports Rel_Auto Rel_Catalog
begin

text \<open>
  Migrating a registered table. \<open>migrate_rows\<close> is what happens to the rows; a migration succeeds exactly when the two
  definitions are compatible and the migrated rows satisfy the new one, and then the transaction holds the migrated
  table, with every index of the new definition in step. \<open>outcome r P Q\<close> says that a call succeeds exactly under \<open>P\<close>
  and then establishes \<open>Q\<close>.
\<close>

section \<open>Calls that succeed under a condition\<close>

definition outcome :: "'a res \<Rightarrow> bool \<Rightarrow> ('a \<Rightarrow> bool) \<Rightarrow> bool" where
  "outcome r P Q = (case r of Ok x \<Rightarrow> P \<and> Q x | Err _ \<Rightarrow> \<not> P | Panic \<Rightarrow> False)"

lemma outcome_simps [simp]: "outcome (Ok x) P Q \<longleftrightarrow> P \<and> Q x" "outcome (Err e) P Q \<longleftrightarrow> \<not> P" "\<not> outcome Panic P Q"
  by (simp_all add: outcome_def)

lemma outcome_ok_with: "outcome r True Q = ok_with r Q"
  by (cases r) simp_all

lemma outcome_mono: "outcome r P Q \<Longrightarrow> P = P' \<Longrightarrow> (\<And>x. P \<Longrightarrow> Q x \<Longrightarrow> Q' x) \<Longrightarrow> outcome r P' Q'"
  by (cases r) auto

lemma outcome_bind:
  "outcome r P Q \<Longrightarrow> (\<And>x. P \<Longrightarrow> Q x \<Longrightarrow> outcome (f x) P' Q') \<Longrightarrow> outcome (bind_res r f) (P \<and> P') Q'"
  by (cases r) (auto simp: outcome_def split: res.splits)

lemma outcome_for_res:
  assumes "I [] s" and "\<And>ys x zs s. xs = ys @ x # zs \<Longrightarrow> I ys s \<Longrightarrow> outcome (f x s) (P ys x) (I (ys @ [x]))"
  shows "outcome (for_res f xs s) (\<forall>ys x zs. xs = ys @ x # zs \<longrightarrow> P ys x) (I xs)"
proof -
  have "outcome (for_res f zs s) (\<forall>us x vs. zs = us @ x # vs \<longrightarrow> P (ys @ us) x) (I xs)" if "xs = ys @ zs" "I ys s" for ys zs s
    using that
  proof (induction zs arbitrary: ys s)
    case (Cons z zs)
    have split: "(\<forall>us x vs. z # zs = us @ x # vs \<longrightarrow> P (ys @ us) x) \<longleftrightarrow> P ys z \<and> (\<forall>us x vs. zs = us @ x # vs \<longrightarrow> P ((ys @ [z]) @ us) x)"
      by (auto simp: Cons_eq_append_conv)
    show ?case
      unfolding split for_res.simps
      by (rule outcome_bind [OF assms(2)]) (use Cons.prems Cons.IH [of "ys @ [z]"] in auto)
  qed simp
  from this [of "[]" xs s] show ?thesis using assms(1) by simp
qed

lemma outcome_for_res_all:
  assumes "I [] s" and "\<And>ys x zs s. xs = ys @ x # zs \<Longrightarrow> I ys s \<Longrightarrow> outcome (f x s) (P x) (I (ys @ [x]))"
  shows "outcome (for_res f xs s) (\<forall>x\<in>set xs. P x) (I xs)"
proof -
  have "(\<forall>ys x zs. xs = ys @ x # zs \<longrightarrow> P x) \<longleftrightarrow> (\<forall>x\<in>set xs. P x)" by (meson in_set_conv_decomp)
  then show ?thesis using outcome_for_res [of I s xs f "\<lambda>_. P"] assms by simp
qed

section \<open>Specification\<close>

definition migrate_rows :: "table_schema \<Rightarrow> table_schema \<Rightarrow> rows \<Rightarrow> rows" where
  "migrate_rows old new T = (\<lambda>pk. map_option (migrate_values old new) (T pk))"

definition compatible :: "table_schema \<Rightarrow> table_schema \<Rightarrow> bool" where
  "compatible old new \<longleftrightarrow> td_primary_key old = td_primary_key new \<and> pk_kind_of old = pk_kind_of new \<and>
    td_auto_increment_pk old = td_auto_increment_pk new \<and>
    (\<forall>c\<in>set (td_columns new). \<forall>x. ts_column old (cs_name c) = Some x \<longrightarrow> cs_kind x = cs_kind c)"

section \<open>Migrated values\<close>

lemma add_default_map:
  "ts_column old k \<noteq> None \<or> map_of vs k \<noteq> None \<Longrightarrow> map_of (add_default old c vs) k = map_of vs k"
  by (auto simp: add_default_def split: option.splits)

lemma add_defaults_map:
  "ts_column old k \<noteq> None \<or> map_of vs k \<noteq> None \<Longrightarrow> map_of (fold (add_default old) cs vs) k = map_of vs k"
proof (induction cs arbitrary: vs)
  case (Cons c cs)
  have "map_of (add_default old c vs) k = map_of vs k" by (rule add_default_map [OF Cons.prems])
  then show ?case using Cons.IH [of "add_default old c vs"] Cons.prems by simp
qed simp

lemma filter_map_of: "map_of (filter (\<lambda>(k, _). P k) vs) k = (if P k then map_of vs k else None)"
  by (induction vs) auto

lemma migrate_values_map:
  "ts_column old k \<noteq> None \<Longrightarrow> map_of (migrate_values old new vs) k = (if ts_column new k \<noteq> None then map_of vs k else None)"
  by (simp add: migrate_values_def add_defaults_map filter_map_of)

lemma migrate_values_kept:
  "ts_column new k \<noteq> None \<Longrightarrow> map_of vs k = Some v \<Longrightarrow> map_of (migrate_values old new vs) k = Some v"
  by (simp add: migrate_values_def add_defaults_map filter_map_of)

lemma properties_ok_filter: "properties_ok m \<Longrightarrow> properties_ok (filter P m)"
  by (auto simp: properties_ok_def sorted_wrt_map sorted_wrt_filter)

lemma migrate_values_ok:
  assumes "schema_ok new" "properties_ok vs"
  shows "properties_ok (migrate_values old new vs)"
proof -
  have "properties_ok (fold (add_default old) cs m)" if "properties_ok m" "\<forall>c\<in>set cs. ident_ok (cs_name c) \<and> default_ok c" for cs m
    using that
  proof (induction cs arbitrary: m)
    case (Cons c cs)
    have "properties_ok (add_default old c m)"
      using Cons.prems by (auto simp: add_default_def default_ok_def intro!: properties_ok_insert ident_str_ok split: option.splits)
    then show ?case using Cons by simp
  qed simp
  then show ?thesis using schema_okD(8) [OF assms(1)] properties_ok_filter [OF assms(2)] by (auto simp: migrate_values_def)
qed

text \<open>A row that compares equal to what it was before is unchanged.\<close>

lemma entries_eq_keys: "entries_eq m n \<Longrightarrow> map fst m = map fst n"
  by (induction m arbitrary: n) (auto split: list.splits prod.splits)

lemma entries_determined:
  "map fst m = map fst n \<Longrightarrow> distinct (map fst m) \<Longrightarrow> (\<And>k. map_of m k = map_of n k) \<Longrightarrow> m = n"
proof (induction m arbitrary: n)
  case (Cons e m)
  obtain k v where e: "e = (k, v)" by (cases e)
  obtain v' n' where n: "n = (k, v') # n'" "map fst m = map fst n'" using Cons.prems(1) e by (cases n) auto
  have "v = v'" using Cons.prems(3) [of k] e n by simp
  moreover have "map_of m x = map_of n' x" for x
  proof (cases "x = k")
    case True
    have "k \<notin> set (map fst m)" "k \<notin> set (map fst n')" using Cons.prems(2) e n(2) by auto
    then show ?thesis using True by (metis map_of_eq_None_iff list.set_map)
  next
    case False
    then show ?thesis using Cons.prems(3) [of x] e n by simp
  qed
  ultimately show ?case using Cons.IH [OF n(2)] Cons.prems(2) e n(1) by simp
qed simp

lemma migrate_values_same:
  assumes "entries_eq (migrate_values old new vs) vs" "properties_ok vs"
  shows "migrate_values old new vs = vs"
proof (rule entries_determined)
  show keys: "map fst (migrate_values old new vs) = map fst vs" using entries_eq_keys [OF assms(1)] .
  then show "distinct (map fst (migrate_values old new vs))" using assms(2) by (simp add: properties_ok_def strict_sorted_iff)
  show "map_of (migrate_values old new vs) k = map_of vs k" for k
  proof (cases "map_of vs k")
    case None
    then show ?thesis using keys by (metis map_of_eq_None_iff list.set_map)
  next
    case (Some v)
    have "ts_column new k \<noteq> None"
    proof
      assume no: "ts_column new k = None"
      have "map_of (fold (add_default old) cs m) k = None" if "map_of m k = None" "\<forall>c\<in>set cs. cs_name c \<noteq> k" for cs m
        using that by (induction cs arbitrary: m) (auto simp: add_default_def split: option.splits)
      moreover have "\<forall>c\<in>set (td_columns new). cs_name c \<noteq> k" using no by (auto simp: ts_column_None)
      moreover have "map_of (filter (\<lambda>(k, _). ts_column new k \<noteq> None) vs) k = None" using no by (simp add: filter_map_of)
      ultimately have "map_of (migrate_values old new vs) k = None" unfolding migrate_values_def by blast
      then show False using keys Some by (metis map_of_eq_None_iff list.set_map option.distinct(1))
    qed
    then show ?thesis using migrate_values_kept [OF _ Some] Some by simp
  qed
qed

lemma migrate_rows_in: "x \<in> rows_in (migrate_rows old new T) \<longleftrightarrow> (\<exists>r\<in>rows_in T. x = \<lparr>row_pk = row_pk r, row_values = migrate_values old new (row_values r)\<rparr>)"
proof
  assume "x \<in> rows_in (migrate_rows old new T)"
  then obtain vs where "T (row_pk x) = Some vs" "row_values x = migrate_values old new vs" by (auto simp: rows_in_def migrate_rows_def)
  then show "\<exists>r\<in>rows_in T. x = \<lparr>row_pk = row_pk r, row_values = migrate_values old new (row_values r)\<rparr>"
    by (intro bexI [of _ "\<lparr>row_pk = row_pk x, row_values = vs\<rparr>"]) (simp_all add: row_eq_iff)
qed (auto simp: rows_in_def migrate_rows_def)

abbreviation migrated :: "table_schema \<Rightarrow> table_schema \<Rightarrow> row \<Rightarrow> row" where
  "migrated old new r \<equiv> \<lparr>row_pk = row_pk r, row_values = migrate_values old new (row_values r)\<rparr>"

text \<open>A column indexed before and after keeps its values and so its index entries.\<close>

lemma kept_column:
  assumes "schema_ok old" "schema_ok new" "col \<in> set (td_indexed_columns old)" "col \<in> set (td_indexed_columns new)"
  shows "indexable (migrated old new r) new col = indexable r old col" "entry_key new col (migrated old new r) = entry_key old col r"
proof -
  obtain c where "ts_column old col = Some c" "col \<noteq> td_primary_key old" by (rule indexed_column [OF assms(1,3)])
  moreover obtain d where "ts_column new col = Some d" "col \<noteq> td_primary_key new" by (rule indexed_column [OF assms(2,4)])
  ultimately show "indexable (migrated old new r) new col = indexable r old col"
    by (simp add: indexable_def row_get_def migrate_values_map)
  then show "entry_key new col (migrated old new r) = entry_key old col r" by (simp add: entry_key_def cong: option.case_cong)
qed

lemma migrated_column:
  assumes "schema_ok new" "properties_ok vs" "col \<in> set (td_indexed_columns new)" "validate_row new pk vs = Ok ()" "ts_column new col = Some c"
    and "indexable \<lparr>row_pk = pk, row_values = vs\<rparr> new col = Some v"
  shows "kind_of v = cs_kind c \<and> value_ok v"
proof -
  have "col \<noteq> td_primary_key new" using schema_okD(5) [OF assms(1)] assms(3) by blast
  then have v: "map_of vs col = Some v" "v \<noteq> Null" using assms(6) by (auto simp: indexable_def row_get_def split: option.splits if_splits)
  have mem: "(col, v) \<in> set vs" using v(1) by (rule map_of_SomeD)
  have "kind_of v = cs_kind c" using validate_value(3) [OF assms(4,1) mem] assms(5) v(2) by simp
  then show ?thesis using mem assms(2) by (auto simp: properties_ok_def)
qed

section \<open>Clearing and rebuilding an index\<close>

text \<open>The condition under which an index over \<open>rows\<close> can be built.\<close>

definition index_ready :: "table_schema \<Rightarrow> row list \<Rightarrow> string \<Rightarrow> bool" where
  "index_ready s rows col \<longleftrightarrow> (\<forall>r\<in>set rows. \<forall>v. indexable r s col = Some v \<longrightarrow> sortable_key v \<noteq> None) \<and>
    (column_unique s col \<longrightarrow> (\<forall>r\<in>set rows. \<forall>r'\<in>set rows. \<forall>v. indexable r s col = Some v \<longrightarrow> indexable r' s col = Some v \<longrightarrow> r = r'))"

definition value_keys :: "table_schema \<Rightarrow> string \<Rightarrow> row list \<Rightarrow> bytes set" where
  "value_keys s col rows = {k. \<exists>r\<in>set rows. \<exists>v. indexable r s col = Some v \<and> sortable_key v = Some k}"

definition row_fits :: "table_schema \<Rightarrow> string \<Rightarrow> row list \<Rightarrow> row \<Rightarrow> bool" where
  "row_fits s col ys r \<longleftrightarrow> (\<forall>v. indexable r s col = Some v \<longrightarrow>
    (\<exists>k. sortable_key v = Some k \<and> (column_unique s col \<longrightarrow> k \<notin> value_keys s col ys)))"

text \<open>On rows of one schema the check by key bytes is the check by values.\<close>

lemma index_ready_iff:
  assumes "distinct rows" "\<And>r v. r \<in> set rows \<Longrightarrow> indexable r s col = Some v \<Longrightarrow> kind_of v = K \<and> value_ok v"
  shows "(\<forall>ys x zs. rows = ys @ x # zs \<longrightarrow> row_fits s col ys x) \<longleftrightarrow> index_ready s rows col"
proof
  assume fits: "\<forall>ys x zs. rows = ys @ x # zs \<longrightarrow> row_fits s col ys x"
  have keys: "sortable_key v \<noteq> None" if "r \<in> set rows" "indexable r s col = Some v" for r v
    using fits split_list [OF that(1)] that(2) unfolding row_fits_def by blast
  have "r = r'" if u: "column_unique s col" and r: "r \<in> set rows" "r' \<in> set rows" "indexable r s col = Some v" "indexable r' s col = Some v" for r r' v
  proof (rule ccontr)
    have clash: False if "rows = as @ a # bs" "a' \<in> set as" "indexable a s col = Some v" "indexable a' s col = Some v" for as bs a a'
      using fits u that unfolding row_fits_def value_keys_def by blast
    assume "r \<noteq> r'"
    obtain as bs where split: "rows = as @ r # bs" using r(1) by (meson split_list)
    then consider "r' \<in> set as" | "r' \<in> set bs" using r(2) \<open>r \<noteq> r'\<close> by auto
    then show False
    proof cases
      case 2
      then obtain cs ds where "bs = cs @ r' # ds" by (meson split_list)
      then have "rows = (as @ r # cs) @ r' # ds" using split by simp
      then show False using clash r(3,4) by (metis in_set_conv_decomp)
    qed (use clash split r(3,4) in blast)
  qed
  then show "index_ready s rows col" using keys unfolding index_ready_def by blast
next
  assume ready: "index_ready s rows col"
  show "\<forall>ys x zs. rows = ys @ x # zs \<longrightarrow> row_fits s col ys x"
    unfolding row_fits_def
  proof (intro allI impI)
    fix ys x zs v assume split: "rows = ys @ x # zs" and v: "indexable x s col = Some v"
    have x: "x \<in> set rows" "x \<notin> set ys" using split assms(1) by auto
    obtain k where k: "sortable_key v = Some k" using ready x(1) v unfolding index_ready_def by blast
    have "k \<notin> value_keys s col ys" if u: "column_unique s col"
    proof
      assume "k \<in> value_keys s col ys"
      then obtain r v' where r: "r \<in> set ys" "indexable r s col = Some v'" "sortable_key v' = Some k" by (auto simp: value_keys_def)
      have "r \<in> set rows" using r(1) split by simp
      then have "v' = v" using sortable_key_inject [OF r(3) k] assms(2) [OF x(1) v] assms(2) [OF _ r(2)] by simp
      then have "r = x" using ready u \<open>r \<in> set rows\<close> x(1) r(2) v unfolding index_ready_def by blast
      then show False using r(1) x(2) by simp
    qed
    then show "\<exists>k. sortable_key v = Some k \<and> (column_unique s col \<longrightarrow> k \<notin> value_keys s col ys)" using k by blast
  qed
qed

lemma flags_empty [simp]: "flags {} = Map.empty"
  by (simp add: flags_def fun_eq_iff)

context rel_store
begin

lemma clear_table_wp:
  assumes "inv w" "tbl_ok t"
  shows "ok_with (clear_table ops t w) (\<lambda>w'. inv w' \<and> view w' = (view w)(t := Map.empty))"
proof -
  obtain xs where xs: "s_range ops w t Unbounded Unbounded = Ok xs" "range_of (view w t) Unbounded Unbounded xs" using assms by (rule rangeE)
  have "ok_with (for_res (\<lambda>(k, _) w. s_delete ops w t k) xs w)
      ((\<lambda>ys w'. inv w' \<and> view w' = (view w)(t := (view w t) |` (- fst ` set ys))) xs)"
  proof (rule for_res_rule)
    fix ys zs :: kv_pairs and x :: "bytes \<times> bytes" and w1 assume I: "inv w1 \<and> view w1 = (view w)(t := (view w t) |` (- fst ` set ys))"
    obtain k v where x: "x = (k, v)" by (cases x)
    have "((view w t) |` (- fst ` set ys))(k := None) = (view w t) |` (- insert k (fst ` set ys))"
      by (auto simp: restrict_map_def)
    then show "ok_with ((\<lambda>(k, _) w. s_delete ops w t k) x w1) (\<lambda>w'. inv w' \<and> view w' = (view w)(t := (view w t) |` (- fst ` set (ys @ [x]))))"
      using I assms(2) x by (auto intro!: delete_wp)
  qed (use assms(1) in \<open>simp add: restrict_map_def\<close>)
  moreover have "view w t = map_of xs" using xs(2) by (simp add: range_of_def in_range_def fun_eq_iff)
  then have "(view w t) |` (- fst ` set xs) = Map.empty" by (simp add: restrict_map_def fun_eq_iff map_of_eq_None_iff)
  ultimately show ?thesis using xs(1) by (simp add: clear_table_def)
qed

lemma rebuild_index_outcome:
  assumes "inv w" "tbl_ok (index_table s col)" "distinct rows" "\<And>r. r \<in> set rows \<Longrightarrow> sortable_key (row_pk r) \<noteq> None"
    and "\<And>r v. r \<in> set rows \<Longrightarrow> indexable r s col = Some v \<Longrightarrow> kind_of v = K \<and> value_ok v"
  shows "outcome (rebuild_index ops s rows col w) (index_ready s rows col)
    (\<lambda>w'. inv w' \<and> view w' = (view w)(index_table s col := flags {k. \<exists>r\<in>set rows. entry_key s col r = Some k}))"
proof -
  let ?t = "index_table s col" and ?u = "column_unique s col"
  obtain w1 where w1: "clear_table ops ?t w = Ok w1" "inv w1" "view w1 = (view w)(?t := Map.empty)"
    using clear_table_wp [OF assms(1,2)] by (auto simp: ok_with_iff)
  let ?E = "\<lambda>ys. flags {k. \<exists>r\<in>set ys. entry_key s col r = Some k}"
  let ?I = "\<lambda>ys (seen, w'). (?u \<longrightarrow> seen = value_keys s col ys) \<and> inv w' \<and> view w' = (view w)(?t := ?E ys)"
  have loop: "outcome (for_res (rebuild_row ops s col ?u) rows ({}, w1)) (\<forall>ys x zs. rows = ys @ x # zs \<longrightarrow> row_fits s col ys x) (?I rows)"
  proof (rule outcome_for_res)
    show "?I [] ({}, w1)" using w1(2,3) by (simp add: value_keys_def)
    fix ys x zs st assume split: "rows = ys @ x # zs" and I: "?I ys st"
    obtain seen w2 where st: "st = (seen, w2)" by (cases st)
    have I2: "?u \<longrightarrow> seen = value_keys s col ys" "inv w2" "view w2 = (view w)(?t := ?E ys)" using I st by auto
    obtain kp where kp: "sortable_key (row_pk x) = Some kp" using assms(4) [of x] split by auto
    show "outcome (rebuild_row ops s col ?u x st) (row_fits s col ys x) (?I (ys @ [x]))"
    proof (cases "indexable x s col")
      case None
      then have "value_keys s col (ys @ [x]) = value_keys s col ys" "?E (ys @ [x]) = ?E ys" by (auto simp: value_keys_def entry_key_def)
      then show ?thesis using None I2 st by (simp add: rebuild_row_def row_fits_def)
    next
      case (Some v)
      show ?thesis
      proof (cases "sortable_key v")
        case None
        have "\<exists>e. sortable_encode v = Err e" "\<exists>e. index_key v (row_pk x) = Err e" using None by (simp_all add: sortable_encode_def index_key_def)
        then show ?thesis using None Some st by (auto simp: rebuild_row_def row_fits_def)
      next
        case kv: (Some k)
        have key: "index_key v (row_pk x) = Ok (k @ kp)" "sortable_encode v = Ok k" using kv kp by (simp_all add: index_key_Ok sortable_encode_def)
        have vk: "value_keys s col (ys @ [x]) = insert k (value_keys s col ys)" using Some kv by (auto simp: value_keys_def)
        have "{k'. \<exists>r\<in>set (ys @ [x]). entry_key s col r = Some k'} = insert (k @ kp) {k'. \<exists>r\<in>set ys. entry_key s col r = Some k'}"
          using Some key(1) by (auto simp: entry_key_def)
        then have ek: "?E (ys @ [x]) = (?E ys)(k @ kp \<mapsto> [])" by simp
        obtain w3 where w3: "s_put ops w2 ?t (k @ kp) [] = Ok w3" "inv w3" "view w3 = (view w2)(?t := (view w2 ?t)(k @ kp \<mapsto> []))"
          using put_view [OF I2(2) assms(2)] by blast
        then have "view w3 = (view w)(?t := ?E (ys @ [x]))" using I2(3) ek by simp
        then show ?thesis using Some kv key st I2(1) w3(1,2) vk by (auto simp: rebuild_row_def row_fits_def)
      qed
    qed
  qed
  have ready: "outcome (for_res (rebuild_row ops s col ?u) rows ({}, w1)) (index_ready s rows col) (?I rows)"
    by (rule outcome_mono [OF loop index_ready_iff [OF assms(3,5)]])
  have "outcome (bind_res (for_res (rebuild_row ops s col ?u) rows ({}, w1)) (\<lambda>(_, w). Ok w)) (index_ready s rows col \<and> True)
      (\<lambda>w'. inv w' \<and> view w' = (view w)(?t := ?E rows))"
    by (rule outcome_bind [OF ready]) auto
  then show ?thesis using w1(1) by (simp add: rebuild_index_def column_unique_def)
qed

text \<open>Rewriting the rows: all of them validate, and the base table holds them.\<close>

lemma migrate_rows_outcome:
  assumes tx: "rel_tx inv view hinv C old w T" and new: "schema_ok new" "td_name new = td_name old"
    and rows: "distinct rows" "set rows = rows_in T"
  defines "mr \<equiv> \<lambda>r. \<lparr>row_pk = row_pk r, row_values = migrate_values old new (row_values r)\<rparr>"
  shows "outcome (for_res (migrate_row C ops old new) rows ([], w)) (\<forall>r\<in>set rows. validate_row new (row_pk r) (migrate_values old new (row_values r)) = Ok ())
    (\<lambda>(rows', w'). rows' = map mr rows \<and> inv w' \<and> base_repr C (migrate_rows old new T) (view w' (base_table new)) \<and>
      (\<forall>t. t \<noteq> base_table new \<longrightarrow> view w' t = view w t))"
proof -
  let ?mv = "migrate_values old new" and ?b = "base_table new"
  have T: "inv w" "table_wf old T" "schema_ok old" "rel_codecs_ok C" "base_repr C T (view w ?b)"
    using tx new(2) by (simp_all add: rel_tx_def table_repr_def base_table_def)
  define part where "part = (\<lambda>(ys :: row list) pk. if pk \<in> row_pk ` set ys then map_option ?mv (T pk) else T pk)"
  have part_key: "kind_of pk = pk_kind_of old \<and> value_ok pk" if "part ys pk = Some vs" for ys pk vs
    using that table_wf_key [OF T(2,3), of pk] by (auto simp: part_def split: if_splits)
  let ?I = "\<lambda>ys (rows', w'). rows' = map mr ys \<and> inv w' \<and> base_repr C (part ys) (view w' ?b) \<and> (\<forall>t. t \<noteq> ?b \<longrightarrow> view w' t = view w t)"
  have "outcome (for_res (migrate_row C ops old new) rows ([], w)) (\<forall>r\<in>set rows. validate_row new (row_pk r) (?mv (row_values r)) = Ok ()) (?I rows)"
  proof (rule outcome_for_res_all)
    have "part [] = T" by (simp add: part_def)
    then show "?I [] ([], w)" using T(1,5) by simp
    fix ys r zs st assume split: "rows = ys @ r # zs" and I: "?I ys st"
    obtain rs w1 where st: "st = (rs, w1)" by (cases st)
    have I1: "rs = map mr ys" "inv w1" "base_repr C (part ys) (view w1 ?b)" "\<forall>t. t \<noteq> ?b \<longrightarrow> view w1 t = view w t" using I st by auto
    have r: "r \<in> rows_in T" "set ys \<subseteq> rows_in T" "r \<notin> set ys" using split rows by auto
    have Tr: "T (row_pk r) = Some (row_values r)" using r(1) by (simp add: rows_in_def)
    have new_pk: "row_pk r \<notin> row_pk ` set ys" using r rows_in_pk_eq by blast
    note row = table_wf_key [OF T(2,3) Tr]
    obtain k where k: "sortable_key (row_pk r) = Some k" using row(5) by blast
    have mv: "properties_ok (?mv (row_values r))" using migrate_values_ok [OF new(1) row(4)] .
    obtain bs where bs: "encode_row C (?mv (row_values r)) = Ok bs" using encode_rowE [OF T(4) mv] by blast
    have step: "part (ys @ [r]) = (part ys)(row_pk r \<mapsto> ?mv (row_values r))" using Tr by (auto simp: part_def fun_eq_iff)
    have store: "ok_with (if \<not> entries_eq (?mv (row_values r)) (row_values r)
          then bind_res (sortable_encode (row_pk r)) (\<lambda>k. bind_res (encode_row C (?mv (row_values r))) (\<lambda>bs. s_put ops w1 ?b k bs)) else Ok w1)
        (\<lambda>w'. inv w' \<and> base_repr C (part (ys @ [r])) (view w' ?b) \<and> (\<forall>t. t \<noteq> ?b \<longrightarrow> view w' t = view w t))"
    proof (cases "entries_eq (?mv (row_values r)) (row_values r)")
      case True
      have "?mv (row_values r) = row_values r" using migrate_values_same [OF True row(4)] .
      moreover have "part ys (row_pk r) = Some (row_values r)" using Tr new_pk by (simp add: part_def)
      ultimately have "part (ys @ [r]) = part ys" unfolding step by (simp add: fun_upd_idem)
      then show ?thesis using True I1 by simp
    next
      case False
      have "base_repr C (part (ys @ [r])) ((view w1 ?b)(k \<mapsto> bs))"
        unfolding step using part_key [of ys] row(2,3) bs by (intro base_repr_upd [OF I1(3) _ row(3) k]) auto
      then show ?thesis using False k bs I1(2,4) base_ok [OF new(1)] by (auto simp: sortable_encode_def intro!: put_wp)
    qed
    obtain w2 where w2: "(if \<not> entries_eq (?mv (row_values r)) (row_values r)
          then bind_res (sortable_encode (row_pk r)) (\<lambda>k. bind_res (encode_row C (?mv (row_values r))) (\<lambda>bs. s_put ops w1 ?b k bs)) else Ok w1) = Ok w2"
        "inv w2" "base_repr C (part (ys @ [r])) (view w2 ?b)" "\<forall>t. t \<noteq> ?b \<longrightarrow> view w2 t = view w t"
      using store by (auto simp only: ok_with_iff)
    show "outcome (migrate_row C ops old new r st) (validate_row new (row_pk r) (?mv (row_values r)) = Ok ()) (?I (ys @ [r]))"
      using validate_no_panic [of new "row_pk r" "?mv (row_values r)"] w2 I1(1) st
      by (cases "validate_row new (row_pk r) (?mv (row_values r))") (simp_all add: migrate_row_def Let_def mr_def)
  qed
  moreover have "part rows = migrate_rows old new T"
  proof
    fix pk
    show "part rows pk = migrate_rows old new T pk"
    proof (cases "T pk")
      case (Some vs)
      then have "\<lparr>row_pk = pk, row_values = vs\<rparr> \<in> set rows" using rows(2) by simp
      then have "pk \<in> row_pk ` set rows" by force
      then show ?thesis by (simp add: part_def migrate_rows_def)
    qed (simp add: part_def migrate_rows_def)
  qed
  ultimately show ?thesis by simp
qed

text \<open>The two loops over the indexes.\<close>

lemma drop_old_indexes_wp:
  assumes "inv w" "schema_ok old" "schema_ok new" "td_name new = td_name old"
  shows "ok_with (for_res (drop_old_index ops old new) (td_indexed_columns old) w) (\<lambda>w'. inv w' \<and>
    (\<forall>col\<in>set (td_indexed_columns old). view w' (index_table old col) = (if is_indexed new col then view w (index_table old col) else Map.empty)) \<and>
    (\<forall>t. t \<notin> index_table old ` set (td_indexed_columns old) \<longrightarrow> view w' t = view w t))"
proof (rule index_loop [where before = "\<lambda>col. view w (index_table old col)", OF assms(1) schema_okD(4) [OF assms(2)] refl])
  fix col w1 assume col: "col \<in> set (td_indexed_columns old)" and w1: "inv w1" "view w1 (index_table old col) = view w (index_table old col)"
  show "ok_with (drop_old_index ops old new col w1) (\<lambda>w'. inv w' \<and>
      view w' = (view w1)(index_table old col := (if is_indexed new col then view w (index_table old col) else Map.empty)))"
    using clear_table_wp [OF w1(1) index_ok [OF assms(2) col]] w1 by (simp add: drop_old_index_def fun_upd_idem)
qed

abbreviation needs_build :: "table_schema \<Rightarrow> table_schema \<Rightarrow> string \<Rightarrow> bool" where
  "needs_build old new col \<equiv> \<not> is_indexed old col \<or> (column_unique new col \<and> \<not> column_unique old col)"

lemma build_new_indexes_outcome:
  assumes "inv w" "schema_ok new" "distinct rows" "\<And>r. r \<in> set rows \<Longrightarrow> sortable_key (row_pk r) \<noteq> None"
    and rows: "\<And>r. r \<in> set rows \<Longrightarrow> properties_ok (row_values r) \<and> validate_row new (row_pk r) (row_values r) = Ok ()"
    and kept: "\<And>col. col \<in> set (td_indexed_columns new) \<Longrightarrow> \<not> needs_build old new col \<Longrightarrow>
      view w (index_table new col) = flags {k. \<exists>r\<in>set rows. entry_key new col r = Some k}"
  shows "outcome (for_res (build_new_index ops old new rows) (td_indexed_columns new) w)
    (\<forall>col\<in>set (td_indexed_columns new). needs_build old new col \<longrightarrow> index_ready new rows col)
    (\<lambda>w'. inv w' \<and> (\<forall>col\<in>set (td_indexed_columns new). view w' (index_table new col) = flags {k. \<exists>r\<in>set rows. entry_key new col r = Some k}) \<and>
      (\<forall>t. t \<notin> index_table new ` set (td_indexed_columns new) \<longrightarrow> view w' t = view w t))"
proof -
  let ?E = "\<lambda>col. flags {k. \<exists>r\<in>set rows. entry_key new col r = Some k}"
  let ?I = "\<lambda>ys w'. inv w' \<and> (\<forall>col\<in>set ys. view w' (index_table new col) = ?E col) \<and>
    (\<forall>t. t \<notin> index_table new ` set ys \<longrightarrow> view w' t = view w t)"
  show ?thesis
  proof (rule outcome_for_res_all [of ?I])
    fix ys col zs w1 assume split: "td_indexed_columns new = ys @ col # zs" and I: "?I ys w1"
    have col: "col \<in> set (td_indexed_columns new)" "col \<notin> set ys" using split schema_okD(4) [OF assms(2)] by auto
    obtain c where c: "ts_column new col = Some c" by (rule indexed_column [OF assms(2) col(1)])
    have "index_table new col \<notin> index_table new ` set ys" using col(2) by auto
    then have here: "view w1 (index_table new col) = view w (index_table new col)" using I by blast
    have vals: "kind_of v = cs_kind c \<and> value_ok v" if "r \<in> set rows" "indexable r new col = Some v" for r v
      using migrated_column [OF assms(2) _ col(1) _ c, of "row_values r" "row_pk r" v] rows [OF that(1)] that(2) by (cases r) simp
    show "outcome (build_new_index ops old new rows col w1) (needs_build old new col \<longrightarrow> index_ready new rows col) (?I (ys @ [col]))"
    proof (cases "needs_build old new col")
      case True
      have "outcome (rebuild_index ops new rows col w1) (index_ready new rows col) (\<lambda>w'. inv w' \<and> view w' = (view w1)(index_table new col := ?E col))"
        by (rule rebuild_index_outcome [OF _ index_ok [OF assms(2) col(1)] assms(3,4) vals]) (use I in simp_all)
      then have "outcome (rebuild_index ops new rows col w1) (index_ready new rows col) (?I (ys @ [col]))"
        by (rule outcome_mono) (use I col(2) in auto)
      then show ?thesis using True by (auto simp: build_new_index_def)
    next
      case False
      then show ?thesis using I here kept [OF col(1)] by (auto simp: build_new_index_def)
    qed
  qed (use assms(1) in simp)
qed

text \<open>When the rows validate and the new indexes can be built, the migrated table is well formed, and conversely.\<close>

lemma migrated_wf_iff:
  assumes "table_wf old T" "schema_ok old" "schema_ok new" "compatible old new" "set rows = rows_in T"
  shows "(\<forall>r\<in>set rows. validate_row new (row_pk r) (migrate_values old new (row_values r)) = Ok ()) \<and>
      (\<forall>col\<in>set (td_indexed_columns new). needs_build old new col \<longrightarrow> index_ready new (map (migrated old new) rows) col) \<longleftrightarrow>
    table_wf new (migrate_rows old new T)"
    (is "?valid \<and> ?ready \<longleftrightarrow> _")
proof -
  let ?T = "migrate_rows old new T" and ?m = "migrated old new"
  have pk: "td_primary_key old = td_primary_key new" using assms(4) by (simp add: compatible_def)
  have rows: "rows_in ?T = ?m ` set rows" using migrate_rows_in assms(5) by (auto simp: image_iff)
  have pkc: "ts_column old (td_primary_key new) \<noteq> None" using schema_pk [OF assms(2)] pk by (metis option.distinct(1))
  have no_pk: "map_of (migrate_values old new (row_values r)) (td_primary_key new) = None" if "r \<in> set rows" for r
  proof -
    have "map_of (row_values r) (td_primary_key new) = None"
      using table_wf_row [OF assms(1)] that assms(5) pk by (auto simp: row_ok_def)
    then show ?thesis using migrate_values_map [OF pkc] by simp
  qed
  have old: "row_ok old (row_pk r) (row_values r)" if "r \<in> set rows" for r using table_wf_row [OF assms(1)] that assms(5) by blast
  have props: "value_ok (row_pk r)" "properties_ok (migrate_values old new (row_values r))" "sortable_key (row_pk r) \<noteq> None" if "r \<in> set rows" for r
    using row_okD [OF old [OF that] assms(2)] migrate_values_ok [OF assms(3)] by blast+
  have ix: "indexable (?m r) new col = (case map_of (migrate_values old new (row_values r)) col of Some v \<Rightarrow> if v = Null then None else Some v | None \<Rightarrow> None)"
    if "col \<in> set (td_indexed_columns new)" for r col
    using schema_okD(5) [OF assms(3)] that by (auto simp: indexable_def row_get_def)
  show ?thesis
  proof
    assume A: "?valid \<and> ?ready"
    have "row_ok new pk' vs'" if "?T pk' = Some vs'" for pk' vs'
    proof -
      have "\<lparr>row_pk = pk', row_values = vs'\<rparr> \<in> rows_in ?T" using that by simp
      then obtain r where r: "r \<in> set rows" "pk' = row_pk r" "vs' = migrate_values old new (row_values r)" unfolding rows by auto
      have "sortable_key v \<noteq> None" if col: "col \<in> set (td_indexed_columns new)" "map_of vs' col = Some v" "v \<noteq> Null" for col v
      proof -
        have iv: "indexable (?m r) new col = Some v" using ix [OF col(1), of r] col(2,3) r(3) by simp
        show ?thesis
        proof (cases "needs_build old new col")
          case True
          then have "index_ready new (map ?m rows) col" using A col(1) by blast
          then show ?thesis using iv r(1) unfolding index_ready_def by auto
        next
          case False
          then have o1: "col \<in> set (td_indexed_columns old)" by (simp add: is_indexed_def)
          then obtain c where c: "ts_column old col = Some c" by (rule indexed_column [OF assms(2)])
          have "indexable r old col = Some v" using kept_column(1) [OF assms(2,3) o1 col(1), of r] iv by simp
          then show ?thesis using indexable_Some(3) [OF old [OF r(1)] assms(2) o1 _ c] by blast
        qed
      qed
      then show ?thesis using A r props [OF r(1)] no_pk [OF r(1)] by (auto simp: row_ok_def keys_ok_def)
    qed
    moreover have "unique_in new ?T"
      unfolding unique_in_def rows
    proof (intro ballI impI allI)
      fix c x x' v
      assume c: "c \<in> set (td_columns new)" "cs_unique c" and x: "x \<in> ?m ` set rows" "x' \<in> ?m ` set rows"
        and v: "indexable x new (cs_name c) = Some v" "indexable x' new (cs_name c) = Some v"
      obtain r r' where r: "r \<in> set rows" "x = ?m r" "r' \<in> set rows" "x' = ?m r'" using x by blast
      have col: "cs_name c \<in> set (td_indexed_columns new)" using schema_okD(7) [OF assms(3)] c by blast
      have "ts_column new (cs_name c) = Some c" using ts_column_iff [OF assms(3)] c(1) by blast
      then have "column_unique new (cs_name c)" using c(2) by (simp add: column_unique_def)
      show "row_pk x = row_pk x'"
      proof (cases "needs_build old new (cs_name c)")
        case True
        then have "index_ready new (map ?m rows) (cs_name c)" using A col by blast
        then show ?thesis using \<open>column_unique new (cs_name c)\<close> x v unfolding index_ready_def by auto
      next
        case False
        then have o1: "cs_name c \<in> set (td_indexed_columns old)" "column_unique old (cs_name c)"
          using \<open>column_unique new (cs_name c)\<close> by (simp_all add: is_indexed_def)
        then obtain d where d: "d \<in> set (td_columns old)" "cs_name d = cs_name c" "cs_unique d"
          using ts_column_iff [OF assms(2)] by (auto simp: column_unique_def split: option.splits)
        have "indexable r old (cs_name d) = Some v" "indexable r' old (cs_name d) = Some v"
          using v kept_column(1) [OF assms(2,3) o1(1) col] r(2,4) d(2) by simp_all
        then have "row_pk r = row_pk r'"
          using assms(1,5) r(1,3) d(1,3) unfolding table_wf_def unique_in_def by blast
        then show ?thesis using r(2,4) by simp
      qed
    qed
    ultimately show "table_wf new ?T" by (simp add: table_wf_def)
  next
    assume wf: "table_wf new ?T"
    have ok: "row_ok new (row_pk r) (migrate_values old new (row_values r))" if "r \<in> set rows" for r
      using table_wf_row [OF wf, of "?m r"] rows that by auto
    have "index_ready new (map ?m rows) col" if col: "col \<in> set (td_indexed_columns new)" for col
    proof -
      obtain c where c: "ts_column new col = Some c" by (rule indexed_column [OF assms(3) col])
      have "sortable_key v \<noteq> None" if "r \<in> set rows" "indexable (?m r) new col = Some v" for r v
        using indexable_Some(3) [OF _ assms(3) col that(2) c] ok [OF that(1)] by simp
      moreover have "x = x'" if u: "column_unique new col" "x \<in> rows_in ?T" "x' \<in> rows_in ?T" "indexable x new col = Some v" "indexable x' new col = Some v" for x x' v
      proof -
        have "c \<in> set (td_columns new)" "cs_name c = col" "cs_unique c" using u(1) c ts_column_iff [OF assms(3)] by (auto simp: column_unique_def)
        then have "row_pk x = row_pk x'" using wf u unfolding table_wf_def unique_in_def by blast
        then show ?thesis using rows_in_pk_eq u(2,3) by blast
      qed
      ultimately show ?thesis unfolding index_ready_def using rows by auto
    qed
    moreover have ?valid using ok by (simp add: row_ok_def)
    ultimately show "?valid \<and> ?ready" by blast
  qed
qed

text \<open>The definition is stored in the catalog.\<close>

lemma store_def_wp:
  assumes "inv w" "encode_table_def C s = Ok bs"
  shows "ok_with (store_def C ops w s) (\<lambda>w'. inv w' \<and> view w' = (view w)(meta_table := (view w meta_table)(catalog_key (td_name s) \<mapsto> bs)))"
  using assms meta_tbl_ok by (auto simp: store_def_def intro!: put_wp)

lemma check_kinds_outcome:
  "outcome (for_res (check_kind old new) (td_columns new) ())
    (\<forall>c\<in>set (td_columns new). \<forall>x. ts_column old (cs_name c) = Some x \<longrightarrow> cs_kind x = cs_kind c) (\<lambda>_. True)"
  by (rule outcome_for_res_all [where I = "\<lambda>_ _. True"]) (auto simp: check_kind_def split: option.splits)

lemma migrate_outcome:
  assumes tx: "rel_tx inv view hinv C old w T" and new: "schema_ok new" "td_name new = td_name old" "encode_table_def C new = Ok bs"
  shows "outcome (migrate_in C ops w old new) (compatible old new \<and> table_wf new (migrate_rows old new T))
    (\<lambda>w'. inv w' \<and> table_repr C new (migrate_rows old new T) (view w') \<and>
      view w' meta_table = (view w meta_table)(catalog_key (td_name new) \<mapsto> bs) \<and>
      (\<forall>t. t \<notin> tables_of old \<union> tables_of new \<longrightarrow> t \<noteq> meta_table \<longrightarrow> view w' t = view w t) \<and>
      (\<forall>col\<in>set (td_indexed_columns old) - set (td_indexed_columns new). view w' (index_table old col) = Map.empty))"
proof -
  let ?T = "migrate_rows old new T" and ?m = "migrated old new" and ?bt = "base_table new"
  have T: "inv w" "schema_ok old" "rel_codecs_ok C" "table_wf old T" "\<And>col. col \<in> set (td_indexed_columns old) \<Longrightarrow> view w (index_table old col) = flags (index_entries old T col)"
    using tx by (simp_all add: rel_tx_def table_repr_def)
  have ixt: "index_table old = index_table new" using new(2) by (simp add: index_table_def fun_eq_iff)
  obtain a where a: "primary_key_column old = Ok a" "cs_kind a = pk_kind_of old" by (rule schema_pk [OF T(2)])
  obtain b where b: "primary_key_column new = Ok b" "cs_kind b = pk_kind_of new" by (rule schema_pk [OF new(1)])
  obtain rows where rows: "scan_all_in C ops w old = Ok rows" "distinct rows" "set rows = rows_in T"
    by (rule scan_all_in_view [of w C old T]) (use tx in \<open>auto simp: rel_tx_def\<close>)
  let ?rows = "map ?m rows"
  let ?valid = "\<forall>r\<in>set rows. validate_row new (row_pk r) (migrate_values old new (row_values r)) = Ok ()"
  let ?ready = "\<forall>col\<in>set (td_indexed_columns new). needs_build old new col \<longrightarrow> index_ready new ?rows col"
  let ?Q = "\<lambda>w'. inv w' \<and> table_repr C new ?T (view w') \<and> view w' meta_table = (view w meta_table)(catalog_key (td_name new) \<mapsto> bs) \<and>
      (\<forall>t. t \<notin> tables_of old \<union> tables_of new \<longrightarrow> t \<noteq> meta_table \<longrightarrow> view w' t = view w t) \<and>
      (\<forall>col\<in>set (td_indexed_columns old) - set (td_indexed_columns new). view w' (index_table old col) = Map.empty)"
  let ?f = "\<lambda>(rows, w). bind_res (for_res (drop_old_index ops old new) (td_indexed_columns old) w) (\<lambda>w.
      bind_res (for_res (build_new_index ops old new rows) (td_indexed_columns new) w) (\<lambda>w. store_def C ops w new))"
  have body: "outcome (bind_res (for_res (migrate_row C ops old new) rows ([], w)) ?f) (?valid \<and> ?ready) ?Q" if comp: "compatible old new"
  proof (rule outcome_bind [OF migrate_rows_outcome [OF tx new(1,2) rows(2,3)]])
    fix x assume valid: ?valid and x: "case x of (rows', w') \<Rightarrow> rows' = ?rows \<and> inv w' \<and> base_repr C ?T (view w' ?bt) \<and> (\<forall>t. t \<noteq> ?bt \<longrightarrow> view w' t = view w t)"
    obtain w1 where w1: "x = (?rows, w1)" "inv w1" "base_repr C ?T (view w1 ?bt)" "\<forall>t. t \<noteq> ?bt \<longrightarrow> view w1 t = view w t" using x by (cases x) auto
    obtain w2 where w2: "for_res (drop_old_index ops old new) (td_indexed_columns old) w1 = Ok w2" "inv w2"
        "\<forall>col\<in>set (td_indexed_columns old). view w2 (index_table new col) = (if is_indexed new col then view w1 (index_table new col) else Map.empty)"
        "\<forall>t. t \<notin> index_table new ` set (td_indexed_columns old) \<longrightarrow> view w2 t = view w1 t"
      using drop_old_indexes_wp [OF w1(2) T(2) new(1,2)] by (auto simp: ok_with_iff ixt)
    have row: "row_ok old (row_pk r) (row_values r)" if "r \<in> set rows" for r using table_wf_row [OF T(4)] that rows(3) by blast
    have kept: "view w2 (index_table new col) = flags {k. \<exists>r\<in>set ?rows. entry_key new col r = Some k}"
      if col: "col \<in> set (td_indexed_columns new)" "\<not> needs_build old new col" for col
    proof -
      have o1: "col \<in> set (td_indexed_columns old)" using col(2) by (simp add: is_indexed_def)
      have "view w2 (index_table new col) = view w (index_table old col)"
        using w2(3) o1 w1(4) col(1) index_table_neq(1) [OF new(1)] by (simp add: is_indexed_def ixt)
      also have "\<dots> = flags {k. \<exists>r\<in>set ?rows. entry_key new col r = Some k}"
        using T(5) [OF o1] kept_column(2) [OF T(2) new(1) o1 col(1)] rows(3) by (simp add: index_entries_def)
      finally show ?thesis .
    qed
    have "inj_on ?m (set rows)"
    proof (rule inj_onI)
      fix r r' assume r: "r \<in> set rows" "r' \<in> set rows" "?m r = ?m r'"
      then have "row_pk r = row_pk r'" by simp
      then show "r = r'" using r(1,2) rows(3) rows_in_pk_eq by blast
    qed
    then have dist: "distinct ?rows" using rows(2) by (simp add: distinct_map)
    have "outcome (for_res (build_new_index ops old new ?rows) (td_indexed_columns new) w2) ?ready
      (\<lambda>w'. inv w' \<and> (\<forall>col\<in>set (td_indexed_columns new). view w' (index_table new col) = flags {k. \<exists>r\<in>set ?rows. entry_key new col r = Some k}) \<and>
        (\<forall>t. t \<notin> index_table new ` set (td_indexed_columns new) \<longrightarrow> view w' t = view w2 t))"
      by (rule build_new_indexes_outcome [OF w2(2) new(1) dist _ _ kept])
        (use row valid row_okD [OF row T(2)] migrate_values_ok [OF new(1)] in auto)
    then have "outcome (bind_res (for_res (build_new_index ops old new ?rows) (td_indexed_columns new) w2) (\<lambda>w. store_def C ops w new)) (?ready \<and> True) ?Q"
    proof (rule outcome_bind)
      fix w3 assume ready: ?ready and w3: "inv w3 \<and> (\<forall>col\<in>set (td_indexed_columns new). view w3 (index_table new col) = flags {k. \<exists>r\<in>set ?rows. entry_key new col r = Some k}) \<and>
        (\<forall>t. t \<notin> index_table new ` set (td_indexed_columns new) \<longrightarrow> view w3 t = view w2 t)"
      have wf: "table_wf new ?T" using migrated_wf_iff [OF T(4,2) new(1) comp rows(3)] valid ready by blast
      have "view w3 ?bt = view w1 ?bt" using w3 w2(4) index_not_base [OF new(1)] by metis
      moreover have "{k. \<exists>r\<in>set ?rows. entry_key new col r = Some k} = index_entries new ?T col" for col
        using migrate_rows_in [of _ old new T] rows(3) by (auto simp: index_entries_def)
      ultimately have repr: "table_repr C new ?T (view w3)" using w1(3) w3 new(1) T(3) wf by (simp add: table_repr_def)
      have other: "view w3 t = view w t" if "t \<notin> tables_of old \<union> tables_of new" for t
        using that w3 w2(4) w1(4) by (simp add: tables_of_def ixt)
      have gone: "view w3 (index_table old col) = Map.empty" "index_table old col \<noteq> meta_table"
        if "col \<in> set (td_indexed_columns old) - set (td_indexed_columns new)" for col
      proof -
        have "index_table new col \<notin> index_table new ` set (td_indexed_columns new)" using that by auto
        then have "view w3 (index_table new col) = view w2 (index_table new col)" using w3 by blast
        then show "view w3 (index_table old col) = Map.empty" using w2(3) that by (simp add: ixt is_indexed_def)
        show "index_table old col \<noteq> meta_table" using that tables_of_not_search [OF T(2)] by (auto simp: tables_of_def)
      qed
      have "meta_table \<notin> tables_of old \<union> tables_of new" using tables_of_not_search [OF T(2)] tables_of_not_search [OF new(1)] by blast
      note other [OF this]
      moreover have "table_repr C new ?T ((view w3)(meta_table := m))" for m
        by (rule table_repr_cong [OF repr]) (use tables_of_not_search [OF new(1)] in auto)
      ultimately show "outcome (store_def C ops w3 new) True ?Q"
        unfolding outcome_ok_with by (intro ok_with_mono [OF store_def_wp [OF conjunct1 [OF w3] new(3)]]) (use other gone in auto)
    qed
    then show "outcome (?f x) ?ready ?Q" using w1(1) w2(1) by simp
  qed
  show ?thesis
  proof (cases "td_primary_key old = td_primary_key new \<and> pk_kind_of old = pk_kind_of new \<and> td_auto_increment_pk old = td_auto_increment_pk new")
    case False
    then show ?thesis using a b by (auto simp: migrate_in_def compatible_def)
  next
    case True
    let ?kinds = "\<forall>c\<in>set (td_columns new). \<forall>x. ts_column old (cs_name c) = Some x \<longrightarrow> cs_kind x = cs_kind c"
    have comp: "compatible old new \<longleftrightarrow> ?kinds" using True by (simp add: compatible_def)
    have "outcome (bind_res (for_res (check_kind old new) (td_columns new) ()) (\<lambda>_. bind_res (for_res (migrate_row C ops old new) rows ([], w)) ?f))
        (?kinds \<and> (?valid \<and> ?ready)) ?Q"
      by (rule outcome_bind [OF check_kinds_outcome]) (use body comp in blast)
    then have "outcome (migrate_in C ops w old new) (?kinds \<and> (?valid \<and> ?ready)) ?Q"
      using True a b rows(1) by (simp add: migrate_in_def)
    then show ?thesis
      by (rule outcome_mono) (use comp migrated_wf_iff [OF T(4,2) new(1) _ rows(3)] in \<open>blast, blast\<close>)
  qed
qed

end

end
