(* ===== verification/Rel_Registry.thy ===== *)
theory Rel_Registry
  imports Rel_Migrate
begin

text \<open>
  The registered tables of a database as one abstract state: a map from table name to definition and rows
  (\<open>registry\<close>), together with the tables that are used through a static schema and are not in the catalog (a second such
  map). \<open>tables_tx\<close> says that a transaction holds both: the catalog has exactly the registered definitions, every table is
  held as its definition says, and no entries are left in tables that belong to nobody; \<open>registry_tx\<close> is the case without
  unregistered tables. Creating, adopting, migrating and dropping tables keep this and change the two maps as specified;
  lookups and listings read the registry.
\<close>

type_synonym registry = "string \<rightharpoonup> table_schema \<times> rows"

definition tables_named :: "string \<Rightarrow> table set" where
  "tables_named n = insert n (range (index_table_named n))"

definition entry_repr :: "rel_codecs \<Rightarrow> store \<Rightarrow> string \<Rightarrow> (table_schema \<times> rows) option \<Rightarrow> bool" where
  "entry_repr C \<sigma> n d \<longleftrightarrow> (case d of
      None \<Rightarrow> \<sigma> meta_table (catalog_key n) = None
    | Some (s, T) \<Rightarrow> td_name s = n \<and> table_repr C s T \<sigma> \<and>
        (\<exists>bs. encode_table_def C s = Ok bs \<and> \<sigma> meta_table (catalog_key n) = Some bs))"

text \<open>No entries outside the tables of the definition.\<close>

definition no_strays :: "store \<Rightarrow> string \<Rightarrow> (table_schema \<times> rows) option \<Rightarrow> bool" where
  "no_strays \<sigma> n d \<longleftrightarrow> (\<forall>t\<in>tables_named n. (\<forall>s T. d = Some (s, T) \<longrightarrow> t \<notin> tables_of s) \<longrightarrow> \<sigma> t = Map.empty)"

abbreviation user_name :: "string \<Rightarrow> bool" where
  "user_name n \<equiv> ident_ok n \<and> \<not> is_reserved n"

text \<open>An unregistered table in use, with the schema it is used with.\<close>

definition loose_repr :: "rel_codecs \<Rightarrow> store \<Rightarrow> string \<Rightarrow> (table_schema \<times> rows) option \<Rightarrow> (table_schema \<times> rows) option \<Rightarrow> bool" where
  "loose_repr C \<sigma> n d u \<longleftrightarrow> (case u of None \<Rightarrow> True | Some (s, T) \<Rightarrow> d = None \<and> td_name s = n \<and> table_repr C s T \<sigma>)"

definition tables_repr :: "rel_codecs \<Rightarrow> registry \<Rightarrow> registry \<Rightarrow> store \<Rightarrow> bool" where
  "tables_repr C U D \<sigma> \<longleftrightarrow> rel_codecs_ok C \<and> (\<forall>n. entry_repr C \<sigma> n (D n)) \<and> (\<forall>n. loose_repr C \<sigma> n (D n) (U n)) \<and>
    (\<forall>n. user_name n \<longrightarrow> no_strays \<sigma> n ((U ++ D) n))"

definition tables_tx :: "('w \<Rightarrow> bool) \<Rightarrow> ('w \<Rightarrow> store) \<Rightarrow> (store \<Rightarrow> bool) \<Rightarrow> rel_codecs \<Rightarrow> registry \<Rightarrow> registry \<Rightarrow> 'w \<Rightarrow> bool" where
  "tables_tx I view hinv C U D w \<longleftrightarrow> I w \<and> hinv (view w) \<and> tables_repr C U D (view w)"

abbreviation registry_repr :: "rel_codecs \<Rightarrow> registry \<Rightarrow> store \<Rightarrow> bool" where
  "registry_repr C D \<sigma> \<equiv> tables_repr C Map.empty D \<sigma>"

abbreviation registry_tx :: "('w \<Rightarrow> bool) \<Rightarrow> ('w \<Rightarrow> store) \<Rightarrow> (store \<Rightarrow> bool) \<Rightarrow> rel_codecs \<Rightarrow> registry \<Rightarrow> 'w \<Rightarrow> bool" where
  "registry_tx I view hinv C D w \<equiv> tables_tx I view hinv C Map.empty D w"

section \<open>Operations on the registry\<close>

text \<open>The rows an unregistered table holds; a table nobody has used is empty.\<close>

definition found_rows :: "registry \<Rightarrow> string \<Rightarrow> rows" where
  "found_rows U n = (case U n of Some (_, T) \<Rightarrow> T | None \<Rightarrow> Map.empty)"

text \<open>
  An unregistered table that can be registered under \<open>s\<close>: every row it holds is a row of \<open>s\<close> (registering does not check
  this, except for uniqueness), and every index it had is an index of \<open>s\<close>.
\<close>

definition adoptable :: "registry \<Rightarrow> table_schema \<Rightarrow> bool" where
  "adoptable U s \<longleftrightarrow> (case U (td_name s) of None \<Rightarrow> True
    | Some (s0, T) \<Rightarrow> pk_kind_of s = pk_kind_of s0 \<and> set (td_indexed_columns s0) \<subseteq> set (td_indexed_columns s) \<and>
        (\<forall>pk vs. T pk = Some vs \<longrightarrow> row_ok s pk vs))"

definition create_ok :: "registry \<Rightarrow> registry \<Rightarrow> table_schema \<Rightarrow> bool" where
  "create_ok U D s \<longleftrightarrow> (case D (td_name s) of None \<Rightarrow> unique_in s (found_rows U (td_name s)) | Some (old, _) \<Rightarrow> schema_eq old s)"

definition ensure_ok :: "registry \<Rightarrow> registry \<Rightarrow> table_schema \<Rightarrow> bool" where
  "ensure_ok U D s \<longleftrightarrow> (case D (td_name s) of None \<Rightarrow> unique_in s (found_rows U (td_name s))
    | Some (old, T) \<Rightarrow> schema_eq old s \<or> compatible old s \<and> table_wf s (migrate_rows old s T))"

definition ensure_spec :: "registry \<Rightarrow> registry \<Rightarrow> table_schema \<Rightarrow> registry" where
  "ensure_spec U D s = (case D (td_name s) of None \<Rightarrow> D(td_name s \<mapsto> (s, found_rows U (td_name s)))
    | Some (old, T) \<Rightarrow> if schema_eq old s then D else D(td_name s \<mapsto> (s, migrate_rows old s T)))"

section \<open>What an operation on one table may change\<close>

definition only_named :: "string \<Rightarrow> store \<Rightarrow> store \<Rightarrow> bool" where
  "only_named n \<sigma> \<sigma>' \<longleftrightarrow> (\<forall>t. t \<notin> tables_named n \<longrightarrow> t \<noteq> meta_table \<longrightarrow> \<not> search_table t \<longrightarrow> \<sigma>' t = \<sigma> t) \<and>
    (\<forall>k. k \<noteq> catalog_key n \<longrightarrow> k \<noteq> row_counter_key n \<longrightarrow> \<not> search_key k \<longrightarrow> \<sigma>' meta_table k = \<sigma> meta_table k)"

lemma tables_of_named: "tables_of s \<subseteq> tables_named (td_name s)"
  by (auto simp: tables_of_def tables_named_def base_table_def index_table_def)

lemma tables_named_disjoint:
  assumes "ident_ok n" "ident_ok m" "n \<noteq> m"
  shows "tables_named n \<inter> tables_named m = {}"
proof -
  have "n \<noteq> index_table_named m c" "m \<noteq> index_table_named n c" for c using index_table_not_ident assms(1,2) by metis+
  moreover have "index_table_named n c \<noteq> index_table_named m d" for c d using index_table_inject assms by metis
  ultimately show ?thesis using assms(3) by (auto simp: tables_named_def)
qed

lemma tables_named_not_search:
  assumes "user_name n" "t \<in> tables_named n"
  shows "\<not> search_table t" "t \<noteq> meta_table"
proof -
  show "\<not> search_table t" using assms search_not_ident [of n] search_not_index by (auto simp: tables_named_def)
  have "\<not> is_reserved (index_table_named n c)" for c
  proof
    assume "is_reserved (index_table_named n c)"
    then have "\<not> str_contains (index_table_named n c) ''__''"
      by (auto simp: is_reserved_def RESERVED_TABLE_NAMES_def)
    moreover have "str_contains (index_table_named n c) ''__''"
      unfolding str_contains_iff by (intro exI [of _ n] exI [of _ "''idx_'' @ c"]) (simp add: index_table_named_def)
    ultimately show False by blast
  qed
  then have "\<not> is_reserved t" using assms by (auto simp: tables_named_def)
  then show "t \<noteq> meta_table" using meta_reserved by blast
qed

lemma catalog_not_search [simp]: "\<not> search_key (catalog_key n)"
  by (simp add: search_key_def catalog_key_def CATALOG_PREFIX_def)

lemma only_named_refl [simp]: "only_named n \<sigma> \<sigma>"
  by (simp add: only_named_def)

lemma only_named_trans: "only_named n \<sigma> \<sigma>' \<Longrightarrow> only_named n \<sigma>' \<sigma>'' \<Longrightarrow> only_named n \<sigma> \<sigma>''"
  by (simp add: only_named_def)

text \<open>Registering or migrating a table keeps its key counter too.\<close>

definition only_def :: "string \<Rightarrow> store \<Rightarrow> store \<Rightarrow> bool" where
  "only_def n \<sigma> \<sigma>' \<longleftrightarrow> only_named n \<sigma> \<sigma>' \<and> \<sigma>' meta_table (row_counter_key n) = \<sigma> meta_table (row_counter_key n)"

lemma only_def_refl [simp]: "only_def n \<sigma> \<sigma>"
  by (simp add: only_def_def)

lemma only_def_trans: "only_def n \<sigma> \<sigma>' \<Longrightarrow> only_def n \<sigma>' \<sigma>'' \<Longrightarrow> only_def n \<sigma> \<sigma>''"
  using only_named_trans [of n \<sigma> \<sigma>' \<sigma>''] by (simp add: only_def_def)

text \<open>The frame: what is known of the other tables survives.\<close>

lemma loose_repr_cong:
  assumes "loose_repr C \<sigma> n d u" "\<And>t. user_name n \<Longrightarrow> t \<in> tables_named n \<Longrightarrow> \<sigma>' t = \<sigma> t"
  shows "loose_repr C \<sigma>' n d u"
proof (cases u)
  case (Some x)
  obtain s T where x: "x = (s, T)" by (cases x)
  have s: "d = None" "td_name s = n" "table_repr C s T \<sigma>" using assms(1) Some x by (auto simp: loose_repr_def)
  then have "schema_ok s" by (simp add: table_repr_def)
  then have "user_name n" using schema_okD(1,2) [of s] s(2) by simp
  then have "table_repr C s T \<sigma>'" using tables_of_named [of s] s(2) assms(2) by (intro table_repr_cong [OF s(3)]) blast
  then show ?thesis using s Some x by (simp add: loose_repr_def)
qed (simp add: loose_repr_def)

lemma entry_repr_cong:
  assumes "entry_repr C \<sigma> n d" "\<And>t. user_name n \<Longrightarrow> t \<in> tables_named n \<Longrightarrow> \<sigma>' t = \<sigma> t"
    and "\<sigma>' meta_table (catalog_key n) = \<sigma> meta_table (catalog_key n)"
  shows "entry_repr C \<sigma>' n d"
proof (cases d)
  case (Some x)
  obtain s T where x: "x = (s, T)" by (cases x)
  have s: "td_name s = n" "table_repr C s T \<sigma>" using assms(1) Some x by (auto simp: entry_repr_def)
  then have "schema_ok s" by (simp add: table_repr_def)
  then have "user_name n" using schema_okD(1,2) [of s] s(1) by simp
  then have "table_repr C s T \<sigma>'" using tables_of_named [of s] s(1) assms(2) by (intro table_repr_cong [OF s(2)]) blast
  then show ?thesis using assms(1,3) Some x by (simp add: entry_repr_def)
qed (use assms(1,3) in \<open>simp add: entry_repr_def\<close>)

lemma no_strays_cong: "no_strays \<sigma> n d \<Longrightarrow> (\<And>t. t \<in> tables_named n \<Longrightarrow> \<sigma>' t = \<sigma> t) \<Longrightarrow> no_strays \<sigma>' n d"
  unfolding no_strays_def by metis

lemma tables_repr_upd:
  assumes D: "tables_repr C U D \<sigma>" and only: "only_named n \<sigma> \<sigma>'" and n: "user_name n"
    and d: "entry_repr C \<sigma>' n d" "loose_repr C \<sigma>' n d u" "no_strays \<sigma>' n (if d = None then u else d)"
  shows "tables_repr C (U(n := u)) (D(n := d)) \<sigma>'"
proof -
  have same: "\<sigma>' t = \<sigma> t" if "m \<noteq> n" "user_name m" "t \<in> tables_named m" for m t
  proof -
    have "t \<notin> tables_named n" using tables_named_disjoint [of n m] that n by auto
    then show ?thesis using only tables_named_not_search [OF that(2,3)] by (simp add: only_named_def)
  qed
  have key: "\<sigma>' meta_table (catalog_key m) = \<sigma> meta_table (catalog_key m)" if "m \<noteq> n" for m using only that by (simp add: only_named_def)
  have "entry_repr C \<sigma>' m (D m)" "loose_repr C \<sigma>' m (D m) (U m)" if "m \<noteq> n" for m
    using D same [OF that] key [OF that] entry_repr_cong [of C \<sigma> m "D m" \<sigma>'] loose_repr_cong [of C \<sigma> m "D m" "U m" \<sigma>']
    by (simp_all add: tables_repr_def)
  moreover have "no_strays \<sigma>' m ((U ++ D) m)" if "m \<noteq> n" "user_name m" for m
    using D that same [OF that] no_strays_cong [of \<sigma> m _ \<sigma>'] by (simp add: tables_repr_def)
  moreover have "(U(n := u) ++ D(n := d)) m = (if m = n then if d = None then u else d else (U ++ D) m)" for m
    by (simp add: map_add_def split: option.splits)
  ultimately show ?thesis using D d by (cases d) (simp_all add: tables_repr_def)
qed

lemma tables_repr_cong:
  assumes "tables_repr C U D \<sigma>" "\<And>n t. user_name n \<Longrightarrow> t \<in> tables_named n \<Longrightarrow> \<sigma>' t = \<sigma> t"
    and "\<And>n. \<sigma>' meta_table (catalog_key n) = \<sigma> meta_table (catalog_key n)"
  shows "tables_repr C U D \<sigma>'"
proof -
  have "entry_repr C \<sigma>' n (D n)" "loose_repr C \<sigma>' n (D n) (U n)" for n
    using assms entry_repr_cong [of C \<sigma> n "D n" \<sigma>'] loose_repr_cong [of C \<sigma> n "D n" "U n" \<sigma>'] by (simp_all add: tables_repr_def)
  moreover have "no_strays \<sigma>' n ((U ++ D) n)" if "user_name n" for n
    using assms(1,2) that no_strays_cong [of \<sigma> n _ \<sigma>'] by (simp add: tables_repr_def)
  ultimately show ?thesis using assms(1) by (simp add: tables_repr_def)
qed

lemma tables_repr_off_search:
  assumes "tables_repr C U D \<sigma>" "off_search \<sigma> \<sigma>'"
  shows "tables_repr C U D \<sigma>'"
  by (rule tables_repr_cong [OF assms(1)]) (use assms(2) tables_named_not_search in \<open>auto simp: off_search_def\<close>)

text \<open>A registered table is not in use as an unregistered one.\<close>

lemma registered_not_loose:
  assumes "tables_repr C U D \<sigma>" "D n = Some x"
  shows "U n = None" "U(n := None) = U" "(U ++ D) n = Some x"
proof -
  have "loose_repr C \<sigma> n (D n) (U n)" using assms(1) by (simp add: tables_repr_def)
  then show "U n = None" using assms(2) by (cases "U n") (auto simp: loose_repr_def)
  then show "U(n := None) = U" "(U ++ D) n = Some x" using assms(2) by (simp_all add: fun_upd_idem)
qed

section \<open>The operations\<close>

context rel_store
begin

lemma load_schema_view:
  assumes "tables_tx inv view hinv C U D w"
  shows "load_schema_in C ops w n = Ok (map_option fst (D n))"
proof -
  have w: "inv w" "rel_codecs_ok C" "entry_repr C (view w) n (D n)" using assms by (simp_all add: tables_tx_def tables_repr_def)
  have get: "s_get ops w meta_table (catalog_key n) = Ok (view w meta_table (catalog_key n))" using get_view [OF w(1) meta_tbl_ok] .
  show ?thesis
  proof (cases "D n")
    case (Some x)
    obtain s T where x: "x = (s, T)" by (cases x)
    obtain bs where s: "table_repr C s T (view w)" "encode_table_def C s = Ok bs" "view w meta_table (catalog_key n) = Some bs"
      using w(3) Some x by (auto simp: entry_repr_def)
    have "schema_ok s" using s(1) by (simp add: table_repr_def)
    then obtain bs' where "encode_table_def C s = Ok bs'" "decode_table_def C bs' = Ok s" by (rule encode_table_defE [OF w(2)])
    then show ?thesis using get s(2,3) Some x by (simp add: load_schema_in_def)
  qed (use get w(3) in \<open>simp add: load_schema_in_def entry_repr_def\<close>)
qed

lemma registry_table:
  assumes "tables_tx inv view hinv C U D w" "D n = Some (s, T)"
  shows "td_name s = n" "rel_tx inv view hinv C s w T" "schema_ok s" "user_name n"
proof -
  have "entry_repr C (view w) n (Some (s, T))" using assms by (metis tables_tx_def tables_repr_def)
  then show "td_name s = n" "rel_tx inv view hinv C s w T" using assms(1) by (simp_all add: entry_repr_def rel_tx_def tables_tx_def)
  then show "schema_ok s" by (simp add: rel_tx_def table_repr_def)
  then show "user_name n" using schema_okD(1,2) [of s] \<open>td_name s = n\<close> by simp
qed

text \<open>An operation that changed one table only keeps the registry, up to that table.\<close>

lemma tables_txI:
  assumes "tables_tx inv view hinv C U D w" "inv w'" "only_named n (view w) (view w')" "on_search (view w) (view w')" "user_name n"
    and "entry_repr C (view w') n d" "loose_repr C (view w') n d u" "no_strays (view w') n (if d = None then u else d)"
  shows "tables_tx inv view hinv C (U(n := u)) (D(n := d)) w'"
  using assms tables_repr_upd [OF _ assms(3,5-8)] hinv_search [OF _ assms(4)] by (simp add: tables_tx_def)

lemma registered_txI:
  assumes "tables_tx inv view hinv C U D w" "inv w'" "only_named n (view w) (view w')" "on_search (view w) (view w')" "user_name n"
    and "D n = Some x" "entry_repr C (view w') n d" "no_strays (view w') n d"
  shows "tables_tx inv view hinv C U (D(n := d)) w'"
proof -
  have U: "U(n := None) = U" using assms(1,6) registered_not_loose(2) unfolding tables_tx_def by blast
  show ?thesis using tables_txI [OF assms(1-5,7), of None] assms(8) unfolding U by (simp add: loose_repr_def split: if_splits)
qed

lemma retain_registry:
  assumes "tables_tx inv view hinv C U D w" "ident_ok n"
  shows "ok_with (retain_valid H w n x) (\<lambda>w'. tables_tx inv view hinv C U D w' \<and> off_search (view w) (view w'))"
proof -
  obtain w' where "retain_valid H w n x = Ok w'" "inv w'" "hinv (view w')" "off_search (view w) (view w')"
    using retain [of w n x] assms by (auto simp: tables_tx_def)
  then show ?thesis using tables_repr_off_search assms(1) by (auto simp: tables_tx_def)
qed

text \<open>What an unregistered table holds, through a schema it is used with, or a table nobody has used, through any.\<close>

lemma unused_tables:
  assumes "tables_tx inv view hinv C U D w" "D n = None" "U n = None" "user_name n" "t \<in> tables_named n"
  shows "view w t = Map.empty"
proof -
  have "no_strays (view w) n ((U ++ D) n)" using assms(1,4) by (simp add: tables_tx_def tables_repr_def)
  then show ?thesis using assms(2,3,5) by (simp add: no_strays_def map_add_def)
qed

lemma loose_table:
  assumes tx: "tables_tx inv view hinv C U D w" and s: "schema_ok s" "D (td_name s) = None"
    and u: "\<And>s0 T. U (td_name s) = Some (s0, T) \<Longrightarrow> s0 = s"
  shows "rel_tx inv view hinv C s w (found_rows U (td_name s))"
proof (cases "U (td_name s)")
  case None
  have n: "user_name (td_name s)" using schema_okD(1,2) [OF s(1)] by simp
  have empty: "view w t = Map.empty" if "t \<in> tables_of s" for t
    using unused_tables [OF tx s(2) None n] tables_of_named [of s] that by blast
  have "rows_in Map.empty = {}" by (simp add: rows_in_def)
  then have "table_repr C s Map.empty (view w)"
    using s(1) tx empty by (auto simp: table_repr_def table_wf_def unique_in_def base_repr_def index_entries_def tables_of_def tables_tx_def tables_repr_def)
  then show ?thesis using tx None by (simp add: rel_tx_def tables_tx_def found_rows_def)
next
  case (Some x)
  obtain T where x: "x = (s, T)" using u Some by (cases x) auto
  have "loose_repr C (view w) (td_name s) (D (td_name s)) (U (td_name s))" using tx by (simp add: tables_tx_def tables_repr_def)
  then show ?thesis using tx Some x by (simp add: loose_repr_def rel_tx_def tables_tx_def found_rows_def)
qed

text \<open>What is known of the table before it is registered.\<close>

lemma adopt_start:
  assumes tx: "tables_tx inv view hinv C U D w" and s: "schema_ok s" "D (td_name s) = None" and ad: "adoptable U s"
  defines "T \<equiv> found_rows U (td_name s)"
  shows "\<exists>rows. scan_all_in C ops w s = Ok rows \<and> distinct rows \<and> set rows = rows_in T"
    "\<forall>pk vs. T pk = Some vs \<longrightarrow> row_ok s pk vs" "base_repr C T (view w (base_table s))"
    "rows_in T = {} \<Longrightarrow> col \<in> set (td_indexed_columns s) \<Longrightarrow> view w (index_table s col) = Map.empty"
    "t \<in> tables_named (td_name s) \<Longrightarrow> t \<notin> tables_of s \<Longrightarrow> view w t = Map.empty"
proof -
  let ?n = "td_name s"
  define s0 where "s0 = (case U ?n of Some (s0, _) \<Rightarrow> s0 | None \<Rightarrow> s)"
  have n: "user_name ?n" using schema_okD(1,2) [OF s(1)] by simp
  have loose: "loose_repr C (view w) ?n (D ?n) (U ?n)" and ns: "no_strays (view w) ?n ((U ++ D) ?n)"
    using tx n by (simp_all add: tables_tx_def tables_repr_def)
  have s0: "td_name s0 = ?n" "schema_ok s0" "pk_kind_of s = pk_kind_of s0" "set (td_indexed_columns s0) \<subseteq> set (td_indexed_columns s)"
      "\<forall>pk vs. T pk = Some vs \<longrightarrow> row_ok s pk vs"
    using loose ad s(1) by (auto simp: s0_def T_def loose_repr_def table_repr_def adoptable_def found_rows_def split: option.splits)
  have held: "rel_tx inv view hinv C s0 w T"
    using loose_table [OF tx s0(2)] s0(1) s(2) by (auto simp: s0_def T_def)
  have same: "base_table s0 = base_table s" "index_table s0 = index_table s" using s0(1) by (simp_all add: base_table_def index_table_def fun_eq_iff)
  then have sub: "tables_of s0 \<subseteq> tables_of s" using s0(4) by (auto simp: tables_of_def)
  obtain c where "primary_key_column s = Ok c" "cs_kind c = pk_kind_of s" using schema_pk [OF s(1)] by metis
  moreover obtain c0 where "primary_key_column s0 = Ok c0" "cs_kind c0 = pk_kind_of s0" using schema_pk [OF s0(2)] by metis
  ultimately have scan: "scan_all_in C ops w s = scan_all_in C ops w s0" using s0(3) same by (simp add: scan_all_in_def)
  show "\<exists>rows. scan_all_in C ops w s = Ok rows \<and> distinct rows \<and> set rows = rows_in T"
    using scan_all_in_view [of w C s0 T] held unfolding scan rel_tx_def by metis
  show "\<forall>pk vs. T pk = Some vs \<longrightarrow> row_ok s pk vs" by (rule s0(5))
  show "base_repr C T (view w (base_table s))" using held same by (simp add: rel_tx_def table_repr_def)
  have stray: "view w t = Map.empty" if "t \<in> tables_named ?n" "t \<notin> tables_of s0" for t
    using ns that s(2) unused_tables [OF tx s(2) _ n] by (cases "U ?n") (auto simp: no_strays_def map_add_def s0_def)
  then show "view w t = Map.empty" if "t \<in> tables_named ?n" "t \<notin> tables_of s" using that sub by blast
  show "view w (index_table s col) = Map.empty" if "rows_in T = {}" "col \<in> set (td_indexed_columns s)"
  proof (cases "col \<in> set (td_indexed_columns s0)")
    case True
    then show ?thesis using held that(1) same by (simp add: rel_tx_def table_repr_def index_entries_def)
  next
    case False
    then have "index_table s col \<notin> tables_of s0" using index_not_base [OF s(1), of "{col}"] same by (auto simp: tables_of_def)
    then show ?thesis using stray tables_of_named [of s] that(2) by (auto simp: tables_of_def)
  qed
qed

text \<open>Every index of the table can be rebuilt exactly when no unique value repeats.\<close>

lemma index_ready_unique:
  assumes "schema_ok s" "\<forall>pk vs. T pk = Some vs \<longrightarrow> row_ok s pk vs" "set rows = rows_in T"
  shows "(\<forall>col\<in>set (td_indexed_columns s). index_ready s rows col) \<longleftrightarrow> unique_in s T"
proof
  have ok: "row_ok s (row_pk r) (row_values r)" if "r \<in> rows_in T" for r using that assms(2) by (simp add: rows_in_def)
  assume ready: "\<forall>col\<in>set (td_indexed_columns s). index_ready s rows col"
  show "unique_in s T"
    unfolding unique_in_def
  proof (intro ballI impI allI)
    fix c r r' v assume c: "c \<in> set (td_columns s)" "cs_unique c" and r: "r \<in> rows_in T" "r' \<in> rows_in T"
      and v: "indexable r s (cs_name c) = Some v" "indexable r' s (cs_name c) = Some v"
    have "ts_column s (cs_name c) = Some c" using ts_column_iff [OF assms(1)] c(1) by blast
    then have "column_unique s (cs_name c)" using c(2) by (simp add: column_unique_def)
    moreover have "index_ready s rows (cs_name c)" using ready schema_okD(7) [OF assms(1)] c by blast
    ultimately have "r = r'" using r v assms(3) unfolding index_ready_def by blast
    then show "row_pk r = row_pk r'" by simp
  qed
next
  have ok: "row_ok s (row_pk r) (row_values r)" if "r \<in> rows_in T" for r using that assms(2) by (simp add: rows_in_def)
  assume unique: "unique_in s T"
  show "\<forall>col\<in>set (td_indexed_columns s). index_ready s rows col"
  proof
    fix col assume col: "col \<in> set (td_indexed_columns s)"
    obtain c where c: "ts_column s col = Some c" by (rule indexed_column [OF assms(1) col])
    have "sortable_key v \<noteq> None" if "r \<in> rows_in T" "indexable r s col = Some v" for r v
      using indexable_Some(3) [OF ok [OF that(1)] assms(1) col _ c] that(2) by (cases r) simp
    moreover have "r = r'" if u: "column_unique s col" "r \<in> rows_in T" "r' \<in> rows_in T" "indexable r s col = Some v" "indexable r' s col = Some v" for r r' v
    proof -
      have "c \<in> set (td_columns s)" "cs_name c = col" "cs_unique c" using u(1) c ts_column_iff [OF assms(1)] by (auto simp: column_unique_def)
      then have "row_pk r = row_pk r'" using unique u unfolding unique_in_def by blast
      then show ?thesis using rows_in_pk_eq u(2,3) by blast
    qed
    ultimately show "index_ready s rows col" unfolding index_ready_def assms(3) by blast
  qed
qed

lemma rebuild_all_outcome:
  assumes "inv w" "schema_ok s" "distinct rows" "set rows = rows_in T" "\<forall>pk vs. T pk = Some vs \<longrightarrow> row_ok s pk vs"
  shows "outcome (for_res (rebuild_index ops s rows) (td_indexed_columns s) w) (unique_in s T)
    (\<lambda>w'. inv w' \<and> (\<forall>col\<in>set (td_indexed_columns s). view w' (index_table s col) = flags (index_entries s T col)) \<and>
      (\<forall>t. t \<notin> index_table s ` set (td_indexed_columns s) \<longrightarrow> view w' t = view w t))"
proof -
  let ?old = "s\<lparr>td_indexed_columns := []\<rparr>"
  have row: "row_ok s (row_pk r) (row_values r)" if "r \<in> set rows" for r using that assms(4,5) by (simp add: rows_in_def)
  have build: "build_new_index ops ?old s rows = rebuild_index ops s rows"
    by (simp add: build_new_index_def is_indexed_def fun_eq_iff Let_def)
  have all: "(\<forall>col\<in>set (td_indexed_columns s). needs_build ?old s col \<longrightarrow> index_ready s rows col) \<longleftrightarrow> unique_in s T"
    using index_ready_unique [OF assms(2,5,4)] by (simp add: is_indexed_def)
  note built = build_new_indexes_outcome [OF assms(1-3), of ?old, unfolded build all]
  show ?thesis
    unfolding index_entries_def assms(4) [symmetric]
    by (rule built) (use row in \<open>auto simp: row_ok_def keys_ok_def is_indexed_def\<close>)
qed

text \<open>Registering a table that is not in the catalog: the rows it already holds become the rows of the table, unless a
  unique value repeats.\<close>

lemma adopt_outcome:
  assumes tx: "tables_tx inv view hinv C U D w" and s: "schema_ok s" "D (td_name s) = None" and ad: "adoptable U s"
  defines "n \<equiv> td_name s" and "T \<equiv> found_rows U (td_name s)"
  shows "outcome (adopt_in C ops w s) (unique_in s T)
    (\<lambda>w'. tables_tx inv view hinv C (U(n := None)) (D(n \<mapsto> (s, T))) w' \<and> only_def n (view w) (view w'))"
proof -
  note start = adopt_start [OF tx s ad, folded T_def]
  have w: "inv w" "rel_codecs_ok C" using tx by (simp_all add: tables_tx_def tables_repr_def)
  have n: "user_name n" using schema_okD(1,2) [OF s(1)] by (simp add: n_def)
  obtain rows where rows: "scan_all_in C ops w s = Ok rows" "distinct rows" "set rows = rows_in T" using start(1) by blast
  obtain bs where bs: "encode_table_def C s = Ok bs" by (rule encode_table_defE [OF w(2) s(1)])
  let ?ix = "index_table s ` set (td_indexed_columns s)"
  let ?Q = "\<lambda>w'. inv w' \<and> (\<forall>col\<in>set (td_indexed_columns s). view w' (index_table s col) = flags (index_entries s T col)) \<and>
      (\<forall>t. t \<notin> ?ix \<longrightarrow> view w' t = view w t)"
  have built: "outcome (if rows \<noteq> [] then for_res (rebuild_index ops s rows) (td_indexed_columns s) w else Ok w) (unique_in s T) ?Q"
  proof (cases "rows = []")
    case True
    then have none: "rows_in T = {}" using rows(3) by simp
    then have "unique_in s T" "index_entries s T col = {}" for col by (simp_all add: unique_in_def index_entries_def)
    then show ?thesis using True w(1) start(4) [OF none] by simp
  qed (use rebuild_all_outcome [OF w(1) s(1) rows(2,3) start(2)] in simp)
  have "tables_tx inv view hinv C (U(n := None)) (D(n \<mapsto> (s, T))) w' \<and> only_def n (view w) (view w')"
    if u: "unique_in s T" and w1: "?Q w1" and w': "inv w'" "view w' = (view w1)(meta_table := (view w1 meta_table)(catalog_key (td_name s) \<mapsto> bs))" for w1 w'
  proof -
    have sub: "?ix \<subseteq> tables_of s" "tables_of s \<subseteq> tables_named n" using tables_of_named [of s] by (auto simp: tables_of_def n_def)
    have nm: "t \<noteq> meta_table" "\<not> search_table t" if "t \<in> tables_named n" for t using tables_named_not_search [OF n that] by blast+
    then have ix: "t \<notin> ?ix" if "t = meta_table \<or> search_table t" for t using that sub by blast
    have meta: "view w' meta_table = (view w meta_table)(catalog_key n \<mapsto> bs)" using w1 w'(2) ix by (simp add: n_def)
    have out: "view w' t = view w t" if "t \<notin> ?ix" "t \<noteq> meta_table" for t using that w1 w'(2) by simp
    have only: "only_named n (view w) (view w')" using out sub meta by (auto simp: only_named_def)
    have "t \<notin> ?ix \<and> t \<noteq> meta_table" if "search_table t" for t using that ix by auto
    then have srch: "on_search (view w) (view w')" using out meta by (auto simp: on_search_def)
    have "base_table s \<notin> ?ix" "base_table s \<in> tables_named n" using index_not_base [OF s(1)] sub by (auto simp: tables_of_def)
    then have "view w' (base_table s) = view w (base_table s)" using out nm(1) by blast
    moreover have "view w' (index_table s col) = flags (index_entries s T col)" if "col \<in> set (td_indexed_columns s)" for col
      using w1 w'(2) nm(1) sub that by auto
    ultimately have "table_repr C s T (view w')" using s(1) w(2) start(2,3) u by (simp add: table_repr_def table_wf_def)
    then have "entry_repr C (view w') n (Some (s, T))" using bs meta by (simp add: entry_repr_def n_def)
    moreover have "no_strays (view w') n (Some (s, T))"
      using start(5) out sub nm(1) unfolding no_strays_def n_def by (metis (no_types, lifting) subsetD)
    ultimately show ?thesis
      using tables_txI [OF tx w'(1) only srch n, of "Some (s, T)" None] only meta by (simp add: loose_repr_def only_def_def)
  qed
  then have store: "outcome (store_def C ops w1 s) True (\<lambda>w'. tables_tx inv view hinv C (U(n := None)) (D(n \<mapsto> (s, T))) w' \<and> only_def n (view w) (view w'))"
    if "unique_in s T" "?Q w1" for w1
    unfolding outcome_ok_with using that by (intro ok_with_mono [OF store_def_wp [OF conjunct1 [OF that(2)] bs]]) blast
  have "outcome (adopt_in C ops w s) (unique_in s T \<and> True) (\<lambda>w'. tables_tx inv view hinv C (U(n := None)) (D(n \<mapsto> (s, T))) w' \<and> only_def n (view w) (view w'))"
    unfolding adopt_in_def rows(1) bind_res_simps by (rule outcome_bind [OF built store])
  then show ?thesis by simp
qed

lemma create_table_outcome:
  assumes tx: "tables_tx inv view hinv C U D w" and s: "schema_ok s" and ad: "D (td_name s) = None \<Longrightarrow> adoptable U s"
  shows "outcome (create_table_in C ops w s) (create_ok U D s)
    (\<lambda>(created, w'). created = (D (td_name s) = None) \<and> only_def (td_name s) (view w) (view w') \<and>
      tables_tx inv view hinv C (U(td_name s := None)) (if created then D(td_name s \<mapsto> (s, found_rows U (td_name s))) else D) w')"
proof -
  have name: "check_table_name (td_name s) = Ok ()" using schema_okD(2) [OF s] by (simp add: check_table_name_def)
  show ?thesis
  proof (cases "D (td_name s)")
    case None
    have "outcome (bind_res (adopt_in C ops w s) (\<lambda>w. Ok (True, w))) (unique_in s (found_rows U (td_name s)) \<and> True)
        (\<lambda>(created, w'). created \<and> only_def (td_name s) (view w) (view w') \<and>
          tables_tx inv view hinv C (U(td_name s := None)) (D(td_name s \<mapsto> (s, found_rows U (td_name s)))) w')"
      by (rule outcome_bind [OF adopt_outcome [OF tx s None ad [OF None]]]) simp
    then have "outcome (create_table_in C ops w s) (create_ok U D s)
        (\<lambda>(created, w'). created \<and> only_def (td_name s) (view w) (view w') \<and>
          tables_tx inv view hinv C (U(td_name s := None)) (D(td_name s \<mapsto> (s, found_rows U (td_name s)))) w')"
      using None name load_schema_view [OF tx] by (simp add: create_table_in_def create_ok_def)
    then show ?thesis by (rule outcome_mono) (use None in auto)
  next
    case (Some x)
    have "U (td_name s) = None" using registered_not_loose(1) Some tx unfolding tables_tx_def by blast
    then show ?thesis using Some name load_schema_view [OF tx] tx by (cases x) (auto simp: create_table_in_def create_ok_def fun_upd_idem)
  qed
qed

text \<open>Migrating one that does.\<close>

lemma migrate_registry:
  assumes tx: "tables_tx inv view hinv C U D w" and new: "schema_ok new" and old: "D (td_name new) = Some (old, T)"
  shows "outcome (migrate_in C ops w old new) (compatible old new \<and> table_wf new (migrate_rows old new T))
    (\<lambda>w'. tables_tx inv view hinv C U (D(td_name new \<mapsto> (new, migrate_rows old new T))) w' \<and> only_def (td_name new) (view w) (view w'))"
proof -
  let ?n = "td_name new" and ?T = "migrate_rows old new T"
  have C: "rel_codecs_ok C" using tx by (simp add: tables_tx_def tables_repr_def)
  note tab = registry_table [OF tx old]
  obtain bs where bs: "encode_table_def C new = Ok bs" by (rule encode_table_defE [OF C new])
  have strays: "view w t = Map.empty" if "t \<in> tables_named ?n" "t \<notin> tables_of old" for t
  proof -
    have "no_strays (view w) ?n (Some (old, T))"
      using tx tab(4) old registered_not_loose(3) unfolding tables_tx_def tables_repr_def by metis
    then show ?thesis using that by (simp add: no_strays_def)
  qed
  show ?thesis
  proof (rule outcome_mono [OF migrate_outcome [OF tab(2) new tab(1) [symmetric] bs] refl])
    fix w' assume w': "inv w' \<and> table_repr C new ?T (view w') \<and> view w' meta_table = (view w meta_table)(catalog_key ?n \<mapsto> bs) \<and>
      (\<forall>t. t \<notin> tables_of old \<union> tables_of new \<longrightarrow> t \<noteq> meta_table \<longrightarrow> view w' t = view w t) \<and>
      (\<forall>col\<in>set (td_indexed_columns old) - set (td_indexed_columns new). view w' (index_table old col) = Map.empty)"
    have sub: "tables_of old \<union> tables_of new \<subseteq> tables_named ?n" using tables_of_named [of old] tables_of_named [of new] tab(1) by simp
    have other: "view w' t = view w t" if "t \<notin> tables_of old \<union> tables_of new" "t \<noteq> meta_table" for t using w' that by blast
    have only: "only_named ?n (view w) (view w')" using other sub w' by (auto simp: only_named_def)
    have "search_table t \<Longrightarrow> t \<notin> tables_of old \<union> tables_of new \<and> t \<noteq> meta_table" for t
      using tables_of_not_search [OF tab(3)] tables_of_not_search [OF new] by auto
    then have srch: "on_search (view w) (view w')" using other w' by (auto simp: on_search_def)
    have "entry_repr C (view w') ?n (Some (new, ?T))" using bs w' by (simp add: entry_repr_def)
    moreover have "no_strays (view w') ?n (Some (new, ?T))"
      unfolding no_strays_def
    proof (intro ballI impI)
      fix t assume t: "t \<in> tables_named ?n" and "\<forall>s T'. Some (new, ?T) = Some (s, T') \<longrightarrow> t \<notin> tables_of s"
      then have nt: "t \<notin> tables_of new" by simp
      show "view w' t = Map.empty"
      proof (cases "t \<in> tables_of old")
        case True
        have "base_table old = base_table new" "index_table old = index_table new" using tab(1) by (simp_all add: base_table_def index_table_def fun_eq_iff)
        then obtain col where "col \<in> set (td_indexed_columns old)" "t = index_table old col" "col \<notin> set (td_indexed_columns new)"
          using True nt by (auto simp: tables_of_def)
        then show ?thesis using w' by blast
      next
        case False
        then show ?thesis using strays [OF t False] other nt tables_named_not_search(2) [OF tab(4) t] by simp
      qed
    qed
    ultimately show "tables_tx inv view hinv C U (D(?n \<mapsto> (new, ?T))) w' \<and> only_def ?n (view w) (view w')"
      using registered_txI [OF tx conjunct1 [OF w'] only srch tab(4) old] only w' by (simp add: only_def_def)
  qed
qed

lemma ensure_table_outcome:
  assumes tx: "tables_tx inv view hinv C U D w" and s: "schema_ok s" and ad: "D (td_name s) = None \<Longrightarrow> adoptable U s"
  shows "outcome (ensure_table_in C H ops w s) (ensure_ok U D s)
    (\<lambda>w'. tables_tx inv view hinv C (U(td_name s := None)) (ensure_spec U D s) w' \<and> only_def (td_name s) (view w) (view w'))"
proof -
  have name: "check_table_name (td_name s) = Ok ()" using schema_okD(2) [OF s] by (simp add: check_table_name_def)
  show ?thesis
  proof (cases "D (td_name s)")
    case None
    then show ?thesis using name load_schema_view [OF tx] adopt_outcome [OF tx s None ad [OF None]]
      by (simp add: ensure_table_in_def ensure_ok_def ensure_spec_def)
  next
    case (Some x)
    obtain old T where x: "x = (old, T)" by (cases x)
    note D = Some [unfolded x]
    have U: "U(td_name s := None) = U" using registered_not_loose(2) D tx unfolding tables_tx_def by blast
    let ?ok = "compatible old s \<and> table_wf s (migrate_rows old s T)" and ?D = "D(td_name s \<mapsto> (s, migrate_rows old s T))"
    have "outcome (bind_res (migrate_in C ops w old s) (\<lambda>w. retain_valid H w (td_name s) (Some s))) (?ok \<and> True)
        (\<lambda>w'. tables_tx inv view hinv C U ?D w' \<and> only_def (td_name s) (view w) (view w'))"
    proof (rule outcome_bind [OF migrate_registry [OF tx s D]])
      fix w1 assume w1: "tables_tx inv view hinv C U ?D w1 \<and> only_def (td_name s) (view w) (view w1)"
      have "only_def (td_name s) (view w1) \<sigma>" if "off_search (view w1) \<sigma>" for \<sigma> using that by (auto simp: only_def_def only_named_def off_search_def)
      then show "outcome (retain_valid H w1 (td_name s) (Some s)) True (\<lambda>w'. tables_tx inv view hinv C U ?D w' \<and> only_def (td_name s) (view w) (view w'))"
        unfolding outcome_ok_with using w1 only_def_trans
        by (intro ok_with_mono [OF retain_registry [OF conjunct1 [OF w1] schema_okD(1) [OF s]]]) blast
    qed
    then show ?thesis using name load_schema_view [OF tx] D tx unfolding U by (auto simp: ensure_table_in_def ensure_ok_def ensure_spec_def)
  qed
qed

text \<open>Dropping a table.\<close>

lemma drop_table_wp:
  assumes tx: "tables_tx inv view hinv C U D w" and n: "user_name n"
  shows "ok_with (drop_table_in C H ops w n) (\<lambda>(dropped, w'). dropped = (D n \<noteq> None) \<and> tables_tx inv view hinv C U (D(n := None)) w' \<and>
    only_named n (view w) (view w') \<and> (dropped \<longrightarrow> view w' meta_table (row_counter_key n) = None))"
proof (cases "D n")
  case None
  then show ?thesis using tx n load_schema_view [OF tx] by (simp add: drop_table_in_def check_table_name_def fun_upd_idem)
next
  case (Some x)
  obtain s T where x: "x = (s, T)" by (cases x)
  note tab = registry_table [OF tx Some [unfolded x]]
  have w: "inv w" using tx by (simp add: tables_tx_def)
  obtain w1 where w1: "clear_table ops (base_table s) w = Ok w1" "inv w1" "view w1 = (view w)(base_table s := Map.empty)"
    using clear_table_wp [OF w base_ok [OF tab(3)]] by (auto simp: ok_with_iff)
  have "ok_with (for_res (\<lambda>col. clear_table ops (index_table s col)) (td_indexed_columns s) w1) (\<lambda>w'. inv w' \<and>
      (\<forall>col\<in>set (td_indexed_columns s). view w' (index_table s col) = Map.empty) \<and> (\<forall>t. t \<notin> index_table s ` set (td_indexed_columns s) \<longrightarrow> view w' t = view w1 t))"
    by (rule index_loop [where before = "\<lambda>col. view w1 (index_table s col)", OF w1(2) schema_okD(4) [OF tab(3)] refl])
      (use index_ok [OF tab(3)] in \<open>auto intro!: clear_table_wp\<close>)
  then obtain w2 where w2: "for_res (\<lambda>col. clear_table ops (index_table s col)) (td_indexed_columns s) w1 = Ok w2" "inv w2"
      "\<forall>col\<in>set (td_indexed_columns s). view w2 (index_table s col) = Map.empty" "\<forall>t. t \<notin> index_table s ` set (td_indexed_columns s) \<longrightarrow> view w2 t = view w1 t"
    by (auto simp: ok_with_iff)
  obtain w3 where w3: "s_delete ops w2 meta_table (row_counter_key n) = Ok w3" "inv w3"
      "view w3 = (view w2)(meta_table := (view w2 meta_table)(row_counter_key n := None))"
    using delete_view [OF w2(2) meta_tbl_ok] by blast
  obtain w4 where w4: "s_delete ops w3 meta_table (catalog_key n) = Ok w4" "inv w4"
      "view w4 = (view w3)(meta_table := (view w3 meta_table)(catalog_key n := None))"
    using delete_view [OF w3(2) meta_tbl_ok] by blast
  have nm: "t \<noteq> meta_table \<and> \<not> search_table t" if "t \<in> tables_of s" for t using tables_of_not_search [OF tab(3) that] by simp
  have "meta_table \<notin> tables_of s" using nm by blast
  then have "view w2 meta_table = view w meta_table" using w2(4) w1(3) by (simp add: tables_of_def)
  then have meta: "view w4 meta_table = (view w meta_table)(row_counter_key n := None, catalog_key n := None)" using w3(3) w4(3) by simp
  have out: "view w4 t = view w t" if "t \<notin> tables_of s" "t \<noteq> meta_table" for t using that w1(3) w2(4) w3(3) w4(3) by (simp add: tables_of_def)
  have "view w2 (base_table s) = Map.empty" using w2(4) w1(3) index_not_base [OF tab(3)] by (metis fun_upd_same)
  then have cleared: "view w4 t = Map.empty" if "t \<in> tables_of s" for t
    using that nm [OF that] w2(3) w3(3) w4(3) by (auto simp: tables_of_def)
  have sub: "tables_of s \<subseteq> tables_named n" using tables_of_named [of s] tab(1) by simp
  have only: "only_named n (view w) (view w4)" using out sub meta by (auto simp: only_named_def)
  have "t \<notin> tables_of s \<and> t \<noteq> meta_table" if "search_table t" for t using that nm by auto
  then have srch: "on_search (view w) (view w4)" using out meta by (auto simp: on_search_def)
  have "no_strays (view w) n (D n)"
    using tx n Some registered_not_loose(3) unfolding tables_tx_def tables_repr_def by metis
  then have "no_strays (view w4) n None"
    using cleared out tables_named_not_search(2) [OF n] Some x unfolding no_strays_def by (metis option.inject prod.inject)
  then have tx4: "tables_tx inv view hinv C U (D(n := None)) w4"
    using registered_txI [OF tx w4(2) only srch n Some, of None] meta by (simp add: entry_repr_def)
  obtain w5 where w5: "retain_valid H w4 n None = Ok w5" "tables_tx inv view hinv C U (D(n := None)) w5" "off_search (view w4) (view w5)"
    using retain_registry [OF tx4 conjunct1 [OF n]] by (auto simp: ok_with_iff)
  have "only_named n (view w4) (view w5)" "view w5 meta_table (row_counter_key n) = None" using w5(3) meta by (auto simp: only_named_def off_search_def)
  moreover have "check_table_name n = Ok ()" "load_schema_in C ops w n = Ok (Some s)"
    using n load_schema_view [OF tx, of n] Some x by (simp_all add: check_table_name_def)
  ultimately show ?thesis using w1(1) w2(1) w3(1) w4(1) w5(1,2) Some only_named_trans [OF only] by (simp add: drop_table_in_def)
qed

text \<open>Row operations on a table keep the maps up to the rows of the table: on a registered table, and on an unregistered
  one used with the schema.\<close>

lemma row_write_frame:
  assumes "schema_ok s" "only_table_auto s (view w) (view w')"
  defines "n \<equiv> td_name s"
  shows "only_named n (view w) (view w')" "view w' meta_table (catalog_key n) = view w meta_table (catalog_key n)"
    "t \<in> tables_named n \<Longrightarrow> t \<notin> tables_of s \<Longrightarrow> view w' t = view w t"
proof -
  have n: "user_name n" using schema_okD(1,2) [OF assms(1)] by (simp add: n_def)
  have frame: "view w' t = view w t" if "t \<notin> tables_of s" "t \<noteq> meta_table" "\<not> search_table t" for t
    using assms(2) that unfolding only_table_auto_def only_table_def by (auto simp: set_counter_def)
  have keys: "view w' meta_table k = view w meta_table k" if "k \<noteq> row_counter_key n" "\<not> search_key k" for k
    using assms(2) that unfolding only_table_auto_def only_table_def n_def by (auto simp: set_counter_def)
  have sub: "tables_of s \<subseteq> tables_named n" using tables_of_named [of s] by (simp add: n_def)
  show "only_named n (view w) (view w')" using frame keys sub by (auto simp: only_named_def)
  show "view w' meta_table (catalog_key n) = view w meta_table (catalog_key n)" using keys by simp
  show "view w' t = view w t" if "t \<in> tables_named n" "t \<notin> tables_of s" using frame that tables_named_not_search [OF n that(1)] by blast
qed

lemma row_write_registry:
  assumes tx: "tables_tx inv view hinv C U D w" and D: "D n = Some (s, T)"
    and w': "rel_tx inv view hinv C s w' T'" "only_table_auto s (view w) (view w')"
  shows "tables_tx inv view hinv C U (D(n \<mapsto> (s, T'))) w'"
proof -
  note tab = registry_table [OF tx D]
  note frame = row_write_frame [OF tab(3) w'(2), unfolded tab(1)]
  have U: "U(n := None) = U" "(U ++ D) n = Some (s, T)" using registered_not_loose(2,3) D tx unfolding tables_tx_def by blast+
  obtain bs where "encode_table_def C s = Ok bs" "view w meta_table (catalog_key n) = Some bs"
    using tx D by (auto simp: tables_tx_def tables_repr_def entry_repr_def dest!: spec [of _ n])
  then have entry: "entry_repr C (view w') n (Some (s, T'))"
    using w'(1) tab(1) frame(2) by (simp add: entry_repr_def rel_tx_def)
  have "no_strays (view w) n (Some (s, T))" using tx tab(4) U(2) by (metis tables_tx_def tables_repr_def)
  then have "no_strays (view w') n (Some (s, T'))" using frame(3) by (simp add: no_strays_def)
  then show ?thesis
    using tables_repr_upd [OF _ frame(1) tab(4) entry, of U D None] tx w'(1) by (simp add: tables_tx_def rel_tx_def loose_repr_def U(1))
qed

lemma row_write_loose:
  assumes tx: "tables_tx inv view hinv C U D w" and D: "D (td_name s) = None" and s: "schema_ok s"
    and u: "\<And>s0 T. U (td_name s) = Some (s0, T) \<Longrightarrow> s0 = s"
    and w': "rel_tx inv view hinv C s w' T'" "only_table_auto s (view w) (view w')"
  shows "tables_tx inv view hinv C (U(td_name s \<mapsto> (s, T'))) D w'"
proof -
  let ?n = "td_name s"
  have n: "user_name ?n" using schema_okD(1,2) [OF s] by simp
  note frame = row_write_frame [OF s w'(2)]
  have "entry_repr C (view w) ?n (D ?n)" and ns: "no_strays (view w) ?n ((U ++ D) ?n)" using tx n by (simp_all add: tables_tx_def tables_repr_def)
  then have entry: "entry_repr C (view w') ?n None" using D frame(2) by (simp add: entry_repr_def)
  have "view w t = Map.empty" if "t \<in> tables_named ?n" "t \<notin> tables_of s" for t
    using ns D that u unused_tables [OF tx D _ n] by (cases "U ?n") (auto simp: no_strays_def map_add_def)
  then have strays: "no_strays (view w') ?n (Some (s, T'))" using frame(3) by (simp add: no_strays_def)
  have "loose_repr C (view w') ?n None (Some (s, T'))" using w'(1) by (simp add: loose_repr_def rel_tx_def)
  then show ?thesis
    using tables_repr_upd [OF _ frame(1) n entry, of U D "Some (s, T')"] tx w'(1) strays D by (simp add: tables_tx_def rel_tx_def fun_upd_idem)
qed

end

section \<open>Listing the catalog\<close>

lemma registry_entry:
  assumes "tables_repr C U D \<sigma>" "D n = Some (s, T)"
  shows "td_name s = n" "table_repr C s T \<sigma>" "schema_ok s" "\<exists>bs. encode_table_def C s = Ok bs \<and> \<sigma> meta_table (catalog_key n) = Some bs"
proof -
  have "entry_repr C \<sigma> n (D n)" using assms(1) by (simp add: tables_repr_def)
  then show "td_name s = n" "table_repr C s T \<sigma>" "\<exists>bs. encode_table_def C s = Ok bs \<and> \<sigma> meta_table (catalog_key n) = Some bs"
    using assms(2) by (simp_all add: entry_repr_def)
  then show "schema_ok s" by (simp add: table_repr_def)
qed

context rel_read
begin

lemma list_schemas_view:
  assumes "inv r" "tables_repr C U D (view r)"
  obtains ss where "list_schemas_in C ops r = Ok ss" "sorted_wrt (<) (map (\<lambda>s. as_bytes (td_name s)) ss)"
    "set ss = {s. \<exists>n T. D n = Some (s, T)}"
proof -
  let ?p = CATALOG_PREFIX
  obtain xs where xs: "s_range ops r meta_table (Included ?p) (prefix_hi (byte_successor ?p)) = Ok xs" "sorted_keys xs"
      "\<And>k v. (k, v) \<in> set xs \<longleftrightarrow> prefix ?p k \<and> view r meta_table k = Some v"
    using prefix_scan [OF assms(1) meta_tbl_ok, of ?p] by metis
  have C: "rel_codecs_ok C" using assms(2) by (simp add: tables_repr_def)
  have dec: "\<exists>s. decode_table_def C (snd kv) = Ok s \<and> catalog_key (td_name s) = fst kv \<and> (\<exists>n T. D n = Some (s, T))" if kv: "kv \<in> set xs" for kv
  proof -
    obtain k v where k: "kv = (k, v)" "prefix ?p k" "view r meta_table k = Some v"
      using kv xs(3) [of "fst kv" "snd kv"] by (metis prod.collapse)
    define n where "n = string_of (drop (length ?p) k)"
    have n: "k = catalog_key n" using k(2) by (auto simp: n_def catalog_key_def prefix_def)
    have "entry_repr C (view r) n (D n)" using assms(2) by (simp add: tables_repr_def)
    then obtain s T where D: "D n = Some (s, T)" using k(3) n by (auto simp: entry_repr_def split: option.splits)
    note e = registry_entry [OF assms(2) D]
    obtain bs where "encode_table_def C s = Ok bs" "decode_table_def C bs = Ok s" by (rule encode_table_defE [OF C e(3)])
    then show ?thesis using e D k n by auto
  qed
  then obtain f where f: "\<And>kv. kv \<in> set xs \<Longrightarrow> decode_table_def C (snd kv) = Ok (f kv) \<and> catalog_key (td_name (f kv)) = fst kv \<and> (\<exists>n T. D n = Some (f kv, T))"
    by metis
  have "traverse (\<lambda>(_, v). decode_table_def C v) xs = Ok (map f xs)" using f by (intro traverse_Ok) (auto split: prod.split)
  moreover have "byte_successor ?p \<noteq> None" by (simp add: CATALOG_PREFIX_def byte_successor_def)
  ultimately have 1: "list_schemas_in C ops r = Ok (map f xs)"
    using xs(1) by (auto simp: list_schemas_in_def rel_prefix_upper_bound_def prefix_hi_def)
  have "map fst xs = map (\<lambda>s. ?p @ as_bytes (td_name s)) (map f xs)" using f by (simp add: catalog_key_def)
  then have 2: "sorted_wrt (<) (map (\<lambda>s. as_bytes (td_name s)) (map f xs))" using xs(2) by (simp only: sorted_wrt_map append_less_iff)
  have "s \<in> f ` set xs" if D: "D n = Some (s, T)" for n s T
  proof -
    note e = registry_entry [OF assms(2) D]
    obtain bs where bs: "encode_table_def C s = Ok bs" "decode_table_def C bs = Ok s" by (rule encode_table_defE [OF C e(3)])
    then have "(catalog_key n, bs) \<in> set xs" using e(4) xs(3) by (auto simp: catalog_key_def)
    then show ?thesis using f [of "(catalog_key n, bs)"] bs(2) by force
  qed
  then have "set (map f xs) = {s. \<exists>n T. D n = Some (s, T)}" using f by auto
  then show ?thesis by (rule that [OF 1 2])
qed

end

end
