(* ===== verification/Multi_Repr.thy ===== *)
theory Multi_Repr
  imports Multi_Db Rel_Registry Graph_Nodes
begin

text \<open>
  A database state of all models: a graph, the registered tables and the unregistered tables in use, in one store.
  The layers share the \<open>meta\<close> table, each with its own keys; \<open>graph_step\<close>, \<open>row_step\<close> and \<open>row_step_loose\<close> show that a write
  of one layer leaves what the other one holds alone.
\<close>

section \<open>The layers do not interfere\<close>

lemma meta_META: "meta_table = META"
  by (simp add: meta_table_def META_def)

lemma not_graph_keys [simp]: "\<not> graph_key (catalog_key n)" "\<not> graph_key (row_counter_key n)"
  by (simp_all add: graph_key_def catalog_key_def CATALOG_PREFIX_def row_counter_key_def NEXT_NODE_ID_KEY_def NEXT_EDGE_ID_KEY_def
      LABEL_INDEX_MARKER_def PROP_INDEX_PREFIX_def)

lemma search_not_graph: "search_key k \<Longrightarrow> \<not> graph_key k"
  by (auto simp: search_key_def graph_key_def NEXT_NODE_ID_KEY_def NEXT_EDGE_ID_KEY_def LABEL_INDEX_MARKER_def PROP_INDEX_PREFIX_def prefix_def)

lemma search_not_reserved:
  assumes "search_table t"
  shows "\<not> is_reserved t"
proof
  assume "is_reserved t"
  then have "\<not> str_contains t ''__''" by (auto simp: is_reserved_def RESERVED_TABLE_NAMES_def)
  moreover obtain a x where "t = a @ ''__'' @ x" using assms by (rule search_table_dunder)
  ultimately show False by (auto simp: str_contains_iff)
qed

lemma tables_named_not_reserved:
  assumes "user_name n" "t \<in> tables_named n"
  shows "\<not> is_reserved t"
proof
  assume r: "is_reserved t"
  then obtain c where "t = index_table_named n c" using assms by (auto simp: tables_named_def)
  then have "t = n @ ''__'' @ (''idx_'' @ c)" by (simp add: index_table_named_def)
  then have "str_contains t ''__''" by (auto simp: str_contains_iff)
  then show False using r by (auto simp: is_reserved_def RESERVED_TABLE_NAMES_def)
qed

lemma off_graph_on_search: "off_graph \<sigma> \<sigma>' \<Longrightarrow> on_search \<sigma> \<sigma>'"
  using search_not_reserved search_not_graph by (auto simp: off_graph_def on_search_def meta_META)

lemma tables_repr_off_graph:
  assumes "tables_repr C U D \<sigma>" "off_graph \<sigma> \<sigma>'"
  shows "tables_repr C U D \<sigma>'"
  by (rule tables_repr_cong [OF assms(1)]) (use assms(2) tables_named_not_reserved in \<open>auto simp: off_graph_def meta_META\<close>)

lemma graph_repr_cong:
  assumes "graph_repr G \<sigma> g" "\<And>t. is_reserved t \<Longrightarrow> t \<noteq> META \<Longrightarrow> \<sigma>' t = \<sigma> t" "\<And>k. graph_key k \<Longrightarrow> \<sigma>' META k = \<sigma> META k"
  shows "graph_repr G \<sigma>' g"
proof -
  have "meta_ok (\<sigma>' META) g" using assms(1,3) by (simp add: graph_repr_def meta_ok_def counter_is_def graph_key_def)
  then show ?thesis using assms(1,2) by (simp add: graph_repr_def)
qed

lemma graph_repr_only_table:
  assumes "graph_repr G \<sigma> g" "schema_ok s" "only_table_auto s \<sigma> \<sigma>'"
  shows "graph_repr G \<sigma>' g"
proof (rule graph_repr_cong [OF assms(1)])
  have names: "\<not> is_reserved t" if "t \<in> tables_of s" for t
    using tables_named_not_reserved [of "td_name s" t] tables_of_named [of s] that schema_okD(1,2) [OF assms(2)] by auto
  show "\<sigma>' t = \<sigma> t" if "is_reserved t" "t \<noteq> META" for t
    using assms(3) that names search_not_reserved by (auto simp: only_table_auto_def only_table_def set_counter_def meta_META)
  have "k \<noteq> row_counter_key (td_name s)" "\<not> search_key k" if "graph_key k" for k using that search_not_graph by auto
  then show "\<sigma>' META k = \<sigma> META k" if "graph_key k" for k
    using assms(3) that by (auto simp: only_table_auto_def only_table_def set_counter_def meta_META)
qed

lemma graph_repr_only_named:
  assumes "graph_repr G \<sigma> g" "user_name n" "only_named n \<sigma> \<sigma>'"
  shows "graph_repr G \<sigma>' g"
proof (rule graph_repr_cong [OF assms(1)])
  show "\<sigma>' t = \<sigma> t" if "is_reserved t" "t \<noteq> META" for t
    using assms(3) that tables_named_not_reserved [OF assms(2)] search_not_reserved by (auto simp: only_named_def meta_META)
  have "k \<noteq> catalog_key n" "k \<noteq> row_counter_key n" "\<not> search_key k" if "graph_key k" for k using that search_not_graph by auto
  then show "\<sigma>' META k = \<sigma> META k" if "graph_key k" for k using assms(3) that by (auto simp: only_named_def meta_META)
qed

section \<open>A transaction over both models\<close>

definition db_tx :: "('w \<Rightarrow> bool) \<Rightarrow> ('w \<Rightarrow> store) \<Rightarrow> (store \<Rightarrow> bool) \<Rightarrow> graph_codecs \<Rightarrow> rel_codecs \<Rightarrow> graph \<Rightarrow> registry \<Rightarrow> registry \<Rightarrow> 'w \<Rightarrow> bool" where
  "db_tx I view hinv G C g U D w \<longleftrightarrow> graph_view I view G w g \<and> tables_tx I view hinv C U D w"

locale multi_store = gs: graph_store ops inv tbl_ok view + rs: rel_store ops inv tbl_ok view H hinv
  for ops :: "('w, 'z) write_ops_scheme" and inv tbl_ok view H hinv
begin

abbreviation holds_db :: "graph_codecs \<Rightarrow> rel_codecs \<Rightarrow> graph \<Rightarrow> registry \<Rightarrow> registry \<Rightarrow> 'w \<Rightarrow> bool" where
  "holds_db \<equiv> db_tx inv view hinv"

lemma graph_step:
  assumes "holds_db G C g U D w" "graph_tx inv view G (view w) w' g'"
  shows "holds_db G C g' U D w'"
  using assms tables_repr_off_graph rs.hinv_search [OF _ off_graph_on_search]
  by (auto simp: db_tx_def tables_tx_def graph_tx_def graph_view_def)

lemma graph_start: "holds_db G C g U D w \<Longrightarrow> graph_tx inv view G (view w) w g"
  by (simp add: db_tx_def graph_tx_def)

lemma row_step_graph:
  assumes "holds_db G C g U D w" "rel_tx inv view hinv C s w' T'" "only_table_auto s (view w) (view w')"
  shows "graph_view inv view G w' g"
proof -
  have "schema_ok s" using assms(2) by (simp add: rel_tx_def table_repr_def)
  then have "graph_repr G (view w') g" using assms(1) graph_repr_only_table [OF _ _ assms(3)] by (auto simp: db_tx_def graph_view_def)
  then show ?thesis using assms(1,2) by (simp add: db_tx_def graph_view_def rel_tx_def)
qed

lemma row_step:
  assumes "holds_db G C g U D w" "D n = Some (s, T)" "rel_tx inv view hinv C s w' T'" "only_table_auto s (view w) (view w')"
  shows "holds_db G C g U (D(n \<mapsto> (s, T'))) w'"
proof -
  have "tables_tx inv view hinv C U D w" using assms(1) by (simp add: db_tx_def)
  from rs.row_write_registry [OF this assms(2-4)] show ?thesis using row_step_graph [OF assms(1,3,4)] by (simp add: db_tx_def)
qed

lemma row_step_loose:
  assumes "holds_db G C g U D w" "D (td_name s) = None" "\<And>s0 T. U (td_name s) = Some (s0, T) \<Longrightarrow> s0 = s"
    and "rel_tx inv view hinv C s w' T'" "only_table_auto s (view w) (view w')"
  shows "holds_db G C g (U(td_name s \<mapsto> (s, T'))) D w'"
proof -
  have "tables_tx inv view hinv C U D w" "schema_ok s" using assms(1,4) by (simp_all add: db_tx_def rel_tx_def table_repr_def)
  from rs.row_write_loose [OF this(1) assms(2) this(2) assms(3-5)] show ?thesis using row_step_graph [OF assms(1,4,5)] by (simp add: db_tx_def)
qed

end

end
