(* ===== verification/Multi_Sync.thy ===== *)
theory Multi_Sync
  imports Multi_Repr Graph_Edges
begin

text \<open>
  The synchronisation batch against its specification: the graph part adds the nodes and then the edges, with references
  to new nodes resolved; the relational part upserts the groups one after another, into registered tables and into tables
  used through a static schema, and keeps the key counter of every table (\<open>tables\<close>).
\<close>

section \<open>Specification\<close>

definition new_ids :: "u64 \<Rightarrow> 'a list \<Rightarrow> u64 list" where
  "new_ids n xs = map (\<lambda>k. n + word_of_nat k) [0..<length xs]"

definition ends_exist :: "graph \<Rightarrow> node_id \<times> string \<times> node_id \<times> properties \<Rightarrow> bool" where
  "ends_exist g x \<longleftrightarrow> g_nodes g (er_from (item_edge x)) \<noteq> None \<and> g_nodes g (er_to (item_edge x)) \<noteq> None"

definition sync_graph_spec :: "graph \<Rightarrow> sync_batch \<Rightarrow> (node_id list \<times> edge_id list \<times> graph) res" where
  "sync_graph_spec g b =
    (let ids = new_ids (g_next_node g) (sb_nodes b); g' = fold add_node (map item_node (sb_nodes b)) g in
     bind_res (for_res (resolve_edge ids) (sb_linked_edges b) (sb_edges b)) (\<lambda>edges.
     if list_all (ends_exist g') edges
     then Ok (ids, new_ids (g_next_edge g) edges, fold add_edge (map item_edge edges) g')
     else Err NotFound))"

text \<open>
  The tables of a database as the batch sees them: the key counter of every table, the unregistered tables in use and the
  registered ones.
\<close>

record tables =
  tb_counter :: "string \<Rightarrow> u64"
  tb_loose :: registry
  tb_registered :: registry

text \<open>
  A write through a handle with a schema. On a registered table the registered definition is used, and must equal the
  schema; on a table that is not registered the schema itself is used, on the rows that are there, if any.
\<close>

definition on_table :: "table_schema \<Rightarrow> tables \<Rightarrow> (table_schema \<Rightarrow> u64 \<Rightarrow> rows \<Rightarrow> ('a \<times> u64 \<times> rows) res) \<Rightarrow> ('a \<times> tables) res" where
  "on_table s X f = (let n = td_name s in case tb_registered X n of
      Some (cur, T) \<Rightarrow>
        if schema_eq cur s
        then bind_res (f cur (tb_counter X n) T) (\<lambda>(x, c, T).
          Ok (x, X\<lparr>tb_counter := (tb_counter X)(n := c), tb_registered := (tb_registered X)(n \<mapsto> (cur, T))\<rparr>))
        else Err (SchemaMismatch n ''the table is registered with a different definition; use table_named() or ensure_table() first'')
    | None \<Rightarrow>
        bind_res (f s (tb_counter X n) (found_rows (tb_loose X) n)) (\<lambda>(x, c, T).
          Ok (x, X\<lparr>tb_counter := (tb_counter X)(n := c), tb_loose := (tb_loose X)(n \<mapsto> (s, T))\<rparr>)))"

text \<open>One group of rows: keys are allocated from the counter of the table, which ends past every key of the group.\<close>

definition upsert_spec :: "table_schema \<times> properties list \<Rightarrow> prop_value list list \<times> tables \<Rightarrow> (prop_value list list \<times> tables) res" where
  "upsert_spec rs st = (case (rs, st) of ((s, rows), (pkss, X)) \<Rightarrow>
    bind_res (on_table s X (\<lambda>cur c T. bind_res (insert_spec cur Replace c rows T) (\<lambda>(pks, T). Ok (pks, counter_after cur c rows, T))))
      (\<lambda>(pks, X). Ok (pkss @ [pks], X)))"

definition upsert_keyed_spec :: "table_schema \<times> (prop_value \<times> properties) list \<Rightarrow> tables \<Rightarrow> tables res" where
  "upsert_keyed_spec rs X = (case rs of (s, rows) \<Rightarrow>
    bind_res (on_table s X (\<lambda>cur c T. bind_res (keyed_spec cur Replace rows T) (\<lambda>T. Ok ((), counter_after_keyed cur c rows, T))))
      (\<lambda>(_, X). Ok X))"

definition sync_spec :: "graph \<Rightarrow> tables \<Rightarrow> sync_batch \<Rightarrow> (sync_batch_result \<times> graph \<times> tables) res" where
  "sync_spec g X b =
    bind_res (sync_graph_spec g b) (\<lambda>(node_ids, edge_ids, g).
    bind_res (for_res upsert_spec (sb_rows b) ([], X)) (\<lambda>(pkss, X).
    bind_res (for_res upsert_keyed_spec (sb_rows_with_pk b) X) (\<lambda>X.
    Ok (\<lparr>sr_node_ids = node_ids, sr_edge_ids = edge_ids, sr_relational_pks = pkss\<rparr>, g, X))))"

section \<open>What the batch must satisfy\<close>

definition link_ok :: "string \<Rightarrow> properties \<Rightarrow> bool" where
  "link_ok l ps \<longleftrightarrow> str_ok l \<and> properties_ok ps \<and> short l"

definition graph_part_ok :: "graph \<Rightarrow> sync_batch \<Rightarrow> bool" where
  "graph_part_ok g b \<longleftrightarrow> (\<forall>x\<in>set (sb_nodes b). node_ok (item_node x) \<and> short (fst x)) \<and>
    (\<forall>(_, l, _, ps)\<in>set (sb_edges b). link_ok l ps) \<and> (\<forall>(_, l, _, ps)\<in>set (sb_linked_edges b). link_ok l ps) \<and>
    unat (g_next_node g) + length (sb_nodes b) < 2 ^ 64 \<and>
    unat (g_next_edge g) + length (sb_edges b) + length (sb_linked_edges b) < 2 ^ 64"

abbreviation schemas :: "registry \<Rightarrow> string \<rightharpoonup> table_schema" where
  "schemas D n \<equiv> map_option fst (D n)"

text \<open>The definition a group is written with; none when the registered one is another.\<close>

definition table_used :: "registry \<Rightarrow> table_schema \<Rightarrow> table_schema option" where
  "table_used D s = (case schemas D (td_name s) of Some cur \<Rightarrow> if schema_eq cur s then Some cur else None | None \<Rightarrow> Some s)"

definition rows_part_ok :: "registry \<Rightarrow> table_schema \<times> properties list \<Rightarrow> bool" where
  "rows_part_ok D rs \<longleftrightarrow> (\<forall>cur. table_used D (fst rs) = Some cur \<longrightarrow> (\<forall>vs\<in>set (snd rs). item_ok cur vs))"

definition keyed_part_ok :: "registry \<Rightarrow> table_schema \<times> (prop_value \<times> properties) list \<Rightarrow> bool" where
  "keyed_part_ok D rs \<longleftrightarrow> (\<forall>cur. table_used D (fst rs) = Some cur \<longrightarrow>
    (\<forall>(pk, vs)\<in>set (snd rs). properties_ok vs \<and> value_ok pk \<and> keys_ok cur pk (stored_values cur vs)))"

text \<open>An unregistered table is written through one well-formed schema, the one its rows were written with.\<close>

definition one_schema :: "table_schema set \<Rightarrow> registry \<Rightarrow> registry \<Rightarrow> bool" where
  "one_schema ss U D \<longleftrightarrow> (\<forall>s\<in>ss. D (td_name s) = None \<longrightarrow> schema_ok s \<and>
    (\<forall>s'\<in>ss. td_name s' = td_name s \<longrightarrow> s' = s) \<and> (\<forall>s0 T. U (td_name s) = Some (s0, T) \<longrightarrow> s0 = s))"

abbreviation batch_schemas :: "sync_batch \<Rightarrow> table_schema set" where
  "batch_schemas b \<equiv> fst ` set (sb_rows b) \<union> fst ` set (sb_rows_with_pk b)"

text \<open>The counters are the stored ones, and that of a table with automatic keys is past its positive keys.\<close>

definition counter_at :: "store \<Rightarrow> string \<Rightarrow> u64 \<Rightarrow> bool" where
  "counter_at \<sigma> n c \<longleftrightarrow> (case \<sigma> meta_table (row_counter_key n) of None \<Rightarrow> c = 1 | Some bs \<Rightarrow> bs = be64 c) \<and> 0 < c"

definition counters_ok :: "store \<Rightarrow> tables \<Rightarrow> bool" where
  "counters_ok \<sigma> X \<longleftrightarrow> (\<forall>n. user_name n \<longrightarrow> counter_at \<sigma> n (tb_counter X n)) \<and>
    (\<forall>n s T i. (tb_loose X ++ tb_registered X) n = Some (s, T) \<longrightarrow> td_auto_increment_pk s \<longrightarrow> T (IntV i) \<noteq> None \<longrightarrow> 0 < sint i \<longrightarrow>
      i < tb_counter X n)"

text \<open>A counter is at most one past the largest key, so \<open>2 ^ 63\<close>; the batch may allocate keys beyond that, up to the width of the counter.\<close>

definition rows_total :: "(table_schema \<times> properties list) list \<Rightarrow> nat" where
  "rows_total groups = sum_list (map (\<lambda>rs. length (snd rs)) groups)"

definition sync_ok :: "graph \<Rightarrow> tables \<Rightarrow> sync_batch \<Rightarrow> bool" where
  "sync_ok g X b \<longleftrightarrow> graph_part_ok g b \<and> one_schema (batch_schemas b) (tb_loose X) (tb_registered X) \<and>
    list_all (rows_part_ok (tb_registered X)) (sb_rows b) \<and> list_all (keyed_part_ok (tb_registered X)) (sb_rows_with_pk b) \<and>
    (\<forall>n. unat (tb_counter X n) \<le> 2 ^ 63) \<and> rows_total (sb_rows b) < 2 ^ 63"

section \<open>The graph part\<close>

lemma resolve_edges_Ok:
  assumes "for_res (resolve_edge ids) es acc = Ok out"
  shows "length out = length acc + length es"
    "(\<forall>(_, l, _, ps)\<in>set acc. P l ps) \<Longrightarrow> (\<forall>(_, l, _, ps)\<in>set es. P l ps) \<Longrightarrow> \<forall>(_, l, _, ps)\<in>set out. P l ps"
proof -
  have "length out = length acc + length es \<and>
      ((\<forall>(_, l, _, ps)\<in>set acc. P l ps) \<longrightarrow> (\<forall>(_, l, _, ps)\<in>set es. P l ps) \<longrightarrow> (\<forall>(_, l, _, ps)\<in>set out. P l ps))"
    using assms
  proof (induction es arbitrary: acc)
    case (Cons e es)
    obtain a l b ps where e: "e = (a, l, b, ps)" by (cases e)
    obtain acc' where acc': "resolve_edge ids e acc = Ok acc'" "for_res (resolve_edge ids) es acc' = Ok out"
      using Cons.prems by (auto simp: bind_res_Ok_iff)
    then obtain i j where "acc' = acc @ [(i, l, j, ps)]" by (auto simp: resolve_edge_def e bind_res_Ok_iff)
    then show ?case using Cons.IH [OF acc'(2)] by (auto simp: e)
  qed simp
  then show "length out = length acc + length es"
    "(\<forall>(_, l, _, ps)\<in>set acc. P l ps) \<Longrightarrow> (\<forall>(_, l, _, ps)\<in>set es. P l ps) \<Longrightarrow> \<forall>(_, l, _, ps)\<in>set out. P l ps" by blast+
qed

lemma resolve_edges_no_panic: "for_res (resolve_edge ids) es acc \<noteq> Panic"
proof (induction es arbitrary: acc)
  case (Cons e es)
  have "nr_resolve x ids \<noteq> Panic" for x by (simp add: nr_resolve_def split: node_ref.split)
  then have "resolve_edge ids e acc \<noteq> Panic" by (cases e) (auto simp: resolve_edge_def bind_res_def split: res.splits)
  then show ?case using Cons.IH by (auto simp: bind_res_def split: res.splits)
qed simp

lemma next_edge_add_nodes [simp]: "g_next_edge (fold add_node rs g) = g_next_edge g"
  by (induction rs arbitrary: g) (simp_all add: add_node_def set_node_def take_node_ids_def mark_ready_def)

text \<open>The first half of the closure.\<close>

definition graph_half :: "graph_codecs \<Rightarrow> ('w, 'z) write_ops_scheme \<Rightarrow> 'w \<Rightarrow> sync_batch \<Rightarrow> (node_id list \<times> edge_id list \<times> 'w) res" where
  "graph_half G ops w b =
    bind_res (create_nodes_bulk_in G ops w (sb_nodes b)) (\<lambda>(node_ids, w).
    bind_res (for_res (resolve_edge node_ids) (sb_linked_edges b) (sb_edges b)) (\<lambda>edges.
    bind_res (create_edges_bulk_in G ops w edges) (\<lambda>(edge_ids, w). Ok (node_ids, edge_ids, w))))"

lemma bind_res_Ok: "bind_res r Ok = r"
  by (cases r) simp_all

context multi_store
begin

lemma graph_half_refines:
  assumes "gs.gtx G \<sigma> w g" "graph_part_ok g b"
  shows "refines (sync_graph_spec g b) (graph_half G ops w b)
    (\<lambda>(ns, es, g') (ns', es', w'). ns' = ns \<and> es' = es \<and> gs.gtx G \<sigma> w' g')"
proof -
  let ?ids = "new_ids (g_next_node g) (sb_nodes b)" and ?g = "fold add_node (map item_node (sb_nodes b)) g"
  obtain w1 where w1: "create_nodes_bulk_in G ops w (sb_nodes b) = Ok (?ids, w1)" "gs.gtx G \<sigma> w1 ?g"
    using gs.create_nodes_bulk_wp [OF assms(1), of "sb_nodes b"] assms(2) by (auto simp: graph_part_ok_def ok_with_iff new_ids_def)
  show ?thesis
  proof (cases "for_res (resolve_edge ?ids) (sb_linked_edges b) (sb_edges b)")
    case (Ok edges)
    have ok: "\<forall>x\<in>set edges. edge_ok (item_edge x) \<and> short (er_edge_type (item_edge x))"
      using resolve_edges_Ok(2) [OF Ok, of link_ok] assms(2) by (auto simp: graph_part_ok_def edge_ok_def link_ok_def)
    have room: "unat (g_next_edge ?g) + length edges < 2 ^ 64"
      using resolve_edges_Ok(1) [OF Ok] assms(2) by (simp add: graph_part_ok_def)
    show ?thesis
    proof (cases "list_all (ends_exist ?g) edges")
      case True
      then have ends: "\<forall>x\<in>set edges. g_nodes ?g (er_from (item_edge x)) \<noteq> None \<and> g_nodes ?g (er_to (item_edge x)) \<noteq> None"
        unfolding list_all_iff ends_exist_def .
      then obtain w2 where "create_edges_bulk_in G ops w1 edges = Ok (new_ids (g_next_edge g) edges, w2)"
          "gs.gtx G \<sigma> w2 (fold add_edge (map item_edge edges) ?g)"
        using gs.create_edges_bulk_wp [OF w1(2) room] ok by (auto simp: ok_with_iff new_ids_def)
      then show ?thesis using w1(1) Ok True by (simp add: graph_half_def sync_graph_spec_def)
    next
      case False
      then have "\<exists>x\<in>set edges. g_nodes ?g (er_from (item_edge x)) = None \<or> g_nodes ?g (er_to (item_edge x)) = None"
        unfolding list_all_iff ends_exist_def ball_simps de_Morgan_conj not_not .
      then have "create_edges_bulk_in G ops w1 edges = Err NotFound" by (rule gs.create_edges_bulk_missing [OF w1(2) room ok])
      then show ?thesis using w1(1) Ok False by (simp add: graph_half_def sync_graph_spec_def Let_def)
    qed
  next
    case Panic
    then show ?thesis using resolve_edges_no_panic by blast
  qed (use w1(1) in \<open>simp add: graph_half_def sync_graph_spec_def\<close>)
qed

text \<open>The relational half.\<close>

definition holds_tables :: "graph_codecs \<Rightarrow> rel_codecs \<Rightarrow> graph \<Rightarrow> tables \<Rightarrow> 'w \<Rightarrow> bool" where
  "holds_tables G C g X w \<longleftrightarrow> holds_db G C g (tb_loose X) (tb_registered X) w \<and> counters_ok (view w) X"

lemma counters_step:
  assumes "counters_ok (view w) X" "auto_exact inv view hinv C cur c (view w) w' T" "n = td_name cur"
    and "\<not> td_auto_increment_pk cur \<Longrightarrow> c = tb_counter X n"
    and X': "tb_counter X' = (tb_counter X)(n := c)" "tb_loose X' ++ tb_registered X' = (tb_loose X ++ tb_registered X)(n \<mapsto> (cur, T))"
  shows "counters_ok (view w') X'"
proof -
  have only: "only_table_auto cur (view w) (view w')" using assms(2) by (simp add: auto_exact_def)
  have "schema_ok cur" using assms(2) by (simp add: auto_exact_def rel_tx_def table_repr_def)
  then have n: "user_name n" using schema_okD(1,2) [of cur] assms(3) by simp
  have other: "view w' meta_table (row_counter_key m) = view w meta_table (row_counter_key m)" if "m \<noteq> n" for m
    using only that assms(3) by (auto simp: only_table_auto_def only_table_def set_counter_def)
  have here: "counter_at (view w') n c"
  proof (cases "td_auto_increment_pk cur")
    case True
    then show ?thesis using assms(2,3) by (simp add: auto_exact_def auto_at_def counter_at_def)
  next
    case False
    then have "view w' meta_table (row_counter_key n) = view w meta_table (row_counter_key n)" using assms(2,3) by (simp add: auto_exact_def)
    then show ?thesis using assms(1) n assms(4) [OF False] by (simp add: counters_ok_def counter_at_def)
  qed
  have "counter_at (view w') m (tb_counter X' m)" if "user_name m" for m
    using here other [of m] assms(1) that X'(1) by (cases "m = n") (simp_all add: counters_ok_def counter_at_def)
  moreover have "i < tb_counter X' m"
    if "(tb_loose X' ++ tb_registered X') m = Some (s, T')" "td_auto_increment_pk s" "T' (IntV i) \<noteq> None" "0 < sint i" for m s T' i
  proof (cases "m = n")
    case True
    then have "s = cur" "T' = T" using that(1) X'(2) by auto
    then show ?thesis using assms(2) that True X'(1) by (auto simp: auto_exact_def auto_at_def)
  next
    case False
    then show ?thesis using assms(1) that X' unfolding counters_ok_def by (metis fun_upd_apply)
  qed
  ultimately show ?thesis unfolding counters_ok_def by blast
qed

text \<open>What a write through a handle keeps, besides the tables: the registered definitions, and every other counter.\<close>

definition after_table :: "graph_codecs \<Rightarrow> rel_codecs \<Rightarrow> graph \<Rightarrow> table_schema set \<Rightarrow> tables \<Rightarrow> string \<Rightarrow> tables \<Rightarrow> 'w \<Rightarrow> bool" where
  "after_table G C g ss X n X' w' \<longleftrightarrow> holds_tables G C g X' w' \<and> (\<forall>m. schemas (tb_registered X') m = schemas (tb_registered X) m) \<and>
    one_schema ss (tb_loose X') (tb_registered X') \<and> (\<forall>m. m \<noteq> n \<longrightarrow> tb_counter X' m = tb_counter X m)"

lemma on_table_refines:
  assumes held: "holds_tables G (env_codecs E) g X w" and one: "one_schema ss (tb_loose X) (tb_registered X)" "s \<in> ss"
    and body: "\<And>cur T. table_used (tb_registered X) s = Some cur \<Longrightarrow>
      auto_exact inv view hinv (env_codecs E) cur (tb_counter X (td_name s)) (view w) w T \<Longrightarrow>
      refines (f cur (tb_counter X (td_name s)) T) (impl cur) (\<lambda>(x, c, T') (y, w'). y = x \<and>
        auto_exact inv view hinv (env_codecs E) cur c (view w) w' T' \<and> (\<not> td_auto_increment_pk cur \<longrightarrow> c = tb_counter X (td_name s)) \<and> P c)"
  shows "refines (on_table s X f) (bind_res (batch_table s) (\<lambda>tbl. bind_res (btab_resolved E ops w tbl) impl))
    (\<lambda>(x, X') (y, w'). y = x \<and> after_table G (env_codecs E) g ss X (td_name s) X' w' \<and> P (tb_counter X' (td_name s)))"
proof -
  let ?C = "env_codecs E" and ?n = "td_name s" and ?U = "tb_loose X" and ?D = "tb_registered X"
  have db: "holds_db G ?C g ?U ?D w" and cnt: "counters_ok (view w) X" using held by (simp_all add: holds_tables_def)
  have tx: "tables_tx inv view hinv ?C ?U ?D w" using db by (simp add: db_tx_def)
  have start: "auto_exact inv view hinv ?C cur (tb_counter X ?n) (view w) w T"
    if "rel_tx inv view hinv ?C cur w T" "td_name cur = ?n" "td_auto_increment_pk cur \<Longrightarrow> T \<noteq> Map.empty \<Longrightarrow> (?U ++ ?D) ?n = Some (cur, T)" for cur T
  proof -
    have "schema_ok cur" using that(1) by (simp add: rel_tx_def table_repr_def)
    then have "counter_at (view w) ?n (tb_counter X ?n)" using cnt schema_okD(1,2) [of cur] that(2) by (simp add: counters_ok_def)
    moreover have "i < tb_counter X ?n" if "td_auto_increment_pk cur" "T (IntV i) \<noteq> None" "0 < sint i" for i
    proof -
      have "(?U ++ ?D) ?n = Some (cur, T)" using that \<open>td_auto_increment_pk cur \<Longrightarrow> T \<noteq> Map.empty \<Longrightarrow> _\<close> by (metis)
      then show ?thesis using conjunct2 [OF cnt [unfolded counters_ok_def], rule_format] that by metis
    qed
    ultimately show ?thesis using that(1,2) by (simp add: auto_exact_def auto_at_def counter_at_def)
  qed
  show ?thesis
  proof (cases "?D ?n")
    case (Some x)
    obtain cur T where x: "x = (cur, T)" by (cases x)
    note D = Some [unfolded x]
    note tab = rs.registry_table [OF tx D]
    have "(?U ++ ?D) ?n = Some (cur, T)" using D by simp
    note held0 = start [OF tab(2,1) this]
    have "batch_table s = Ok \<lparr>tr_schema = s, tr_by_name = False\<rparr>" using tab(4) by (simp add: batch_table_def checked_ref_def check_table_name_def)
    then have open_table: "bind_res (batch_table s) (\<lambda>tbl. bind_res (btab_resolved E ops w tbl) impl) =
        (if schema_eq cur s then impl cur else Err (SchemaMismatch ?n
          ''the table is registered with a different definition; use table_named() or ensure_table() first''))"
      using rs.load_schema_view [OF tx] D by (simp add: btab_resolved_def tr_resolve_def)
    have written: "after_table G ?C g ss X ?n (X\<lparr>tb_counter := (tb_counter X)(?n := c), tb_registered := ?D(?n \<mapsto> (cur, T'))\<rparr>) w'"
      (is "after_table _ _ _ _ _ _ ?X _") if "auto_exact inv view hinv ?C cur c (view w) w' T'" "\<not> td_auto_increment_pk cur \<longrightarrow> c = tb_counter X ?n" for c T' w'
    proof -
      have "holds_db G ?C g ?U (?D(?n \<mapsto> (cur, T'))) w'" using row_step [OF db D] that(1) by (simp add: auto_exact_def)
      moreover have "counters_ok (view w') ?X" by (rule counters_step [OF cnt that(1) tab(1) [symmetric]]) (use that(2) in simp_all)
      ultimately show ?thesis using one(1) D by (auto simp: after_table_def holds_tables_def one_schema_def split: if_splits)
    qed
    show ?thesis
    proof (cases "schema_eq cur s")
      case True
      then have used: "table_used ?D s = Some cur" using D by (simp add: table_used_def)
      have "refines (bind_res (f cur (tb_counter X ?n) T) (\<lambda>(x, c, T). Ok (x, X\<lparr>tb_counter := (tb_counter X)(?n := c), tb_registered := ?D(?n \<mapsto> (cur, T))\<rparr>)))
          (bind_res (impl cur) Ok) (\<lambda>(x, X') (y, w'). y = x \<and> after_table G ?C g ss X ?n X' w' \<and> P (tb_counter X' ?n))"
        by (rule refines_bind [OF body [OF used held0]]) (use written in \<open>auto simp del: fun_upd_triv\<close>)
      then show ?thesis using True D open_table by (simp add: on_table_def bind_res_Ok Let_def)
    qed (use D open_table in \<open>simp add: on_table_def Let_def\<close>)
  next
    case None
    have s: "schema_ok s" and u: "\<And>s0 T. ?U ?n = Some (s0, T) \<Longrightarrow> s0 = s" and same: "\<And>s'. s' \<in> ss \<Longrightarrow> td_name s' = ?n \<Longrightarrow> s' = s"
      using one None unfolding one_schema_def by blast+
    let ?T = "found_rows ?U ?n"
    have "(?U ++ ?D) ?n = Some (s, ?T)" if "?T \<noteq> Map.empty" using that None u by (auto simp: found_rows_def map_add_def split: option.splits)
    note held0 = start [OF rs.loose_table [OF tx s None u] refl this]
    have "batch_table s = Ok \<lparr>tr_schema = s, tr_by_name = False\<rparr>" using schema_okD(2) [OF s] by (simp add: batch_table_def checked_ref_def check_table_name_def)
    then have open_table: "bind_res (batch_table s) (\<lambda>tbl. bind_res (btab_resolved E ops w tbl) impl) = impl s"
      using rs.load_schema_view [OF tx] None by (simp add: btab_resolved_def tr_resolve_def)
    have written: "after_table G ?C g ss X ?n (X\<lparr>tb_counter := (tb_counter X)(?n := c), tb_loose := ?U(?n \<mapsto> (s, T'))\<rparr>) w'"
      (is "after_table _ _ _ _ _ _ ?X _") if "auto_exact inv view hinv ?C s c (view w) w' T'" "\<not> td_auto_increment_pk s \<longrightarrow> c = tb_counter X ?n" for c T' w'
    proof -
      have "holds_db G ?C g (?U(?n \<mapsto> (s, T'))) ?D w'" using row_step_loose [OF db None u] that(1) by (simp add: auto_exact_def)
      moreover have "counters_ok (view w') ?X"
        by (rule counters_step [OF cnt that(1) refl]) (use that(2) None in \<open>simp_all add: map_add_def fun_eq_iff split: option.splits\<close>)
      moreover have "one_schema ss (?U(?n \<mapsto> (s, T'))) ?D" using one(1) same unfolding one_schema_def by (auto split: if_splits)
      ultimately show ?thesis by (simp add: after_table_def holds_tables_def)
    qed
    have used: "table_used ?D s = Some s" using None by (simp add: table_used_def)
    have "refines (bind_res (f s (tb_counter X ?n) ?T) (\<lambda>(x, c, T). Ok (x, X\<lparr>tb_counter := (tb_counter X)(?n := c), tb_loose := ?U(?n \<mapsto> (s, T))\<rparr>)))
        (bind_res (impl s) Ok) (\<lambda>(x, X') (y, w'). y = x \<and> after_table G ?C g ss X ?n X' w' \<and> P (tb_counter X' ?n))"
      by (rule refines_bind [OF body [OF used held0]]) (use written in \<open>auto simp del: fun_upd_triv\<close>)
    then show ?thesis using None open_table by (simp add: on_table_def bind_res_Ok Let_def)
  qed
qed

lemma upsert_refines:
  assumes "holds_tables G (env_codecs E) g X w" "env_hooks E = H" "one_schema ss (tb_loose X) (tb_registered X)" "s \<in> ss"
    and rs: "rows_part_ok (tb_registered X) (s, rows)" and room: "unat (tb_counter X (td_name s)) + length rows < 2 ^ 64"
  shows "refines (upsert_spec (s, rows) (pkss, X)) (sync_rows E ops (s, rows) (pkss, w))
    (\<lambda>(pkss1, X') (pkss2, w'). pkss2 = pkss1 \<and> after_table G (env_codecs E) g ss X (td_name s) X' w' \<and>
      unat (tb_counter X' (td_name s)) \<le> max (unat (tb_counter X (td_name s)) + length rows) (2 ^ 63))"
proof -
  let ?C = "env_codecs E" and ?c = "tb_counter X (td_name s)"
  let ?P = "\<lambda>c. unat c \<le> max (unat ?c + length rows) (2 ^ 63)"
  have "refines (on_table s X (\<lambda>cur c T. bind_res (insert_spec cur Replace c rows T) (\<lambda>(pks, T). Ok (pks, counter_after cur c rows, T))))
      (bind_res (batch_table s) (\<lambda>tbl. bind_res (btab_resolved E ops w tbl) (\<lambda>cur. insert_bulk_in ?C H ops w cur rows Replace)))
      (\<lambda>(x, X') (y, w'). y = x \<and> after_table G ?C g ss X (td_name s) X' w' \<and> ?P (tb_counter X' (td_name s)))"
  proof (rule on_table_refines [OF assms(1,3,4), where P = ?P])
    fix cur T assume cur: "table_used (tb_registered X) s = Some cur" and tx: "auto_exact inv view hinv ?C cur ?c (view w) w T"
    have items: "\<forall>vs\<in>set rows. item_ok cur vs" using rs cur by (simp add: rows_part_ok_def)
    have "unat ?c + length (filter (allocates_pk cur) rows) < 2 ^ 64" using room length_filter_le [of "allocates_pk cur" rows] by linarith
    note ins = rs.insert_bulk_exact [OF tx items this, of Replace]
    have "refines (bind_res (insert_spec cur Replace ?c rows T) (\<lambda>(pks, T). Ok (pks, counter_after cur ?c rows, T)))
        (bind_res (insert_bulk_in ?C H ops w cur rows Replace) Ok)
        (\<lambda>(x, c, T') (y, w'). y = x \<and> auto_exact inv view hinv ?C cur c (view w) w' T' \<and> (\<not> td_auto_increment_pk cur \<longrightarrow> c = ?c) \<and> ?P c)"
      by (rule refines_bind [OF ins]) (use counter_kept(1) [of cur ?c rows] counter_after_bound [OF room, of cur] in auto)
    then show "refines (bind_res (insert_spec cur Replace ?c rows T) (\<lambda>(pks, T). Ok (pks, counter_after cur ?c rows, T)))
        (insert_bulk_in ?C H ops w cur rows Replace)
        (\<lambda>(x, c, T') (y, w'). y = x \<and> auto_exact inv view hinv ?C cur c (view w) w' T' \<and> (\<not> td_auto_increment_pk cur \<longrightarrow> c = ?c) \<and> ?P c)"
      by (simp add: bind_res_Ok)
  qed
  then have "refines (upsert_spec (s, rows) (pkss, X))
      (bind_res (bind_res (batch_table s) (\<lambda>tbl. bind_res (btab_resolved E ops w tbl) (\<lambda>cur. insert_bulk_in ?C H ops w cur rows Replace))) (\<lambda>(pks, w). Ok (pkss @ [pks], w)))
      (\<lambda>(pkss1, X') (pkss2, w'). pkss2 = pkss1 \<and> after_table G ?C g ss X (td_name s) X' w' \<and> ?P (tb_counter X' (td_name s)))"
    unfolding upsert_spec_def prod.case by (rule refines_bind) auto
  then show ?thesis by (simp add: sync_rows_def btab_upsert_bulk_def assms(2) bind_res_assoc)
qed

lemma keyed_refines:
  assumes "holds_tables G (env_codecs E) g X w" "env_hooks E = H" "one_schema ss (tb_loose X) (tb_registered X)" "s \<in> ss"
    and rs: "keyed_part_ok (tb_registered X) (s, rows)"
  shows "refines (upsert_keyed_spec (s, rows) X) (sync_rows_with_pk E ops (s, rows) w)
    (\<lambda>X' w'. after_table G (env_codecs E) g ss X (td_name s) X' w')"
proof -
  let ?C = "env_codecs E" and ?c = "tb_counter X (td_name s)"
  have "refines (on_table s X (\<lambda>cur c T. bind_res (keyed_spec cur Replace rows T) (\<lambda>T. Ok ((), counter_after_keyed cur c rows, T))))
      (bind_res (batch_table s) (\<lambda>tbl. bind_res (btab_resolved E ops w tbl) (\<lambda>cur. no_result (insert_with_pk_bulk_in ?C H ops w cur rows Replace))))
      (\<lambda>(x, X') (y, w'). y = x \<and> after_table G ?C g ss X (td_name s) X' w' \<and> (\<lambda>_. True) (tb_counter X' (td_name s)))"
  proof (rule on_table_refines [OF assms(1,3,4), where P = "\<lambda>_. True"])
    fix cur T assume cur: "table_used (tb_registered X) s = Some cur" and tx: "auto_exact inv view hinv ?C cur ?c (view w) w T"
    have items: "\<forall>(pk, vs)\<in>set rows. properties_ok vs \<and> value_ok pk \<and> keys_ok cur pk (stored_values cur vs)" using rs cur by (simp add: keyed_part_ok_def)
    show "refines (bind_res (keyed_spec cur Replace rows T) (\<lambda>T. Ok ((), counter_after_keyed cur ?c rows, T)))
        (no_result (insert_with_pk_bulk_in ?C H ops w cur rows Replace))
        (\<lambda>(x, c, T') (y, w'). y = x \<and> auto_exact inv view hinv ?C cur c (view w) w' T' \<and> (\<not> td_auto_increment_pk cur \<longrightarrow> c = ?c) \<and> True)"
      unfolding no_result_def by (rule refines_bind [OF rs.keyed_bulk_exact [OF tx items]]) (use counter_kept(2) [of cur ?c rows] in auto)
  qed
  then have "refines (upsert_keyed_spec (s, rows) X)
      (bind_res (bind_res (batch_table s) (\<lambda>tbl. bind_res (btab_resolved E ops w tbl) (\<lambda>cur. no_result (insert_with_pk_bulk_in ?C H ops w cur rows Replace)))) (\<lambda>(_, w). Ok w))
      (\<lambda>X' w'. after_table G ?C g ss X (td_name s) X' w')"
    unfolding upsert_keyed_spec_def prod.case by (rule refines_bind) auto
  then show ?thesis by (simp add: sync_rows_with_pk_def btab_upsert_with_pk_bulk_def assms(2) bind_res_assoc)
qed

text \<open>The parts of the batch depend on the registered definitions only, which stay the same.\<close>

lemma parts_cong:
  assumes "\<forall>n. schemas D' n = schemas D n"
  shows "rows_part_ok D' = rows_part_ok D" "keyed_part_ok D' = keyed_part_ok D"
  using assms by (simp_all add: rows_part_ok_def keyed_part_ok_def table_used_def fun_eq_iff)

definition after_groups :: "graph_codecs \<Rightarrow> rel_codecs \<Rightarrow> graph \<Rightarrow> table_schema set \<Rightarrow> tables \<Rightarrow> tables \<Rightarrow> 'w \<Rightarrow> bool" where
  "after_groups G C g ss X X' w' \<longleftrightarrow> holds_tables G C g X' w' \<and> (\<forall>m. schemas (tb_registered X') m = schemas (tb_registered X) m) \<and>
    one_schema ss (tb_loose X') (tb_registered X')"

lemma after_groups_table: "after_groups G C g ss X X1 w1 \<Longrightarrow> after_table G C g ss X1 n X2 w2 \<Longrightarrow> after_groups G C g ss X X2 w2"
  by (simp add: after_groups_def after_table_def)

lemma upserts_refine:
  assumes "after_groups G (env_codecs E) g ss X0 X w" "env_hooks E = H" "fst ` set groups \<subseteq> ss" "list_all (rows_part_ok (tb_registered X0)) groups"
    and "\<forall>n. unat (tb_counter X n) \<le> B" "2 ^ 63 \<le> B" "B + rows_total groups < 2 ^ 64"
  shows "refines (for_res upsert_spec groups (pkss, X)) (for_res (sync_rows E ops) groups (pkss, w))
    (\<lambda>(pkss1, X') (pkss2, w'). pkss2 = pkss1 \<and> after_groups G (env_codecs E) g ss X0 X' w')"
  using assms
proof (induction groups arbitrary: X w pkss B)
  case (Cons rs groups)
  obtain s rows where rs: "rs = (s, rows)" by (cases rs)
  let ?n = "td_name s"
  have start: "holds_tables G (env_codecs E) g X w" "one_schema ss (tb_loose X) (tb_registered X)" "s \<in> ss"
      "\<forall>m. schemas (tb_registered X) m = schemas (tb_registered X0) m"
    using Cons.prems(1,3) by (simp_all add: after_groups_def rs)
  have part: "rows_part_ok (tb_registered X) (s, rows)" using Cons.prems(4) parts_cong(1) [OF start(4)] by (simp add: rs)
  have c: "unat (tb_counter X ?n) \<le> B" using Cons.prems(5) by blast
  have total: "rows_total (rs # groups) = length rows + rows_total groups" by (simp add: rows_total_def rs)
  have room: "unat (tb_counter X ?n) + length rows < 2 ^ 64" using c Cons.prems(7) total by linarith
  let ?R = "\<lambda>(pkss1 :: prop_value list list, X') (pkss2, w'). pkss2 = pkss1 \<and> after_table G (env_codecs E) g ss X ?n X' w' \<and>
      unat (tb_counter X' ?n) \<le> max (unat (tb_counter X ?n) + length rows) (2 ^ 63)"
  have step: "refines (upsert_spec rs (pkss, X)) (sync_rows E ops rs (pkss, w)) ?R"
    unfolding rs by (rule upsert_refines [OF start(1) Cons.prems(2) start(2,3) part room])
  show ?case
    unfolding for_res.simps
  proof (rule refines_bind [OF step])
    fix a b assume R: "?R a b"
    obtain p X1 w1 where ab: "a = (p, X1)" "b = (p, w1)" "after_table G (env_codecs E) g ss X ?n X1 w1"
        "unat (tb_counter X1 ?n) \<le> max (unat (tb_counter X ?n) + length rows) (2 ^ 63)"
      using R by (cases a; cases b) auto
    have "unat (tb_counter X1 m) \<le> B + length rows" for m
    proof (cases "m = ?n")
      case True
      then show ?thesis using ab(4) c Cons.prems(6) by simp
    next
      case False
      then have "tb_counter X1 m = tb_counter X m" using ab(3) by (simp add: after_table_def)
      then show ?thesis using Cons.prems(5) by (simp add: trans_le_add1)
    qed
    moreover have "2 ^ 63 \<le> B + length rows" "B + length rows + rows_total groups < 2 ^ 64" using Cons.prems(6,7) total by simp_all
    ultimately show "refines (for_res upsert_spec groups a) (for_res (sync_rows E ops) groups b)
        (\<lambda>(pkss1, X') (pkss2, w'). pkss2 = pkss1 \<and> after_groups G (env_codecs E) g ss X0 X' w')"
      unfolding ab(1,2) using Cons.IH [OF after_groups_table [OF Cons.prems(1) ab(3)] Cons.prems(2), of "B + length rows" p] Cons.prems(3,4) by simp
  qed
qed simp

lemma keyed_groups_refine:
  assumes "after_groups G (env_codecs E) g ss X0 X w" "env_hooks E = H" "fst ` set groups \<subseteq> ss" "list_all (keyed_part_ok (tb_registered X0)) groups"
  shows "refines (for_res upsert_keyed_spec groups X) (for_res (sync_rows_with_pk E ops) groups w) (\<lambda>X' w'. after_groups G (env_codecs E) g ss X0 X' w')"
proof (rule refines_for_res)
  show "after_groups G (env_codecs E) g ss X0 X w" by (rule assms(1))
  fix rs X1 w1 assume rs: "rs \<in> set groups" and X1: "after_groups G (env_codecs E) g ss X0 X1 w1"
  obtain s rows where s: "rs = (s, rows)" by (cases rs)
  have "keyed_part_ok (tb_registered X1) (s, rows)"
    using assms(4) rs s X1 parts_cong(2) [of "tb_registered X1" "tb_registered X0"] by (auto simp: list_all_iff after_groups_def)
  moreover have "s \<in> ss" using assms(3) rs s by force
  ultimately show "refines (upsert_keyed_spec rs X1) (sync_rows_with_pk E ops rs w1) (\<lambda>X' w'. after_groups G (env_codecs E) g ss X0 X' w')"
    unfolding s using X1 after_groups_table [OF X1]
    by (intro refines_mono [OF keyed_refines [OF _ assms(2)]]) (auto simp: after_groups_def)
qed

lemma sync_refines:
  assumes "holds_db G (env_codecs E) g (tb_loose X) (tb_registered X) w" "counters_ok (view w) X" "env_hooks E = H" "sync_ok g X b"
  shows "refines (sync_spec g X b) (sync_batch_in G E ops w b)
    (\<lambda>(r, g', X') (r', w'). r' = r \<and> holds_db G (env_codecs E) g' (tb_loose X') (tb_registered X') w' \<and> counters_ok (view w') X')"
proof -
  let ?C = "env_codecs E" and ?ss = "batch_schemas b"
  have ok: "graph_part_ok g b" "one_schema ?ss (tb_loose X) (tb_registered X)" "list_all (rows_part_ok (tb_registered X)) (sb_rows b)"
      "list_all (keyed_part_ok (tb_registered X)) (sb_rows_with_pk b)" "\<forall>n. unat (tb_counter X n) \<le> 2 ^ 63" "rows_total (sb_rows b) < 2 ^ 63"
    using assms(4) by (simp_all add: sync_ok_def)
  let ?R = "\<lambda>(r, g', X') (r', w'). r' = r \<and> holds_db G ?C g' (tb_loose X') (tb_registered X') w' \<and> counters_ok (view w') X'"
  have "sync_batch_in G E ops w b = bind_res (graph_half G ops w b) (\<lambda>(node_ids, edge_ids, w).
      bind_res (for_res (sync_rows E ops) (sb_rows b) ([], w)) (\<lambda>(pkss, w).
      bind_res (for_res (sync_rows_with_pk E ops) (sb_rows_with_pk b) w) (\<lambda>w.
      Ok (\<lparr>sr_node_ids = node_ids, sr_edge_ids = edge_ids, sr_relational_pks = pkss\<rparr>, w))))"
    by (simp add: sync_batch_in_def graph_half_def batch_create_nodes_bulk_def batch_create_edges_bulk_def bind_res_assoc case_prod_unfold)
  moreover have "refines (sync_spec g X b) \<dots> ?R"
    unfolding sync_spec_def
  proof (rule refines_bind [OF graph_half_refines [OF graph_start [OF assms(1)] ok(1)]], clarsimp)
    fix ns es g1 w1 assume w1: "gs.gtx G (view w) w1 g1"
    have tx1: "holds_db G ?C g1 (tb_loose X) (tb_registered X) w1" by (rule graph_step [OF assms(1) w1])
    have "view w1 meta_table (row_counter_key n) = view w meta_table (row_counter_key n)" for n
      using w1 by (simp add: graph_tx_def off_graph_def meta_META)
    then have "counters_ok (view w1) X" using assms(2) by (simp add: counters_ok_def counter_at_def)
    then have start: "after_groups G ?C g1 ?ss X X w1" using tx1 ok(2) by (simp add: after_groups_def holds_tables_def)
    have sub: "fst ` set (sb_rows b) \<subseteq> ?ss" "fst ` set (sb_rows_with_pk b) \<subseteq> ?ss" by auto
    have room: "2 ^ 63 + rows_total (sb_rows b) < 2 ^ 64" using ok(6) by simp
    show "refines (bind_res (for_res upsert_spec (sb_rows b) ([], X)) (\<lambda>(pkss, X).
          bind_res (for_res upsert_keyed_spec (sb_rows_with_pk b) X) (\<lambda>X. Ok (\<lparr>sr_node_ids = ns, sr_edge_ids = es, sr_relational_pks = pkss\<rparr>, g1, X))))
        (bind_res (for_res (sync_rows E ops) (sb_rows b) ([], w1)) (\<lambda>(pkss, w).
          bind_res (for_res (sync_rows_with_pk E ops) (sb_rows_with_pk b) w) (\<lambda>w. Ok (\<lparr>sr_node_ids = ns, sr_edge_ids = es, sr_relational_pks = pkss\<rparr>, w)))) ?R"
    proof (rule refines_bind [OF upserts_refine [OF start assms(3) sub(1) ok(3,5) order_refl room]], clarsimp)
      fix pkss X2 w2 assume w2: "after_groups G ?C g1 ?ss X X2 w2"
      show "refines (bind_res (for_res upsert_keyed_spec (sb_rows_with_pk b) X2) (\<lambda>X. Ok (\<lparr>sr_node_ids = ns, sr_edge_ids = es, sr_relational_pks = pkss\<rparr>, g1, X)))
          (bind_res (for_res (sync_rows_with_pk E ops) (sb_rows_with_pk b) w2) (\<lambda>w. Ok (\<lparr>sr_node_ids = ns, sr_edge_ids = es, sr_relational_pks = pkss\<rparr>, w))) ?R"
        by (rule refines_bind [OF keyed_groups_refine [OF w2 assms(3) sub(2) ok(4)]]) (simp add: after_groups_def holds_tables_def)
    qed
  qed
  ultimately show ?thesis by simp
qed

end

end
