(* ===== verification/Multi_Query.thy ===== *)
theory Multi_Query
  imports Multi_Repr
begin

text \<open>
  The reads that span models: the joins between nodes and rows return what the graph and the table hold, with or without an
  index on the joined column, and the statistics count nodes, edges and the rows of every registered table.
\<close>

section \<open>Loops that collect\<close>

lemma for_res_collect:
  assumes "\<And>i acc. i \<in> set xs \<Longrightarrow> f i acc = (if P i then Ok (acc @ [h i]) else Err e)"
  shows "for_res f xs acc = (if list_all P xs then Ok (acc @ map h xs) else Err e)"
  using assms by (induction xs arbitrary: acc) simp_all

abbreviation or_empty :: "'a list option \<Rightarrow> 'a list" where
  "or_empty x \<equiv> (case x of Some xs \<Rightarrow> xs | None \<Rightarrow> [])"

lemma group_rows:
  "or_empty (fold (group_row s column targets) rows groups fk) =
    or_empty (groups fk) @ (if fk \<in> set targets then filter (\<lambda>x. row_get x s column = Some (IntV fk)) rows else [])"
proof (induction rows arbitrary: groups)
  case (Cons x rows)
  have "or_empty (group_row s column targets x groups fk) =
      or_empty (groups fk) @ (if fk \<in> set targets \<and> row_get x s column = Some (IntV fk) then [x] else [])"
    by (auto simp: group_row_def split: option.splits prop_value.splits)
  then show ?case using Cons.IH by simp
qed simp

section \<open>Joins\<close>

definition node_of :: "graph \<Rightarrow> table_schema \<Rightarrow> string \<Rightarrow> row \<Rightarrow> node_record option" where
  "node_of g s column x = (case row_get x s column of Some (IntV i) \<Rightarrow> if 0 \<le> sint i then g_nodes g i else None | _ \<Rightarrow> None)"

locale multi_read = gr: graph_read ops inv tbl_ok view + rr: rel_read ops inv tbl_ok view
  for ops :: "('r, 'z) read_ops_scheme" and inv tbl_ok view
begin

lemma index_rows_of_id:
  assumes "rr.holds C s r T" "ts_column s column = Some c" "cs_kind c = KInt" "is_indexed s column"
  shows "\<exists>out. index_lookup_eq_in C ops r s column (IntV i) = Ok out \<and> distinct out \<and> set out = {x \<in> rows_in T. row_get x s column = Some (IntV i)}"
proof -
  have col: "column \<in> set (td_indexed_columns s)" and v: "kind_of (IntV i) = cs_kind c" "value_ok (IntV i)" using assms(3,4) by (simp_all add: is_indexed_def kind_of_def)
  obtain k where k: "sortable_key (IntV i) = Some k" by (simp add: sortable_key_def)
  obtain out where "index_lookup_eq_in C ops r s column (IntV i) = Ok out" "distinct out" "set out = {x \<in> rows_in T. indexable x s column = Some (IntV i)}"
    by (rule rr.index_lookup_eq_view [OF assms(1) col assms(2) v k])
  moreover have "indexable x s column = Some (IntV i) \<longleftrightarrow> row_get x s column = Some (IntV i)" for x
    by (auto simp: indexable_def split: option.splits)
  ultimately show ?thesis by auto
qed

lemma join_nodes_by_column_view:
  assumes g: "graph_view inv view G r g" and T: "rr.holds C s r T" and c: "ts_column s column = Some c" "cs_kind c = KInt"
  shows "if list_all fits_i64 nodes
    then \<exists>out. join_nodes_by_column G C ops r nodes s column = Ok out \<and>
      list_all2 (\<lambda>i x. jr_id x = i \<and> jr_node x = g_nodes g i \<and> distinct (jr_rows x) \<and>
        set (jr_rows x) = {x \<in> rows_in T. row_get x s column = Some (IntV i)}) nodes out
    else join_nodes_by_column G C ops r nodes s column = Err (Encoding ''NodeId does not fit in an Int column'')"
proof -
  let ?rows = "\<lambda>i. {x \<in> rows_in T. row_get x s column = Some (IntV i)}"
  have "\<exists>by_fk rows. (if is_indexed s column then Ok None else bind_res (scan_groups C ops r nodes s column) (\<lambda>g. Ok (Some g))) = Ok by_fk \<and>
      (\<forall>i\<in>set nodes. fits_i64 i \<longrightarrow> distinct (rows i) \<and> set (rows i) = ?rows i \<and>
        (case (by_fk, IntV i) of (Some groups, IntV fk) \<Rightarrow> Ok (or_empty (groups fk)) | _ \<Rightarrow> index_lookup_eq_in C ops r s column (IntV i)) = Ok (rows i))"
  proof (cases "is_indexed s column")
    case True
    have "\<forall>i. \<exists>out. index_lookup_eq_in C ops r s column (IntV i) = Ok out \<and> distinct out \<and> set out = ?rows i"
      using index_rows_of_id [OF T c True] by blast
    then obtain rows where "\<forall>i. index_lookup_eq_in C ops r s column (IntV i) = Ok (rows i) \<and> distinct (rows i) \<and> set (rows i) = ?rows i" by metis
    then show ?thesis using True by (intro exI [of _ None] exI [of _ rows]) simp
  next
    case False
    obtain all where all: "scan_all_in C ops r s = Ok all" "distinct all" "set all = rows_in T" using rr.scan_all_in_view [OF T] by metis
    let ?groups = "fold (group_row s column (filter fits_i64 nodes)) all Map.empty"
    have "scan_groups C ops r nodes s column = Ok ?groups" using all(1) by (simp add: scan_groups_def)
    moreover have "or_empty (?groups i) = filter (\<lambda>x. row_get x s column = Some (IntV i)) all" if "i \<in> set nodes" "fits_i64 i" for i
      using that by (simp add: group_rows)
    ultimately show ?thesis using False all(2,3)
      by (intro exI [of _ "Some ?groups"] exI [of _ "\<lambda>i. filter (\<lambda>x. row_get x s column = Some (IntV i)) all"]) auto
  qed
  then obtain by_fk rows where by_fk: "(if is_indexed s column then Ok None else bind_res (scan_groups C ops r nodes s column) (\<lambda>g. Ok (Some g))) = Ok by_fk"
    and rows: "\<And>i. i \<in> set nodes \<Longrightarrow> fits_i64 i \<Longrightarrow> distinct (rows i) \<and> set (rows i) = ?rows i \<and>
        (case (by_fk, IntV i) of (Some groups, IntV fk) \<Rightarrow> Ok (or_empty (groups fk)) | _ \<Rightarrow> index_lookup_eq_in C ops r s column (IntV i)) = Ok (rows i)" by blast
  let ?h = "\<lambda>i. \<lparr>jr_id = i, jr_node = g_nodes g i, jr_rows = rows i\<rparr>"
  have "for_res (\<lambda>i out. bind_res (get_node_in G ops r i) (\<lambda>node. bind_res (node_id_value i) (\<lambda>v.
        bind_res (case (by_fk, v) of (Some groups, IntV fk) \<Rightarrow> Ok (or_empty (groups fk)) | _ \<Rightarrow> index_lookup_eq_in C ops r s column v) (\<lambda>rows.
        Ok (out @ [\<lparr>jr_id = i, jr_node = node, jr_rows = rows\<rparr>]))))) nodes [] =
      (if list_all fits_i64 nodes then Ok ([] @ map ?h nodes) else Err (Encoding ''NodeId does not fit in an Int column''))"
    by (rule for_res_collect) (use rows gr.get_node_view [OF g] in \<open>simp add: node_id_value_def\<close>)
  moreover have "list_all2 (\<lambda>i x. jr_id x = i \<and> jr_node x = g_nodes g i \<and> distinct (jr_rows x) \<and> set (jr_rows x) = ?rows i) nodes (map ?h nodes)"
    if "list_all fits_i64 nodes" using that rows by (simp add: list_all2_map2 list_all2_same list_all_iff)
  ultimately show ?thesis using c by_fk by (cases nodes) (auto simp: join_nodes_by_column_def)
qed

lemma join_nodes_with_table_view:
  assumes g: "graph_view inv view G r g" and T: "rr.holds C s r T" and pk: "pk_kind_of s = KInt"
  shows "join_nodes_with_table G C ops r nodes s =
    (if list_all fits_i64 nodes
     then Ok (map (\<lambda>i. \<lparr>jn_id = i, jn_node = g_nodes g i, jn_row = map_option (\<lambda>vs. \<lparr>row_pk = IntV i, row_values = vs\<rparr>) (T (IntV i))\<rparr>) nodes)
     else Err (Encoding ''NodeId does not fit in an Int column''))"
proof -
  have "schema_ok s" using T by (simp add: table_repr_def)
  then obtain c where "primary_key_column s = Ok c" "cs_kind c = KInt" using schema_pk [of s] pk by metis
  moreover have "get_in C ops r s (IntV i) = Ok (map_option (\<lambda>vs. \<lparr>row_pk = IntV i, row_values = vs\<rparr>) (T (IntV i)))" for i
    using rr.get_in_view [OF T] pk by (simp add: kind_of_def)
  moreover have "for_res (\<lambda>i out. bind_res (get_node_in G ops r i) (\<lambda>node. bind_res (node_id_value i) (\<lambda>v. bind_res (get_in C ops r s v) (\<lambda>row.
        Ok (out @ [\<lparr>jn_id = i, jn_node = node, jn_row = row\<rparr>]))))) nodes [] =
      (if list_all fits_i64 nodes
       then Ok ([] @ map (\<lambda>i. \<lparr>jn_id = i, jn_node = g_nodes g i, jn_row = map_option (\<lambda>vs. \<lparr>row_pk = IntV i, row_values = vs\<rparr>) (T (IntV i))\<rparr>) nodes)
       else Err (Encoding ''NodeId does not fit in an Int column''))"
    by (rule for_res_collect) (simp add: node_id_value_def gr.get_node_view [OF g] calculation(3))
  ultimately show ?thesis by (simp add: join_nodes_with_table_def)
qed

lemma join_rows_with_nodes_view:
  assumes "graph_view inv view G r g"
  shows "join_rows_with_nodes G ops r rows s column = Ok (map (\<lambda>x. (x, node_of g s column x)) rows)"
proof -
  have "join_rows_with_nodes G ops r rows s column = (if list_all (\<lambda>_. True) rows then Ok ([] @ map (\<lambda>x. (x, node_of g s column x)) rows) else Err NotFound)"
    unfolding join_rows_with_nodes_def
    by (rule for_res_collect) (simp add: node_of_def gr.get_node_view [OF assms] split: option.splits prop_value.splits)
  moreover have "list_all (\<lambda>_. True) rows" by (simp add: list_all_iff)
  ultimately show ?thesis by simp
qed

end

section \<open>Statistics\<close>

lemma count_loop: "for_res (\<lambda>kv n. bind_res kv (\<lambda>_. Ok (n + 1))) (map Ok xs) (m :: u64) = Ok (m + word_of_nat (length xs))"
  by (induction xs arbitrary: m) simp_all

context storage_read
begin

lemma count_table_view:
  assumes "inv r" "tbl_ok t"
  shows "count_table ops r t = Ok (word_of_nat (card (dom (view r t))))"
proof -
  obtain xs where xs: "s_range ops r t Unbounded Unbounded = Ok xs" "range_of (view r t) Unbounded Unbounded xs" by (rule rangeE [OF assms])
  have "dom (view r t) = fst ` set xs" using range_of_mem [OF xs(2)] by (force simp: in_range_def)
  moreover have "card (fst ` set xs) = length xs" using distinct_card [OF range_of_distinct [OF xs(2)]] by simp
  ultimately show ?thesis using scan_range [OF assms xs(1)] by (simp add: count_table_def count_loop)
qed

end

lemma card_rows_of:
  assumes "\<And>i x. m i = Some x \<Longrightarrow> serialize c x \<noteq> None"
  shows "card (dom (rows_of c m)) = card (dom m)"
proof -
  have "dom (rows_of c m) = be64 ` dom m"
  proof (intro set_eqI iffI)
    fix k assume "k \<in> dom (rows_of c m)"
    then obtain bs where "rows_of c m k = Some bs" by blast
    then have "length k = 8" "m (of_be64 k) \<noteq> None" by (auto simp: rows_of_def Option.bind_eq_Some_conv split: if_splits)
    moreover from this have "k = be64 (of_be64 k)" by simp
    ultimately show "k \<in> be64 ` dom m" by blast
  next
    fix k assume "k \<in> be64 ` dom m"
    then show "k \<in> dom (rows_of c m)" using assms by (fastforce simp: domIff)
  qed
  moreover have "inj_on be64 (dom m)" by (intro inj_onI) simp
  ultimately show ?thesis by (simp add: card_image)
qed

lemma card_base_repr:
  assumes "base_repr C T m" "table_wf s T" "schema_ok s" "rel_codecs_ok C"
  shows "card (dom m) = card (dom T)"
proof -
  let ?k = "\<lambda>pk. the (sortable_key pk)"
  have key: "\<exists>k. sortable_key pk = Some k" "kind_of pk = pk_kind_of s" "value_ok pk" "properties_ok vs" if "T pk = Some vs" for pk vs
    using row_okD [of s pk vs] assms(2,3) that by (auto simp: table_wf_def)
  have "dom m = ?k ` dom T"
  proof (intro set_eqI iffI)
    fix k assume "k \<in> dom m"
    then obtain pk vs where "T pk = Some vs" "sortable_key pk = Some k" using assms(1) by (auto simp: base_repr_def)
    then show "k \<in> ?k ` dom T" by force
  next
    fix k assume "k \<in> ?k ` dom T"
    then obtain pk vs where pk: "T pk = Some vs" "k = ?k pk" by blast
    obtain bs where "encode_row C vs = Ok bs" using encode_rowE [OF assms(4) key(4) [OF pk(1)]] by blast
    then have "m k = Some bs" using assms(1) pk key(1) [OF pk(1)] unfolding base_repr_def by auto
    then show "k \<in> dom m" by blast
  qed
  moreover have "inj_on ?k (dom T)"
  proof (intro inj_onI)
    fix p q assume p: "p \<in> dom T" "q \<in> dom T" "?k p = ?k q"
    then obtain vs vs' where T: "T p = Some vs" "T q = Some vs'" by blast
    then show "p = q" using key [OF T(1)] key [OF T(2)] p(3) sortable_key_inject [of p _ q] by auto
  qed
  ultimately show ?thesis by (simp add: card_image)
qed

context multi_read
begin

lemma stats_view:
  assumes g: "graph_view inv view G r g" and D: "tables_repr C U D (view r)"
  obtains tables where "stats_in C ops r = Ok \<lparr>st_nodes = word_of_nat (card (dom (g_nodes g))), st_edges = word_of_nat (card (dom (g_edges g))), st_tables = tables\<rparr>"
    "sorted_wrt (<) (map (\<lambda>x. as_bytes (fst x)) tables)" "set tables = {(n, word_of_nat (card (dom T))) | n s T. D n = Some (s, T)}"
proof -
  have r: "inv r" "graph_repr G (view r) g" "graph_codecs_ok G" using g by (simp_all add: graph_view_def)
  have wf: "graph_wf g" "view r NODES = rows_of (node_codec G) (g_nodes g)" "view r EDGES = rows_of (edge_codec G) (g_edges g)"
    using r(2) by (simp_all add: graph_repr_def)
  have "serialize (node_codec G) x \<noteq> None" if "g_nodes g i = Some x" for i x
    using wf_nodeD [OF wf(1) that] node_codecE [OF r(3), of x] by (metis option.distinct(1))
  then have nodes: "count_table ops r NODES = Ok (word_of_nat (card (dom (g_nodes g))))"
    using gr.count_table_view [OF r(1), of NODES] gr.reserved_ok wf(2) card_rows_of [of "g_nodes g" "node_codec G"] by simp
  have "serialize (edge_codec G) x \<noteq> None" if "g_edges g i = Some x" for i x
    using wf_edgeD [OF wf(1) that] edge_codecE [OF r(3), of x] by (metis option.distinct(1))
  then have edges: "count_table ops r EDGES = Ok (word_of_nat (card (dom (g_edges g))))"
    using gr.count_table_view [OF r(1), of EDGES] gr.reserved_ok wf(3) card_rows_of [of "g_edges g" "edge_codec G"] by simp
  obtain ss where ss: "list_schemas_in C ops r = Ok ss" "sorted_wrt (<) (map (\<lambda>s. as_bytes (td_name s)) ss)" "set ss = {s. \<exists>n T. D n = Some (s, T)}"
    by (rule rr.list_schemas_view [OF r(1) D])
  let ?n = "\<lambda>s. word_of_nat (card (dom (snd (the (D (td_name s)))))) :: u64"
  note entry = registry_entry [OF D]
  have cnt: "count_table ops r (base_table s) = Ok (?n s)" if s: "s \<in> set ss" for s
  proof -
    obtain n T where n: "D n = Some (s, T)" using s ss(3) by blast
    then have T: "td_name s = n" "table_repr C s T (view r)" using entry [OF n] by simp_all
    then have "card (dom (view r (base_table s))) = card (dom T)" by (intro card_base_repr) (auto simp: table_repr_def)
    then show ?thesis using gr.count_table_view [OF r(1) rr.base_ok, of s] T n by (simp add: table_repr_def)
  qed
  let ?out = "map (\<lambda>s. (td_name s, ?n s)) ss"
  have "for_res (\<lambda>s tables. bind_res (count_table ops r (base_table s)) (\<lambda>n. Ok (tables @ [(td_name s, n)]))) ss [] =
      (if list_all (\<lambda>_. True) ss then Ok ([] @ ?out) else Err NotFound)"
    by (rule for_res_collect) (simp add: cnt)
  moreover have "list_all (\<lambda>_. True) ss" by (simp add: list_all_iff)
  ultimately have "stats_in C ops r = Ok \<lparr>st_nodes = word_of_nat (card (dom (g_nodes g))), st_edges = word_of_nat (card (dom (g_edges g))), st_tables = ?out\<rparr>"
    using nodes edges ss(1) by (simp add: stats_in_def)
  moreover have "sorted_wrt (<) (map (\<lambda>x. as_bytes (fst x)) ?out)" using ss(2) by (simp add: o_def)
  moreover have "set ?out = {(n, word_of_nat (card (dom T))) | n s T. D n = Some (s, T)}" (is "_ = ?R")
  proof (intro set_eqI iffI)
    fix x assume "x \<in> set ?out"
    then obtain n s T where n: "D n = Some (s, T)" "x = (td_name s, ?n s)" using ss(3) by auto
    then show "x \<in> ?R" using entry(1) [OF n(1)] by auto
  next
    fix x assume "x \<in> ?R"
    then obtain n s T where n: "D n = Some (s, T)" "x = (n, word_of_nat (card (dom T)))" by blast
    then have "s \<in> set ss" "x = (td_name s, ?n s)" using ss(3) entry(1) [OF n(1)] by auto
    then show "x \<in> set ?out" by simp
  qed
  ultimately show ?thesis by (rule that)
qed

end

end
