(* ===== verification/Rel_Correct.thy ===== *)
theory Rel_Correct
  imports Rel_Registry Graph_Correct
begin

text \<open>
  The contract of the relational layer. Both backends provide transactions it can run on; for every such transaction
  the row operations refine the operations on the map of rows, and queries return what filtering, sorting and paging
  that map gives.
\<close>

section \<open>The two backends\<close>

interpretation mem_rr: rel_read mem_read_ops "\<lambda>r. mem_tables_ok (mr_snapshot r)" "\<lambda>_. True" "\<lambda>r. mem_snapshot_get (mr_snapshot r)"
  by unfold_locales simp_all

interpretation mem_rw: rel_store mem_write_ops mem_tx_ok "\<lambda>_. True" mem_view no_search "\<lambda>_. True"
  by unfold_locales (simp_all add: no_search_def)

lemma ident_lsm_tbl_ok: "ident_ok t \<Longrightarrow> lsm_tbl_ok t" "ident_ok t \<Longrightarrow> ident_ok c \<Longrightarrow> lsm_tbl_ok (index_table_named t c)"
  by (auto simp: lsm_tbl_ok_def index_table_named_def check_identifier_def MAX_IDENTIFIER_LEN_def split: if_splits)

interpretation lsm_rr: rel_read "lsm_read_ops E" "\<lambda>r. snap_ok E (lr_snapshot r)" lsm_tbl_ok "\<lambda>r. tx_view E (lr_snapshot r) None" for E
  by unfold_locales (simp_all add: ident_lsm_tbl_ok reserved_tbl_ok)

interpretation lsm_rw: rel_store "lsm_write_ops E" "lsm_tx_ok E" lsm_tbl_ok "lsm_view E" no_search "\<lambda>_. True" for E
  by unfold_locales (simp_all add: no_search_def ident_lsm_tbl_ok reserved_tbl_ok)

section \<open>A table for the witnesses\<close>

definition sc_kind :: "column_kind scodec" where
  "sc_kind = sc_map (\<lambda>b. [KNull, KBool, KInt, KFloat, KStr, KBytes, KTimestamp, KUuid, KList, KMap] ! unat b)
     (\<lambda>k. case k of KNull \<Rightarrow> 0 | KBool \<Rightarrow> 1 | KInt \<Rightarrow> 2 | KFloat \<Rightarrow> 3 | KStr \<Rightarrow> 4 | KBytes \<Rightarrow> 5 | KTimestamp \<Rightarrow> 6 | KUuid \<Rightarrow> 7 | KList \<Rightarrow> 8 | KMap \<Rightarrow> 9)
     sc_byte"

definition sc_column :: "column_schema scodec" where
  "sc_column = sc_map (\<lambda>(n, k, a, u, d). \<lparr>cs_name = n, cs_kind = k, cs_nullable = a, cs_unique = u, cs_default = d\<rparr>)
     (\<lambda>c. (cs_name c, cs_kind c, cs_nullable c, cs_unique c, cs_default c))
     (sc_pair sc_string (sc_pair sc_kind (sc_pair sc_bool (sc_pair sc_bool (sc_opt sc_value)))))"

definition demo_rel_codecs :: rel_codecs where
  "demo_rel_codecs = \<lparr>row_codec = codec_of sc_properties,
     def_codec = codec_of (sc_map (\<lambda>(n, cs, k, a, ix). \<lparr>td_name = n, td_columns = cs, td_primary_key = k, td_auto_increment_pk = a, td_indexed_columns = ix\<rparr>)
       (\<lambda>d. (td_name d, td_columns d, td_primary_key d, td_auto_increment_pk d, td_indexed_columns d))
       (sc_pair sc_string (sc_pair (sc_list sc_column) (sc_pair sc_string (sc_pair sc_bool (sc_list sc_string)))))),
     group_codec = codec_of (sc_list sc_value)\<rparr>"

lemma demo_rel_codecs_ok: "rel_codecs_ok demo_rel_codecs"
proof -
  have "sc_ok sc_properties" by (auto simp: sc_properties_def intro!: sc_oks sc_string_ok sc_value_ok)
  moreover have "sc_ok sc_kind" by (auto simp: sc_kind_def intro!: sc_oks split: column_kind.splits)
  then have "sc_ok sc_column" by (auto simp: sc_column_def intro!: sc_oks sc_string_ok sc_value_ok sc_bool_ok)
  ultimately show ?thesis
    by (auto simp: rel_codecs_ok_def demo_rel_codecs_def intro!: codec_ok_on codec_of_ok sc_oks sc_string_ok sc_bool_ok)
qed

text \<open>Users with an automatic key, a unique indexed name and an indexed age.\<close>

definition users :: table_schema where
  "users = \<lparr>td_name = ''users'',
     td_columns = [\<lparr>cs_name = ''id'', cs_kind = KInt, cs_nullable = False, cs_unique = False, cs_default = None\<rparr>,
       \<lparr>cs_name = ''name'', cs_kind = KStr, cs_nullable = False, cs_unique = True, cs_default = None\<rparr>,
       \<lparr>cs_name = ''age'', cs_kind = KInt, cs_nullable = True, cs_unique = False, cs_default = Some (IntV 18)\<rparr>],
     td_primary_key = ''id'', td_auto_increment_pk = True, td_indexed_columns = [''name'', ''age'']\<rparr>"

lemma users_ok: "schema_ok users"
  by (simp add: schema_ok_def users_def default_ok_def check_identifier_def MAX_IDENTIFIER_LEN_def is_ascii_alphanumeric_def
      is_reserved_def RESERVED_TABLE_NAMES_def is_keyable_def less_eq_char_def kind_of_def)

lemma users_simps [simp]: "td_name users = ''users''" "td_primary_key users = ''id''" "td_auto_increment_pk users"
  by (simp_all add: users_def)

abbreviation demo_rel_tx :: "mem_write_tx \<Rightarrow> rows \<Rightarrow> bool" where
  "demo_rel_tx \<equiv> rel_tx mem_tx_ok mem_view (\<lambda>_. True) demo_rel_codecs users"

lemma demo_view: "mem_view demo_tx = (\<lambda>_. Map.empty)"
  by (simp add: fun_eq_iff demo_tx_def mem_view_def mem_snapshot_get_def)

lemma demo_rel_empty: "demo_rel_tx demo_tx Map.empty" "auto_at users (mem_view demo_tx) Map.empty 1"
proof -
  have "mem_tx_ok demo_tx" by (simp add: demo_tx_def mem_tx_ok_def mem_tables_ok_def)
  moreover have "rows_in Map.empty = {}" by (simp add: rows_in_def)
  ultimately show "demo_rel_tx demo_tx Map.empty"
    by (simp add: rel_tx_def table_repr_def demo_view users_ok demo_rel_codecs_ok table_wf_def base_repr_def index_entries_def unique_in_def
        flags_def fun_eq_iff)
  show "auto_at users (mem_view demo_tx) Map.empty 1" by (simp add: auto_at_def demo_view)
qed

definition ann :: properties where
  "ann = [(''age'', IntV 30), (''name'', Str ''ann'')]"

definition ann_only :: rows where
  "ann_only = [IntV 1 \<mapsto> ann]"

lemma ann_item: "item_ok users ann" "allocates_pk users ann" "stored_values users ann = ann" "validate_row users (IntV i) ann = Ok ()"
  by (simp_all add: item_ok_def allocates_pk_def explicit_pk_def keys_ok_def stored_values_def fill_default_def validate_row_def check_value_def
      check_not_null_def ts_column_def kind_of_def ann_def users_def properties_ok_def sortable_key_def as_bytes_def)

lemma ann_keys: "properties_ok ann" "value_ok (IntV i)" "keys_ok users (IntV i) (stored_values users ann)"
  using ann_item(1) by (simp_all add: item_ok_def keys_ok_def sortable_key_def)

lemma ann_inserted: "write_spec users Map.empty (IntV 1) ann OnError = Ok ann_only"
  by (simp add: write_spec_def ann_item unique_free_def rows_in_def ann_only_def)

lemma demo_ann: "\<exists>w. demo_rel_tx w ann_only"
  using mem_rw.write_row_refines [OF demo_rel_empty(1) ann_keys, of 1 OnError] by (auto simp: ann_inserted ok_with_iff)

section \<open>Rows\<close>

text \<open>C12: Storing a row, as a new row or as a replacement, implements the specification: the row is validated, then a duplicate key
  and then a taken unique value are refused, and on success the transaction holds exactly the table with that row, defaults filled
  in, every secondary index in step, and nothing outside the table changed.\<close>

theorem store_row_refines:
  assumes "rel_store ops I ok view H hinv" "rel_tx I view hinv C s w T" "properties_ok vs" "value_ok pk" "keys_ok s pk (stored_values s vs)"
  shows "refines (write_spec s T pk vs conflict) (write_row_in C H ops w s pk vs conflict)
    (\<lambda>T' w'. rel_tx I view hinv C s w' T' \<and> only_table s (view w) (view w'))"
  by (rule rel_store.write_row_refines [OF assms])

theorem store_row_refines_witness:
  "\<exists>w'. write_row_in demo_rel_codecs no_search mem_write_ops demo_tx users (IntV 1) ann OnError = Ok w' \<and> demo_rel_tx w' ann_only"
  using store_row_refines [OF mem_rw.rel_store_axioms demo_rel_empty(1) ann_keys, of 1 OnError] by (auto simp: ann_inserted ok_with_iff)

text \<open>C15: A point update replaces the values of the row, with validation and uniqueness checked, and moves exactly its index
  entries; a point deletion removes the row and its entries. Both report whether the row existed.\<close>

theorem point_writes_refine:
  assumes "rel_store ops I ok view H hinv" "rel_tx I view hinv C s w T" "kind_of pk = pk_kind_of s" "value_ok pk"
    and "\<forall>vs. T pk = Some vs \<longrightarrow> properties_ok (mutate vs) \<and> keys_ok s pk (bt_remove (td_primary_key s) (mutate vs))"
  shows "refines (update_spec s T pk mutate) (update_row_in C H ops w s pk mutate)
      (\<lambda>(b, T') (b', w'). b' = b \<and> rel_tx I view hinv C s w' T' \<and> only_table s (view w) (view w')) \<and>
    ok_with (delete_row_in C H ops w s pk) (\<lambda>(b, w'). (b \<longleftrightarrow> T pk \<noteq> None) \<and> rel_tx I view hinv C s w' (T(pk := None)) \<and>
      only_table s (view w) (view w'))"
proof
  show "refines (update_spec s T pk mutate) (update_row_in C H ops w s pk mutate)
      (\<lambda>(b, T') (b', w'). b' = b \<and> rel_tx I view hinv C s w' T' \<and> only_table s (view w) (view w'))"
    by (rule rel_store.update_row_refines [OF assms(1,2,3,4)]) (use assms(5) in blast)
qed (rule rel_store.delete_row_refines [OF assms(1,2,3,4)])

theorem point_writes_refine_witness:
  "\<exists>w w'. demo_rel_tx w ann_only \<and> delete_row_in demo_rel_codecs no_search mem_write_ops w users (IntV 1) = Ok (True, w') \<and> demo_rel_tx w' Map.empty"
proof -
  obtain w where w: "demo_rel_tx w ann_only" using demo_ann by blast
  have pk: "kind_of (IntV 1) = pk_kind_of users" "value_ok (IntV 1)" by (simp_all add: kind_of_def pk_kind_of_def ts_column_def users_def)
  have "bt_remove ''id'' ann = ann" by (simp add: ann_def)
  then have "\<forall>vs. ann_only (IntV 1) = Some vs \<longrightarrow> properties_ok vs \<and> keys_ok users (IntV 1) (bt_remove (td_primary_key users) vs)"
    using ann_keys(1) ann_keys(3) [of 1] ann_item(3) by (simp add: ann_only_def users_def)
  then have "ok_with (delete_row_in demo_rel_codecs no_search mem_write_ops w users (IntV 1)) (\<lambda>(b, w'). (b \<longleftrightarrow> ann_only (IntV 1) \<noteq> None) \<and>
      demo_rel_tx w' (ann_only(IntV 1 := None)) \<and> only_table users (mem_view w) (mem_view w'))"
    using point_writes_refine [OF mem_rw.rel_store_axioms w pk, of "\<lambda>vs. vs"] by blast
  then show ?thesis using w by (auto simp: ok_with_iff ann_only_def)
qed

section \<open>Queries\<close>

text \<open>C13: A query returns the rows of the table that satisfy its filters, sorted, paged and projected, and counting returns how
  many satisfy the filters, whichever access path the planner takes: a point lookup, a key range, a secondary index or a scan.\<close>

theorem queries_exact:
  assumes "rel_read ops I ok view" "I r" "table_repr C s T (view r)" "\<forall>f\<in>set (q_filters q). expr_ok f" "check_columns q s [] = Ok ()"
  shows "(\<exists>out. select_in lower C ops r s q = Ok out \<and> selects lower s T q out) \<and>
    count_in lower C ops r s q = Ok (card {x \<in> rows_in T. matches lower q s x})"
  using rel_read.select_in_view [OF assms(1) _ assms(4,5)] rel_read.count_in_view [OF assms(1) _ assms(4,5)] assms(2,3) by blast

definition by_name :: query where
  "by_name = where_eq q_new ''name'' (Str ''ann'')"

lemma by_name_ok: "\<forall>f\<in>set (q_filters by_name). expr_ok f" "check_columns by_name users [] = Ok ()" "by_name\<lparr>q_columns := None\<rparr> = by_name"
  by (simp_all add: by_name_def where_eq_def q_new_def q_filter_def check_columns_def root_column_def ts_column_def users_def
      split: option.splits)

lemma by_name_rows: "{x \<in> rows_in ann_only. matches (\<lambda>c. [c]) by_name users x} = {\<lparr>row_pk = IntV 1, row_values = ann\<rparr>}"
  by (auto simp: ann_only_def rows_in_def row_eq_iff matches_def by_name_def where_eq_def q_new_def q_filter_def resolve_def row_get_def
      ts_column_def users_def ann_def non_null_def op_holds_def split: if_splits)

theorem queries_exact_witness:
  "\<exists>w. demo_rel_tx w ann_only \<and> count_in (\<lambda>c. [c]) demo_rel_codecs mem_write_ops w users by_name = Ok 1"
proof -
  obtain w where w: "demo_rel_tx w ann_only" using demo_ann by blast
  then show ?thesis
    using queries_exact [OF mem_rw.rel_read_axioms, of w demo_rel_codecs users ann_only by_name "\<lambda>c. [c]"] by_name_ok(1,2) by_name_rows
    by (auto simp: rel_tx_def)
qed

text \<open>C17: A predicate update applies its assignments to exactly the selected rows, one after another, stopping at the first row that
  fails; a predicate deletion removes exactly the selected rows and returns how many there were.\<close>

theorem predicate_writes_refine:
  assumes "rel_store ops I ok view H hinv" "rel_tx I view hinv C s w T" "\<forall>f\<in>set (q_filters q). expr_ok f"
    and "check_columns (q\<lparr>q_columns := None\<rparr>) s [] = Ok ()" "sets_ok s sets" "td_primary_key s \<notin> fst ` set sets"
  shows "(\<exists>targets. selects lower s T (q\<lparr>q_columns := None\<rparr>) targets \<and>
      refines (update_all s sets targets T) (update_in lower C H ops w s q sets)
        (\<lambda>(n, T') (n', w'). n' = n \<and> rel_tx I view hinv C s w' T' \<and> only_table s (view w) (view w'))) \<and>
    (\<exists>targets. selects lower s T (q\<lparr>q_columns := None\<rparr>) targets \<and>
      ok_with (delete_in lower C H ops w s q) (\<lambda>(n, w'). n = length targets \<and> rel_tx I view hinv C s w' (without T targets) \<and>
        only_table s (view w) (view w')))"
  using rel_store.update_in_refines [OF assms] rel_store.delete_in_refines [OF assms(1-4)] by blast

theorem predicate_writes_refine_witness:
  "\<exists>w w'. demo_rel_tx w ann_only \<and> delete_in (\<lambda>c. [c]) demo_rel_codecs no_search mem_write_ops w users by_name = Ok (1, w') \<and> demo_rel_tx w' Map.empty"
proof -
  obtain w where w: "demo_rel_tx w ann_only" using demo_ann by blast
  have "check_columns (by_name\<lparr>q_columns := None\<rparr>) users [] = Ok ()" "sets_ok users []" using by_name_ok by (simp_all add: sets_ok_def)
  then obtain t where t: "selects (\<lambda>c. [c]) users ann_only (by_name\<lparr>q_columns := None\<rparr>) t"
      "ok_with (delete_in (\<lambda>c. [c]) demo_rel_codecs no_search mem_write_ops w users by_name) (\<lambda>(n, w'). n = length t \<and>
        demo_rel_tx w' (without ann_only t) \<and> only_table users (mem_view w) (mem_view w'))"
    using predicate_writes_refine [OF mem_rw.rel_store_axioms w by_name_ok(1), of "[]" "\<lambda>c. [c]"] by auto
  have t1: "set t = {\<lparr>row_pk = IntV 1, row_values = ann\<rparr>}" "distinct t"
    using selects_rows(1,4) [OF t(1)] by_name_rows by (simp_all add: by_name_def where_eq_def q_filter_def q_new_def)
  have "length t = 1" using distinct_card [OF t1(2)] t1(1) by simp
  moreover have "without ann_only t = Map.empty" by (simp add: without_def ann_only_def t1(1) fun_eq_iff)
  ultimately show ?thesis using t(2) w by (auto simp: ok_with_iff)
qed

section \<open>Automatic keys\<close>

text \<open>C14: Inserting rows stores them one after another under the key each carries or the next key of the block reserved at the
  counter; afterwards the counter is still past every positive key of the table.\<close>

theorem inserts_refine:
  assumes "rel_store ops I ok view H hinv" "rel_tx I view hinv C s w T" "\<forall>vs\<in>set items. item_ok s vs"
    and "td_auto_increment_pk s \<longrightarrow> auto_at s (view w) T n \<and> unat n + length (filter (allocates_pk s) items) < 2 ^ 64"
  shows "refines (insert_spec s conflict n items T) (insert_bulk_in C H ops w s items conflict)
    (\<lambda>(pks, T') (pks', w'). pks' = pks \<and> rel_tx I view hinv C s w' T' \<and> only_table_auto s (view w) (view w') \<and>
      (td_auto_increment_pk s \<longrightarrow> (\<exists>c. auto_at s (view w') T' c)))"
  using rel_store.insert_bulk_refines [OF assms(1-3), of n conflict] assms(4)
  by (auto simp: auto_tx_def elim!: refines_mono)

lemma ann_insert_spec: "insert_spec users OnError 1 [ann] Map.empty = Ok ([IntV 1], ann_only)"
  using ann_inserted ann_item(2) by (simp add: insert_spec_def insert_one_spec_def choose_pk_def)

theorem inserts_refine_witness:
  "\<exists>w' c. insert_bulk_in demo_rel_codecs no_search mem_write_ops demo_tx users [ann] OnError = Ok ([IntV 1], w') \<and>
    demo_rel_tx w' ann_only \<and> auto_at users (mem_view w') ann_only c"
proof -
  have "td_auto_increment_pk users" by (simp add: users_def)
  then show ?thesis
    using inserts_refine [OF mem_rw.rel_store_axioms demo_rel_empty(1), of "[ann]" 1 OnError] demo_rel_empty(2) ann_item(1,2) ann_insert_spec
    by (auto simp: ok_with_iff)
qed

text \<open>C16: As long as the counter stays below 2 to the 63, inserting rows that carry no key hands out consecutive keys that no row
  of the table has, so such an insert never fails with a duplicate key.\<close>

theorem allocated_keys_fresh:
  assumes "rel_store ops I ok view H hinv" "rel_tx I view hinv C s w T" "auto_at s (view w) T n" "items \<noteq> []"
    and "\<forall>vs\<in>set items. item_ok s vs \<and> allocates_pk s vs" "unat n + length items \<le> 2 ^ 63"
  shows "(\<forall>pk\<in>set (block_keys n (length items)). T pk = None) \<and>
    (case insert_bulk_in C H ops w s items conflict of Ok (pks, w') \<Rightarrow> pks = block_keys n (length items)
      | Err e \<Rightarrow> e \<noteq> DuplicateKey (td_name s) [] | Panic \<Rightarrow> False)"
proof -
  have all: "list_all (allocates_pk s) items" "filter (allocates_pk s) items = items" using assms(5) by (auto simp: list_all_iff)
  note fresh = insert_spec_fresh [OF assms(3) all(1) assms(4,6)]
  have "refines (insert_spec s conflict n items T) (insert_bulk_in C H ops w s items conflict)
      (\<lambda>(pks, T') (pks', w'). pks' = pks \<and> auto_tx I view hinv C s 0 (view w) w' T')"
    using assms(3,5,6) all(2) by (intro rel_store.insert_bulk_refines [OF assms(1,2)]) auto
  then show ?thesis
    using fresh(1) fresh(2) [of conflict] by (cases "insert_spec s conflict n items T") (auto simp: ok_with_iff)
qed

theorem allocated_keys_fresh_witness:
  "case insert_bulk_in demo_rel_codecs no_search mem_write_ops demo_tx users [ann] OnError of Ok (pks, w') \<Rightarrow> pks = [IntV 1]
    | Err e \<Rightarrow> e \<noteq> DuplicateKey ''users'' [] | Panic \<Rightarrow> False"
proof -
  have keys: "block_keys 1 (length [ann]) = [IntV 1]" by (simp add: block_keys_def)
  have "\<forall>vs\<in>set [ann]. item_ok users vs \<and> allocates_pk users vs" "unat (1 :: u64) + length [ann] \<le> 2 ^ 63" using ann_item(1,2) by simp_all
  then show ?thesis
    using allocated_keys_fresh [OF mem_rw.rel_store_axioms demo_rel_empty list.distinct(2), of ann "[]" OnError] unfolding keys users_simps by blast
qed

text \<open>Three more users, the first with a key of its own.\<close>

definition bob :: properties where "bob = [(''age'', IntV 30), (''name'', Str ''bob'')]"
definition cat :: properties where "cat = [(''age'', IntV 30), (''id'', IntV 2), (''name'', Str ''cat'')]"
definition cat_row :: properties where "cat_row = [(''age'', IntV 30), (''name'', Str ''cat'')]"

lemma more_items: "item_ok users bob" "item_ok users cat" "allocates_pk users bob" "\<not> allocates_pk users cat" "explicit_pk users cat = Some (IntV 2)"
    "stored_values users bob = bob" "stored_values users cat = cat_row" "validate_row users (IntV i) bob = Ok ()" "validate_row users (IntV i) cat_row = Ok ()"
  by (simp_all add: item_ok_def allocates_pk_def explicit_pk_def keys_ok_def stored_values_def fill_default_def validate_row_def check_value_def
      check_not_null_def ts_column_def kind_of_def bob_def cat_def cat_row_def users_def properties_ok_def sortable_key_def as_bytes_def)

lemma users_unique_free:
  "unique_free users T r \<longleftrightarrow> (\<forall>v. indexable r users ''name'' = Some v \<longrightarrow> (\<forall>x\<in>rows_in T. indexable x users ''name'' = Some v \<longrightarrow> row_pk x = row_pk r))"
  by (simp add: unique_free_def users_def)

lemma name_of: "indexable \<lparr>row_pk = pk, row_values = ann\<rparr> users ''name'' = Some (Str ''ann'')"
    "indexable \<lparr>row_pk = pk, row_values = bob\<rparr> users ''name'' = Some (Str ''bob'')"
    "indexable \<lparr>row_pk = pk, row_values = cat_row\<rparr> users ''name'' = Some (Str ''cat'')"
  by (simp_all add: indexable_def row_get_def ann_def bob_def cat_row_def)

lemma rows_in_empty [simp]: "rows_in Map.empty = {}"
  by (simp add: rows_in_def)

lemma mixed_spec:
  "insert_spec users OnError 1 [cat, ann, bob] Map.empty = Err (DuplicateKey ''users'' [])"
  "insert_spec users Replace 1 [cat, ann, bob] Map.empty = Ok ([IntV 2, IntV 1, IntV 2], [IntV 1 \<mapsto> ann, IntV 2 \<mapsto> bob])"
  by (auto simp: insert_spec_def insert_one_spec_def choose_pk_def more_items ann_item write_spec_def users_unique_free name_of rows_in_upd)

text \<open>C21: A call that mixes an explicit key with allocated ones can hand out the explicit key again: with the counter at one,
  inserting a row under key two followed by two rows without a key fails with a duplicate key, and the same call as an upsert
  succeeds, reports key two twice and has silently overwritten the first row.\<close>

theorem mixed_bulk_collides:
  "insert_bulk_in demo_rel_codecs no_search mem_write_ops demo_tx users [cat, ann, bob] OnError = Err (DuplicateKey ''users'' []) \<and>
    (\<exists>w'. insert_bulk_in demo_rel_codecs no_search mem_write_ops demo_tx users [cat, ann, bob] Replace = Ok ([IntV 2, IntV 1, IntV 2], w') \<and>
      demo_rel_tx w' [IntV 1 \<mapsto> ann, IntV 2 \<mapsto> bob])"
proof -
  have hyps: "\<forall>vs\<in>set [cat, ann, bob]. item_ok users vs" "length (filter (allocates_pk users) [cat, ann, bob]) = 2"
    using more_items(1-4) ann_item(1,2) by simp_all
  have "refines (insert_spec users c 1 [cat, ann, bob] Map.empty) (insert_bulk_in demo_rel_codecs no_search mem_write_ops demo_tx users [cat, ann, bob] c)
      (\<lambda>(pks, T') (pks', w'). pks' = pks \<and> auto_tx mem_tx_ok mem_view (\<lambda>_. True) demo_rel_codecs users 0 (mem_view demo_tx) w' T')" for c
    by (rule mem_rw.insert_bulk_refines [OF demo_rel_empty(1) hyps(1)]) (use demo_rel_empty(2) hyps(2) in simp)
  from this [of OnError] this [of Replace] show ?thesis by (auto simp: mixed_spec ok_with_iff auto_tx_def)
qed

section \<open>Schemas\<close>

text \<open>C18: Whatever the calls on the builder were, a schema it builds is well formed: legal and distinct names, a non-null keyable
  primary key, key encodings for every indexed column, an index for every unique column, defaults of their column's kind; and taking a
  well-formed schema with a non-null primary key apart and building it again gives the same schema.\<close>

theorem builder_well_formed:
  "(build b = Ok s \<and> values_ok (tsb_columns b) \<longrightarrow> schema_ok s \<and> key_required s) \<and>
    (schema_ok s \<and> key_required s \<longrightarrow> build (to_builder s) = Ok s)"
  using build_schema_ok build_to_builder by blast

theorem builder_well_formed_witness:
  "schema_ok users \<and> key_required users \<and> build (to_builder users) = Ok users"
  using builder_well_formed [of "to_builder users" users] users_ok by (simp add: key_required_def users_def)

section \<open>The catalog\<close>

text \<open>C19: Ensuring a table that is not in the catalog registers it with the rows it already holds under a static schema (none, when
  nobody has used it), and fails exactly when a unique value repeats in them; when it is registered with another definition the call
  succeeds exactly when the definitions are compatible and the migrated rows satisfy the new one (kinds, NOT NULL, UNIQUE, indexable
  values), and then the table holds the migrated rows under the new definition with every index in step; every other table and
  every key counter is unchanged. As for creating a table, rows found must be rows of the definition, and indexes may be added but not removed.\<close>

theorem ensure_table_refines:
  assumes "rel_store ops I ok view H hinv" "tables_tx I view hinv C U D w" "schema_ok s" "D (td_name s) = None \<longrightarrow> adoptable U s"
  shows "outcome (ensure_table_in C H ops w s) (ensure_ok U D s)
    (\<lambda>w'. tables_tx I view hinv C (U(td_name s := None)) (ensure_spec U D s) w' \<and> only_def (td_name s) (view w) (view w'))"
  using rel_store.ensure_table_outcome [OF assms(1-3)] assms(4) by blast

text \<open>The users with one more column and without the index on the age.\<close>

definition users_city :: table_schema where
  "users_city = users\<lparr>td_columns := td_columns users @ [\<lparr>cs_name = ''city'', cs_kind = KStr, cs_nullable = False, cs_unique = False, cs_default = Some (Str ''x'')\<rparr>],
     td_indexed_columns := [''city'', ''name'']\<rparr>"

lemma users_city_ok: "schema_ok users_city" "td_name users_city = ''users''"
  by (simp_all add: schema_ok_def users_city_def users_def default_ok_def check_identifier_def MAX_IDENTIFIER_LEN_def is_ascii_alphanumeric_def
      is_reserved_def RESERVED_TABLE_NAMES_def is_keyable_def less_eq_char_def kind_of_def)

abbreviation demo_registry :: "registry \<Rightarrow> mem_write_tx \<Rightarrow> bool" where
  "demo_registry \<equiv> registry_tx mem_tx_ok mem_view (\<lambda>_. True) demo_rel_codecs"

lemma demo_registry_empty: "demo_registry Map.empty demo_tx"
  using demo_rel_empty(1)
  by (simp add: tables_tx_def tables_repr_def demo_rel_codecs_ok entry_repr_def loose_repr_def no_strays_def demo_view rel_tx_def)

lemma demo_registry_ann: "\<exists>w. demo_registry [''users'' \<mapsto> (users, ann_only)] w"
proof -
  obtain w where w: "demo_registry [''users'' \<mapsto> (users, Map.empty)] w"
    using mem_rw.ensure_table_outcome [OF demo_registry_empty users_ok]
    by (cases "ensure_table_in demo_rel_codecs no_search mem_write_ops demo_tx users")
      (auto simp: ensure_ok_def ensure_spec_def adoptable_def found_rows_def unique_in_def rows_in_def)
  then have "demo_rel_tx w Map.empty" using mem_rw.registry_table(2) [OF w] by simp
  then obtain w' where "demo_rel_tx w' ann_only" "only_table users (mem_view w) (mem_view w')"
    using mem_rw.write_row_refines [OF _ ann_keys, of demo_rel_codecs w Map.empty 1 OnError] by (auto simp: ann_inserted ok_with_iff)
  then have "demo_registry ([''users'' \<mapsto> (users, Map.empty)](''users'' \<mapsto> (users, ann_only))) w'"
    by (intro mem_rw.row_write_registry [OF w]) (simp_all add: only_table_auto_def)
  then show ?thesis by auto
qed

theorem ensure_table_refines_witness:
  "\<exists>w w'. demo_registry [''users'' \<mapsto> (users, ann_only)] w \<and>
    ensure_table_in demo_rel_codecs no_search mem_write_ops w users_city = Ok w' \<and>
    demo_registry [''users'' \<mapsto> (users_city, [IntV 1 \<mapsto> [(''age'', IntV 30), (''city'', Str ''x''), (''name'', Str ''ann'')]])] w'"
proof -
  let ?vs = "[(''age'', IntV 30), (''city'', Str ''x''), (''name'', Str ''ann'')]"
  obtain w where w: "demo_registry [''users'' \<mapsto> (users, ann_only)] w" using demo_registry_ann by blast
  have mv: "migrate_values users users_city ann = ?vs"
    by (simp add: migrate_values_def add_default_def ts_column_def users_city_def users_def ann_def)
  then have rows: "migrate_rows users users_city ann_only = [IntV 1 \<mapsto> ?vs]" by (auto simp: migrate_rows_def ann_only_def)
  have "row_ok users_city (IntV 1) ?vs"
    by (simp add: row_ok_def validate_row_def check_value_def check_not_null_def ts_column_def kind_of_def users_city_def users_def
        properties_ok_def keys_ok_def sortable_key_def as_bytes_def)
  then have wf: "table_wf users_city [IntV 1 \<mapsto> ?vs]" by (auto simp: table_wf_def unique_in_def rows_in_upd)
  have comp: "compatible users users_city" "\<not> schema_eq users users_city"
    by (auto simp: compatible_def pk_kind_of_def ts_column_def users_city_def users_def schema_eq_def)
  show ?thesis
    using ensure_table_refines [OF mem_rw.rel_store_axioms w users_city_ok(1)] w wf comp rows
    by (cases "ensure_table_in demo_rel_codecs no_search mem_write_ops w users_city")
      (auto simp: ensure_ok_def ensure_spec_def users_city_ok(2))
qed

text \<open>C20: Creating a table that is not in the catalog registers it with exactly the rows the base table already holds under a static
  schema (none, when nobody has used the table), every index rebuilt over them; it fails exactly when a value of a UNIQUE column
  occurs in two of these rows, and leaves the key counter where it was. This is for rows that are rows of the new definition, which the code does not check, and for a
  definition with all indexes of the static one. Creating a registered table succeeds exactly when the definition is the registered
  one, and changes nothing. Dropping a table removes its definition, its rows, its indexes and its key counter, and reports whether
  it was registered; it never fails and leaves an unregistered table alone. Neither changes another table.\<close>

theorem create_and_drop_refine:
  assumes "rel_store ops I ok view H hinv" "tables_tx I view hinv C U D w" "schema_ok s" "D (td_name s) = None \<longrightarrow> adoptable U s" "user_name n"
  shows "outcome (create_table_in C ops w s)
      (case D (td_name s) of None \<Rightarrow> unique_in s (found_rows U (td_name s)) | Some (old, _) \<Rightarrow> schema_eq old s)
      (\<lambda>(created, w'). created = (D (td_name s) = None) \<and> only_def (td_name s) (view w) (view w') \<and>
        tables_tx I view hinv C (U(td_name s := None)) (if created then D(td_name s \<mapsto> (s, found_rows U (td_name s))) else D) w') \<and>
    ok_with (drop_table_in C H ops w n) (\<lambda>(dropped, w'). dropped = (D n \<noteq> None) \<and> tables_tx I view hinv C U (D(n := None)) w' \<and>
      only_named n (view w) (view w') \<and> (dropped \<longrightarrow> view w' meta_table (row_counter_key n) = None))"
  using rel_store.create_table_outcome [OF assms(1-3)] assms(4) rel_store.drop_table_wp [OF assms(1,2,5)] unfolding create_ok_def by blast

text \<open>The users as a static schema: no constraints, no indexes; and a table used through it that was never registered.\<close>

definition static_users :: rel_schema where
  "static_users = \<lparr>rs_name = ''users'',
     rs_columns = [\<lparr>cd_name = ''id'', cd_kind = KInt\<rparr>, \<lparr>cd_name = ''name'', cd_kind = KStr\<rparr>, \<lparr>cd_name = ''age'', cd_kind = KInt\<rparr>],
     rs_primary_key = ''id'', rs_auto_increment_pk = True, rs_indexed_columns = []\<rparr>"

abbreviation loose_users :: table_schema where
  "loose_users \<equiv> from_rel_schema static_users"

definition two_anns :: rows where
  "two_anns = [IntV 1 \<mapsto> ann, IntV 2 \<mapsto> ann]"

lemma loose_users_ok: "schema_ok loose_users"
  by (rule static_schema_ok) (simp add: static_ok_def static_users_def check_identifier_def MAX_IDENTIFIER_LEN_def is_ascii_alphanumeric_def
      is_reserved_def RESERVED_TABLE_NAMES_def is_keyable_def less_eq_char_def)

lemma loose_users_simps [simp]: "td_name loose_users = ''users''" "td_primary_key loose_users = ''id''" "td_indexed_columns loose_users = []"
  by (simp_all add: from_rel_schema_def static_users_def)

abbreviation demo_tables :: "registry \<Rightarrow> registry \<Rightarrow> mem_write_tx \<Rightarrow> bool" where
  "demo_tables \<equiv> tables_tx mem_tx_ok mem_view (\<lambda>_. True) demo_rel_codecs"

lemma loose_ann:
  assumes "demo_tables U Map.empty w" "\<And>s T. U ''users'' = Some (s, T) \<Longrightarrow> s = loose_users"
  shows "\<exists>w'. demo_tables (U(''users'' \<mapsto> (loose_users, (found_rows U ''users'')(IntV i \<mapsto> ann)))) Map.empty w'"
proof -
  let ?T = "found_rows U ''users''"
  have tx: "rel_tx mem_tx_ok mem_view (\<lambda>_. True) demo_rel_codecs loose_users w ?T"
    using mem_rw.loose_table [OF assms(1) loose_users_ok] assms(2) by simp
  have vs: "stored_values loose_users ann = ann" "validate_row loose_users (IntV i) ann = Ok ()" "keys_ok loose_users (IntV i) ann"
    by (simp_all add: stored_values_def fill_default_def validate_row_def check_value_def check_not_null_def ts_column_def kind_of_def keys_ok_def
        sortable_key_def ann_def from_rel_schema_def static_users_def cs_new_def)
  have "unique_free loose_users T x" for T x by (simp add: unique_free_def from_rel_schema_def static_users_def cs_new_def)
  then have "write_spec loose_users ?T (IntV i) ann Replace = Ok (?T(IntV i \<mapsto> ann))" using vs by (simp add: write_spec_def)
  then obtain w' where w': "rel_tx mem_tx_ok mem_view (\<lambda>_. True) demo_rel_codecs loose_users w' (?T(IntV i \<mapsto> ann))" "only_table loose_users (mem_view w) (mem_view w')"
    using mem_rw.write_row_refines [OF tx ann_keys(1,2), of i Replace] vs by (auto simp: ok_with_iff)
  show ?thesis
    using mem_rw.row_write_loose [OF assms(1) _ loose_users_ok _ w'(1)] w'(2) assms(2) by (auto simp: only_table_auto_def)
qed

lemma loose_demo:
  "\<exists>w. demo_tables [''users'' \<mapsto> (loose_users, ann_only)] Map.empty w" "\<exists>w. demo_tables [''users'' \<mapsto> (loose_users, two_anns)] Map.empty w"
proof -
  show 1: "\<exists>w. demo_tables [''users'' \<mapsto> (loose_users, ann_only)] Map.empty w"
    using loose_ann [OF demo_registry_empty, of 1] by (simp add: found_rows_def ann_only_def)
  then obtain w where "demo_tables [''users'' \<mapsto> (loose_users, ann_only)] Map.empty w" by blast
  from loose_ann [OF this, of 2] show "\<exists>w. demo_tables [''users'' \<mapsto> (loose_users, two_anns)] Map.empty w"
    by (simp add: found_rows_def ann_only_def two_anns_def)
qed

lemma anns_rows: "row_ok users (IntV i) ann" "\<not> unique_in users two_anns" "unique_in users ann_only"
proof -
  show "row_ok users (IntV i) ann" using ann_item(3) ann_item(4) [of i] ann_keys(1,2) ann_keys(3) [of i] by (simp add: row_ok_def) (simp add: ann_def)
  show "\<not> unique_in users two_anns"
  proof
    let ?r = "\<lambda>i. \<lparr>row_pk = IntV i, row_values = ann\<rparr>"
    have ix: "indexable (?r i) users ''name'' = Some (Str ''ann'')" for i by (simp add: indexable_def row_get_def ann_def)
    have rows: "?r 1 \<in> rows_in two_anns" "?r 2 \<in> rows_in two_anns" by (simp_all add: two_anns_def)
    let ?c = "\<lparr>cs_name = ''name'', cs_kind = KStr, cs_nullable = False, cs_unique = True, cs_default = None\<rparr>"
    have c: "?c \<in> set (td_columns users)" "cs_unique ?c" "cs_name ?c = ''name''" by (simp_all add: users_def)
    assume u: "unique_in users two_anns"
    note u [unfolded unique_in_def, rule_format, OF c(1,2), unfolded c(3)]
    from this [OF rows ix ix] show False by simp
  qed
  show "unique_in users ann_only" by (auto simp: unique_in_def ann_only_def rows_in_upd)
qed

theorem create_and_drop_refine_witness:
  "(\<exists>w w'. demo_tables [''users'' \<mapsto> (loose_users, ann_only)] Map.empty w \<and>
      create_table_in demo_rel_codecs mem_write_ops w users = Ok (True, w') \<and> demo_registry [''users'' \<mapsto> (users, ann_only)] w') \<and>
    (\<exists>w e. demo_tables [''users'' \<mapsto> (loose_users, two_anns)] Map.empty w \<and>
      create_table_in demo_rel_codecs mem_write_ops w users = Err e) \<and>
    (\<exists>w w'. demo_registry [''users'' \<mapsto> (users, ann_only)] w \<and>
      drop_table_in demo_rel_codecs no_search mem_write_ops w ''users'' = Ok (True, w') \<and> demo_registry Map.empty w')"
proof (intro conjI)
  have kinds: "pk_kind_of users = pk_kind_of loose_users"
    by (simp add: pk_kind_of_def ts_column_def users_def from_rel_schema_def static_users_def cs_new_def)
  have ad: "adoptable [''users'' \<mapsto> (loose_users, ann_only)] users" "adoptable [''users'' \<mapsto> (loose_users, two_anns)] users"
    using kinds anns_rows(1) by (auto simp: adoptable_def ann_only_def two_anns_def split: if_splits)
  have n: "user_name ''users''" using schema_okD(1,2) [OF users_ok] by simp
  note create = create_and_drop_refine [OF mem_rw.rel_store_axioms _ users_ok _ n]
  obtain w where w: "demo_tables [''users'' \<mapsto> (loose_users, ann_only)] Map.empty w" using loose_demo(1) by blast
  from create [OF w] ad(1) anns_rows(3) show "\<exists>w w'. demo_tables [''users'' \<mapsto> (loose_users, ann_only)] Map.empty w \<and>
      create_table_in demo_rel_codecs mem_write_ops w users = Ok (True, w') \<and> demo_registry [''users'' \<mapsto> (users, ann_only)] w'"
    using w by (cases "create_table_in demo_rel_codecs mem_write_ops w users") (auto simp: found_rows_def)
  obtain w2 where w2: "demo_tables [''users'' \<mapsto> (loose_users, two_anns)] Map.empty w2" using loose_demo(2) by blast
  from create [OF w2] ad(2) anns_rows(2) show "\<exists>w e. demo_tables [''users'' \<mapsto> (loose_users, two_anns)] Map.empty w \<and>
      create_table_in demo_rel_codecs mem_write_ops w users = Err e"
    using w2 by (cases "create_table_in demo_rel_codecs mem_write_ops w2 users") (auto simp: found_rows_def)
  obtain w3 where w3: "demo_registry [''users'' \<mapsto> (users, ann_only)] w3" using demo_registry_ann by blast
  from create [OF w3] show "\<exists>w w'. demo_registry [''users'' \<mapsto> (users, ann_only)] w \<and>
      drop_table_in demo_rel_codecs no_search mem_write_ops w ''users'' = Ok (True, w') \<and> demo_registry Map.empty w'"
    using w3 by (auto simp: ok_with_iff)
qed

end
