(* ===== verification/Multi_Correct.thy ===== *)
theory Multi_Correct
  imports Multi_Sync Multi_Query Rel_Correct
begin

text \<open>
  The contract of the multi-model database on a backend. A state of the database is a graph, the unregistered tables in use and the
  registered tables in one store (\<open>db_state\<close>). The locale \<open>multi_backend\<close> is a backend all layers can run on; a closure run by \<open>db_write_tx\<close> that implements a
  specification on transactions implements it on the backend, commit included. Both backends are interpreted.
\<close>

section \<open>A backend with all models\<close>

definition db_state :: "(store \<Rightarrow> bool) \<Rightarrow> graph_codecs \<Rightarrow> rel_codecs \<Rightarrow> graph \<Rightarrow> registry \<Rightarrow> registry \<Rightarrow> store \<Rightarrow> bool" where
  "db_state hinv G C g U D \<sigma> \<longleftrightarrow> graph_codecs_ok G \<and> graph_repr G \<sigma> g \<and> tables_repr C U D \<sigma> \<and> hinv \<sigma>"

text \<open>The same for the tables of a batch, their key counters included.\<close>

definition db_holds :: "(store \<Rightarrow> bool) \<Rightarrow> graph_codecs \<Rightarrow> rel_codecs \<Rightarrow> graph \<Rightarrow> tables \<Rightarrow> store \<Rightarrow> bool" where
  "db_holds hinv G C g X \<sigma> \<longleftrightarrow> db_state hinv G C g (tb_loose X) (tb_registered X) \<sigma> \<and> counters_ok \<sigma> X"

lemma db_tx_state: "db_tx I view hinv G C g U D w \<longleftrightarrow> I w \<and> db_state hinv G C g U D (view w)"
  by (auto simp: db_tx_def db_state_def graph_view_def tables_tx_def)

locale multi_backend =
  st: storage_backend B rinv tbl_ok rview winv wview binv bview owns fits + ms: multi_store "write_tx B" winv tbl_ok wview H hinv
  for B :: "('b, 'r, 'w) backend_ops" and rinv tbl_ok rview winv wview binv bview owns fits H hinv +
  assumes row_change_owns: "winv w \<Longrightarrow> owns b w \<Longrightarrow> on_row_change H w s pk old new = Ok w' \<Longrightarrow> owns b w'"
    and retain_owns: "winv w \<Longrightarrow> owns b w \<Longrightarrow> retain_valid H w n x = Ok w' \<Longrightarrow> owns b w'"
begin

text \<open>The transactions opened on \<open>b\<close> are closed under every operation.\<close>

lemma owned: "multi_store (write_tx B) (\<lambda>w. winv w \<and> owns b w) tbl_ok wview H hinv"
proof unfold_locales
  show "\<exists>w'. s_put (write_tx B) w t k v = Ok w' \<and> (winv w' \<and> owns b w') \<and> wview w' = (wview w)(t := (wview w t)(k \<mapsto> v))"
    if "winv w \<and> owns b w" "tbl_ok t" for w t k v using st.wr.put_view [of w t k v] st.put_owns [of w b t k v] that by metis
  show "\<exists>w'. s_delete (write_tx B) w t k = Ok w' \<and> (winv w' \<and> owns b w') \<and> wview w' = (wview w)(t := (wview w t)(k := None))"
    if "winv w \<and> owns b w" "tbl_ok t" for w t k using st.wr.delete_view [of w t k] st.delete_owns [of w b t k] that by metis
  show "\<exists>w'. on_row_change H w s pk old new = Ok w' \<and> (winv w' \<and> owns b w') \<and> hinv (wview w') \<and> off_search (wview w) (wview w')"
    if "winv w \<and> owns b w" "hinv (wview w)" "schema_ok s" "sortable_key pk \<noteq> None" for w s pk old new
    using ms.rs.row_change [of w s pk old new] row_change_owns [of w b s pk old new] that by metis
  show "\<exists>w'. retain_valid H w n x = Ok w' \<and> (winv w' \<and> owns b w') \<and> hinv (wview w') \<and> off_search (wview w) (wview w')"
    if "winv w \<and> owns b w" "hinv (wview w)" "ident_ok n" for w n x
    using ms.rs.retain [of w n x] retain_owns [of w b n x] that by metis
qed (use st.wr.get_view st.wr.range_view st.wr.scan_range ms.gs.reserved_ok ms.rs.ident_tbl_ok ms.rs.index_tbl_ok ms.rs.meta_tbl_ok ms.rs.hinv_search in auto)

lemma write_tx_refines:
  assumes "binv b"
    and op: "\<And>w. winv w \<Longrightarrow> owns b w \<Longrightarrow> wview w = bview b \<Longrightarrow>
      refines spec (f w) (\<lambda>(x, a) (x', w'). x' = x \<and> (winv w' \<and> owns b w') \<and> P a (wview w'))"
    and fits: "\<And>w x w'. begin_write B b = Ok w \<Longrightarrow> f w = Ok (x, w') \<Longrightarrow> fits b w'"
  shows "refines spec (db_write_tx B b f) (\<lambda>(x, a) (x', b'). x' = x \<and> binv b' \<and> P a (bview b'))"
proof -
  obtain w where w: "begin_write B b = Ok w" "winv w" "wview w = bview b" "owns b w" using st.begin_write_view [OF assms(1)] by blast
  have "refines (bind_res spec Ok) (bind_res (f w) (\<lambda>(x, w'). bind_res (commit B b w') (\<lambda>b. Ok (x, b))))
      (\<lambda>(x, a) (x', b'). x' = x \<and> binv b' \<and> P a (bview b'))"
  proof (rule refines_bind [OF op [OF w(2,4,3)]])
    fix a c assume a: "f w = Ok c" "(\<lambda>(x, a) (x', w'). x' = x \<and> (winv w' \<and> owns b w') \<and> P a (wview w')) a c"
    obtain x y w' where c: "a = (x, y)" "c = (x, w')" "winv w'" "owns b w'" "P y (wview w')" using a(2) by (cases a; cases c) auto
    obtain b' where "commit B b w' = Ok b'" "binv b'" "bview b' = wview w'"
      using st.commit_view [OF assms(1) c(3,4)] fits [OF w(1)] a(1) c(2) by blast
    then show "refines (Ok a) (case c of (x, w') \<Rightarrow> bind_res (commit B b w') (\<lambda>b. Ok (x, b))) (\<lambda>(x, a) (x', b'). x' = x \<and> binv b' \<and> P a (bview b'))"
      using c by simp
  qed
  then show ?thesis using w(1) by (simp add: db_write_tx_def bind_res_Ok)
qed

lemma sync_batch_view:
  assumes "binv b" "db_holds hinv G (env_codecs E) g X (bview b)" "env_hooks E = H" "sync_ok g X batch"
    and "\<And>w r w'. begin_write B b = Ok w \<Longrightarrow> sync_batch_in G E (write_tx B) w batch = Ok (r, w') \<Longrightarrow> fits b w'"
  shows "refines (sync_spec g X batch) (db_sync_batch G E B b batch)
    (\<lambda>(r, g', X') (r', b'). r' = r \<and> binv b' \<and> db_holds hinv G (env_codecs E) g' X' (bview b'))"
proof -
  have "refines (sync_spec g X batch) (db_write_tx B b (\<lambda>w. sync_batch_in G E (write_tx B) w batch))
      (\<lambda>(x, a) (x', b'). x' = x \<and> binv b' \<and> (\<lambda>(g', X') \<sigma>. db_holds hinv G (env_codecs E) g' X' \<sigma>) a (bview b'))"
  proof (rule write_tx_refines [OF assms(1) _ assms(5)])
    fix w assume w: "winv w" "owns b w" "wview w = bview b"
    have "refines (sync_spec g X batch) (sync_batch_in G E (write_tx B) w batch)
        (\<lambda>(r, g', X') (r', w'). r' = r \<and> db_tx (\<lambda>w. winv w \<and> owns b w) wview hinv G (env_codecs E) g' (tb_loose X') (tb_registered X') w' \<and>
          counters_ok (wview w') X')"
      by (rule multi_store.sync_refines [OF owned _ _ assms(3,4)]) (use w assms(2) in \<open>simp_all add: db_tx_state db_holds_def\<close>)
    then show "refines (sync_spec g X batch) (sync_batch_in G E (write_tx B) w batch)
        (\<lambda>(x, a) (x', w'). x' = x \<and> (winv w' \<and> owns b w') \<and> (\<lambda>(g', X') \<sigma>. db_holds hinv G (env_codecs E) g' X' \<sigma>) a (wview w'))"
      by (rule refines_mono) (auto simp: db_tx_state db_holds_def)
  qed auto
  then show ?thesis unfolding db_sync_batch_def by (rule refines_mono) auto
qed

end

section \<open>The two backends\<close>

interpretation mem_mr: multi_read mem_read_ops "\<lambda>r. mem_tables_ok (mr_snapshot r)" "\<lambda>_. True" "\<lambda>r. mem_snapshot_get (mr_snapshot r)"
  by unfold_locales

interpretation lsm_mr: multi_read "lsm_read_ops E" "\<lambda>r. snap_ok E (lr_snapshot r)" lsm_tbl_ok "\<lambda>r. tx_view E (lr_snapshot r) None" for E
  by unfold_locales

interpretation mem_mb: multi_backend mem_ops "\<lambda>r. mem_tables_ok (mr_snapshot r)" "\<lambda>_. True" "\<lambda>r. mem_snapshot_get (mr_snapshot r)" mem_tx_ok mem_view
    "\<lambda>b. mem_tables_ok (mb_tables b)" "\<lambda>b. mem_snapshot_get (mb_tables b)" "\<lambda>b w. mw_snapshot w = mb_tables b" "\<lambda>_ _. True" no_search "\<lambda>_. True"
  by unfold_locales (simp_all add: no_search_def)

interpretation lsm_mb: multi_backend "lsm_ops E" "\<lambda>r. snap_ok E (lr_snapshot r)" lsm_tbl_ok "\<lambda>r. tx_view E (lr_snapshot r) None" "lsm_tx_ok E" "lsm_view E"
    "\<lambda>b. ext_ok E \<and> lsm_inv E b" "lsm_bview E" "\<lambda>b w. lw_snapshot w = lsm_snapshot b" "\<lambda>b w. lw_pending w \<noteq> [] \<longrightarrow> commit_room E b (lw_pending w)"
    no_search "\<lambda>_. True" for E
  by unfold_locales (simp_all add: no_search_def ident_lsm_tbl_ok reserved_tbl_ok)

section \<open>Synchronisation\<close>

text \<open>C11: A synchronisation batch runs as one transaction on any backend: it adds the nodes, then the edges with references to new
  nodes resolved, then upserts the groups of rows in order, whatever tables they go to: a registered table with its registered
  definition (an error when the schema given is another), an unregistered one with the schema given. Automatic keys come from
  the counter of the table, which a later group of the same table finds past every key of the earlier ones. On success the
  committed database holds exactly the resulting graph, tables and counters and the call returns the ids and keys given out; a
  batch the specification rejects returns its error. The batch must be well formed (\<open>sync_ok\<close>): values and sizes the codecs and
  key encodings can take, fewer than \<open>2 ^ 63\<close> rows, and for an unregistered table one well-formed schema, also for the rows
  already there.\<close>

theorem sync_batch_refines:
  assumes "multi_backend B rinv ok rview winv wview binv bview owns fits H hinv" "binv b"
    and "db_holds hinv G (env_codecs E) g X (bview b)" "env_hooks E = H" "sync_ok g X batch"
    and "\<forall>w r w'. begin_write B b = Ok w \<longrightarrow> sync_batch_in G E (write_tx B) w batch = Ok (r, w') \<longrightarrow> fits b w'"
  shows "refines (sync_spec g X batch) (db_sync_batch G E B b batch)
    (\<lambda>(r, g', X') (r', b'). r' = r \<and> binv b' \<and> db_holds hinv G (env_codecs E) g' X' (bview b'))"
  by (rule multi_backend.sync_batch_view [OF assms(1-5)]) (use assms(6) in blast)

text \<open>
  A database with one empty registered table, and a batch with two nodes, an edge between them, rows for a static schema that is
  not registered in two groups around a row of the registered table, and a row of that table under its key.
\<close>

definition memos :: table_schema where
  "memos = \<lparr>td_name = ''memos'',
     td_columns = [\<lparr>cs_name = ''id'', cs_kind = KInt, cs_nullable = False, cs_unique = False, cs_default = None\<rparr>,
       \<lparr>cs_name = ''node'', cs_kind = KInt, cs_nullable = True, cs_unique = False, cs_default = None\<rparr>],
     td_primary_key = ''id'', td_auto_increment_pk = False, td_indexed_columns = [''node'']\<rparr>"

definition static_tags :: rel_schema where
  "static_tags = \<lparr>rs_name = ''tags'', rs_columns = [\<lparr>cd_name = ''id'', cd_kind = KInt\<rparr>, \<lparr>cd_name = ''label'', cd_kind = KStr\<rparr>],
     rs_primary_key = ''id'', rs_auto_increment_pk = True, rs_indexed_columns = [''label'']\<rparr>"

definition tags :: table_schema where
  "tags = from_rel_schema static_tags"

definition demo_batch :: sync_batch where
  "demo_batch = sb_add_row_with_pk (sb_add_row (sb_add_row (sb_add_row
     (sb_add_linked_edge (sb_add_nodes sb_new [(''P'', []), (''P'', [])]) (NewNode 0) ''k'' (NewNode 1) [])
     tags [(''label'', Str ''x'')]) memos [(''id'', IntV 7), (''node'', IntV 2)]) tags [(''label'', Str ''y'')])
     memos (IntV 8) [(''node'', IntV 2)]"

definition demo_env :: "mem_write_tx rel_env" where
  "demo_env = \<lparr>env_codecs = demo_rel_codecs, env_hooks = no_search, env_lower = (\<lambda>c. [c])\<rparr>"

lemma memos_ok: "schema_ok memos"
  by (simp add: schema_ok_def memos_def default_ok_def check_identifier_def MAX_IDENTIFIER_LEN_def is_ascii_alphanumeric_def
      is_reserved_def RESERVED_TABLE_NAMES_def is_keyable_def less_eq_char_def)

lemma tags_ok: "schema_ok tags"
  unfolding tags_def
  by (rule static_schema_ok) (simp add: static_ok_def static_tags_def check_identifier_def MAX_IDENTIFIER_LEN_def is_ascii_alphanumeric_def
      is_reserved_def RESERVED_TABLE_NAMES_def is_keyable_def less_eq_char_def)

lemma memos_simps [simp]: "td_name memos = ''memos''" "td_primary_key memos = ''id''" "\<not> td_auto_increment_pk memos"
  by (simp_all add: memos_def)

lemma tags_simps [simp]: "td_name tags = ''tags''" "td_primary_key tags = ''id''" "td_auto_increment_pk tags" "td_indexed_columns tags = [''label'']"
    "td_columns tags = [cs_new ''id'' KInt, cs_new ''label'' KStr]"
  by (simp_all add: tags_def static_tags_def from_rel_schema_def)

lemma demo_batch_simps [simp]:
  "sb_nodes demo_batch = [(''P'', []), (''P'', [])]" "sb_edges demo_batch = []"
  "sb_linked_edges demo_batch = [(NewNode 0, ''k'', NewNode 1, [])]"
  "sb_rows demo_batch = [(tags, [[(''label'', Str ''x'')]]), (memos, [[(''id'', IntV 7), (''node'', IntV 2)]]), (tags, [[(''label'', Str ''y'')]])]"
  "sb_rows_with_pk demo_batch = [(memos, [(IntV 8, [(''node'', IntV 2)])])]"
  by (simp_all add: demo_batch_def sb_add_row_with_pk_def sb_add_row_def sb_add_linked_edge_def sb_add_nodes_def sb_new_def push_grouped_def
      schema_eq_def)

definition demo_start :: tables where
  "demo_start = \<lparr>tb_counter = (\<lambda>_. 1), tb_loose = Map.empty, tb_registered = [''memos'' \<mapsto> (memos, Map.empty)]\<rparr>"

abbreviation demo_holds :: "graph \<Rightarrow> tables \<Rightarrow> mem_backend \<Rightarrow> bool" where
  "demo_holds g X b \<equiv> mem_tables_ok (mb_tables b) \<and> db_holds (\<lambda>_. True) demo_codecs demo_rel_codecs g X (mem_snapshot_get (mb_tables b))"

lemma memos_db: "\<exists>b. demo_holds empty_graph demo_start b"
proof -
  let ?b = "\<lparr>mb_tables = []\<rparr> :: mem_backend"
  let ?I = "\<lambda>w. mem_tx_ok w \<and> mw_snapshot w = mb_tables ?b"
  have mem_empty: "mem_tables_ok (mb_tables ?b)" by (simp add: mem_tables_ok_def)
  have store: "rel_store (write_tx mem_ops) ?I (\<lambda>_. True) mem_view no_search (\<lambda>_. True)"
    using mem_mb.owned [of ?b] by (rule multi_store.axioms(2))
  have "registry_tx ?I mem_view (\<lambda>_. True) demo_rel_codecs Map.empty demo_tx"
    using demo_registry_empty by (simp add: tables_tx_def demo_tx_def)
  note rel_store.ensure_table_outcome [OF store this memos_ok]
  then obtain w where w: "registry_tx ?I mem_view (\<lambda>_. True) demo_rel_codecs [''memos'' \<mapsto> (memos, Map.empty)] w" "only_def ''memos'' (mem_view demo_tx) (mem_view w)"
    by (cases "ensure_table_in demo_rel_codecs no_search (write_tx mem_ops) demo_tx memos")
      (auto simp: ensure_ok_def ensure_spec_def adoptable_def found_rows_def unique_in_def rows_in_def)
  have I: "?I w" "registry_repr demo_rel_codecs [''memos'' \<mapsto> (memos, Map.empty)] (mem_view w)" using w(1) by (simp_all add: tables_tx_def)
  have only: "only_named ''memos'' (mem_view demo_tx) (mem_view w)" using w(2) by (simp add: only_def_def)
  have "user_name ''memos''" using schema_okD(1,2) [OF memos_ok] by (simp add: memos_def)
  then have "graph_repr demo_codecs (mem_view w) empty_graph"
    using graph_repr_only_named [OF _ _ only] empty_repr [of demo_codecs] demo_view by simp
  moreover have "mem_view w meta_table (row_counter_key n) = None" for n
    using w(2) demo_view by (cases "n = ''memos''") (auto simp: only_def_def only_named_def)
  then have "counters_ok (mem_view w) demo_start" by (simp add: counters_ok_def counter_at_def demo_start_def)
  moreover obtain b :: mem_backend where "mem_tables_ok (mb_tables b)" "mem_snapshot_get (mb_tables b) = mem_view w"
    using mem.commit_view [of ?b w] I(1) mem_empty by auto
  ultimately show ?thesis using I(2) demo_codecs_ok by (auto simp: db_holds_def db_state_def demo_start_def)
qed

lemma demo_sync_ok: "sync_ok empty_graph demo_start demo_batch"
proof -
  have "graph_part_ok empty_graph demo_batch" by (simp add: graph_part_ok_def node_ok_def properties_ok_def link_ok_def empty_graph_def)
  moreover have "one_schema (batch_schemas demo_batch) (tb_loose demo_start) (tb_registered demo_start)"
    using tags_ok by (auto simp: one_schema_def demo_start_def)
  moreover have "item_ok memos [(''id'', IntV 7), (''node'', IntV 2)]" "properties_ok [(''node'', IntV 2)]" "keys_ok memos (IntV 8) (stored_values memos [(''node'', IntV 2)])"
    by (simp_all add: item_ok_def properties_ok_def keys_ok_def stored_values_def explicit_pk_def sortable_key_def fill_default_def memos_def)
  moreover have "item_ok tags [(''label'', Str [c])]" if "c = CHR ''x'' \<or> c = CHR ''y''" for c
    using that by (auto simp: item_ok_def properties_ok_def keys_ok_def stored_values_def explicit_pk_def sortable_key_def fill_default_def cs_new_def as_bytes_def)
  moreover have "rows_total (sb_rows demo_batch) < 2 ^ 63" by (simp add: rows_total_def)
  ultimately show ?thesis by (auto simp: sync_ok_def rows_part_ok_def keyed_part_ok_def table_used_def demo_start_def split: if_splits)
qed

definition demo_memos :: rows where
  "demo_memos = [IntV 7 \<mapsto> [(''node'', IntV 2)], IntV 8 \<mapsto> [(''node'', IntV 2)]]"

definition demo_tags :: rows where
  "demo_tags = [IntV 1 \<mapsto> [(''label'', Str ''x'')], IntV 2 \<mapsto> [(''label'', Str ''y'')]]"

definition demo_after :: tables where
  "demo_after = \<lparr>tb_counter = (\<lambda>_. 1)(''tags'' := 3), tb_loose = [''tags'' \<mapsto> (tags, demo_tags)], tb_registered = [''memos'' \<mapsto> (memos, demo_memos)]\<rparr>"

definition demo_synced :: graph where
  "demo_synced = add_edge \<lparr>er_from = 1, er_to = 2, er_edge_type = ''k'', er_properties = []\<rparr>
     (fold add_node [\<lparr>nr_label = ''P'', nr_properties = []\<rparr>, \<lparr>nr_label = ''P'', nr_properties = []\<rparr>] empty_graph)"

lemma demo_memos_rows:
  "insert_spec memos Replace c [[(''id'', IntV 7), (''node'', IntV 2)]] Map.empty = Ok ([IntV 7], [IntV 7 \<mapsto> [(''node'', IntV 2)]])"
  "keyed_spec memos Replace [(IntV 8, [(''node'', IntV 2)])] [IntV 7 \<mapsto> [(''node'', IntV 2)]] = Ok demo_memos"
proof -
  have node: "stored_values memos [(''id'', IntV 7), (''node'', IntV 2)] = [(''node'', IntV 2)]" "stored_values memos [(''node'', IntV 2)] = [(''node'', IntV 2)]"
      "validate_row memos (IntV i) [(''node'', IntV 2)] = Ok ()" for i
    by (simp_all add: stored_values_def fill_default_def validate_row_def check_value_def check_not_null_def ts_column_def kind_of_def memos_def)
  have wr: "write_spec memos T (IntV i) vs Replace = Ok (T(IntV i \<mapsto> [(''node'', IntV 2)]))" if "stored_values memos vs = [(''node'', IntV 2)]" for T i vs
    using that node(3) by (simp add: write_spec_def unique_free_def memos_def)
  show "insert_spec memos Replace c [[(''id'', IntV 7), (''node'', IntV 2)]] Map.empty = Ok ([IntV 7], [IntV 7 \<mapsto> [(''node'', IntV 2)]])"
    by (simp add: insert_spec_def insert_one_spec_def choose_pk_def allocates_pk_def explicit_pk_def wr [OF node(1)])
  show "keyed_spec memos Replace [(IntV 8, [(''node'', IntV 2)])] [IntV 7 \<mapsto> [(''node'', IntV 2)]] = Ok demo_memos"
    by (simp add: keyed_spec_def wr [OF node(2)] demo_memos_def)
qed

lemma demo_tags_row:
  "insert_spec tags Replace c [[(''label'', Str x)]] T = Ok ([IntV c], T(IntV c \<mapsto> [(''label'', Str x)]))"
  "counter_after tags c [[(''label'', Str x)]] = c + 1"
proof -
  have "stored_values tags [(''label'', Str x)] = [(''label'', Str x)]" "validate_row tags (IntV c) [(''label'', Str x)] = Ok ()"
    by (simp_all add: stored_values_def fill_default_def validate_row_def check_value_def check_not_null_def ts_column_def kind_of_def cs_new_def)
  then have "write_spec tags T (IntV c) [(''label'', Str x)] Replace = Ok (T(IntV c \<mapsto> [(''label'', Str x)]))"
    by (simp add: write_spec_def unique_free_def cs_new_def)
  then show "insert_spec tags Replace c [[(''label'', Str x)]] T = Ok ([IntV c], T(IntV c \<mapsto> [(''label'', Str x)]))"
    by (simp add: insert_spec_def insert_one_spec_def choose_pk_def allocates_pk_def explicit_pk_def)
  show "counter_after tags c [[(''label'', Str x)]] = c + 1"
    by (simp add: counter_after_def counter_step_def allocates_pk_def explicit_pk_def)
qed

lemma demo_sync_spec:
  "sync_spec empty_graph demo_start demo_batch =
    Ok (\<lparr>sr_node_ids = [1, 2], sr_edge_ids = [1], sr_relational_pks = [[IntV 1], [IntV 7], [IntV 2]]\<rparr>, demo_synced, demo_after)"
proof -
  have g: "sync_graph_spec empty_graph demo_batch = Ok ([1, 2], [1], demo_synced)"
    by (simp add: sync_graph_spec_def new_ids_def resolve_edge_def nr_resolve_def ends_exist_def demo_synced_def add_node_def set_node_def
        take_node_ids_def mark_ready_def empty_graph_def)
  have eq: "schema_eq memos memos" by (simp add: schema_eq_def memos_def column_eq_def opt_prop_eq_def)
  have reg: "on_table memos X f = bind_res (f memos (tb_counter X ''memos'') T) (\<lambda>(x, c, T).
      Ok (x, X\<lparr>tb_counter := (tb_counter X)(''memos'' := c), tb_registered := (tb_registered X)(''memos'' \<mapsto> (memos, T))\<rparr>))"
    if "tb_registered X ''memos'' = Some (memos, T)" for X f T
    using that eq by (simp add: on_table_def Let_def)
  have loose: "on_table tags X f = bind_res (f tags (tb_counter X ''tags'') (found_rows (tb_loose X) ''tags'')) (\<lambda>(x, c, T).
      Ok (x, X\<lparr>tb_counter := (tb_counter X)(''tags'' := c), tb_loose := (tb_loose X)(''tags'' \<mapsto> (tags, T))\<rparr>))"
    if "tb_registered X ''tags'' = None" for X f
    using that by (simp add: on_table_def Let_def)
  have counters: "(\<lambda>_. 1)(''tags'' := 3, ''memos'' := 1) = (\<lambda>_. 1 :: u64)(''tags'' := 3)" by (simp add: fun_eq_iff)
  show ?thesis
    by (simp add: sync_spec_def g upsert_spec_def upsert_keyed_spec_def reg loose demo_start_def demo_memos_rows demo_tags_row counter_kept
        found_rows_def demo_after_def demo_tags_def counters)
qed

theorem sync_batch_refines_witness:
  "\<exists>b b'. demo_holds empty_graph demo_start b \<and>
    db_sync_batch demo_codecs demo_env mem_ops b demo_batch =
      Ok (\<lparr>sr_node_ids = [1, 2], sr_edge_ids = [1], sr_relational_pks = [[IntV 1], [IntV 7], [IntV 2]]\<rparr>, b') \<and>
    demo_holds demo_synced demo_after b'"
proof -
  obtain b where b: "demo_holds empty_graph demo_start b" using memos_db by blast
  have "refines (sync_spec empty_graph demo_start demo_batch) (db_sync_batch demo_codecs demo_env mem_ops b demo_batch)
      (\<lambda>(r, g', X') (r', b'). r' = r \<and> mem_tables_ok (mb_tables b') \<and>
        db_holds (\<lambda>_. True) demo_codecs (env_codecs demo_env) g' X' (mem_snapshot_get (mb_tables b')))"
    by (rule sync_batch_refines [OF mem_mb.multi_backend_axioms]) (use b demo_sync_ok in \<open>simp_all add: demo_env_def\<close>)
  then show ?thesis using b by (auto simp: demo_sync_spec ok_with_iff demo_env_def)
qed

text \<open>The committed state, as the later witnesses read it.\<close>

lemma demo_synced_read:
  "\<exists>r :: mem_read_tx. graph_view (\<lambda>r. mem_tables_ok (mr_snapshot r)) (\<lambda>r. mem_snapshot_get (mr_snapshot r)) demo_codecs r demo_synced \<and>
    tables_repr demo_rel_codecs [''tags'' \<mapsto> (tags, demo_tags)] [''memos'' \<mapsto> (memos, demo_memos)] (mem_snapshot_get (mr_snapshot r))"
proof -
  obtain b where b: "demo_holds empty_graph demo_start b" using memos_db by blast
  have "refines (sync_spec empty_graph demo_start demo_batch) (db_sync_batch demo_codecs demo_env mem_ops b demo_batch)
      (\<lambda>(r, g', X') (r', b'). r' = r \<and> mem_tables_ok (mb_tables b') \<and>
        db_holds (\<lambda>_. True) demo_codecs (env_codecs demo_env) g' X' (mem_snapshot_get (mb_tables b')))"
    by (rule mem_mb.sync_batch_view) (use b demo_sync_ok in \<open>simp_all add: demo_env_def\<close>)
  then obtain b' :: mem_backend where "demo_holds demo_synced demo_after b'" by (auto simp: demo_sync_spec ok_with_iff demo_env_def)
  then show ?thesis by (intro exI [of _ "\<lparr>mr_snapshot = mb_tables b'\<rparr>"]) (simp add: graph_view_def db_holds_def db_state_def demo_after_def)
qed

section \<open>Joins\<close>

text \<open>C26: Joining nodes with the rows that reference them returns, for each node in order, its record and exactly the rows that hold
  its id in the column, each once, whether the column is indexed or the table has to be scanned; joining by primary key returns
  the row stored under the id. Both fail exactly when some id has no \<open>Int\<close> value.\<close>

theorem joins_exact:
  assumes "multi_read ops I ok view" "graph_view I view G r g" "table_repr C s T (view r)" "ts_column s column = Some c" "cs_kind c = KInt"
  shows "(if list_all fits_i64 nodes
      then \<exists>out. join_nodes_by_column G C ops r nodes s column = Ok out \<and>
        list_all2 (\<lambda>i x. jr_id x = i \<and> jr_node x = g_nodes g i \<and> distinct (jr_rows x) \<and>
          set (jr_rows x) = {x \<in> rows_in T. row_get x s column = Some (IntV i)}) nodes out
      else join_nodes_by_column G C ops r nodes s column = Err (Encoding ''NodeId does not fit in an Int column'')) \<and>
    (pk_kind_of s = KInt \<longrightarrow> join_nodes_with_table G C ops r nodes s =
      (if list_all fits_i64 nodes
       then Ok (map (\<lambda>i. \<lparr>jn_id = i, jn_node = g_nodes g i, jn_row = map_option (\<lambda>vs. \<lparr>row_pk = IntV i, row_values = vs\<rparr>) (T (IntV i))\<rparr>) nodes)
       else Err (Encoding ''NodeId does not fit in an Int column'')))"
proof -
  have T: "I r \<and> table_repr C s T (view r)" using assms(2,3) by (simp add: graph_view_def)
  show ?thesis
    using multi_read.join_nodes_by_column_view [OF assms(1,2) T assms(4,5), of nodes] multi_read.join_nodes_with_table_view [OF assms(1,2) T, of nodes]
    by blast
qed

theorem joins_exact_witness:
  "\<exists>r out. join_nodes_by_column demo_codecs demo_rel_codecs mem_read_ops r [2] memos ''node'' = Ok [out] \<and> jr_id out = 2 \<and>
    jr_node out = Some \<lparr>nr_label = ''P'', nr_properties = []\<rparr> \<and> row_pk ` set (jr_rows out) = {IntV 7, IntV 8}"
proof -
  obtain r :: mem_read_tx where r: "graph_view (\<lambda>r. mem_tables_ok (mr_snapshot r)) (\<lambda>r. mem_snapshot_get (mr_snapshot r)) demo_codecs r demo_synced"
      "tables_repr demo_rel_codecs [''tags'' \<mapsto> (tags, demo_tags)] [''memos'' \<mapsto> (memos, demo_memos)] (mem_snapshot_get (mr_snapshot r))" using demo_synced_read by blast
  have T: "table_repr demo_rel_codecs memos demo_memos (mem_snapshot_get (mr_snapshot r))" using registry_entry(2) [OF r(2)] by simp
  have c: "ts_column memos ''node'' = Some \<lparr>cs_name = ''node'', cs_kind = KInt, cs_nullable = True, cs_unique = False, cs_default = None\<rparr>"
    by (simp add: ts_column_def memos_def)
  have "{x \<in> rows_in demo_memos. row_get x memos ''node'' = Some (IntV 2)} =
      {\<lparr>row_pk = IntV 7, row_values = [(''node'', IntV 2)]\<rparr>, \<lparr>row_pk = IntV 8, row_values = [(''node'', IntV 2)]\<rparr>}"
    by (auto simp: demo_memos_def rows_in_def row_get_def row_eq_iff split: if_splits)
  then have rows: "row_pk ` {x \<in> rows_in demo_memos. row_get x memos ''node'' = Some (IntV 2)} = {IntV 7, IntV 8}" by simp
  have n: "g_nodes demo_synced 2 = Some \<lparr>nr_label = ''P'', nr_properties = []\<rparr>"
    by (simp add: demo_synced_def add_edge_def set_edge_def take_edge_ids_def add_node_def set_node_def take_node_ids_def mark_ready_def empty_graph_def)
  have fit: "list_all fits_i64 [2]" by (simp add: fits_i64_def)
  obtain out where out: "join_nodes_by_column demo_codecs demo_rel_codecs mem_read_ops r [2] memos ''node'' = Ok out"
      "list_all2 (\<lambda>i x. jr_id x = i \<and> jr_node x = g_nodes demo_synced i \<and> distinct (jr_rows x) \<and>
        set (jr_rows x) = {x \<in> rows_in demo_memos. row_get x memos ''node'' = Some (IntV i)}) [2] out"
    using joins_exact [OF mem_mr.multi_read_axioms r(1) T c, of "[2]"] fit by auto
  from out(2) obtain z where z: "out = [z]" "jr_id z = 2" "jr_node z = g_nodes demo_synced 2"
      "set (jr_rows z) = {x \<in> rows_in demo_memos. row_get x memos ''node'' = Some (IntV 2)}"
    by (auto simp: list_all2_Cons1)
  show ?thesis
    by (rule exI [of _ r], rule exI [of _ z]) (use out(1) z(1,2,3) n rows in \<open>simp add: z(4)\<close>)
qed

section \<open>Statistics\<close>

text \<open>The statistics count the nodes and the edges of the graph and, in the order of the table names, the rows of every registered
  table and of no other.\<close>

theorem stats_exact:
  assumes "multi_read ops I ok view" "graph_view I view G r g" "tables_repr C U D (view r)"
  shows "\<exists>tables. stats_in C ops r = Ok \<lparr>st_nodes = word_of_nat (card (dom (g_nodes g))), st_edges = word_of_nat (card (dom (g_edges g))), st_tables = tables\<rparr> \<and>
    sorted_wrt (<) (map (\<lambda>x. as_bytes (fst x)) tables) \<and> set tables = {(n, word_of_nat (card (dom T))) | n s T. D n = Some (s, T)}"
  by (rule multi_read.stats_view [OF assms]) blast

theorem stats_exact_witness:
  "\<exists>r. stats_in demo_rel_codecs mem_read_ops r = Ok \<lparr>st_nodes = 2, st_edges = 1, st_tables = [(''memos'', 2)]\<rparr>"
proof -
  obtain r :: mem_read_tx where r: "graph_view (\<lambda>r. mem_tables_ok (mr_snapshot r)) (\<lambda>r. mem_snapshot_get (mr_snapshot r)) demo_codecs r demo_synced"
      "tables_repr demo_rel_codecs [''tags'' \<mapsto> (tags, demo_tags)] [''memos'' \<mapsto> (memos, demo_memos)] (mem_snapshot_get (mr_snapshot r))" using demo_synced_read by blast
  have "card (dom (g_nodes demo_synced)) = 2" "card (dom (g_edges demo_synced)) = 1" "card (dom demo_memos) = 2"
    by (simp_all add: demo_memos_def demo_synced_def add_edge_def set_edge_def take_edge_ids_def add_node_def set_node_def take_node_ids_def mark_ready_def empty_graph_def)
  then obtain tables where t: "stats_in demo_rel_codecs mem_read_ops r = Ok \<lparr>st_nodes = 2, st_edges = 1, st_tables = tables\<rparr>"
      "sorted_wrt (<) (map (\<lambda>x. as_bytes (fst x)) tables)" "set tables = {(''memos'', 2)}"
    using stats_exact [OF mem_mr.multi_read_axioms r] by (auto split: if_splits)
  have "distinct (map (\<lambda>x. as_bytes (fst x)) tables)" using t(2) strict_sorted_iff by blast
  then have "distinct tables" by (simp add: distinct_map)
  then have "length tables = 1" using t(3) distinct_card [of tables] by simp
  then have "tables = [(''memos'', 2)]" using t(3) by (cases tables) auto
  then show ?thesis using t(1) by blast
qed

end
