(* ===== verification/Lang_Time.thy ===== *)
theory Lang_Time
  imports Rel_Expr "HOL-Library.Signed_Division"
begin

text \<open>
  Timestamp and UUID literals (\<open>bkndb-core/src/lang/time.rs\<close>) and the string functions of the standard library they use. Slicing a
  string inside a multi-byte character panics in Rust; \<open>str_slice\<close> has that outcome. The calendar arithmetic is on \<open>i64\<close> and wraps.
\<close>

section \<open>Characters of a string\<close>

definition byte_of :: "char \<Rightarrow> nat" where
  "byte_of c = of_char c"

text \<open>A string as the list of its characters, each with its UTF-8 bytes; \<open>code_point\<close> decodes one of them.\<close>

fun char_strs :: "string \<Rightarrow> string list" where
  "char_strs [] = []"
| "char_strs (a # r) =
    (let n = (if byte_of a < 0x80 then 0 else if byte_of a < 0xE0 then 1 else if byte_of a < 0xF0 then 2 else 3)
     in (a # take n r) # char_strs (drop n r))"

definition code_point :: "string \<Rightarrow> nat" where
  "code_point c = (case chars c of x # _ \<Rightarrow> x | [] \<Rightarrow> 0)"

text \<open>\<open>char::is_whitespace\<close>: the characters with the Unicode property \<open>White_Space\<close>.\<close>

definition is_whitespace :: "nat \<Rightarrow> bool" where
  "is_whitespace c \<longleftrightarrow> 9 \<le> c \<and> c \<le> 13 \<or> c = 0x20 \<or> c = 0x85 \<or> c = 0xA0 \<or> c = 0x1680 \<or> 0x2000 \<le> c \<and> c \<le> 0x200A \<or>
    c \<in> {0x2028, 0x2029, 0x202F, 0x205F, 0x3000}"

definition str_trim :: "string \<Rightarrow> string" where
  "str_trim s =
    (let ws = (\<lambda>c. is_whitespace (code_point c))
     in concat (rev (dropWhile ws (rev (dropWhile ws (char_strs s))))))"

definition is_char_boundary :: "string \<Rightarrow> nat \<Rightarrow> bool" where
  "is_char_boundary s i \<longleftrightarrow> i = 0 \<or> i = length s \<or> (i < length s \<and> \<not> (0x80 \<le> byte_of (s ! i) \<and> byte_of (s ! i) < 0xC0))"

definition str_slice :: "string \<Rightarrow> nat \<Rightarrow> nat \<Rightarrow> string res" where
  "str_slice s a b =
    (if a \<le> b \<and> b \<le> length s \<and> is_char_boundary s a \<and> is_char_boundary s b then Ok (take (b - a) (drop a s)) else Panic)"

definition str_split_at :: "string \<Rightarrow> nat \<Rightarrow> (string \<times> string) res" where
  "str_split_at s i = (if i \<le> length s \<and> is_char_boundary s i then Ok (take i s, drop i s) else Panic)"

definition strip_prefix :: "char \<Rightarrow> string \<Rightarrow> string option" where
  "strip_prefix c s = (case s of x # r \<Rightarrow> if x = c then Some r else None | [] \<Rightarrow> None)"

definition strip_suffix :: "char \<Rightarrow> string \<Rightarrow> string option" where
  "strip_suffix c s = (if s \<noteq> [] \<and> last s = c then Some (butlast s) else None)"

definition or_else :: "'a option \<Rightarrow> 'a option \<Rightarrow> 'a option" where
  "or_else a b = (case a of Some x \<Rightarrow> Some x | None \<Rightarrow> b)"

text \<open>\<open>rfind\<close> with a set of characters, then \<open>split_at\<close> there.\<close>

definition rsplit_at :: "char set \<Rightarrow> string \<Rightarrow> (string \<times> string) option" where
  "rsplit_at cs s =
    (if \<exists>c\<in>set s. c \<in> cs
     then let off = rev (takeWhile (\<lambda>c. c \<notin> cs) (rev s)); i = length s - length off - 1 in Some (take i s, drop i s)
     else None)"

section \<open>Numbers\<close>

definition is_ascii_digit :: "char \<Rightarrow> bool" where
  "is_ascii_digit c \<longleftrightarrow> CHR ''0'' \<le> c \<and> c \<le> CHR ''9''"

definition digit_val :: "char \<Rightarrow> nat" where
  "digit_val c = byte_of c - 48"

definition dec_val :: "string \<Rightarrow> nat" where
  "dec_val s = foldl (\<lambda>n c. 10 * n + digit_val c) 0 s"

text \<open>\<open>str::parse::<i64>\<close> on a string of digits.\<close>

definition parse_i64 :: "string \<Rightarrow> i64 option" where
  "parse_i64 s = (if dec_val s < 2 ^ 63 then Some (word_of_nat (dec_val s)) else None)"

definition num :: "string \<Rightarrow> i64 option" where
  "num s = (if s \<noteq> [] \<and> list_all is_ascii_digit s then parse_i64 s else None)"

definition i64_div :: "i64 \<Rightarrow> i64 \<Rightarrow> i64" where
  "i64_div a b = word_of_int (sint a sdiv sint b)"

definition i64_rem :: "i64 \<Rightarrow> i64 \<Rightarrow> i64" where
  "i64_rem a b = word_of_int (sint a smod sint b)"

definition i64_checked_sub :: "i64 \<Rightarrow> i64 \<Rightarrow> i64 option" where
  "i64_checked_sub a b = (let d = sint a - sint b in if - (2 ^ 63) \<le> d \<and> d < 2 ^ 63 then Some (a - b) else None)"

section \<open>The calendar\<close>

definition days_from_civil :: "i64 \<Rightarrow> i64 \<Rightarrow> i64 \<Rightarrow> i64" where
  "days_from_civil y m d =
    (let y = (if sint m \<le> 2 then y - 1 else y);
         era = i64_div (if 0 \<le> sint y then y else y - 399) 400;
         yoe = y - era * 400;
         mp = i64_rem (m + 9) 12;
         doy = i64_div (153 * mp + 2) 5 + d - 1;
         doe = yoe * 365 + i64_div yoe 4 - i64_div yoe 100 + doy
     in era * 146097 + doe - 719468)"

definition days_in_month :: "i64 \<Rightarrow> i64 \<Rightarrow> i64" where
  "days_in_month y m =
    (if m \<in> {1, 3, 5, 7, 8, 10, 12} then 31
     else if m \<in> {4, 6, 9, 11} then 30
     else if i64_rem y 4 = 0 \<and> i64_rem y 100 \<noteq> 0 \<or> i64_rem y 400 = 0 then 29
     else 28)"

section \<open>Timestamps\<close>

definition parse_date :: "string \<Rightarrow> (i64 \<times> i64 \<times> i64) option" where
  "parse_date date = (case split_at CHR ''-'' date of
      [a, b, c] \<Rightarrow>
        Option.bind (num a) (\<lambda>y. Option.bind (num b) (\<lambda>m. Option.bind (num c) (\<lambda>d.
          if length date \<noteq> 10 \<or> \<not> (1 \<le> sint m \<and> sint m \<le> 12) \<or> sint d < 1 \<or> sint (days_in_month y m) < sint d
          then None else Some (y, m, d))))
    | _ \<Rightarrow> None)"

definition parse_offset :: "string \<Rightarrow> (string \<times> i64) option" where
  "parse_offset rest = (case or_else (strip_suffix CHR ''Z'' rest) (strip_suffix CHR ''z'' rest) of
      Some c \<Rightarrow> Some (c, 0)
    | None \<Rightarrow> (case rsplit_at {CHR ''+'', CHR ''-''} rest of
        Some (c, off) \<Rightarrow>
          Option.bind (split_once CHR '':'' (tl off)) (\<lambda>(oh, om).
          Option.bind (num oh) (\<lambda>oh. Option.bind (num om) (\<lambda>om.
            if 23 < sint oh \<or> 59 < sint om then None
            else Some (c, (if hd off = CHR ''-'' then - 1 else 1) * (oh * 3600 + om * 60) * 1000000))))
      | None \<Rightarrow> Some (rest, 0)))"

definition parse_seconds :: "string \<Rightarrow> (i64 \<times> string) option" where
  "parse_seconds sf = (case split_once CHR ''.'' sf of
      Some (s, f) \<Rightarrow> map_option (\<lambda>n. (n, f)) (num s)
    | None \<Rightarrow> map_option (\<lambda>n. (n, [])) (num sf))"

definition frac_micros :: "string \<Rightarrow> i64 option" where
  "frac_micros frac =
    (if frac = [] then Some 0
     else Option.bind (num frac) (\<lambda>_. parse_i64 (take 6 (frac @ replicate 6 CHR ''0''))))"

definition parse_clock :: "string \<Rightarrow> i64 option" where
  "parse_clock clock = (case split_at CHR '':'' clock of
      h # mi # more_parts \<Rightarrow>
        Option.bind (num h) (\<lambda>h. Option.bind (num mi) (\<lambda>mi.
        Option.bind (case more_parts of [] \<Rightarrow> Some (0, []) | sf # _ \<Rightarrow> parse_seconds sf) (\<lambda>(sec, frac).
          if 1 < length more_parts \<or> 23 < sint h \<or> 59 < sint mi \<or> 59 < sint sec then None
          else map_option (\<lambda>f. ((h * 60 + mi) * 60 + sec) * 1000000 + f) (frac_micros frac))))
    | _ \<Rightarrow> None)"

definition parse_timestamp :: "string \<Rightarrow> i64 option res" where
  "parse_timestamp text =
    (let s = str_trim text in
     bind_res (if 10 < length s then str_split_at s 10 else Ok (s, [])) (\<lambda>(date, rest).
     Ok (Option.bind (parse_date date) (\<lambda>(y, m, d).
       let micros = days_from_civil y m d * 86400000000 in
       if rest = [] then Some micros
       else
         Option.bind (or_else (strip_prefix CHR ''T'' rest) (or_else (strip_prefix CHR ''t'' rest) (strip_prefix CHR '' '' rest))) (\<lambda>rest.
         Option.bind (parse_offset rest) (\<lambda>(clock, offset).
         Option.bind (parse_clock clock) (\<lambda>t.
         i64_checked_sub (micros + t) offset)))))))"

section \<open>UUIDs\<close>

definition hex_digit :: "char \<Rightarrow> nat option" where
  "hex_digit c =
    (let b = byte_of c in
     if 48 \<le> b \<and> b \<le> 57 then Some (b - 48)
     else if 97 \<le> b \<and> b \<le> 102 then Some (b - 87)
     else if 65 \<le> b \<and> b \<le> 70 then Some (b - 55)
     else None)"

text \<open>\<open>u8::from_str_radix(s, 16)\<close> on a string of two bytes: a leading plus sign is accepted.\<close>

definition hex_byte :: "string \<Rightarrow> byte option" where
  "hex_byte s = (case s of
      [a, b] \<Rightarrow>
        if a = CHR ''+'' then map_option word_of_nat (hex_digit b)
        else Option.bind (hex_digit a) (\<lambda>x. Option.bind (hex_digit b) (\<lambda>y. Some (word_of_nat (16 * x + y))))
    | _ \<Rightarrow> None)"

text \<open>The bytes of a string of hex digit pairs: stops at the first pair that is not one, or panics inside a character.\<close>

fun hex_pairs :: "string \<Rightarrow> nat list \<Rightarrow> bytes option res" where
  "hex_pairs s [] = Ok (Some [])"
| "hex_pairs s (i # is) =
    bind_res (str_slice s i (i + 2)) (\<lambda>p. case hex_byte p of
        None \<Rightarrow> Ok None
      | Some b \<Rightarrow> bind_res (hex_pairs s is) (\<lambda>r. Ok (map_option (\<lambda>bs. b # bs) r)))"

definition parse_uuid :: "string \<Rightarrow> bytes option res" where
  "parse_uuid text =
    (let hex = filter (\<lambda>c. c \<noteq> CHR ''-'') (rev (dropWhile (\<lambda>c. c = CHR ''}'') (rev (dropWhile (\<lambda>c. c = CHR ''{'') (str_trim text))))) in
     if length hex \<noteq> 32 then Ok None else hex_pairs hex (map (\<lambda>i. 2 * i) [0..<16]))"

end
