(* ===== verification/Lang_Time_Correct.thy ===== *)
theory Lang_Time_Correct
  imports Lang_Time
begin

text \<open>
  The calendar arithmetic of timestamp literals counts days: \<open>days_from_civil\<close> agrees with adding up the lengths of the years
  and months, and a date with a four-digit year gives a timestamp in the range of \<open>i64\<close>.
\<close>

section \<open>Signed arithmetic without overflow\<close>

lemma sint_small_int: "- (2 ^ 63) \<le> i \<Longrightarrow> i < 2 ^ 63 \<Longrightarrow> sint (word_of_int i :: i64) = i"
  by (simp add: signed_of_int signed_take_bit_int_eq_self)

lemma i64_div_int:
  assumes "- (2 ^ 63) \<le> a" "a < 2 ^ 63" "0 < b" "b < 2 ^ 63"
  shows "i64_div (word_of_int a) (word_of_int b) = word_of_int (a sdiv b)" "i64_rem (word_of_int a) (word_of_int b) = word_of_int (a smod b)"
  using assms sint_small_int [of a] sint_small_int [of b] by (simp_all add: i64_div_def i64_rem_def)

lemma sdiv_nonneg: "0 \<le> a \<Longrightarrow> 0 < b \<Longrightarrow> a sdiv b = a div b" "0 \<le> a \<Longrightarrow> 0 < b \<Longrightarrow> a smod b = a mod (b :: int)"
  by (simp_all add: signed_divide_int_def signed_modulo_int_def minus_div_mult_eq_mod [symmetric] sgn_if)

section \<open>Counting days\<close>

definition leap :: "int \<Rightarrow> bool" where
  "leap y \<longleftrightarrow> y mod 4 = 0 \<and> y mod 100 \<noteq> 0 \<or> y mod 400 = 0"

definition month_days :: "int \<Rightarrow> nat \<Rightarrow> int" where
  "month_days y m = (if m \<in> {4, 6, 9, 11} then 30 else if m \<noteq> 2 then 31 else if leap y then 29 else 28)"

text \<open>Days since 1970-01-01, counted: the years since year 0, the months of the year, the day of the month.\<close>

definition day_number :: "nat \<Rightarrow> nat \<Rightarrow> nat \<Rightarrow> int" where
  "day_number y m d = (\<Sum>i<y. if leap (int i) then 366 else 365) + (\<Sum>k=1..<m. month_days (int y) k) + int d - 1 - 719528"

definition year_start :: "int \<Rightarrow> int" where
  "year_start y = 365 * y + y div 4 - y div 100 + y div 400"

lemma div_next:
  assumes "0 < (n :: int)"
  shows "(y + 1) div n = y div n + (if n dvd y + 1 then 1 else 0)"
proof -
  let ?q = "y div n" and ?r = "y mod n"
  have y: "y + 1 = n * ?q + (?r + 1)" by simp
  show ?thesis
  proof (cases "?r + 1 = n")
    case True
    then have "y + 1 = n * (?q + 1)" using y by (simp add: algebra_simps)
    then show ?thesis using assms by (metis dvd_triv_left less_irrefl nonzero_mult_div_cancel_left)
  next
    case False
    then have r: "0 \<le> ?r + 1" "?r + 1 < n" using assms pos_mod_bound [of n y] pos_mod_sign [of n y] by linarith+
    then have "(y + 1) div n = ?q" "(y + 1) mod n = ?r + 1" using int_div_pos_eq [OF y r] int_mod_pos_eq [OF y r] by simp_all
    moreover have "?r + 1 \<noteq> 0" using pos_mod_sign [OF assms, of y] by linarith
    ultimately show ?thesis by (simp add: dvd_eq_mod_eq_0)
  qed
qed

lemma dvd_chain: "100 dvd y \<Longrightarrow> 4 dvd (y :: int)" "400 dvd y \<Longrightarrow> 100 dvd (y :: int)"
  by (rule dvd_trans [of 4 100]; simp) (rule dvd_trans [of 100 400]; simp)

lemma year_start_Suc: "year_start (y + 1) = year_start y + (if leap (y + 1) then 366 else 365)"
proof -
  have s: "year_start (y + 1) = year_start y + 365 + (if 4 dvd y + 1 then 1 else 0) - (if 100 dvd y + 1 then 1 else 0) + (if 400 dvd y + 1 then 1 else 0)"
    unfolding year_start_def div_next [of 4 y, simplified] div_next [of 100 y, simplified] div_next [of 400 y, simplified] by simp
  have l: "leap (y + 1) \<longleftrightarrow> 4 dvd y + 1 \<and> \<not> 100 dvd y + 1 \<or> 400 dvd y + 1" unfolding leap_def dvd_eq_mod_eq_0 by (rule refl)
  show ?thesis
    unfolding s l using dvd_chain [of "y + 1"]
    by (cases "400 dvd y + 1"; cases "100 dvd y + 1"; cases "4 dvd y + 1") (simp_all only: simp_thms if_True if_False True_implies_equals)
qed

lemma years_sum: "(\<Sum>i<n. if leap (int i) then 366 else 365 :: int) = year_start (int n - 1) + 366"
proof (induction n)
  case 0
  show ?case by (simp add: year_start_def)
next
  case (Suc n)
  have "year_start (int n) = year_start (int n - 1) + (if leap (int n) then 366 else 365)" using year_start_Suc [of "int n - 1"] by simp
  then show ?case using Suc by simp
qed

lemma era_sum: "(y div 400) * 146097 + ((y - y div 400 * 400) * 365 + (y - y div 400 * 400) div 4 - (y - y div 400 * 400) div 100) = year_start y"
proof -
  define e r where "e = y div 400" and "r = y mod 400"
  have y: "y = 400 * e + r" and r: "0 \<le> r" "r < 400" by (simp_all add: e_def r_def)
  have "y - y div 400 * 400 = r" by (simp add: r_def minus_div_mult_eq_mod)
  moreover have "y div 4 = 100 * e + r div 4" "y div 100 = 4 * e + r div 100"
    using div_mult_self1 [of 4 r "100 * e"] div_mult_self1 [of 100 r "4 * e"] by (simp_all add: y)
  ultimately show ?thesis unfolding year_start_def e_def [symmetric] by (simp add: y)
qed

lemma months_sum:
  assumes "1 \<le> m" "m \<le> 12"
  shows "(\<Sum>k=1..<m. month_days y k) =
    (if m \<le> 2 then 31 * (int m - 1) else (153 * (int m - 3) + 2) div 5 + (if leap y then 60 else 59))"
proof -
  have "m = 1 \<or> m = 2 \<or> m = 3 \<or> m = 4 \<or> m = 5 \<or> m = 6 \<or> m = 7 \<or> m = 8 \<or> m = 9 \<or> m = 10 \<or> m = 11 \<or> m = 12" using assms by arith
  then show ?thesis by (elim disjE; simp add: month_days_def atLeastLessThan_nat_numeral)
qed

section \<open>The algorithm counts days\<close>

lemma era_int:
  assumes "- 1 \<le> Y" "Y \<le> 999999"
  shows "i64_div (if 0 \<le> sint (word_of_int Y :: i64) then word_of_int Y else word_of_int Y - 399) 400 = word_of_int (Y div 400)"
proof (cases "Y = - 1")
  case True
  have "i64_div (word_of_int (- 400)) (word_of_int 400) = word_of_int (- 400 sdiv 400)" by (rule i64_div_int) simp_all
  then show ?thesis using True by (simp add: signed_divide_int_def)
next
  case False
  then have Y: "0 \<le> Y" using assms by simp
  have "i64_div (word_of_int Y) (word_of_int 400) = word_of_int (Y sdiv 400)" by (rule i64_div_int) (use assms in simp_all)
  then show ?thesis using Y assms by (simp add: sint_small_int sdiv_nonneg)
qed

lemma i64_div_numeral:
  "0 \<le> a \<Longrightarrow> a < 9223372036854775808 \<Longrightarrow> numeral n < (9223372036854775808 :: int) \<Longrightarrow> i64_div (word_of_int a) (numeral n) = word_of_int (a div numeral n)"
  "0 \<le> a \<Longrightarrow> a < 9223372036854775808 \<Longrightarrow> numeral n < (9223372036854775808 :: int) \<Longrightarrow> i64_rem (word_of_int a) (numeral n) = word_of_int (a mod numeral n)"
  using i64_div_int [of a "numeral n"] by (simp_all add: sdiv_nonneg)

lemma year_of_era: "0 \<le> y - y div 400 * 400" "y - y div 400 * 400 < (400 :: int)"
  by (simp_all add: minus_div_mult_eq_mod)

lemma civil_int:
  assumes y: "- 1 \<le> Y" "Y \<le> 999999" and m: "1 \<le> M" "M \<le> 12" and Y: "Y = (if M \<le> 2 then y - 1 else y)"
  shows "days_from_civil (word_of_int y) (word_of_int M) (word_of_int D) = word_of_int (year_start Y + (153 * ((M + 9) mod 12) + 2) div 5 + D - 1 - 719468)"
proof -
  let ?y = "Y - Y div 400 * 400" and ?mp = "(M + 9) mod 12"
  have yw: "(if sint (word_of_int M :: i64) \<le> 2 then word_of_int y - 1 else word_of_int y) = (word_of_int Y :: i64)"
    using m by (simp add: Y sint_small_int)
  have era: "word_of_int Y - word_of_int (Y div 400) * 400 = (word_of_int ?y :: i64)" by simp
  have y4: "i64_div (word_of_int ?y) 4 = word_of_int (?y div 4)" by (rule i64_div_numeral; use year_of_era [of Y] in linarith)
  have y100: "i64_div (word_of_int ?y) 100 = word_of_int (?y div 100)" by (rule i64_div_numeral; use year_of_era [of Y] in linarith)
  have "i64_rem (word_of_int (M + 9)) 12 = word_of_int ?mp" by (rule i64_div_numeral; use m in linarith)
  then have mp: "i64_rem (word_of_int M + 9) 12 = word_of_int ?mp" by simp
  have "i64_div (word_of_int (153 * ?mp + 2)) 5 = word_of_int ((153 * ?mp + 2) div 5)"
    by (rule i64_div_numeral; use pos_mod_sign [of 12 "M + 9"] pos_mod_bound [of 12 "M + 9"] in linarith)
  then have doy: "i64_div (153 * word_of_int ?mp + 2) 5 = word_of_int ((153 * ?mp + 2) div 5)" by simp
  show ?thesis
    unfolding days_from_civil_def Let_def yw era_int [OF y] era y4 y100 mp doy era_sum [symmetric]
    by (simp add: algebra_simps)
qed

lemma month_offset:
  assumes "1 \<le> M" "M \<le> (12 :: int)"
  shows "(153 * ((M + 9) mod 12) + 2) div 5 = (if M \<le> 2 then 306 + 31 * (M - 1) else (153 * (M - 3) + 2) div 5)"
proof -
  have "M = 1 \<or> M = 2 \<or> M = 3 \<or> M = 4 \<or> M = 5 \<or> M = 6 \<or> M = 7 \<or> M = 8 \<or> M = 9 \<or> M = 10 \<or> M = 11 \<or> M = 12" using assms by arith
  then show ?thesis by (elim disjE; simp)
qed

lemma days_int:
  assumes y: "y \<le> 999999" and m: "1 \<le> m" "m \<le> 12"
  shows "days_from_civil (word_of_nat y) (word_of_nat m) (word_of_nat d) = word_of_int (day_number y m d)"
proof -
  let ?Y = "if int m \<le> 2 then int y - 1 else int y"
  have "days_from_civil (word_of_int (int y)) (word_of_int (int m)) (word_of_int (int d))
    = word_of_int (year_start ?Y + (153 * ((int m + 9) mod 12) + 2) div 5 + int d - 1 - 719468)"
    by (rule civil_int; use y m in simp)
  moreover have "year_start ?Y + (153 * ((int m + 9) mod 12) + 2) div 5 + int d - 1 - 719468 = day_number y m d"
  proof -
    have "year_start (int y) = year_start (int y - 1) + (if leap (int y) then 366 else 365)" using year_start_Suc [of "int y - 1"] by simp
    then show ?thesis
      unfolding day_number_def years_sum months_sum [OF m] using m by (subst month_offset) auto
  qed
  ultimately show ?thesis by (simp only: of_int_of_nat_eq)
qed

lemma days_in_month_int:
  assumes y: "y \<le> 999999" and m: "1 \<le> m" "m \<le> 12"
  shows "days_in_month (word_of_nat y) (word_of_nat m) = word_of_int (month_days (int y) m)"
proof -
  have r: "i64_rem (word_of_nat y) (word_of_int k) = 0 \<longleftrightarrow> int y mod k = 0" if "0 < k" "k \<le> 400" for k
  proof -
    have "i64_rem (word_of_int (int y)) (word_of_int k) = word_of_int (int y smod k)" by (rule i64_div_int) (use y that in simp_all)
    then have "i64_rem (word_of_nat y) (word_of_int k) = word_of_int (int y mod k)" using that by (simp add: sdiv_nonneg)
    moreover have "0 \<le> int y mod k" "int y mod k < 400"
      using pos_mod_sign [of k "int y"] pos_mod_bound [of k "int y"] that by linarith+
    then have "sint (word_of_int (int y mod k) :: i64) = int y mod k" by (intro sint_small_int) simp_all
    ultimately show ?thesis by (metis signed_0 of_int_0)
  qed
  note r = r [of 4, simplified] r [of 100, simplified] r [of 400, simplified]
  have "m = 1 \<or> m = 2 \<or> m = 3 \<or> m = 4 \<or> m = 5 \<or> m = 6 \<or> m = 7 \<or> m = 8 \<or> m = 9 \<or> m = 10 \<or> m = 11 \<or> m = 12" using m by arith
  then show ?thesis by (elim disjE; simp add: days_in_month_def month_days_def leap_def dvd_eq_mod_eq_0 r)
qed

section \<open>Printed timestamps\<close>

definition digit_char :: "nat \<Rightarrow> char" where
  "digit_char n = char_of (48 + n mod 10)"

text \<open>The last \<open>k\<close> decimal digits of a number.\<close>

primrec pad :: "nat \<Rightarrow> nat \<Rightarrow> string" where
  "pad 0 n = []"
| "pad (Suc k) n = pad k (n div 10) @ [digit_char n]"

lemma byte_of_digit: "byte_of (digit_char n) = 48 + n mod 10"
proof -
  have "48 + n mod 10 < 256" using mod_less_divisor [of 10 n] by linarith
  then show ?thesis by (simp add: byte_of_def digit_char_def)
qed

lemma pad_props: "length (pad k n) = k" "list_all (\<lambda>c. 48 \<le> byte_of c \<and> byte_of c < 58) (pad k n)"
  by (induction k arbitrary: n) (auto simp: byte_of_digit)

lemma is_ascii_digit_byte: "is_ascii_digit c \<longleftrightarrow> 48 \<le> byte_of c \<and> byte_of c < 58"
  unfolding is_ascii_digit_def byte_of_def less_eq_char_def by simp arith

lemma dec_val_snoc: "dec_val (s @ [c]) = 10 * dec_val s + digit_val c"
  by (simp add: dec_val_def)

lemma dec_val_pad: "n < 10 ^ k \<Longrightarrow> dec_val (pad k n) = n"
  by (induction k arbitrary: n) (simp_all add: dec_val_snoc digit_val_def byte_of_digit dec_val_def less_mult_imp_div_less mult.commute)

lemma num_pad:
  assumes "n < 10 ^ k" "0 < k" "k \<le> 18"
  shows "num (pad k n) = Some (word_of_nat n)" "parse_i64 (pad k n) = Some (word_of_nat n)"
proof -
  have "(10::nat) ^ k \<le> 10 ^ 18" using assms(3) by (rule power_increasing) simp
  then have n: "n < 2 ^ 63" using assms(1) by simp
  show p: "parse_i64 (pad k n) = Some (word_of_nat n)" using n assms(1) by (simp add: parse_i64_def dec_val_pad)
  have "list_all is_ascii_digit (pad k n)" using pad_props(2) [of k n] by (simp add: is_ascii_digit_byte [abs_def])
  moreover have "pad k n \<noteq> []" using assms(2) pad_props(1) [of k n] by auto
  ultimately show "num (pad k n) = Some (word_of_nat n)" using p by (simp add: num_def)
qed

definition date_text :: "nat \<Rightarrow> nat \<Rightarrow> nat \<Rightarrow> string" where
  "date_text y m d = pad 4 y @ ''-'' @ pad 2 m @ ''-'' @ pad 2 d"

definition clock_text :: "nat \<Rightarrow> nat \<Rightarrow> nat \<Rightarrow> nat \<Rightarrow> string" where
  "clock_text h mi sec u = pad 2 h @ '':'' @ pad 2 mi @ '':'' @ pad 2 sec @ ''.'' @ pad 6 u"

text \<open>The offset from UTC: \<open>Z\<close>, or a sign with hours and minutes.\<close>

fun offset_text :: "(bool \<times> nat \<times> nat) option \<Rightarrow> string" where
  "offset_text None = ''Z''"
| "offset_text (Some (neg, oh, om)) = (if neg then CHR ''-'' else CHR ''+'') # pad 2 oh @ '':'' @ pad 2 om"

fun offset_micros :: "(bool \<times> nat \<times> nat) option \<Rightarrow> int" where
  "offset_micros None = 0"
| "offset_micros (Some (neg, oh, om)) = (if neg then - 1 else 1) * (int oh * 3600 + int om * 60) * 1000000"

fun offset_valid :: "(bool \<times> nat \<times> nat) option \<Rightarrow> bool" where
  "offset_valid None = True"
| "offset_valid (Some (neg, oh, om)) = (oh \<le> 23 \<and> om \<le> 59)"

definition date_valid :: "nat \<Rightarrow> nat \<Rightarrow> nat \<Rightarrow> bool" where
  "date_valid y m d \<longleftrightarrow> 1 \<le> m \<and> m \<le> 12 \<and> 1 \<le> d \<and> int d \<le> month_days (int y) m"

lemma sint_small_nat: "n < 10000000 \<Longrightarrow> sint (word_of_nat n :: i64) = int n"
  using sint_small_int [of "int n"] by simp

lemma pad_digits: "\<not> is_ascii_digit c \<Longrightarrow> c \<notin> set (pad k n)"
  using pad_props(2) [of k n] by (auto simp: is_ascii_digit_byte list_all_iff)

lemma split_at_none: "c \<notin> set s \<Longrightarrow> split_at c s = [s]"
  by (induction s) auto

lemma split_at_append: "c \<notin> set s \<Longrightarrow> split_at c (s @ c # r) = s # split_at c r"
  by (induction s) auto

lemma split_once_append: "c \<notin> set s \<Longrightarrow> split_once c (s @ c # r) = Some (s, r)"
  by (simp add: split_once_def takeWhile_append dropWhile_append)

lemma parse_date_text:
  assumes "y < 10000" "m < 100" "d < 100"
  shows "parse_date (date_text y m d) = (if date_valid y m d then Some (word_of_nat y, word_of_nat m, word_of_nat d) else None)"
proof -
  have n: "CHR ''-'' \<notin> set (pad k n)" for k n by (rule pad_digits) (simp add: is_ascii_digit_def)
  have sp: "split_at CHR ''-'' (date_text y m d) = [pad 4 y, pad 2 m, pad 2 d]"
    using n by (simp add: date_text_def split_at_append split_at_none)
  have l: "length (date_text y m d) = 10" by (simp add: date_text_def pad_props)
  have nums: "num (pad 4 y) = Some (word_of_nat y)" "num (pad 2 m) = Some (word_of_nat m)" "num (pad 2 d) = Some (word_of_nat d)"
    using assms by (simp_all add: num_pad)
  have dm: "sint (days_in_month (word_of_nat y) (word_of_nat m)) = month_days (int y) m" if "1 \<le> m" "m \<le> 12"
    using that assms by (simp add: days_in_month_int sint_small_int month_days_def)
  show ?thesis
    unfolding parse_date_def sp using assms
    by (auto simp: nums l sint_small_nat date_valid_def dm)
qed

lemma clock_chars: "CHR '':'' \<notin> set (pad k n)" "CHR ''.'' \<notin> set (pad k n)" "CHR ''Z'' \<notin> set (pad k n)" "CHR ''z'' \<notin> set (pad k n)"
    "CHR ''+'' \<notin> set (pad k n)" "CHR ''-'' \<notin> set (pad k n)"
  by (rule pad_digits; simp add: is_ascii_digit_def)+

lemma parse_clock_text:
  assumes "h < 100" "mi < 100" "sec < 100" "u < 1000000"
  shows "parse_clock (clock_text h mi sec u) =
    (if h \<le> 23 \<and> mi \<le> 59 \<and> sec \<le> 59 then Some (word_of_int (((int h * 60 + int mi) * 60 + int sec) * 1000000 + int u)) else None)"
proof -
  have sp: "split_at CHR '':'' (clock_text h mi sec u) = [pad 2 h, pad 2 mi, pad 2 sec @ ''.'' @ pad 6 u]"
    by (simp add: clock_text_def clock_chars split_at_append split_at_none)
  have "parse_seconds (pad 2 sec @ ''.'' @ pad 6 u) = Some (word_of_nat sec, pad 6 u)"
    using assms by (simp add: parse_seconds_def split_once_append clock_chars num_pad)
  moreover have "frac_micros (pad 6 u) = Some (word_of_nat u)"
    using assms pad_props(1) [of 6 u] by (auto simp: frac_micros_def num_pad)
  ultimately show ?thesis
    unfolding parse_clock_def sp using assms by (auto simp: num_pad sint_small_nat algebra_simps)
qed

lemma parse_offset_text:
  assumes o: "case off of None \<Rightarrow> True | Some (neg, oh, om) \<Rightarrow> oh < 100 \<and> om < 100"
  shows "parse_offset (clock_text h mi sec u @ offset_text off) =
    (if offset_valid off then Some (clock_text h mi sec u, word_of_int (offset_micros off)) else None)"
proof (cases off)
  case None
  then show ?thesis by (simp add: parse_offset_def strip_suffix_def or_else_def)
next
  case (Some t)
  obtain neg oh om where t: "t = (neg, oh, om)" by (cases t)
  let ?c = "clock_text h mi sec u" and ?o = "pad 2 oh @ '':'' @ pad 2 om" and ?sg = "if neg then CHR ''-'' else CHR ''+''"
  have last: "last (?c @ offset_text off) \<in> set (pad 2 om)" using pad_props(1) [of 2 om] by (auto simp: Some t last_append)
  then have ns: "or_else (strip_suffix CHR ''Z'' (?c @ offset_text off)) (strip_suffix CHR ''z'' (?c @ offset_text off)) = None"
    using clock_chars by (auto simp: strip_suffix_def or_else_def)
  have o_none: "\<forall>x\<in>set ?o. x \<notin> {CHR ''+'', CHR ''-''}" using clock_chars by auto
  have "takeWhile (\<lambda>x. x \<notin> {CHR ''+'', CHR ''-''}) (rev ?o @ ?sg # rev ?c) = rev ?o"
    using o_none by (intro takeWhile_tail [THEN trans] ) auto
  then have rs: "rsplit_at {CHR ''+'', CHR ''-''} (?c @ offset_text off) = Some (?c, offset_text off)"
    by (auto simp: rsplit_at_def Some t Let_def)
  have "num (pad 2 oh) = Some (word_of_nat oh)" "num (pad 2 om) = Some (word_of_nat om)" using o by (simp_all add: Some t num_pad)
  then show ?thesis
    unfolding parse_offset_def ns rs using o
    by (auto simp: Some t split_once_append clock_chars sint_small_nat algebra_simps)
qed

section \<open>Trimming\<close>

definition visible :: "char \<Rightarrow> bool" where
  "visible c \<longleftrightarrow> 0x20 < byte_of c \<and> byte_of c < 0x80"

lemma char_strs_ascii: "list_all (\<lambda>c. byte_of c < 0x80) s \<Longrightarrow> char_strs s = map (\<lambda>c. [c]) s"
  by (induction s) auto

lemma str_trim_visible:
  assumes "list_all visible s"
  shows "str_trim s = s"
proof -
  have a: "list_all (\<lambda>c. byte_of c < 0x80) s" using assms by (auto simp: list_all_iff visible_def)
  have w: "\<not> is_whitespace (code_point [c])" if "c \<in> set s" for c
  proof -
    have v: "visible c" using assms that by (simp add: list_all_iff)
    then have "unat (word_of_nat (byte_of c) :: byte) = byte_of c" by (simp add: visible_def unat_of_nat take_bit_nat_eq_self)
    then have "code_point [c] = byte_of c" using v by (simp add: code_point_def chars_def as_bytes_def visible_def byte_of_def)
    then show ?thesis using v by (simp add: is_whitespace_def visible_def)
  qed
  have "dropWhile (\<lambda>c. is_whitespace (code_point c)) (map (\<lambda>c. [c]) l) = map (\<lambda>c. [c]) l" if "set l \<subseteq> set s" for l
    using w that by (cases l) auto
  from this [of s] this [of "rev s"] show ?thesis
    by (simp add: str_trim_def Let_def char_strs_ascii [OF a] rev_map [symmetric])
qed

section \<open>Parsing a printed timestamp\<close>

definition timestamp_text :: "nat \<Rightarrow> nat \<Rightarrow> nat \<Rightarrow> nat \<Rightarrow> nat \<Rightarrow> nat \<Rightarrow> nat \<Rightarrow> (bool \<times> nat \<times> nat) option \<Rightarrow> string" where
  "timestamp_text y m d h mi sec u off = date_text y m d @ ''T'' @ clock_text h mi sec u @ offset_text off"

definition timestamp_valid :: "nat \<Rightarrow> nat \<Rightarrow> nat \<Rightarrow> nat \<Rightarrow> nat \<Rightarrow> nat \<Rightarrow> (bool \<times> nat \<times> nat) option \<Rightarrow> bool" where
  "timestamp_valid y m d h mi sec off \<longleftrightarrow> date_valid y m d \<and> h \<le> 23 \<and> mi \<le> 59 \<and> sec \<le> 59 \<and> offset_valid off"

definition timestamp_micros :: "nat \<Rightarrow> nat \<Rightarrow> nat \<Rightarrow> nat \<Rightarrow> nat \<Rightarrow> nat \<Rightarrow> nat \<Rightarrow> (bool \<times> nat \<times> nat) option \<Rightarrow> int" where
  "timestamp_micros y m d h mi sec u off =
    day_number y m d * 86400000000 + (((int h * 60 + int mi) * 60 + int sec) * 1000000 + int u) - offset_micros off"

lemma visible_pad: "list_all visible (pad k n)"
  using pad_props(2) [of k n] by (auto simp: list_all_iff visible_def)

lemma visible_timestamp: "list_all visible (timestamp_text y m d h mi sec u off)"
proof -
  have "visible CHR ''-''" "visible CHR ''T''" "visible CHR '':''" "visible CHR ''.''" "visible CHR ''+''" "visible CHR ''Z''"
    by (simp_all add: visible_def byte_of_def)
  then show ?thesis by (cases off rule: offset_text.cases) (simp_all add: timestamp_text_def date_text_def clock_text_def visible_pad)
qed

lemma day_number_bounds:
  assumes "y < 10000" "1 \<le> m" "m \<le> 12" "d < 100"
  shows "- 719529 \<le> day_number y m d" "day_number y m d < 3000000"
proof -
  have "0 \<le> (\<Sum>i<y. if leap (int i) then 366 else 365 :: int)" by (rule sum_nonneg) simp
  moreover have "(\<Sum>i<y. if leap (int i) then 366 else 365 :: int) \<le> of_nat (card {..<y}) * 366" by (rule sum_bounded_above) simp
  moreover have "0 \<le> (\<Sum>k=1..<m. month_days (int y) k)" by (rule sum_nonneg) (simp add: month_days_def)
  moreover have "(\<Sum>k=1..<m. month_days (int y) k) \<le> of_nat (card {1..<m}) * 31" by (rule sum_bounded_above) (simp add: month_days_def)
  ultimately show "- 719529 \<le> day_number y m d" "day_number y m d < 3000000"
    unfolding day_number_def using assms by simp_all
qed

lemma timestamp_bounds:
  assumes "y < 10000" "d < 100" "u < 1000000" "timestamp_valid y m d h mi sec off"
  shows "\<bar>timestamp_micros y m d h mi sec u off\<bar> < 300000000000000000" "\<bar>timestamp_micros y m d h mi sec u off + offset_micros off\<bar> < 300000000000000000"
    "\<bar>offset_micros off\<bar> < 90000000000"
proof -
  have v: "1 \<le> m" "m \<le> 12" "h \<le> 23" "mi \<le> 59" "sec \<le> 59" "offset_valid off" using assms(4) by (simp_all add: timestamp_valid_def date_valid_def)
  show o: "\<bar>offset_micros off\<bar> < 90000000000" using v(6) by (cases off rule: offset_text.cases) auto
  show "\<bar>timestamp_micros y m d h mi sec u off\<bar> < 300000000000000000" "\<bar>timestamp_micros y m d h mi sec u off + offset_micros off\<bar> < 300000000000000000"
    unfolding timestamp_micros_def using day_number_bounds [OF assms(1) v(1,2) assms(2)] v o assms(3) by (simp_all add: abs_less_iff algebra_simps)
qed

text \<open>C25: A timestamp literal \<open>YYYY-MM-DDThh:mm:ss.ffffff\<close> with \<open>Z\<close> or a numeric offset parses to the number of microseconds since
  the epoch counted by adding up years, months and days (\<open>day_number\<close>), without overflow, exactly if the fields are a date of the
  calendar, a time of the day and an offset of less than a day; otherwise it is refused.\<close>

theorem timestamp_exact:
  assumes "y < 10000" "m < 100" "d < 100" "h < 100" "mi < 100" "sec < 100" "u < 1000000"
    and "case off of None \<Rightarrow> True | Some (neg, oh, om) \<Rightarrow> oh < 100 \<and> om < 100"
  shows "map_res (map_option sint) (parse_timestamp (timestamp_text y m d h mi sec u off)) =
    Ok (if timestamp_valid y m d h mi sec off then Some (timestamp_micros y m d h mi sec u off) else None)"
proof -
  have n: "is_char_boundary (timestamp_text y m d h mi sec u off) 10"
    by (simp add: is_char_boundary_def timestamp_text_def nth_append date_text_def pad_props byte_of_def)
  have sp: "str_split_at (timestamp_text y m d h mi sec u off) 10 = Ok (date_text y m d, CHR ''T'' # clock_text h mi sec u @ offset_text off)"
    using n by (simp add: str_split_at_def timestamp_text_def date_text_def pad_props)
  have l: "10 < length (timestamp_text y m d h mi sec u off)" by (simp add: timestamp_text_def date_text_def pad_props)
  have days: "days_from_civil (word_of_nat y) (word_of_nat m) (word_of_nat d) = word_of_int (day_number y m d)" if "date_valid y m d"
    by (rule days_int) (use that assms in \<open>simp_all add: date_valid_def\<close>)
  have sub: "i64_checked_sub (word_of_int a) (word_of_int b) = Some (word_of_int (a - b))"
    if "\<bar>a\<bar> < 300000000000000000" "\<bar>b\<bar> < 90000000000" "\<bar>a - b\<bar> < 300000000000000000" for a b
    using that by (simp add: i64_checked_sub_def sint_small_int Let_def) linarith
  let ?t = "((int h * 60 + int mi) * 60 + int sec) * 1000000 + int u"
  have p: "parse_timestamp (timestamp_text y m d h mi sec u off) =
      Ok (if timestamp_valid y m d h mi sec off
          then i64_checked_sub (word_of_int (day_number y m d * 86400000000 + ?t)) (word_of_int (offset_micros off)) else None)"
    using assms unfolding parse_timestamp_def Let_def str_trim_visible [OF visible_timestamp] sp
    by (simp add: l parse_date_text timestamp_valid_def days strip_prefix_def or_else_def parse_offset_text parse_clock_text)
  show ?thesis
  proof (cases "timestamp_valid y m d h mi sec off")
    case True
    note b = timestamp_bounds [OF assms(1,3,7) True]
    let ?a = "day_number y m d * 86400000000 + ?t"
    have tm: "timestamp_micros y m d h mi sec u off = ?a - offset_micros off" by (simp only: timestamp_micros_def)
    have "i64_checked_sub (word_of_int ?a) (word_of_int (offset_micros off)) = Some (word_of_int (timestamp_micros y m d h mi sec u off))"
      unfolding tm by (rule sub) (use b in \<open>unfold tm, linarith+\<close>)
    moreover have "sint (word_of_int (timestamp_micros y m d h mi sec u off) :: i64) = timestamp_micros y m d h mi sec u off"
      by (rule sint_small_int) (use b(1) in \<open>simp_all add: abs_less_iff\<close>)
    ultimately show ?thesis by (simp only: p True if_True res.map option.map)
  qed (simp add: p)
qed

lemma pad_numeral: "pad (numeral k) n = pad (pred_numeral k) (n div 10) @ [digit_char n]"
  by (metis numeral_eq_Suc pad.simps(2))

theorem timestamp_exact_witness:
  "map_res (map_option sint) (parse_timestamp ''2024-02-29T23:59:59.500000+05:30'') = Ok (Some 1709231399500000)"
proof -
  have t: "timestamp_text 2024 2 29 23 59 59 500000 (Some (False, 5, 30)) = ''2024-02-29T23:59:59.500000+05:30''"
    by (simp add: timestamp_text_def date_text_def clock_text_def pad_numeral digit_char_def char_of_def bit_Suc_0_iff)
  have v: "timestamp_valid 2024 2 29 23 59 59 (Some (False, 5, 30))"
    by (simp add: timestamp_valid_def date_valid_def month_days_def leap_def)
  have m: "timestamp_micros 2024 2 29 23 59 59 500000 (Some (False, 5, 30)) = 1709231399500000"
    by (simp add: timestamp_micros_def day_number_def years_sum year_start_def month_days_def atLeastLessThan_nat_numeral)
  show ?thesis using timestamp_exact [of 2024 2 29 23 59 59 500000 "Some (False, 5, 30)"] by (simp add: t v m)
qed

section \<open>Outside the format\<close>

text \<open>
  Two inputs the documentation does not foresee. The date is cut off at the tenth byte, which panics inside a character, and a date of
  ten bytes need not have a four-digit year: the microseconds of the year 999999 exceed \<open>i64\<close>, so the value that comes back is off.
\<close>

lemma timestamp_inside_character: "parse_timestamp (''2024-01-0'' @ [CHR 0xC3, CHR 0xA9]) = Panic"
proof -
  let ?s = "''2024-01-0'' @ [CHR 0xC3, CHR 0xA9]"
  have "str_trim ?s = ?s"
    by (simp add: str_trim_def byte_of_def code_point_def chars_def as_bytes_def is_whitespace_def cont_byte_def Let_def)
  then show ?thesis by (simp add: parse_timestamp_def str_split_at_def is_char_boundary_def byte_of_def Let_def)
qed

lemma timestamp_overflows:
  "\<exists>w. parse_timestamp ''999999-1-1'' = Ok (Some w) \<and> sint w \<noteq> day_number 999999 1 1 * 86400000000"
proof -
  have "list_all visible ''999999-1-1''" by (simp add: visible_def byte_of_def)
  note trim = str_trim_visible [OF this]
  have "num ''999999'' = Some 999999" "num ''1'' = Some 1"
    by (simp_all add: num_def parse_i64_def dec_val_def digit_val_def is_ascii_digit_byte byte_of_def)
  moreover have "sint (days_in_month 999999 1) = 31" by (simp add: days_in_month_def)
  ultimately have "parse_date ''999999-1-1'' = Some (999999, 1, 1)" by (simp add: parse_date_def)
  then have "parse_timestamp ''999999-1-1'' = Ok (Some (days_from_civil 999999 1 1 * 86400000000))"
    by (simp add: parse_timestamp_def trim)
  moreover have "days_from_civil 999999 1 1 = word_of_int (day_number 999999 1 1)" using days_int [of 999999 1 1] by simp
  moreover have "day_number 999999 1 1 = 364522607"
    by (simp add: day_number_def years_sum year_start_def)
  ultimately show ?thesis using sint_lt [of "word_of_int (day_number 999999 1 1) * 86400000000 :: i64"] by auto
qed

end
