(* ===== verification/Sql_Ast.thy ===== *)
theory Sql_Ast
  imports Rel_Catalog Lang_Time
begin

text \<open>
  The values and statements of the SQL subset: parameters and operands (\<open>bkndb-core/src/lang/mod.rs\<close>), the syntax tree
  (\<open>lang/sql/mod.rs\<close>), and the binding of conditions to the filter expressions of the relational store (\<open>lang/sql/exec.rs\<close>).
\<close>

section \<open>Parameters and operands\<close>

record params =
  p_positional :: "prop_value list"
  p_named :: "(string, prop_value) btree"

definition params_none :: params where
  "params_none = \<lparr>p_positional = [], p_named = []\<rparr>"

definition params_with :: "params \<Rightarrow> string \<Rightarrow> prop_value \<Rightarrow> params" where
  "params_with P name v = P\<lparr>p_named := bt_insert name v (p_named P)\<rparr>"

record query_result =
  qr_columns :: "string list"
  qr_rows :: "prop_value list list"
  qr_affected :: u64

datatype param_ref = PIndex nat | PName string

datatype operand =
    OLit prop_value
  | OParam param_ref
  | OList "operand list"
  | OMap "(string \<times> operand) list"

text \<open>A map operand is collected into a \<open>BTreeMap\<close>: of entries with one key the last remains.\<close>

fun op_bind :: "params \<Rightarrow> operand \<Rightarrow> prop_value res" where
  "op_bind P (OLit v) = Ok v"
| "op_bind P (OParam (PIndex i)) =
    (if i < length (p_positional P) then Ok (p_positional P ! i) else Err (InvalidQuery ''parameter is not bound''))"
| "op_bind P (OParam (PName n)) = ok_or (map_of (p_named P) n) (InvalidQuery ''named parameter is not bound'')"
| "op_bind P (OList items) = bind_res (traverse (op_bind P) items) (\<lambda>vs. Ok (List vs))"
| "op_bind P (OMap entries) =
    bind_res (traverse (\<lambda>(k, o'). bind_res (op_bind P o') (\<lambda>v. Ok (k, v))) entries) (\<lambda>kvs.
    Ok (Map (fold (\<lambda>(k, v) m. bt_insert k v m) kvs [])))"

section \<open>Statements\<close>

datatype cond =
    CCmp string cmp_op operand
  | CIn string "operand list" bool
  | CIsNull string bool
  | CBetween string operand operand bool
  | CLike string operand bool bool
  | CContains string operand
  | CAnd "cond list"
  | COr "cond list"
  | CNot cond

datatype agg_func = FCount | FSum | FAvg | FMin | FMax

datatype select_item =
    SStar
  | SColumn string "string option"
  | SAggregate agg_func "string option" "string option"

record select =
  sel_table :: string
  sel_items :: "select_item list"
  sel_filter :: "cond option"
  sel_group_by :: "string list"
  sel_order :: "(string \<times> order) list"
  sel_limit :: "operand option"
  sel_offset :: "operand option"

datatype statement =
    Select select
  | Insert string "string list option" "operand list list" bool
  | Update string "(string \<times> operand) list" "cond option"
  | Delete string "cond option"
  | CreateTable table_schema bool
  | DropTable string bool
  | CreateIndex string string bool
  | DropIndex string string bool
  | AddColumn string column_schema
  | DropColumn string string

definition is_read_only :: "statement \<Rightarrow> bool" where
  "is_read_only st = (case st of Select _ \<Rightarrow> True | _ \<Rightarrow> False)"

section \<open>Binding\<close>

definition negate_if :: "bool \<Rightarrow> expr \<Rightarrow> expr" where
  "negate_if negated e = (if negated then expr_not e else e)"

text \<open>A pattern that is a text without wildcards and one percent sign at the end.\<close>

definition plain_prefix :: "string \<Rightarrow> string option" where
  "plain_prefix pattern = (case strip_suffix CHR ''%'' pattern of
      Some p \<Rightarrow> if CHR ''%'' \<in> set p \<or> CHR ''_'' \<in> set p then None else Some p
    | None \<Rightarrow> None)"

fun bind_expr :: "params \<Rightarrow> cond \<Rightarrow> expr res" where
  "bind_expr P (CCmp p op v) = bind_res (op_bind P v) (\<lambda>v. Ok (ECmp p op v))"
| "bind_expr P (CIn path vs negated) = bind_res (traverse (op_bind P) vs) (\<lambda>vs. Ok (negate_if negated (EIn path vs)))"
| "bind_expr P (CIsNull path negated) = Ok (if negated then EIsNotNull path else EIsNull path)"
| "bind_expr P (CBetween path low high negated) =
    bind_res (op_bind P low) (\<lambda>low.
    bind_res (op_bind P high) (\<lambda>high.
    Ok (negate_if negated (EAnd [ECmp path OpGe low, ECmp path OpLe high]))))"
| "bind_expr P (CLike path pattern case_insensitive negated) =
    bind_res (op_bind P pattern) (\<lambda>pattern. case pattern of
        Str pattern \<Rightarrow>
          Ok (negate_if negated (case plain_prefix pattern of
              Some p \<Rightarrow> if \<not> case_insensitive then EPrefix path p else ELike path pattern case_insensitive
            | None \<Rightarrow> ELike path pattern case_insensitive))
      | _ \<Rightarrow> Err (InvalidQuery ''the LIKE pattern must be a string''))"
| "bind_expr P (CContains p v) = bind_res (op_bind P v) (\<lambda>v. Ok (EContains p v))"
| "bind_expr P (CAnd parts) = bind_res (traverse (bind_expr P) parts) (\<lambda>es. Ok (EAnd es))"
| "bind_expr P (COr parts) = bind_res (traverse (bind_expr P) parts) (\<lambda>es. Ok (EOr es))"
| "bind_expr P (CNot c) = bind_res (bind_expr P c) (\<lambda>e. Ok (expr_not e))"

definition bind_filter :: "params \<Rightarrow> cond option \<Rightarrow> query res" where
  "bind_filter P f = (case f of None \<Rightarrow> Ok q_new | Some c \<Rightarrow> bind_res (bind_expr P c) (\<lambda>e. Ok (q_filter q_new e)))"

definition bind_count :: "params \<Rightarrow> operand option \<Rightarrow> nat option res" where
  "bind_count P x = (case x of
      None \<Rightarrow> Ok None
    | Some o' \<Rightarrow> bind_res (op_bind P o') (\<lambda>v. case v of
          IntV n \<Rightarrow> if 0 \<le> sint n then Ok (Some (unat n)) else Err (InvalidQuery ''must be a non-negative integer'')
        | _ \<Rightarrow> Err (InvalidQuery ''must be a non-negative integer'')))"

definition unknown_column :: "table_schema \<Rightarrow> bkn_error" where
  "unknown_column s = SchemaMismatch (td_name s) ''unknown column''"

definition agg_name :: "agg_func \<Rightarrow> string option \<Rightarrow> string" where
  "agg_name f column =
    (case f of FCount \<Rightarrow> ''count'' | FSum \<Rightarrow> ''sum'' | FAvg \<Rightarrow> ''avg'' | FMin \<Rightarrow> ''min'' | FMax \<Rightarrow> ''max'') @
    ''('' @ (case column of Some c \<Rightarrow> c | None \<Rightarrow> ''*'') @ '')''"

definition to_agg :: "agg_func \<Rightarrow> string option \<Rightarrow> agg" where
  "to_agg f column = (case column of
      None \<Rightarrow> AggCount
    | Some c \<Rightarrow> (case f of FCount \<Rightarrow> AggCountColumn c | FSum \<Rightarrow> AggSum c | FAvg \<Rightarrow> AggAvg c | FMin \<Rightarrow> AggMin c | FMax \<Rightarrow> AggMax c))"

end
