(* ===== verification/Utf8.thy ===== *)
theory Utf8
  imports Value
begin

text \<open>
  Decoding UTF-8 into code points loses nothing: on well-formed strings one string is a prefix of another exactly if its characters
  are. This is what makes a prefix test on bytes agree with a pattern over characters.
\<close>

definition enc_char :: "nat \<Rightarrow> bytes" where
  "enc_char c = map word_of_nat
    (if c < 0x80 then [c]
     else if c < 0x800 then [0xC0 + c div 0x40, 0x80 + c mod 0x40]
     else if c < 0x10000 then [0xE0 + c div 0x1000, 0x80 + c div 0x40 mod 0x40, 0x80 + c mod 0x40]
     else [0xF0 + c div 0x40000, 0x80 + c div 0x1000 mod 0x40, 0x80 + c div 0x40 mod 0x40, 0x80 + c mod 0x40])"

section \<open>Digits in base 64\<close>

lemma div_mod_64: "z < 64 \<Longrightarrow> (n * 64 + z) div 64 = n" "z < 64 \<Longrightarrow> (n * 64 + z) mod 64 = (z :: nat)"
  by simp_all

lemma enc_char2:
  assumes "x < 32" "y < 64" "2 \<le> x"
  shows "enc_char (x * 64 + y) = [word_of_nat (0xC0 + x), word_of_nat (0x80 + y)]"
proof -
  have "\<not> x * 64 + y < 0x80" "x * 64 + y < 0x800" using assms by linarith+
  then show ?thesis unfolding enc_char_def using div_mod_64 [OF assms(2), of x] by simp
qed

lemma enc_char3:
  assumes "x < 16" "y < 64" "z < 64" "x = 0 \<longrightarrow> 32 \<le> y"
  shows "enc_char (x * 0x1000 + y * 0x40 + z) = [word_of_nat (0xE0 + x), word_of_nat (0x80 + y), word_of_nat (0x80 + z)]"
proof -
  let ?c = "x * 0x1000 + y * 0x40 + z"
  have c: "?c = (x * 64 + y) * 64 + z" by simp
  have "?c div 64 = x * 64 + y" "?c mod 64 = z" unfolding c by (rule div_mod_64 [OF assms(3)])+
  moreover from this have "?c div 0x1000 = x" using div_mult2_eq [of ?c 64 64] div_mod_64 [OF assms(2), of x] by simp
  moreover have "\<not> ?c < 0x80" "\<not> ?c < 0x800" "?c < 0x10000" using assms by (cases "x = 0"; linarith)+
  ultimately show ?thesis unfolding enc_char_def using div_mod_64 [OF assms(2), of x] by simp
qed

lemma enc_char4:
  assumes "x < 8" "y < 64" "z < 64" "u < 64" "x = 0 \<longrightarrow> 16 \<le> y"
  shows "enc_char (x * 0x40000 + y * 0x1000 + z * 0x40 + u) =
    [word_of_nat (0xF0 + x), word_of_nat (0x80 + y), word_of_nat (0x80 + z), word_of_nat (0x80 + u)]"
proof -
  let ?c = "x * 0x40000 + y * 0x1000 + z * 0x40 + u"
  have c: "?c = ((x * 64 + y) * 64 + z) * 64 + u" by simp
  have d: "?c div 64 = (x * 64 + y) * 64 + z" "?c mod 64 = u" unfolding c by (rule div_mod_64 [OF assms(4)])+
  moreover from this have d2: "?c div 0x1000 = x * 64 + y" using div_mult2_eq [of ?c 64 64] div_mod_64 [OF assms(3), of "x * 64 + y"] by simp
  moreover from this have "?c div 0x40000 = x" using div_mult2_eq [of ?c 4096 64] div_mod_64 [OF assms(2), of x] by simp
  moreover have "\<not> ?c < 0x80" "\<not> ?c < 0x800" "\<not> ?c < 0x10000" using assms by (cases "x = 0"; linarith)+
  ultimately show ?thesis unfolding enc_char_def using div_mod_64 [OF assms(2), of x] div_mod_64 [OF assms(3), of "x * 64 + y"] by simp
qed

section \<open>Bytes of a character\<close>

lemma byte_plus: "unat (a :: byte) = n \<Longrightarrow> word_of_nat n = a"
  by auto

lemma cont_digit:
  assumes "0x80 \<le> b" "b \<le> (0xBF :: byte)"
  obtains y where "y < 64" "word_of_nat (0x80 + y) = b" "unat b = 0x80 + y" "unat b mod 64 = y"
proof
  have b: "128 \<le> unat b" "unat b \<le> 191" using assms by (simp_all add: word_le_nat_alt)
  then show "unat b - 128 < 64" and u: "unat b = 0x80 + (unat b - 128)" by simp_all
  then show "word_of_nat (0x80 + (unat b - 128)) = b" by (intro byte_plus)
  from b show "unat b mod 64 = unat b - 128" by (simp add: le_mod_geq)
qed

definition char_bytes :: "bytes \<Rightarrow> nat \<Rightarrow> bool" where
  "char_bytes bs n \<longleftrightarrow> enc_char n = bs \<and> (\<forall>r. utf8_chars (bs @ r) = n # utf8_chars r)"

lemma utf8_two:
  assumes "0xC2 \<le> a" "a \<le> 0xDF" "0x80 \<le> b" "b \<le> (0xBF :: byte)"
  shows "\<exists>n. char_bytes [a, b] n"
proof -
  obtain y where y: "y < 64" "word_of_nat (0x80 + y) = b" "unat b = 0x80 + y" "unat b mod 64 = y" using cont_digit [OF assms(3,4)] .
  have a: "194 \<le> unat a" "unat a \<le> 223" using assms(1,2) by (simp_all add: word_le_nat_alt)
  then have m: "unat a mod 32 = unat a - 192" "word_of_nat (0xC0 + (unat a - 192)) = a" by (simp_all add: le_mod_geq byte_plus)
  have "enc_char ((unat a - 192) * 64 + y) = [a, b]" 
    using enc_char2 [OF _ y(1), of "unat a - 192", unfolded m(2) y(2)] a by linarith
  moreover have "utf8_chars (a # b # r) = ((unat a - 192) * 64 + y) # utf8_chars r" for r using a y(4) m(1) by (simp add: cont_byte_def)
  ultimately show ?thesis by (auto simp: char_bytes_def)
qed

lemma utf8_three:
  assumes "0xE0 \<le> a" "a \<le> 0xEF" "0x80 \<le> b" "b \<le> (0xBF :: byte)" "a = 0xE0 \<longrightarrow> 0xA0 \<le> b" "0x80 \<le> c" "c \<le> (0xBF :: byte)"
  shows "\<exists>n. char_bytes [a, b, c] n"
proof -
  obtain y where y: "y < 64" "word_of_nat (0x80 + y) = b" "unat b = 0x80 + y" "unat b mod 64 = y" using cont_digit [OF assms(3,4)] .
  obtain z where z: "z < 64" "word_of_nat (0x80 + z) = c" "unat c = 0x80 + z" "unat c mod 64 = z" using cont_digit [OF assms(6,7)] .
  have a: "224 \<le> unat a" "unat a \<le> 239" using assms(1,2) by (simp_all add: word_le_nat_alt)
  then have m: "unat a mod 16 = unat a - 224" "word_of_nat (0xE0 + (unat a - 224)) = a" by (simp_all add: le_mod_geq byte_plus)
  have s: "unat a - 224 = 0 \<longrightarrow> 32 \<le> y"
  proof
    assume "unat a - 224 = 0"
    then have "a = 0xE0" using a by (metis byte_plus le_antisym of_nat_numeral diff_is_0_eq)
    then show "32 \<le> y" using assms(5) y(3) by (simp add: word_le_nat_alt)
  qed
  have "enc_char ((unat a - 224) * 0x1000 + y * 0x40 + z) = [a, b, c]" 
    using enc_char3 [OF _ y(1) z(1) s, unfolded m(2) y(2) z(2)] a by linarith
  moreover have "utf8_chars (a # b # c # r) = ((unat a - 224) * 0x1000 + y * 0x40 + z) # utf8_chars r" for r
    using a y(4) z(4) m(1) by (simp add: cont_byte_def)
  ultimately show ?thesis by (auto simp: char_bytes_def)
qed

lemma utf8_four:
  assumes "0xF0 \<le> a" "a \<le> 0xF4" "0x80 \<le> b" "b \<le> (0xBF :: byte)" "a = 0xF0 \<longrightarrow> 0x90 \<le> b" "0x80 \<le> c" "c \<le> (0xBF :: byte)"
    "0x80 \<le> d" "d \<le> (0xBF :: byte)"
  shows "\<exists>n. char_bytes [a, b, c, d] n"
proof -
  obtain y where y: "y < 64" "word_of_nat (0x80 + y) = b" "unat b = 0x80 + y" "unat b mod 64 = y" using cont_digit [OF assms(3,4)] .
  obtain z where z: "z < 64" "word_of_nat (0x80 + z) = c" "unat c = 0x80 + z" "unat c mod 64 = z" using cont_digit [OF assms(6,7)] .
  obtain u where u: "u < 64" "word_of_nat (0x80 + u) = d" "unat d = 0x80 + u" "unat d mod 64 = u" using cont_digit [OF assms(8,9)] .
  have a: "240 \<le> unat a" "unat a \<le> 244" using assms(1,2) by (simp_all add: word_le_nat_alt)
  then have m: "unat a mod 8 = unat a - 240" "word_of_nat (0xF0 + (unat a - 240)) = a" by (simp_all add: le_mod_geq byte_plus)
  have s: "unat a - 240 = 0 \<longrightarrow> 16 \<le> y"
  proof
    assume "unat a - 240 = 0"
    then have "a = 0xF0" using a by (metis byte_plus le_antisym of_nat_numeral diff_is_0_eq)
    then show "16 \<le> y" using assms(5) y(3) by (simp add: word_le_nat_alt)
  qed
  have "enc_char ((unat a - 240) * 0x40000 + y * 0x1000 + z * 0x40 + u) = [a, b, c, d]"
    
    using enc_char4 [OF _ y(1) z(1) u(1) s, unfolded m(2) y(2) z(2) u(2)] a by linarith
  moreover have "utf8_chars (a # b # c # d # r) = ((unat a - 240) * 0x40000 + y * 0x1000 + z * 0x40 + u) # utf8_chars r" for r
    using a y(4) z(4) u(4) m(1) by (simp add: cont_byte_def numeral_3_eq_3 numeral_2_eq_2)
  ultimately show ?thesis by (auto simp: char_bytes_def)
qed

section \<open>Strings\<close>

lemma not_ascii: "0x80 \<le> b \<Longrightarrow> \<not> b \<le> (0x7F :: byte)"
  by (simp add: word_le_nat_alt)

lemma utf8_first:
  assumes "utf8_valid (a # r)"
  shows "\<exists>bs n r'. a # r = bs @ r' \<and> utf8_valid r' \<and> char_bytes bs n \<and> bs \<noteq> [] \<and> (\<forall>t. utf8_valid (bs @ t) = utf8_valid t) \<and>
    (length bs = 1 \<or> (\<forall>x\<in>set bs. \<not> x \<le> 0x7F))"
proof (cases "a \<le> 0x7F")
  case True
  then have "unat a < 128" by (simp add: word_le_nat_alt)
  then have "char_bytes [a] (unat a)" by (simp add: char_bytes_def enc_char_def)
  moreover have "utf8_valid r" using assms True by simp
  ultimately show ?thesis using True by (intro exI [of _ "[a]"] exI [of _ "unat a"] exI [of _ r]) simp
next
  case a: False
  then obtain b r1 where r: "r = b # r1" using assms by (cases r) auto
  show ?thesis
  proof (cases "0xC2 \<le> a \<and> a \<le> 0xDF")
    case True
    then have v: "0x80 \<le> b" "b \<le> 0xBF" "utf8_valid r1" using assms a by (simp_all add: r)
    obtain n where "char_bytes [a, b] n" using utf8_two v(1,2) True by blast
    moreover have "utf8_valid (a # b # t) = utf8_valid t" for t using a True v by simp
    ultimately show ?thesis using v(3) a not_ascii [OF v(1)] unfolding r by (intro exI [of _ "[a, b]"] exI [of _ n] exI [of _ r1]) simp
  next
    case a2: False
    then obtain c r2 where r1: "r1 = c # r2" using assms a by (cases r1) (auto simp: r)
    show ?thesis
    proof (cases "0xE0 \<le> a \<and> a \<le> 0xEF")
      case True
      then have v: "(if a = 0xE0 then 0xA0 else 0x80) \<le> b" "b \<le> (if a = 0xED then 0x9F else 0xBF)" "0x80 \<le> c" "c \<le> 0xBF" "utf8_valid r2"
        using assms a a2 by (simp_all add: r r1)
      have b: "0x80 \<le> b" by (rule order_trans [OF _ v(1)]) simp
      moreover have "b \<le> 0xBF" by (rule order_trans [OF v(2)]) simp
      ultimately obtain n where n: "char_bytes [a, b, c] n" using utf8_three [of a b c] v True by (cases "a = 0xE0") auto
      have "utf8_valid (a # b # c # t) = utf8_valid t" for t by (simp only: utf8_valid.simps(2) [of a] list.case a a2 True v if_False if_True simp_thms)
      then show ?thesis using n v(5) a not_ascii [OF b] not_ascii [OF v(3)] unfolding r r1 by (intro exI [of _ "[a, b, c]"] exI [of _ n] exI [of _ r2]) simp
    next
      case a3: False
      then obtain d r3 where r2: "r2 = d # r3" using assms a a2 by (cases r2) (auto simp: r r1)
      have v: "0xF0 \<le> a" "a \<le> 0xF4" "(if a = 0xF0 then 0x90 else 0x80) \<le> b" "b \<le> (if a = 0xF4 then 0x8F else 0xBF)"
          "0x80 \<le> c" "c \<le> 0xBF" "0x80 \<le> d" "d \<le> 0xBF" "utf8_valid r3"
        using assms a a2 a3 by (simp_all add: r r1 r2)
      have b: "0x80 \<le> b" by (rule order_trans [OF _ v(3)]) simp
      moreover have "b \<le> 0xBF" by (rule order_trans [OF v(4)]) simp
      ultimately obtain n where n: "char_bytes [a, b, c, d] n" using utf8_four [of a b c d] v by (cases "a = 0xF0") auto
      have "utf8_valid (a # b # c # d # t) = utf8_valid t" for t by (simp only: utf8_valid.simps(2) [of a] list.case a a2 a3 v if_False if_True simp_thms)
      then show ?thesis using n v(9) a not_ascii [OF b] not_ascii [OF v(5)] not_ascii [OF v(7)] unfolding r r1 r2 by (intro exI [of _ "[a, b, c, d]"] exI [of _ n] exI [of _ r3]) simp
    qed
  qed
qed

lemma utf8_induct [consumes 1, case_names Nil char]:
  assumes "utf8_valid s" "P []" "\<And>bs n r. utf8_valid r \<Longrightarrow> char_bytes bs n \<Longrightarrow> P r \<Longrightarrow> P (bs @ r)"
  shows "P s"
  using assms(1)
proof (induction s rule: length_induct)
  case (1 s)
  show ?case
  proof (cases s)
    case (Cons a r)
    obtain bs n r' where r: "s = bs @ r'" "utf8_valid r'" "char_bytes bs n" "bs \<noteq> []" using utf8_first [of a r] 1(2) Cons by blast
    then have "P r'" using 1(1) by simp
    then show ?thesis using assms(3) r by blast
  qed (use assms(2) in simp)
qed

lemma utf8_chars_append: "utf8_valid s \<Longrightarrow> utf8_chars (s @ t) = utf8_chars s @ utf8_chars t"
  by (induction s rule: utf8_induct) (simp_all add: char_bytes_def)

lemma utf8_decode: "utf8_valid s \<Longrightarrow> s = concat (map enc_char (utf8_chars s))"
  by (induction s rule: utf8_induct) (simp_all add: char_bytes_def)

lemma prefix_chars:
  assumes "str_ok p" "str_ok t"
  shows "prefix p t \<longleftrightarrow> prefix (chars p) (chars t)"
proof
  assume "prefix p t"
  then show "prefix (chars p) (chars t)" using utf8_chars_append [OF assms(1)] by (auto simp: prefix_def chars_def)
next
  assume "prefix (chars p) (chars t)"
  then obtain r where "chars t = chars p @ r" by (auto simp: prefix_def)
  then have "as_bytes t = as_bytes p @ concat (map enc_char r)"
    using utf8_decode [OF assms(1)] utf8_decode [OF assms(2)] unfolding chars_def by (metis concat_append map_append)
  then have "t = p @ string_of (concat (map enc_char r))" by (metis as_bytes_append as_bytes_inject as_bytes_string_of)
  then show "prefix p t" by simp
qed

section \<open>Patterns that are a prefix\<close>

lemma like_loop_decides: "like_loop t p 0 0 None \<longleftrightarrow> like t p"
  by (simp add: like_loop_correct like_inv_def like_alt_def)

lemma like_prefix: "PERCENT \<notin> set p \<Longrightarrow> UNDERSCORE \<notin> set p \<Longrightarrow> like t (p @ [PERCENT]) \<longleftrightarrow> prefix p t"
proof (induction p arbitrary: t)
  case Nil
  then show ?case by (auto simp: like.simps(2) intro: bexI [of _ "length t"])
next
  case (Cons c p)
  then show ?case by (cases t) (auto simp: like.simps(2))
qed

lemma utf8_valid_snoc: "utf8_valid (s @ [b]) \<Longrightarrow> b \<le> 0x7F \<Longrightarrow> utf8_valid s"
proof (induction s rule: length_induct)
  case (1 s)
  show ?case
  proof (cases s)
    case (Cons a r)
    obtain bs r' where r: "s @ [b] = bs @ r'" "utf8_valid r'" "bs \<noteq> []" "\<And>t. utf8_valid (bs @ t) = utf8_valid t"
        "length bs = 1 \<or> (\<forall>x\<in>set bs. \<not> x \<le> 0x7F)"
      using utf8_first [of a "r @ [b]"] 1(2) Cons by auto
    show ?thesis
    proof (cases r' rule: rev_cases)
      case Nil
      then have "bs = s @ [b]" using r(1) by simp
      then show ?thesis using r(5) 1(3) Cons by auto
    next
      case (snoc r'' x)
      then have "s = bs @ r''" "x = b" using r(1) by simp_all
      then show ?thesis using 1(1) r 1(3) snoc by simp
    qed
  qed simp
qed

lemma ascii_in_chars:
  assumes "str_ok s" "n \<in> set (chars s)" "n < 0x80"
  shows "char_of n \<in> set s"
proof -
  have "as_bytes s = concat (map enc_char (chars s))" using utf8_decode [OF assms(1)] by (simp add: chars_def)
  moreover have "enc_char n = [word_of_nat n]" using assms(3) by (simp add: enc_char_def)
  ultimately have "word_of_nat n \<in> set (as_bytes s)" using assms(2) by force
  then obtain c where c: "c \<in> set s" "word_of_nat n = (word_of_nat (of_char c) :: byte)" by (auto simp: as_bytes_def)
  have "unat (word_of_nat n :: byte) = n" using assms(3) by (simp add: unsigned_of_nat take_bit_nat_eq_self)
  moreover have "unat (word_of_nat (of_char c) :: byte) = of_char c" by (simp add: unsigned_of_nat take_bit_nat_eq_self)
  ultimately have "n = of_char c" using c(2) by metis
  then show ?thesis using c(1) by simp
qed

end
