(* ===== verification/Sql_Cond.thy ===== *)
theory Sql_Cond
  imports Sql_Ast Utf8 Rel_Plan
begin

text \<open>
  The meaning of a WHERE condition. \<open>cond_holds\<close> says when a row satisfies a condition, with \<open>LIKE\<close> as matching over characters;
  binding a condition gives an expression that decides it, although a pattern that is a text followed by a percent sign becomes a
  prefix test on bytes, which an index can answer.
\<close>

section \<open>Reference meaning\<close>

definition bound_to :: "params \<Rightarrow> operand \<Rightarrow> prop_value" where
  "bound_to P x = (case op_bind P x of Ok v \<Rightarrow> v | _ \<Rightarrow> Null)"

definition binds :: "params \<Rightarrow> operand \<Rightarrow> bool" where
  "binds P x \<longleftrightarrow> (case op_bind P x of Ok v \<Rightarrow> value_ok v | _ \<Rightarrow> False)"

definition letters :: "(nat \<Rightarrow> nat list) \<Rightarrow> bool \<Rightarrow> string \<Rightarrow> nat list" where
  "letters lower ci t = (if ci then concat (map lower (chars t)) else chars t)"

fun cond_holds :: "(nat \<Rightarrow> nat list) \<Rightarrow> table_schema \<Rightarrow> params \<Rightarrow> row \<Rightarrow> cond \<Rightarrow> bool" where
  "cond_holds lower s P row (CCmp p op v) = eval lower s row (ECmp p op (bound_to P v))"
| "cond_holds lower s P row (CIn p vs negated) = (eval lower s row (EIn p (map (bound_to P) vs)) \<noteq> negated)"
| "cond_holds lower s P row (CIsNull p negated) = ((non_null (resolve s row p) = None) \<noteq> negated)"
| "cond_holds lower s P row (CBetween p low high negated) =
    ((eval lower s row (ECmp p OpGe (bound_to P low)) \<and> eval lower s row (ECmp p OpLe (bound_to P high))) \<noteq> negated)"
| "cond_holds lower s P row (CLike p pattern ci negated) =
    ((case (non_null (resolve s row p), bound_to P pattern) of
        (Some (Str t), Str x) \<Rightarrow> like (letters lower ci t) (letters lower ci x) | _ \<Rightarrow> False) \<noteq> negated)"
| "cond_holds lower s P row (CContains p v) = eval lower s row (EContains p (bound_to P v))"
| "cond_holds lower s P row (CAnd cs) = (\<forall>c\<in>set cs. cond_holds lower s P row c)"
| "cond_holds lower s P row (COr cs) = (\<exists>c\<in>set cs. cond_holds lower s P row c)"
| "cond_holds lower s P row (CNot c) = (\<not> cond_holds lower s P row c)"

text \<open>Every parameter of the condition is bound, and the patterns are strings.\<close>

fun cond_binds :: "params \<Rightarrow> cond \<Rightarrow> bool" where
  "cond_binds P (CCmp p op v) = binds P v"
| "cond_binds P (CIn p vs negated) = (\<forall>v\<in>set vs. binds P v)"
| "cond_binds P (CIsNull p negated) = True"
| "cond_binds P (CBetween p low high negated) = (binds P low \<and> binds P high)"
| "cond_binds P (CLike p pattern ci negated) = (binds P pattern \<and> (\<exists>x. bound_to P pattern = Str x))"
| "cond_binds P (CContains p v) = binds P v"
| "cond_binds P (CAnd cs) = (\<forall>c\<in>set cs. cond_binds P c)"
| "cond_binds P (COr cs) = (\<forall>c\<in>set cs. cond_binds P c)"
| "cond_binds P (CNot c) = cond_binds P c"

fun cond_paths :: "cond \<Rightarrow> string list" where
  "cond_paths (CCmp p op v) = [p]"
| "cond_paths (CIn p vs negated) = [p]"
| "cond_paths (CIsNull p negated) = [p]"
| "cond_paths (CBetween p low high negated) = [p, p]"
| "cond_paths (CLike p pattern ci negated) = [p]"
| "cond_paths (CContains p v) = [p]"
| "cond_paths (CAnd cs) = concat (map cond_paths cs)"
| "cond_paths (COr cs) = concat (map cond_paths cs)"
| "cond_paths (CNot c) = cond_paths c"

section \<open>Values of a row\<close>

definition cells_ok :: "row \<Rightarrow> bool" where
  "cells_ok row \<longleftrightarrow> value_ok (row_pk row) \<and> properties_ok (row_values row)"

lemma get_path_ok: "value_ok v \<Longrightarrow> get_path v path = Some x \<Longrightarrow> value_ok x"
proof (induction v path rule: get_path.induct)
  case (2 cur seg path)
  show ?case
  proof (cases cur)
    case (Map m)
    then obtain y where y: "map_of m seg = Some y" "get_path y path = Some x" using "2.prems"(2) by (auto split: option.splits)
    then have "value_ok y" using "2.prems"(1) Map map_of_SomeD [OF y(1)] by auto
    then show ?thesis using "2.IH"(2) [OF Map y(1) _ y(2)] by simp
  next
    case (List l)
    then show ?thesis using 2 by (auto split: option.splits if_splits)
  qed (use "2.prems"(2) in auto)
qed simp

lemma resolve_ok:
  assumes "cells_ok row" "resolve s row p = Some v"
  shows "value_ok v"
proof -
  have "value_ok x" if "row_get row s c = Some x" for c x
    using assms(1) that by (auto simp: row_get_def cells_ok_def properties_ok_def split: if_splits dest!: map_of_SomeD)
  then show ?thesis
    using assms(2) by (auto simp: resolve_def split: if_splits option.splits) (metis get_path_ok)
qed

section \<open>A plain prefix is a pattern\<close>

lemma plain_prefix_like:
  assumes "plain_prefix x = Some p" "str_ok x" "str_ok t"
  shows "prefix p t \<longleftrightarrow> like (chars t) (chars x)"
proof -
  have x: "x = p @ ''%''" and p: "CHR ''%'' \<notin> set p" "CHR ''_'' \<notin> set p"
    using assms(1) by (auto simp: plain_prefix_def strip_suffix_def split: option.splits if_splits) (metis append_butlast_last_id)
  have ok: "str_ok p" using utf8_valid_snoc [of "as_bytes p"] assms(2) by (simp add: x)
  have "chars x = chars p @ [PERCENT]" using utf8_chars_append [OF ok] by (simp add: x chars_def)
  moreover have "PERCENT \<notin> set (chars p)" "UNDERSCORE \<notin> set (chars p)"
    using ascii_in_chars [OF ok, of PERCENT] ascii_in_chars [OF ok, of UNDERSCORE] p by (auto simp: char_of_def bit_Suc_0_iff)
  ultimately show ?thesis using prefix_chars [OF ok assms(3)] by (simp add: like_prefix)
qed

section \<open>Binding decides the condition\<close>

lemma binds_Ok: "binds P x \<Longrightarrow> op_bind P x = Ok (bound_to P x)" "binds P x \<Longrightarrow> value_ok (bound_to P x)"
  by (auto simp: binds_def bound_to_def split: res.splits)

lemma binds_all: "\<forall>v\<in>set vs. binds P v \<Longrightarrow> traverse (op_bind P) vs = Ok (map (bound_to P) vs)"
  by (rule traverse_Ok) (simp add: binds_Ok)

lemma traverse_all2:
  assumes "\<And>x. x \<in> set xs \<Longrightarrow> \<exists>y. f x = Ok y \<and> Q x y"
  shows "\<exists>ys. traverse f xs = Ok ys \<and> list_all2 Q xs ys"
  using assms
proof (induction xs)
  case (Cons x xs)
  obtain y where "f x = Ok y" "Q x y" using Cons.prems [of x] by auto
  moreover obtain ys where "traverse f xs = Ok ys" "list_all2 Q xs ys" using Cons by auto
  ultimately show ?case by simp
qed simp

text \<open>The expression decides the condition, mentions its paths and holds valid values.\<close>

definition decides :: "(nat \<Rightarrow> nat list) \<Rightarrow> table_schema \<Rightarrow> params \<Rightarrow> cond \<Rightarrow> expr \<Rightarrow> bool" where
  "decides lower s P c e \<longleftrightarrow> expr_ok e \<and> expr_columns e = cond_paths c \<and>
    (\<forall>row. cells_ok row \<longrightarrow> eval lower s row e = cond_holds lower s P row c)"

lemma decides_list:
  assumes "list_all2 (decides lower s P) cs es"
  shows "concat (map expr_columns es) = concat (map cond_paths cs)" "\<forall>e\<in>set es. expr_ok e"
    "cells_ok row \<Longrightarrow> (\<forall>e\<in>set es. eval lower s row e) = (\<forall>c\<in>set cs. cond_holds lower s P row c)"
    "cells_ok row \<Longrightarrow> (\<exists>e\<in>set es. eval lower s row e) = (\<exists>c\<in>set cs. cond_holds lower s P row c)"
  using assms by (induction rule: list_all2_induct) (auto simp: decides_def)

lemma like_decides:
  assumes "binds P pattern" "bound_to P pattern = Str x"
  shows "\<exists>e. bind_expr P (CLike p pattern ci negated) = Ok e \<and> decides lower s P (CLike p pattern ci negated) e"
proof -
  have x: "op_bind P pattern = Ok (Str x)" "str_ok x" using binds_Ok [OF assms(1)] assms(2) by simp_all
  have cell: "str_ok t" if "cells_ok row" "non_null (resolve s row p) = Some (Str t)" for row t
    using resolve_ok [OF that(1)] that(2) by (fastforce simp: non_null_def split: option.splits if_splits)
  show ?thesis
  proof (cases "\<exists>p. plain_prefix x = Some p \<and> \<not> ci")
    case True
    then obtain y where y: "plain_prefix x = Some y" "\<not> ci" by blast
    have "eval lower s row (EPrefix p y) = (case (non_null (resolve s row p), Str x) of
        (Some (Str t), Str x) \<Rightarrow> like (letters lower False t) (letters lower False x) | _ \<Rightarrow> False)" if "cells_ok row" for row
      using plain_prefix_like [OF y(1) x(2)] cell [OF that] y(2) by (auto simp: letters_def split: option.splits prop_value.splits)
    then show ?thesis using x(1) y assms(2) by (auto simp: decides_def negate_if_def expr_not_def)
  next
    case False
    have "eval lower s row (ELike p x ci) = (case (non_null (resolve s row p), Str x) of
        (Some (Str t), Str x) \<Rightarrow> like (letters lower ci t) (letters lower ci x) | _ \<Rightarrow> False)" for row
      by (auto simp: letters_def like_matches_def like_loop_decides Let_def split: option.splits prop_value.splits)
    moreover have "bind_expr P (CLike p pattern ci negated) = Ok (negate_if negated (ELike p x ci))"
      using x(1) False by (auto split: option.splits)
    ultimately show ?thesis using assms(2) by (auto simp: decides_def negate_if_def expr_not_def)
  qed
qed

lemma bind_expr_decides: "cond_binds P c \<Longrightarrow> \<exists>e. bind_expr P c = Ok e \<and> decides lower s P c e"
proof (induction c)
  case (CLike p pattern ci negated)
  then show ?case using like_decides by (metis cond_binds.simps(5))
next
  case (CAnd cs)
  then obtain es where "traverse (bind_expr P) cs = Ok es" "list_all2 (decides lower s P) cs es"
    using traverse_all2 [of cs "bind_expr P" "decides lower s P"] by auto
  then show ?case using decides_list [of lower s P cs es] by (simp add: decides_def)
next
  case (COr cs)
  then obtain es where "traverse (bind_expr P) cs = Ok es" "list_all2 (decides lower s P) cs es"
    using traverse_all2 [of cs "bind_expr P" "decides lower s P"] by auto
  then show ?case using decides_list [of lower s P cs es] by (simp add: decides_def)
next
  case (CNot c)
  then show ?case by (auto simp: decides_def expr_not_def)
qed (auto simp: decides_def binds_Ok binds_all negate_if_def expr_not_def)

end
