(* ===== verification/Sql_Exec.thy ===== *)
theory Sql_Exec
  imports Sql_Ast
begin

text \<open>
  Executing statements (\<open>bkndb-core/src/lang/sql/exec.rs\<close>) through the operations of the relational store. A vector index out of
  range and \<open>unreachable!\<close> panic.
\<close>

section \<open>SELECT\<close>

definition nth_res :: "'a list \<Rightarrow> nat \<Rightarrow> 'a res" where
  "nth_res xs i = (if i < length xs then Ok (xs ! i) else Panic)"

text \<open>\<open>Iterator::position\<close>.\<close>

fun position :: "('a \<Rightarrow> bool) \<Rightarrow> 'a list \<Rightarrow> nat option" where
  "position P [] = None"
| "position P (x # xs) = (if P x then Some 0 else map_option Suc (position P xs))"

definition or_name :: "string option \<Rightarrow> string \<Rightarrow> string" where
  "or_name alias name = (case alias of Some a \<Rightarrow> a | None \<Rightarrow> name)"

definition star_columns :: "table_schema \<Rightarrow> string list" where
  "star_columns s = td_primary_key s # filter (\<lambda>c. c \<noteq> td_primary_key s) (map cs_name (td_columns s))"

text \<open>The output columns of a query without aggregates, and the path each is read from.\<close>

definition plain_item :: "table_schema \<Rightarrow> select_item \<Rightarrow> string list \<times> string list \<Rightarrow> (string list \<times> string list) res" where
  "plain_item s item out = (case out of (columns, paths) \<Rightarrow> (case item of
      SStar \<Rightarrow> Ok (columns @ star_columns s, paths @ star_columns s)
    | SColumn path alias \<Rightarrow>
        if root_column s path = None then Err (unknown_column s)
        else Ok (columns @ [or_name alias path], paths @ [path])
    | SAggregate _ _ _ \<Rightarrow> Panic))"

definition read_path :: "table_schema \<Rightarrow> row \<Rightarrow> string \<Rightarrow> prop_value" where
  "read_path s row p = (case resolve s row p of Some v \<Rightarrow> v | None \<Rightarrow> Null)"

definition select_plain :: "(nat \<Rightarrow> nat list) \<Rightarrow> rel_codecs \<Rightarrow> ('r, 'z) read_ops_scheme \<Rightarrow> 'r \<Rightarrow> table_schema \<Rightarrow> select \<Rightarrow> query
    \<Rightarrow> nat option \<Rightarrow> nat \<Rightarrow> query_result res" where
  "select_plain lower C ops r s sel q limit offset =
    bind_res (for_res (plain_item s) (sel_items sel) ([], [])) (\<lambda>(columns, paths).
    bind_res (select_in lower C ops r s (q\<lparr>q_order := sel_order sel, q_offset := offset, q_limit := limit\<rparr>)) (\<lambda>rows.
    Ok \<lparr>qr_columns = columns, qr_rows = map (\<lambda>row. map (read_path s row) paths) rows, qr_affected = 0\<rparr>))"

text \<open>An output column of an aggregate query is a group column (\<open>Inl\<close>) or an aggregate (\<open>Inr\<close>).\<close>

type_synonym agg_outputs = "string list \<times> (nat + nat) list \<times> agg list"

definition agg_item :: "string list \<Rightarrow> select_item \<Rightarrow> agg_outputs \<Rightarrow> agg_outputs res" where
  "agg_item group_by item out = (case out of (columns, sources, aggs) \<Rightarrow> (case item of
      SStar \<Rightarrow> Err (InvalidQuery ''SELECT * can't be combined with GROUP BY or aggregates'')
    | SColumn path alias \<Rightarrow>
        bind_res (ok_or (position (\<lambda>g. g = path) group_by) (InvalidQuery ''column must appear in GROUP BY or be inside an aggregate'')) (\<lambda>idx.
        Ok (columns @ [or_name alias path], sources @ [Inl idx], aggs))
    | SAggregate f column alias \<Rightarrow>
        if column = None \<and> f \<noteq> FCount then Err (InvalidQuery (''only COUNT accepts '' @ [CHR 0x27, CHR ''*'', CHR 0x27]))
        else Ok (columns @ [or_name alias (agg_name f column)], sources @ [Inr (length aggs)], aggs @ [to_agg f column])))"

definition output_row :: "(nat + nat) list \<Rightarrow> aggregate_row \<Rightarrow> prop_value list res" where
  "output_row sources g = traverse (\<lambda>x. case x of Inl i \<Rightarrow> nth_res (ar_group g) i | Inr i \<Rightarrow> nth_res (ar_values g) i) sources"

definition order_key :: "string list \<Rightarrow> select_item list \<Rightarrow> string \<times> order \<Rightarrow> (nat \<times> order) res" where
  "order_key columns items key = (case key of (name, dir) \<Rightarrow>
    bind_res (ok_or (or_else (position (\<lambda>c. c = name) columns) (position (\<lambda>i. case i of SColumn path _ \<Rightarrow> path = name | _ \<Rightarrow> False) items))
      (InvalidQuery ''ORDER BY must name an output column of the aggregate query'')) (\<lambda>idx. Ok (idx, dir)))"

text \<open>The comparison of output rows; the keys are columns of the output, so the indices are in range.\<close>

fun output_cmp :: "(nat \<times> order) list \<Rightarrow> prop_value list \<Rightarrow> prop_value list \<Rightarrow> ordering" where
  "output_cmp [] a b = Equal"
| "output_cmp ((i, d) # keys) a b =
    (let ord = total_cmp (Some (a ! i)) (Some (b ! i)); ord = (if d = Desc then reverse_ordering ord else ord)
     in if ord \<noteq> Equal then ord else output_cmp keys a b)"

definition select_aggregate :: "(nat \<Rightarrow> nat list) \<Rightarrow> rel_codecs \<Rightarrow> ('r, 'z) read_ops_scheme \<Rightarrow> 'r \<Rightarrow> table_schema \<Rightarrow> select \<Rightarrow> query
    \<Rightarrow> nat option \<Rightarrow> nat \<Rightarrow> query_result res" where
  "select_aggregate lower C ops r s sel q limit offset =
    bind_res (for_res (agg_item (sel_group_by sel)) (sel_items sel) ([], [], [])) (\<lambda>(columns, sources, aggs).
    if list_ex (\<lambda>g. root_column s g = None) (sel_group_by sel) then Err (unknown_column s)
    else
      bind_res (aggregate_in lower C ops r s q (sel_group_by sel) aggs) (\<lambda>grouped.
      bind_res (traverse (output_row sources) grouped) (\<lambda>rows.
      bind_res (if sel_order sel = [] then Ok rows
        else bind_res (traverse (order_key columns (sel_items sel)) (sel_order sel)) (\<lambda>keys. Ok (sort_by (output_cmp keys) rows))) (\<lambda>rows.
      let rows = drop offset rows in
      Ok \<lparr>qr_columns = columns, qr_rows = (case limit of Some n \<Rightarrow> take n rows | None \<Rightarrow> rows), qr_affected = 0\<rparr>))))"

definition aggregating :: "select \<Rightarrow> bool" where
  "aggregating sel \<longleftrightarrow> sel_group_by sel \<noteq> [] \<or> list_ex (\<lambda>i. case i of SAggregate _ _ _ \<Rightarrow> True | _ \<Rightarrow> False) (sel_items sel)"

definition execute_select :: "(nat \<Rightarrow> nat list) \<Rightarrow> rel_codecs \<Rightarrow> ('r, 'z) read_ops_scheme \<Rightarrow> 'r \<Rightarrow> select \<Rightarrow> params \<Rightarrow> query_result res" where
  "execute_select lower C ops r sel P =
    bind_res (require_schema_in C ops r (sel_table sel)) (\<lambda>s.
    bind_res (bind_filter P (sel_filter sel)) (\<lambda>q.
    bind_res (bind_count P (sel_limit sel)) (\<lambda>limit.
    bind_res (bind_count P (sel_offset sel)) (\<lambda>offset.
    let offset = (case offset of Some n \<Rightarrow> n | None \<Rightarrow> 0) in
    if \<not> aggregating sel then select_plain lower C ops r s sel q limit offset
    else select_aggregate lower C ops r s sel q limit offset))))"

definition execute_read :: "(nat \<Rightarrow> nat list) \<Rightarrow> rel_codecs \<Rightarrow> ('r, 'z) read_ops_scheme \<Rightarrow> 'r \<Rightarrow> statement \<Rightarrow> params \<Rightarrow> query_result res" where
  "execute_read lower C ops r st P = (case st of
      Select sel \<Rightarrow> execute_select lower C ops r sel P
    | _ \<Rightarrow> Err (InvalidQuery ''this statement modifies data; run it in a write transaction''))"

section \<open>Statements that write\<close>

definition affected :: "nat \<Rightarrow> query_result" where
  "affected n = \<lparr>qr_columns = [], qr_rows = [], qr_affected = word_of_nat n\<rparr>"

definition insert_row :: "params \<Rightarrow> string list \<Rightarrow> operand list \<Rightarrow> properties list \<Rightarrow> properties list res" where
  "insert_row P names row batch =
    (if length row \<noteq> length names then Err (InvalidQuery ''row has the wrong number of values'')
     else
       bind_res (for_res (\<lambda>(name, x) props. bind_res (op_bind P x) (\<lambda>v. Ok (bt_insert name v props))) (zip names row) []) (\<lambda>props.
       Ok (batch @ [props])))"

definition execute_insert :: "rel_codecs \<Rightarrow> 'w search_hooks \<Rightarrow> ('w, 'z) write_ops_scheme \<Rightarrow> 'w \<Rightarrow> string \<Rightarrow> string list option
    \<Rightarrow> operand list list \<Rightarrow> bool \<Rightarrow> params \<Rightarrow> (query_result \<times> 'w) res" where
  "execute_insert C H ops w t columns rows upsert P =
    bind_res (require_schema_in C ops w t) (\<lambda>s.
    let names = (case columns of Some cols \<Rightarrow> cols | None \<Rightarrow> map cs_name (td_columns s)) in
    if \<not> distinct names then Err (InvalidQuery ''column is listed twice'')
    else
      bind_res (for_res (insert_row P names) rows []) (\<lambda>batch.
      bind_res (insert_bulk_in C H ops w s batch (if upsert then Replace else OnError)) (\<lambda>(pks, w).
      Ok (\<lparr>qr_columns = [td_primary_key s], qr_rows = map (\<lambda>pk. [pk]) pks, qr_affected = word_of_nat (length pks)\<rparr>, w))))"

definition execute_update :: "(nat \<Rightarrow> nat list) \<Rightarrow> rel_codecs \<Rightarrow> 'w search_hooks \<Rightarrow> ('w, 'z) write_ops_scheme \<Rightarrow> 'w \<Rightarrow> string
    \<Rightarrow> (string \<times> operand) list \<Rightarrow> cond option \<Rightarrow> params \<Rightarrow> (query_result \<times> 'w) res" where
  "execute_update lower C H ops w t sets f P =
    bind_res (require_schema_in C ops w t) (\<lambda>s.
    bind_res (bind_filter P f) (\<lambda>q.
    bind_res (traverse (\<lambda>(c, v). bind_res (op_bind P v) (\<lambda>v. Ok (c, v))) sets) (\<lambda>sets.
    if list_ex (\<lambda>(c, _). ts_column s c = None) sets then Err (unknown_column s)
    else bind_res (update_in lower C H ops w s q sets) (\<lambda>(n, w). Ok (affected n, w)))))"

definition execute_delete :: "(nat \<Rightarrow> nat list) \<Rightarrow> rel_codecs \<Rightarrow> 'w search_hooks \<Rightarrow> ('w, 'z) write_ops_scheme \<Rightarrow> 'w \<Rightarrow> string
    \<Rightarrow> cond option \<Rightarrow> params \<Rightarrow> (query_result \<times> 'w) res" where
  "execute_delete lower C H ops w t f P =
    bind_res (require_schema_in C ops w t) (\<lambda>s.
    bind_res (bind_filter P f) (\<lambda>q.
    bind_res (delete_in lower C H ops w s q) (\<lambda>(n, w). Ok (affected n, w))))"

text \<open>The statements that change a definition build the new one and hand it to the catalog.\<close>

definition redefine :: "rel_codecs \<Rightarrow> 'w search_hooks \<Rightarrow> ('w, 'z) write_ops_scheme \<Rightarrow> 'w \<Rightarrow> table_schema_builder \<Rightarrow> (query_result \<times> 'w) res" where
  "redefine C H ops w b = bind_res (build b) (\<lambda>s. bind_res (ensure_table_in C H ops w s) (\<lambda>w. Ok (affected 0, w)))"

definition execute :: "(nat \<Rightarrow> nat list) \<Rightarrow> rel_codecs \<Rightarrow> 'w search_hooks \<Rightarrow> ('w, 'z) write_ops_scheme \<Rightarrow> 'w \<Rightarrow> statement \<Rightarrow> params
    \<Rightarrow> (query_result \<times> 'w) res" where
  "execute lower C H ops w st P = (case st of
      Select sel \<Rightarrow> bind_res (execute_select lower C ops w sel P) (\<lambda>out. Ok (out, w))
    | Insert t columns rows upsert \<Rightarrow> execute_insert C H ops w t columns rows upsert P
    | Update t sets f \<Rightarrow> execute_update lower C H ops w t sets f P
    | Delete t f \<Rightarrow> execute_delete lower C H ops w t f P
    | CreateTable s if_not_exists \<Rightarrow>
        bind_res (load_schema_in C ops w (td_name s)) (\<lambda>old.
        if old \<noteq> None then (if if_not_exists then Ok (affected 0, w) else Err (InvalidQuery ''table already exists''))
        else bind_res (create_table_in C ops w s) (\<lambda>(_, w). Ok (affected 0, w)))
    | DropTable t if_exists \<Rightarrow>
        bind_res (drop_table_in C H ops w t) (\<lambda>(dropped, w).
        if \<not> dropped \<and> \<not> if_exists then Err (TableNotFound t) else Ok (affected 0, w))
    | CreateIndex t column if_not_exists \<Rightarrow>
        bind_res (require_schema_in C ops w t) (\<lambda>s.
        if is_indexed s column \<and> \<not> if_not_exists then Err (InvalidQuery ''column is already indexed'')
        else redefine C H ops w (tsb_index (to_builder s) column))
    | DropIndex t column if_exists \<Rightarrow>
        bind_res (require_schema_in C ops w t) (\<lambda>s.
        if \<not> is_indexed s column then (if if_exists then Ok (affected 0, w) else Err (InvalidQuery ''column is not indexed''))
        else redefine C H ops w (tsb_drop_index (to_builder s) column))
    | AddColumn t column \<Rightarrow>
        bind_res (require_schema_in C ops w t) (\<lambda>s.
        if ts_column s (cs_name column) \<noteq> None then Err (InvalidQuery ''column already exists'')
        else redefine C H ops w (tsb_column (to_builder s) column))
    | DropColumn t column \<Rightarrow>
        bind_res (require_schema_in C ops w t) (\<lambda>s.
        if ts_column s column = None then Err (unknown_column s)
        else if column = td_primary_key s then Err (InvalidQuery ''cannot drop the primary key column'')
        else redefine C H ops w (tsb_drop_column (to_builder s) column)))"

end
