(* ===== verification/Sql_Run.thy ===== *)
theory Sql_Run
  imports Sql_Cond Sql_Exec Rel_Registry
begin

text \<open>
  SQL statements on the registry of tables. A SELECT returns the rows that satisfy its condition, sorted, paged and read through its
  paths; INSERT, UPDATE and DELETE change exactly the named table, as the specifications of the relational store say.
\<close>

section \<open>Filters\<close>

definition filter_binds :: "params \<Rightarrow> cond option \<Rightarrow> bool" where
  "filter_binds P f = (case f of None \<Rightarrow> True | Some c \<Rightarrow> cond_binds P c)"

definition filter_holds :: "(nat \<Rightarrow> nat list) \<Rightarrow> table_schema \<Rightarrow> params \<Rightarrow> cond option \<Rightarrow> row \<Rightarrow> bool" where
  "filter_holds lower s P f row = (case f of None \<Rightarrow> True | Some c \<Rightarrow> cond_holds lower s P row c)"

definition filter_paths :: "cond option \<Rightarrow> string list" where
  "filter_paths f = (case f of None \<Rightarrow> [] | Some c \<Rightarrow> cond_paths c)"

abbreviation known :: "table_schema \<Rightarrow> string list \<Rightarrow> bool" where
  "known s ps \<equiv> \<forall>p\<in>set ps. root_column s p \<noteq> None"

lemma row_cells_ok: "table_wf s T \<Longrightarrow> x \<in> rows_in T \<Longrightarrow> cells_ok x"
  by (auto simp: table_wf_def rows_in_def row_ok_def cells_ok_def)

text \<open>The query a condition is bound to selects the rows that satisfy it.\<close>

definition filter_query :: "(nat \<Rightarrow> nat list) \<Rightarrow> table_schema \<Rightarrow> params \<Rightarrow> cond option \<Rightarrow> query \<Rightarrow> bool" where
  "filter_query lower s P f q \<longleftrightarrow> (\<forall>e\<in>set (q_filters q). expr_ok e) \<and>
    q_columns q = None \<and> q_order q = [] \<and> q_limit q = None \<and> q_offset q = 0 \<and>
    (\<forall>order lim off. known s (map fst order) \<longrightarrow> check_columns (q\<lparr>q_order := order, q_offset := off, q_limit := lim\<rparr>) s [] = Ok ()) \<and>
    (\<forall>T. table_wf s T \<longrightarrow> {x \<in> rows_in T. matches lower q s x} = {x \<in> rows_in T. filter_holds lower s P f x})"

lemma check_known:
  assumes "known s (concat (map expr_columns (q_filters q)))" "known s (map fst (q_order q))" "q_columns q = None"
  shows "check_columns q s [] = Ok ()"
proof -
  have "find (\<lambda>p. root_column s p = None) (concat (map expr_columns (q_filters q)) @ map fst (q_order q)) = None"
    using assms(1,2) by (simp only: find_None_iff set_append ball_Un Un_iff) blast
  then show ?thesis using assms(3) by (simp add: check_columns_def Let_def)
qed

lemma bind_filter_exact:
  assumes "filter_binds P f" "known s (filter_paths f)"
  shows "\<exists>q. bind_filter P f = Ok q \<and> filter_query lower s P f q"
proof (cases f)
  case None
  show ?thesis
    by (rule exI [of _ q_new]) (auto simp: None filter_query_def bind_filter_def q_new_def matches_def filter_holds_def
        intro!: check_known)
next
  case (Some c)
  obtain e where e: "bind_expr P c = Ok e" "decides lower s P c e"
    using bind_expr_decides assms(1) Some unfolding filter_binds_def by (metis option.simps(5))
  have "known s (expr_columns e)" using e(2) assms(2) by (simp add: Some decides_def filter_paths_def)
  then show ?thesis using e
    by (intro exI [of _ "q_filter q_new e"]) (auto simp: Some filter_query_def bind_filter_def q_filter_def q_new_def
        matches_def filter_holds_def decides_def dest: row_cells_ok intro!: check_known)
qed

section \<open>Output columns\<close>

fun item_names :: "table_schema \<Rightarrow> select_item \<Rightarrow> string list" where
  "item_names s SStar = star_columns s"
| "item_names s (SColumn path alias) = [or_name alias path]"
| "item_names s (SAggregate f c alias) = []"

fun item_paths :: "table_schema \<Rightarrow> select_item \<Rightarrow> string list" where
  "item_paths s SStar = star_columns s"
| "item_paths s (SColumn path alias) = [path]"
| "item_paths s (SAggregate f c alias) = []"

definition plain_items :: "table_schema \<Rightarrow> select \<Rightarrow> bool" where
  "plain_items s sel \<longleftrightarrow> \<not> aggregating sel \<and> (\<forall>path alias. SColumn path alias \<in> set (sel_items sel) \<longrightarrow> root_column s path \<noteq> None)"

lemma plain_items_outputs:
  assumes "plain_items s sel"
  shows "for_res (plain_item s) (sel_items sel) ([], []) =
    Ok (concat (map (item_names s) (sel_items sel)), concat (map (item_paths s) (sel_items sel)))"
proof -
  have "for_res (plain_item s) items (cols, ps) = Ok (cols @ concat (map (item_names s) items), ps @ concat (map (item_paths s) items))"
    if "\<forall>i\<in>set items. case i of SAggregate _ _ _ \<Rightarrow> False | SColumn path _ \<Rightarrow> root_column s path \<noteq> None | SStar \<Rightarrow> True" for items cols ps
    using that by (induction items arbitrary: cols ps) (auto simp: plain_item_def split: select_item.splits)
  moreover have "\<forall>i\<in>set (sel_items sel). case i of SAggregate _ _ _ \<Rightarrow> False | SColumn path _ \<Rightarrow> root_column s path \<noteq> None | SStar \<Rightarrow> True"
    using assms by (auto simp: plain_items_def aggregating_def list_ex_iff split: select_item.splits)
  ultimately show ?thesis by simp
qed

section \<open>Statements in a transaction\<close>

context rel_read
begin

lemma require_schema_view:
  assumes "inv r" "tables_repr C U D (view r)" "D n = Some (s, T)"
  shows "require_schema_in C ops r n = Ok s"
proof -
  have reg: "rel_codecs_ok C" "schema_ok s" using assms(2) registry_entry(3) [OF assms(2,3)] by (simp_all add: tables_repr_def)
  have name: "check_table_name n = Ok ()"
    using reg(2) registry_entry(1) [OF assms(2,3)] by (auto simp: schema_ok_def check_table_name_def)
  obtain bs where bs: "encode_table_def C s = Ok bs" "view r meta_table (catalog_key n) = Some bs" using registry_entry(4) [OF assms(2,3)] by blast
  moreover obtain bs' where "encode_table_def C s = Ok bs'" "decode_table_def C bs' = Ok s" by (rule encode_table_defE [OF reg])
  ultimately show ?thesis using get_view [OF assms(1) meta_tbl_ok] by (simp add: require_schema_in_def load_schema_in_def name)
qed

lemma select_exact:
  assumes r: "inv r" "tables_repr C U D (view r)" "D (sel_table sel) = Some (s, T)"
    and f: "filter_binds P (sel_filter sel)" "known s (filter_paths (sel_filter sel))" "known s (map fst (sel_order sel))" "plain_items s sel"
    and n: "bind_count P (sel_limit sel) = Ok lim" "bind_count P (sel_offset sel) = Ok off"
  shows "\<exists>rows. distinct rows \<and> set rows = {x \<in> rows_in T. filter_holds lower s P (sel_filter sel) x} \<and>
    execute_select lower C ops r sel P = Ok \<lparr>qr_columns = concat (map (item_names s) (sel_items sel)),
      qr_rows = map (\<lambda>row. map (read_path s row) (concat (map (item_paths s) (sel_items sel))))
        (page (q_new\<lparr>q_offset := case off of Some k \<Rightarrow> k | None \<Rightarrow> 0, q_limit := lim\<rparr>) (sort_by (order_cmp s (sel_order sel)) rows)),
      qr_affected = 0\<rparr>"
proof -
  obtain q where b: "bind_filter P (sel_filter sel) = Ok q" and q: "filter_query lower s P (sel_filter sel) q"
    using bind_filter_exact [OF f(1,2)] by blast
  let ?o = "case off of Some k \<Rightarrow> k | None \<Rightarrow> 0"
  let ?q = "q\<lparr>q_order := sel_order sel, q_offset := ?o, q_limit := lim\<rparr>"
  have T: "table_repr C s T (view r)" "table_wf s T" using registry_entry(2) [OF r(2,3)] by (simp_all add: table_repr_def)
  obtain out where out: "select_in lower C ops r s ?q = Ok out" "selects lower s T ?q out"
    using select_in_view [where lower = lower and C = C and s = s and r = r and T = T and q = ?q] r(1) T(1) q f(3) by (auto simp: filter_query_def)
  obtain rows where rows: "distinct rows" "set rows = {x \<in> rows_in T. matches lower ?q s x}"
      "out = map (project_row ?q) (page ?q (sort_by (order_cmp s (q_order ?q)) rows))"
    using out(2) unfolding selects_def by blast
  have "matches lower ?q s = matches lower q s" by (simp add: fun_eq_iff matches_def)
  then have "set rows = {x \<in> rows_in T. filter_holds lower s P (sel_filter sel) x}" using rows(2) q T(2) by (simp add: filter_query_def)
  moreover have "out = page (q_new\<lparr>q_offset := ?o, q_limit := lim\<rparr>) (sort_by (order_cmp s (sel_order sel)) rows)"
    using rows(3) q by (cases lim) (simp_all add: filter_query_def page_def project_row_def [abs_def])
  moreover have "execute_select lower C ops r sel P = Ok \<lparr>qr_columns = concat (map (item_names s) (sel_items sel)),
      qr_rows = map (\<lambda>row. map (read_path s row) (concat (map (item_paths s) (sel_items sel)))) out, qr_affected = 0\<rparr>"
    using f(4) by (simp add: execute_select_def require_schema_view [OF r] b n plain_items_def select_plain_def plain_items_outputs [OF f(4)] out(1))
  ultimately show ?thesis using rows(1) by blast
qed

end

text \<open>The table left by a deletion, and the rows of an INSERT by column.\<close>

definition kept :: "(nat \<Rightarrow> nat list) \<Rightarrow> table_schema \<Rightarrow> params \<Rightarrow> cond option \<Rightarrow> rows \<Rightarrow> rows" where
  "kept lower s P f T pk = (case T pk of
      Some vs \<Rightarrow> if filter_holds lower s P f \<lparr>row_pk = pk, row_values = vs\<rparr> then None else Some vs
    | None \<Rightarrow> None)"

definition bound_sets :: "params \<Rightarrow> (string \<times> operand) list \<Rightarrow> (string \<times> prop_value) list" where
  "bound_sets P sets = map (\<lambda>(c, v). (c, bound_to P v)) sets"

definition bound_row :: "params \<Rightarrow> string list \<Rightarrow> operand list \<Rightarrow> properties" where
  "bound_row P names row = fold (\<lambda>(name, x) m. bt_insert name (bound_to P x) m) (zip names row) []"

definition insert_names :: "table_schema \<Rightarrow> string list option \<Rightarrow> string list" where
  "insert_names s columns = (case columns of Some cols \<Rightarrow> cols | None \<Rightarrow> map cs_name (td_columns s))"

definition rows_bind :: "params \<Rightarrow> string list \<Rightarrow> operand list list \<Rightarrow> bool" where
  "rows_bind P names rows \<longleftrightarrow> (\<forall>row\<in>set rows. length row = length names \<and> (\<forall>x\<in>set row. binds P x))"

lemma for_res_Ok: "(\<And>x s. x \<in> set xs \<Longrightarrow> f x s = Ok (g x s)) \<Longrightarrow> for_res f xs s = Ok (fold g xs s)"
  by (induction xs arbitrary: s) simp_all

lemma insert_rows_bound:
  assumes "rows_bind P names rows"
  shows "for_res (insert_row P names) rows batch = Ok (batch @ map (bound_row P names) rows)"
  using assms
proof (induction rows arbitrary: batch)
  case (Cons row rows)
  have "for_res (\<lambda>(name, x) props. bind_res (op_bind P x) (\<lambda>v. Ok (bt_insert name v props))) (zip names row) [] = Ok (bound_row P names row)"
    unfolding bound_row_def
    by (rule for_res_Ok) (use Cons.prems in \<open>auto simp: rows_bind_def binds_Ok dest: set_zip_rightD\<close>)
  then have "insert_row P names row batch = Ok (batch @ [bound_row P names row])"
    using Cons.prems by (simp add: insert_row_def rows_bind_def)
  then show ?case using Cons by (simp add: rows_bind_def)
qed simp

lemma without_kept:
  assumes "set targets = {x \<in> rows_in T. filter_holds lower s P f x}"
  shows "without T targets = kept lower s P f T"
proof
  fix pk
  have "pk \<in> row_pk ` set targets \<longleftrightarrow> (\<exists>vs. T pk = Some vs \<and> filter_holds lower s P f \<lparr>row_pk = pk, row_values = vs\<rparr>)"
  proof
    assume "pk \<in> row_pk ` set targets"
    then obtain x where x: "x \<in> set targets" "pk = row_pk x" by auto
    obtain k vs where "x = \<lparr>row_pk = k, row_values = vs\<rparr>" by (rule row.cases)
    with x assms show "\<exists>vs. T pk = Some vs \<and> filter_holds lower s P f \<lparr>row_pk = pk, row_values = vs\<rparr>"
      by auto
  next
    assume "\<exists>vs. T pk = Some vs \<and> filter_holds lower s P f \<lparr>row_pk = pk, row_values = vs\<rparr>"
    then obtain vs where "\<lparr>row_pk = pk, row_values = vs\<rparr> \<in> set targets" using assms by auto
    then show "pk \<in> row_pk ` set targets" by force
  qed
  then show "without T targets pk = kept lower s P f T pk" by (auto simp: without_def kept_def split: option.splits)
qed

context rel_store
begin

lemma require_schema_tx:
  assumes "tables_tx inv view hinv C U D w" "D n = Some (s, T)"
  shows "require_schema_in C ops w n = Ok s"
  by (rule require_schema_view [of w C U D]) (use assms in \<open>simp_all add: tables_tx_def\<close>)

lemma delete_exact:
  assumes tx: "tables_tx inv view hinv C U D w" "D t = Some (s, T)"
    and f: "filter_binds P f" "known s (filter_paths f)"
  shows "ok_with (execute_delete lower C H ops w t f P) (\<lambda>(out, w').
    out = affected (card {x \<in> rows_in T. filter_holds lower s P f x}) \<and> tables_tx inv view hinv C U (D(t \<mapsto> (s, kept lower s P f T))) w')"
proof -
  obtain q where b: "bind_filter P f = Ok q" and q: "filter_query lower s P f q" using bind_filter_exact [OF f] by blast
  note tab = registry_table [OF tx]
  have T: "table_wf s T" using tab(2) by (simp add: rel_tx_def table_repr_def)
  have q0: "q\<lparr>q_columns := None\<rparr> = q\<lparr>q_order := [], q_offset := 0, q_limit := None\<rparr>" using q by (simp add: filter_query_def)
  have chk: "check_columns (q\<lparr>q_columns := None\<rparr>) s [] = Ok ()" unfolding q0 using q by (simp add: filter_query_def)
  obtain targets where t: "selects lower s T (q\<lparr>q_columns := None\<rparr>) targets"
      "ok_with (delete_in lower C H ops w s q) (\<lambda>(n, w'). n = length targets \<and> rel_tx inv view hinv C s w' (without T targets) \<and> only_table s (view w) (view w'))"
    using delete_in_refines [OF tab(2) _ chk, of lower] q by (auto simp: filter_query_def)
  have rows: "set targets = {x \<in> rows_in T. filter_holds lower s P f x}" "distinct targets"
    using selects_rows(1,4) [OF t(1)] q T by (simp_all add: filter_query_def)
  have "without T targets = kept lower s P f T" by (rule without_kept [OF rows(1)])
  moreover have "length targets = card {x \<in> rows_in T. filter_holds lower s P f x}" using distinct_card [OF rows(2)] rows(1) by simp
  ultimately show ?thesis
    using t(2) row_write_registry [OF tx] by (auto simp: execute_delete_def require_schema_tx [OF tx] b ok_with_iff only_table_auto_def)
qed

lemma update_exact:
  assumes tx: "tables_tx inv view hinv C U D w" "D t = Some (s, T)"
    and f: "filter_binds P f" "known s (filter_paths f)"
    and sets: "\<forall>(c, v)\<in>set sets. binds P v \<and> ts_column s c \<noteq> None \<and> c \<noteq> td_primary_key s" "sets_ok s (bound_sets P sets)"
  shows "\<exists>targets. distinct targets \<and> set targets = {x \<in> rows_in T. filter_holds lower s P f x} \<and>
    refines (update_all s (bound_sets P sets) targets T) (execute_update lower C H ops w t sets f P)
      (\<lambda>(n, T') (out, w'). out = affected n \<and> tables_tx inv view hinv C U (D(t \<mapsto> (s, T'))) w')"
proof -
  obtain q where b: "bind_filter P f = Ok q" and q: "filter_query lower s P f q" using bind_filter_exact [OF f] by blast
  note tab = registry_table [OF tx]
  have T: "table_wf s T" using tab(2) by (simp add: rel_tx_def table_repr_def)
  have q0: "q\<lparr>q_columns := None\<rparr> = q\<lparr>q_order := [], q_offset := 0, q_limit := None\<rparr>" using q by (simp add: filter_query_def)
  have chk: "check_columns (q\<lparr>q_columns := None\<rparr>) s [] = Ok ()" unfolding q0 using q by (simp add: filter_query_def)
  have pk: "td_primary_key s \<notin> fst ` set (bound_sets P sets)" using sets(1) by (auto simp: bound_sets_def)
  obtain targets where t: "selects lower s T (q\<lparr>q_columns := None\<rparr>) targets"
      "refines (update_all s (bound_sets P sets) targets T) (update_in lower C H ops w s q (bound_sets P sets))
        (\<lambda>(n, T') (n', w'). n' = n \<and> rel_tx inv view hinv C s w' T' \<and> only_table s (view w) (view w'))"
    using update_in_refines [OF tab(2) _ chk sets(2) pk, of lower] q by (auto simp: filter_query_def)
  have rows: "set targets = {x \<in> rows_in T. filter_holds lower s P f x}" "distinct targets"
    using selects_rows(1,4) [OF t(1)] q T by (simp_all add: filter_query_def)
  have "traverse (\<lambda>(c, v). bind_res (op_bind P v) (\<lambda>v. Ok (c, v))) sets = Ok (bound_sets P sets)"
    unfolding bound_sets_def by (rule traverse_Ok) (use sets(1) in \<open>auto simp: binds_Ok\<close>)
  moreover have "\<not> list_ex (\<lambda>(c, _). ts_column s c = None) (bound_sets P sets)" using sets(1) by (auto simp: bound_sets_def list_ex_iff)
  ultimately have e: "execute_update lower C H ops w t sets f P =
      bind_res (update_in lower C H ops w s q (bound_sets P sets)) (\<lambda>(n, w). Ok (affected n, w))"
    by (simp add: execute_update_def require_schema_tx [OF tx] b)
  have "refines (update_all s (bound_sets P sets) targets T) (execute_update lower C H ops w t sets f P)
      (\<lambda>(n, T') (out, w'). out = affected n \<and> tables_tx inv view hinv C U (D(t \<mapsto> (s, T'))) w')"
    using t(2) row_write_registry [OF tx] unfolding e
    by (cases "update_all s (bound_sets P sets) targets T") (auto simp: ok_with_iff only_table_auto_def)
  then show ?thesis using rows by blast
qed

lemma insert_exact:
  assumes tx: "tables_tx inv view hinv C U D w" "D t = Some (s, T)"
    and rows: "distinct (insert_names s columns)" "rows_bind P (insert_names s columns) rows"
    and batch: "batch = map (bound_row P (insert_names s columns)) rows" "\<forall>vs\<in>set batch. item_ok s vs"
    and n: "td_auto_increment_pk s \<Longrightarrow> auto_at s (view w) T n \<and> unat n + length (filter (allocates_pk s) batch) < 2 ^ 64"
  shows "refines (insert_spec s (if upsert then Replace else OnError) n batch T) (execute_insert C H ops w t columns rows upsert P)
    (\<lambda>(pks, T') (out, w'). out = \<lparr>qr_columns = [td_primary_key s], qr_rows = map (\<lambda>pk. [pk]) pks, qr_affected = word_of_nat (length pks)\<rparr> \<and>
      tables_tx inv view hinv C U (D(t \<mapsto> (s, T'))) w')"
proof -
  note tab = registry_table [OF tx]
  let ?c = "if upsert then Replace else OnError"
  have i: "refines (insert_spec s ?c n batch T) (insert_bulk_in C H ops w s batch ?c) (\<lambda>(pks, T') (pks', w'). pks' = pks \<and> auto_tx inv view hinv C s 0 (view w) w' T')"
    by (rule insert_bulk_refines [OF tab(2) batch(2) n])
  have e: "execute_insert C H ops w t columns rows upsert P = bind_res (insert_bulk_in C H ops w s batch ?c) (\<lambda>(pks, w).
      Ok (\<lparr>qr_columns = [td_primary_key s], qr_rows = map (\<lambda>pk. [pk]) pks, qr_affected = word_of_nat (length pks)\<rparr>, w))"
    using rows insert_rows_bound [OF rows(2), of "[]"] by (simp add: execute_insert_def require_schema_tx [OF tx] insert_names_def batch(1))
  show ?thesis
    using i row_write_registry [OF tx] unfolding e
    by (cases "insert_spec s ?c n batch T") (auto simp: ok_with_iff auto_tx_def)
qed

end

end
