(* ===== verification/Sql_Correct.thy ===== *)
theory Sql_Correct
  imports Sql_Run Rel_Correct
begin

text \<open>
  The contract of SQL statements, for every transaction the relational layer can run on; the witnesses run statements on the users
  of the in-memory backend.
\<close>

text \<open>C22: A SELECT without aggregates on a registered table returns, under the names and through the paths of its items, exactly the
  rows that satisfy its WHERE condition, sorted by ORDER BY and cut by OFFSET and LIMIT. The condition is read with LIKE as matching
  over characters, although the execution turns patterns into prefix tests on bytes and may answer them from an index.\<close>

theorem sql_select_exact:
  assumes "rel_read ops I ok view" "I r" "tables_repr C U D (view r)" "D (sel_table sel) = Some (s, T)"
    and "filter_binds P (sel_filter sel)" "known s (filter_paths (sel_filter sel))" "known s (map fst (sel_order sel))" "plain_items s sel"
    and "bind_count P (sel_limit sel) = Ok lim" "bind_count P (sel_offset sel) = Ok off"
  shows "\<exists>rows. distinct rows \<and> set rows = {x \<in> rows_in T. filter_holds lower s P (sel_filter sel) x} \<and>
    execute_read lower C ops r (Select sel) P = Ok \<lparr>qr_columns = concat (map (item_names s) (sel_items sel)),
      qr_rows = map (\<lambda>row. map (read_path s row) (concat (map (item_paths s) (sel_items sel))))
        (page (q_new\<lparr>q_offset := case off of Some k \<Rightarrow> k | None \<Rightarrow> 0, q_limit := lim\<rparr>) (sort_by (order_cmp s (sel_order sel)) rows)),
      qr_affected = 0\<rparr>"
  unfolding execute_read_def statement.case by (rule rel_read.select_exact [OF assms])

text \<open>\<open>SELECT name AS n, age FROM users WHERE name LIKE 'a%' AND age >= ? LIMIT 5\<close>, with 18.\<close>

definition adult_a :: "cond option" where
  "adult_a = Some (CAnd [CLike ''name'' (OLit (Str ''a%'')) False False, CCmp ''age'' OpGe (OParam (PIndex 0))])"

definition eighteen :: params where
  "eighteen = \<lparr>p_positional = [IntV 18], p_named = []\<rparr>"

definition names_query :: select where
  "names_query = \<lparr>sel_table = ''users'', sel_items = [SColumn ''name'' (Some ''n''), SColumn ''age'' None], sel_filter = adult_a, sel_group_by = [],
     sel_order = [], sel_limit = Some (OLit (IntV 5)), sel_offset = None\<rparr>"

lemma adult_a_binds: "filter_binds eighteen adult_a" "known users (filter_paths adult_a)"
  by (simp_all add: filter_binds_def adult_a_def eighteen_def binds_def bound_to_def filter_paths_def root_column_def ts_column_def users_def)

lemma adult_a_ann: "{x \<in> rows_in ann_only. filter_holds lower users eighteen adult_a x} = {\<lparr>row_pk = IntV 1, row_values = ann\<rparr>}"
proof -
  have "like (chars ''ann'') (chars ''a%'')" by (simp add: chars_def like.simps(2))
  then have "filter_holds lower users eighteen adult_a \<lparr>row_pk = IntV 1, row_values = ann\<rparr>"
    by (simp add: filter_holds_def adult_a_def eighteen_def bound_to_def resolve_def row_get_def ts_column_def users_def ann_def non_null_def
        letters_def op_holds_def)
  then show ?thesis by (auto simp: ann_only_def rows_in_def row_eq_iff split: if_splits)
qed

lemma singleton_list: "distinct xs \<Longrightarrow> set xs = {x} \<Longrightarrow> xs = [x]"
  by (cases xs) (auto simp: distinct_card [symmetric] subset_singleton_iff)

lemma ann_cells: "read_path users \<lparr>row_pk = IntV 1, row_values = ann\<rparr> ''name'' = Str ''ann''"
    "read_path users \<lparr>row_pk = IntV 1, row_values = ann\<rparr> ''age'' = IntV 30"
  by (simp_all add: read_path_def resolve_def row_get_def ts_column_def users_def ann_def)

theorem sql_select_exact_witness:
  "\<exists>w. demo_registry [''users'' \<mapsto> (users, ann_only)] w \<and>
    execute_read (\<lambda>c. [c]) demo_rel_codecs mem_write_ops w (Select names_query) eighteen =
      Ok \<lparr>qr_columns = [''n'', ''age''], qr_rows = [[Str ''ann'', IntV 30]], qr_affected = 0\<rparr>"
proof -
  obtain w where w: "demo_registry [''users'' \<mapsto> (users, ann_only)] w" using demo_registry_ann by blast
  have q: "plain_items users names_query" "bind_count eighteen (sel_limit names_query) = Ok (Some 5)" "bind_count eighteen (sel_offset names_query) = Ok None"
      "filter_binds eighteen (sel_filter names_query)" "known users (filter_paths (sel_filter names_query))" "known users (map fst (sel_order names_query))"
      "[''users'' \<mapsto> (users, ann_only)] (sel_table names_query) = Some (users, ann_only)"
    using adult_a_binds by (auto simp: plain_items_def names_query_def aggregating_def bind_count_def root_column_def ts_column_def users_def)
  have "mem_tx_ok w" "registry_repr demo_rel_codecs [''users'' \<mapsto> (users, ann_only)] (mem_view w)" using w by (simp_all add: tables_tx_def)
  from sql_select_exact [OF mem_rw.rel_read_axioms this q(7,4,5,6,1,2,3), of "\<lambda>c. [c]"]
  obtain rows where rows: "distinct rows" "set rows = {x \<in> rows_in ann_only. filter_holds (\<lambda>c. [c]) users eighteen (sel_filter names_query) x}"
    and e: "execute_read (\<lambda>c. [c]) demo_rel_codecs mem_write_ops w (Select names_query) eighteen =
      Ok \<lparr>qr_columns = concat (map (item_names users) (sel_items names_query)),
        qr_rows = map (\<lambda>row. map (read_path users row) (concat (map (item_paths users) (sel_items names_query))))
          (page (q_new\<lparr>q_offset := case None of Some k \<Rightarrow> k | None \<Rightarrow> 0, q_limit := Some 5\<rparr>) (sort_by (order_cmp users (sel_order names_query)) rows)),
        qr_affected = 0\<rparr>"
    by blast
  have "rows = [\<lparr>row_pk = IntV 1, row_values = ann\<rparr>]" using singleton_list [OF rows(1)] rows(2) adult_a_ann by (simp add: names_query_def)
  then show ?thesis using w e by (auto simp: names_query_def or_name_def page_def sort_by_def sat_add_def ann_cells)
qed

text \<open>C23: A DELETE leaves exactly the rows that do not satisfy its condition and reports how many it removed; an UPDATE applies its
  assignments to exactly the rows that satisfy its condition, one after another, stopping at the first that fails. Nothing but the
  named table changes.\<close>

theorem sql_changes_refine:
  assumes "rel_store ops I ok view H hinv" "tables_tx I view hinv C U D w" "D t = Some (s, T)" "filter_binds P f" "known s (filter_paths f)"
    and "\<forall>(c, v)\<in>set sets. binds P v \<and> ts_column s c \<noteq> None \<and> c \<noteq> td_primary_key s" "sets_ok s (bound_sets P sets)"
  shows "ok_with (execute lower C H ops w (statement.Delete t f) P) (\<lambda>(out, w').
      out = affected (card {x \<in> rows_in T. filter_holds lower s P f x}) \<and> tables_tx I view hinv C U (D(t \<mapsto> (s, kept lower s P f T))) w') \<and>
    (\<exists>targets. distinct targets \<and> set targets = {x \<in> rows_in T. filter_holds lower s P f x} \<and>
      refines (update_all s (bound_sets P sets) targets T) (execute lower C H ops w (Update t sets f) P)
        (\<lambda>(n, T') (out, w'). out = affected n \<and> tables_tx I view hinv C U (D(t \<mapsto> (s, T'))) w'))"
  using rel_store.delete_exact [OF assms(1-5)] rel_store.update_exact [OF assms] by (simp add: execute_def)

theorem sql_changes_refine_witness:
  "\<exists>w w'. demo_registry [''users'' \<mapsto> (users, ann_only)] w \<and>
    execute (\<lambda>c. [c]) demo_rel_codecs no_search mem_write_ops w (statement.Delete ''users'' adult_a) eighteen = Ok (affected 1, w') \<and>
    demo_registry [''users'' \<mapsto> (users, Map.empty)] w'"
proof -
  obtain w where w: "demo_registry [''users'' \<mapsto> (users, ann_only)] w" using demo_registry_ann by blast
  have "filter_holds (\<lambda>c. [c]) users eighteen adult_a \<lparr>row_pk = IntV 1, row_values = ann\<rparr>" using adult_a_ann by blast
  then have "kept (\<lambda>c. [c]) users eighteen adult_a ann_only = Map.empty" by (simp add: fun_eq_iff kept_def ann_only_def)
  moreover have "sets_ok users (bound_sets eighteen [])" by (simp add: sets_ok_def bound_sets_def)
  ultimately show ?thesis
    using sql_changes_refine [OF mem_rw.rel_store_axioms w _ adult_a_binds, of "''users''" ann_only "[]" "\<lambda>c. [c]"] w adult_a_ann [of "\<lambda>c. [c]"]
    by (auto simp: ok_with_iff)
qed

text \<open>C24: An INSERT stores its rows, bound by column name, one after another under the keys they carry or allocated ones, and returns
  the keys; INSERT OR REPLACE replaces rows that exist. Nothing but the named table changes.\<close>

theorem sql_insert_refines:
  assumes "rel_store ops I ok view H hinv" "tables_tx I view hinv C U D w" "D t = Some (s, T)"
    and "distinct (insert_names s columns)" "rows_bind P (insert_names s columns) rows"
    and "batch = map (bound_row P (insert_names s columns)) rows" "\<forall>vs\<in>set batch. item_ok s vs"
    and "td_auto_increment_pk s \<longrightarrow> auto_at s (view w) T n \<and> unat n + length (filter (allocates_pk s) batch) < 2 ^ 64"
  shows "refines (insert_spec s (if upsert then Replace else OnError) n batch T) (execute lower C H ops w (Insert t columns rows upsert) P)
    (\<lambda>(pks, T') (out, w'). out = \<lparr>qr_columns = [td_primary_key s], qr_rows = map (\<lambda>pk. [pk]) pks, qr_affected = word_of_nat (length pks)\<rparr> \<and>
      tables_tx I view hinv C U (D(t \<mapsto> (s, T'))) w')"
  unfolding execute_def statement.case by (rule rel_store.insert_exact [OF assms(1-7)]) (use assms(8) in simp)

text \<open>The users without automatic keys, and \<open>INSERT INTO users VALUES (1, 'ann', 30)\<close>.\<close>

definition members :: table_schema where
  "members = users\<lparr>td_auto_increment_pk := False\<rparr>"

definition ann_values :: "operand list" where
  "ann_values = [OLit (IntV 1), OLit (Str ''ann''), OLit (IntV 30)]"

lemma members_ok: "schema_ok members"
  using users_ok by (auto simp: schema_ok_def members_def)

lemma ann_member: "bound_row P (insert_names members None) ann_values = [(''age'', IntV 30), (''id'', IntV 1), (''name'', Str ''ann'')]"
    "distinct (insert_names members None)" "rows_bind P (insert_names members None) [ann_values]"
  by (simp_all add: bound_row_def insert_names_def members_def users_def ann_values_def bound_to_def rows_bind_def binds_def)

lemma ann_member_spec:
  "item_ok members [(''age'', IntV 30), (''id'', IntV 1), (''name'', Str ''ann'')]"
  "insert_spec members OnError 0 [[(''age'', IntV 30), (''id'', IntV 1), (''name'', Str ''ann'')]] Map.empty = Ok ([IntV 1], ann_only)"
  by (simp_all add: item_ok_def allocates_pk_def explicit_pk_def keys_ok_def stored_values_def fill_default_def validate_row_def check_value_def
      check_not_null_def ts_column_def kind_of_def ann_def members_def users_def properties_ok_def sortable_key_def as_bytes_def ann_only_def
      insert_spec_def insert_one_spec_def choose_pk_def write_spec_def unique_free_def)

theorem sql_insert_refines_witness:
  "\<exists>w w'. demo_registry [''users'' \<mapsto> (members, Map.empty)] w \<and>
    execute (\<lambda>c. [c]) demo_rel_codecs no_search mem_write_ops w (Insert ''users'' None [ann_values] False) eighteen =
      Ok (\<lparr>qr_columns = [''id''], qr_rows = [[IntV 1]], qr_affected = 1\<rparr>, w') \<and>
    demo_registry [''users'' \<mapsto> (members, ann_only)] w'"
proof -
  have m: "td_name members = ''users''" "td_primary_key members = ''id''" "\<not> td_auto_increment_pk members" by (simp_all add: members_def)
  obtain w where w: "demo_registry [''users'' \<mapsto> (members, Map.empty)] w"
    using mem_rw.ensure_table_outcome [OF demo_registry_empty members_ok]
    by (cases "ensure_table_in demo_rel_codecs no_search mem_write_ops demo_tx members") (auto simp: ensure_ok_def ensure_spec_def m adoptable_def found_rows_def unique_in_def rows_in_def)
  show ?thesis
    using sql_insert_refines [OF mem_rw.rel_store_axioms w _ ann_member(2,3) refl, where t = "''users''" and T = Map.empty and n = 0 and upsert = False and lower = "\<lambda>c. [c]" and P = eighteen] w
    by (auto simp: ann_member ann_member_spec m ok_with_iff)
qed

end
