(* ===== verification/Spec2Isabelle.thy ===== *)
theory Spec2Isabelle
  imports Mem_Backend Graph_Search Multi_Correct Lang_Time_Correct Sql_Correct
begin

text \<open>
  \<^bold>\<open>bkndb\<close> is an embedded multi-model database written in Rust. A storage backend keeps named tables of ordered byte
  keys and gives out snapshot read transactions and one write transaction at a time; on top of the same backend sit a
  key/value facade, a property graph and a relational store. This development models that code and proves it correct
  down to the bytes of the log-structured file.

  \<^bold>\<open>How the code is modelled.\<close> A Rust function is a HOL function of the same name; a method that changes its receiver
  returns it updated. The result type \<open>res\<close> has the two outcomes of \<open>Result\<close> and a third, \<open>Panic\<close>; the \<open>?\<close> operator is
  \<open>bind_res\<close>, a \<open>for\<close> loop with \<open>?\<close> in its body is \<open>for_res\<close>. A trait is a record of operations, so code generic in a
  trait takes such a record. Machine integers keep their width and wrap as in a release build. \<open>BTreeMap\<close> is the
  strictly ascending list of its entries, \<open>f64\<close> is its bit pattern. Names inside the texts of error messages are left
  out. Third-party code is a parameter: the checksum, the block compressor and the binary serialiser are records of
  functions (\<open>ext\<close>, \<open>graph_codecs\<close>, \<open>rel_codecs\<close>) with their documented round trips as hypotheses, and each such
  hypothesis is shown to hold of a concrete instance. Calls into the optional search feature are the record
  \<open>search_hooks\<close>; \<open>no_search\<close> is the build without the feature.

  \<^bold>\<open>Foundation.\<close> \<open>Prelude\<close> (results, loops, the refinement relation \<open>refines\<close>, bytes, strings, bounds, big-endian
  integers), \<open>BTree\<close>, \<open>Codec\<close>, \<open>Float64\<close> (exact IEEE arithmetic on bit patterns), \<open>Bfs\<close> (breadth-first search over any
  successor function). \<open>Value\<close> models \<open>bkndb-core/src/value.rs\<close>: equality, comparison, the sorting order, key encoding,
  nested paths and \<open>LIKE\<close>; key encodings order as the values do, and the backtracking \<open>LIKE\<close> matcher decides the
  declarative meaning of a pattern.

  \<^bold>\<open>Storage interface and key/value facade\<close> (\<open>Storage\<close>, from \<open>storage.rs\<close>, \<open>error.rs\<close>, \<open>reserved.rs\<close>, \<open>kv/\<close>). The locales
  \<open>storage_read\<close>, \<open>storage_write\<close> and \<open>storage_backend\<close> state what the layers above rely on: a transaction has a \<open>view\<close>, a
  map from table and key to value; reads return the view, writes change it at one key, commit makes it the backend's.

  \<^bold>\<open>In-memory backend\<close> (\<open>Mem_Backend\<close>, from \<open>bkndb-storage-mem/src/lib.rs\<close>). All operations and the contract; an inductive
  step relation of concurrent readers and one writer, with the theorems that every interleaving has the contents of the
  serial execution of its committed transactions and that a reader sees one snapshot for its whole life.

  \<^bold>\<open>LSM backend\<close> (\<open>bkndb-storage-lsm/src\<close>). \<open>Lsm_Env\<close> (third-party functions), \<open>Lsm_Keys\<close> (\<open>keys.rs\<close>: the shared keyspace
  keeps tables apart and in order), \<open>Lsm_Bloom\<close> (\<open>bloom.rs\<close>: no false negatives), \<open>Lsm_Merge\<close> (\<open>memtable.rs\<close>,
  \<open>compaction.rs\<close>: the heap-based k-way merge yields the newest live version of every key), \<open>Lsm_Sstable\<close>,
  \<open>Lsm_Sstable_Correct\<close>, \<open>Lsm_Sstable_Write\<close> (\<open>sstable/\<close>: blocks, index, point lookup, cursor, both file versions; what is
  written is what is read), \<open>Lsm_Wal\<close> (\<open>wal.rs\<close>: replay after a torn append), \<open>Lsm_Container\<close> (\<open>container.rs\<close>,
  \<open>manifest.rs\<close>: two header slots written in turn), \<open>Lsm_Engine\<close> (\<open>engine/\<close>: open with recovery, transactions, commit,
  flush, compaction, backup, integrity check), \<open>Lsm_Read\<close> (reads meet the contract), \<open>Lsm_Recovery\<close> and \<open>Lsm_Durable\<close> (the
  invariant between memory and file; every file a crash can leave during a commit opens to the state before or after it; a
  file left by a crash during a flush opens to the same contents unless a checksum matches by accident or the header slot is
  torn inside its version field, which locks the database out), \<open>Lsm_Demo\<close> (an instance of the third-party functions).

  \<^bold>\<open>Graph store\<close> (\<open>bkndb-core/src/graph\<close>). \<open>Graph_Codec\<close> (\<open>model.rs\<close>, \<open>codec.rs\<close>), \<open>Graph_Index\<close> (\<open>index.rs\<close>), \<open>Graph_Ops\<close>
  (\<open>db/ops.rs\<close>), \<open>Graph_Traversal\<close> (\<open>traversal/\<close>), \<open>Graph_Db\<close> (\<open>db/mod.rs\<close>, \<open>txn.rs\<close>) are the code. \<open>Graph_Repr\<close> is the
  abstract property graph and what it means that a store holds it; \<open>Graph_Write\<close>, \<open>Graph_Nodes\<close>, \<open>Graph_Edges\<close>,
  \<open>Graph_Lookup\<close>, \<open>Graph_Cascade\<close>, \<open>Graph_Paths\<close>, \<open>Graph_Traverse\<close> prove that every operation implements its counterpart
  there, inside the locales \<open>graph_read\<close> and \<open>graph_store\<close>; \<open>Graph_Correct\<close> interprets these on both backends and states
  the properties, \<open>Graph_Search\<close> those of traversals and shortest paths. \<open>Value_Codec\<close> is an instance of the serialiser.
  The recursion of \<open>to_tree\<close> runs on fuel, the number of traversal results plus one, which no parent chain exceeds; the
  breadth-first loops have a measure.

  \<^bold>\<open>Relational store\<close> (\<open>bkndb-core/src/relational\<close>). \<open>Rel_Schema\<close> (\<open>schema/\<close>), \<open>Rel_Codec\<close> (\<open>codec.rs\<close>), \<open>Rel_Rows\<close>
  (\<open>db/read.rs\<close>, \<open>db/write.rs\<close>), \<open>Rel_Expr\<close> (\<open>expr.rs\<close>), \<open>Rel_Query\<close> (\<open>query/\<close>), \<open>Rel_Catalog\<close> (\<open>catalog.rs\<close>), \<open>Rel_Db\<close>
  (\<open>db/mod.rs\<close>, \<open>db/table.rs\<close>, \<open>txn/\<close>) are the code. \<open>Rel_Repr\<close> is the abstract table, a map from primary key to the other
  values, and what it means that a store holds it: one entry per row, index tables with exactly the entries of the rows,
  rows that satisfy the schema, unique columns without repetition. \<open>Rel_Write\<close> and \<open>Rel_Row_Ops\<close> prove that inserting,
  replacing, updating and deleting a row implement their specifications, errors included and in the order of the code;
  \<open>Rel_Plan\<close> that every access path of the planner covers the matching rows; \<open>Rel_Select\<close> that queries return the filtered,
  sorted and paged rows; \<open>Rel_Bulk\<close> and \<open>Rel_Auto\<close> predicate writes and automatic keys; \<open>Rel_Migrate\<close> that migrating a table to
  another definition succeeds exactly when the migrated rows satisfy it; \<open>Rel_Registry\<close> that creating, adopting, migrating, dropping and
  listing tables act on two maps from name to definition and rows, the registered tables and the unregistered ones in use. \<open>Rel_Correct\<close> interprets the locales \<open>rel_read\<close> and \<open>rel_store\<close>
  on both backends and states the properties.
  The theorems are about well-formed schemas (\<open>schema_ok\<close>): those of the builder, and conversions of static schemas that satisfy
  \<open>static_ok\<close>, which no code checks. A table that is not registered is used through one schema; registering it is covered when its
  rows are rows of the new definition, which the code does not check either, and when no index is removed. Row validation and the
  filling in of defaults are shared by code and specification. Sorting is insertion sort, a stable sort like \<open>sort_by\<close>; the
  comparison is not a total order on nested values that mix integers and floats, and there Rust leaves the order open or panics.

  \<^bold>\<open>Multi-model database\<close> (\<open>bkndb-core/src/db\<close>, \<open>hybrid.rs\<close>). \<open>Multi_Db\<close> is the code: transactions over all models, statistics, the
  synchronisation batch and the joins between nodes and rows. The layers share one store and its \<open>meta\<close> table; \<open>Multi_Repr\<close> shows
  that a write of one layer leaves what the other holds alone (locale \<open>multi_store\<close>), \<open>Multi_Sync\<close> that the batch implements its
  specification on a graph, the registered and the unregistered tables and their key counters, \<open>Multi_Query\<close> that joins and statistics are exact (locale \<open>multi_read\<close>).
  \<open>Multi_Correct\<close> carries this through \<open>begin_write\<close> and \<open>commit\<close> to any backend (locale \<open>multi_backend\<close>), interprets the locales on
  both backends and states the properties.

  \<^bold>\<open>Query languages\<close> (\<open>bkndb-core/src/lang\<close>). \<open>Lang_Time\<close> is the code of timestamp and UUID literals (\<open>time.rs\<close>);
  \<open>Lang_Time_Correct\<close> shows that a printed timestamp parses to the days counted by adding up years and months, and the two inputs on
  which the parser panics or overflows. \<open>Sql_Ast\<close> is the syntax tree of SQL with parameters and the binding of conditions (\<open>mod.rs\<close>,
  \<open>sql/mod.rs\<close>, \<open>sql/exec.rs\<close>), \<open>Sql_Exec\<close> the execution of every statement. \<open>Utf8\<close> shows that decoding characters loses nothing, so that
  \<open>Sql_Cond\<close> can prove that a bound condition means what it says although \<open>LIKE 'abc%'\<close> becomes a prefix test on bytes. \<open>Sql_Run\<close>
  proves statements exact in the locales \<open>rel_read\<close> and \<open>rel_store\<close>, \<open>Sql_Correct\<close> states the properties.

  \<^bold>\<open>Not modelled.\<close> File locking, paths, fsync and the operating system's share modes (I/O); the redb backend, an adapter over
  a third-party database; the search feature (full-text and vector indexes: floating-point scoring and randomised graph
  construction), the tokenizer and the parsers of the query languages and the execution of graph patterns,
  and the foreign-function interface, which marshals arguments. Behaviour of debug builds, where integer overflow panics, is not modelled.
\<close>

end
